(* ===== verification/Prelude.thy ===== *)
theory Prelude
  imports Main "HOL-Library.Word"
begin

text \<open>
  What every component shares: the machine types of the Rust sources (\<open>u8\<close>, \<open>u32\<close>, \<open>u64\<close> as
  words of that width), byte strings, fallible results as sums, the big-endian readers and
  writers of the \<open>bytes\<close> crate's \<open>Buf\<close> and \<open>BufMut\<close> traits, and the list lemmas several
  components use. A Rust \<open>String\<close> is its UTF-8 byte list throughout.
\<close>

unbundle bit_operations_syntax

named_theorems res_simps \<open>equations that compute fallible results\<close>
named_theorems byte_simps \<open>lengths and round trips of the byte-level writers and readers\<close>

section \<open>Types\<close>

type_synonym byte = "8 word"
type_synonym u16 = "16 word"
type_synonym u32 = "32 word"
type_synonym u64 = "64 word"
type_synonym bytes = "byte list"
type_synonym rstr = "byte list"

definition str :: "string \<Rightarrow> rstr" where
  "str s = map of_char s"

lemma str_Nil [simp]: "str [] = []"
  by (simp add: str_def)

lemma str_Cons [simp]: "str (c # cs) = of_char c # str cs"
  by (simp add: str_def)

lemma length_str [simp]: "length (str s) = length s"
  by (simp add: str_def)

section \<open>Results\<close>

abbreviation Err :: "'e \<Rightarrow> 'e + 'a" where "Err \<equiv> Inl"
abbreviation Ok :: "'a \<Rightarrow> 'e + 'a" where "Ok \<equiv> Inr"

definition res_bind :: "'e + 'a \<Rightarrow> ('a \<Rightarrow> 'e + 'b) \<Rightarrow> 'e + 'b" where
  "res_bind m f = (case m of Inl e \<Rightarrow> Inl e | Inr x \<Rightarrow> f x)"

lemma res_bind_simps [simp, res_simps]:
  "res_bind (Inl e) f = Inl e"
  "res_bind (Inr x) f = f x"
  by (simp_all add: res_bind_def)

lemma res_bind_Ok_iff: "res_bind m f = Inr y \<longleftrightarrow> (\<exists>x. m = Inr x \<and> f x = Inr y)"
  by (cases m) auto

lemma res_bind_Ok_E:
  assumes "res_bind m f = Inr y"
  obtains x where "m = Inr x" and "f x = Inr y"
  using assms by (cases m) auto

lemma res_bind_split:
  "P (res_bind m f) \<longleftrightarrow> (\<forall>e. m = Inl e \<longrightarrow> P (Inl e)) \<and> (\<forall>x. m = Inr x \<longrightarrow> P (f x))"
  by (cases m) auto

definition ensure :: "bool \<Rightarrow> 'e \<Rightarrow> 'e + unit" where
  "ensure b e = (if b then Inr () else Inl e)"

lemma ensure_simps [simp, res_simps]:
  "ensure True e = Inr ()"
  "ensure False e = Inl e"
  by (simp_all add: ensure_def)

lemma ensure_Ok_iff [simp]: "ensure b e = Inr u \<longleftrightarrow> b"
  by (simp add: ensure_def)

definition is_ok :: "'e + 'a \<Rightarrow> bool" where
  "is_ok r = (case r of Inl _ \<Rightarrow> False | Inr _ \<Rightarrow> True)"

lemma is_ok_simps [simp]: "is_ok (Inr x)" "\<not> is_ok (Inl e)"
  by (simp_all add: is_ok_def)

definition need :: "'a option \<Rightarrow> 'e \<Rightarrow> 'e + 'a" where
  "need r e = (case r of None \<Rightarrow> Inl e | Some x \<Rightarrow> Inr x)"

lemma need_simps [simp, res_simps]:
  "need None e = Inl e"
  "need (Some x) e = Inr x"
  by (simp_all add: need_def)

lemma need_Ok_iff [simp]: "need r e = Inr x \<longleftrightarrow> r = Some x"
  by (cases r) auto

text \<open>
  A method that takes \<open>&mut self\<close> and returns a \<open>Result\<close>: the result and the state it leaves behind,
  on the error path as well.
\<close>

definition st_bind :: "('e + 'a) \<times> 's \<Rightarrow> ('a \<Rightarrow> 's \<Rightarrow> ('e + 'b) \<times> 's) \<Rightarrow> ('e + 'b) \<times> 's" where
  "st_bind m f = (case m of (Inl e, s) \<Rightarrow> (Inl e, s) | (Inr x, s) \<Rightarrow> f x s)"

lemma st_bind_simps [simp, res_simps]:
  "st_bind (Inl e, s) f = (Inl e, s)"
  "st_bind (Inr x, s) f = f x s"
  by (simp_all add: st_bind_def)

lemma st_bind_Ok_iff:
  "st_bind m f = (Inr y, s') \<longleftrightarrow> (\<exists>x s. m = (Inr x, s) \<and> f x s = (Inr y, s'))"
  by (auto simp: st_bind_def split: prod.splits sum.splits)

section \<open>Big-endian integers\<close>

text \<open>
  \<open>be_bytes n x\<close> is what \<open>put_u8\<close>, \<open>put_u16\<close>, \<open>put_u32\<close> and \<open>put_u64\<close> write for \<open>n\<close> = 1, 2, 4, 8;
  \<open>from_be\<close> is what the corresponding readers compute from that many bytes.
\<close>

primrec be_bytes :: "nat \<Rightarrow> nat \<Rightarrow> bytes" where
  "be_bytes 0 x = []"
| "be_bytes (Suc n) x = be_bytes n (x div 256) @ [word_of_nat (x mod 256)]"

definition from_be :: "bytes \<Rightarrow> nat" where
  "from_be bs = foldl (\<lambda>acc b. acc * 256 + unat b) 0 bs"

lemma length_be_bytes [simp, byte_simps]: "length (be_bytes n x) = n"
  by (induction n arbitrary: x) auto

lemma from_be_Nil [simp]: "from_be [] = 0"
  by (simp add: from_be_def)

lemma from_be_snoc [simp]: "from_be (bs @ [b]) = from_be bs * 256 + unat b"
  by (simp add: from_be_def)

lemma unat_bound: "unat (w :: 'a::len word) < 2 ^ LENGTH('a)"
  by (rule unsigned_less)

lemma of_nat_inverse_64: "n < 2 ^ 64 \<Longrightarrow> unat (word_of_nat n :: u64) = n"
  by (simp add: unat_of_nat)

lemma unat_byte_lt: "unat (b :: byte) < 256"
  using unat_bound [of b] by simp

lemma unat_width [simp]:
  "unat (a :: byte) < 256" "unat (b :: u16) < 65536"
  "unat (c :: u32) < 4294967296" "unat (d :: u64) < 18446744073709551616"
  using unat_bound [of a] unat_bound [of b] unat_bound [of c] unat_bound [of d] by simp_all

lemma unat_byte_of_mod: "unat (word_of_nat (x mod 256) :: byte) = x mod 256"
  by (simp add: unat_of_nat)

lemma from_be_be_bytes: "from_be (be_bytes n x) = x mod 256 ^ n"
proof (induction n arbitrary: x)
  case 0
  then show ?case by simp
next
  case (Suc n)
  have "from_be (be_bytes (Suc n) x) = (x div 256 mod 256 ^ n) * 256 + x mod 256"
    by (simp only: be_bytes.simps from_be_snoc Suc.IH unat_byte_of_mod)
  also have "\<dots> = x mod (256 * 256 ^ n)"
    by (simp add: mod_mult2_eq)
  finally show ?case by simp
qed

lemma from_be_lt: "from_be bs < 256 ^ length bs"
proof (induction bs rule: rev_induct)
  case Nil
  then show ?case by simp
next
  case (snoc b bs)
  have "from_be bs * 256 + unat b < (from_be bs + 1) * 256"
    using unat_byte_lt [of b] by simp
  also have "\<dots> \<le> 256 ^ length bs * 256"
    using snoc by (intro mult_right_mono) auto
  finally show ?case by (simp add: mult.commute)
qed

lemma be_bytes_from_be: "length bs = n \<Longrightarrow> be_bytes n (from_be bs) = bs"
proof (induction bs arbitrary: n rule: rev_induct)
  case Nil
  then show ?case by simp
next
  case (snoc b bs)
  then obtain m where n: "n = Suc m" and m: "length bs = m" by auto
  have "(from_be bs * 256 + unat b) div 256 = from_be bs"
    and "(from_be bs * 256 + unat b) mod 256 = unat b"
    using unat_byte_lt [of b] by auto
  then show ?case using snoc.IH [OF m] n by simp
qed

lemma from_be_be_bytes_word [simp, byte_simps]:
  "from_be (be_bytes 1 (unat (a :: byte))) = unat a"
  "from_be (be_bytes 2 (unat (b :: u16))) = unat b"
  "from_be (be_bytes 4 (unat (c :: u32))) = unat c"
  "from_be (be_bytes 8 (unat (d :: u64))) = unat d"
  using unat_bound [of a] unat_bound [of b] unat_bound [of c] unat_bound [of d]
  by (simp_all only: from_be_be_bytes) simp_all

text \<open>The typed writers, with the names of \<open>BufMut\<close>.\<close>

definition put_u16 :: "u16 \<Rightarrow> bytes" where "put_u16 x = be_bytes 2 (unat x)"
definition put_u32 :: "u32 \<Rightarrow> bytes" where "put_u32 x = be_bytes 4 (unat x)"
definition put_u64 :: "u64 \<Rightarrow> bytes" where "put_u64 x = be_bytes 8 (unat x)"

lemma length_put [simp, byte_simps]:
  "length (put_u16 a) = 2" "length (put_u32 b) = 4" "length (put_u64 c) = 8"
  by (simp_all add: put_u16_def put_u32_def put_u64_def)

lemma put_not_Nil [simp]: "put_u16 a \<noteq> []" "put_u32 b \<noteq> []" "put_u64 c \<noteq> []"
  by (simp_all flip: length_greater_0_conv)

text \<open>
  The readers of \<open>Buf\<close> advance the slice and panic when it is too short; here they are a fixed
  prefix of the list and its rest. \<open>take_n\<close> is the bounds check and the split.
\<close>

definition take_n :: "nat \<Rightarrow> bytes \<Rightarrow> (bytes \<times> bytes) option" where
  "take_n n bs = (if n \<le> length bs then Some (take n bs, drop n bs) else None)"

definition get_u8 :: "bytes \<Rightarrow> (byte \<times> bytes) option" where
  "get_u8 bs = (case bs of [] \<Rightarrow> None | b # r \<Rightarrow> Some (b, r))"

definition get_u16 :: "bytes \<Rightarrow> (u16 \<times> bytes) option" where
  "get_u16 bs = map_option (map_prod (\<lambda>x. word_of_nat (from_be x)) id) (take_n 2 bs)"

definition get_u32 :: "bytes \<Rightarrow> (u32 \<times> bytes) option" where
  "get_u32 bs = map_option (map_prod (\<lambda>x. word_of_nat (from_be x)) id) (take_n 4 bs)"

definition get_u64 :: "bytes \<Rightarrow> (u64 \<times> bytes) option" where
  "get_u64 bs = map_option (map_prod (\<lambda>x. word_of_nat (from_be x)) id) (take_n 8 bs)"

lemma take_n_append [simp]: "length a = n \<Longrightarrow> take_n n (a @ r) = Some (a, r)"
  by (simp add: take_n_def)

lemma get_put [simp, byte_simps]:
  "get_u8 (b # r) = Some (b, r)"
  "get_u16 (put_u16 x @ r) = Some (x, r)"
  "get_u32 (put_u32 y @ r) = Some (y, r)"
  "get_u64 (put_u64 z @ r) = Some (z, r)"
  by (simp_all add: get_u8_def get_u16_def get_u32_def get_u64_def put_u16_def put_u32_def put_u64_def)

lemma get_None [simp]:
  "get_u8 bs = None \<longleftrightarrow> bs = []"
  "get_u16 bs = None \<longleftrightarrow> length bs < 2"
  "get_u32 bs = None \<longleftrightarrow> length bs < 4"
  "get_u64 bs = None \<longleftrightarrow> length bs < 8"
  by (auto simp: get_u8_def get_u16_def get_u32_def get_u64_def take_n_def split: list.splits)

lemma get_Some_length:
  "get_u8 bs = Some (a, r) \<Longrightarrow> length r + 1 = length bs"
  "get_u16 bs = Some (b, r) \<Longrightarrow> length r + 2 = length bs"
  "get_u32 bs = Some (c, r) \<Longrightarrow> length r + 4 = length bs"
  "get_u64 bs = Some (d, r) \<Longrightarrow> length r + 8 = length bs"
  by (auto simp: get_u8_def get_u16_def get_u32_def get_u64_def take_n_def split: list.splits if_splits)

section \<open>Lists\<close>

text \<open>A \<open>BTreeMap\<close> is the list of its entries in key order; \<open>map_of\<close> looks a key up.\<close>

fun bt_insert :: "'k::linorder \<Rightarrow> 'v \<Rightarrow> ('k \<times> 'v) list \<Rightarrow> ('k \<times> 'v) list" where
  "bt_insert k v [] = [(k, v)]"
| "bt_insert k v ((k', v') # m) =
     (if k < k' then (k, v) # (k', v') # m
      else if k = k' then (k, v) # m
      else (k', v') # bt_insert k v m)"

lemma map_of_bt_insert [simp]: "map_of (bt_insert k v m) = (map_of m)(k \<mapsto> v)"
  by (induction k v m rule: bt_insert.induct) auto

lemma keys_bt_insert [simp]: "fst ` set (bt_insert k v m) = insert k (fst ` set m)"
  by (induction k v m rule: bt_insert.induct) auto

lemma sorted_bt_insert: "sorted_wrt (<) (map fst m) \<Longrightarrow> sorted_wrt (<) (map fst (bt_insert k v m))"
proof (induction k v m rule: bt_insert.induct)
  case (2 k v k' v' m)
  have "\<forall>x \<in> fst ` set (bt_insert k v m). k' < x" if "k' < k"
    using 2(2) that unfolding keys_bt_insert by auto
  then show ?case using 2 by (auto dest: less_trans)
qed simp

lemma last_filter_snoc: "P x \<Longrightarrow> last (filter P (xs @ [x])) = x"
  by simp

lemma upt_append_length: "[a..<a + m] @ [a + m..<a + m + n] = [a..<a + m + n]"
  by (metis add.commute le_add2 upt_add_eq_append add.assoc)

lemma concat_map_Nil [simp]: "concat (map (\<lambda>_. []) xs) = []"
  by (induction xs) auto

lemma foldl_append_acc: "foldl (\<lambda>acc x. acc @ f x) a xs = a @ concat (map f xs)"
  by (induction xs arbitrary: a) auto

lemma map_of_upd_keys: "map_of (map (\<lambda>(k, v). (k, f k v)) xs) k = map_option (f k) (map_of xs k)"
  by (induction xs) auto

end
