(* ===== verification/FrameCodec.thy ===== *)
theory FrameCodec
  imports Prelude
begin

text \<open>
  The frame format of the durable log (\<open>crates/graydb-log/src/lib.rs\<close>): \<open>encode_frame\<close>,
  \<open>decode_frame\<close> and the loop that reads frame after frame from a segment. The CRC-32C
  function is a third-party crate's and is the parameter \<open>crc\<close> of every definition.
\<close>

section \<open>Frames\<close>

definition FRAME_MAGIC :: u32 where "FRAME_MAGIC = 0x47444246"

definition HEADER_LEN :: nat where "HEADER_LEN = 4 + 8 + 8 + 8 + 1 + 4"

definition FLAG_TXN_COMPLETE :: byte where "FLAG_TXN_COMPLETE = 1"

record frame =
  fr_seq :: u64
  fr_lsn_start :: u64
  fr_lsn_end :: u64
  fr_txn_complete :: bool
  fr_payload :: bytes

datatype decode_error =
    TruncatedHeader nat
  | BadMagic u32
  | TruncatedPayload u64 nat nat
  | CrcMismatch u64 u32 u32
  | DecodePanic

type_synonym crc_fun = "bytes \<Rightarrow> u32"

definition frame_body :: "frame \<Rightarrow> bytes" where
  "frame_body f =
     put_u32 FRAME_MAGIC @ put_u64 (fr_seq f) @ put_u64 (fr_lsn_start f) @ put_u64 (fr_lsn_end f)
     @ [if fr_txn_complete f then FLAG_TXN_COMPLETE else 0]
     @ put_u32 (word_of_nat (length (fr_payload f))) @ fr_payload f"

definition encode_frame :: "crc_fun \<Rightarrow> frame \<Rightarrow> bytes" where
  "encode_frame crc f = (let buf = frame_body f in buf @ put_u32 (crc buf))"

definition decode_frame :: "crc_fun \<Rightarrow> bytes \<Rightarrow> decode_error + (frame option \<times> bytes)" where
  "decode_frame crc data =
    (if data = [] then Ok (None, [])
     else if length data < HEADER_LEN + 4 then Err (TruncatedHeader (length data))
     else
       res_bind (need (get_u32 data) DecodePanic) (\<lambda>(magic, h1).
       if magic \<noteq> FRAME_MAGIC then Err (BadMagic magic)
       else
       res_bind (need (get_u64 h1) DecodePanic) (\<lambda>(seq, h2).
       res_bind (need (get_u64 h2) DecodePanic) (\<lambda>(lsn_start, h3).
       res_bind (need (get_u64 h3) DecodePanic) (\<lambda>(lsn_end, h4).
       res_bind (need (get_u8 h4) DecodePanic) (\<lambda>(flags, h5).
       res_bind (need (get_u32 h5) DecodePanic) (\<lambda>(plen, h6).
       let payload_len = unat plen; total = HEADER_LEN + payload_len + 4 in
       if length data < total then Err (TruncatedPayload seq total (length data))
       else
       res_bind (need (get_u32 (drop (HEADER_LEN + payload_len) data)) DecodePanic)
         (\<lambda>(crc_stored, _).
       let crc_actual = crc (take (HEADER_LEN + payload_len) data) in
       if crc_stored \<noteq> crc_actual then Err (CrcMismatch seq crc_stored crc_actual)
       else Ok (Some \<lparr>fr_seq = seq, fr_lsn_start = lsn_start, fr_lsn_end = lsn_end,
                      fr_txn_complete = (flags AND FLAG_TXN_COMPLETE \<noteq> 0),
                      fr_payload = take payload_len (drop HEADER_LEN data)\<rparr>,
                drop total data)))))))))"

text \<open>\<open>e.to_string().contains("truncated")\<close>: the two messages that say so.\<close>

fun is_truncated :: "decode_error \<Rightarrow> bool" where
  "is_truncated (TruncatedHeader _) = True"
| "is_truncated (TruncatedPayload _ _ _) = True"
| "is_truncated _ = False"

section \<open>Properties of one frame\<close>

text \<open>The \<open>as u32\<close> cast keeps the length exactly when it fits.\<close>

definition fits :: "frame \<Rightarrow> bool" where
  "fits f \<longleftrightarrow> length (fr_payload f) < 2 ^ 32"

lemma HEADER_LEN_eq [simp]: "HEADER_LEN = 33"
  by (simp add: HEADER_LEN_def)

lemma length_frame_body [simp, byte_simps]:
  "length (frame_body f) = 33 + length (fr_payload f)"
  by (simp add: frame_body_def)

lemma length_encode_frame [simp, byte_simps]:
  "length (encode_frame crc f) = 37 + length (fr_payload f)"
  by (simp add: encode_frame_def Let_def)

lemma encode_frame_not_Nil [simp]: "encode_frame crc f \<noteq> []"
  by (simp flip: length_greater_0_conv)

lemma unat_len_u32: "fits f \<Longrightarrow> unat (word_of_nat (length (fr_payload f)) :: u32) = length (fr_payload f)"
  by (simp add: fits_def unat_of_nat)

lemma drop_body_payload [simp]: "drop 33 (frame_body f) = fr_payload f"
  by (simp add: frame_body_def)

lemma drop_encode: "drop (33 + length (fr_payload f)) (encode_frame crc f @ r) = put_u32 (crc (frame_body f)) @ r"
  and take_encode: "take (33 + length (fr_payload f)) (encode_frame crc f @ r) = frame_body f"
  by (simp_all add: encode_frame_def Let_def)

lemma flag_and [simp]: "(if b then FLAG_TXN_COMPLETE else 0) AND FLAG_TXN_COMPLETE \<noteq> 0 \<longleftrightarrow> b"
  by (simp add: FLAG_TXN_COMPLETE_def)

lemma decode_encode:
  assumes "fits f"
  shows "decode_frame crc (encode_frame crc f @ rest) = Ok (Some f, rest)"
proof -
  define d where "d = encode_frame crc f @ rest"
  define L where "L = length (fr_payload f)"
  define fl where "fl = (if fr_txn_complete f then FLAG_TXN_COMPLETE else 0)"
  define ln where "ln = (word_of_nat (length (fr_payload f)) :: u32)"
  have d: "d = put_u32 FRAME_MAGIC @ put_u64 (fr_seq f) @ put_u64 (fr_lsn_start f) @
      put_u64 (fr_lsn_end f) @ fl # put_u32 ln @ fr_payload f @ put_u32 (crc (frame_body f)) @ rest"
    by (simp add: d_def fl_def ln_def encode_frame_def frame_body_def Let_def)
  have g0: "get_u32 d = Some (FRAME_MAGIC, put_u64 (fr_seq f) @ put_u64 (fr_lsn_start f) @
      put_u64 (fr_lsn_end f) @ fl # put_u32 ln @ fr_payload f @ put_u32 (crc (frame_body f)) @ rest)"
    by (simp only: d get_put)
  have gc: "get_u32 (drop (33 + L) d) = Some (crc (frame_body f), rest)"
    unfolding d_def L_def by (simp only: drop_encode get_put)
  have tk: "take (33 + L) d = frame_body f"
    unfolding d_def L_def by (simp only: take_encode)
  have pay: "take L (drop 33 d) = fr_payload f" and tot: "drop (33 + L + 4) d = rest"
    and ld: "length d = 37 + L + length rest" and ne: "d \<noteq> []"
    by (simp_all add: d_def L_def encode_frame_def Let_def)
  have ln: "unat ln = L"
    unfolding ln_def L_def by (rule unat_len_u32 [OF assms])
  have fl: "fl AND FLAG_TXN_COMPLETE \<noteq> 0 \<longleftrightarrow> fr_txn_complete f"
    unfolding fl_def by (rule flag_and)
  have bounds: "\<not> 37 + L + length rest < 33 + 4" "\<not> 37 + L + length rest < 33 + L + 4" by simp_all
  have "decode_frame crc d = Ok (Some f, rest)"
    unfolding decode_frame_def
    by (simp only: ne ld HEADER_LEN_eq g0 gc get_put need_simps res_bind_simps prod.case if_False
        if_True simp_thms refl ln Let_def tk pay tot fl bounds) simp
  then show ?thesis by (simp add: d_def)
qed

lemma decode_empty [simp]: "decode_frame crc [] = Ok (None, [])"
  by (simp add: decode_frame_def)

lemma decode_short:
  "data \<noteq> [] \<Longrightarrow> length data < 37 \<Longrightarrow> decode_frame crc data = Err (TruncatedHeader (length data))"
  by (simp add: decode_frame_def)

text \<open>A decoded frame took at least its header and trailer off the input.\<close>

lemma decode_Some_length:
  "decode_frame crc data = Ok (Some f, rest) \<Longrightarrow>
    length data = 37 + length (fr_payload f) + length rest \<and> fits f"
  by (auto simp: decode_frame_def res_bind_Ok_iff Let_def fits_def
      split: if_splits prod.splits)

lemma decode_None_iff: "decode_frame crc data = Ok (None, rest) \<longleftrightarrow> data = [] \<and> rest = []"
  by (auto simp: decode_frame_def res_bind_Ok_iff Let_def split: if_splits prod.splits)

lemma decode_never_panics: "decode_frame crc data \<noteq> Err DecodePanic"
proof (cases "data = [] \<or> length data < 37")
  case True
  then show ?thesis by (auto simp: decode_frame_def)
next
  case False
  then have long: "37 \<le> length data" by simp
  obtain m h1 where h1: "get_u32 data = Some (m, h1)" "length h1 + 4 = length data"
    using long get_Some_length(3) [of data] get_None(3) [of data] by (cases "get_u32 data") auto
  obtain a h2 where h2: "get_u64 h1 = Some (a, h2)" "length h2 + 8 = length h1"
    using long h1(2) get_Some_length(4) [of h1] get_None(4) [of h1] by (cases "get_u64 h1") auto
  obtain b h3 where h3: "get_u64 h2 = Some (b, h3)" "length h3 + 8 = length h2"
    using long h1(2) h2(2) get_Some_length(4) [of h2] get_None(4) [of h2] by (cases "get_u64 h2") auto
  obtain c h4 where h4: "get_u64 h3 = Some (c, h4)" "length h4 + 8 = length h3"
    using long h1(2) h2(2) h3(2) get_Some_length(4) [of h3] get_None(4) [of h3]
    by (cases "get_u64 h3") auto
  obtain d h5 where h5: "get_u8 h4 = Some (d, h5)" "length h5 + 1 = length h4"
    using long h1(2) h2(2) h3(2) h4(2) get_Some_length(1) [of h4] get_None(1) [of h4]
    by (cases "get_u8 h4") auto
  obtain e h6 where h6: "get_u32 h5 = Some (e, h6)"
    using long h1(2) h2(2) h3(2) h4(2) h5(2) get_None(3) [of h5] by (cases "get_u32 h5") auto
  show ?thesis
  proof (cases "get_u32 (drop (33 + unat e) data)")
    case None
    then have "length data < 33 + unat e + 4" by simp
    then show ?thesis
      using False by (auto simp: decode_frame_def h1(1) h2(1) h3(1) h4(1) h5(1) h6 Let_def)
  next
    case (Some r)
    then show ?thesis
      using False by (cases r) (auto simp: decode_frame_def h1(1) h2(1) h3(1) h4(1) h5(1) h6 Let_def)
  qed
qed

text \<open>
  A frame cut off anywhere is reported as truncated, never accepted and never mistaken for
  another kind of damage: the fields read from a cut frame are the frame's own.
\<close>

lemma take_put_append: "m \<le> n \<Longrightarrow> length a = m \<Longrightarrow> take n (a @ b) = a @ take (n - m) b"
  by simp

lemma decode_cut:
  assumes "fits f" "0 < n" "n < length (encode_frame crc f)"
  shows "\<exists>e. decode_frame crc (take n (encode_frame crc f)) = Err e \<and> is_truncated e"
proof (cases "n < 37")
  case True
  with assms show ?thesis by (auto simp: decode_short)
next
  case False
  let ?d = "take n (encode_frame crc f)"
  let ?flag = "if fr_txn_complete f then FLAG_TXN_COMPLETE else 0"
  let ?len = "word_of_nat (length (fr_payload f)) :: u32"
  let ?t = "take (n - 33) (fr_payload f @ put_u32 (crc (frame_body f)))"
  have e: "encode_frame crc f = (put_u32 FRAME_MAGIC @ put_u64 (fr_seq f) @ put_u64 (fr_lsn_start f) @
      put_u64 (fr_lsn_end f) @ ?flag # put_u32 ?len) @ fr_payload f @ put_u32 (crc (frame_body f))"
    by (simp add: encode_frame_def frame_body_def Let_def)
  have d: "?d = put_u32 FRAME_MAGIC @ put_u64 (fr_seq f) @ put_u64 (fr_lsn_start f) @
      put_u64 (fr_lsn_end f) @ ?flag # put_u32 ?len @ ?t"
    unfolding e using False by (subst take_put_append [where m = 33]) simp_all
  have len: "length ?d = n" and ne: "?d \<noteq> []" using assms by auto
  have g0: "get_u32 ?d = Some (FRAME_MAGIC, put_u64 (fr_seq f) @ put_u64 (fr_lsn_start f) @
      put_u64 (fr_lsn_end f) @ ?flag # put_u32 ?len @ ?t)"
    by (simp only: d get_put)
  have cut: "n < 33 + length (fr_payload f) + 4" using assms by simp
  have "decode_frame crc ?d =
      Err (TruncatedPayload (fr_seq f) (33 + length (fr_payload f) + 4) n)"
    unfolding decode_frame_def
    by (simp only: ne len HEADER_LEN_eq g0 get_put need_simps res_bind_simps prod.case if_False
        if_True simp_thms refl unat_len_u32 [OF assms(1)] Let_def cut)
       (use False in simp)
  then show ?thesis by simp
qed

section \<open>Reading a segment\<close>

text \<open>
  The loop \<open>match decode_frame(&mut cursor)\<close> of \<open>resume\<close>, \<open>verify_log\<close> and \<open>LogTail::read_new\<close>:
  the frames before the first error or the clean end, each with the bytes it took, and the error.
\<close>

function scan_frames :: "crc_fun \<Rightarrow> bytes \<Rightarrow> (frame \<times> nat) list \<times> decode_error option" where
  "scan_frames crc data =
    (case decode_frame crc data of
       Inl e \<Rightarrow> ([], Some e)
     | Inr (None, _) \<Rightarrow> ([], None)
     | Inr (Some f, rest) \<Rightarrow>
         (let (fs, e) = scan_frames crc rest in ((f, length data - length rest) # fs, e)))"
  by pat_completeness auto
termination
  by (relation "measure (\<lambda>(crc, data). length data)") (auto dest: decode_Some_length)

declare scan_frames.simps [simp del]

abbreviation scanned :: "crc_fun \<Rightarrow> bytes \<Rightarrow> frame list" where
  "scanned crc data \<equiv> map fst (fst (scan_frames crc data))"

abbreviation scan_err :: "crc_fun \<Rightarrow> bytes \<Rightarrow> decode_error option" where
  "scan_err crc data \<equiv> snd (scan_frames crc data)"

definition encode_all :: "crc_fun \<Rightarrow> frame list \<Rightarrow> bytes" where
  "encode_all crc fs = concat (map (encode_frame crc) fs)"

definition sized :: "crc_fun \<Rightarrow> frame list \<Rightarrow> (frame \<times> nat) list" where
  "sized crc fs = map (\<lambda>f. (f, length (encode_frame crc f))) fs"

lemma encode_all_simps [simp]:
  "encode_all crc [] = []"
  "encode_all crc (f # fs) = encode_frame crc f @ encode_all crc fs"
  "encode_all crc (fs @ gs) = encode_all crc fs @ encode_all crc gs"
  by (simp_all add: encode_all_def)

lemma sized_simps [simp]:
  "sized crc [] = []"
  "sized crc (f # fs) = (f, 37 + length (fr_payload f)) # sized crc fs"
  "sized crc (fs @ gs) = sized crc fs @ sized crc gs"
  "map fst (sized crc fs) = fs"
  by (simp_all add: sized_def comp_def)

lemma scan_Nil [simp]: "scan_frames crc [] = ([], None)"
  by (simp add: scan_frames.simps [of crc "[]"])

lemma scan_encode_append:
  "fits f \<Longrightarrow> scan_frames crc (encode_frame crc f @ rest) =
     ((f, 37 + length (fr_payload f)) # fst (scan_frames crc rest), snd (scan_frames crc rest))"
  by (subst scan_frames.simps) (simp add: decode_encode split: prod.splits)

lemma scan_encode_all_append:
  "\<forall>f \<in> set fs. fits f \<Longrightarrow> scan_frames crc (encode_all crc fs @ rest) =
     (sized crc fs @ fst (scan_frames crc rest), snd (scan_frames crc rest))"
  by (induction fs) (auto simp: scan_encode_append)

lemma scan_encode_all:
  "\<forall>f \<in> set fs. fits f \<Longrightarrow> scan_frames crc (encode_all crc fs) = (sized crc fs, None)"
  using scan_encode_all_append [of fs crc "[]"] by simp

lemma scan_cut:
  assumes "fits f" "0 < n" "n < length (encode_frame crc f)"
  shows "\<exists>e. scan_frames crc (take n (encode_frame crc f)) = ([], Some e) \<and> is_truncated e"
  using decode_cut [OF assms] by (subst scan_frames.simps) auto

text \<open>
  What is left of a well-formed segment after losing a suffix: a prefix of its frames and, when
  the cut falls inside a frame, one truncation error.
\<close>

lemma scan_take_encode_all:
  assumes "\<forall>f \<in> set fs. fits f"
  shows "\<exists>m e. scan_frames crc (take n (encode_all crc fs)) = (sized crc (take m fs), e) \<and>
      m \<le> length fs \<and>
      length (encode_all crc (take m fs)) \<le> n \<and>
      (m < length fs \<longrightarrow> n < length (encode_all crc (take (Suc m) fs))) \<and>
      (\<forall>x. e = Some x \<longrightarrow> is_truncated x)"
  using assms
proof (induction fs arbitrary: n)
  case Nil
  then show ?case by simp
next
  case (Cons f fs)
  let ?l = "length (encode_frame crc f)"
  show ?case
  proof (cases "n < ?l")
    case True
    have *: "take n (encode_all crc (f # fs)) = take n (encode_frame crc f)"
      using True by simp
    have "\<exists>e. scan_frames crc (take n (encode_frame crc f)) = ([], e) \<and> (\<forall>x. e = Some x \<longrightarrow> is_truncated x)"
      using scan_cut [of f n crc] True Cons.prems by (cases "n = 0") auto
    with True show ?thesis
      unfolding * by (intro exI [of _ 0]) auto
  next
    case False
    from Cons.IH [of "n - ?l"] Cons.prems obtain m e where
      m: "scan_frames crc (take (n - ?l) (encode_all crc fs)) = (sized crc (take m fs), e)"
      "m \<le> length fs" "length (encode_all crc (take m fs)) \<le> n - ?l"
      "m < length fs \<longrightarrow> n - ?l < length (encode_all crc (take (Suc m) fs))"
      "\<forall>x. e = Some x \<longrightarrow> is_truncated x"
      by auto
    have "take n (encode_all crc (f # fs)) = encode_frame crc f @ take (n - ?l) (encode_all crc fs)"
      using False by simp
    with m False Cons.prems show ?thesis
      by (intro exI [of _ "Suc m"] exI [of _ e]) (auto simp: scan_encode_append)
  qed
qed

end
