(* ===== verification/FrameLog.thy ===== *)
theory FrameLog
  imports FrameCodec
begin

text \<open>
  The durable frame log, \<open>FrameLog\<close> of \<open>crates/graydb-log/src/lib.rs\<close>. The directory is the sorted
  list of its segments, each named by the sequence number its file name holds; a segment keeps how
  many of its bytes an fsync covers. Every operation takes the outcome of its input/output
  (\<open>io\<close>), so that each error return of the source is a branch of the model and the state left
  behind on that branch is part of the result.
\<close>

section \<open>Files\<close>

record segfile =
  f_data :: bytes
  f_synced :: nat

type_synonym dir = "(u64 \<times> segfile) list"

definition empty_file :: segfile where
  "empty_file = \<lparr>f_data = [], f_synced = 0\<rparr>"

text \<open>\<open>File::create\<close>: a new empty file, or an existing one emptied; the listing stays sorted.\<close>

fun dir_create :: "u64 \<Rightarrow> dir \<Rightarrow> dir" where
  "dir_create k [] = [(k, empty_file)]"
| "dir_create k ((k', f) # d) =
     (if k < k' then (k, empty_file) # (k', f) # d
      else if k = k' then (k, empty_file) # d
      else (k', f) # dir_create k d)"

definition dir_update :: "u64 \<Rightarrow> (segfile \<Rightarrow> segfile) \<Rightarrow> dir \<Rightarrow> dir" where
  "dir_update k g d = map (\<lambda>(k', f). (k', if k' = k then g f else f)) d"

definition file_append :: "bytes \<Rightarrow> segfile \<Rightarrow> segfile" where
  "file_append bs f = f\<lparr>f_data := f_data f @ bs\<rparr>"

definition file_sync :: "segfile \<Rightarrow> segfile" where
  "file_sync f = f\<lparr>f_synced := length (f_data f)\<rparr>"

section \<open>State\<close>

record durable_mark =
  dm_seq :: u64
  dm_lsn :: u64
  dm_valid :: bool

definition default_mark :: durable_mark where
  "default_mark = \<lparr>dm_seq = 0, dm_lsn = 0, dm_valid = False\<rparr>"

record frame_log =
  fl_dir :: dir
  fl_staging :: "bytes option"
  fl_segment_max :: u64
  fl_file :: u64
  fl_segment_len :: u64
  fl_next_seq :: u64
  fl_pending :: "(u64 \<times> u64) option"
  fl_mark :: durable_mark
  fl_stalled :: bool
  fl_spill :: "bytes list"
  fl_spill_open :: bool
  fl_spilled :: u64
  fl_total_frames :: u64
  fl_total_commits :: u64

datatype log_error = IoWrite | IoSync | IoCreate | NoLog

text \<open>
  How the input/output of one call ends: \<open>io_write\<close> is \<open>None\<close> when the bytes are written and
  \<open>Some n\<close> when only \<open>n\<close> of them are and the call fails.
\<close>

record io =
  io_write :: "nat option"
  io_sync :: bool
  io_create :: bool

definition io_fine :: io where
  "io_fine = \<lparr>io_write = None, io_sync = True, io_create = True\<rparr>"

section \<open>Operations\<close>

definition log_create :: "u64 \<Rightarrow> frame_log" where
  "log_create segment_max_bytes =
     \<lparr>fl_dir = [(0, empty_file)], fl_staging = None, fl_segment_max = segment_max_bytes,
      fl_file = 0, fl_segment_len = 0, fl_next_seq = 0, fl_pending = None, fl_mark = default_mark,
      fl_stalled = False, fl_spill = [], fl_spill_open = False, fl_spilled = 0,
      fl_total_frames = 0, fl_total_commits = 0\<rparr>"

definition write_file :: "io \<Rightarrow> bytes \<Rightarrow> frame_log \<Rightarrow> (log_error + unit) \<times> frame_log" where
  "write_file w bs L =
     (case io_write w of
        None \<Rightarrow> (Ok (), L\<lparr>fl_dir := dir_update (fl_file L) (file_append bs) (fl_dir L)\<rparr>)
      | Some n \<Rightarrow>
          (Err IoWrite, L\<lparr>fl_dir := dir_update (fl_file L) (file_append (take n bs)) (fl_dir L)\<rparr>))"

definition sync_file :: "io \<Rightarrow> frame_log \<Rightarrow> (log_error + unit) \<times> frame_log" where
  "sync_file w L =
     (if io_sync w then (Ok (), L\<lparr>fl_dir := dir_update (fl_file L) file_sync (fl_dir L)\<rparr>)
      else (Err IoSync, L))"

definition send_mark :: "u64 \<Rightarrow> u64 \<Rightarrow> frame_log \<Rightarrow> frame_log" where
  "send_mark seq lsn L = L\<lparr>fl_mark := \<lparr>dm_seq = seq, dm_lsn = lsn, dm_valid = True\<rparr>\<rparr>"

definition roll_segment :: "io \<Rightarrow> frame_log \<Rightarrow> (log_error + unit) \<times> frame_log" where
  "roll_segment w L =
     (if io_create w
      then (Ok (), L\<lparr>fl_dir := dir_create (fl_next_seq L) (fl_dir L), fl_file := fl_next_seq L,
                     fl_segment_len := 0\<rparr>)
      else (Err IoCreate, L))"

definition write_durable ::
    "io \<Rightarrow> u64 \<Rightarrow> u64 \<Rightarrow> bool \<Rightarrow> bytes \<Rightarrow> frame_log \<Rightarrow> (log_error + unit) \<times> frame_log" where
  "write_durable w seq lsn_end txn_complete encoded L =
     st_bind (write_file w encoded L) (\<lambda>_ L.
     let L = L\<lparr>fl_segment_len := fl_segment_len L + word_of_nat (length encoded)\<rparr> in
     if txn_complete then
       let L = L\<lparr>fl_pending := Some (seq, lsn_end)\<rparr> in
       st_bind (sync_file w L) (\<lambda>_ L.
       let L = send_mark seq lsn_end (L\<lparr>fl_pending := None\<rparr>) in
       if fl_segment_max L \<le> fl_segment_len L then roll_segment w L else (Ok (), L))
     else (Ok (), L))"

definition flush_pending :: "io \<Rightarrow> frame_log \<Rightarrow> (log_error + unit) \<times> frame_log" where
  "flush_pending w L =
     (case fl_pending L of
        None \<Rightarrow> (Ok (), L)
      | Some (dseq, dlsn) \<Rightarrow>
          st_bind (sync_file w (L\<lparr>fl_pending := None\<rparr>)) (\<lambda>_ L. (Ok (), send_mark dseq dlsn L)))"

text \<open>The head of \<open>append\<close> and \<open>append_deferred\<close>: the sequence number and the counters.\<close>

definition take_seq :: "bool \<Rightarrow> frame_log \<Rightarrow> frame_log" where
  "take_seq txn_complete L =
     L\<lparr>fl_next_seq := fl_next_seq L + 1, fl_total_frames := fl_total_frames L + 1,
       fl_total_commits := fl_total_commits L + (if txn_complete then 1 else 0)\<rparr>"

text \<open>Rung 3: the stalled branch both appends share.\<close>

definition spill_frame :: "io \<Rightarrow> bytes \<Rightarrow> frame_log \<Rightarrow> (log_error + unit) \<times> frame_log" where
  "spill_frame w encoded L =
     st_bind (if fl_spill_open L then (Ok (), L)
              else if io_create w then (Ok (), L\<lparr>fl_staging := Some [], fl_spill_open := True\<rparr>)
              else (Err IoCreate, L)) (\<lambda>_ L.
     let old = (case fl_staging L of None \<Rightarrow> [] | Some bs \<Rightarrow> bs) in
     case io_write w of
       Some n \<Rightarrow> (Err IoWrite, L\<lparr>fl_staging := Some (old @ take n encoded)\<rparr>)
     | None \<Rightarrow>
         (Ok (), L\<lparr>fl_staging := Some (old @ encoded), fl_spill := fl_spill L @ [encoded],
                   fl_spilled := fl_spilled L + 1\<rparr>))"

definition new_frame :: "u64 \<Rightarrow> u64 \<Rightarrow> u64 \<Rightarrow> bool \<Rightarrow> bytes \<Rightarrow> frame" where
  "new_frame seq lsn_start lsn_end txn_complete payload =
     \<lparr>fr_seq = seq, fr_lsn_start = lsn_start, fr_lsn_end = lsn_end,
      fr_txn_complete = txn_complete, fr_payload = payload\<rparr>"

definition log_append ::
    "crc_fun \<Rightarrow> io \<Rightarrow> u64 \<Rightarrow> u64 \<Rightarrow> bool \<Rightarrow> bytes \<Rightarrow> frame_log \<Rightarrow> (log_error + u64) \<times> frame_log" where
  "log_append crc w lsn_start lsn_end txn_complete payload L =
     (let seq = fl_next_seq L;
          L = take_seq txn_complete L;
          encoded = encode_frame crc (new_frame seq lsn_start lsn_end txn_complete payload)
      in if fl_stalled L
         then st_bind (spill_frame w encoded L) (\<lambda>_ L. (Ok seq, L))
         else st_bind (write_durable w seq lsn_end txn_complete encoded L) (\<lambda>_ L. (Ok seq, L)))"

definition log_append_deferred ::
    "crc_fun \<Rightarrow> io \<Rightarrow> u64 \<Rightarrow> u64 \<Rightarrow> bool \<Rightarrow> bytes \<Rightarrow> frame_log \<Rightarrow> (log_error + u64) \<times> frame_log" where
  "log_append_deferred crc w lsn_start lsn_end txn_complete payload L =
     (let seq = fl_next_seq L;
          L = take_seq txn_complete L;
          encoded = encode_frame crc (new_frame seq lsn_start lsn_end txn_complete payload)
      in if fl_stalled L
         then st_bind (spill_frame w encoded L) (\<lambda>_ L. (Ok seq, L))
         else
           st_bind (write_file w encoded L) (\<lambda>_ L.
           let L = L\<lparr>fl_segment_len := fl_segment_len L + word_of_nat (length encoded)\<rparr> in
           if txn_complete then
             let L = L\<lparr>fl_pending := Some (seq, lsn_end)\<rparr> in
             if fl_segment_max L \<le> fl_segment_len L then
               st_bind (flush_pending w L) (\<lambda>_ L.
               st_bind (roll_segment w L) (\<lambda>_ L. (Ok seq, L)))
             else (Ok seq, L)
           else (Ok seq, L)))"

text \<open>
  The drain of \<open>set_stalled(false)\<close>. The header of each staged frame is read back for its
  sequence number, its end and its flag (\<open>view.advance(4)\<close>, three \<open>get_u64\<close>, \<open>get_u8\<close>).
\<close>

definition header_mark :: "bytes \<Rightarrow> (u64 \<times> u64 \<times> bool) option" where
  "header_mark encoded =
     Option.bind (take_n 4 encoded) (\<lambda>(_, v).
     Option.bind (get_u64 v) (\<lambda>(seq, v).
     Option.bind (get_u64 v) (\<lambda>(_, v).
     Option.bind (get_u64 v) (\<lambda>(lsn_end, v).
     Option.bind (get_u8 v) (\<lambda>(flags, _).
     Some (seq, lsn_end, flags AND FLAG_TXN_COMPLETE \<noteq> 0))))))"

fun drain :: "io \<Rightarrow> bytes list \<Rightarrow> (u64 \<times> u64) option \<Rightarrow> frame_log
    \<Rightarrow> (log_error + (u64 \<times> u64) option) \<times> frame_log" where
  "drain w [] last_commit L = (Ok last_commit, L)"
| "drain w (encoded # frames) last_commit L =
     st_bind (write_file w encoded L) (\<lambda>_ L.
     let L = L\<lparr>fl_segment_len := fl_segment_len L + word_of_nat (length encoded)\<rparr> in
     drain w frames
       (case header_mark encoded of
          Some (seq, lsn_end, True) \<Rightarrow> Some (seq, lsn_end)
        | _ \<Rightarrow> last_commit) L)"

definition set_stalled :: "io \<Rightarrow> bool \<Rightarrow> frame_log \<Rightarrow> (log_error + unit) \<times> frame_log" where
  "set_stalled w stalled L =
     (if stalled = fl_stalled L then (Ok (), L)
      else if stalled then (Ok (), L\<lparr>fl_stalled := True\<rparr>)
      else
        st_bind (drain w (fl_spill L) None (L\<lparr>fl_spill := []\<rparr>)) (\<lambda>last_commit L.
        st_bind (sync_file w L) (\<lambda>_ L.
        let L = (case last_commit of Some (seq, lsn) \<Rightarrow> send_mark seq lsn L | None \<Rightarrow> L);
            L = L\<lparr>fl_spill_open := False, fl_staging := None, fl_stalled := False\<rparr>
        in if fl_segment_max L \<le> fl_segment_len L then roll_segment w L else (Ok (), L))))"

section \<open>Resume\<close>

text \<open>
  The recovery scan: \<open>boundary\<close> is (segment index, end offset, seq, lsn) of the last
  transaction-complete frame met, with the running counts of frames and commits.
\<close>

type_synonym scan_acc = "(nat \<times> nat \<times> u64 \<times> u64) option \<times> u64 \<times> u64"

fun resume_frames :: "nat \<Rightarrow> nat \<Rightarrow> (frame \<times> nat) list \<Rightarrow> scan_acc \<Rightarrow> scan_acc" where
  "resume_frames i offset [] acc = acc"
| "resume_frames i offset ((f, flen) # fs) (boundary, frames, commits) =
     (let offset = offset + flen in
      resume_frames i offset fs
        (if fr_txn_complete f
         then (Some (i, offset, fr_seq f, fr_lsn_end f), frames + 1, commits + 1)
         else (boundary, frames + 1, commits)))"

fun resume_scan :: "crc_fun \<Rightarrow> nat \<Rightarrow> dir \<Rightarrow> scan_acc \<Rightarrow> scan_acc" where
  "resume_scan crc i [] acc = acc"
| "resume_scan crc i ((k, f) # segs) acc =
     resume_scan crc (Suc i) segs (resume_frames i 0 (fst (scan_frames crc (f_data f))) acc)"

definition file_set_len :: "nat \<Rightarrow> segfile \<Rightarrow> segfile" where
  "file_set_len n f = file_sync (f\<lparr>f_data := take n (f_data f)\<rparr>)"

definition truncate_at :: "(nat \<times> nat \<times> u64 \<times> u64) option \<Rightarrow> dir \<Rightarrow> dir \<times> u64 \<times> durable_mark" where
  "truncate_at boundary segs =
     (case boundary of
        Some (seg_idx, end_offset, seq, lsn) \<Rightarrow>
          (map (\<lambda>(i, k, f). (k, if i = seg_idx then file_set_len end_offset f else f))
             (zip [0..<Suc seg_idx] (take (Suc seg_idx) segs)),
           seq + 1, \<lparr>dm_seq = seq, dm_lsn = lsn, dm_valid = True\<rparr>)
      | None \<Rightarrow> ([], 0, default_mark))"

definition resume :: "crc_fun \<Rightarrow> dir option \<Rightarrow> u64 \<Rightarrow> log_error + frame_log" where
  "resume crc dir segment_max_bytes =
     res_bind (need dir NoLog) (\<lambda>segs.
     let (boundary, frames, commits) = resume_scan crc 0 segs (None, 0, 0);
         (kept, next_seq, mark) = truncate_at boundary segs
     in Ok \<lparr>fl_dir = dir_create next_seq kept, fl_staging = None,
            fl_segment_max = segment_max_bytes, fl_file = next_seq, fl_segment_len = 0,
            fl_next_seq = next_seq, fl_pending = None, fl_mark = mark, fl_stalled = False,
            fl_spill = [], fl_spill_open = False, fl_spilled = 0,
            fl_total_frames = frames, fl_total_commits = commits\<rparr>)"

section \<open>Verification\<close>

record log_verification =
  lv_frames :: u64
  lv_commits :: u64
  lv_first_seq :: "u64 option"
  lv_last_seq :: "u64 option"
  lv_max_lsn_end :: u64
  lv_seq_contiguous :: bool
  lv_lsn_monotone :: bool
  lv_torn_tail :: bool

definition init_verification :: log_verification where
  "init_verification =
     \<lparr>lv_frames = 0, lv_commits = 0, lv_first_seq = None, lv_last_seq = None, lv_max_lsn_end = 0,
      lv_seq_contiguous = True, lv_lsn_monotone = True, lv_torn_tail = False\<rparr>"

text \<open>The loop's locals: the report, \<open>expected_seq\<close> and \<open>last_commit_end\<close>.\<close>

type_synonym verify_state = "log_verification \<times> u64 option \<times> u64"

fun verify_frame :: "frame \<Rightarrow> verify_state \<Rightarrow> verify_state" where
  "verify_frame f (v, expected_seq, last_commit_end) =
     (v\<lparr>lv_frames := lv_frames v + 1,
        lv_commits := lv_commits v + (if fr_txn_complete f then 1 else 0),
        lv_first_seq := (case lv_first_seq v of None \<Rightarrow> Some (fr_seq f) | Some s \<Rightarrow> Some s),
        lv_seq_contiguous := lv_seq_contiguous v \<and>
          (case expected_seq of None \<Rightarrow> True | Some e \<Rightarrow> fr_seq f = e),
        lv_lsn_monotone := lv_lsn_monotone v \<and>
          \<not> (fr_txn_complete f \<and> fr_lsn_end f < last_commit_end),
        lv_max_lsn_end := max (lv_max_lsn_end v) (fr_lsn_end f),
        lv_last_seq := Some (fr_seq f)\<rparr>,
      Some (fr_seq f + 1),
      if fr_txn_complete f then fr_lsn_end f else last_commit_end)"

text \<open>
  The segments in order; the frames \<open>inspect\<close> is called on are the second component. An error is
  tolerated only as a truncation at the end of the last segment.
\<close>

fun verify_segs ::
    "crc_fun \<Rightarrow> bool \<Rightarrow> dir \<Rightarrow> verify_state \<Rightarrow> frame list \<Rightarrow> decode_error + (log_verification \<times> frame list)"
  where
  "verify_segs crc allow_torn [] st seen = Ok (fst st, seen)"
| "verify_segs crc allow_torn ((k, f) # segs) st seen =
     (let (fs, e) = scan_frames crc (f_data f);
          st = fold verify_frame (map fst fs) st;
          seen = seen @ map fst fs
      in case e of
           None \<Rightarrow> verify_segs crc allow_torn segs st seen
         | Some err \<Rightarrow>
             if allow_torn \<and> segs = [] \<and> is_truncated err
             then Ok (fst st \<lparr>lv_torn_tail := True\<rparr>, seen)
             else Err err)"

definition verify_log :: "crc_fun \<Rightarrow> bool \<Rightarrow> dir \<Rightarrow> decode_error + (log_verification \<times> frame list)" where
  "verify_log crc allow_torn_tail segs =
     verify_segs crc allow_torn_tail segs (init_verification, None, 0) []"

end
