(* ===== verification/LogCustody.thy ===== *)
theory LogCustody
  imports FrameLog
begin

text \<open>
  The ack invariant of the frame log: what the directory of a log looks like after any sequence
  of operations (\<open>log_inv\<close>), that the durable mark is covered by fsync'd bytes on every path,
  error paths included, and that \<open>resume\<close> after a crash at any point recovers a well-formed log
  holding every frame up to the mark. The ghost layout of a log is the list \<open>init\<close> of its full
  segments (name and frames), the frames \<open>lf\<close> of the open segment, the number \<open>j\<close> of those that
  are synced, and the frames \<open>sp\<close> spilled to staging.
\<close>

section \<open>Prefixes that end in a commit\<close>

definition upto_commit :: "frame list \<Rightarrow> frame list" where
  "upto_commit fs = rev (dropWhile (\<lambda>f. \<not> fr_txn_complete f) (rev fs))"

abbreviation has_commit :: "frame list \<Rightarrow> bool" where
  "has_commit fs \<equiv> \<exists>f \<in> set fs. fr_txn_complete f"

lemma upto_commit_Nil [simp]: "upto_commit [] = []"
  by (simp add: upto_commit_def)

lemma upto_commit_snoc [simp]:
  "upto_commit (fs @ [f]) = (if fr_txn_complete f then fs @ [f] else upto_commit fs)"
  by (simp add: upto_commit_def)

lemma upto_commit_append:
  "upto_commit (fs @ gs) = (if has_commit gs then fs @ upto_commit gs else upto_commit fs)"
proof (induction gs rule: rev_induct)
  case Nil
  then show ?case by simp
next
  case (snoc g gs)
  then show ?case by (auto simp flip: append_assoc)
qed

lemma upto_commit_no: "\<not> has_commit fs \<Longrightarrow> upto_commit fs = []"
  using upto_commit_append [of "[]" fs] by simp

lemma upto_commit_prefix: "\<exists>r. fs = upto_commit fs @ r \<and> \<not> has_commit r"
proof (induction fs rule: rev_induct)
  case Nil
  then show ?case by simp
next
  case (snoc f fs)
  then obtain r where r: "fs = upto_commit fs @ r" "\<not> has_commit r" by blast
  show ?case
  proof (cases "fr_txn_complete f")
    case True
    then show ?thesis by simp
  next
    case False
    have "fs @ [f] = upto_commit fs @ r @ [f]" using r(1) by simp
    with False r(2) show ?thesis by (intro exI [of _ "r @ [f]"]) auto
  qed
qed

lemma upto_commit_take: "\<exists>m \<le> length fs. upto_commit fs = take m fs"
proof -
  obtain r where "fs = upto_commit fs @ r" using upto_commit_prefix by blast
  then have "upto_commit fs = take (length (upto_commit fs)) fs \<and> length (upto_commit fs) \<le> length fs"
    by (metis append_eq_conv_conj le_add1 length_append)
  then show ?thesis by blast
qed

lemma upto_commit_ends: "has_commit fs \<Longrightarrow> upto_commit fs \<noteq> [] \<and> fr_txn_complete (last (upto_commit fs))"
  by (induction fs rule: rev_induct) auto

lemma upto_commit_mem: "c \<in> set fs \<Longrightarrow> fr_txn_complete c \<Longrightarrow> c \<in> set (upto_commit fs)"
  by (induction fs rule: rev_induct) auto

lemma upto_commit_subset: "set (upto_commit fs) \<subseteq> set fs"
  using upto_commit_prefix [of fs] by (metis Un_iff set_append subsetI)

lemma upto_commit_idem [simp]: "upto_commit (upto_commit fs) = upto_commit fs"
  by (induction fs rule: rev_induct) auto

section \<open>The layout of a log's directory\<close>

definition numbered :: "frame list \<Rightarrow> bool" where
  "numbered fs \<longleftrightarrow> map fr_seq fs = map word_of_nat [0..<length fs]"

lemma numbered_Nil [simp]: "numbered []"
  by (simp add: numbered_def)

lemma numbered_snoc:
  "numbered (fs @ [f]) \<longleftrightarrow> numbered fs \<and> fr_seq f = word_of_nat (length fs)"
  by (simp add: numbered_def)

lemma numbered_prefix: "numbered (fs @ gs) \<Longrightarrow> numbered fs"
  by (induction gs rule: rev_induct) (auto simp flip: append_assoc simp: numbered_snoc)

lemma numbered_take: "numbered fs \<Longrightarrow> numbered (take m fs)"
  using numbered_prefix [of "take m fs" "drop m fs"] by simp

lemma numbered_last: "numbered fs \<Longrightarrow> fs \<noteq> [] \<Longrightarrow> fr_seq (last fs) + 1 = word_of_nat (length fs)"
  by (cases fs rule: rev_cases) (auto simp: numbered_snoc add.commute)

fun keyed :: "nat \<Rightarrow> (u64 \<times> frame list) list \<Rightarrow> bool" where
  "keyed n [] = True"
| "keyed n ((k, fs) # r) = (k = word_of_nat n \<and> fs \<noteq> [] \<and> keyed (n + length fs) r)"

abbreviation flat :: "(u64 \<times> frame list) list \<Rightarrow> frame list" where
  "flat init \<equiv> concat (map snd init)"

definition full_seg :: "crc_fun \<Rightarrow> u64 \<times> frame list \<Rightarrow> u64 \<times> segfile" where
  "full_seg crc = (\<lambda>(k, fs). (k, \<lparr>f_data = encode_all crc fs, f_synced = length (encode_all crc fs)\<rparr>))"

definition open_seg :: "crc_fun \<Rightarrow> frame list \<Rightarrow> nat \<Rightarrow> nat \<Rightarrow> segfile" where
  "open_seg crc lf j n = \<lparr>f_data = take n (encode_all crc lf), f_synced = length (encode_all crc (take j lf))\<rparr>"

definition disk :: "crc_fun \<Rightarrow> (u64 \<times> frame list) list \<Rightarrow> frame list \<Rightarrow> nat \<Rightarrow> nat \<Rightarrow> dir" where
  "disk crc init lf j n =
     map (full_seg crc) init @ [(word_of_nat (length (flat init)), open_seg crc lf j n)]"

definition layout_ok :: "crc_fun \<Rightarrow> (u64 \<times> frame list) list \<Rightarrow> frame list \<Rightarrow> nat \<Rightarrow> nat \<Rightarrow> bool" where
  "layout_ok crc init lf j n \<longleftrightarrow>
     keyed 0 init \<and> numbered (flat init @ lf) \<and> (\<forall>f \<in> set (flat init @ lf). fits f) \<and>
     length (flat init @ lf) < 2 ^ 64 \<and> j \<le> length lf \<and> length (encode_all crc (take j lf)) \<le> n"

definition mark_in :: "durable_mark \<Rightarrow> frame list \<Rightarrow> bool" where
  "mark_in m fs \<longleftrightarrow>
     (dm_valid m \<longrightarrow> (\<exists>c \<in> set fs. fr_txn_complete c \<and> fr_seq c = dm_seq m \<and> fr_lsn_end c = dm_lsn m))"

abbreviation synced_frames :: "(u64 \<times> frame list) list \<Rightarrow> frame list \<Rightarrow> nat \<Rightarrow> frame list" where
  "synced_frames init lf j \<equiv> flat init @ take j lf"

definition custody :: "crc_fun \<Rightarrow> dir \<Rightarrow> durable_mark set \<Rightarrow> bool" where
  "custody crc d ms \<longleftrightarrow>
     (\<exists>init lf j n. d = disk crc init lf j n \<and> layout_ok crc init lf j n \<and>
        (\<forall>m \<in> ms. mark_in m (synced_frames init lf j)))"

lemma mark_in_default [simp]: "mark_in default_mark fs"
  by (simp add: mark_in_def default_mark_def)

lemma mark_in_mono: "mark_in m fs \<Longrightarrow> set fs \<subseteq> set gs \<Longrightarrow> mark_in m gs"
  by (auto simp: mark_in_def)

lemma keyed_append:
  "keyed n (xs @ ys) \<longleftrightarrow> keyed n xs \<and> keyed (n + length (flat xs)) ys"
  by (induction n xs rule: keyed.induct) (auto simp: add.assoc)

lemma keyed_less:
  assumes "keyed n init" "n + length (flat init) < 2 ^ 64" "(k, fs) \<in> set init"
  shows "k < word_of_nat (n + length (flat init))"
  using assms
proof (induction n init rule: keyed.induct)
  case (1 n)
  then show ?case by simp
next
  case (2 n k' fs' r)
  have len: "n + length (flat ((k', fs') # r)) = n + length fs' + length (flat r)" by simp
  show ?case
  proof (cases "(k, fs) \<in> set r")
    case True
    with 2 show ?thesis unfolding len by simp
  next
    case False
    then have "k = word_of_nat n" "fs' \<noteq> []" using 2(2,4) by auto
    then show ?thesis
      using 2(3) unfolding len
      by (simp add: word_less_nat_alt unat_of_nat del: of_nat_add)
  qed
qed

lemma dir_create_above: "(\<forall>(k', f) \<in> set d. k' < k) \<Longrightarrow> dir_create k d = d @ [(k, empty_file)]"
  by (induction k d rule: dir_create.induct) auto

lemma dir_create_same: "(\<forall>(k', f) \<in> set d. k' < k) \<Longrightarrow> dir_create k (d @ [(k, f)]) = d @ [(k, empty_file)]"
  by (induction k d rule: dir_create.induct) auto

lemma full_seg_key: "fst (full_seg crc x) = fst x"
  by (simp add: full_seg_def split: prod.splits)

lemma full_keys_less:
  assumes "keyed 0 init" "length (flat init) < 2 ^ 64"
  shows "\<forall>(k', f) \<in> set (map (full_seg crc) init). k' < word_of_nat (length (flat init))"
  using keyed_less [OF assms(1)] assms(2) by (auto simp: full_seg_def)

lemma dir_update_disk:
  assumes "keyed 0 init" "length (flat init) < 2 ^ 64"
  shows "dir_update (word_of_nat (length (flat init))) g (disk crc init lf j n) =
    map (full_seg crc) init @ [(word_of_nat (length (flat init)), g (open_seg crc lf j n))]"
proof -
  have "map (\<lambda>(k', f). (k', if k' = word_of_nat (length (flat init)) then g f else f))
      (map (full_seg crc) init) = map (full_seg crc) init"
    using full_keys_less [OF assms, of crc] by (intro map_idI) auto
  then show ?thesis by (simp add: dir_update_def disk_def)
qed

section \<open>The recovery scan\<close>

lemma resume_frames_append:
  "resume_frames i off (xs @ ys) acc =
     resume_frames i (off + sum_list (map snd xs)) ys (resume_frames i off xs acc)"
  by (induction i off xs acc rule: resume_frames.induct) (auto simp: add.assoc Let_def)

lemma sum_sized: "sum_list (map snd (sized crc fs)) = length (encode_all crc fs)"
  by (induction fs) auto

lemma resume_frames_sized:
  "resume_frames i off (sized crc fs) (b, n, c) =
     (if has_commit fs
      then Some (i, off + length (encode_all crc (upto_commit fs)),
                 fr_seq (last (upto_commit fs)), fr_lsn_end (last (upto_commit fs)))
      else b,
      n + word_of_nat (length fs), c + word_of_nat (length (filter fr_txn_complete fs)))"
proof (induction fs rule: rev_induct)
  case Nil
  then show ?case by simp
next
  case (snoc f fs)
  then show ?case
    by (auto simp: resume_frames_append sum_sized add.assoc)
qed

lemma resume_scan_append:
  "resume_scan crc i (xs @ ys) acc = resume_scan crc (i + length xs) ys (resume_scan crc i xs acc)"
  by (induction crc i xs acc rule: resume_scan.induct) auto

text \<open>The boundary is the last commit of the readable frames, found in the segment that holds it.\<close>

definition is_boundary ::
    "crc_fun \<Rightarrow> frame list list \<Rightarrow> (nat \<times> nat \<times> u64 \<times> u64) option \<Rightarrow> bool" where
  "is_boundary crc fss b \<longleftrightarrow>
     (case b of
        None \<Rightarrow> \<not> has_commit (concat fss)
      | Some (idx, off, seq, lsn) \<Rightarrow>
          (\<exists>pre fs post. fss = pre @ fs # post \<and> length pre = idx \<and> \<not> has_commit (concat post) \<and>
             has_commit fs \<and> off = length (encode_all crc (upto_commit fs)) \<and>
             seq = fr_seq (last (upto_commit fs)) \<and> lsn = fr_lsn_end (last (upto_commit fs))))"

definition reads_as :: "crc_fun \<Rightarrow> u64 \<times> segfile \<Rightarrow> frame list \<Rightarrow> bool" where
  "reads_as crc seg fs \<longleftrightarrow> fst (scan_frames crc (f_data (snd seg))) = sized crc fs"

lemma resume_scan_boundary:
  assumes "list_all2 (reads_as crc) d fss"
  shows "is_boundary crc fss (fst (resume_scan crc 0 d (None, 0, 0)))"
  using assms
proof (induction d arbitrary: fss rule: rev_induct)
  case Nil
  then show ?case by (simp add: is_boundary_def)
next
  case (snoc seg d)
  from snoc.prems obtain fss' fs where fss: "fss = fss' @ [fs]"
    and d: "list_all2 (reads_as crc) d fss'" and s: "reads_as crc seg fs"
    by (auto simp: list_all2_append1 list_all2_Cons1)
  have len: "length d = length fss'" using d by (rule list_all2_lengthD)
  obtain b n c where acc: "resume_scan crc 0 d (None, 0, 0) = (b, n, c)"
    by (metis prod_cases3)
  have IH: "is_boundary crc fss' b" using snoc.IH [OF d] acc by simp
  obtain k f where seg: "seg = (k, f)" by (cases seg)
  have step: "fst (resume_scan crc 0 (d @ [seg]) (None, 0, 0)) =
      (if has_commit fs
       then Some (length d, length (encode_all crc (upto_commit fs)),
                  fr_seq (last (upto_commit fs)), fr_lsn_end (last (upto_commit fs)))
       else b)"
    using s by (simp add: resume_scan_append acc seg reads_as_def resume_frames_sized)
  show ?case
  proof (cases "has_commit fs")
    case True
    then have "is_boundary crc fss (Some (length d, length (encode_all crc (upto_commit fs)),
        fr_seq (last (upto_commit fs)), fr_lsn_end (last (upto_commit fs))))"
      unfolding is_boundary_def fss
      by (simp only: option.case prod.case, intro exI [of _ fss'] exI [of _ fs] exI [of _ "[]"])
        (simp add: len)
    with True show ?thesis unfolding step by simp
  next
    case False
    show ?thesis
    proof (cases b)
      case None
      with False IH show ?thesis unfolding step fss by (auto simp: is_boundary_def)
    next
      case (Some x)
      obtain idx off seq lsn where x: "x = (idx, off, seq, lsn)" by (cases x)
      from IH obtain pre gs post where *: "fss' = pre @ gs # post" "length pre = idx"
        "\<not> has_commit (concat post)" "has_commit gs" "off = length (encode_all crc (upto_commit gs))"
        "seq = fr_seq (last (upto_commit gs))" "lsn = fr_lsn_end (last (upto_commit gs))"
        by (auto simp: is_boundary_def Some x)
      have "is_boundary crc fss b"
        unfolding is_boundary_def Some x fss
        by (simp only: option.case prod.case, intro exI [of _ pre] exI [of _ gs] exI [of _ "post @ [fs]"])
          (use * False in auto)
      with False show ?thesis unfolding step by simp
    qed
  qed
qed

section \<open>The invariant of a running log\<close>

definition log_base ::
    "crc_fun \<Rightarrow> frame_log \<Rightarrow> (u64 \<times> frame list) list \<Rightarrow> frame list \<Rightarrow> nat \<Rightarrow> durable_mark set \<Rightarrow> bool"
  where
  "log_base crc L init lf j ms \<longleftrightarrow>
     fl_dir L = disk crc init lf j (length (encode_all crc lf)) \<and>
     layout_ok crc init lf j (length (encode_all crc lf)) \<and>
     fl_file L = word_of_nat (length (flat init)) \<and>
     (\<forall>m \<in> ms. mark_in m (synced_frames init lf j)) \<and>
     (\<forall>s e. fl_pending L = Some (s, e) \<longrightarrow>
        mark_in \<lparr>dm_seq = s, dm_lsn = e, dm_valid = True\<rparr> (flat init @ lf))"

definition log_inv ::
    "crc_fun \<Rightarrow> frame_log \<Rightarrow> (u64 \<times> frame list) list \<Rightarrow> frame list \<Rightarrow> nat \<Rightarrow> frame list \<Rightarrow>
       durable_mark set \<Rightarrow> bool"
  where
  "log_inv crc L init lf j sp ms \<longleftrightarrow>
     log_base crc L init lf j ms \<and> fl_mark L \<in> ms \<and>
     numbered (flat init @ lf @ sp) \<and> (\<forall>f \<in> set sp. fits f) \<and>
     length (flat init @ lf @ sp) < 2 ^ 64 \<and>
     fl_next_seq L = word_of_nat (length (flat init @ lf @ sp)) \<and>
     fl_spill L = map (encode_frame crc) sp \<and> (\<not> fl_stalled L \<longrightarrow> sp = [])"

lemma base_cong:
  "log_base crc L init lf j ms \<Longrightarrow> fl_dir L' = fl_dir L \<Longrightarrow> fl_file L' = fl_file L \<Longrightarrow>
     fl_pending L' = fl_pending L \<Longrightarrow> log_base crc L' init lf j ms"
  by (simp add: log_base_def)

lemma base_pending_None:
  "log_base crc L init lf j ms \<Longrightarrow> fl_dir L' = fl_dir L \<Longrightarrow> fl_file L' = fl_file L \<Longrightarrow>
     fl_pending L' = None \<Longrightarrow> log_base crc L' init lf j ms"
  by (simp add: log_base_def)

lemma base_pending_Some:
  "log_base crc L init lf j ms \<Longrightarrow> c \<in> set (flat init @ lf) \<Longrightarrow> fr_txn_complete c \<Longrightarrow>
     fl_dir L' = fl_dir L \<Longrightarrow> fl_file L' = fl_file L \<Longrightarrow>
     fl_pending L' = Some (fr_seq c, fr_lsn_end c) \<Longrightarrow> log_base crc L' init lf j ms"
  by (auto simp: log_base_def mark_in_def)

lemma base_custody: "log_base crc L init lf j ms \<Longrightarrow> custody crc (fl_dir L) ms"
  unfolding log_base_def custody_def by blast

lemma base_insert:
  "log_base crc L init lf j ms \<Longrightarrow> mark_in m (synced_frames init lf j) \<Longrightarrow>
     log_base crc L init lf j (insert m ms)"
  by (simp add: log_base_def)

lemma base_pending_mark:
  "log_base crc L init lf j ms \<Longrightarrow> fl_pending L = Some (s, e) \<Longrightarrow>
     mark_in \<lparr>dm_seq = s, dm_lsn = e, dm_valid = True\<rparr> (flat init @ lf)"
  by (simp add: log_base_def)

lemma custody_mono: "custody crc d ms \<Longrightarrow> ns \<subseteq> ms \<Longrightarrow> custody crc d ns"
  unfolding custody_def by blast

lemma layout_snoc:
  assumes "layout_ok crc init lf j n" "fits f" "fr_seq f = word_of_nat (length (flat init @ lf))"
    "Suc (length (flat init @ lf)) < 2 ^ 64" "n \<le> n'"
  shows "layout_ok crc init (lf @ [f]) j n'"
  using assms by (auto simp: layout_ok_def numbered_snoc simp flip: append_assoc)

lemma disk_snoc:
  assumes "keyed 0 init" "length (flat init) < 2 ^ 64" "j \<le> length lf"
  shows "dir_update (word_of_nat (length (flat init))) (file_append (take k (encode_frame crc f)))
      (disk crc init lf j (length (encode_all crc lf))) =
    disk crc init (lf @ [f]) j (length (encode_all crc lf) + k)"
  unfolding dir_update_disk [OF assms(1,2)]
  using assms(3) by (simp add: disk_def open_seg_def file_append_def)

lemma write_file_frame: "write_file w bs L = (r, L') \<Longrightarrow> \<exists>d. L' = L\<lparr>fl_dir := d\<rparr>"
  by (auto simp: write_file_def split: option.splits)

lemma sync_file_frame: "sync_file w L = (r, L') \<Longrightarrow> \<exists>d. L' = L\<lparr>fl_dir := d\<rparr>"
  by (auto simp: sync_file_def split: if_splits intro: exI [of _ "fl_dir L"])

lemma write_base:
  assumes b: "log_base crc L init lf j ms" and f: "fits f"
    "fr_seq f = word_of_nat (length (flat init @ lf))" "Suc (length (flat init @ lf)) < 2 ^ 64"
    and w: "write_file w (encode_frame crc f) L = (r, L')"
  shows "custody crc (fl_dir L') ms"
    and "r = Ok () \<Longrightarrow> log_base crc L' init (lf @ [f]) j ms"
proof -
  let ?n = "length (encode_all crc lf)"
  from b have lay: "layout_ok crc init lf j ?n" and d: "fl_dir L = disk crc init lf j ?n"
    and fl: "fl_file L = word_of_nat (length (flat init))" by (simp_all add: log_base_def)
  have k: "keyed 0 init" "length (flat init) < 2 ^ 64" "j \<le> length lf"
    using lay by (simp_all add: layout_ok_def)
  have snoc: "dir_update (fl_file L) (file_append (take m (encode_frame crc f))) (fl_dir L)
      = disk crc init (lf @ [f]) j (?n + m)" for m
    unfolding d fl by (rule disk_snoc [OF k])
  obtain m where L': "fl_dir L' = disk crc init (lf @ [f]) j (?n + m)"
    and ok: "r = Ok () \<Longrightarrow> m = length (encode_frame crc f)"
  proof (cases "io_write w")
    case None
    with w snoc [of "length (encode_frame crc f)"] that [of "length (encode_frame crc f)"] show ?thesis
      by (auto simp: write_file_def simp del: length_encode_frame)
  next
    case (Some m)
    with w snoc [of m] that [of m] show ?thesis by (auto simp: write_file_def)
  qed
  have lay': "layout_ok crc init (lf @ [f]) j (?n + m)" for m
    by (rule layout_snoc [OF lay f]) simp
  have marks: "\<forall>m \<in> ms. mark_in m (synced_frames init (lf @ [f]) j)"
    using b k(3) by (simp add: log_base_def)
  show "custody crc (fl_dir L') ms"
    unfolding custody_def using L' lay' [of m] marks by blast
  assume r: "r = Ok ()"
  from b have "\<forall>s e. fl_pending L = Some (s, e) \<longrightarrow>
      mark_in \<lparr>dm_seq = s, dm_lsn = e, dm_valid = True\<rparr> (flat init @ lf @ [f])"
    by (auto simp: log_base_def elim!: mark_in_mono)
  moreover obtain dd where "L' = L\<lparr>fl_dir := dd\<rparr>" using write_file_frame [OF w] by blast
  ultimately show "log_base crc L' init (lf @ [f]) j ms"
    using L' lay' [of m] marks fl ok [OF r] by (simp add: log_base_def)
qed

lemma sync_base:
  assumes b: "log_base crc L init lf j ms" and w: "sync_file w L = (r, L')"
  shows "custody crc (fl_dir L') ms"
    and "r = Ok () \<Longrightarrow> log_base crc L' init lf (length lf) ms"
proof -
  let ?n = "length (encode_all crc lf)"
  from b have lay: "layout_ok crc init lf j ?n" and d: "fl_dir L = disk crc init lf j ?n"
    and fl: "fl_file L = word_of_nat (length (flat init))" by (simp_all add: log_base_def)
  have k: "keyed 0 init" "length (flat init) < 2 ^ 64"
    using lay by (simp_all add: layout_ok_def)
  have d': "dir_update (fl_file L) file_sync (fl_dir L) = disk crc init lf (length lf) ?n"
    unfolding d fl dir_update_disk [OF k] by (simp add: disk_def open_seg_def file_sync_def)
  have m: "\<forall>m \<in> ms. mark_in m (synced_frames init lf (length lf))"
  proof
    fix m assume "m \<in> ms"
    with b have "mark_in m (synced_frames init lf j)" by (simp add: log_base_def)
    then show "mark_in m (synced_frames init lf (length lf))"
      by (rule mark_in_mono) (auto dest: in_set_takeD)
  qed
  have lay': "layout_ok crc init lf (length lf) ?n" using lay by (simp add: layout_ok_def)
  have ok: "r = Ok () \<Longrightarrow> log_base crc L' init lf (length lf) ms"
    using w b m lay' d' by (auto simp: sync_file_def log_base_def split: if_splits)
  then show "r = Ok () \<Longrightarrow> log_base crc L' init lf (length lf) ms" .
  show "custody crc (fl_dir L') ms"
    using w ok base_custody [OF b] base_custody by (auto simp: sync_file_def split: if_splits)
qed

lemma roll_base:
  assumes b: "log_base crc L init lf (length lf) ms"
    and next_seq: "fl_next_seq L = word_of_nat (length (flat init @ lf))"
    and w: "roll_segment w L = (r, L')"
  shows "custody crc (fl_dir L') ms"
    and "r = Ok () \<Longrightarrow> \<exists>init'. log_base crc L' init' [] 0 ms \<and> flat init' = flat init @ lf"
proof -
  let ?n = "length (encode_all crc lf)" and ?init = "if lf = [] then init else init @ [(fl_file L, lf)]"
  from b have lay: "layout_ok crc init lf (length lf) ?n" and d: "fl_dir L = disk crc init lf (length lf) ?n"
    and fl: "fl_file L = word_of_nat (length (flat init))" by (simp_all add: log_base_def)
  have k: "keyed 0 init" "length (flat init) < 2 ^ 64" "length (flat init @ lf) < 2 ^ 64"
    using lay by (simp_all add: layout_ok_def)
  have k': "keyed 0 ?init" "flat ?init = flat init @ lf"
    using k(1) by (auto simp: fl keyed_append)
  have dir: "dir_create (fl_next_seq L) (fl_dir L) = disk crc ?init [] 0 0"
  proof (cases "lf = []")
    case True
    then show ?thesis
      using dir_create_same [OF full_keys_less [OF k(1,2), of crc]]
      by (simp add: d next_seq disk_def open_seg_def empty_file_def)
  next
    case False
    have "fl_dir L = map (full_seg crc) ?init"
      using False by (simp add: d disk_def open_seg_def full_seg_def fl)
    moreover have "\<forall>(k', f) \<in> set (map (full_seg crc) ?init). k' < fl_next_seq L"
      using full_keys_less [OF k'(1), of crc] k(3) unfolding k'(2) next_seq by simp
    ultimately have "dir_create (fl_next_seq L) (fl_dir L) = map (full_seg crc) ?init @ [(fl_next_seq L, empty_file)]"
      by (simp only: dir_create_above)
    then show ?thesis
      unfolding disk_def k'(2) next_seq by (simp add: open_seg_def empty_file_def)
  qed
  have "layout_ok crc ?init [] 0 0" using lay k' unfolding layout_ok_def k'(2) by simp
  moreover have "L' = L\<lparr>fl_dir := disk crc ?init [] 0 0, fl_file := word_of_nat (length (flat ?init)),
      fl_segment_len := 0\<rparr>" if "r = Ok ()"
    using w that dir k'(2) next_seq by (simp add: roll_segment_def split: if_splits)
  ultimately have ok: "log_base crc L' ?init [] 0 ms" if "r = Ok ()"
    using b that k'(2) by (simp add: log_base_def del: if_split)
  then show "r = Ok () \<Longrightarrow> \<exists>init'. log_base crc L' init' [] 0 ms \<and> flat init' = flat init @ lf"
    using k'(2) by blast
  show "custody crc (fl_dir L') ms"
    using w ok base_custody [OF b] base_custody by (auto simp: roll_segment_def split: if_splits)
qed


section \<open>Every operation keeps the invariant\<close>

text \<open>
  What an operation promises: whatever its outcome the directory it leaves still holds every
  published mark, and when it returns \<open>Ok\<close> the log is well-formed again with the frames \<open>new\<close>
  added to those it had.
\<close>

definition op_result ::
    "crc_fun \<Rightarrow> durable_mark set \<Rightarrow> frame list \<Rightarrow> (log_error + 'a) \<times> frame_log \<Rightarrow> bool" where
  "op_result crc ms fs = (\<lambda>(r, L').
     custody crc (fl_dir L') (insert (fl_mark L') ms) \<and>
     (is_ok r \<longrightarrow> (\<exists>init lf j sp. log_inv crc L' init lf j sp (insert (fl_mark L') ms) \<and>
        flat init @ lf @ sp = fs)))"

lemma op_resultI:
  assumes "custody crc (fl_dir L') (insert (fl_mark L') ms)"
    and "is_ok r \<Longrightarrow> log_inv crc L' init lf j sp (insert (fl_mark L') ms) \<and> flat init @ lf @ sp = fs"
  shows "op_result crc ms fs (r, L')"
  using assms unfolding op_result_def by blast

lemma inv_custody: "log_inv crc L init lf j sp ms \<Longrightarrow> custody crc (fl_dir L) (insert (fl_mark L) ms)"
  by (auto simp: log_inv_def insert_absorb dest: base_custody)

lemma is_ok_Ok: "is_ok r \<Longrightarrow> \<exists>x. r = Ok x"
  by (cases r) simp_all

lemma invD:
  assumes "log_inv crc L init lf j sp ms"
  shows "log_base crc L init lf j ms" "fl_mark L \<in> ms" "insert (fl_mark L) ms = ms"
  using assms by (auto simp: log_inv_def)

text \<open>An \<open>fsync\<close>, a mark, and perhaps a roll: the tail every publishing path shares.\<close>

lemma roll_result:
  assumes b: "log_base crc L init lf (length lf) ms" "fl_mark L \<in> ms" "fl_spill L = []"
    "fl_next_seq L = word_of_nat (length (flat init @ lf))"
  shows "op_result crc ms (flat init @ lf) (if fl_segment_max L \<le> fl_segment_len L then roll_segment w L else (Ok (), L))"
proof -
  have lay: "numbered (flat init @ lf)" "length (flat init @ lf) < 2 ^ 64"
    using b(1) by (simp_all add: log_base_def layout_ok_def)
  show ?thesis
  proof (cases "fl_segment_max L \<le> fl_segment_len L")
    case True
    obtain r L' where w: "roll_segment w L = (r, L')" by (cases "roll_segment w L")
    have same: "fl_mark L' = fl_mark L" "fl_spill L' = []" "fl_next_seq L' = fl_next_seq L"
      using w b(3) by (auto simp: roll_segment_def split: if_splits)
    have "\<exists>init'. log_inv crc L' init' [] 0 [] ms \<and> flat init' = flat init @ lf" if "is_ok r"
      using roll_base(2) [OF b(1,4) w] is_ok_Ok [OF that] b(2,4) lay same
      by (fastforce simp: log_inv_def)
    then show ?thesis
      using True w roll_base(1) [OF b(1,4) w] b(2) same(1)
      by (fastforce simp: op_result_def insert_absorb)
  next
    case False
    then show ?thesis
      using b lay base_custody [OF b(1)]
      by (auto simp: op_result_def insert_absorb log_inv_def intro!: exI [of _ init] exI [of _ lf])
  qed
qed


lemma op_result_return:
  "op_result crc ms fs x \<Longrightarrow> op_result crc ms fs (st_bind x (\<lambda>_ L. (Ok q, L)))"
  by (cases x; cases "fst x") (auto simp: op_result_def st_bind_def)

lemma op_result_Err:
  "custody crc (fl_dir L) ms \<Longrightarrow> fl_mark L \<in> ms \<Longrightarrow> op_result crc ms fs (Err e, L)"
  by (simp add: op_result_def insert_absorb)

text \<open>The common step: an operation that first writes one frame and goes on with \<open>k\<close>.\<close>

lemma write_result:
  assumes b: "log_base crc L init lf j ms" "fl_mark L \<in> ms" and f: "fits f"
    "fr_seq f = word_of_nat (length (flat init @ lf))" "Suc (length (flat init @ lf)) < 2 ^ 64"
    and k: "\<And>d. log_base crc (L\<lparr>fl_dir := d\<rparr>) init (lf @ [f]) j ms \<Longrightarrow>
      op_result crc ms fs (k () (L\<lparr>fl_dir := d\<rparr>))"
  shows "op_result crc ms fs (st_bind (write_file w (encode_frame crc f) L) k)"
proof -
  obtain r L' where w: "write_file w (encode_frame crc f) L = (r, L')"
    by (cases "write_file w (encode_frame crc f) L")
  obtain d where L': "L' = L\<lparr>fl_dir := d\<rparr>" using write_file_frame [OF w] by blast
  show ?thesis
  proof (cases r)
    case (Inl e)
    then show ?thesis
      using write_base(1) [OF b(1) f w] b(2) L' by (simp add: w op_result_Err)
  next
    case (Inr u)
    then show ?thesis
      using write_base(2) [OF b(1) f w] k [of d] L' by (simp add: w)
  qed
qed

lemma sync_result:
  assumes b: "log_base crc L init lf j ms" "fl_mark L \<in> ms"
    and k: "\<And>d. log_base crc (L\<lparr>fl_dir := d\<rparr>) init lf (length lf) ms \<Longrightarrow>
      op_result crc ms fs (k () (L\<lparr>fl_dir := d\<rparr>))"
  shows "op_result crc ms fs (st_bind (sync_file w L) k)"
proof -
  obtain r L' where w: "sync_file w L = (r, L')" by (cases "sync_file w L")
  obtain d where L': "L' = L\<lparr>fl_dir := d\<rparr>" using sync_file_frame [OF w] by blast
  show ?thesis
  proof (cases r)
    case (Inl e)
    then show ?thesis
      using sync_base(1) [OF b(1) w] b(2) L' by (simp add: w op_result_Err)
  next
    case (Inr u)
    then show ?thesis
      using sync_base(2) [OF b(1) w] k [of d] L' by (simp add: w)
  qed
qed

text \<open>Publishing a mark that the synced frames hold keeps the promise.\<close>

lemma op_result_weaken:
  "op_result crc (insert m ms) fs x \<Longrightarrow> fl_mark (snd x) = m \<Longrightarrow> op_result crc ms fs x"
  by (cases x) (simp add: op_result_def)

lemma send_mark_base:
  assumes "log_base crc L init lf (length lf) ms"
    and "mark_in \<lparr>dm_seq = s, dm_lsn = e, dm_valid = True\<rparr> (flat init @ lf)"
    and "fl_dir L' = fl_dir L" "fl_file L' = fl_file L"
    and "fl_pending L' = fl_pending L \<or> fl_pending L' = None"
  shows "log_base crc (send_mark s e L') init lf (length lf)
    (insert \<lparr>dm_seq = s, dm_lsn = e, dm_valid = True\<rparr> ms)"
  using assms by (auto simp: log_base_def send_mark_def)

lemma roll_mark:
  "fl_mark (snd (if fl_segment_max L \<le> fl_segment_len L then roll_segment w L else (Ok (), L))) = fl_mark L"
  by (simp add: roll_segment_def)

lemma op_result_Ok:
  assumes "log_base crc L init lf j ms" "fl_mark L \<in> ms" "fl_spill L = []"
    "fl_next_seq L = word_of_nat (length (flat init @ lf))"
  shows "op_result crc ms (flat init @ lf) (Ok x, L)"
proof (rule op_resultI)
  have "numbered (flat init @ lf)" "length (flat init @ lf) < 2 ^ 64"
    using assms(1) by (simp_all add: log_base_def layout_ok_def)
  then show "log_inv crc L init lf j [] (insert (fl_mark L) ms) \<and> flat init @ lf @ [] = flat init @ lf"
    using assms by (simp add: log_inv_def insert_absorb)
  show "custody crc (fl_dir L) (insert (fl_mark L) ms)"
    using base_custody [OF assms(1)] assms(2) by (simp add: insert_absorb)
qed

lemma write_durable_result:
  assumes b: "log_base crc L init lf j ms" "fl_mark L \<in> ms" and f: "fits f"
    "fr_seq f = word_of_nat (length (flat init @ lf))" "Suc (length (flat init @ lf)) < 2 ^ 64"
    and L: "fl_spill L = []" "fl_next_seq L = word_of_nat (Suc (length (flat init @ lf)))"
  shows "op_result crc ms (flat init @ lf @ [f])
    (write_durable w (fr_seq f) (fr_lsn_end f) (fr_txn_complete f) (encode_frame crc f) L)"
  unfolding write_durable_def
proof (rule write_result [OF b f], goal_cases)
  case (1 d)
  let ?L = "L\<lparr>fl_dir := d, fl_segment_len := fl_segment_len L + word_of_nat (length (encode_frame crc f))\<rparr>"
  have bL: "log_base crc ?L init (lf @ [f]) j ms" by (rule base_cong [OF 1]) simp_all
  show ?case
  proof (cases "fr_txn_complete f")
    case False
    show ?thesis
      using op_result_Ok [OF bL] False b(2) L by (simp add: Let_def add_ac)
  next
    case True
    let ?M = "?L\<lparr>fl_pending := Some (fr_seq f, fr_lsn_end f)\<rparr>"
    let ?m = "\<lparr>dm_seq = fr_seq f, dm_lsn = fr_lsn_end f, dm_valid = True\<rparr>"
    have bM: "log_base crc ?M init (lf @ [f]) j ms"
      by (rule base_pending_Some [OF bL, of f]) (use True in simp_all)
    have "op_result crc ms (flat init @ lf @ [f]) (st_bind (sync_file w ?M) (\<lambda>_ L.
       let L = send_mark (fr_seq f) (fr_lsn_end f) (L\<lparr>fl_pending := None\<rparr>) in
       if fl_segment_max L \<le> fl_segment_len L then roll_segment w L else (Ok (), L)))"
    proof (rule sync_result [OF bM], goal_cases)
      case 1
      then show ?case using b(2) by simp
    next
      case (2 dd)
      let ?N = "send_mark (fr_seq f) (fr_lsn_end f) (?M\<lparr>fl_dir := dd, fl_pending := None\<rparr>)"
      have bN: "log_base crc ?N init (lf @ [f]) (length (lf @ [f])) (insert ?m ms)"
        by (rule send_mark_base [OF 2]) (use True in \<open>auto simp: mark_in_def\<close>)
      have "op_result crc (insert ?m ms) (flat init @ lf @ [f])
          (if fl_segment_max ?N \<le> fl_segment_len ?N then roll_segment w ?N else (Ok (), ?N))"
        using roll_result [OF bN] L by (simp add: send_mark_def add_ac)
      then have "op_result crc ms (flat init @ lf @ [f])
          (if fl_segment_max ?N \<le> fl_segment_len ?N then roll_segment w ?N else (Ok (), ?N))"
        by (rule op_result_weaken) (simp only: roll_mark, simp add: send_mark_def)
      then show ?case unfolding Let_def .
    qed
    then show ?thesis using True by (simp add: Let_def)
  qed
qed


text \<open>The staged branch: nothing reaches the durable segment and no mark moves.\<close>

lemma spill_result:
  assumes b: "log_base crc L init lf j ms" "fl_mark L \<in> ms" and st: "fl_stalled L"
    and sp: "fl_spill L = map (encode_frame crc) sp" "numbered (flat init @ lf @ sp @ [f])"
      "\<forall>g \<in> set (sp @ [f]). fits g" "length (flat init @ lf @ sp @ [f]) < 2 ^ 64"
      "fl_next_seq L = word_of_nat (length (flat init @ lf @ sp @ [f]))"
  shows "op_result crc ms (flat init @ lf @ sp @ [f]) (spill_frame w (encode_frame crc f) L)"
proof -
  have inv: "log_inv crc L' init lf j (sp @ [f]) ms"
    if "fl_dir L' = fl_dir L" "fl_file L' = fl_file L" "fl_pending L' = fl_pending L"
      "fl_mark L' = fl_mark L" "fl_spill L' = fl_spill L @ [encode_frame crc f]"
      "fl_next_seq L' = fl_next_seq L" "fl_stalled L'" for L'
    using base_cong [OF b(1) that(1-3)] that(4-) b(2) sp by (simp add: log_inv_def)
  have ok: "op_result crc ms (flat init @ lf @ sp @ [f]) (Ok (), L')"
    if "fl_dir L' = fl_dir L" "fl_file L' = fl_file L" "fl_pending L' = fl_pending L"
      "fl_mark L' = fl_mark L" "fl_spill L' = fl_spill L @ [encode_frame crc f]"
      "fl_next_seq L' = fl_next_seq L" "fl_stalled L'" for L'
    by (rule op_resultI [where init = init and lf = lf and j = j and sp = "sp @ [f]"])
      (use inv [OF that] inv_custody [OF inv [OF that]] that(4) b(2) in \<open>simp_all add: insert_absorb\<close>)
  have err: "op_result crc ms fs (Err e, L')" if "fl_dir L' = fl_dir L" "fl_mark L' = fl_mark L" for e L' fs
    by (rule op_result_Err) (use that base_custody [OF b(1)] b(2) in simp_all)
  show ?thesis
    using st by (auto simp: spill_frame_def Let_def intro!: ok err split: option.splits)
qed

lemma fits_new_frame: "length p < 2 ^ 32 \<Longrightarrow> fits (new_frame q a b c p)"
  by (simp add: fits_def new_frame_def)

lemma new_frame_sel [simp]:
  "fr_seq (new_frame q a b c p) = q" "fr_lsn_start (new_frame q a b c p) = a"
  "fr_lsn_end (new_frame q a b c p) = b" "fr_txn_complete (new_frame q a b c p) = c"
  "fr_payload (new_frame q a b c p) = p"
  by (simp_all add: new_frame_def)

lemma take_seq_base: "log_base crc L init lf j ms \<Longrightarrow> log_base crc (take_seq c L) init lf j ms"
  by (erule base_cong) (simp_all add: take_seq_def)

lemma log_append_result:
  assumes inv: "log_inv crc L init lf j sp ms" and p: "length p < 2 ^ 32"
    and room: "Suc (length (flat init @ lf @ sp)) < 2 ^ 64"
  shows "op_result crc ms (flat init @ lf @ sp @ [new_frame (fl_next_seq L) a b c p])
    (log_append crc w a b c p L)"
proof (cases "fl_stalled L")
  case True
  have "op_result crc ms (flat init @ lf @ sp @ [new_frame (fl_next_seq L) a b c p])
      (spill_frame w (encode_frame crc (new_frame (fl_next_seq L) a b c p)) (take_seq c L))"
    by (rule spill_result [OF take_seq_base [OF invD(1) [OF inv]]])
      (use inv p room True in
        \<open>auto simp: log_inv_def take_seq_def fits_new_frame numbered_snoc simp flip: append_assoc\<close>)
  with True show ?thesis
    by (simp add: log_append_def Let_def take_seq_def op_result_return)
next
  case False
  let ?f = "new_frame (fl_next_seq L) a b c p"
  have sp: "sp = []" using inv False by (simp add: log_inv_def)
  have "op_result crc ms (flat init @ lf @ [?f])
      (write_durable w (fr_seq ?f) (fr_lsn_end ?f) (fr_txn_complete ?f) (encode_frame crc ?f) (take_seq c L))"
    by (rule write_durable_result [OF take_seq_base [OF invD(1) [OF inv]]])
      (use inv p room sp in \<open>auto simp: log_inv_def take_seq_def fits_new_frame\<close>)
  with False sp show ?thesis
    by (simp add: log_append_def Let_def take_seq_def op_result_return)
qed

lemma flush_pending_result:
  assumes b: "log_base crc L init lf j ms" "fl_mark L \<in> ms" "fl_spill L = map (encode_frame crc) sp"
    and n: "numbered (flat init @ lf @ sp)" "\<forall>g \<in> set sp. fits g" "length (flat init @ lf @ sp) < 2 ^ 64"
      "fl_next_seq L = word_of_nat (length (flat init @ lf @ sp))" "\<not> fl_stalled L \<longrightarrow> sp = []"
    and k: "\<And>L' m j'. log_base crc L' init lf j' (insert m ms) \<Longrightarrow> fl_mark L' = m \<Longrightarrow>
        (fl_pending L \<noteq> None \<Longrightarrow> j' = length lf) \<Longrightarrow>
        fl_spill L' = fl_spill L \<Longrightarrow> fl_next_seq L' = fl_next_seq L \<Longrightarrow>
        fl_stalled L' = fl_stalled L \<Longrightarrow> op_result crc ms fs (k () L')"
  shows "op_result crc ms fs (st_bind (flush_pending w L) k)"
proof (cases "fl_pending L")
  case None
  show ?thesis
    using k [of L j "fl_mark L"] b None by (simp add: flush_pending_def insert_absorb)
next
  case (Some x)
  obtain s e where x: "x = (s, e)" by (cases x)
  let ?m = "\<lparr>dm_seq = s, dm_lsn = e, dm_valid = True\<rparr>"
  have m: "mark_in ?m (flat init @ lf)"
    using base_pending_mark [OF b(1)] Some x by simp
  have b0: "log_base crc (L\<lparr>fl_pending := None\<rparr>) init lf j ms"
    by (rule base_pending_None [OF b(1)]) simp_all
  have assoc: "st_bind (st_bind X (\<lambda>_ L. (Ok (), send_mark s e L))) k =
      st_bind X (\<lambda>_ L. k () (send_mark s e L))" for X
    by (cases X; cases "fst X") (auto simp: st_bind_def)
  have "op_result crc ms fs (st_bind (sync_file w (L\<lparr>fl_pending := None\<rparr>)) (\<lambda>_ L. k () (send_mark s e L)))"
  proof (rule sync_result [OF b0], goal_cases)
    case 1
    then show ?case using b(2) by simp
  next
    case (2 d)
    have "log_base crc (send_mark s e (L\<lparr>fl_pending := None, fl_dir := d\<rparr>)) init lf (length lf) (insert ?m ms)"
      by (rule send_mark_base [OF 2 m]) simp_all
    then show ?case by (rule k) (simp_all add: send_mark_def)
  qed
  then show ?thesis by (simp add: flush_pending_def Some x assoc)
qed


lemma invE:
  assumes "log_inv crc L init lf j sp ms"
  shows "fl_spill L = map (encode_frame crc) sp" "numbered (flat init @ lf @ sp)"
    "\<forall>g \<in> set sp. fits g" "length (flat init @ lf @ sp) < 2 ^ 64"
    "fl_next_seq L = word_of_nat (length (flat init @ lf @ sp))" "\<not> fl_stalled L \<longrightarrow> sp = []"
  using assms by (simp_all add: log_inv_def)

lemma log_flush_result:
  assumes inv: "log_inv crc L init lf j sp ms"
  shows "op_result crc ms (flat init @ lf @ sp) (flush_pending w L)"
proof -
  have "op_result crc ms (flat init @ lf @ sp) (st_bind (flush_pending w L) (\<lambda>_ L. (Ok (), L)))"
  proof (rule flush_pending_result [OF invD(1,2) [OF inv] invE [OF inv]], goal_cases)
    case (1 L' m j')
    then have "log_inv crc L' init lf j' sp (insert m ms)"
      using invE [OF inv] by (simp add: log_inv_def)
    then show ?case
      using inv_custody [of crc L' init lf j' sp "insert m ms"] 1(2)
      by (intro op_resultI [where init = init and lf = lf and j = j' and sp = sp]) simp_all
  qed
  moreover have "st_bind X (\<lambda>_ L. (Ok (), L)) = X" for X :: "(log_error + unit) \<times> frame_log"
    by (cases X; cases "fst X") (auto simp: st_bind_def)
  ultimately show ?thesis by simp
qed

text \<open>What \<open>append_deferred\<close> does once its frame is written.\<close>

lemma deferred_tail:
  assumes b: "log_base crc L init (lf @ [f]) j ms" "fl_mark L \<in> ms"
    and L: "fl_spill L = []" "fl_next_seq L = word_of_nat (length (flat init @ lf @ [f]))"
      "\<not> fl_stalled L"
    and f: "fr_txn_complete f" "fl_pending L = Some (fr_seq f, fr_lsn_end f)"
  shows "op_result crc ms (flat init @ lf @ [f])
    (st_bind (flush_pending w L) (\<lambda>_ L. st_bind (roll_segment w L) (\<lambda>_ L. (Ok q, L))))"
proof -
  have lay: "numbered (flat init @ (lf @ [f]) @ [])" "length (flat init @ (lf @ [f]) @ []) < 2 ^ 64"
    using b(1) by (simp_all add: log_base_def layout_ok_def)
  show ?thesis
  proof (rule flush_pending_result [OF b, of "[]"], goal_cases)
    case (7 L' m j')
    have j': "j' = length (lf @ [f])" using 7(3) f by simp
    have b': "log_base crc L' init (lf @ [f]) (length (lf @ [f])) (insert m ms)"
      using 7(1) j' by simp
    have n': "fl_next_seq L' = word_of_nat (length (flat init @ lf @ [f]))" using 7(5) L by simp
    obtain r R where w: "roll_segment w L' = (r, R)" by (cases "roll_segment w L'")
    have mR: "fl_mark R = m" "fl_spill R = []" "fl_next_seq R = fl_next_seq L'"
      using w 7(2,4) L by (auto simp: roll_segment_def split: if_splits)
    have "op_result crc ms (flat init @ lf @ [f]) (r, R)"
      unfolding op_result_def prod.case mR(1)
      using roll_base(1) [OF b' n' w]
        roll_base(2) [OF b' n' w] is_ok_Ok [of r] mR n' lay
      by (fastforce simp: log_inv_def)
    then show ?case using op_result_return w by metis
  qed (use L lay in simp_all)
qed

lemma log_append_deferred_result:
  assumes inv: "log_inv crc L init lf j sp ms" and p: "length p < 2 ^ 32"
    and room: "Suc (length (flat init @ lf @ sp)) < 2 ^ 64"
  shows "op_result crc ms (flat init @ lf @ sp @ [new_frame (fl_next_seq L) a b c p])
    (log_append_deferred crc w a b c p L)"
proof (cases "fl_stalled L")
  case True
  have "op_result crc ms (flat init @ lf @ sp @ [new_frame (fl_next_seq L) a b c p])
      (spill_frame w (encode_frame crc (new_frame (fl_next_seq L) a b c p)) (take_seq c L))"
    by (rule spill_result [OF take_seq_base [OF invD(1) [OF inv]]])
      (use inv p room True in
        \<open>auto simp: log_inv_def take_seq_def fits_new_frame numbered_snoc simp flip: append_assoc\<close>)
  with True show ?thesis
    by (simp add: log_append_deferred_def Let_def take_seq_def op_result_return)
next
  case False
  define q where "q = fl_next_seq L"
  let ?f = "new_frame q a b c p" and ?T = "take_seq c L"
  have sp: "sp = []" using invE(6) [OF inv] False by simp
  have f: "fits ?f" "fr_seq ?f = word_of_nat (length (flat init @ lf))" "Suc (length (flat init @ lf)) < 2 ^ 64"
    using p room invE(5) [OF inv] sp by (simp_all add: fits_new_frame q_def)
  have T: "fl_mark ?T \<in> ms" "fl_spill ?T = []" "\<not> fl_stalled ?T"
      "fl_next_seq ?T = word_of_nat (length (flat init @ lf @ [?f]))"
    using invD(2) [OF inv] invE [OF inv] sp False by (simp_all add: take_seq_def)
  have "op_result crc ms (flat init @ lf @ [?f]) (st_bind (write_file w (encode_frame crc ?f) ?T)
      (\<lambda>_ L. let L = L\<lparr>fl_segment_len := fl_segment_len L + word_of_nat (length (encode_frame crc ?f))\<rparr> in
        if c then
          let L = L\<lparr>fl_pending := Some (q, b)\<rparr> in
          if fl_segment_max L \<le> fl_segment_len L then
            st_bind (flush_pending w L) (\<lambda>_ L. st_bind (roll_segment w L) (\<lambda>_ L. (Ok q, L)))
          else (Ok q, L)
        else (Ok q, L)))"
  proof (rule write_result [OF take_seq_base [OF invD(1) [OF inv]] T(1) f], goal_cases)
    case (1 d)
    let ?L = "?T\<lparr>fl_dir := d, fl_segment_len := fl_segment_len ?T + word_of_nat (length (encode_frame crc ?f))\<rparr>"
    let ?M = "?L\<lparr>fl_pending := Some (q, b)\<rparr>"
    have bL: "log_base crc ?L init (lf @ [?f]) j ms" by (rule base_cong [OF 1]) simp_all
    have bM: "log_base crc ?M init (lf @ [?f]) j ms" if "c"
      by (rule base_pending_Some [OF bL, of ?f]) (use that in simp_all)
    have "op_result crc ms (flat init @ lf @ [?f]) (Ok q, ?L)"
      by (rule op_result_Ok [OF bL]) (use T in simp_all)
    moreover have "op_result crc ms (flat init @ lf @ [?f]) (Ok q, ?M)" if "c"
      by (rule op_result_Ok [OF bM [OF that]]) (use T in simp_all)
    moreover have "op_result crc ms (flat init @ lf @ [?f])
        (st_bind (flush_pending w ?M) (\<lambda>_ L. st_bind (roll_segment w L) (\<lambda>_ L. (Ok q, L))))" if "c"
      by (rule deferred_tail [OF bM [OF that]]) (use T that in simp_all)
    ultimately show ?case unfolding Let_def by (cases c) simp_all
  qed
  then show ?thesis
    unfolding q_def using False by (cases c) (simp_all add: sp log_append_deferred_def Let_def take_seq_def)
qed


section \<open>Leaving the staged state\<close>

lemma header_mark_encode:
  "header_mark (encode_frame crc f) = Some (fr_seq f, fr_lsn_end f, fr_txn_complete f)"
proof -
  let ?flag = "if fr_txn_complete f then FLAG_TXN_COMPLETE else 0"
  obtain r where "encode_frame crc f =
      put_u32 FRAME_MAGIC @ put_u64 (fr_seq f) @ put_u64 (fr_lsn_start f) @ put_u64 (fr_lsn_end f) @ ?flag # r"
    by (simp add: encode_frame_def frame_body_def Let_def)
  moreover have "take_n 4 (put_u32 FRAME_MAGIC @ r) = Some (put_u32 FRAME_MAGIC, r)" for r
    by (simp add: take_n_def)
  ultimately show ?thesis
    using flag_and [of "fr_txn_complete f"] by (simp add: header_mark_def get_put)
qed

abbreviation commit_mark :: "(u64 \<times> u64) option \<Rightarrow> frame list \<Rightarrow> bool" where
  "commit_mark lc fs \<equiv>
     \<forall>s e. lc = Some (s, e) \<longrightarrow> mark_in \<lparr>dm_seq = s, dm_lsn = e, dm_valid = True\<rparr> fs"

lemma drain_result:
  assumes "log_base crc L init lf j ms" "fl_mark L \<in> ms" "numbered (flat init @ lf @ sp)"
    "\<forall>g \<in> set sp. fits g" "length (flat init @ lf @ sp) < 2 ^ 64" "commit_mark lc (flat init @ lf)"
    and k: "\<And>L' lc' d n. log_base crc L' init (lf @ sp) j ms \<Longrightarrow> commit_mark lc' (flat init @ lf @ sp) \<Longrightarrow>
      L' = L\<lparr>fl_dir := d, fl_segment_len := n\<rparr> \<Longrightarrow> op_result crc ms fs (k lc' L')"
  shows "op_result crc ms fs (st_bind (drain w (map (encode_frame crc) sp) lc L) k)"
  using assms
proof (induction sp arbitrary: lf lc L)
  case Nil
  then show ?case using Nil.prems(7) [of L lc "fl_segment_len L" "fl_dir L"] by simp
next
  case (Cons f sp)
  have f: "fits f" "fr_seq f = word_of_nat (length (flat init @ lf))" "Suc (length (flat init @ lf)) < 2 ^ 64"
    using Cons.prems(4,5) numbered_prefix [of "(flat init @ lf) @ [f]" sp] Cons.prems(3)
      numbered_snoc [of "flat init @ lf" f] by simp_all
  let ?lc = "case (fr_seq f, fr_lsn_end f, fr_txn_complete f) of (s, e, True) \<Rightarrow> Some (s, e) | _ \<Rightarrow> lc"
  have lc: "commit_mark ?lc (flat init @ lf @ [f])"
    using Cons.prems(6) by (auto simp: mark_in_def split: if_splits bool.splits)
  have bind: "st_bind (st_bind X Y) k = st_bind X (\<lambda>x L. st_bind (Y x L) k)"
    for X :: "(log_error + unit) \<times> frame_log" and Y
    by (cases X; cases "fst X") (auto simp: st_bind_def)
  show ?case
    unfolding list.map drain.simps bind Let_def
  proof (rule write_result [OF Cons.prems(1,2) f], goal_cases)
    case (1 d)
    let ?L = "L\<lparr>fl_dir := d, fl_segment_len := fl_segment_len L + word_of_nat (length (encode_frame crc f))\<rparr>"
    have b: "log_base crc ?L init (lf @ [f]) j ms" by (rule base_cong [OF 1]) simp_all
    have lc': "(case header_mark (encode_frame crc f) of Some (seq, lsn_end, True) \<Rightarrow> Some (seq, lsn_end)
        | _ \<Rightarrow> lc) = ?lc"
      by (simp add: header_mark_encode)
    have "op_result crc ms fs (st_bind (drain w (map (encode_frame crc) sp) ?lc ?L) k)"
    proof (rule Cons.IH [OF b], goal_cases)
      case (6 L' lc' d' n')
      show ?case
        by (rule Cons.prems(7) [of _ _ d' n']) (use 6 in \<open>simp_all\<close>)
    qed (use Cons.prems lc in simp_all)
    then show ?case unfolding lc' by simp
  qed
qed

lemma set_stalled_result:
  assumes inv: "log_inv crc L init lf j sp ms"
  shows "op_result crc ms (flat init @ lf @ sp) (set_stalled w b L)"
proof -
  let ?fs = "flat init @ lf @ sp"
  have inv': "log_inv crc (L\<lparr>fl_stalled := True\<rparr>) init lf j sp ms"
    using inv base_cong [OF invD(1) [OF inv], of "L\<lparr>fl_stalled := True\<rparr>"] by (simp add: log_inv_def)
  have same: "op_result crc ms ?fs (Ok (), L)"
    by (rule op_resultI [where init = init and lf = lf and j = j and sp = sp])
      (use inv inv_custody [OF inv] invD(3) [OF inv] in simp_all)
  have set: "op_result crc ms ?fs (Ok (), L\<lparr>fl_stalled := True\<rparr>)"
    by (rule op_resultI [where init = init and lf = lf and j = j and sp = sp])
      (use inv' inv_custody [OF inv'] invD(3) [OF inv'] in simp_all)
  have leave: "op_result crc ms ?fs (set_stalled w False L)" if "fl_stalled L"
  proof -
    let ?S = "L\<lparr>fl_spill := []\<rparr>"
    have bS: "log_base crc ?S init lf j ms" by (rule base_cong [OF invD(1) [OF inv]]) simp_all
    have eq: "set_stalled w False L = st_bind (drain w (map (encode_frame crc) sp) None ?S) (\<lambda>last_commit L.
        st_bind (sync_file w L) (\<lambda>_ L.
        let L = (case last_commit of Some (seq, lsn) \<Rightarrow> send_mark seq lsn L | None \<Rightarrow> L);
            L = L\<lparr>fl_spill_open := False, fl_staging := None, fl_stalled := False\<rparr>
        in if fl_segment_max L \<le> fl_segment_len L then roll_segment w L else (Ok (), L)))"
      using that invE(1) [OF inv] by (simp add: set_stalled_def)
    show ?thesis
      unfolding eq
    proof (rule drain_result [OF bS], goal_cases)
      case (6 L' lc d n)
      show ?case
      proof (rule sync_result [OF 6(1)], goal_cases)
        case 1
        then show ?case using invD(2) [OF inv] 6(3) by simp
      next
        case (2 dd)
        let ?M = "L'\<lparr>fl_dir := dd\<rparr>"
        let ?N = "(case lc of Some (seq, lsn) \<Rightarrow> send_mark seq lsn ?M | None \<Rightarrow> ?M)"
        let ?P = "?N\<lparr>fl_spill_open := False, fl_staging := None, fl_stalled := False\<rparr>"
        have bM: "log_base crc ?N init (lf @ sp) (length (lf @ sp)) (insert (fl_mark ?N) ms)"
        proof (cases lc)
          case None
          then show ?thesis using 2 invD(3) [OF inv] 6(3) by simp
        next
          case (Some x)
          obtain s e where x: "x = (s, e)" by (cases x)
          show ?thesis
            using send_mark_base [OF 2, of s e ?M] 6(2) Some x by (simp add: send_mark_def)
        qed
        have bP: "log_base crc ?P init (lf @ sp) (length (lf @ sp)) (insert (fl_mark ?N) ms)"
          by (rule base_cong [OF bM]) simp_all
        have P: "fl_mark ?P = fl_mark ?N" "fl_spill ?P = []" "fl_next_seq ?P = word_of_nat (length (flat init @ lf @ sp))"
          using 6(3) invE(5) [OF inv] by (auto simp: send_mark_def split: option.splits)
        have "op_result crc (insert (fl_mark ?N) ms) ?fs
            (if fl_segment_max ?P \<le> fl_segment_len ?P then roll_segment w ?P else (Ok (), ?P))"
          by (rule roll_result [OF bP]) (use P in simp_all)
        then have "op_result crc ms ?fs
            (if fl_segment_max ?P \<le> fl_segment_len ?P then roll_segment w ?P else (Ok (), ?P))"
          by (rule op_result_weaken) (simp only: roll_mark P(1))
        then show ?case unfolding Let_def .
      qed
    qed (use inv invE [OF inv] invD(2) [OF inv] in simp_all)
  qed
  show ?thesis
    using same set leave by (cases b; cases "fl_stalled L") (auto simp: set_stalled_def)
qed

end
