(* ===== verification/LogRecovery.thy ===== *)
theory LogRecovery
  imports LogCustody
begin

text \<open>
  Crashes and recovery of the frame log. A crash keeps of every segment at least the bytes an
  fsync covered, and may lose a segment none of whose bytes were; \<open>resume\<close> rebuilds a log from
  what is left. The step relation \<open>log_step\<close> interleaves operations, failed operations, crashes
  and recoveries in any order; its reachable states keep every mark ever published.
\<close>

section \<open>Crashes\<close>

inductive crashed :: "dir \<Rightarrow> dir \<Rightarrow> bool" where
  crash_Nil: "crashed [] []"
| crash_keep: "crashed d d' \<Longrightarrow> f_synced f \<le> n \<Longrightarrow>
    crashed ((k, f) # d)
      ((k, f\<lparr>f_data := take n (f_data f)\<rparr>) # d')"
| crash_lose: "crashed d d' \<Longrightarrow> f_synced f = 0 \<Longrightarrow> crashed ((k, f) # d) d'"

inductive_cases crashed_NilE: "crashed [] d'"
inductive_cases crashed_ConsE: "crashed ((k, f) # d) d'"

lemma crashed_refl: "crashed d d"
proof (induction d)
  case Nil
  show ?case by (rule crash_Nil)
next
  case (Cons x d)
  obtain k f where x: "x = (k, f)" by (cases x)
  have "crashed ((k, f) # d) ((k, f\<lparr>f_data := take (f_synced f + length (f_data f)) (f_data f)\<rparr>) # d)"
    by (rule crash_keep [OF Cons]) simp
  then show ?case by (simp add: x)
qed

lemma encode_all_Nil_iff [simp]: "encode_all crc fs = [] \<longleftrightarrow> fs = []"
  by (cases fs) auto

lemma encode_all_take_mono:
  "i \<le> j \<Longrightarrow> length (encode_all crc (take i fs)) \<le> length (encode_all crc (take j fs))"
  using append_take_drop_id [of i "take j fs"] encode_all_simps(3) [of crc "take i fs" "drop i (take j fs)"]
  by (metis length_append le_add1 min.absorb1 take_take)

lemma crashed_full:
  assumes "keyed n init" "crashed (map (full_seg crc) init @ d) d'"
  shows "\<exists>e. d' = map (full_seg crc) init @ e \<and> crashed d e"
  using assms
proof (induction n init arbitrary: d' rule: keyed.induct)
  case (1 n)
  then show ?case by simp
next
  case (2 n k fs r)
  have ne: "encode_all crc fs \<noteq> []" using 2(2) by (cases fs) auto
  from 2(3) have "crashed ((k, \<lparr>f_data = encode_all crc fs, f_synced = length (encode_all crc fs)\<rparr>)
      # (map (full_seg crc) r @ d)) d'"
    by (simp add: full_seg_def)
  then obtain e where e: "crashed (map (full_seg crc) r @ d) e"
    and d': "d' = (k, \<lparr>f_data = encode_all crc fs, f_synced = length (encode_all crc fs)\<rparr>) # e"
    by (rule crashed_ConsE) (use ne in auto)
  from 2(1) [OF _ e] 2(2) obtain e' where "e = map (full_seg crc) r @ e'" "crashed d e'" by auto
  then show ?case using d' by (simp add: full_seg_def)
qed

text \<open>
  \<open>wrecked\<close>: a crash cuts the open segment anywhere past its synced bytes, or loses it when it
  has none; it keeps the published marks, and another crash keeps them too.
\<close>

definition wrecked :: "crc_fun \<Rightarrow> dir \<Rightarrow> durable_mark set \<Rightarrow> bool" where
  "wrecked crc d ms \<longleftrightarrow>
     (\<exists>init lf j n. layout_ok crc init lf j n \<and> (\<forall>m \<in> ms. mark_in m (synced_frames init lf j)) \<and>
        (d = disk crc init lf j n \<or> d = map (full_seg crc) init \<and> lf = []))"

lemma custody_wrecked: "custody crc d ms \<Longrightarrow> wrecked crc d ms"
  unfolding custody_def wrecked_def by blast

lemma crashed_wrecked:
  assumes "wrecked crc d ms" "crashed d d'"
  shows "wrecked crc d' ms"
proof -
  from assms(1) obtain init lf j n where lay: "layout_ok crc init lf j n"
    and ms: "\<forall>m \<in> ms. mark_in m (synced_frames init lf j)"
    and d: "d = disk crc init lf j n \<or> d = map (full_seg crc) init @ [] \<and> lf = []"
    unfolding wrecked_def by auto
  have k: "keyed 0 init" and j: "j \<le> length lf"
    using lay by (simp_all add: layout_ok_def)
  have lay0: "layout_ok crc init [] 0 0"
    using lay numbered_prefix [of "flat init" lf] by (auto simp: layout_ok_def)
  from d show ?thesis
  proof
    assume "d = map (full_seg crc) init @ [] \<and> lf = []"
    moreover from this obtain e where "d' = map (full_seg crc) init @ e" "crashed [] e"
      using crashed_full [OF k] assms(2) by metis
    ultimately show ?thesis
      unfolding wrecked_def using lay ms by (blast elim: crashed_NilE)
  next
    assume "d = disk crc init lf j n"
    with crashed_full [OF k] assms(2) obtain tail where d': "d' = map (full_seg crc) init @ tail"
      and t: "crashed [(word_of_nat (length (flat init)), open_seg crc lf j n)] tail"
      unfolding disk_def by blast
    from t show ?thesis
    proof (rule crashed_ConsE)
      assume "crashed [] tail" "f_synced (open_seg crc lf j n) = 0"
      then have "tail = []" "take j lf = []" by (auto simp: open_seg_def elim!: crashed_NilE)
      then have "d' = map (full_seg crc) init" "\<forall>m \<in> ms. mark_in m (synced_frames init [] 0)"
        using d' ms by auto
      then show ?thesis unfolding wrecked_def using lay0 by blast
    next
      fix d'' n'
      assume *: "tail = (word_of_nat (length (flat init)),
           open_seg crc lf j n\<lparr>f_data := take n' (f_data (open_seg crc lf j n))\<rparr>) # d''"
        "crashed [] d''" "f_synced (open_seg crc lf j n) \<le> n'"
      have "d' = disk crc init lf j (min n' n)"
        using d' *(1,2) by (auto simp: disk_def open_seg_def elim!: crashed_NilE)
      moreover have "layout_ok crc init lf j (min n' n)"
        using lay *(3) by (simp add: layout_ok_def open_seg_def)
      ultimately show ?thesis unfolding wrecked_def using ms by blast
    qed
  qed
qed

section \<open>What is readable\<close>

text \<open>\<open>resume\<close> on a directory whose segments hold the frames \<open>X\<close>, all full but perhaps the last.\<close>

lemma map_split:
  "map g xs = pre @ y # post \<Longrightarrow> \<exists>A x B. xs = A @ x # B \<and> pre = map g A \<and> g x = y \<and> post = map g B"
  by (auto simp: map_eq_append_conv map_eq_Cons_conv)

definition holds :: "crc_fun \<Rightarrow> u64 \<times> segfile \<Rightarrow> u64 \<times> frame list \<Rightarrow> bool" where
  "holds crc seg x \<longleftrightarrow> fst seg = fst x \<and>
     (\<exists>r e. f_data (snd seg) = encode_all crc (snd x) @ r \<and> scan_frames crc r = ([], e))"

lemma holds_reads: "holds crc seg x \<Longrightarrow> \<forall>f \<in> set (snd x). fits f \<Longrightarrow> reads_as crc seg (snd x)"
  by (auto simp: holds_def reads_as_def scan_encode_all_append)

lemma holds_full: "holds crc (full_seg crc x) x"
  by (cases x) (auto simp: holds_def full_seg_def intro!: exI [of _ "[]"])

definition tail_ok :: "crc_fun \<Rightarrow> dir \<Rightarrow> (u64 \<times> frame list) list \<Rightarrow> dir \<Rightarrow> (u64 \<times> frame list) list \<Rightarrow> bool" where
  "tail_ok crc d init tail ys \<longleftrightarrow> d = map (full_seg crc) init @ tail \<and>
     (tail = [] \<and> ys = [] \<or>
      (\<exists>f fs. tail = [(word_of_nat (length (flat init)), f)] \<and> ys = [(word_of_nat (length (flat init)), fs)] \<and>
         holds crc (hd tail) (hd ys)))"

lemma disk_tail_ok:
  assumes "layout_ok crc init lf j n"
  shows "\<exists>m tail ys. j \<le> m \<and> m \<le> length lf \<and> tail_ok crc (disk crc init lf j n) init tail ys \<and> flat ys = take m lf"
proof -
  have fits: "\<forall>f \<in> set lf. fits f" and j: "j \<le> length lf" "length (encode_all crc (take j lf)) \<le> n"
    using assms by (simp_all add: layout_ok_def)
  from scan_take_encode_all [OF fits, of crc n] obtain m e where
    m: "scan_frames crc (take n (encode_all crc lf)) = (sized crc (take m lf), e)" "m \<le> length lf"
      "length (encode_all crc (take m lf)) \<le> n"
      "m < length lf \<longrightarrow> n < length (encode_all crc (take (Suc m) lf))"
    by blast
  have jm: "j \<le> m"
  proof (rule ccontr)
    assume "\<not> j \<le> m"
    then show False
      using m(4) j encode_all_take_mono [of "Suc m" j crc lf] by linarith
  qed
  let ?a = "length (encode_all crc (take m lf))" and ?d = "take n (encode_all crc lf)"
  have fm: "\<forall>f \<in> set (take m lf). fits f" using fits by (auto dest: in_set_takeD)
  have "take ?a ?d = encode_all crc (take m lf)"
    using m(3) append_take_drop_id [of m lf] encode_all_simps(3) [of crc "take m lf" "drop m lf"]
    by (metis append_eq_conv_conj min.absorb1 take_take)
  then have eq: "?d = encode_all crc (take m lf) @ drop ?a ?d" by (metis append_take_drop_id)
  then have "fst (scan_frames crc (drop ?a ?d)) = []"
    using m(1) scan_encode_all_append [OF fm, of crc "drop ?a ?d"] by simp
  then have "scan_frames crc (drop ?a ?d) = ([], snd (scan_frames crc (drop ?a ?d)))"
    by (metis prod.collapse)
  with eq have "holds crc (w, open_seg crc lf j n) (w, take m lf)" for w
    unfolding holds_def open_seg_def by (metis fst_conv segfile.select_convs(1) snd_conv)
  then have "tail_ok crc (disk crc init lf j n) init [(word_of_nat (length (flat init)), open_seg crc lf j n)]
      [(word_of_nat (length (flat init)), take m lf)]"
    by (simp add: tail_ok_def disk_def)
  then show ?thesis using jm m(2) by force
qed

section \<open>Recovery\<close>

lemma truncate_at_split:
  "length A = idx \<Longrightarrow> truncate_at (Some (idx, off, seq, lsn)) (A @ (k, f) # B) =
     (A @ [(k, file_set_len off f)], seq + 1, \<lparr>dm_seq = seq, dm_lsn = lsn, dm_valid = True\<rparr>)"
proof -
  assume len: "length A = idx"
  have "map (\<lambda>(i, k, f). (k, if i = idx then file_set_len off f else f)) (zip [0..<idx] A) = A"
    using len by (intro nth_equalityI) (auto split: prod.splits)
  then show ?thesis using len by (simp add: truncate_at_def)
qed

lemma full_reads:
  "\<forall>f \<in> set fs. fits f \<Longrightarrow> reads_as crc (full_seg crc (k, fs)) fs"
  by (simp add: reads_as_def full_seg_def scan_encode_all)

lemma set_len_full:
  assumes "f_data f = encode_all crc fs @ r"
  shows "(k, file_set_len (length (encode_all crc (upto_commit fs))) f) = full_seg crc (k, upto_commit fs)"
proof -
  obtain t where "fs = upto_commit fs @ t" using upto_commit_prefix by blast
  then have "encode_all crc fs = encode_all crc (upto_commit fs) @ encode_all crc t"
    by (metis encode_all_simps(3))
  with assms show ?thesis by (simp add: file_set_len_def file_sync_def full_seg_def)
qed

lemma resume_result:
  assumes t: "tail_ok crc d init tail ys" and k: "keyed 0 init"
    and n: "numbered (flat (init @ ys))" "\<forall>f \<in> set (flat (init @ ys)). fits f"
      "length (flat (init @ ys)) < 2 ^ 64"
    and ms: "\<forall>m \<in> ms. mark_in m (flat (init @ ys))"
  shows "\<exists>L init'. resume crc (Some d) smax = Ok L \<and>
    log_inv crc L init' [] 0 [] (insert (fl_mark L) ms) \<and>
    flat init' = upto_commit (flat (init @ ys)) \<and> \<not> fl_stalled L \<and>
    (if has_commit (flat (init @ ys))
     then fl_mark L = \<lparr>dm_seq = fr_seq (last (flat init')), dm_lsn = fr_lsn_end (last (flat init')), dm_valid = True\<rparr>
     else fl_mark L = default_mark)"
proof -
  let ?X = "init @ ys" and ?R = "upto_commit (flat (init @ ys))"
  have all: "list_all2 (holds crc) d ?X"
    using t by (auto simp: tail_ok_def list_all2_map1 holds_full intro!: list_all2_appendI list.rel_refl)
  have reads: "list_all2 (reads_as crc) d (map snd ?X)"
    unfolding list_all2_map2 unfolding list_all2_conv_all_nth
  proof (intro conjI allI impI)
    show "length d = length ?X" using list_all2_lengthD [OF all] .
    fix i assume i: "i < length d"
    then have "?X ! i \<in> set ?X" using list_all2_lengthD [OF all] by (simp only: nth_mem)
    then have "\<forall>f \<in> set (snd (?X ! i)). fits f" using n(2) by fastforce
    then show "reads_as crc (d ! i) (snd (?X ! i))"
      using holds_reads list_all2_nthD [OF all i] by blast
  qed
  obtain b fr cm where scan: "resume_scan crc 0 d (None, 0, 0) = (b, fr, cm)" by (metis prod_cases3)
  have bd: "is_boundary crc (map snd ?X) b" using resume_scan_boundary [OF reads] scan by simp
  show ?thesis
  proof (cases b)
    case None
    then have no: "\<not> has_commit (flat ?X)" using bd by (simp add: is_boundary_def)
    then have R: "?R = []" by (rule upto_commit_no)
    have inval: "\<forall>m \<in> ms. \<not> dm_valid m" using ms no by (auto simp: mark_in_def)
    show ?thesis
      using None no R inval
      by (simp add: resume_def scan truncate_at_def log_inv_def log_base_def layout_ok_def disk_def
          open_seg_def empty_file_def mark_in_def default_mark_def)
  next
    case (Some x)
    obtain idx off seq lsn where x: "x = (idx, off, seq, lsn)" by (cases x)
    from bd obtain pre fs post where sp: "map snd ?X = pre @ fs # post" "length pre = idx"
      "\<not> has_commit (concat post)" "has_commit fs" "off = length (encode_all crc (upto_commit fs))"
      "seq = fr_seq (last (upto_commit fs))" "lsn = fr_lsn_end (last (upto_commit fs))"
      by (auto simp: is_boundary_def Some x)
    from sp(1) obtain A k B where X: "?X = A @ (k, fs) # B" and A: "pre = map snd A" "post = map snd B"
      using map_split [OF sp(1)] that by (metis prod.collapse)
    have lenA: "length A = idx" "length A \<le> length init"
      using sp(2) A(1) arg_cong [OF X, of length] t by (auto simp: tail_ok_def)
    have preA: "A = take idx init"
      using arg_cong [OF X, of "take idx"] lenA by simp
    obtain seg dB where d: "d = map (full_seg crc) A @ seg # dB" "holds crc seg (k, fs)"
    proof -
      from all obtain dA seg dB where *: "d = dA @ seg # dB" "length dA = idx" "holds crc seg (k, fs)"
        unfolding X list_all2_append2 list_all2_Cons2 using lenA by auto
      have "dA = map (full_seg crc) A"
        using arg_cong [OF *(1), of "take idx"] t lenA *(2) preA by (auto simp: tail_ok_def take_map)
      with * that show ?thesis by blast
    qed
    obtain f where seg: "seg = (k, f)" using d(2) by (cases seg) (auto simp: holds_def)
    obtain r where f: "f_data f = encode_all crc fs @ r" using d(2) seg by (auto simp: holds_def)
    let ?U = "upto_commit fs" and ?I = "A @ [(k, upto_commit fs)]"
    have U: "?U \<noteq> []" using upto_commit_ends [OF sp(4)] by simp
    have keyA: "keyed 0 A \<and> k = word_of_nat (length (flat A))"
    proof (cases "idx < length init")
      case True
      then have "init = A @ init ! idx # drop (Suc idx) init"
        using preA by (simp add: id_take_nth_drop)
      moreover have "init ! idx = (k, fs)"
        using arg_cong [OF X, of "\<lambda>l. l ! idx"] True lenA(1) by (simp add: nth_append)
      ultimately have "keyed 0 (A @ (k, fs) # drop (Suc idx) init)" using k by metis
      then show ?thesis by (simp add: keyed_append)
    next
      case False
      then have "A = init" using preA lenA by simp
      then show ?thesis using X t k by (auto simp: tail_ok_def)
    qed
    then have keyI: "keyed 0 ?I" using U by (simp add: keyed_append)
    have R: "?R = flat ?I"
    proof -
      have "upto_commit (fs @ flat B) = upto_commit fs" "has_commit (fs @ flat B)"
        using sp(3,4) A(2) by (auto simp only: upto_commit_append if_not_P if_False set_append)
      then have "upto_commit (flat A @ (fs @ flat B)) = flat A @ upto_commit fs"
        using upto_commit_append [of "flat A" "fs @ flat B"] by simp
      then show ?thesis unfolding X by simp
    qed
    have com: "has_commit (flat ?X)" unfolding X using sp(4) by auto
    obtain m where m: "?R = take m (flat ?X)" using upto_commit_take by blast
    have nI: "numbered (flat ?I)" "\<forall>f \<in> set (flat ?I). fits f" "length (flat ?I) < 2 ^ 64"
      using numbered_take [OF n(1), of m] n(2,3) upto_commit_subset [of "flat ?X"] m
      unfolding R [symmetric] by auto
    have last: "last (flat ?I) = last ?U" "flat ?I \<noteq> []" using U by simp_all
    have next_seq: "seq + 1 = word_of_nat (length (flat ?I))"
      using numbered_last [OF nI(1) last(2)] last(1) sp(6) by simp
    have tr: "truncate_at b d = (map (full_seg crc) ?I, seq + 1, \<lparr>dm_seq = seq, dm_lsn = lsn, dm_valid = True\<rparr>)"
      unfolding Some x d(1) seg
      using truncate_at_split [of "map (full_seg crc) A" idx off seq lsn k f dB] lenA(1) sp(5) set_len_full [OF f]
      by simp
    have dir: "dir_create (seq + 1) (map (full_seg crc) ?I) = disk crc ?I [] 0 0"
      unfolding next_seq dir_create_above [OF full_keys_less [OF keyI nI(3)]]
      by (simp add: disk_def open_seg_def empty_file_def)
    have marks: "\<forall>m \<in> ms. mark_in m (flat ?I)"
      using ms upto_commit_mem [of _ "flat ?X"] unfolding R [symmetric] mark_in_def by blast
    have new: "mark_in \<lparr>dm_seq = seq, dm_lsn = lsn, dm_valid = True\<rparr> (flat ?I)"
      using upto_commit_ends [OF sp(4)] U by (auto simp: mark_in_def sp(6,7) intro!: bexI [of _ "last ?U"])
    let ?L = "\<lparr>fl_dir = disk crc ?I [] 0 0, fl_staging = None, fl_segment_max = smax, fl_file = seq + 1,
      fl_segment_len = 0, fl_next_seq = seq + 1, fl_pending = None,
      fl_mark = \<lparr>dm_seq = seq, dm_lsn = lsn, dm_valid = True\<rparr>, fl_stalled = False, fl_spill = [],
      fl_spill_open = False, fl_spilled = 0, fl_total_frames = fr, fl_total_commits = cm\<rparr>"
    have "resume crc (Some d) smax = Ok ?L"
      using dir by (simp add: resume_def scan tr)
    moreover have "log_inv crc ?L ?I [] 0 [] (insert (fl_mark ?L) ms)"
      unfolding log_inv_def log_base_def layout_ok_def
      using keyI nI marks new next_seq by simp
    ultimately show ?thesis
      using com R last(1) sp(6,7)
      by (intro exI [of _ ?L] exI [of _ ?I]) simp
  qed
qed


section \<open>All interleavings\<close>

definition log_frames :: "crc_fun \<Rightarrow> dir \<Rightarrow> frame list" where
  "log_frames crc d = concat (map (\<lambda>(k, f). scanned crc (f_data f)) d)"

datatype log_op =
    OpAppend u64 u64 bool bytes
  | OpDeferred u64 u64 bool bytes
  | OpFlush
  | OpStall bool

definition run_op :: "crc_fun \<Rightarrow> io \<Rightarrow> log_op \<Rightarrow> frame_log \<Rightarrow> (log_error + unit) \<times> frame_log" where
  "run_op crc w p L =
     (case p of
        OpAppend a b c x \<Rightarrow> st_bind (log_append crc w a b c x L) (\<lambda>_ L. (Ok (), L))
      | OpDeferred a b c x \<Rightarrow> st_bind (log_append_deferred crc w a b c x L) (\<lambda>_ L. (Ok (), L))
      | OpFlush \<Rightarrow> flush_pending w L
      | OpStall b \<Rightarrow> set_stalled w b L)"

text \<open>
  The bounds an append needs: a payload whose length fits the header's field and a sequence
  number left. The frames of \<open>run_op\<close> are those before it and perhaps the appended one.
\<close>

fun op_fits :: "log_op \<Rightarrow> frame_log \<Rightarrow> bool" where
  "op_fits (OpAppend a b c x) L = (length x < 2 ^ 32 \<and> unat (fl_next_seq L) + 1 < 2 ^ 64)"
| "op_fits (OpDeferred a b c x) L = (length x < 2 ^ 32 \<and> unat (fl_next_seq L) + 1 < 2 ^ 64)"
| "op_fits OpFlush L = True"
| "op_fits (OpStall b) L = True"

fun op_frames :: "log_op \<Rightarrow> frame_log \<Rightarrow> frame list" where
  "op_frames (OpAppend a b c x) L = [new_frame (fl_next_seq L) a b c x]"
| "op_frames (OpDeferred a b c x) L = [new_frame (fl_next_seq L) a b c x]"
| "op_frames OpFlush L = []"
| "op_frames (OpStall b) L = []"

lemma run_op_result:
  assumes inv: "log_inv crc L init lf j sp ms" and p: "op_fits p L"
  shows "op_result crc ms (flat init @ lf @ sp @ op_frames p L) (run_op crc w p L)"
proof -
  have n: "unat (fl_next_seq L) = length (flat init @ lf @ sp)"
    using invE(4,5) [OF inv] by (simp add: unat_of_nat del: of_nat_add length_append)
  show ?thesis
  proof (cases p)
    case (OpAppend a b c x)
    then have "op_result crc ms (flat init @ lf @ sp @ op_frames p L) (log_append crc w a b c x L)"
      using log_append_result [OF inv, of x] p n by simp
    then show ?thesis unfolding run_op_def OpAppend by (simp add: op_result_return)
  next
    case (OpDeferred a b c x)
    then have "op_result crc ms (flat init @ lf @ sp @ op_frames p L) (log_append_deferred crc w a b c x L)"
      using log_append_deferred_result [OF inv, of x] p n by simp
    then show ?thesis unfolding run_op_def OpDeferred by (simp add: op_result_return)
  next
    case OpFlush
    then show ?thesis using log_flush_result [OF inv] by (simp add: run_op_def)
  next
    case (OpStall b)
    then show ?thesis using set_stalled_result [OF inv] by (simp add: run_op_def)
  qed
qed

text \<open>
  A log is \<open>Live\<close> or, after a failed call or a crash, \<open>Down\<close> with its directory. The second
  component is the set of all marks it ever published.
\<close>

datatype log_world = Live frame_log | Down dir

fun world_dir :: "log_world \<Rightarrow> dir" where
  "world_dir (Live L) = fl_dir L"
| "world_dir (Down d) = d"

inductive log_step :: "crc_fun \<Rightarrow> log_world \<times> durable_mark set \<Rightarrow> log_world \<times> durable_mark set \<Rightarrow> bool"
  for crc where
  step_ok: "run_op crc w p L = (Ok u, L') \<Longrightarrow> op_fits p L \<Longrightarrow>
    log_step crc (Live L, ms) (Live L', insert (fl_mark L') ms)"
| step_fail: "run_op crc w p L = (Err e, L') \<Longrightarrow> op_fits p L \<Longrightarrow>
    log_step crc (Live L, ms) (Down (fl_dir L'), insert (fl_mark L') ms)"
| step_crash: "crashed (world_dir s) d \<Longrightarrow> log_step crc (s, ms) (Down d, ms)"
| step_resume: "resume crc (Some d) smax = Ok L \<Longrightarrow>
    log_step crc (Down d, ms) (Live L, insert (fl_mark L) ms)"

inductive log_reach :: "crc_fun \<Rightarrow> log_world \<times> durable_mark set \<Rightarrow> bool" for crc where
  reach_create: "log_reach crc (Live (log_create smax), {default_mark})"
| reach_step: "log_reach crc s \<Longrightarrow> log_step crc s s' \<Longrightarrow> log_reach crc s'"

inductive_cases log_step_LiveE: "log_step crc (Live L, ms) s'"

fun world_inv :: "crc_fun \<Rightarrow> log_world \<times> durable_mark set \<Rightarrow> bool" where
  "world_inv crc (Live L, ms) = (\<exists>init lf j sp. log_inv crc L init lf j sp ms)"
| "world_inv crc (Down d, ms) = wrecked crc d ms"

lemma log_create_inv: "log_inv crc (log_create smax) [] [] 0 [] {default_mark}"
  by (simp add: log_create_def log_inv_def log_base_def layout_ok_def disk_def open_seg_def empty_file_def)

lemma log_frames_simps [simp]:
  "log_frames crc [] = []" "log_frames crc ((k, f) # d) = scanned crc (f_data f) @ log_frames crc d"
  "log_frames crc (d @ e) = log_frames crc d @ log_frames crc e"
  by (simp_all add: log_frames_def)

lemma log_frames_full:
  "\<forall>f \<in> set (flat init). fits f \<Longrightarrow> log_frames crc (map (full_seg crc) init) = flat init"
  by (induction init) (auto simp: full_seg_def scan_encode_all split: prod.splits)

lemma log_frames_tail:
  assumes "tail_ok crc d init tail ys" "\<forall>f \<in> set (flat (init @ ys)). fits f"
  shows "log_frames crc d = flat (init @ ys)"
proof -
  have "\<forall>f \<in> set (flat init). fits f" using assms(2) by simp
  then have "log_frames crc (map (full_seg crc) init) = flat init" by (rule log_frames_full)
  then show ?thesis
    using assms by (auto simp: tail_ok_def holds_def scan_encode_all_append)
qed

lemma resume_wrecked:
  assumes "wrecked crc d ms"
  shows "\<exists>L init'. resume crc (Some d) smax = Ok L \<and>
    log_inv crc L init' [] 0 [] (insert (fl_mark L) ms) \<and> flat init' = upto_commit (log_frames crc d) \<and>
    \<not> fl_stalled L \<and>
    (if has_commit (log_frames crc d)
     then fl_mark L = \<lparr>dm_seq = fr_seq (last (flat init')), dm_lsn = fr_lsn_end (last (flat init')), dm_valid = True\<rparr>
     else fl_mark L = default_mark)"
proof -
  from assms obtain init lf j n where lay: "layout_ok crc init lf j n"
    and ms: "\<forall>m \<in> ms. mark_in m (synced_frames init lf j)"
    and d: "d = disk crc init lf j n \<or> d = map (full_seg crc) init \<and> lf = []"
    unfolding wrecked_def by blast
  obtain m tail ys where t: "j \<le> m" "m \<le> length lf" "tail_ok crc d init tail ys" "flat ys = take m lf"
    using d
  proof
    assume "d = disk crc init lf j n"
    then show ?thesis using disk_tail_ok [OF lay] that by blast
  next
    assume "d = map (full_seg crc) init \<and> lf = []"
    then show ?thesis using that [of 0 "[]" "[]"] lay by (simp add: tail_ok_def layout_ok_def)
  qed
  have fr: "flat (init @ ys) = take (length (flat init) + m) (flat init @ lf)" using t(4) by simp
  have sub: "set (synced_frames init lf j) \<subseteq> set (flat (init @ ys))"
    using t(1,4) set_take_subset_set_take [of j m lf] by auto
  have "numbered (flat (init @ ys))"
    unfolding fr by (rule numbered_take) (use lay in \<open>simp add: layout_ok_def\<close>)
  moreover have "\<forall>f \<in> set (flat (init @ ys)). fits f"
    unfolding fr using lay in_set_takeD unfolding layout_ok_def by fast
  moreover have "length (flat (init @ ys)) < 2 ^ 64"
    unfolding fr using lay by (auto simp: layout_ok_def min_def)
  moreover have "\<forall>m \<in> ms. mark_in m (flat (init @ ys))" using ms sub mark_in_mono by blast
  moreover have "keyed 0 init" using lay by (simp add: layout_ok_def)
  moreover have "log_frames crc d = flat (init @ ys)"
    by (rule log_frames_tail [OF t(3) \<open>\<forall>f \<in> set (flat (init @ ys)). fits f\<close>])
  ultimately show ?thesis
    using resume_result [OF t(3), of ms smax] by simp
qed

lemma step_inv:
  assumes "log_step crc s s'" "world_inv crc s"
  shows "world_inv crc s'"
  using assms
proof (induction rule: log_step.induct)
  case (step_ok w p L u L' ms)
  then show ?case using run_op_result [of crc L _ _ _ _ ms p w] by (fastforce simp: op_result_def)
next
  case (step_fail w p L e L' ms)
  then show ?case
    using run_op_result [of crc L _ _ _ _ ms p w] by (fastforce simp: op_result_def intro: custody_wrecked)
next
  case (step_crash s d ms)
  have "wrecked crc (world_dir s) ms"
    using step_crash(2) by (cases s) (auto dest: invD(1) base_custody custody_wrecked)
  then show ?case using crashed_wrecked step_crash(1) by simp
next
  case (step_resume d smax L ms)
  then show ?case using resume_wrecked [of crc d ms smax] by fastforce
qed

lemma reach_inv: "log_reach crc s \<Longrightarrow> world_inv crc s"
proof (induction rule: log_reach.induct)
  case (reach_create smax)
  then show ?case using log_create_inv by fastforce
next
  case (reach_step s s')
  then show ?case using step_inv by blast
qed


section \<open>What a reader finds\<close>

lemma log_frames_inv:
  assumes "log_inv crc L init lf j sp ms"
  shows "log_frames crc (fl_dir L) = flat init @ lf"
proof -
  have "\<forall>f \<in> set (flat init @ lf). fits f" "fl_dir L = disk crc init lf j (length (encode_all crc lf))"
    using assms by (simp_all add: log_inv_def log_base_def layout_ok_def)
  then show ?thesis
    by (auto simp: disk_def open_seg_def scan_encode_all intro!: log_frames_full)
qed

lemma log_frames_wrecked:
  assumes "wrecked crc d ms" "m \<in> ms"
  shows "mark_in m (log_frames crc d)"
proof -
  from assms(1) obtain init lf j n where lay: "layout_ok crc init lf j n"
    and ms: "\<forall>m \<in> ms. mark_in m (synced_frames init lf j)"
    and d: "d = disk crc init lf j n \<or> d = map (full_seg crc) init \<and> lf = []"
    unfolding wrecked_def by blast
  have fits: "\<forall>f \<in> set (flat init). fits f" "\<forall>f \<in> set lf. fits f" "j \<le> length lf"
    "length (encode_all crc (take j lf)) \<le> n"
    using lay by (auto simp: layout_ok_def)
  have "set (synced_frames init lf j) \<subseteq> set (log_frames crc d)"
    using d
  proof
    assume d: "d = disk crc init lf j n"
    have "take n (encode_all crc lf) =
        encode_all crc (take j lf) @ take (n - length (encode_all crc (take j lf))) (encode_all crc (drop j lf))"
      using fits(4) encode_all_simps(3) [of crc "take j lf" "drop j lf"] by (simp del: encode_all_simps)
    then obtain r where r: "take n (encode_all crc lf) = encode_all crc (take j lf) @ r" by blast
    have "\<forall>f \<in> set (take j lf). fits f" using fits(2) by (auto dest: in_set_takeD)
    then show ?thesis
      unfolding d disk_def open_seg_def
      by (auto simp: log_frames_full [OF fits(1)] r scan_encode_all_append image_Un simp flip: set_map)
  next
    assume "d = map (full_seg crc) init \<and> lf = []"
    then show ?thesis using log_frames_full [OF fits(1)] by simp
  qed
  then show ?thesis using ms assms(2) mark_in_mono by blast
qed

lemma world_marks:
  assumes "world_inv crc (s, ms)" "m \<in> ms"
  shows "mark_in m (log_frames crc (world_dir s))"
proof (cases s)
  case (Live L)
  then obtain init lf j sp where inv: "log_inv crc L init lf j sp ms" using assms(1) by auto
  then have "mark_in m (synced_frames init lf j)"
    using assms(2) by (simp add: log_inv_def log_base_def)
  then have "mark_in m (flat init @ lf)" by (rule mark_in_mono) (auto dest: in_set_takeD)
  then show ?thesis using Live log_frames_inv [OF inv] by simp
next
  case (Down d)
  then show ?thesis using assms log_frames_wrecked by simp
qed

text \<open>\<open>verify_log\<close> over contiguous frames.\<close>

lemma verify_fold:
  assumes "map fr_seq fs = map word_of_nat [n..<n + length fs]"
    "fold verify_frame fs (v, e, le) = (v', e', le')" "lv_seq_contiguous v"
    "e = None \<or> e = Some (word_of_nat n)"
  shows "lv_seq_contiguous v' \<and> lv_frames v' = lv_frames v + word_of_nat (length fs) \<and>
    lv_commits v' = lv_commits v + word_of_nat (length (filter fr_txn_complete fs)) \<and>
    lv_torn_tail v' = lv_torn_tail v \<and> (e' = None \<or> e' = Some (word_of_nat (n + length fs)))"
  using assms
proof (induction fs arbitrary: n v e le)
  case Nil
  then show ?case by auto
next
  case (Cons f fs)
  have f: "fr_seq f = word_of_nat n" and tl: "map fr_seq fs = map word_of_nat [Suc n..<Suc n + length fs]"
    using Cons.prems(1) by (simp_all add: upt_conv_Cons del: upt_Suc)
  obtain v1 e1 l1 where s: "verify_frame f (v, e, le) = (v1, e1, l1)" by (metis prod_cases3)
  have v1: "lv_seq_contiguous v1" "e1 = Some (word_of_nat (Suc n))" "lv_frames v1 = lv_frames v + 1"
    "lv_commits v1 = lv_commits v + (if fr_txn_complete f then 1 else 0)" "lv_torn_tail v1 = lv_torn_tail v"
    using s f Cons.prems(3,4) by (auto simp: add.commute)
  have fold: "fold verify_frame fs (v1, e1, l1) = (v', e', le')"
    using Cons.prems(2) unfolding fold_simps s .
  show ?case
    using Cons.IH [OF tl fold v1(1)] v1 by (simp add: add_ac)
qed

lemma verify_clean:
  assumes "\<forall>(k, f) \<in> set d. scan_err crc (f_data f) = None"
  shows "verify_segs crc torn d st seen =
    Ok (fst (fold verify_frame (log_frames crc d) st), seen @ log_frames crc d)"
  using assms
proof (induction d arbitrary: st seen)
  case Nil
  then show ?case by simp
next
  case (Cons x d)
  obtain k f where x: "x = (k, f)" by (cases x)
  obtain fs e where sc: "scan_frames crc (f_data f) = (fs, e)" by (metis surj_pair)
  then have "e = None" using Cons.prems x by auto
  then show ?case using Cons x sc by simp
qed

lemma inv_clean:
  assumes "log_inv crc L init lf j sp ms"
  shows "\<forall>(k, f) \<in> set (fl_dir L). scan_err crc (f_data f) = None"
proof -
  have "\<forall>x \<in> set init. \<forall>f \<in> set (snd x). fits f" "\<forall>f \<in> set lf. fits f"
    "fl_dir L = disk crc init lf j (length (encode_all crc lf))"
    using assms by (auto simp: log_inv_def log_base_def layout_ok_def)
  then show ?thesis
    by (fastforce simp: disk_def open_seg_def full_seg_def scan_encode_all)
qed

lemma reach_live:
  assumes "log_reach crc (Live L, ms)"
  obtains init lf j sp where "log_inv crc L init lf j sp ms"
  using reach_inv [OF assms] by auto


section \<open>Properties\<close>

text \<open>
  C2. No acknowledged commit is ever lost. After any interleaving of appends, deferred appends,
  flushes, stalls, failed input/output, crashes and recoveries, every mark the log ever published
  names a transaction-complete frame that can still be read from its directory.
\<close>

theorem no_acked_commit_lost:
  assumes "log_reach crc (s, ms)" and "m \<in> ms" and "dm_valid m"
  shows "\<exists>c \<in> set (log_frames crc (world_dir s)).
    fr_txn_complete c \<and> fr_seq c = dm_seq m \<and> fr_lsn_end c = dm_lsn m"
  using world_marks [OF reach_inv [OF assms(1)] assms(2)] assms(3) by (auto simp: mark_in_def)

definition demo_log :: frame_log where
  "demo_log = snd (run_op (\<lambda>_. 0) io_fine (OpAppend 5 9 True [1, 2]) (log_create 64))"

lemma demo_log_reach: "log_reach (\<lambda>_. 0) (Live demo_log, {fl_mark demo_log, default_mark})"
proof -
  have "log_step (\<lambda>_. 0) (Live (log_create 64), {default_mark}) (Live demo_log, insert (fl_mark demo_log) {default_mark})"
    by (rule step_ok [of _ io_fine "OpAppend 5 9 True [1, 2]" _ "()"])
      (simp_all add: demo_log_def run_op_def log_append_def take_seq_def log_create_def write_durable_def
        write_file_def sync_file_def send_mark_def roll_segment_def io_fine_def Let_def)
  then show ?thesis using reach_step reach_create by blast
qed

lemma demo_log_mark: "fl_mark demo_log = \<lparr>dm_seq = 0, dm_lsn = 9, dm_valid = True\<rparr>"
  by (simp add: demo_log_def run_op_def log_append_def take_seq_def log_create_def write_durable_def
      write_file_def sync_file_def send_mark_def roll_segment_def io_fine_def Let_def)

lemma demo_down_reach: "log_reach (\<lambda>_. 0) (Down (fl_dir demo_log), {fl_mark demo_log, default_mark})"
  by (rule reach_step [OF demo_log_reach step_crash]) (simp add: crashed_refl)

theorem no_acked_commit_lost_witness:
  "\<exists>c \<in> set (log_frames (\<lambda>_. 0) (fl_dir demo_log)). fr_txn_complete c \<and> fr_seq c = 0 \<and> fr_lsn_end c = 9"
  using no_acked_commit_lost [OF demo_log_reach, of "fl_mark demo_log"] demo_log_mark by simp

text \<open>A directory whose last segment may end inside a frame.\<close>

lemma verify_full:
  "\<forall>f \<in> set (flat init). fits f \<Longrightarrow>
    verify_segs crc torn (map (full_seg crc) init @ d) st seen =
    verify_segs crc torn d (fold verify_frame (flat init) st) (seen @ flat init)"
proof (induction init arbitrary: st seen)
  case (Cons x init)
  obtain k fs where x: "x = (k, fs)" by (cases x)
  then show ?case using Cons by (simp add: full_seg_def scan_encode_all)
qed simp

lemma wrecked_shape:
  assumes "wrecked crc d ms"
  obtains init f k fs e where "d = map (full_seg crc) init \<and> fs = [] \<or> d = map (full_seg crc) init @ [(k, f)] \<and> scan_frames crc (f_data f) = (sized crc fs, e)"
    and "\<forall>f \<in> set (flat init @ fs). fits f" and "numbered (flat init @ fs)" and "\<forall>x. e = Some x \<longrightarrow> is_truncated x"
proof -
  from assms obtain init lf j n where lay: "layout_ok crc init lf j n"
    and d: "d = disk crc init lf j n \<or> d = map (full_seg crc) init \<and> lf = []"
    unfolding wrecked_def by blast
  have lf: "\<forall>f \<in> set (flat init @ lf). fits f" and num: "numbered (flat init @ lf)" using lay by (simp_all add: layout_ok_def)
  from d show ?thesis
  proof
    assume "d = map (full_seg crc) init \<and> lf = []"
    then show ?thesis using that [of init "[]" _ _ None] lf num by auto
  next
    assume d: "d = disk crc init lf j n"
    from scan_take_encode_all [of lf crc n] lf obtain m e where
      m: "scan_frames crc (take n (encode_all crc lf)) = (sized crc (take m lf), e)" "\<forall>x. e = Some x \<longrightarrow> is_truncated x" by auto
    have "flat init @ take m lf = take (length (flat init) + m) (flat init @ lf)" by simp
    then have "numbered (flat init @ take m lf)" using numbered_take [OF num] by metis
    moreover have "\<forall>f \<in> set (flat init @ take m lf). fits f" using lf by (auto dest: in_set_takeD)
    ultimately show ?thesis
      using m by (intro that [of init "take m lf" _ "open_seg crc lf j n" e]) (simp_all add: d disk_def open_seg_def)
  qed
qed

lemma reach_wrecked: "log_reach crc (w, ms) \<Longrightarrow> wrecked crc (world_dir w) ms"
  using reach_inv [of crc "(w, ms)"] by (cases w) (auto dest: invD(1) base_custody custody_wrecked)


text \<open>A committed frame, then one of an open transaction that a crash cuts after ten bytes.\<close>

definition torn_log :: frame_log where
  "torn_log = snd (run_op (\<lambda>_. 0) io_fine (OpAppend 9 9 False [3]) demo_log)"

definition torn_dir :: dir where
  "torn_dir = [(0, \<lparr>f_data = encode_frame (\<lambda>_. 0) (new_frame 0 5 9 True [1, 2]) @ take 10 (encode_frame (\<lambda>_. 0) (new_frame 1 9 9 False [3])), f_synced = 39\<rparr>)]"

lemmas torn_simps = demo_log_def run_op_def log_append_def take_seq_def log_create_def write_durable_def
  write_file_def sync_file_def send_mark_def roll_segment_def io_fine_def Let_def dir_update_def file_append_def file_sync_def empty_file_def

lemma torn_reach: "log_reach (\<lambda>_. 0) (Down torn_dir, {fl_mark torn_log, fl_mark demo_log, default_mark})"
proof -
  have 1: "log_step (\<lambda>_. 0) (Live demo_log, {fl_mark demo_log, default_mark}) (Live torn_log, insert (fl_mark torn_log) {fl_mark demo_log, default_mark})"
    by (rule step_ok [of _ io_fine "OpAppend 9 9 False [3]" _ "()"]) (simp_all add: torn_log_def torn_simps)
  have d: "fl_dir torn_log = [(0, \<lparr>f_data = encode_frame (\<lambda>_. 0) (new_frame 0 5 9 True [1, 2]) @ encode_frame (\<lambda>_. 0) (new_frame 1 9 9 False [3]), f_synced = 39\<rparr>)]"
    by (simp add: torn_log_def torn_simps)
  have "crashed (fl_dir torn_log) torn_dir"
    unfolding d using crash_keep [OF crash_Nil, of "\<lparr>f_data = encode_frame (\<lambda>_. 0) (new_frame 0 5 9 True [1, 2]) @ encode_frame (\<lambda>_. 0) (new_frame 1 9 9 False [3]), f_synced = 39\<rparr>" 49 0]
    by (simp add: torn_dir_def)
  then show ?thesis using reach_step [OF reach_step [OF demo_log_reach 1] step_crash] by simp
qed


text \<open>
  C8. \<open>resume\<close> succeeds after any crash of any reachable log. It keeps exactly the readable frames
  up to the last transaction-complete one, its mark names that frame (or is the default one when
  there is none), and appending goes on with the next number.
\<close>

theorem resume_keeps_committed_prefix:
  assumes "log_reach crc (Down d, ms)"
  shows "\<exists>L. resume crc (Some d) smax = Ok L \<and>
    log_frames crc (fl_dir L) = upto_commit (log_frames crc d) \<and>
    fl_next_seq L = word_of_nat (length (log_frames crc (fl_dir L))) \<and>
    fl_mark L =
      (if upto_commit (log_frames crc d) = [] then default_mark
       else \<lparr>dm_seq = fr_seq (last (upto_commit (log_frames crc d))),
             dm_lsn = fr_lsn_end (last (upto_commit (log_frames crc d))), dm_valid = True\<rparr>)"
proof -
  have "wrecked crc d ms" using reach_inv [OF assms] by simp
  from resume_wrecked [OF this, of smax] obtain L init' where L: "resume crc (Some d) smax = Ok L"
    "log_inv crc L init' [] 0 [] (insert (fl_mark L) ms)" "flat init' = upto_commit (log_frames crc d)"
    "if has_commit (log_frames crc d)
     then fl_mark L = \<lparr>dm_seq = fr_seq (last (flat init')), dm_lsn = fr_lsn_end (last (flat init')), dm_valid = True\<rparr>
     else fl_mark L = default_mark"
    by blast
  have "upto_commit (log_frames crc d) = [] \<longleftrightarrow> \<not> has_commit (log_frames crc d)"
    using upto_commit_ends upto_commit_no by blast
  then show ?thesis
    using L log_frames_inv [OF L(2)] invE(5) [OF L(2)]
    by (intro exI [of _ L]) (simp split: if_splits)
qed

theorem resume_keeps_committed_prefix_witness:
  "\<exists>L. resume (\<lambda>_. 0) (Some (fl_dir demo_log)) 64 = Ok L \<and>
    log_frames (\<lambda>_. 0) (fl_dir L) = upto_commit (log_frames (\<lambda>_. 0) (fl_dir demo_log))"
  using resume_keeps_committed_prefix [OF demo_down_reach, of 64] by blast

end
