(* ===== verification/LogStaging.thy ===== *)
theory LogStaging
  imports LogRecovery
begin

text \<open>
  Rung 3 of the frame log: while it is stalled appends go to staging and nothing durable moves;
  leaving the stall drains the staged frames in order before the mark passes them. The last section
  records where \<open>flush_pending\<close> and \<open>resume\<close> promise less than their comments.
\<close>

section \<open>The stalled state\<close>

lemma spill_frame_effect:
  assumes "spill_frame w bs L = (r, L')"
  shows "fl_dir L' = fl_dir L \<and> fl_mark L' = fl_mark L \<and> fl_pending L' = fl_pending L \<and>
    fl_stalled L' = fl_stalled L \<and> fl_spill L' = (if is_ok r then fl_spill L @ [bs] else fl_spill L)"
  using assms by (auto simp: spill_frame_def Let_def split: if_splits option.splits)

text \<open>
  While the log is stalled an append of either kind leaves the segments, the durable mark and
  the pending commit alone, whatever its input/output does; on success its encoded frame is the
  last staged one and the returned sequence number is the next one.
\<close>

theorem stalled_append_only_stages:
  assumes "fl_stalled L"
    and "log_append crc w a b c p L = (r, L') \<or> log_append_deferred crc w a b c p L = (r, L')"
  shows "fl_dir L' = fl_dir L \<and> fl_mark L' = fl_mark L \<and> fl_pending L' = fl_pending L \<and> fl_stalled L' \<and>
    fl_next_seq L' = fl_next_seq L + 1 \<and>
    (case r of
       Inr q \<Rightarrow> q = fl_next_seq L \<and> fl_spill L' = fl_spill L @ [encode_frame crc (new_frame q a b c p)]
     | Inl e \<Rightarrow> fl_spill L' = fl_spill L)"
proof -
  let ?bs = "encode_frame crc (new_frame (fl_next_seq L) a b c p)" and ?T = "take_seq c L"
  have "st_bind (spill_frame w ?bs ?T) (\<lambda>_ L'. (Ok (fl_next_seq L), L')) = (r, L')"
    using assms by (auto simp: log_append_def log_append_deferred_def Let_def take_seq_def)
  moreover obtain r0 L0 where s: "spill_frame w ?bs ?T = (r0, L0)" by (cases "spill_frame w ?bs ?T")
  moreover have "fl_next_seq L0 = fl_next_seq ?T"
    using s by (auto simp: spill_frame_def Let_def split: if_splits option.splits)
  ultimately show ?thesis
    using spill_frame_effect [OF s] assms(1) by (cases r0) (auto simp: take_seq_def)
qed

theorem stalled_append_only_stages_witness:
  "let L = (log_create 64)\<lparr>fl_stalled := True\<rparr>; L' = snd (log_append (\<lambda>_. 0) io_fine 1 2 True [] L)
   in fl_dir L' = fl_dir L \<and> fl_mark L' = default_mark \<and> length (fl_spill L') = 1"
  using stalled_append_only_stages [of "(log_create 64)\<lparr>fl_stalled := True\<rparr>" "\<lambda>_. 0" io_fine 1 2 True "[]"
      "fst (log_append (\<lambda>_. 0) io_fine 1 2 True [] ((log_create 64)\<lparr>fl_stalled := True\<rparr>))"
      "snd (log_append (\<lambda>_. 0) io_fine 1 2 True [] ((log_create 64)\<lparr>fl_stalled := True\<rparr>))"]
  by (auto simp: Let_def log_create_def log_append_def take_seq_def spill_frame_def io_fine_def)

section \<open>Leaving it\<close>

lemma drain_effect:
  "drain w (map (encode_frame crc) sp) lc L = (Ok lc', L') \<Longrightarrow>
    lc' = (if has_commit sp then Some (fr_seq (last (upto_commit sp)), fr_lsn_end (last (upto_commit sp))) else lc) \<and>
    (\<exists>d n. L' = L\<lparr>fl_dir := d, fl_segment_len := n\<rparr>)"
proof (induction sp arbitrary: lc L)
  case Nil
  then show ?case by (auto intro!: exI [of _ "fl_dir L"] exI [of _ "fl_segment_len L"])
next
  case (Cons f sp)
  obtain r1 L1 where w: "write_file w (encode_frame crc f) L = (r1, L1)"
    by (cases "write_file w (encode_frame crc f) L")
  with Cons.prems have r1: "r1 = Ok ()" by (cases r1) auto
  obtain d where L1: "L1 = L\<lparr>fl_dir := d\<rparr>" using write_file_frame [OF w] by blast
  let ?lc = "if fr_txn_complete f then Some (fr_seq f, fr_lsn_end f) else lc"
  have "drain w (map (encode_frame crc) sp) ?lc
      (L1\<lparr>fl_segment_len := fl_segment_len L1 + word_of_nat (length (encode_frame crc f))\<rparr>) = (Ok lc', L')"
    using Cons.prems w r1 by (auto simp: header_mark_encode Let_def split: if_splits bool.splits)
  from Cons.IH [OF this] show ?case
    using upto_commit_append [of "[f]" sp] upto_commit_ends [of sp] L1
    by (auto simp: upto_commit_def split: if_splits)
qed

text \<open>
  Leaving the stall drains staging in order: on a reachable log the readable frames become the
  old ones followed by the staged ones, staging is empty, and the mark moves to the last staged
  commit, or stays when no staged frame is one.
\<close>

theorem unstall_drains_in_order:
  assumes "log_reach crc (Live L, ms)" and "fl_stalled L" and "set_stalled w False L = (Ok (), L')"
  shows "\<exists>sp. fl_spill L = map (encode_frame crc) sp \<and>
    log_frames crc (fl_dir L') = log_frames crc (fl_dir L) @ sp \<and> fl_spill L' = [] \<and> \<not> fl_stalled L' \<and>
    fl_mark L' =
      (if upto_commit sp = [] then fl_mark L
       else \<lparr>dm_seq = fr_seq (last (upto_commit sp)), dm_lsn = fr_lsn_end (last (upto_commit sp)), dm_valid = True\<rparr>)"
proof -
  from reach_live [OF assms(1)] obtain init lf j sp where inv: "log_inv crc L init lf j sp ms" .
  have sp: "fl_spill L = map (encode_frame crc) sp" by (rule invE(1) [OF inv])
  from set_stalled_result [OF inv, of w False] assms(3) obtain init' lf' j' sp' where
    inv': "log_inv crc L' init' lf' j' sp' (insert (fl_mark L') ms)" "flat init' @ lf' @ sp' = flat init @ lf @ sp"
    by (auto simp: op_result_def)
  obtain lc L1 where d: "drain w (map (encode_frame crc) sp) None (L\<lparr>fl_spill := []\<rparr>) = (Ok lc, L1)"
    and t: "st_bind (sync_file w L1) (\<lambda>_ L.
        let L = (case lc of Some (seq, lsn) \<Rightarrow> send_mark seq lsn L | None \<Rightarrow> L);
            L = L\<lparr>fl_spill_open := False, fl_staging := None, fl_stalled := False\<rparr>
        in if fl_segment_max L \<le> fl_segment_len L then roll_segment w L else (Ok (), L)) = (Ok (), L')"
    using assms(2,3) sp by (auto simp: set_stalled_def st_bind_Ok_iff)
  from drain_effect [OF d] obtain dd n where L1: "L1 = L\<lparr>fl_spill := [], fl_dir := dd, fl_segment_len := n\<rparr>"
    and lc: "lc = (if has_commit sp then Some (fr_seq (last (upto_commit sp)), fr_lsn_end (last (upto_commit sp))) else None)"
    by auto
  have "\<not> fl_stalled L' \<and> fl_mark L' = (case lc of Some (s, e) \<Rightarrow> \<lparr>dm_seq = s, dm_lsn = e, dm_valid = True\<rparr> | None \<Rightarrow> fl_mark L)"
    using t L1 by (auto simp: sync_file_def roll_segment_def send_mark_def Let_def split: if_splits option.splits)
  moreover have "upto_commit sp = [] \<longleftrightarrow> \<not> has_commit sp"
    using upto_commit_ends upto_commit_no by blast
  moreover from calculation have sp': "sp' = []" using invE(6) [OF inv'(1)] by simp
  ultimately show ?thesis
    using sp lc inv'(2) log_frames_inv [OF inv] log_frames_inv [OF inv'(1)] invE(1) [OF inv'(1)]
    by (intro exI [of _ sp]) auto
qed

definition demo_stalled :: frame_log where
  "demo_stalled = snd (run_op (\<lambda>_. 0) io_fine (OpAppend 9 12 True [3]) (snd (run_op (\<lambda>_. 0) io_fine (OpStall True) demo_log)))"

lemmas run_op_defs = run_op_def log_append_def take_seq_def log_create_def write_durable_def
  write_file_def sync_file_def send_mark_def roll_segment_def io_fine_def set_stalled_def spill_frame_def

lemma demo_stalled_reach: "\<exists>ms. log_reach (\<lambda>_. 0) (Live demo_stalled, ms)"
proof -
  have "log_step (\<lambda>_. 0) (Live demo_log, ms) (Live (snd (run_op (\<lambda>_. 0) io_fine (OpStall True) demo_log)),
      insert (fl_mark (snd (run_op (\<lambda>_. 0) io_fine (OpStall True) demo_log))) ms)" for ms
    by (rule step_ok [of _ io_fine "OpStall True" _ "()"])
      (simp_all add: demo_log_def run_op_defs Let_def)
  moreover have "log_step (\<lambda>_. 0) (Live (snd (run_op (\<lambda>_. 0) io_fine (OpStall True) demo_log)), ms)
      (Live demo_stalled, insert (fl_mark demo_stalled) ms)" for ms
    by (rule step_ok [of _ io_fine "OpAppend 9 12 True [3]" _ "()"])
      (simp_all add: demo_stalled_def demo_log_def run_op_defs Let_def)
  ultimately show ?thesis using demo_log_reach reach_step by blast
qed

theorem unstall_drains_in_order_witness:
  "\<exists>sp. fl_spill demo_stalled = map (encode_frame (\<lambda>_. 0)) sp \<and>
    log_frames (\<lambda>_. 0) (fl_dir (snd (set_stalled io_fine False demo_stalled))) =
      log_frames (\<lambda>_. 0) (fl_dir demo_stalled) @ sp"
proof -
  from demo_stalled_reach obtain ms where "log_reach (\<lambda>_. 0) (Live demo_stalled, ms)" by blast
  moreover have "fl_stalled demo_stalled"
    by (simp add: demo_stalled_def demo_log_def run_op_defs Let_def)
  moreover have "set_stalled io_fine False demo_stalled = (Ok (), snd (set_stalled io_fine False demo_stalled))"
    using header_mark_encode [of "\<lambda>_. 0" "new_frame 1 9 12 True [3]"]
    by (simp add: demo_stalled_def demo_log_def run_op_defs Let_def)
  ultimately show ?thesis using unstall_drains_in_order by blast
qed

section \<open>Divergences\<close>

text \<open>
  The durable mark can move backwards: \<open>set_stalled(false)\<close> publishes the drained commit and
  leaves \<open>pending_commit\<close>, so a later \<open>flush_pending\<close> publishes the older commit that was deferred
  before the stall.
\<close>

theorem durable_mark_can_regress:
  "let L1 = snd (log_append_deferred crc io_fine 1 10 True [] (log_create 1000));
       L2 = snd (set_stalled io_fine True L1);
       L3 = snd (log_append crc io_fine 10 20 True [] L2);
       L4 = snd (set_stalled io_fine False L3);
       L5 = snd (flush_pending io_fine L4)
   in fl_mark L4 = \<lparr>dm_seq = 1, dm_lsn = 20, dm_valid = True\<rparr> \<and>
      fl_mark L5 = \<lparr>dm_seq = 0, dm_lsn = 10, dm_valid = True\<rparr>"
  using header_mark_encode [of crc "new_frame 1 10 20 True []"]
  by (simp add: Let_def log_create_def log_append_deferred_def log_append_def take_seq_def write_file_def
      io_fine_def set_stalled_def spill_frame_def sync_file_def flush_pending_def send_mark_def)

text \<open>
  \<open>resume\<close> does not check that the segments it keeps are contiguous, although \<open>create\<close>'s comment
  asks a resume to replay-verify: with the frames 0 and 5 on disk it takes 5 as the durable mark,
  and \<open>verify_log\<close> on the log it returns reports the gap.
\<close>

theorem resume_accepts_gap:
  "let f = \<lambda>n. encode_frame crc (new_frame n 1 2 True []);
       d = [(0, \<lparr>f_data = f 0, f_synced = 37\<rparr>), (5, \<lparr>f_data = f 5, f_synced = 37\<rparr>)]
   in \<exists>L v fs. resume crc (Some d) 64 = Ok L \<and> fl_mark L = \<lparr>dm_seq = 5, dm_lsn = 2, dm_valid = True\<rparr> \<and>
        verify_log crc False (fl_dir L) = Ok (v, fs) \<and> \<not> lv_seq_contiguous v"
proof -
  have s: "scan_frames crc (encode_frame crc (new_frame n 1 2 True [])) = ([(new_frame n 1 2 True [], 37)], None)" for n
    using scan_encode_append [of "new_frame n 1 2 True []" crc "[]"] by (simp add: fits_def)
  have t: "take 37 (encode_frame crc (new_frame n 1 2 True [])) = encode_frame crc (new_frame n 1 2 True [])" for n
    by simp
  show ?thesis
    by (simp add: Let_def resume_def s t truncate_at_def file_set_len_def file_sync_def verify_log_def empty_file_def
        init_verification_def)
qed

text \<open>
  The frame count of a resumed log counts every readable frame, the truncated ones included, so
  it exceeds the number of frames kept whenever the readable tail holds no commit.
\<close>

theorem resume_counts_truncated:
  assumes "log_reach crc (Down d, ms)" and "resume crc (Some d) smax = Ok L"
  shows "fl_total_frames L = word_of_nat (length (log_frames crc d)) \<and>
    fl_next_seq L = word_of_nat (length (upto_commit (log_frames crc d)))"
proof -
  have cnt: "\<exists>b' n' c'. resume_frames i off xs (b, n, c) = (b', n', c') \<and> n' = n + word_of_nat (length xs)"
    for i off xs b n c
    by (induction i off xs "(b, n, c)" arbitrary: b n c rule: resume_frames.induct) (auto simp: Let_def add_ac)
  have scan: "\<exists>b' n' c'. resume_scan crc i d (b, n, c) = (b', n', c') \<and>
      n' = n + word_of_nat (length (log_frames crc d))" for i d b n c
  proof (induction d arbitrary: i b n c)
    case (Cons x d)
    obtain k f where x: "x = (k, f)" by (cases x)
    from cnt [of i 0 "fst (scan_frames crc (f_data f))" b n c] obtain b1 c1 where
      "resume_frames i 0 (fst (scan_frames crc (f_data f))) (b, n, c) =
        (b1, n + word_of_nat (length (fst (scan_frames crc (f_data f)))), c1)" by blast
    with Cons.IH show ?case by (fastforce simp: x add_ac)
  qed simp
  have "wrecked crc d ms" using reach_inv [OF assms(1)] by simp
  from resume_wrecked [OF this, of smax] assms(2) obtain init' where
    "log_inv crc L init' [] 0 [] (insert (fl_mark L) ms)" "flat init' = upto_commit (log_frames crc d)" by auto
  then have "fl_next_seq L = word_of_nat (length (upto_commit (log_frames crc d)))"
    using invE(5) by fastforce
  moreover have "fl_total_frames L = word_of_nat (length (log_frames crc d))"
    using assms(2) scan [of 0 d None 0 0] by (auto simp: resume_def split: prod.splits)
  ultimately show ?thesis by simp
qed


theorem resume_counts_truncated_witness:
  "\<exists>L. resume (\<lambda>_. 0) (Some (fl_dir demo_log)) 64 = Ok L \<and>
    fl_total_frames L = word_of_nat (length (log_frames (\<lambda>_. 0) (fl_dir demo_log)))"
proof -
  have "wrecked (\<lambda>_. 0) (fl_dir demo_log) {fl_mark demo_log, default_mark}"
    using reach_inv [OF demo_down_reach] by simp
  from resume_wrecked [OF this, of 64] obtain L where L: "resume (\<lambda>_. 0) (Some (fl_dir demo_log)) 64 = Ok L" by blast
  with resume_counts_truncated [OF demo_down_reach L] show ?thesis by blast
qed

end
