(* ===== verification/LogTail.thy ===== *)
theory LogTail
  imports LogStaging
begin

text \<open>
  The incremental reader \<open>LogTail\<close> of \<open>crates/graydb-log/src/tail.rs\<close>: a cursor (segment, offset) and
  \<open>read_new\<close>. On a log that only grows it delivers every frame exactly once and in order; the last
  section shows what it misses when it is polled late after a \<open>resume\<close>.
\<close>

section \<open>The reader\<close>

record log_tail =
  lt_current :: "u64 option"
  lt_offset :: nat

record tail_batch =
  tb_frames :: "frame list"
  tb_rewound :: bool

definition tail_new :: log_tail where
  "tail_new = \<lparr>lt_current = None, lt_offset = 0\<rparr>"

datatype tail_error = CorruptMidLog u64 decode_error

fun dir_position :: "u64 \<Rightarrow> dir \<Rightarrow> nat option" where
  "dir_position k [] = None"
| "dir_position k ((k', f) # d) = (if k' = k then Some 0 else map_option Suc (dir_position k d))"

text \<open>The loop over the segments from the cursor's on; the list is \<open>segs[idx..]\<close>.\<close>

fun read_segs ::
    "crc_fun \<Rightarrow> dir \<Rightarrow> nat \<Rightarrow> frame list \<Rightarrow> bool \<Rightarrow> (tail_error + tail_batch) \<times> log_tail" where
  "read_segs crc [] offset out rewound =
     (Ok \<lparr>tb_frames = out, tb_rewound = rewound\<rparr>, \<lparr>lt_current = None, lt_offset = offset\<rparr>)"
| "read_segs crc ((k, f) # segs) offset out rewound =
     (let len = length (f_data f);
          (rewound, offset) = (if len < offset then (True, len) else (rewound, offset));
          (fs, e) = (if offset < len then scan_frames crc (drop offset (f_data f)) else ([], None));
          offset = offset + sum_list (map snd fs);
          out = out @ map fst fs
      in case e of
           Some err \<Rightarrow>
             if segs = []
             then (Ok \<lparr>tb_frames = out, tb_rewound = rewound\<rparr>, \<lparr>lt_current = Some k, lt_offset = offset\<rparr>)
             else (Err (CorruptMidLog k err), \<lparr>lt_current = Some k, lt_offset = offset\<rparr>)
         | None \<Rightarrow>
             if segs \<noteq> [] \<and> len \<le> offset then read_segs crc segs 0 out rewound
             else (Ok \<lparr>tb_frames = out, tb_rewound = rewound\<rparr>, \<lparr>lt_current = Some k, lt_offset = offset\<rparr>))"

definition read_new :: "crc_fun \<Rightarrow> dir \<Rightarrow> log_tail \<Rightarrow> (tail_error + tail_batch) \<times> log_tail" where
  "read_new crc segs t =
     (if segs = [] then (Ok \<lparr>tb_frames = [], tb_rewound = False\<rparr>, t)
      else case lt_current t of
        None \<Rightarrow> read_segs crc segs 0 [] False
      | Some name \<Rightarrow>
          (case dir_position name segs of
             Some i \<Rightarrow> read_segs crc (drop i segs) (lt_offset t) [] False
           | None \<Rightarrow> read_segs crc [last segs] (length (f_data (snd (last segs)))) [] True))"

section \<open>A well-formed cursor\<close>

text \<open>The cursor has consumed the first \<open>m\<close> readable frames of the directory.\<close>

definition tail_at :: "crc_fun \<Rightarrow> dir \<Rightarrow> log_tail \<Rightarrow> nat \<Rightarrow> bool" where
  "tail_at crc d t m \<longleftrightarrow>
     (case lt_current t of
        None \<Rightarrow> m = 0
      | Some k \<Rightarrow> \<exists>A f B fs gs. d = A @ (k, f) # B \<and> f_data f = encode_all crc (fs @ gs) \<and>
          (\<forall>g \<in> set (fs @ gs). fits g) \<and> lt_offset t = length (encode_all crc fs) \<and> m = length (log_frames crc A) + length fs)"

definition all_fit :: "crc_fun \<Rightarrow> dir \<Rightarrow> bool" where
  "all_fit crc d \<longleftrightarrow>
     (\<forall>(k, f) \<in> set d. \<exists>fs. f_data f = encode_all crc fs \<and> (\<forall>g \<in> set fs. fits g))"

lemma inv_all_fit: "log_inv crc L init lf j sp ms \<Longrightarrow> all_fit crc (fl_dir L)"
  by (fastforce simp: log_inv_def log_base_def layout_ok_def all_fit_def disk_def open_seg_def full_seg_def)

lemma inv_distinct:
  assumes "log_inv crc L init lf j sp ms"
  shows "distinct (map fst (fl_dir L))"
proof -
  have "keyed n init \<Longrightarrow> n + length (flat init) < 2 ^ 64 \<Longrightarrow> distinct (map fst init) \<and>
      (\<forall>k \<in> fst ` set init. word_of_nat n \<le> k \<and> k < word_of_nat (n + length (flat init)))" for n
  proof (induction n init rule: keyed.induct)
    case (2 n k fs r)
    then have IH: "distinct (map fst r)"
      "\<forall>k \<in> fst ` set r. word_of_nat (n + length fs) \<le> k \<and> k < word_of_nat (n + length fs + length (flat r))"
      by (auto simp: add.assoc simp del: of_nat_add)
    have "(word_of_nat n :: u64) < word_of_nat (n + length fs)"
      using 2 by (simp add: word_less_nat_alt unat_of_nat del: of_nat_add)
    moreover have "(word_of_nat (n + length fs) :: u64) \<le> word_of_nat (n + length fs + length (flat r))"
      using 2 by (simp add: word_le_nat_alt unat_of_nat del: of_nat_add)
    ultimately show ?case
      using 2 IH by (force simp: add.assoc simp del: of_nat_add)
  qed simp
  moreover have "keyed 0 init" "length (flat init) < 2 ^ 64"
    and d: "fl_dir L = disk crc init lf j (length (encode_all crc lf))"
    using assms by (simp_all add: log_inv_def log_base_def layout_ok_def)
  ultimately have "distinct (map fst init)" "\<forall>k \<in> fst ` set init. k < word_of_nat (length (flat init))"
    by (metis add_0, metis add_0)
  then show ?thesis
    unfolding d disk_def by (auto simp: full_seg_key comp_def)
qed

lemma position_split:
  "distinct (map fst (A @ (k, f) # B)) \<Longrightarrow> dir_position k (A @ (k, f) # B) = Some (length A)"
  by (induction A) auto

text \<open>The loop on a well-formed suffix delivers what is left of it.\<close>

lemma segment_scan:
  assumes "f_data f = encode_all crc (fs @ gs)" "\<forall>g \<in> set (fs @ gs). fits g"
  shows "(if length (encode_all crc fs) < length (f_data f)
      then scan_frames crc (drop (length (encode_all crc fs)) (f_data f)) else ([], None)) = (sized crc gs, None)"
  using assms scan_encode_all [of gs crc] by auto

lemma read_segs_wf:
  assumes "all_fit crc B" "f_data f = encode_all crc (fs @ gs)" "\<forall>g \<in> set (fs @ gs). fits g"
  shows "\<exists>A' k' f'. read_segs crc ((k, f) # B) (length (encode_all crc fs)) out False =
      (Ok \<lparr>tb_frames = out @ gs @ log_frames crc B, tb_rewound = False\<rparr>,
       \<lparr>lt_current = Some k', lt_offset = length (f_data f')\<rparr>) \<and>
    (k, f) # B = A' @ [(k', f')]"
  using assms
proof (induction B arbitrary: k f fs gs out)
  case Nil
  have len: "length (f_data f) = length (encode_all crc fs) + length (encode_all crc gs)" using Nil(2) by simp
  show ?case
    using segment_scan [OF Nil(2,3)] by (auto simp: read_segs.simps(2) len sum_sized Let_def intro!: exI [of _ "[]"])
next
  case (Cons x B)
  obtain k1 f1 where x: "x = (k1, f1)" by (cases x)
  obtain hs where hs: "f_data f1 = encode_all crc ([] @ hs)" "\<forall>g \<in> set ([] @ hs). fits g"
    using Cons.prems(1) by (auto simp: all_fit_def x)
  have len: "length (f_data f) = length (encode_all crc fs) + length (encode_all crc gs)" using Cons.prems(2) by simp
  have eq: "read_segs crc ((k, f) # x # B) (length (encode_all crc fs)) out False =
      read_segs crc (x # B) 0 (out @ gs) False"
    using segment_scan [OF Cons.prems(2,3)]
    by (simp add: read_segs.simps(2) len sum_sized Let_def)
  have "all_fit crc B" using Cons.prems(1) by (simp add: all_fit_def)
  from Cons.IH [OF this hs, of k1 "out @ gs"] obtain A' k' f' where
    "read_segs crc (x # B) 0 (out @ gs) False =
      (Ok \<lparr>tb_frames = (out @ gs) @ hs @ log_frames crc B, tb_rewound = False\<rparr>,
       \<lparr>lt_current = Some k', lt_offset = length (f_data f')\<rparr>)" "x # B = A' @ [(k', f')]"
    by (auto simp: x)
  moreover have "log_frames crc (x # B) = hs @ log_frames crc B"
    using hs by (simp add: x scan_encode_all)
  ultimately show ?case unfolding eq by (intro exI [of _ "(k, f) # A'"] exI [of _ k'] exI [of _ f']) simp
qed

declare read_segs.simps(2) [simp del]

lemma all_fit_frames:
  "all_fit crc (A @ (k, f) # B) \<Longrightarrow> \<exists>fs. f_data f = encode_all crc fs \<and> (\<forall>g \<in> set fs. fits g)"
  by (auto simp: all_fit_def)

text \<open>One call on a well-formed directory: it returns the rest and leaves the cursor at the end.\<close>

lemma read_new_wf:
  assumes "all_fit crc d" "distinct (map fst d)" "d \<noteq> []" "tail_at crc d t m"
  shows "\<exists>t'. read_new crc d t =
      (Ok \<lparr>tb_frames = drop m (log_frames crc d), tb_rewound = False\<rparr>, t') \<and>
    tail_at crc d t' (length (log_frames crc d)) \<and> m \<le> length (log_frames crc d)"
proof -
  have at_end: "tail_at crc d \<lparr>lt_current = Some k', lt_offset = length (f_data f')\<rparr> (length (log_frames crc d))"
    if last: "d = A' @ [(k', f')]" for A' k' f'
  proof -
    obtain fs where fs: "f_data f' = encode_all crc fs" "\<forall>g \<in> set fs. fits g"
      using all_fit_frames [of crc "A'" k' f' "[]"] assms(1) last by auto
    then have "length (log_frames crc d) = length (log_frames crc A') + length fs"
      by (simp add: last scan_encode_all)
    then show ?thesis
      unfolding tail_at_def using last fs
      by (simp only: log_tail.select_convs option.case, intro exI [of _ A'] exI [of _ f'] exI [of _ "[]"] exI [of _ fs])
        simp
  qed
  show ?thesis
  proof (cases "lt_current t")
    case None
    then have m: "m = 0" using assms(4) by (simp add: tail_at_def)
    obtain k f B where d: "d = (k, f) # B" using assms(3) by (cases d) auto
    obtain fs where fs: "f_data f = encode_all crc ([] @ fs)" "\<forall>g \<in> set ([] @ fs). fits g"
      using assms(1) by (auto simp: all_fit_def d)
    have "all_fit crc B" using assms(1) by (simp add: all_fit_def d)
    from read_segs_wf [OF this fs, of k "[]"] obtain A' k' f' where
      r: "read_segs crc d 0 [] False = (Ok \<lparr>tb_frames = fs @ log_frames crc B, tb_rewound = False\<rparr>,
        \<lparr>lt_current = Some k', lt_offset = length (f_data f')\<rparr>)" "d = A' @ [(k', f')]"
      by (auto simp: d)
    have "log_frames crc d = fs @ log_frames crc B" using fs by (simp add: d scan_encode_all)
    then show ?thesis using at_end [OF r(2)] r(1) None m assms(3) by (simp add: read_new_def)
  next
    case (Some k)
    with assms(4) obtain A f B fs gs where d: "d = A @ (k, f) # B" and f: "f_data f = encode_all crc (fs @ gs)"
      "\<forall>g \<in> set (fs @ gs). fits g" and t: "lt_offset t = length (encode_all crc fs)"
      "m = length (log_frames crc A) + length fs"
      by (auto simp: tail_at_def)
    have "all_fit crc B" using assms(1) by (simp add: all_fit_def d)
    from read_segs_wf [OF this f, of k "[]"] obtain A' k' f' where r:
      "read_segs crc ((k, f) # B) (lt_offset t) [] False =
        (Ok \<lparr>tb_frames = gs @ log_frames crc B, tb_rewound = False\<rparr>,
         \<lparr>lt_current = Some k', lt_offset = length (f_data f')\<rparr>)" "(k, f) # B = A' @ [(k', f')]"
      by (auto simp: t)
    have "read_new crc d t = (Ok \<lparr>tb_frames = gs @ log_frames crc B, tb_rewound = False\<rparr>,
         \<lparr>lt_current = Some k', lt_offset = length (f_data f')\<rparr>)"
      using position_split assms(2) r(1) Some by (simp add: read_new_def d)
    moreover have "drop m (log_frames crc d) = gs @ log_frames crc B" "m \<le> length (log_frames crc d)"
      using f by (simp_all add: d t scan_encode_all del: encode_all_simps(3))
    moreover have "d = (A @ A') @ [(k', f')]" using d r(2) by simp
    ultimately show ?thesis using at_end by metis
  qed
qed


section \<open>A log that grows\<close>

definition dir_le :: "dir \<Rightarrow> dir \<Rightarrow> bool" where
  "dir_le d d' \<longleftrightarrow> (\<forall>(k, f) \<in> set d. \<exists>f' r. (k, f') \<in> set d' \<and> f_data f' = f_data f @ r)"

lemma dir_le_refl [simp]: "dir_le d d"
  by (force simp: dir_le_def)

lemma dir_le_trans: "dir_le d e \<Longrightarrow> dir_le e g \<Longrightarrow> dir_le d g"
  unfolding dir_le_def by (fastforce)

lemma dir_le_append [simp]: "dir_le d (dir_update k (file_append bs) d)"
  by (force simp: dir_le_def dir_update_def file_append_def)

lemma dir_le_sync [simp]: "dir_le d (dir_update k file_sync d)"
  by (force simp: dir_le_def dir_update_def file_sync_def)

lemma keys_update [simp]: "map fst (dir_update k g d) = map fst d"
  by (induction d) (auto simp: dir_update_def)

text \<open>Rolling is safe when every segment is older than the next number, or empty.\<close>

definition rollable :: "u64 \<Rightarrow> dir \<Rightarrow> bool" where
  "rollable n d \<longleftrightarrow> (\<forall>(k, f) \<in> set d. k < n \<or> k = n \<and> f_data f = [])"

lemma dir_create_keeps: "(k, f) \<in> set d \<Longrightarrow> k \<noteq> n \<Longrightarrow> (k, f) \<in> set (dir_create n d)"
  by (induction n d rule: dir_create.induct) auto

lemma dir_create_new: "\<exists>f. (n, f) \<in> set (dir_create n d) \<and> f_data f = []"
  by (induction n d rule: dir_create.induct) (auto simp: empty_file_def)

lemma dir_le_create:
  assumes "rollable n d"
  shows "dir_le d (dir_create n d)"
  unfolding dir_le_def
proof clarify
  fix k f assume kf: "(k, f) \<in> set d"
  show "\<exists>f' r. (k, f') \<in> set (dir_create n d) \<and> f_data f' = f_data f @ r"
  proof (cases "k = n")
    case True
    then have "f_data f = []" using assms kf by (auto simp: rollable_def)
    then show ?thesis using dir_create_new [of n d] True by fastforce
  next
    case False
    then show ?thesis using dir_create_keeps [OF kf] by (metis append_Nil2)
  qed
qed

lemma rollable_strict: "(\<forall>k \<in> fst ` set d. k < n) \<Longrightarrow> rollable n d"
  by (force simp: rollable_def)

lemma strict_update: "(\<forall>k \<in> fst ` set (dir_update k0 g d). k < n) \<longleftrightarrow> (\<forall>k \<in> fst ` set d. k < n)"
  by (simp flip: set_map)

lemma rollable_update: "rollable n d \<Longrightarrow> rollable n (dir_update k file_sync d)"
  by (fastforce simp: rollable_def dir_update_def file_sync_def)

lemma write_grows:
  "write_file w bs L = (r, L') \<Longrightarrow> dir_le (fl_dir L) (fl_dir L') \<and> fl_next_seq L' = fl_next_seq L \<and>
    map fst (fl_dir L') = map fst (fl_dir L) \<and> fl_pending L' = fl_pending L"
  by (auto simp: write_file_def split: option.splits)

lemma sync_grows:
  "sync_file w L = (r, L') \<Longrightarrow> dir_le (fl_dir L) (fl_dir L') \<and> fl_next_seq L' = fl_next_seq L \<and>
    map fst (fl_dir L') = map fst (fl_dir L) \<and> (rollable n (fl_dir L) \<longrightarrow> rollable n (fl_dir L'))"
  by (cases "io_sync w")
    (auto simp: sync_file_def rollable_update)

lemma roll_grows:
  "roll_segment w L = (r, L') \<Longrightarrow> rollable (fl_next_seq L) (fl_dir L) \<Longrightarrow> dir_le (fl_dir L) (fl_dir L')"
  by (auto simp: roll_segment_def dir_le_create split: if_splits)

abbreviation below :: "frame_log \<Rightarrow> bool" where
  "below L \<equiv> \<forall>k \<in> set (map fst (fl_dir L)). k < fl_next_seq L"

lemma below_rollable: "below L \<Longrightarrow> rollable (fl_next_seq L) (fl_dir L)"
  by (rule rollable_strict) auto

lemma st_bind_cases:
  assumes "st_bind m f = (r, s')"
  obtains e s where "m = (Inl e, s)" "r = Inl e" "s' = s" | x s where "m = (Inr x, s)" "f x s = (r, s')"
  using assms by (cases m; cases "fst m") auto


lemma write_durable_grows:
  assumes "below L" "write_durable w q e c bs L = (r, L')"
  shows "dir_le (fl_dir L) (fl_dir L')"
proof -
  from assms(2) obtain r1 L1 where w: "write_file w bs L = (r1, L1)" by (cases "write_file w bs L")
  note g = write_grows [OF w]
  let ?M = "L1\<lparr>fl_segment_len := fl_segment_len L1 + word_of_nat (length bs), fl_pending := Some (q, e)\<rparr>"
  show ?thesis
  proof (cases "is_ok r1 \<and> c")
    case False
    then show ?thesis using assms(2) w g by (cases r1) (auto simp: write_durable_def Let_def)
  next
    case True
    obtain r2 L2 where s: "sync_file w ?M = (r2, L2)" by (cases "sync_file w ?M")
    note h = sync_grows [OF s]
    have b2: "below L2" using assms(1) g h by simp
    let ?N = "send_mark q e (L2\<lparr>fl_pending := None\<rparr>)"
    have "below ?N" using b2 by (simp add: send_mark_def)
    then have roll: "dir_le (fl_dir L2) (fl_dir (snd (roll_segment w ?N)))"
      using roll_grows [of w ?N] below_rollable [of ?N] by (cases "roll_segment w ?N") (auto simp: send_mark_def)
    have L2: "dir_le (fl_dir L) (fl_dir L2)" using dir_le_trans [of "fl_dir L" "fl_dir L1"] g h by simp
    show ?thesis
    proof (cases r2)
      case (Inl x)
      then show ?thesis using assms(2) w s True L2 by (cases r1) (auto simp: write_durable_def Let_def)
    next
      case (Inr x)
      then have "(if fl_segment_max ?N \<le> fl_segment_len ?N then roll_segment w ?N else (Ok (), ?N)) = (r, L')"
        using assms(2) w s True by (cases r1) (auto simp: write_durable_def Let_def)
      then have "L' = ?N \<or> L' = snd (roll_segment w ?N)" by (auto split: if_splits)
      then show ?thesis using L2 roll dir_le_trans [OF L2] by (auto simp: send_mark_def)
    qed
  qed
qed

lemma flush_grows:
  assumes "flush_pending w L = (r, L')"
  shows "dir_le (fl_dir L) (fl_dir L') \<and> fl_next_seq L' = fl_next_seq L \<and> map fst (fl_dir L') = map fst (fl_dir L)"
proof (cases "fl_pending L")
  case None
  then show ?thesis using assms by (simp add: flush_pending_def)
next
  case (Some x)
  obtain s e where x: "x = (s, e)" by (cases x)
  obtain r1 L1 where w: "sync_file w (L\<lparr>fl_pending := None\<rparr>) = (r1, L1)"
    by (cases "sync_file w (L\<lparr>fl_pending := None\<rparr>)")
  show ?thesis
    using sync_grows [OF w] assms w Some x by (cases r1) (auto simp: flush_pending_def send_mark_def)
qed

lemma drain_grows:
  "drain w bss lc L = (r, L') \<Longrightarrow> dir_le (fl_dir L) (fl_dir L') \<and> fl_next_seq L' = fl_next_seq L \<and>
    map fst (fl_dir L') = map fst (fl_dir L) \<and> (bss = [] \<longrightarrow> fl_dir L' = fl_dir L)"
proof (induction bss arbitrary: lc L)
  case Nil
  then show ?case by simp
next
  case (Cons bs bss)
  obtain r1 L1 where w: "write_file w bs L = (r1, L1)" by (cases "write_file w bs L")
  show ?case
  proof (cases r1)
    case (Inl x)
    then show ?thesis using write_grows [OF w] Cons.prems w by auto
  next
    case (Inr x)
    let ?M = "L1\<lparr>fl_segment_len := fl_segment_len L1 + word_of_nat (length bs)\<rparr>"
    from Cons.prems w Inr obtain lc1 where "drain w bss lc1 ?M = (r, L')" by (auto simp: Let_def)
    from Cons.IH [OF this] show ?thesis
      using write_grows [OF w] dir_le_trans [of "fl_dir L" "fl_dir L1"] by simp
  qed
qed


lemma pairs_keys: "\<forall>(k', f) \<in> set d. k' < n \<Longrightarrow> \<forall>k \<in> set (map fst d). k < n"
  by auto

lemma inv_rollable:
  assumes "log_inv crc L init lf j sp ms"
  shows "rollable (fl_next_seq L) (fl_dir L)" "lf @ sp \<noteq> [] \<Longrightarrow> below L"
    "\<forall>k \<in> set (map fst (fl_dir L)). k \<le> fl_next_seq L"
proof -
  have k: "keyed 0 init" and d: "fl_dir L = disk crc init lf j (length (encode_all crc lf))"
    using assms by (simp_all add: log_inv_def log_base_def layout_ok_def)
  have len: "length (flat init @ lf @ sp) < 2 ^ 64" and n: "fl_next_seq L = word_of_nat (length (flat init @ lf @ sp))"
    using invE(4,5) [OF assms] by simp_all
  have le: "(word_of_nat (length (flat init)) :: u64) \<le> fl_next_seq L"
    using len unfolding n by (simp add: word_le_nat_alt unat_of_nat del: of_nat_add)
  have lt: "(word_of_nat (length (flat init)) :: u64) < fl_next_seq L" if "lf @ sp \<noteq> []"
    using len that unfolding n by (auto simp: word_less_nat_alt unat_of_nat simp del: of_nat_add)
  have keys: "\<forall>(k', f) \<in> set (map (full_seg crc) init). k' < word_of_nat (length (flat init))"
    using full_keys_less [OF k] len by simp
  have all: "\<forall>k' \<in> set (map fst (map (full_seg crc) init)). k' < word_of_nat (length (flat init))"
    using keys by (rule pairs_keys)
  show b: "below L" if "lf @ sp \<noteq> []"
    using all lt [OF that] unfolding d disk_def by fastforce
  show "\<forall>k \<in> set (map fst (fl_dir L)). k \<le> fl_next_seq L"
    using all le unfolding d disk_def by fastforce
  show "rollable (fl_next_seq L) (fl_dir L)"
  proof (cases "lf @ sp = []")
    case False
    then show ?thesis using b below_rollable by blast
  next
    case True
    then show ?thesis
      using keys n unfolding d disk_def rollable_def by (fastforce simp: open_seg_def)
  qed
qed

lemma deferred_grows:
  assumes "below (take_seq c L)" "\<not> fl_stalled L" "log_append_deferred crc w a b c p L = (r, L')"
  shows "dir_le (fl_dir L) (fl_dir L')"
proof -
  let ?bs = "encode_frame crc (new_frame (fl_next_seq L) a b c p)" and ?T = "take_seq c L"
  obtain r1 L1 where w: "write_file w ?bs ?T = (r1, L1)" by (cases "write_file w ?bs ?T")
  note g = write_grows [OF w]
  have T: "fl_dir ?T = fl_dir L" "\<not> fl_stalled ?T" using assms(2) by (simp_all add: take_seq_def)
  let ?M = "L1\<lparr>fl_segment_len := fl_segment_len L1 + word_of_nat (length ?bs), fl_pending := Some (fl_next_seq L, b)\<rparr>"
  obtain r2 L2 where f: "flush_pending w ?M = (r2, L2)" by (cases "flush_pending w ?M")
  note h = flush_grows [OF f]
  have b2: "below L2" using assms(1) g h by simp
  obtain r3 L3 where ro: "roll_segment w L2 = (r3, L3)" by (cases "roll_segment w L2")
  have h3: "dir_le (fl_dir L2) (fl_dir L3)" by (rule roll_grows [OF ro below_rollable [OF b2]])
  have le: "dir_le (fl_dir L) (fl_dir L1)" "dir_le (fl_dir L) (fl_dir L2)" "dir_le (fl_dir L) (fl_dir L3)"
    using g h h3 T dir_le_trans [of "fl_dir L"] by auto
  have "fl_dir L' \<in> {fl_dir L1, fl_dir L2, fl_dir L3}"
    using assms(3) T w f ro
    by (cases r1; cases r2; cases r3; cases c)
      (auto simp: log_append_deferred_def Let_def simp del: length_encode_frame split: if_splits)
  then show ?thesis using le by auto
qed

lemma stall_grows:
  assumes "rollable (fl_next_seq L) (fl_dir L)" "fl_spill L \<noteq> [] \<longrightarrow> below L" "set_stalled w v L = (r, L')"
  shows "dir_le (fl_dir L) (fl_dir L')"
proof (cases "v = fl_stalled L \<or> v")
  case True
  then show ?thesis using assms(3) by (auto simp: set_stalled_def split: if_splits)
next
  case False
  then have v: "\<not> v" "fl_stalled L" by auto
  obtain r1 L1 where d: "drain w (fl_spill L) None (L\<lparr>fl_spill := []\<rparr>) = (r1, L1)"
    by (cases "drain w (fl_spill L) None (L\<lparr>fl_spill := []\<rparr>)")
  note g = drain_grows [OF d]
  show ?thesis
  proof (cases r1)
    case (Inl e)
    then show ?thesis using assms(3) v d g by (simp add: set_stalled_def)
  next
    case (Inr lc)
    obtain r2 L2 where s: "sync_file w L1 = (r2, L2)" by (cases "sync_file w L1")
    note h = sync_grows [OF s]
    have r1: "rollable (fl_next_seq L1) (fl_dir L1)"
      using assms(1,2) g below_rollable [of L1] by (cases "fl_spill L = []") auto
    then have r2: "rollable (fl_next_seq L2) (fl_dir L2)" using h by simp
    have le: "dir_le (fl_dir L) (fl_dir L2)" using dir_le_trans [of "fl_dir L" "fl_dir L1"] g h by simp
    let ?N = "(case lc of Some (seq, lsn) \<Rightarrow> send_mark seq lsn L2 | None \<Rightarrow> L2)"
    let ?P = "?N\<lparr>fl_spill_open := False, fl_staging := None, fl_stalled := False\<rparr>"
    have P: "fl_dir ?P = fl_dir L2" "fl_next_seq ?P = fl_next_seq L2"
      by (auto simp: send_mark_def split: option.splits)
    have "dir_le (fl_dir ?P) (fl_dir (snd (roll_segment w ?P)))"
      by (cases "roll_segment w ?P") (use roll_grows [of w ?P] r2 P in auto)
    then have ro: "dir_le (fl_dir L2) (fl_dir (snd (roll_segment w ?P)))" unfolding P .
    have "fl_dir L' = fl_dir L2 \<or> fl_dir L' = fl_dir (snd (roll_segment w ?P))"
    proof (cases r2)
      case (Inl x)
      then show ?thesis using assms(3) v d \<open>r1 = Inr lc\<close> s by (simp add: set_stalled_def)
    next
      case (Inr u)
      then have "(if fl_segment_max ?P \<le> fl_segment_len ?P then roll_segment w ?P else (Ok (), ?P)) = (r, L')"
        using assms(3) v d \<open>r1 = Inr lc\<close> s by (auto simp: set_stalled_def Let_def)
      then have "L' = snd (roll_segment w ?P) \<or> L' = ?P" by (metis snd_conv)
      then show ?thesis using P by auto
    qed
    then show ?thesis using le ro dir_le_trans [OF le] by auto
  qed
qed

lemma take_seq_dir: "fl_dir (take_seq c L) = fl_dir L"
  by (simp add: take_seq_def)

lemma stalled_dir:
  assumes "fl_stalled L"
  shows "fl_dir (snd (log_append crc w a b c p L)) = fl_dir L"
    "fl_dir (snd (log_append_deferred crc w a b c p L)) = fl_dir L"
proof -
  have "fl_dir (snd (st_bind (spill_frame w bs (take_seq c L)) (\<lambda>_ L. (Ok q, L)))) = fl_dir L"
    for bs and q :: u64
  proof -
    obtain r L1 where s: "spill_frame w bs (take_seq c L) = (r, L1)" by (cases "spill_frame w bs (take_seq c L)")
    then show ?thesis using spill_frame_effect [OF s] by (cases r) (simp_all add: take_seq_dir)
  qed
  then show "fl_dir (snd (log_append crc w a b c p L)) = fl_dir L"
    "fl_dir (snd (log_append_deferred crc w a b c p L)) = fl_dir L"
    using assms by (simp_all add: log_append_def log_append_deferred_def Let_def take_seq_def)
qed

lemma run_op_grows:
  assumes inv: "log_inv crc L init lf j sp ms" and p: "op_fits p L" and r: "run_op crc w p L = (r, L')"
  shows "dir_le (fl_dir L) (fl_dir L')"
proof -
  have bT: "below (take_seq c L)" if "unat (fl_next_seq L) + 1 < 2 ^ 64" for c
  proof -
    have "fl_next_seq L < fl_next_seq L + 1"
      using that by (simp add: word_less_nat_alt unat_word_ariths)
    then show ?thesis using inv_rollable(3) [OF inv] by (force simp: take_seq_def)
  qed
  have bind': "snd (st_bind m (\<lambda>_ L. (Ok q, L))) = snd m" for m :: "(log_error + unit) \<times> frame_log" and q :: u64
    by (cases m; cases "fst m") auto
  have bind: "snd (st_bind m (\<lambda>_ L. (Ok (), L))) = snd m" for m :: "(log_error + u64) \<times> frame_log"
    by (cases m; cases "fst m") auto
  show ?thesis
  proof (cases p)
    case (OpAppend a b c x)
    then have L': "L' = snd (log_append crc w a b c x L)"
      using arg_cong [OF r, of snd] by (simp add: run_op_def bind)
    show ?thesis
    proof (cases "fl_stalled L")
      case True
      then show ?thesis
        using stalled_dir [of L crc w a b c x] L' by (cases "log_append crc w a b c x L") simp
    next
      case False
      let ?bs = "encode_frame crc (new_frame (fl_next_seq L) a b c x)"
      have "L' = snd (write_durable w (fl_next_seq L) b c ?bs (take_seq c L))"
        using L' False by (simp add: log_append_def Let_def take_seq_def bind')
      moreover have "below (take_seq c L)" using bT p OpAppend by simp
      ultimately show ?thesis
        using write_durable_grows [of "take_seq c L"] by (metis prod.collapse take_seq_dir)
    qed
  next
    case (OpDeferred a b c x)
    then have L': "L' = snd (log_append_deferred crc w a b c x L)"
      using arg_cong [OF r, of snd] by (simp add: run_op_def bind)
    show ?thesis
    proof (cases "fl_stalled L")
      case True
      then show ?thesis
        using stalled_dir [of L crc w a b c x] L' by (cases "log_append_deferred crc w a b c x L") simp
    next
      case False
      moreover have "below (take_seq c L)" using bT p OpDeferred by simp
      ultimately show ?thesis using deferred_grows L' by (metis prod.collapse)
    qed
  next
    case OpFlush
    then show ?thesis using r flush_grows by (auto simp: run_op_def)
  next
    case (OpStall v)
    have "fl_spill L \<noteq> [] \<longrightarrow> below L" using inv_rollable(2) [OF inv] invE(1) [OF inv] by auto
    then show ?thesis using r stall_grows [OF inv_rollable(1) [OF inv]] OpStall by (auto simp: run_op_def)
  qed
qed


section \<open>Reading while the log is written\<close>

lemma keyed_pos:
  "keyed n init \<Longrightarrow> \<forall>f \<in> set (flat init). fits f \<Longrightarrow> map (full_seg crc) init = A @ (k, f) # B \<Longrightarrow>
     k = word_of_nat (n + length (log_frames crc A))"
proof (induction A arbitrary: n init)
  case Nil
  then show ?case by (cases init) (auto simp: full_seg_def)
next
  case (Cons x A)
  from Cons.prems(3) obtain k0 fs0 r where init: "init = (k0, fs0) # r" "x = full_seg crc (k0, fs0)"
    and r: "map (full_seg crc) r = A @ (k, f) # B" by (cases init) auto
  have "log_frames crc (x # A) = fs0 @ log_frames crc A"
    using Cons.prems(2) init by (simp add: full_seg_def scan_encode_all)
  then show ?case using Cons.IH [of "n + length fs0" r] Cons.prems(1,2) init r by (simp add: add.assoc)
qed

lemma inv_pos:
  assumes inv: "log_inv crc L init lf j sp ms" and d: "fl_dir L = A @ (k, f) # B"
  shows "k = word_of_nat (length (log_frames crc A))" "length (log_frames crc (fl_dir L)) < 2 ^ 64"
proof -
  have k: "keyed 0 init" "\<forall>f \<in> set (flat init). fits f" and e: "fl_dir L = disk crc init lf j (length (encode_all crc lf))"
    using inv by (simp_all add: log_inv_def log_base_def layout_ok_def)
  show "length (log_frames crc (fl_dir L)) < 2 ^ 64"
    unfolding log_frames_inv [OF inv] using invE(4) [OF inv] by simp
  from d e have *: "A @ (k, f) # B = map (full_seg crc) init @ [(word_of_nat (length (flat init)), open_seg crc lf j (length (encode_all crc lf)))]"
    by (simp add: disk_def)
  show "k = word_of_nat (length (log_frames crc A))"
  proof (cases B rule: rev_cases)
    case Nil
    then have "A = map (full_seg crc) init" "k = word_of_nat (length (flat init))" using * by auto
    then show ?thesis using log_frames_full [OF k(2)] by simp
  next
    case (snoc B' y)
    then have "map (full_seg crc) init = A @ (k, f) # B'" using * by auto
    from keyed_pos [OF k this] show ?thesis by simp
  qed
qed

lemma encode_all_prefix:
  assumes "encode_all crc hs = encode_all crc fs @ r" "\<forall>g \<in> set hs. fits g" "\<forall>g \<in> set fs. fits g"
  shows "\<exists>gs. hs = fs @ gs"
proof -
  have "(sized crc hs, None) = (sized crc fs @ fst (scan_frames crc r), snd (scan_frames crc r))"
    using scan_encode_all [OF assms(2)] scan_encode_all_append [OF assms(3)] assms(1) by metis
  then have "map fst (sized crc hs) = map fst (sized crc fs) @ scanned crc r"
    by (metis map_append prod.inject)
  then show ?thesis by auto
qed

text \<open>A cursor stays where it is, frame by frame, when the log grows.\<close>

lemma tail_at_grows:
  assumes inv: "log_inv crc L init lf j sp ms" and inv': "log_inv crc L' init' lf' j' sp' ms'"
    and le: "dir_le (fl_dir L) (fl_dir L')" and t: "tail_at crc (fl_dir L) t m"
  shows "tail_at crc (fl_dir L') t m"
proof (cases "lt_current t")
  case None
  then show ?thesis using t by (simp add: tail_at_def)
next
  case (Some k)
  with t obtain A f B fs gs where d: "fl_dir L = A @ (k, f) # B" and f: "f_data f = encode_all crc (fs @ gs)"
    "\<forall>g \<in> set (fs @ gs). fits g" and o: "lt_offset t = length (encode_all crc fs)"
    "m = length (log_frames crc A) + length fs"
    by (auto simp: tail_at_def)
  from le d obtain f' r where f': "(k, f') \<in> set (fl_dir L')" "f_data f' = f_data f @ r"
    by (fastforce simp: dir_le_def)
  then obtain A' B' where d': "fl_dir L' = A' @ (k, f') # B'" by (meson split_list)
  from all_fit_frames [of crc A' k f' B'] inv_all_fit [OF inv'] d' obtain hs where
    hs: "f_data f' = encode_all crc hs" "\<forall>g \<in> set hs. fits g" by auto
  obtain gs' where gs': "hs = (fs @ gs) @ gs'" using encode_all_prefix [of crc hs "fs @ gs" r] hs f f'(2) by auto
  have "(word_of_nat (length (log_frames crc A)) :: u64) = word_of_nat (length (log_frames crc A'))"
    using inv_pos(1) [OF inv d] inv_pos(1) [OF inv' d'] by simp
  moreover have "length (log_frames crc A) < 2 ^ 64" "length (log_frames crc A') < 2 ^ 64"
    using inv_pos(2) [OF inv d] inv_pos(2) [OF inv' d'] d d' by simp_all
  ultimately have "length (log_frames crc A) = length (log_frames crc A')"
    by (metis of_nat_inverse_64)
  then show ?thesis
    unfolding tail_at_def using Some d' hs gs' o
    by (simp only: option.case, intro exI [of _ A'] exI [of _ f'] exI [of _ B'] exI [of _ fs] exI [of _ "gs @ gs'"])
      simp
qed

text \<open>
  A writer and a reader on one directory: operations of the log and calls of \<open>read_new\<close> in any
  order, and the frames delivered so far.
\<close>

inductive tail_run :: "crc_fun \<Rightarrow> frame_log \<Rightarrow> log_tail \<Rightarrow> frame list \<Rightarrow> bool" for crc where
  tail_start: "log_reach crc (Live L, ms) \<Longrightarrow> tail_run crc L tail_new []"
| tail_write: "tail_run crc L t seen \<Longrightarrow> run_op crc w p L = (Ok u, L') \<Longrightarrow> op_fits p L \<Longrightarrow> tail_run crc L' t seen"
| tail_read: "tail_run crc L t seen \<Longrightarrow> read_new crc (fl_dir L) t = (Ok b, t') \<Longrightarrow>
    tail_run crc L t' (seen @ tb_frames b)"

lemma inv_dir_ne: "log_inv crc L init lf j sp ms \<Longrightarrow> fl_dir L \<noteq> []"
  by (simp add: log_inv_def log_base_def disk_def)

lemma tail_run_inv:
  "tail_run crc L t seen \<Longrightarrow> \<exists>init lf j sp ms. log_inv crc L init lf j sp ms \<and>
     tail_at crc (fl_dir L) t (length seen) \<and> seen = take (length seen) (log_frames crc (fl_dir L))"
proof (induction rule: tail_run.induct)
  case (tail_start L ms)
  from reach_live [OF this] obtain init lf j sp where "log_inv crc L init lf j sp ms" .
  then show ?case by (fastforce simp: tail_at_def tail_new_def)
next
  case (tail_write L t seen w p u L')
  then obtain init lf j sp ms where inv: "log_inv crc L init lf j sp ms"
    and t: "tail_at crc (fl_dir L) t (length seen)" "seen = take (length seen) (log_frames crc (fl_dir L))" by blast
  from run_op_result [OF inv tail_write(3), of w] tail_write(2) obtain init' lf' j' sp' where
    inv': "log_inv crc L' init' lf' j' sp' (insert (fl_mark L') ms)"
      "flat init' @ lf' @ sp' = flat init @ lf @ sp @ op_frames p L"
    by (auto simp: op_result_def)
  have t': "tail_at crc (fl_dir L') t (length seen)"
    by (rule tail_at_grows [OF inv inv'(1) run_op_grows [OF inv tail_write(3,2)] t(1)])
  have len: "length seen \<le> length (log_frames crc (fl_dir L))" "length seen \<le> length (log_frames crc (fl_dir L'))"
    using read_new_wf [OF inv_all_fit [OF inv] inv_distinct [OF inv] inv_dir_ne [OF inv] t(1)]
      read_new_wf [OF inv_all_fit [OF inv'(1)] inv_distinct [OF inv'(1)] inv_dir_ne [OF inv'(1)] t'] by auto
  have "take (length seen) (log_frames crc (fl_dir L')) = take (length seen) (flat init' @ lf' @ sp')"
    using len(2) by (simp add: log_frames_inv [OF inv'(1)])
  also have "\<dots> = take (length seen) (log_frames crc (fl_dir L))"
    using len(1) unfolding inv'(2) by (simp add: log_frames_inv [OF inv])
  finally show ?case using inv'(1) t(2) t' by metis
next
  case (tail_read L t seen b t')
  then obtain init lf j sp ms where inv: "log_inv crc L init lf j sp ms"
    and t: "tail_at crc (fl_dir L) t (length seen)" "seen = take (length seen) (log_frames crc (fl_dir L))" by blast
  from read_new_wf [OF inv_all_fit [OF inv] inv_distinct [OF inv] inv_dir_ne [OF inv] t(1)] tail_read(2)
  have b: "tb_frames b = drop (length seen) (log_frames crc (fl_dir L))"
    and t': "tail_at crc (fl_dir L) t' (length (log_frames crc (fl_dir L)))" by auto
  have "seen @ tb_frames b = log_frames crc (fl_dir L)" using b t(2) by (metis append_take_drop_id)
  then show ?case using inv t' by fastforce
qed

text \<open>
  C7. The tail delivers every frame exactly once and in order. However appends, flushes, rolls and
  stalls interleave with reads, the frames delivered so far are a prefix of the log, and one more
  read succeeds, reports no rewind and returns exactly the rest.
\<close>

theorem tail_delivers_once_in_order:
  assumes "tail_run crc L t seen"
  shows "\<exists>b t'. read_new crc (fl_dir L) t = (Ok b, t') \<and> \<not> tb_rewound b \<and>
    seen @ tb_frames b = log_frames crc (fl_dir L)"
proof -
  from tail_run_inv [OF assms] obtain init lf j sp ms where inv: "log_inv crc L init lf j sp ms"
    and t: "tail_at crc (fl_dir L) t (length seen)" "seen = take (length seen) (log_frames crc (fl_dir L))" by blast
  have "seen @ drop (length seen) (log_frames crc (fl_dir L)) = log_frames crc (fl_dir L)"
    using t(2) by (metis append_take_drop_id)
  then show ?thesis
    using read_new_wf [OF inv_all_fit [OF inv] inv_distinct [OF inv] inv_dir_ne [OF inv] t(1)] by fastforce
qed

theorem tail_delivers_once_in_order_witness:
  "\<exists>b t'. read_new (\<lambda>_. 0) (fl_dir demo_log) tail_new = (Ok b, t') \<and> \<not> tb_rewound b \<and>
    [] @ tb_frames b = log_frames (\<lambda>_. 0) (fl_dir demo_log)"
  by (rule tail_delivers_once_in_order [OF tail_start [OF demo_log_reach]])

section \<open>A late poll after a resume\<close>

text \<open>
  A tail that is polled late misses a rewind. Its cursor is past an uncommitted frame of segment
  1; \<open>resume\<close> removes that segment and creates it again under the same name, and before the next
  poll a longer frame is appended to it. The shrink test sees a file that is not shorter, so nothing
  is reported, the offset points into the middle of the new frame, and the read returns nothing.
\<close>

theorem late_poll_misses_rewind:
  "let L1 = snd (log_append crc io_fine 1 2 True [] (log_create 1));
       L2 = snd (log_append crc io_fine 2 3 False [7] L1);
       t = snd (read_new crc (fl_dir L2) tail_new)
   in \<exists>L3. resume crc (Some (fl_dir L2)) 1 = Ok L3 \<and>
        (let L4 = snd (log_append crc io_fine 2 3 False [8, 9] L3)
         in read_new crc (fl_dir L4) t = (Ok \<lparr>tb_frames = [], tb_rewound = False\<rparr>, t) \<and>
            log_frames crc (fl_dir L4) = [new_frame 0 1 2 True [], new_frame 1 2 3 False [8, 9]])"
proof -
  have s: "scan_frames crc (encode_frame crc (new_frame n a b c p)) = ([(new_frame n a b c p, 37 + length p)], None)"
    if "length p < 2 ^ 32" for n a b c p
    using scan_encode_append [of "new_frame n a b c p" crc "[]"] that by (simp add: fits_def)
  have e: "take 37 (encode_frame crc (new_frame n a b c [])) = encode_frame crc (new_frame n a b c [])" for n a b c
    by simp
  have cut: "scan_frames crc (drop 38 (encode_frame crc (new_frame n a b c [8, 9]))) = ([], Some (TruncatedHeader 1))" for n a b c
  proof -
    have "length (drop 38 (encode_frame crc (new_frame n a b c [8, 9]))) = 1" by simp
    then have "decode_frame crc (drop 38 (encode_frame crc (new_frame n a b c [8, 9]))) = Err (TruncatedHeader 1)"
      using decode_short [of "drop 38 (encode_frame crc (new_frame n a b c [8, 9]))" crc] by fastforce
    then show ?thesis by (subst scan_frames.simps) simp
  qed
  show ?thesis
    by (simp add: Let_def log_create_def log_append_def take_seq_def write_durable_def write_file_def sync_file_def
        send_mark_def roll_segment_def io_fine_def dir_update_def file_append_def file_sync_def empty_file_def
        read_new_def read_segs.simps(2) tail_new_def resume_def s e cut truncate_at_def file_set_len_def)
qed

end
