(* ===== verification/Utf8.thy ===== *)
theory Utf8
  imports Prelude
begin

text \<open>
  \<open>String::from_utf8_lossy\<close> of the Rust standard library, which the pgoutput parser and the COPY
  reader apply to every text value: well-formed sequences are kept, each maximal ill-formed part
  becomes U+FFFD. A Rust \<open>String\<close> is a byte list for which \<open>utf8_ok\<close> holds.
\<close>

definition is_cont :: "bytes \<Rightarrow> nat \<Rightarrow> bool" where
  "is_cont bs i \<longleftrightarrow> i < length bs \<and> 0x80 \<le> bs ! i \<and> bs ! i \<le> 0xBF"

definition in_range :: "bytes \<Rightarrow> nat \<Rightarrow> byte \<Rightarrow> byte \<Rightarrow> bool" where
  "in_range bs i lo hi \<longleftrightarrow> i < length bs \<and> lo \<le> bs ! i \<and> bs ! i \<le> hi"

text \<open>How many bytes the first sequence takes, and whether it is well-formed.\<close>

definition utf8_step :: "byte \<Rightarrow> bytes \<Rightarrow> nat \<times> bool" where
  "utf8_step b bs =
     (if b < 0x80 then (1, True)
      else if 0xC2 \<le> b \<and> b \<le> 0xDF then (if is_cont bs 0 then (2, True) else (1, False))
      else if 0xE0 \<le> b \<and> b \<le> 0xEF then
        (if (b = 0xE0 \<and> in_range bs 0 0xA0 0xBF) \<or> (b = 0xED \<and> in_range bs 0 0x80 0x9F) \<or>
            (b \<noteq> 0xE0 \<and> b \<noteq> 0xED \<and> is_cont bs 0)
         then (if is_cont bs 1 then (3, True) else (2, False))
         else (1, False))
      else if 0xF0 \<le> b \<and> b \<le> 0xF4 then
        (if (b = 0xF0 \<and> in_range bs 0 0x90 0xBF) \<or> (b = 0xF4 \<and> in_range bs 0 0x80 0x8F) \<or>
            (b \<noteq> 0xF0 \<and> b \<noteq> 0xF4 \<and> is_cont bs 0)
         then (if is_cont bs 1 then (if is_cont bs 2 then (4, True) else (3, False)) else (2, False))
         else (1, False))
      else (1, False))"

lemma utf8_step_pos: "0 < fst (utf8_step b bs)"
  by (simp add: utf8_step_def)

function utf8_lossy :: "bytes \<Rightarrow> rstr" where
  "utf8_lossy [] = []"
| "utf8_lossy (b # bs) =
     (let (n, ok) = utf8_step b bs
      in (if ok then take n (b # bs) else [0xEF, 0xBF, 0xBD]) @ utf8_lossy (drop n (b # bs)))"
  by pat_completeness auto
termination
proof (relation "measure length")
  fix b bs x n ok
  assume "x = utf8_step b bs" "(n, ok) = x"
  then have "0 < n" using utf8_step_pos [of b bs] by (metis fst_conv)
  then show "(drop n (b # bs), b # bs) \<in> measure length" by simp
qed simp

declare utf8_lossy.simps(2) [simp del]

function utf8_ok :: "bytes \<Rightarrow> bool" where
  "utf8_ok [] = True"
| "utf8_ok (b # bs) = (let (n, ok) = utf8_step b bs in ok \<and> utf8_ok (drop n (b # bs)))"
  by pat_completeness auto
termination
proof (relation "measure length")
  fix b bs x n ok
  assume "x = utf8_step b bs" "(n, ok) = x"
  then have "0 < n" using utf8_step_pos [of b bs] by (metis fst_conv)
  then show "(drop n (b # bs), b # bs) \<in> measure length" by simp
qed simp

declare utf8_ok.simps(2) [simp del]

lemma utf8_lossy_ok [simp]: "utf8_ok bs \<Longrightarrow> utf8_lossy bs = bs"
proof (induction bs rule: utf8_ok.induct)
  case (2 b bs)
  obtain n ok where s: "utf8_step b bs = (n, ok)" by (cases "utf8_step b bs")
  with 2(2) have "ok" "utf8_ok (drop n (b # bs))" by (simp_all add: utf8_ok.simps(2))
  then show ?case using 2(1) [OF refl s [symmetric]] by (simp add: utf8_lossy.simps(2) s)
qed simp

lemma utf8_ok_ascii: "\<forall>b \<in> set bs. b < 0x80 \<Longrightarrow> utf8_ok bs"
  by (induction bs) (simp_all add: utf8_ok.simps(2) utf8_step_def)

end
