(* ===== verification/PgOutput.thy ===== *)
theory PgOutput
  imports Utf8
begin

text \<open>
  The pgoutput protocol version 1 parser, \<open>crates/graydb-registry/src/pgoutput.rs\<close>. A reader is a
  function from the unread bytes to a result and the bytes left; the \<open>Buf\<close> getters panic on a slice
  that is too short, which is the error \<open>PgPanic\<close>, every \<open>ensure!\<close> and \<open>bail!\<close> another one.
  Signed fields are kept as words of their width.
\<close>

section \<open>Messages\<close>

datatype tuple_value =
    TNull
  | TUnchangedToast
  | TText rstr
  | TBinary bytes

record column_desc =
  cd_name :: rstr
  cd_type_oid :: u32
  cd_typmod :: u32
  cd_is_key :: bool

record relation_desc =
  rd_relid :: u32
  rd_namespace :: rstr
  rd_name :: rstr
  rd_replident :: byte
  rd_columns :: "column_desc list"

datatype message =
    MBegin u64 u64 u32
  | MCommit byte u64 u64 u64
  | MOrigin u64 rstr
  | MRelation relation_desc
  | MType u32 rstr rstr
  | MInsert u32 "tuple_value list"
  | MUpdate u32 "(byte \<times> tuple_value list) option" "tuple_value list"
  | MDelete u32 "byte \<times> tuple_value list"
  | MTruncate byte "u32 list"
  | MLogical bool u64 rstr bytes

definition qualified_name :: "relation_desc \<Rightarrow> rstr" where
  "qualified_name rel =
     (if rd_namespace rel = [] then str ''pg_catalog'' else rd_namespace rel) @ str ''.'' @ rd_name rel"

datatype pg_error =
    PgPanic
  | EmptyPayload
  | UnterminatedCstr
  | InsertKind byte
  | UpdateKind byte
  | DeleteKind byte
  | TruncatedLogical
  | TruncatedText
  | TruncatedBinary
  | UnknownTag byte
  | UnknownTupleKind byte

section \<open>Readers\<close>

type_synonym 'a reader = "bytes \<Rightarrow> (pg_error + 'a) \<times> bytes"

definition lift_get :: "(bytes \<Rightarrow> ('a \<times> bytes) option) \<Rightarrow> 'a reader" where
  "lift_get g b = (case g b of None \<Rightarrow> (Err PgPanic, b) | Some (x, r) \<Rightarrow> (Ok x, r))"

abbreviation rd_u8 :: "byte reader" where "rd_u8 \<equiv> lift_get get_u8"
abbreviation rd_u16 :: "u16 reader" where "rd_u16 \<equiv> lift_get get_u16"
abbreviation rd_u32 :: "u32 reader" where "rd_u32 \<equiv> lift_get get_u32"
abbreviation rd_u64 :: "u64 reader" where "rd_u64 \<equiv> lift_get get_u64"

definition rd_ret :: "'a \<Rightarrow> 'a reader" where
  "rd_ret x b = (Ok x, b)"

definition rd_fail :: "pg_error \<Rightarrow> 'a reader" where
  "rd_fail e b = (Err e, b)"

definition get_cstr :: "rstr reader" where
  "get_cstr b =
     (let s = takeWhile (\<lambda>x. x \<noteq> 0) b
      in if length s < length b then (Ok (utf8_lossy s), drop (length s + 1) b)
         else (Err UnterminatedCstr, b))"

definition rd_slice :: "pg_error \<Rightarrow> nat \<Rightarrow> bytes reader" where
  "rd_slice e len b = (if len \<le> length b then (Ok (take len b), drop len b) else (Err e, b))"

definition rd_value :: "tuple_value reader" where
  "rd_value b =
     st_bind (rd_u8 b) (\<lambda>kind b.
     if kind = of_char (CHR ''n'') then rd_ret TNull b
     else if kind = of_char (CHR ''u'') then rd_ret TUnchangedToast b
     else if kind = of_char (CHR ''t'') then
       st_bind (rd_u32 b) (\<lambda>len b.
       st_bind (rd_slice TruncatedText (unat len) b) (\<lambda>v b. rd_ret (TText (utf8_lossy v)) b))
     else if kind = of_char (CHR ''b'') then
       st_bind (rd_u32 b) (\<lambda>len b.
       st_bind (rd_slice TruncatedBinary (unat len) b) (\<lambda>v b. rd_ret (TBinary v) b))
     else rd_fail (UnknownTupleKind kind) b)"

text \<open>\<open>for _ in 0..n\<close> with an item reader.\<close>

primrec rd_many :: "'a reader \<Rightarrow> nat \<Rightarrow> 'a list reader" where
  "rd_many p 0 b = rd_ret [] b"
| "rd_many p (Suc n) b = st_bind (p b) (\<lambda>x b. st_bind (rd_many p n b) (\<lambda>xs b. rd_ret (x # xs) b))"

definition parse_tuple :: "tuple_value list reader" where
  "parse_tuple b = st_bind (rd_u16 b) (\<lambda>ncols b. rd_many rd_value (unat ncols) b)"

definition rd_column :: "column_desc reader" where
  "rd_column b =
     st_bind (rd_u8 b) (\<lambda>flags b.
     st_bind (get_cstr b) (\<lambda>name b.
     st_bind (rd_u32 b) (\<lambda>type_oid b.
     st_bind (rd_u32 b) (\<lambda>typmod b.
     rd_ret \<lparr>cd_name = name, cd_type_oid = type_oid, cd_typmod = typmod, cd_is_key = (flags AND 1 \<noteq> 0)\<rparr> b))))"

section \<open>The parser\<close>

definition parse_begin :: "message reader" where
  "parse_begin b =
     st_bind (rd_u64 b) (\<lambda>final_lsn b.
     st_bind (rd_u64 b) (\<lambda>commit_ts b.
     st_bind (rd_u32 b) (\<lambda>xid b.
     rd_ret (MBegin final_lsn commit_ts xid) b)))"

definition parse_commit :: "message reader" where
  "parse_commit b =
     st_bind (rd_u8 b) (\<lambda>flags b.
     st_bind (rd_u64 b) (\<lambda>commit_lsn b.
     st_bind (rd_u64 b) (\<lambda>end_lsn b.
     st_bind (rd_u64 b) (\<lambda>commit_ts b.
     rd_ret (MCommit flags commit_lsn end_lsn commit_ts) b))))"

definition parse_relation :: "message reader" where
  "parse_relation b =
     st_bind (rd_u32 b) (\<lambda>relid b.
     st_bind (get_cstr b) (\<lambda>namespace b.
     st_bind (get_cstr b) (\<lambda>name b.
     st_bind (rd_u8 b) (\<lambda>replident b.
     st_bind (rd_u16 b) (\<lambda>ncols b.
     st_bind (rd_many rd_column (unat ncols) b) (\<lambda>columns b.
     rd_ret (MRelation \<lparr>rd_relid = relid, rd_namespace = namespace, rd_name = name,
       rd_replident = replident, rd_columns = columns\<rparr>) b))))))"

definition parse_update :: "message reader" where
  "parse_update b =
     st_bind (rd_u32 b) (\<lambda>relid b.
     st_bind (rd_u8 b) (\<lambda>kind b.
     st_bind (if kind = of_char (CHR ''K'') \<or> kind = of_char (CHR ''O'')
              then st_bind (parse_tuple b) (\<lambda>t b. st_bind (rd_u8 b) (\<lambda>kind' b. rd_ret (Some (kind, t), kind') b))
              else rd_ret (None, kind) b) (\<lambda>(old, kind) b.
     if kind \<noteq> of_char (CHR ''N'') then rd_fail (UpdateKind kind) b
     else st_bind (parse_tuple b) (\<lambda>new b. rd_ret (MUpdate relid old new) b))))"

definition parse_logical :: "message reader" where
  "parse_logical b =
     st_bind (rd_u8 b) (\<lambda>flags b.
     st_bind (rd_u64 b) (\<lambda>lsn b.
     st_bind (get_cstr b) (\<lambda>prefix b.
     st_bind (rd_u32 b) (\<lambda>len b.
     st_bind (rd_slice TruncatedLogical (unat len) b) (\<lambda>payload b.
     rd_ret (MLogical (flags AND 1 \<noteq> 0) lsn prefix payload) b)))))"

definition parse_tagged :: "byte \<Rightarrow> message reader" where
  "parse_tagged tag b =
     (if tag = of_char (CHR ''B'') then parse_begin b
      else if tag = of_char (CHR ''C'') then parse_commit b
      else if tag = of_char (CHR ''O'') then
        st_bind (rd_u64 b) (\<lambda>commit_lsn b. st_bind (get_cstr b) (\<lambda>name b. rd_ret (MOrigin commit_lsn name) b))
      else if tag = of_char (CHR ''R'') then parse_relation b
      else if tag = of_char (CHR ''Y'') then
        st_bind (rd_u32 b) (\<lambda>type_oid b. st_bind (get_cstr b) (\<lambda>namespace b.
        st_bind (get_cstr b) (\<lambda>name b. rd_ret (MType type_oid namespace name) b)))
      else if tag = of_char (CHR ''I'') then
        st_bind (rd_u32 b) (\<lambda>relid b. st_bind (rd_u8 b) (\<lambda>kind b.
        if kind \<noteq> of_char (CHR ''N'') then rd_fail (InsertKind kind) b
        else st_bind (parse_tuple b) (\<lambda>new b. rd_ret (MInsert relid new) b)))
      else if tag = of_char (CHR ''U'') then parse_update b
      else if tag = of_char (CHR ''D'') then
        st_bind (rd_u32 b) (\<lambda>relid b. st_bind (rd_u8 b) (\<lambda>kind b.
        if kind \<noteq> of_char (CHR ''K'') \<and> kind \<noteq> of_char (CHR ''O'') then rd_fail (DeleteKind kind) b
        else st_bind (parse_tuple b) (\<lambda>t b. rd_ret (MDelete relid (kind, t)) b)))
      else if tag = of_char (CHR ''T'') then
        st_bind (rd_u32 b) (\<lambda>nrels b. st_bind (rd_u8 b) (\<lambda>options b.
        st_bind (rd_many rd_u32 (unat nrels) b) (\<lambda>relids b. rd_ret (MTruncate options relids) b)))
      else if tag = of_char (CHR ''M'') then parse_logical b
      else rd_fail (UnknownTag tag) b)"

definition parse_message :: "bytes \<Rightarrow> pg_error + message" where
  "parse_message payload =
     (case payload of
        [] \<Rightarrow> Err EmptyPayload
      | tag # b \<Rightarrow> fst (parse_tagged tag b))"

section \<open>The wire format\<close>

text \<open>
  What the protocol says a message looks like (PostgreSQL's logical replication message formats):
  the reference the parser is checked against.
\<close>

definition wire_cstr :: "rstr \<Rightarrow> bytes" where
  "wire_cstr s = s @ [0]"

fun wire_value :: "tuple_value \<Rightarrow> bytes" where
  "wire_value TNull = [of_char (CHR ''n'')]"
| "wire_value TUnchangedToast = [of_char (CHR ''u'')]"
| "wire_value (TText s) = of_char (CHR ''t'') # put_u32 (word_of_nat (length s)) @ s"
| "wire_value (TBinary s) = of_char (CHR ''b'') # put_u32 (word_of_nat (length s)) @ s"

definition wire_tuple :: "tuple_value list \<Rightarrow> bytes" where
  "wire_tuple vs = put_u16 (word_of_nat (length vs)) @ concat (map wire_value vs)"

definition wire_column :: "column_desc \<Rightarrow> bytes" where
  "wire_column c = (if cd_is_key c then 1 else 0) # wire_cstr (cd_name c) @ put_u32 (cd_type_oid c) @ put_u32 (cd_typmod c)"

fun wire_message :: "message \<Rightarrow> bytes" where
  "wire_message (MBegin l t x) = of_char (CHR ''B'') # put_u64 l @ put_u64 t @ put_u32 x"
| "wire_message (MCommit f c e t) = of_char (CHR ''C'') # f # put_u64 c @ put_u64 e @ put_u64 t"
| "wire_message (MOrigin l n) = of_char (CHR ''O'') # put_u64 l @ wire_cstr n"
| "wire_message (MRelation r) = of_char (CHR ''R'') # put_u32 (rd_relid r) @ wire_cstr (rd_namespace r) @
     wire_cstr (rd_name r) @ rd_replident r # put_u16 (word_of_nat (length (rd_columns r))) @
     concat (map wire_column (rd_columns r))"
| "wire_message (MType t ns n) = of_char (CHR ''Y'') # put_u32 t @ wire_cstr ns @ wire_cstr n"
| "wire_message (MInsert r vs) = of_char (CHR ''I'') # put_u32 r @ of_char (CHR ''N'') # wire_tuple vs"
| "wire_message (MUpdate r old vs) = of_char (CHR ''U'') # put_u32 r @
     (case old of None \<Rightarrow> [] | Some (k, ws) \<Rightarrow> k # wire_tuple ws) @ of_char (CHR ''N'') # wire_tuple vs"
| "wire_message (MDelete r old) = of_char (CHR ''D'') # put_u32 r @ fst old # wire_tuple (snd old)"
| "wire_message (MTruncate opts rs) = of_char (CHR ''T'') # put_u32 (word_of_nat (length rs)) @ opts # concat (map put_u32 rs)"
| "wire_message (MLogical t l p x) = of_char (CHR ''M'') # (if t then 1 else 0) # put_u64 l @ wire_cstr p @
     put_u32 (word_of_nat (length x)) @ x"

definition cstr_ok :: "rstr \<Rightarrow> bool" where
  "cstr_ok s \<longleftrightarrow> 0 \<notin> set s \<and> utf8_ok s"

fun value_ok :: "tuple_value \<Rightarrow> bool" where
  "value_ok (TText s) = (utf8_ok s \<and> length s < 2 ^ 32)"
| "value_ok (TBinary s) = (length s < 2 ^ 32)"
| "value_ok _ = True"

definition tuple_ok :: "tuple_value list \<Rightarrow> bool" where
  "tuple_ok vs \<longleftrightarrow> length vs < 2 ^ 16 \<and> (\<forall>v \<in> set vs. value_ok v)"

definition is_old_kind :: "byte \<Rightarrow> bool" where
  "is_old_kind k \<longleftrightarrow> k = of_char (CHR ''K'') \<or> k = of_char (CHR ''O'')"

fun message_ok :: "message \<Rightarrow> bool" where
  "message_ok (MOrigin l n) = cstr_ok n"
| "message_ok (MRelation r) = (cstr_ok (rd_namespace r) \<and> cstr_ok (rd_name r) \<and>
     length (rd_columns r) < 2 ^ 16 \<and> (\<forall>c \<in> set (rd_columns r). cstr_ok (cd_name c)))"
| "message_ok (MType t ns n) = (cstr_ok ns \<and> cstr_ok n)"
| "message_ok (MInsert r vs) = tuple_ok vs"
| "message_ok (MUpdate r old vs) =
     (tuple_ok vs \<and> (case old of None \<Rightarrow> True | Some (k, ws) \<Rightarrow> is_old_kind k \<and> tuple_ok ws))"
| "message_ok (MDelete r old) = (is_old_kind (fst old) \<and> tuple_ok (snd old))"
| "message_ok (MTruncate opts rs) = (length rs < 2 ^ 32)"
| "message_ok (MLogical t l p x) = (cstr_ok p \<and> length x < 2 ^ 32)"
| "message_ok _ = True"

lemma rd_put [simp]:
  "rd_u8 (a # r) = (Ok a, r)"
  "rd_u16 (put_u16 x @ r) = (Ok x, r)"
  "rd_u32 (put_u32 y @ r) = (Ok y, r)"
  "rd_u64 (put_u64 z @ r) = (Ok z, r)"
  by (simp_all add: lift_get_def)

lemma rd_ret_simp [simp]: "rd_ret x b = (Ok x, b)"
  by (simp add: rd_ret_def)

lemma takeWhile_cstr: "0 \<notin> set s \<Longrightarrow> takeWhile (\<lambda>x. x \<noteq> 0) (s @ 0 # r) = s" for s :: bytes
  by (induction s) auto

lemma get_cstr_wire [simp]: "cstr_ok s \<Longrightarrow> get_cstr (wire_cstr s @ r) = (Ok s, r)"
  by (simp add: get_cstr_def wire_cstr_def cstr_ok_def takeWhile_cstr)

lemma rd_slice_append [simp]: "length s = n \<Longrightarrow> rd_slice e n (s @ r) = (Ok s, r)"
  by (simp add: rd_slice_def)

lemma rd_value_wire [simp]: "value_ok v \<Longrightarrow> rd_value (wire_value v @ r) = (Ok v, r)"
  by (cases v) (simp_all add: rd_value_def unat_of_nat)

lemma rd_column_wire [simp]: "cstr_ok (cd_name c) \<Longrightarrow> rd_column (wire_column c @ r) = (Ok c, r)"
  by (simp add: rd_column_def wire_column_def)

lemma rd_many_wire:
  "(\<And>x r. x \<in> set xs \<Longrightarrow> p (w x @ r) = (Ok x, r)) \<Longrightarrow>
     rd_many p (length xs) (concat (map w xs) @ r) = (Ok xs, r)"
  by (induction xs) auto

lemma parse_tuple_wire [simp]: "tuple_ok vs \<Longrightarrow> parse_tuple (wire_tuple vs @ r) = (Ok vs, r)"
  by (simp add: parse_tuple_def wire_tuple_def tuple_ok_def unat_of_nat rd_many_wire)

lemma old_kind_neq: "is_old_kind k \<Longrightarrow> k \<noteq> of_char (CHR ''N'')"
  by (auto simp: is_old_kind_def)

text \<open>
  C14. The parser reads the wire format: for every message of the protocol whose counts and lengths fit
  their fields, parsing its encoding returns that message, whatever bytes follow it.
\<close>

theorem parse_wire_message:
  assumes "message_ok m"
  shows "parse_message (wire_message m @ rest) = Ok m"
proof (cases m)
  case (MRelation r)
  have "rd_many rd_column (length (rd_columns r)) (concat (map wire_column (rd_columns r)) @ rest) =
      (Ok (rd_columns r), rest)"
    using assms MRelation by (intro rd_many_wire) auto
  then show ?thesis
    using assms by (simp add: MRelation parse_message_def parse_tagged_def parse_relation_def unat_of_nat)
next
  case (MUpdate r old vs)
  then show ?thesis
    using assms
    by (cases old)
      (auto simp: parse_message_def parse_tagged_def parse_update_def is_old_kind_def dest: old_kind_neq)
next
  case (MTruncate opts rs)
  have "rd_many rd_u32 (length rs) (concat (map put_u32 rs) @ rest) = (Ok rs, rest)"
    by (intro rd_many_wire) simp
  then show ?thesis
    using assms by (simp add: MTruncate parse_message_def parse_tagged_def unat_of_nat)
next
  case (MDelete r old)
  then show ?thesis
    using assms by (cases old) (auto simp: parse_message_def parse_tagged_def is_old_kind_def)
qed (use assms in \<open>simp_all add: parse_message_def parse_tagged_def parse_begin_def parse_commit_def
      parse_logical_def unat_of_nat\<close>)

theorem parse_wire_message_witness:
  "parse_message (wire_message (MInsert 42 [TText (str ''7''), TNull]) @ [0]) = Ok (MInsert 42 [TText (str ''7''), TNull])"
  by (rule parse_wire_message) (simp add: tuple_ok_def utf8_ok_ascii)

lemma rd_short [simp]:
  "rd_u8 [] = (Err PgPanic, [])"
  "length b < 4 \<Longrightarrow> rd_u32 b = (Err PgPanic, b)"
  "length b < 8 \<Longrightarrow> rd_u64 b = (Err PgPanic, b)"
  by (auto simp: lift_get_def split: option.splits) (metis get_None option.distinct(1))+

lemma rd_u64_cases:
  obtains "length b < 8" "rd_u64 b = (Err PgPanic, b)" | x r where "rd_u64 b = (Ok x, r)" "length r + 8 = length b"
  by (cases "get_u64 b") (auto simp: lift_get_def dest: get_Some_length)

lemma parse_take: "0 < n \<Longrightarrow> parse_message (take n (tag # b)) = fst (parse_tagged tag (take (n - 1) b))"
  by (cases n) (simp_all add: parse_message_def)

lemma parse_begin_short: "length b < 20 \<Longrightarrow> fst (parse_begin b) = Err PgPanic"
proof -
  assume len: "length b < 20"
  show ?thesis
  proof (cases rule: rd_u64_cases [of b])
    case 1
    then show ?thesis by (simp add: parse_begin_def)
  next
    case (2 x r)
    show ?thesis
    proof (cases rule: rd_u64_cases [of r])
      case 1
      then show ?thesis using 2 by (simp add: parse_begin_def)
    next
      case (2 y r')
      then have "rd_u32 r' = (Err PgPanic, r')" using len \<open>length r + 8 = length b\<close> by simp
      then show ?thesis using 2 \<open>rd_u64 b = (Ok x, r)\<close> by (simp add: parse_begin_def)
    qed
  qed
qed

lemma parse_commit_short:
  assumes "length b < 25"
  shows "fst (parse_commit b) = Err PgPanic"
proof (cases b)
  case Nil
  then show ?thesis by (simp add: parse_commit_def)
next
  case (Cons f b1)
  have u8: "rd_u8 b = (Ok f, b1)" using Cons by simp
  show ?thesis
  proof (cases rule: rd_u64_cases [of b1])
    case 1
    then show ?thesis by (simp add: parse_commit_def u8)
  next
    case a: (2 x b2)
    show ?thesis
    proof (cases rule: rd_u64_cases [of b2])
      case 1
      then show ?thesis by (simp add: parse_commit_def u8 a)
    next
      case b: (2 y b3)
      have "rd_u64 b3 = (Err PgPanic, b3)" using a b assms Cons by simp
      then show ?thesis by (simp add: parse_commit_def u8 a b)
    qed
  qed
qed

text \<open>
  A truncated payload makes the parser panic instead of returning an error: every proper prefix of
  a Begin or Commit message that still holds its tag runs a \<open>Buf\<close> getter past the end of the slice.
\<close>

theorem parse_truncated_panics:
  assumes "m = MBegin l t x \<or> m = MCommit f c e t" and "0 < n" and "n < length (wire_message m)"
  shows "parse_message (take n (wire_message m)) = Err PgPanic"
  using assms(1)
proof
  assume m: "m = MBegin l t x"
  have "fst (parse_begin (take (n - 1) (put_u64 l @ put_u64 t @ put_u32 x))) = Err PgPanic"
    by (rule parse_begin_short) (use assms m in auto)
  then show ?thesis
    by (simp add: m parse_take [OF assms(2)] parse_tagged_def)
next
  assume m: "m = MCommit f c e t"
  have "fst (parse_commit (take (n - 1) (f # put_u64 c @ put_u64 e @ put_u64 t))) = Err PgPanic"
    by (rule parse_commit_short) (use assms m in auto)
  then show ?thesis
    by (simp add: m parse_take [OF assms(2)] parse_tagged_def)
qed

theorem parse_truncated_panics_witness:
  "parse_message (take 5 (wire_message (MBegin 1 2 3))) = Err PgPanic"
  by (rule parse_truncated_panics [of _ 1 2 3]) simp_all

end
