(* ===== verification/Registry.thy ===== *)
theory Registry
  imports PgOutput FrameLog
begin

text \<open>
  The LSN-versioned schema registry and the one-shot replay of the log,
  \<open>crates/graydb-registry/src/lib.rs\<close>. \<open>replay_log\<close> is split as its loop is: one step per frame over
  the replay's locals (the output, the live relations, the open transaction).
\<close>

section \<open>Registry\<close>

record schema_version =
  sv_valid_from :: u64
  sv_replident :: byte
  sv_columns :: "column_desc list"

record table_entry =
  te_name :: rstr
  te_versions :: "schema_version list"

type_synonym registry = "(u32 \<times> table_entry) list"

definition default_entry :: table_entry where
  "default_entry = \<lparr>te_name = [], te_versions = []\<rparr>"

definition same_shape :: "schema_version list \<Rightarrow> relation_desc \<Rightarrow> bool" where
  "same_shape vs rel \<longleftrightarrow>
     (case rev vs of [] \<Rightarrow> False
      | v # _ \<Rightarrow> sv_columns v = rd_columns rel \<and> sv_replident v = rd_replident rel)"

definition record_version :: "relation_desc \<Rightarrow> u64 \<Rightarrow> registry \<Rightarrow> registry" where
  "record_version rel valid_from_lsn reg =
     (let entry = (case map_of reg (rd_relid rel) of None \<Rightarrow> default_entry | Some e \<Rightarrow> e);
          entry = entry\<lparr>te_name := qualified_name rel\<rparr>;
          version = \<lparr>sv_valid_from = valid_from_lsn, sv_replident = rd_replident rel, sv_columns = rd_columns rel\<rparr>;
          entry = (if same_shape (te_versions entry) rel then entry
                   else entry\<lparr>te_versions := te_versions entry @ [version]\<rparr>)
      in bt_insert (rd_relid rel) entry reg)"

definition schema_at :: "u32 \<Rightarrow> u64 \<Rightarrow> registry \<Rightarrow> schema_version option" where
  "schema_at relid lsn reg =
     Option.bind (map_of reg relid) (\<lambda>t. find (\<lambda>v. sv_valid_from v \<le> lsn) (rev (te_versions t)))"

definition schema_for_table :: "rstr \<Rightarrow> u64 \<Rightarrow> registry \<Rightarrow> schema_version option" where
  "schema_for_table qualified lsn reg =
     Option.bind (find (\<lambda>(_, t). te_name t = qualified) reg) (\<lambda>(relid, _). schema_at relid lsn reg)"

section \<open>Changes\<close>

datatype change_op = OInsert | OUpdate | ODelete | OTruncate

type_synonym named_row = "(rstr \<times> tuple_value) list"

record typed_change =
  tc_commit_lsn :: u64
  tc_xid :: u32
  tc_table :: rstr
  tc_op :: change_op
  tc_new :: "named_row option"
  tc_old :: "named_row option"

record ddl_event =
  de_commit_lsn :: u64
  de_kind :: rstr
  de_command_tag :: "rstr option"
  de_object_identity :: "rstr option"
  de_ddl_text :: "rstr option"

definition name_tuple :: "relation_desc \<Rightarrow> tuple_value list \<Rightarrow> named_row" where
  "name_tuple rel vs = map (\<lambda>(c, v). (cd_name c, v)) (zip (rd_columns rel) vs)"

fun text_of :: "named_row \<Rightarrow> rstr \<Rightarrow> rstr option" where
  "text_of [] col = None"
| "text_of ((n, v) # named) col =
     (case v of
        TText s \<Rightarrow> if n = col then Some s else text_of named col
      | _ \<Rightarrow> text_of named col)"

definition ddl_event_from_row :: "named_row \<Rightarrow> ddl_event" where
  "ddl_event_from_row named =
     \<lparr>de_commit_lsn = 0,
      de_kind = (case text_of named (str ''kind'') of None \<Rightarrow> str ''?'' | Some k \<Rightarrow> k),
      de_command_tag = text_of named (str ''command_tag''),
      de_object_identity = text_of named (str ''object_identity''),
      de_ddl_text = text_of named (str ''ddl_text'')\<rparr>"

record txn_buf =
  tx_xid :: u32
  tx_changes :: "typed_change list"
  tx_relations :: "relation_desc list"
  tx_ddl_rows :: "ddl_event list"

definition open_txn :: "u32 \<Rightarrow> txn_buf" where
  "open_txn xid = \<lparr>tx_xid = xid, tx_changes = [], tx_relations = [], tx_ddl_rows = []\<rparr>"

definition push_change ::
    "relation_desc \<Rightarrow> change_op \<Rightarrow> named_row option \<Rightarrow> named_row option \<Rightarrow> txn_buf \<Rightarrow> txn_buf" where
  "push_change rel oper new old t =
     t\<lparr>tx_changes := tx_changes t @
        [\<lparr>tc_commit_lsn = 0, tc_xid = tx_xid t, tc_table = qualified_name rel, tc_op = oper,
          tc_new = new, tc_old = old\<rparr>]\<rparr>"

text \<open>The three effects a message has on the open transaction, shared by both decoders.\<close>

definition push_insert :: "relation_desc \<Rightarrow> tuple_value list \<Rightarrow> txn_buf \<Rightarrow> txn_buf" where
  "push_insert rel new t =
     (let named = name_tuple rel new;
          t = (if qualified_name rel = str ''graydb.ddl_log''
               then t\<lparr>tx_ddl_rows := tx_ddl_rows t @ [ddl_event_from_row named]\<rparr> else t)
      in push_change rel OInsert (Some named) None t)"

fun push_truncates :: "(u32 \<times> relation_desc) list \<Rightarrow> u32 list \<Rightarrow> txn_buf \<Rightarrow> txn_buf" where
  "push_truncates live [] t = t"
| "push_truncates live (relid # relids) t =
     push_truncates live relids
       (case map_of live relid of None \<Rightarrow> t | Some rel \<Rightarrow> push_change rel OTruncate None None t)"

definition commit_changes :: "u64 \<Rightarrow> txn_buf \<Rightarrow> typed_change list" where
  "commit_changes end_lsn t = map (\<lambda>c. c\<lparr>tc_commit_lsn := end_lsn\<rparr>) (tx_changes t)"

definition commit_ddl :: "u64 \<Rightarrow> txn_buf \<Rightarrow> ddl_event list" where
  "commit_ddl end_lsn t = map (\<lambda>d. d\<lparr>de_commit_lsn := end_lsn\<rparr>) (tx_ddl_rows t)"

definition commit_registry :: "u64 \<Rightarrow> txn_buf \<Rightarrow> registry \<Rightarrow> registry" where
  "commit_registry end_lsn t reg = fold (\<lambda>rel. record_version rel end_lsn) (tx_relations t) reg"

section \<open>Replay\<close>

record replay_out =
  rp_registry :: registry
  rp_changes :: "typed_change list"
  rp_ddl_events :: "ddl_event list"
  rp_txns :: u64
  rp_frames :: u64

datatype replay_error =
    LogError decode_error
  | NotVerified
  | FrameGap u64 u64
  | Decoding u64 pg_error
  | OutsideTxn change_op
  | BeforeRelation change_op
  | CommitWithoutBegin

type_synonym replay_state = "replay_out \<times> (u32 \<times> relation_desc) list \<times> txn_buf option"

definition init_replay :: "u64 \<Rightarrow> replay_state" where
  "init_replay frames =
     (\<lparr>rp_registry = [], rp_changes = [], rp_ddl_events = [], rp_txns = 0, rp_frames = frames\<rparr>, [], None)"

fun replay_message :: "u64 \<Rightarrow> message \<Rightarrow> replay_state \<Rightarrow> replay_error + replay_state" where
  "replay_message lsn_end (MBegin _ _ xid) (out, live, txn) = Ok (out, live, Some (open_txn xid))"
| "replay_message lsn_end (MRelation rel) (out, live, txn) =
     (case txn of
        Some t \<Rightarrow> Ok (out, bt_insert (rd_relid rel) rel live, Some (t\<lparr>tx_relations := tx_relations t @ [rel]\<rparr>))
      | None \<Rightarrow> Ok (out\<lparr>rp_registry := record_version rel lsn_end (rp_registry out)\<rparr>,
                    bt_insert (rd_relid rel) rel live, None))"
| "replay_message lsn_end (MInsert relid new) (out, live, txn) =
     res_bind (need txn (OutsideTxn OInsert)) (\<lambda>t.
     res_bind (need (map_of live relid) (BeforeRelation OInsert)) (\<lambda>rel.
     Ok (out, live, Some (push_insert rel new t))))"
| "replay_message lsn_end (MUpdate relid old new) (out, live, txn) =
     res_bind (need txn (OutsideTxn OUpdate)) (\<lambda>t.
     res_bind (need (map_of live relid) (BeforeRelation OUpdate)) (\<lambda>rel.
     Ok (out, live, Some (push_change rel OUpdate (Some (name_tuple rel new))
       (map_option (\<lambda>(_, tv). name_tuple rel tv) old) t))))"
| "replay_message lsn_end (MDelete relid old) (out, live, txn) =
     res_bind (need txn (OutsideTxn ODelete)) (\<lambda>t.
     res_bind (need (map_of live relid) (BeforeRelation ODelete)) (\<lambda>rel.
     Ok (out, live, Some (push_change rel ODelete None (Some (name_tuple rel (snd old))) t))))"
| "replay_message lsn_end (MTruncate _ relids) (out, live, txn) =
     res_bind (need txn (OutsideTxn OTruncate)) (\<lambda>t. Ok (out, live, Some (push_truncates live relids t)))"
| "replay_message lsn_end (MCommit _ _ end_lsn _) (out, live, txn) =
     res_bind (need txn CommitWithoutBegin) (\<lambda>t.
     Ok (out\<lparr>rp_registry := commit_registry end_lsn t (rp_registry out),
            rp_changes := rp_changes out @ commit_changes end_lsn t,
            rp_ddl_events := rp_ddl_events out @ commit_ddl end_lsn t,
            rp_txns := rp_txns out + 1\<rparr>, live, None))"
| "replay_message lsn_end (MOrigin _ _) st = Ok st"
| "replay_message lsn_end (MType _ _ _) st = Ok st"
| "replay_message lsn_end (MLogical _ _ _ _) st = Ok st"

definition parse_frame :: "frame \<Rightarrow> replay_error + message" where
  "parse_frame f =
     (case parse_message (fr_payload f) of Inl e \<Rightarrow> Err (Decoding (fr_seq f) e) | Inr m \<Rightarrow> Ok m)"

fun replay_frames :: "frame list \<Rightarrow> replay_state \<Rightarrow> replay_error + replay_state" where
  "replay_frames [] st = Ok st"
| "replay_frames (f # fs) st =
     res_bind (parse_frame f) (\<lambda>msg.
     res_bind (replay_message (fr_lsn_end f) msg st) (\<lambda>st. replay_frames fs st))"

definition replay_log :: "crc_fun \<Rightarrow> dir \<Rightarrow> replay_error + replay_out" where
  "replay_log crc log_dir =
     (case verify_log crc False log_dir of
        Inl e \<Rightarrow> Err (LogError e)
      | Inr (v, frames) \<Rightarrow>
          res_bind (ensure (lv_seq_contiguous v \<and> lv_lsn_monotone v) NotVerified) (\<lambda>_.
          res_bind (replay_frames frames (init_replay (lv_frames v))) (\<lambda>(out, _, _). Ok out)))"

section \<open>Versions are in force from their commit on\<close>

lemma record_version_other: "relid \<noteq> rd_relid rel \<Longrightarrow> schema_at relid lsn (record_version rel l reg) = schema_at relid lsn reg"
  by (simp add: record_version_def schema_at_def Let_def)

definition versions_of :: "u32 \<Rightarrow> registry \<Rightarrow> schema_version list" where
  "versions_of relid reg = (case map_of reg relid of None \<Rightarrow> [] | Some t \<Rightarrow> te_versions t)"

lemma schema_at_versions: "schema_at relid lsn reg = find (\<lambda>v. sv_valid_from v \<le> lsn) (rev (versions_of relid reg))"
  by (simp add: schema_at_def versions_of_def split: option.splits)

lemma versions_of_record:
  "versions_of (rd_relid rel) (record_version rel l reg) =
     (if same_shape (versions_of (rd_relid rel) reg) rel then versions_of (rd_relid rel) reg
      else versions_of (rd_relid rel) reg @
        [\<lparr>sv_valid_from = l, sv_replident = rd_replident rel, sv_columns = rd_columns rel\<rparr>])"
  by (auto simp: record_version_def versions_of_def Let_def default_entry_def split: option.splits)

lemma versions_of_other: "relid \<noteq> rd_relid rel \<Longrightarrow> versions_of relid (record_version rel l reg) = versions_of relid reg"
  by (simp add: record_version_def versions_of_def Let_def)

definition ascending :: "registry \<Rightarrow> bool" where
  "ascending reg \<longleftrightarrow> (\<forall>relid. sorted (map sv_valid_from (versions_of relid reg)))"

definition none_after :: "u64 \<Rightarrow> registry \<Rightarrow> bool" where
  "none_after l reg \<longleftrightarrow> (\<forall>relid. \<forall>v \<in> set (versions_of relid reg). sv_valid_from v \<le> l)"

lemma ascending_record:
  assumes "ascending reg" "none_after l reg" "l \<le> l'"
  shows "ascending (record_version rel l' reg)" "none_after l' (record_version rel l' reg)"
proof -
  have "sorted (map sv_valid_from (versions_of relid (record_version rel l' reg))) \<and>
      (\<forall>v \<in> set (versions_of relid (record_version rel l' reg)). sv_valid_from v \<le> l')" for relid
  proof (cases "relid = rd_relid rel")
    case True
    then show ?thesis
      using assms by (auto simp: versions_of_record ascending_def none_after_def sorted_append intro: order_trans)
  next
    case False
    then show ?thesis
      using assms by (auto simp: versions_of_other ascending_def none_after_def intro: order_trans)
  qed
  then show "ascending (record_version rel l' reg)" "none_after l' (record_version rel l' reg)"
    by (auto simp: ascending_def none_after_def)
qed

text \<open>
  The registry answers per LSN. Recording a relation at \<open>l\<close>, not before any version already
  recorded, leaves the schema in force at every earlier LSN as it was, and puts the relation's columns
  and replica identity in force at \<open>l\<close> and after.
\<close>

theorem record_version_in_force:
  assumes "none_after l reg"
  shows "(lsn < l \<longrightarrow> schema_at relid lsn (record_version rel l reg) = schema_at relid lsn reg) \<and>
    (l \<le> lsn \<longrightarrow> (\<exists>v. schema_at (rd_relid rel) lsn (record_version rel l reg) = Some v \<and>
      sv_columns v = rd_columns rel \<and> sv_replident v = rd_replident rel))"
proof (intro conjI impI)
  show "schema_at relid lsn (record_version rel l reg) = schema_at relid lsn reg" if "lsn < l"
    using that by (cases "relid = rd_relid rel")
      (auto simp: schema_at_versions versions_of_record versions_of_other)
  show "\<exists>v. schema_at (rd_relid rel) lsn (record_version rel l reg) = Some v \<and>
      sv_columns v = rd_columns rel \<and> sv_replident v = rd_replident rel" if "l \<le> lsn"
  proof (cases "same_shape (versions_of (rd_relid rel) reg) rel")
    case True
    then obtain v vs where v: "rev (versions_of (rd_relid rel) reg) = v # vs"
      "sv_columns v = rd_columns rel" "sv_replident v = rd_replident rel"
      by (auto simp: same_shape_def split: list.splits)
    then have "v \<in> set (versions_of (rd_relid rel) reg)" by (metis list.set_intros(1) set_rev)
    then have "sv_valid_from v \<le> lsn" using assms that by (auto simp: none_after_def intro: order_trans)
    then show ?thesis using True v by (simp add: schema_at_versions versions_of_record)
  next
    case False
    then show ?thesis using that by (simp add: schema_at_versions versions_of_record)
  qed
qed

theorem record_version_in_force_witness:
  "let rel = \<lparr>rd_relid = 1, rd_namespace = [], rd_name = str ''t'', rd_replident = 100, rd_columns = []\<rparr>
   in \<exists>v. schema_at 1 7 (record_version rel 5 []) = Some v \<and> sv_replident v = 100"
  using record_version_in_force [of 5 "[]" 7 1
      "\<lparr>rd_relid = 1, rd_namespace = [], rd_name = str ''t'', rd_replident = 100, rd_columns = []\<rparr>"]
  by (auto simp: Let_def none_after_def versions_of_def)

end
