(* ===== verification/Decoder.thy ===== *)
theory Decoder
  imports Registry LogTail
begin

text \<open>
  The incremental decoder \<open>StreamDecoder\<close> of \<open>crates/graydb-registry/src/decoder.rs\<close>. \<open>feed\<close> keeps the
  mutations it made before an error, so it returns the state on that path too. Fed the frames of a log
  in any chunks it emits what \<open>replay_log\<close> computes in one go.
\<close>

section \<open>The decoder\<close>

record decoded_batch =
  db_changes :: "typed_change list"
  db_ddl_events :: "ddl_event list"
  db_txns :: u64
  db_last_commit_lsn :: u64
  db_first_change_index :: u64

record stream_decoder =
  sd_registry :: registry
  sd_live_rel :: "(u32 \<times> relation_desc) list"
  sd_txn :: "txn_buf option"
  sd_next_seq :: u64
  sd_last_commit_seq :: u64
  sd_started :: bool
  sd_change_counter :: u64

definition decoder_new :: stream_decoder where
  "decoder_new = \<lparr>sd_registry = [], sd_live_rel = [], sd_txn = None, sd_next_seq = 0,
     sd_last_commit_seq = 0, sd_started = False, sd_change_counter = 0\<rparr>"

definition abort_open_txn :: "stream_decoder \<Rightarrow> stream_decoder" where
  "abort_open_txn d = d\<lparr>sd_txn := None,
     sd_next_seq := (if sd_started d then sd_last_commit_seq d + 1 else 0)\<rparr>"

definition init_batch :: "u64 \<Rightarrow> decoded_batch" where
  "init_batch first = \<lparr>db_changes = [], db_ddl_events = [], db_txns = 0, db_last_commit_lsn = 0,
     db_first_change_index = first\<rparr>"

text \<open>The \<open>match\<close> of \<open>feed\<close>: the batch and the decoder after one message.\<close>

fun decode_message ::
    "u64 \<Rightarrow> u64 \<Rightarrow> message \<Rightarrow> decoded_batch \<Rightarrow> stream_decoder \<Rightarrow> (replay_error + decoded_batch) \<times> stream_decoder"
  where
  "decode_message seq lsn_end (MBegin _ _ xid) out d = (Ok out, d\<lparr>sd_txn := Some (open_txn xid)\<rparr>)"
| "decode_message seq lsn_end (MRelation rel) out d =
     (let d = (case sd_txn d of
                 Some t \<Rightarrow> d\<lparr>sd_txn := Some (t\<lparr>tx_relations := tx_relations t @ [rel]\<rparr>)\<rparr>
               | None \<Rightarrow> d\<lparr>sd_registry := record_version rel lsn_end (sd_registry d)\<rparr>)
      in (Ok out, d\<lparr>sd_live_rel := bt_insert (rd_relid rel) rel (sd_live_rel d)\<rparr>))"
| "decode_message seq lsn_end (MInsert relid new) out d =
     st_bind (need (map_of (sd_live_rel d) relid) (BeforeRelation OInsert), d) (\<lambda>rel d.
     st_bind (need (sd_txn d) (OutsideTxn OInsert), d) (\<lambda>t d.
     (Ok out, d\<lparr>sd_txn := Some (push_insert rel new t)\<rparr>)))"
| "decode_message seq lsn_end (MUpdate relid old new) out d =
     st_bind (need (map_of (sd_live_rel d) relid) (BeforeRelation OUpdate), d) (\<lambda>rel d.
     st_bind (need (sd_txn d) (OutsideTxn OUpdate), d) (\<lambda>t d.
     (Ok out, d\<lparr>sd_txn := Some (push_change rel OUpdate (Some (name_tuple rel new))
        (map_option (\<lambda>(_, tv). name_tuple rel tv) old) t)\<rparr>)))"
| "decode_message seq lsn_end (MDelete relid old) out d =
     st_bind (need (map_of (sd_live_rel d) relid) (BeforeRelation ODelete), d) (\<lambda>rel d.
     st_bind (need (sd_txn d) (OutsideTxn ODelete), d) (\<lambda>t d.
     (Ok out, d\<lparr>sd_txn := Some (push_change rel ODelete None (Some (name_tuple rel (snd old))) t)\<rparr>)))"
| "decode_message seq lsn_end (MTruncate _ relids) out d =
     st_bind (need (sd_txn d) (OutsideTxn OTruncate), d) (\<lambda>t d.
     (Ok out, d\<lparr>sd_txn := Some (push_truncates (sd_live_rel d) relids t)\<rparr>))"
| "decode_message seq lsn_end (MCommit _ _ end_lsn _) out d =
     st_bind (need (sd_txn d) CommitWithoutBegin, d\<lparr>sd_txn := None\<rparr>) (\<lambda>t d.
     (Ok (out\<lparr>db_changes := db_changes out @ commit_changes end_lsn t,
              db_ddl_events := db_ddl_events out @ commit_ddl end_lsn t,
              db_txns := db_txns out + 1, db_last_commit_lsn := end_lsn\<rparr>),
      d\<lparr>sd_last_commit_seq := seq, sd_registry := commit_registry end_lsn t (sd_registry d),
        sd_change_counter := sd_change_counter d + word_of_nat (length (tx_changes t))\<rparr>))"
| "decode_message seq lsn_end (MOrigin _ _) out d = (Ok out, d)"
| "decode_message seq lsn_end (MType _ _ _) out d = (Ok out, d)"
| "decode_message seq lsn_end (MLogical _ _ _ _) out d = (Ok out, d)"

fun feed_loop :: "frame list \<Rightarrow> decoded_batch \<Rightarrow> stream_decoder \<Rightarrow> (replay_error + decoded_batch) \<times> stream_decoder"
  where
  "feed_loop [] out d = (Ok out, d)"
| "feed_loop (f # fs) out d =
     st_bind (ensure (fr_seq f = sd_next_seq d) (FrameGap (sd_next_seq d) (fr_seq f)), d) (\<lambda>_ d.
     st_bind (parse_frame f, d\<lparr>sd_next_seq := fr_seq f + 1, sd_started := True\<rparr>) (\<lambda>msg d.
     st_bind (decode_message (fr_seq f) (fr_lsn_end f) msg out d) (\<lambda>out d. feed_loop fs out d)))"

definition feed :: "frame list \<Rightarrow> stream_decoder \<Rightarrow> (replay_error + decoded_batch) \<times> stream_decoder" where
  "feed fs d = feed_loop fs (init_batch (sd_change_counter d)) d"

text \<open>The engine's loop: \<open>feed\<close> on one chunk after the other, the batches collected.\<close>

fun feed_all :: "frame list list \<Rightarrow> stream_decoder \<Rightarrow> (replay_error + decoded_batch list) \<times> stream_decoder" where
  "feed_all [] d = (Ok [], d)"
| "feed_all (fs # fss) d = st_bind (feed fs d) (\<lambda>b d. st_bind (feed_all fss d) (\<lambda>bs d. (Ok (b # bs), d)))"

section \<open>Incremental decoding is replay\<close>

text \<open>
  The simulation: the decoder's state is the replay's, and what the batch holds is the part of the
  replay's output after the first \<open>pc\<close>, \<open>pd\<close> and \<open>pt\<close>.
\<close>

definition simulates ::
    "typed_change list \<Rightarrow> ddl_event list \<Rightarrow> u64 \<Rightarrow> decoded_batch \<Rightarrow> stream_decoder \<Rightarrow> replay_state \<Rightarrow> bool" where
  "simulates pc pd pt out d st \<longleftrightarrow> (case st of (rout, live, txn) \<Rightarrow>
     sd_registry d = rp_registry rout \<and> sd_live_rel d = live \<and> sd_txn d = txn \<and>
     rp_changes rout = pc @ db_changes out \<and> rp_ddl_events rout = pd @ db_ddl_events out \<and>
     rp_txns rout = pt + db_txns out \<and>
     sd_change_counter d = word_of_nat (length (rp_changes rout)))"

lemma simulates_next [simp]:
  "simulates pc pd pt out (d\<lparr>sd_next_seq := n, sd_started := s\<rparr>) st \<longleftrightarrow> simulates pc pd pt out d st"
  by (simp add: simulates_def)

lemma decode_step:
  assumes "simulates pc pd pt out d st"
  shows "case replay_message l m st of
      Inr st' \<Rightarrow> \<exists>out' d'. decode_message seq l m out d = (Ok out', d') \<and> simulates pc pd pt out' d' st' \<and>
        sd_next_seq d' = sd_next_seq d \<and> db_first_change_index out' = db_first_change_index out
    | Inl e \<Rightarrow> \<not> is_ok (fst (decode_message seq l m out d))"
proof -
  obtain rout live txn where st: "st = (rout, live, txn)" by (cases st)
  show ?thesis
  proof (cases m)
    case (MRelation rel)
    then show ?thesis using assms by (cases txn) (auto simp: st simulates_def Let_def)
  next
    case (MInsert r n)
    then show ?thesis using assms
      by (cases txn; cases "map_of live r") (auto simp: st simulates_def)
  next
    case (MUpdate r ol n)
    then show ?thesis using assms
      by (cases txn; cases "map_of live r") (auto simp: st simulates_def)
  next
    case (MDelete r ol)
    then show ?thesis using assms
      by (cases txn; cases "map_of live r") (auto simp: st simulates_def)
  next
    case (MTruncate ops r)
    then show ?thesis using assms by (cases txn) (auto simp: st simulates_def)
  next
    case (MCommit f c e t)
    then show ?thesis using assms
      by (cases txn) (auto simp: st simulates_def commit_changes_def add_ac)
  qed (use assms in \<open>auto simp: st simulates_def\<close>)
qed

fun contiguous :: "u64 \<Rightarrow> frame list \<Rightarrow> bool" where
  "contiguous n [] = True"
| "contiguous n (f # fs) = (fr_seq f = n \<and> contiguous (n + 1) fs)"

lemma contiguous_append: "contiguous n (xs @ ys) \<longleftrightarrow> contiguous n xs \<and> contiguous (n + word_of_nat (length xs)) ys"
  by (induction xs arbitrary: n) (auto simp: add_ac)

lemma feed_loop_replay:
  assumes "simulates pc pd pt out d st" "contiguous (sd_next_seq d) fs"
  shows "case replay_frames fs st of
      Inr st' \<Rightarrow> \<exists>out' d'. feed_loop fs out d = (Ok out', d') \<and> simulates pc pd pt out' d' st' \<and>
        sd_next_seq d' = sd_next_seq d + word_of_nat (length fs) \<and>
        db_first_change_index out' = db_first_change_index out
    | Inl e \<Rightarrow> \<not> is_ok (fst (feed_loop fs out d))"
  using assms
proof (induction fs arbitrary: out d st)
  case Nil
  then show ?case by auto
next
  case (Cons f fs)
  let ?d = "d\<lparr>sd_next_seq := fr_seq f + 1, sd_started := True\<rparr>"
  have seq: "fr_seq f = sd_next_seq d" "contiguous (sd_next_seq d + 1) fs" using Cons.prems(2) by auto
  show ?case
  proof (cases "parse_frame f")
    case (Inl e)
    then show ?thesis using seq by simp
  next
    case (Inr msg)
    have sim: "simulates pc pd pt out ?d st" using Cons.prems(1) by simp
    note step = decode_step [OF sim, where m = msg and l = "fr_lsn_end f" and seq = "fr_seq f"]
    show ?thesis
    proof (cases "replay_message (fr_lsn_end f) msg st")
      case err: (Inl e)
      obtain r d1 where dm: "decode_message (fr_seq f) (fr_lsn_end f) msg out ?d = (r, d1)"
        by (cases "decode_message (fr_seq f) (fr_lsn_end f) msg out ?d")
      then obtain e' where "r = Inl e'" using step err by (cases r) auto
      then show ?thesis using err Inr seq dm by simp
    next
      case ok: (Inr st')
      from step ok obtain out' d' where d': "decode_message (fr_seq f) (fr_lsn_end f) msg out ?d = (Ok out', d')"
        "simulates pc pd pt out' d' st'" "sd_next_seq d' = sd_next_seq d + 1"
        "db_first_change_index out' = db_first_change_index out"
        using seq(1) by auto
      have loop: "feed_loop (f # fs) out d = feed_loop fs out' d'" using seq(1) Inr d'(1) by simp
      have rep: "replay_frames (f # fs) st = replay_frames fs st'" using Inr ok by simp
      show ?thesis
        unfolding loop rep
        using Cons.IH [OF d'(2)] seq(2) d'(3,4) by (auto split: sum.splits simp: add_ac)
    qed
  qed
qed

lemma init_simulates:
  "simulates pc pd pt out d (rout, live, txn) \<Longrightarrow>
     simulates (rp_changes rout) (rp_ddl_events rout) (rp_txns rout) (init_batch n) d (rout, live, txn)"
  by (simp add: simulates_def init_batch_def)

lemma feed_all_replay:
  assumes "simulates (rp_changes rout) (rp_ddl_events rout) (rp_txns rout) (init_batch 0) d (rout, live, txn)"
    and "contiguous (sd_next_seq d) (concat fss)"
  shows "case replay_frames (concat fss) (rout, live, txn) of
      Inr (rout', live', txn') \<Rightarrow> \<exists>bs d'. feed_all fss d = (Ok bs, d') \<and>
        rp_changes rout' = rp_changes rout @ concat (map db_changes bs) \<and>
        rp_ddl_events rout' = rp_ddl_events rout @ concat (map db_ddl_events bs) \<and>
        rp_txns rout' = rp_txns rout + sum_list (map db_txns bs) \<and>
        sd_registry d' = rp_registry rout' \<and> sd_txn d' = txn' \<and>
        (\<forall>i < length bs. db_first_change_index (bs ! i) =
           word_of_nat (length (rp_changes rout @ concat (map db_changes (take i bs)))))
    | Inl e \<Rightarrow> \<not> is_ok (fst (feed_all fss d))"
  using assms
proof (induction fss arbitrary: d rout live txn)
  case Nil
  then show ?case by (simp add: simulates_def)
next
  case (Cons fs fss)
  let ?pc = "rp_changes rout" and ?pd = "rp_ddl_events rout" and ?pt = "rp_txns rout"
  have sim: "simulates ?pc ?pd ?pt (init_batch (sd_change_counter d)) d (rout, live, txn)"
    using Cons.prems(1) by (simp add: simulates_def init_batch_def)
  have cont: "contiguous (sd_next_seq d) fs" "contiguous (sd_next_seq d + word_of_nat (length fs)) (concat fss)"
    using Cons.prems(2) by (simp_all add: contiguous_append)
  have counter: "sd_change_counter d = word_of_nat (length ?pc)" using sim by (simp add: simulates_def)
  note loop = feed_loop_replay [OF sim cont(1)]
  have app: "replay_frames (xs @ ys) st = res_bind (replay_frames xs st) (replay_frames ys)" for xs ys st
    by (induction xs arbitrary: st) (auto simp: res_bind_def split: sum.splits)
  show ?case
  proof (cases "replay_frames fs (rout, live, txn)")
    case (Inl e)
    then have "\<not> is_ok (fst (feed fs d))" using loop by (simp add: feed_def)
    then obtain e' d1 where "feed fs d = (Inl e', d1)" by (cases "feed fs d"; cases "fst (feed fs d)") auto
    then show ?thesis using Inl by (simp add: app)
  next
    case (Inr st')
    obtain rout1 live1 txn1 where st': "st' = (rout1, live1, txn1)" by (cases st')
    from loop Inr obtain b d1 where b: "feed fs d = (Ok b, d1)" "simulates ?pc ?pd ?pt b d1 st'"
      "sd_next_seq d1 = sd_next_seq d + word_of_nat (length fs)"
      "db_first_change_index b = sd_change_counter d"
      by (auto simp: feed_def init_batch_def)
    have sim1: "simulates (rp_changes rout1) (rp_ddl_events rout1) (rp_txns rout1) (init_batch 0) d1 (rout1, live1, txn1)"
      using init_simulates b(2) st' by blast
    have r1: "rp_changes rout1 = ?pc @ db_changes b" "rp_ddl_events rout1 = ?pd @ db_ddl_events b"
      "rp_txns rout1 = ?pt + db_txns b"
      using b(2) st' by (simp_all add: simulates_def)
    have IH: "case replay_frames (concat fss) (rout1, live1, txn1) of
      Inr (rout', live', txn') \<Rightarrow> \<exists>bs d'. feed_all fss d1 = (Ok bs, d') \<and>
        rp_changes rout' = rp_changes rout1 @ concat (map db_changes bs) \<and>
        rp_ddl_events rout' = rp_ddl_events rout1 @ concat (map db_ddl_events bs) \<and>
        rp_txns rout' = rp_txns rout1 + sum_list (map db_txns bs) \<and>
        sd_registry d' = rp_registry rout' \<and> sd_txn d' = txn' \<and>
        (\<forall>i < length bs. db_first_change_index (bs ! i) =
           word_of_nat (length (rp_changes rout1 @ concat (map db_changes (take i bs)))))
    | Inl e \<Rightarrow> \<not> is_ok (fst (feed_all fss d1))"
      using Cons.IH [OF sim1] cont(2) b(3) by simp
    have rep: "replay_frames (concat (fs # fss)) (rout, live, txn) = replay_frames (concat fss) (rout1, live1, txn1)"
      by (simp add: app Inr st')
    show ?thesis
    proof (cases "replay_frames (concat fss) (rout1, live1, txn1)")
      case (Inl e)
      then have "\<not> is_ok (fst (feed_all fss d1))" using IH by simp
      then obtain e' d2 where "feed_all fss d1 = (Inl e', d2)"
        by (cases "feed_all fss d1"; cases "fst (feed_all fss d1)") auto
      then show ?thesis unfolding rep using Inl b(1) by simp
    next
      case ok: (Inr st2)
      obtain rout2 live2 txn2 where st2: "st2 = (rout2, live2, txn2)" by (cases st2)
      from IH ok st2 obtain bs d2 where *: "feed_all fss d1 = (Ok bs, d2)"
        "rp_changes rout2 = rp_changes rout1 @ concat (map db_changes bs)"
        "rp_ddl_events rout2 = rp_ddl_events rout1 @ concat (map db_ddl_events bs)"
        "rp_txns rout2 = rp_txns rout1 + sum_list (map db_txns bs)"
        "sd_registry d2 = rp_registry rout2" "sd_txn d2 = txn2"
        "\<forall>i < length bs. db_first_change_index (bs ! i) =
           word_of_nat (length (rp_changes rout1 @ concat (map db_changes (take i bs))))" by auto
      have idx: "\<forall>i < length (b # bs). db_first_change_index ((b # bs) ! i) =
           word_of_nat (length (?pc @ concat (map db_changes (take i (b # bs)))))"
      proof (intro allI impI)
        fix i assume "i < length (b # bs)"
        then show "db_first_change_index ((b # bs) ! i) =
           word_of_nat (length (?pc @ concat (map db_changes (take i (b # bs)))))"
          using *(7) r1(1) b(4) counter by (cases i) (auto simp: add_ac)
      qed
      show ?thesis
        unfolding rep ok st2
        using b(1) * r1 idx by (simp add: add_ac)
    qed
  qed
qed

lemma numbered_contiguous: "numbered fs \<Longrightarrow> contiguous 0 fs"
  by (induction fs rule: rev_induct) (auto simp: numbered_snoc contiguous_append)

text \<open>
  C6. The live pipeline computes what offline replay does. For a reachable log whose \<open>replay_log\<close>
  succeeds, feeding its frames to a fresh decoder in chunks of any size succeeds, the batches together
  hold exactly the replay's changes, in-stream DDL and transaction count, the decoder's registry is
  the replay's, and each batch's \<open>first_change_index\<close> is the number of changes before it.
\<close>

theorem live_decode_equals_replay_log:
  assumes "log_reach crc (Live L, ms)" and "concat fss = log_frames crc (fl_dir L)"
    and "replay_log crc (fl_dir L) = Ok out"
  shows "\<exists>bs d. feed_all fss decoder_new = (Ok bs, d) \<and>
    concat (map db_changes bs) = rp_changes out \<and>
    concat (map db_ddl_events bs) = rp_ddl_events out \<and>
    sum_list (map db_txns bs) = rp_txns out \<and> sd_registry d = rp_registry out \<and>
    (\<forall>i < length bs. db_first_change_index (bs ! i) =
       word_of_nat (length (concat (map db_changes (take i bs)))))"
proof -
  from reach_live [OF assms(1)] obtain init lf j sp where inv: "log_inv crc L init lf j sp ms" .
  have "numbered (concat fss)"
    unfolding assms(2) log_frames_inv [OF inv] using invE(2) [OF inv] numbered_prefix [of "flat init @ lf" sp] by simp
  then have cont: "contiguous (sd_next_seq decoder_new) (concat fss)"
    using numbered_contiguous by (simp add: decoder_new_def)
  from assms(3) verify_clean [OF inv_clean [OF inv]] obtain n live txn where
    rep: "replay_frames (concat fss) (init_replay n) = Ok (out, live, txn)"
    unfolding assms(2) by (auto simp: replay_log_def verify_log_def res_bind_Ok_iff)
  obtain rout0 where i: "init_replay n = (rout0, [], None)" and r0: "rp_changes rout0 = []" "rp_ddl_events rout0 = []"
    "rp_txns rout0 = 0" "rp_registry rout0 = []"
    by (simp add: init_replay_def)
  have "simulates (rp_changes rout0) (rp_ddl_events rout0) (rp_txns rout0) (init_batch 0) decoder_new (rout0, [], None)"
    using r0 by (simp add: simulates_def decoder_new_def init_batch_def)
  from feed_all_replay [OF this cont] rep i r0 show ?thesis by auto
qed

lemma demo_log_frames:
  "log_frames (\<lambda>_. 0) (fl_dir demo_log) = [new_frame 0 5 9 True [1, 2]]"
  using scan_encode_append [of "new_frame 0 5 9 True [1, 2]" "\<lambda>_. 0" "[]"]
  by (simp add: demo_log_def run_op_defs Let_def dir_update_def file_append_def file_sync_def empty_file_def fits_def)

section \<open>A concrete transaction\<close>

definition demo_relation :: relation_desc where
  "demo_relation = \<lparr>rd_relid = 42, rd_namespace = str ''app'', rd_name = str ''t'', rd_replident = 100,
     rd_columns = [\<lparr>cd_name = str ''id'', cd_type_oid = 23, cd_typmod = 0, cd_is_key = True\<rparr>,
                   \<lparr>cd_name = str ''t'', cd_type_oid = 25, cd_typmod = 0, cd_is_key = False\<rparr>]\<rparr>"

text \<open>A transaction committed at 7: an update that keeps the TOAST column of row 1.\<close>

definition demo_txn :: "message list" where
  "demo_txn = [MBegin 6 0 1, MRelation demo_relation, MUpdate 42 None [TText (str ''1''), TUnchangedToast],
     MCommit 0 6 7 0]"

definition demo_frames :: "bytes list \<Rightarrow> frame list" where
  "demo_frames ps = [new_frame 0 6 6 False (ps ! 0), new_frame 1 6 6 False (ps ! 1),
     new_frame 2 6 6 False (ps ! 2), new_frame 3 6 7 True (ps ! 3)]"

definition append_ok :: "frame \<Rightarrow> frame_log \<Rightarrow> frame_log" where
  "append_ok f L =
     snd (run_op (\<lambda>_. 0) io_fine (OpAppend (fr_lsn_start f) (fr_lsn_end f) (fr_txn_complete f) (fr_payload f)) L)"

lemma two_columns:
  "cstr_ok (cd_name a) \<Longrightarrow> cstr_ok (cd_name b) \<Longrightarrow>
    rd_many rd_column 2 (wire_column a @ wire_column b @ r) = (Ok [a, b], r)"
  by (simp add: numeral_2_eq_2 del: One_nat_def)

lemma demo_parse_rest:
  "list_all (\<lambda>m. parse_message (wire_message m @ rest) = Ok m) demo_txn"
  by (simp add: demo_txn_def demo_relation_def parse_message_def parse_tagged_def parse_begin_def parse_commit_def
      parse_relation_def parse_update_def tuple_ok_def utf8_ok_ascii cstr_ok_def two_columns)

lemma demo_parse: "m \<in> set demo_txn \<Longrightarrow> parse_message (wire_message m) = Ok m"
  using demo_parse_rest [of "[]"] by (simp add: list_all_iff)


lemma demo_lengths: "map (length \<circ> wire_message) demo_txn = [21, 37, 15, 26]"
  by (simp add: demo_txn_def demo_relation_def wire_tuple_def wire_column_def wire_cstr_def)

definition follow_log :: "bytes list \<Rightarrow> frame_log" where
  "follow_log ps = fold append_ok (demo_frames ps) (log_create 1000)"

lemma list_of_four: "map length ps = [21, 37, 15, 26] \<Longrightarrow>
  \<exists>p0 p1 p2 p3. ps = [p0, p1, p2, p3] \<and> length p0 = 21 \<and> length p1 = 37 \<and> length p2 = 15 \<and> length p3 = 26"
  by (auto simp: map_eq_Cons_conv)

lemma follow_log_data:
  assumes "map length ps = [21, 37, 15, 26]"
  shows "\<exists>k F. fl_dir (follow_log ps) = [(k, F)] \<and> f_data F = encode_all (\<lambda>_. 0) (demo_frames ps)"
proof -
  from list_of_four [OF assms] obtain p0 p1 p2 p3 where ps: "ps = [p0, p1, p2, p3]"
    "length p0 = 21" "length p1 = 37" "length p2 = 15" "length p3 = 26" by blast
  show ?thesis
    unfolding ps(1)
    by (simp add: ps follow_log_def demo_frames_def append_ok_def run_op_defs Let_def dir_update_def file_append_def
        file_sync_def empty_file_def)
qed

definition follow_change :: typed_change where
  "follow_change = \<lparr>tc_commit_lsn = 7, tc_xid = 1, tc_table = str ''app.t'', tc_op = OUpdate,
     tc_new = Some [(str ''id'', TText (str ''1'')), (str ''t'', TUnchangedToast)], tc_old = None\<rparr>"

lemma follow_parse:
  assumes "ps = map wire_message demo_txn" "i < 4"
  shows "parse_frame (new_frame n a b c (ps ! i)) = Ok (demo_txn ! i)"
proof -
  have "length demo_txn = 4" by (simp add: demo_txn_def)
  then show ?thesis using demo_parse [of "demo_txn ! i"] assms by (simp add: parse_frame_def)
qed

lemmas follow_simps = demo_frames_def demo_txn_def demo_relation_def push_change_def open_txn_def commit_changes_def
  follow_change_def name_tuple_def qualified_name_def

lemma txn_feed:
  assumes "ps = map wire_message demo_txn"
  shows "\<exists>out d. feed (demo_frames ps) decoder_new = (Ok out, d) \<and> db_changes out = [follow_change]"
  by (simp add: feed_def init_batch_def decoder_new_def follow_parse [OF assms] follow_simps)

lemma follow_frames:
  assumes "map length ps = [21, 37, 15, 26]"
  shows "log_frames (\<lambda>_. 0) (fl_dir (follow_log ps)) = demo_frames ps"
proof -
  have fits: "\<forall>f \<in> set (demo_frames ps). fits f"
    using list_of_four [OF assms] by (auto simp: demo_frames_def fits_def)
  from follow_log_data [OF assms] show ?thesis by (auto simp: scan_encode_all [OF fits])
qed

lemma txn_replay:
  assumes "map length ps = [21, 37, 15, 26]" "ps = map wire_message demo_txn"
  shows "\<exists>out. replay_log (\<lambda>_. 0) (fl_dir (follow_log ps)) = Ok out \<and> rp_changes out = [follow_change]"
proof -
  have fits: "\<forall>f \<in> set (demo_frames ps). fits f"
    using list_of_four [OF assms(1)] by (auto simp: demo_frames_def fits_def)
  from follow_log_data [OF assms(1)] obtain k F where F: "fl_dir (follow_log ps) = [(k, F)]"
    "f_data F = encode_all (\<lambda>_. 0) (demo_frames ps)" by blast
  note pf = follow_parse [OF assms(2)]
  have "verify_log (\<lambda>_. 0) False (fl_dir (follow_log ps)) =
     Ok (fst (fold verify_frame (demo_frames ps) (init_verification, None, 0)), demo_frames ps)"
    by (simp add: verify_log_def F scan_encode_all [OF fits] sized_def o_def Let_def)
  then show ?thesis
    by (simp add: replay_log_def init_verification_def pf init_replay_def follow_simps)
qed

lemma follow_reach:
  assumes "map length ps = [21, 37, 15, 26]"
  shows "\<exists>ms. log_reach (\<lambda>_. 0) (Live (follow_log ps), ms)"
proof -
  from list_of_four [OF assms] obtain q0 q1 q2 q3 where ps: "ps = [q0, q1, q2, q3]"
    "length q0 = 21" "length q1 = 37" "length q2 = 15" "length q3 = 26" by blast
  have step: "\<exists>ms. log_reach (\<lambda>_. 0) (Live (append_ok f L), ms)"
    if "\<exists>ms. log_reach (\<lambda>_. 0) (Live L, ms)"
      "fst (run_op (\<lambda>_. 0) io_fine (OpAppend (fr_lsn_start f) (fr_lsn_end f) (fr_txn_complete f) (fr_payload f)) L) = Ok ()"
      "op_fits (OpAppend (fr_lsn_start f) (fr_lsn_end f) (fr_txn_complete f) (fr_payload f)) L" for f L
  proof -
    note h = that
    let ?p = "OpAppend (fr_lsn_start f) (fr_lsn_end f) (fr_txn_complete f) (fr_payload f)"
    obtain ms where ms: "log_reach (\<lambda>_. 0) (Live L, ms)" using h(1) by blast
    have "run_op (\<lambda>_. 0) io_fine ?p L = (Ok (), append_ok f L)" using h(2) by (simp add: append_ok_def prod_eq_iff)
    from reach_step [OF ms step_ok [OF this h(3)]] show ?thesis by blast
  qed
  have "\<exists>ms. log_reach (\<lambda>_. 0) (Live (log_create 1000), ms)" using reach_create by blast
  then show ?thesis
    unfolding ps(1) follow_log_def demo_frames_def
    apply simp
    apply (intro step)
    apply (simp_all add: ps append_ok_def run_op_defs Let_def dir_update_def file_append_def
        file_sync_def empty_file_def)
    done
qed

text \<open>The transaction of four frames, fed in two chunks that split it.\<close>

theorem live_decode_equals_replay_log_witness:
  "\<exists>out bs d. replay_log (\<lambda>_. 0) (fl_dir (follow_log (map wire_message demo_txn))) = Ok out \<and>
    feed_all [take 2 (demo_frames (map wire_message demo_txn)), drop 2 (demo_frames (map wire_message demo_txn))] decoder_new = (Ok bs, d) \<and>
    concat (map db_changes bs) = rp_changes out \<and> rp_changes out = [follow_change]"
proof -
  have len: "map length (map wire_message demo_txn) = [21, 37, 15, 26]" using demo_lengths by simp
  obtain ms where r: "log_reach (\<lambda>_. 0) (Live (follow_log (map wire_message demo_txn)), ms)" using follow_reach [OF len] by blast
  from txn_replay [OF len refl] obtain out where
    out: "replay_log (\<lambda>_. 0) (fl_dir (follow_log (map wire_message demo_txn))) = Ok out" "rp_changes out = [follow_change]" by blast
  have "concat [take 2 (demo_frames (map wire_message demo_txn)), drop 2 (demo_frames (map wire_message demo_txn))] =
      log_frames (\<lambda>_. 0) (fl_dir (follow_log (map wire_message demo_txn)))"
    unfolding follow_frames [OF len] by simp
  from live_decode_equals_replay_log [OF r this out(1)] out show ?thesis by blast
qed

section \<open>Aborting the open transaction\<close>

fun is_commit :: "message \<Rightarrow> bool" where
  "is_commit (MCommit _ _ _ _) = True"
| "is_commit _ = False"

text \<open>Inside a transaction, frames without a commit touch only the buffer, the live relations and the sequence.\<close>

definition same_core :: "stream_decoder \<Rightarrow> stream_decoder \<Rightarrow> bool" where
  "same_core d d' \<longleftrightarrow> sd_registry d' = sd_registry d \<and> sd_last_commit_seq d' = sd_last_commit_seq d \<and>
     sd_change_counter d' = sd_change_counter d \<and> (sd_started d \<longrightarrow> sd_started d')"

lemma same_core_trans: "same_core d d' \<Longrightarrow> same_core d' d'' \<Longrightarrow> same_core d d''"
  by (simp add: same_core_def)

lemma decode_uncommitted:
  assumes "decode_message q l msg out d = (Ok out1, d1)" "sd_txn d \<noteq> None" "\<not> is_commit msg"
  shows "out1 = out \<and> sd_txn d1 \<noteq> None \<and> same_core d d1"
proof (cases msg)
  case (MRelation rel)
  then show ?thesis using assms by (auto simp: Let_def same_core_def)
next
  case (MCommit f c e t)
  then show ?thesis using assms(3) by simp
qed (use assms in \<open>auto simp: st_bind_Ok_iff same_core_def\<close>)

lemma feed_loop_uncommitted:
  assumes "feed_loop fs out d = (Ok b, d')" "sd_txn d \<noteq> None"
    and "\<forall>f \<in> set fs. \<forall>m. parse_frame f = Ok m \<longrightarrow> \<not> is_commit m"
  shows "b = out \<and> same_core d d'"
  using assms
proof (induction fs arbitrary: out d)
  case Nil
  then show ?case by (simp add: same_core_def)
next
  case (Cons f fs)
  let ?d = "d\<lparr>sd_next_seq := fr_seq f + 1, sd_started := True\<rparr>"
  from Cons.prems(1) obtain msg out1 d1 where p: "parse_frame f = Ok msg"
    and dm: "decode_message (fr_seq f) (fr_lsn_end f) msg out ?d = (Ok out1, d1)"
    and rest: "feed_loop fs out1 d1 = (Ok b, d')"
    by (auto simp: st_bind_Ok_iff)
  have "out1 = out \<and> sd_txn d1 \<noteq> None \<and> same_core ?d d1"
    using decode_uncommitted [OF dm] Cons.prems(2,3) p by simp
  moreover have "same_core d ?d" by (simp add: same_core_def)
  ultimately show ?case using Cons.IH [OF rest] Cons.prems(3) same_core_trans by (metis list.set_intros(2))
qed

text \<open>
  A rewind loses nothing. After a commit, frames that open a transaction and do not commit it leave
  no trace once the decoder aborts: the batch is empty, and registry, change counter, expected sequence
  and commit position are those after the commit, so the redelivered frames are accepted again.
\<close>

theorem abort_undoes_open_txn:
  assumes "feed (f # fs) d = (Ok b, d')" and "parse_frame f = Ok (MBegin l t x)"
    and "\<forall>g \<in> set fs. \<forall>m. parse_frame g = Ok m \<longrightarrow> \<not> is_commit m"
    and "sd_started d" and "sd_txn d = None" and "sd_next_seq d = sd_last_commit_seq d + 1"
  shows "db_changes b = [] \<and> db_ddl_events b = [] \<and> db_txns b = 0 \<and>
    abort_open_txn d' = d\<lparr>sd_live_rel := sd_live_rel d'\<rparr>"
proof -
  let ?d = "d\<lparr>sd_next_seq := fr_seq f + 1, sd_started := True, sd_txn := Some (open_txn x)\<rparr>"
  have "feed_loop fs (init_batch (sd_change_counter d)) ?d = (Ok b, d')"
    using assms(1,2) by (auto simp: feed_def st_bind_Ok_iff)
  from feed_loop_uncommitted [OF this _ assms(3)] have
    b: "b = init_batch (sd_change_counter d)" and d': "same_core ?d d'" by simp_all
  have "abort_open_txn d' = d\<lparr>sd_live_rel := sd_live_rel d'\<rparr>"
    by (rule stream_decoder.equality)
      (use assms(4-6) d' in \<open>simp_all add: abort_open_txn_def same_core_def\<close>)
  then show ?thesis using b by (simp add: init_batch_def)
qed

definition demo_begin :: "u64 \<Rightarrow> frame" where
  "demo_begin n = new_frame n 1 2 False (wire_message (MBegin 1 2 3))"

lemma demo_begin_simps [simp]:
  "fr_seq (demo_begin n) = n" "fr_lsn_end (demo_begin n) = 2" "parse_frame (demo_begin n) = Ok (MBegin 1 2 3)"
  using rd_put(3) [of 3 "[]"]
  by (simp_all add: demo_begin_def parse_frame_def parse_message_def parse_tagged_def parse_begin_def)

theorem abort_undoes_open_txn_witness:
  "let d = decoder_new\<lparr>sd_started := True, sd_next_seq := 1\<rparr>; d' = snd (feed [demo_begin 1] d)
   in sd_txn d' \<noteq> None \<and> abort_open_txn d' = d\<lparr>sd_live_rel := sd_live_rel d'\<rparr>"
proof -
  let ?d = "decoder_new\<lparr>sd_started := True, sd_next_seq := 1\<rparr>"
  have f: "feed [demo_begin 1] ?d = (Ok (init_batch 0), ?d\<lparr>sd_next_seq := 2, sd_txn := Some (open_txn 3)\<rparr>)"
    by (simp add: feed_def decoder_new_def)
  have "sd_txn decoder_new = None" "sd_last_commit_seq decoder_new = 0" by (simp_all add: decoder_new_def)
  then show ?thesis using abort_undoes_open_txn [OF f, of 1 2 3] by (simp add: Let_def f)
qed

text \<open>
  A rewind before the first commit ends the decoder. \<open>started\<close> is set by any frame, so aborting with no
  commit seen makes the decoder expect sequence 1, while the log, resumed with no durable frame,
  starts again at 0: the redelivered first frame is rejected as a gap.
\<close>

theorem abort_before_first_commit_rejects:
  assumes "fr_seq f = 0" and "parse_frame f = Ok (MBegin l t x)"
  shows "\<exists>b d. feed [f] decoder_new = (Ok b, d) \<and>
    fst (feed (f # fs) (abort_open_txn d)) = Err (FrameGap 1 0)"
  using assms by (simp add: feed_def decoder_new_def abort_open_txn_def)

theorem abort_before_first_commit_rejects_witness:
  "\<exists>b d. feed [demo_begin 0] decoder_new = (Ok b, d) \<and>
    fst (feed [demo_begin 0] (abort_open_txn d)) = Err (FrameGap 1 0)"
  by (rule abort_before_first_commit_rejects) simp_all

end
