(* ===== verification/CopyText.thy ===== *)
theory CopyText
  imports Utf8
begin

text \<open>
  COPY text: the field parser of \<open>crates/graydb-columnar/src/copytext.rs\<close>, the line splitter of
  \<open>store.rs\<close>, and the encoding PostgreSQL documents for \<open>COPY TO\<close>, which the parser inverts.
\<close>

section \<open>The parser\<close>

abbreviation TAB :: byte where "TAB \<equiv> 9"
abbreviation LF :: byte where "LF \<equiv> 10"
abbreviation BACKSLASH :: byte where "BACKSLASH \<equiv> 92"

text \<open>\<open>slice::split\<close>: always at least one field.\<close>

fun split_at_byte :: "byte \<Rightarrow> bytes \<Rightarrow> bytes list" where
  "split_at_byte s [] = [[]]"
| "split_at_byte s (b # bs) =
     (if b = s then [] # split_at_byte s bs
      else (b # hd (split_at_byte s bs)) # tl (split_at_byte s bs))"

definition unescape_byte :: "byte \<Rightarrow> byte" where
  "unescape_byte c =
     (if c = of_char (CHR ''b'') then 0x08 else if c = of_char (CHR ''f'') then 0x0C
      else if c = of_char (CHR ''n'') then LF else if c = of_char (CHR ''r'') then 0x0D
      else if c = of_char (CHR ''t'') then TAB else if c = of_char (CHR ''v'') then 0x0B
      else if c = BACKSLASH then BACKSLASH else c)"

fun unescape_bytes :: "bytes \<Rightarrow> bytes" where
  "unescape_bytes [] = []"
| "unescape_bytes [b] = [b]"
| "unescape_bytes (b # c # bs) =
     (if b = BACKSLASH then unescape_byte c # unescape_bytes bs else b # unescape_bytes (c # bs))"

definition unescape_field :: "bytes \<Rightarrow> rstr option" where
  "unescape_field field =
     (if field = [BACKSLASH, of_char (CHR ''N'')] then None else Some (utf8_lossy (unescape_bytes field)))"

definition parse_copy_line :: "bytes \<Rightarrow> rstr option list" where
  "parse_copy_line line = map unescape_field (split_at_byte TAB line)"

text \<open>\<open>graydb_check_split\<close>: the lines, a last one without its newline included.\<close>

fun split_lines :: "bytes \<Rightarrow> bytes \<Rightarrow> bytes list" where
  "split_lines cur [] = (if cur = [] then [] else [cur])"
| "split_lines cur (b # bs) = (if b = LF then cur # split_lines [] bs else split_lines (cur @ [b]) bs)"

definition copy_lines :: "bytes \<Rightarrow> bytes list" where
  "copy_lines data = split_lines [] data"

section \<open>What COPY TO writes\<close>

definition escape_byte :: "byte \<Rightarrow> bytes" where
  "escape_byte b =
     (if b = 0x08 then [BACKSLASH, of_char (CHR ''b'')] else if b = 0x0C then [BACKSLASH, of_char (CHR ''f'')]
      else if b = LF then [BACKSLASH, of_char (CHR ''n'')] else if b = 0x0D then [BACKSLASH, of_char (CHR ''r'')]
      else if b = TAB then [BACKSLASH, of_char (CHR ''t'')] else if b = 0x0B then [BACKSLASH, of_char (CHR ''v'')]
      else if b = BACKSLASH then [BACKSLASH, BACKSLASH] else [b])"

definition copy_field :: "rstr option \<Rightarrow> bytes" where
  "copy_field v = (case v of None \<Rightarrow> [BACKSLASH, of_char (CHR ''N'')] | Some s \<Rightarrow> concat (map escape_byte s))"

fun copy_row :: "rstr option list \<Rightarrow> bytes" where
  "copy_row [] = []"
| "copy_row [v] = copy_field v"
| "copy_row (v # w # vs) = copy_field v @ TAB # copy_row (w # vs)"

definition copy_data :: "rstr option list list \<Rightarrow> bytes" where
  "copy_data rows = concat (map (\<lambda>r. copy_row r @ [LF]) rows)"

section \<open>Escapes the parser undoes\<close>

text \<open>
  What makes a byte-wise escape safe for COPY text: a byte stays itself, when it is no separator, or becomes
  a backslash and a letter that stands for it. PostgreSQL's escape is one, the benchmark's generator
  has another.
\<close>

locale copy_escape =
  fixes esc :: "byte \<Rightarrow> bytes"
  assumes esc_byte: "(esc b = [b] \<and> b \<noteq> BACKSLASH \<and> b \<noteq> TAB \<and> b \<noteq> LF) \<or>
    (\<exists>c. esc b = [BACKSLASH, c] \<and> unescape_byte c = b \<and> c \<noteq> of_char (CHR ''N'') \<and> c \<noteq> TAB \<and> c \<noteq> LF)"
begin

lemma esc_cases:
  obtains "esc b = [b]" "b \<noteq> BACKSLASH" "b \<noteq> TAB" "b \<noteq> LF"
  | c where "esc b = [BACKSLASH, c]" "unescape_byte c = b" "c \<noteq> of_char (CHR ''N'')" "c \<noteq> TAB" "c \<noteq> LF"
  using esc_byte by blast

lemma unescape_plain: "b \<noteq> BACKSLASH \<Longrightarrow> unescape_bytes (b # bs) = b # unescape_bytes bs"
  by (cases bs) auto

lemma unescape_escape: "unescape_bytes (concat (map esc s)) = s"
proof (induction s)
  case (Cons b s)
  show ?case
    by (cases rule: esc_cases [of b]) (simp_all add: Cons unescape_plain)
qed simp

lemma escape_no_sep: "b \<in> set (concat (map esc s)) \<Longrightarrow> b \<noteq> TAB \<and> b \<noteq> LF"
proof (induction s)
  case (Cons a s)
  then show ?case by (cases rule: esc_cases [of a]) auto
qed simp

lemma escape_not_null: "concat (map esc s) \<noteq> [BACKSLASH, of_char (CHR ''N'')]"
proof (cases s)
  case (Cons b t)
  show ?thesis by (cases rule: esc_cases [of b]) (auto simp: Cons)
qed simp

lemma field_back: "utf8_ok s \<Longrightarrow> unescape_field (concat (map esc s)) = Some s"
  using escape_not_null by (simp add: unescape_field_def unescape_escape)

end

interpretation copy_to: copy_escape escape_byte
  by unfold_locales (simp add: escape_byte_def unescape_byte_def)

lemma field_no_sep: "b \<in> set (copy_field v) \<Longrightarrow> b \<noteq> TAB \<and> b \<noteq> LF"
  using copy_to.escape_no_sep by (cases v) (auto simp: copy_field_def)

lemma unescape_copy_field: "(\<forall>s. v = Some s \<longrightarrow> utf8_ok s) \<Longrightarrow> unescape_field (copy_field v) = v"
  using copy_to.field_back by (cases v) (auto simp: copy_field_def unescape_field_def)

lemma split_none: "s \<notin> set xs \<Longrightarrow> split_at_byte s xs = [xs]"
  by (induction xs) auto

lemma split_sep: "s \<notin> set xs \<Longrightarrow> split_at_byte s (xs @ s # ys) = xs # split_at_byte s ys"
  by (induction xs) auto

text \<open>Fields joined by tabs.\<close>

fun tab_join :: "bytes list \<Rightarrow> bytes" where
  "tab_join [] = []"
| "tab_join [f] = f"
| "tab_join (f # g # fs) = f @ TAB # tab_join (g # fs)"

lemma parse_tab_join:
  "fs \<noteq> [] \<Longrightarrow> \<forall>f \<in> set fs. TAB \<notin> set f \<Longrightarrow> parse_copy_line (tab_join fs) = map unescape_field fs"
  by (induction fs rule: tab_join.induct) (simp_all add: parse_copy_line_def split_none split_sep)

lemma tab_join_no_lf: "\<forall>f \<in> set fs. LF \<notin> set f \<Longrightarrow> LF \<notin> set (tab_join fs)"
  by (induction fs rule: tab_join.induct) auto

lemma copy_row_join: "copy_row r = tab_join (map copy_field r)"
  by (induction r rule: copy_row.induct) simp_all

definition row_ok :: "rstr option list \<Rightarrow> bool" where
  "row_ok r \<longleftrightarrow> r \<noteq> [] \<and> (\<forall>v \<in> set r. \<forall>s. v = Some s \<longrightarrow> utf8_ok s)"

lemma parse_copy_row: "row_ok r \<Longrightarrow> parse_copy_line (copy_row r) = r"
proof -
  assume r: "row_ok r"
  then have "parse_copy_line (tab_join (map copy_field r)) = map unescape_field (map copy_field r)"
    using field_no_sep by (intro parse_tab_join) (auto simp: row_ok_def)
  moreover have "map (\<lambda>v. unescape_field (copy_field v)) r = r"
    using r by (intro map_idI unescape_copy_field) (auto simp: row_ok_def)
  ultimately show ?thesis by (simp add: copy_row_join comp_def)
qed

lemma row_no_lf: "LF \<notin> set (copy_row r)"
  using tab_join_no_lf [of "map copy_field r"] field_no_sep by (auto simp: copy_row_join)

lemma split_lines_line: "LF \<notin> set xs \<Longrightarrow> split_lines cur (xs @ LF # ys) = (cur @ xs) # split_lines [] ys"
  by (induction xs arbitrary: cur) auto

lemma copy_lines_data: "copy_lines (copy_data rows) = map copy_row rows"
  by (induction rows) (auto simp: copy_data_def copy_lines_def split_lines_line row_no_lf)

text \<open>
  Backfill rows survive COPY. Splitting what \<open>COPY TO\<close> writes for any rows into lines and parsing
  each line gives back those rows: NULLs, empty strings and values holding tabs, newlines or
  backslashes included.
\<close>

theorem copy_roundtrip:
  assumes "\<forall>r \<in> set rows. row_ok r"
  shows "map parse_copy_line (copy_lines (copy_data rows)) = rows"
  using assms by (simp add: copy_lines_data parse_copy_row map_idI)

theorem copy_roundtrip_witness:
  "map parse_copy_line (copy_lines (copy_data [[Some [9, 92], None, Some []]])) = [[Some [9, 92], None, Some []]]"
  by (rule copy_roundtrip) (simp add: row_ok_def utf8_ok_ascii)

end
