(* ===== verification/Numerals.thy ===== *)
theory Numerals
  imports Prelude
begin

text \<open>
  Decimal and hexadecimal text of integers, and trimming: \<open>str::parse\<close>, \<open>trim\<close>, \<open>from_str_radix\<close> and the \<open>Display\<close> and
  \<open>UpperHex\<close> formatters of the Rust standard library, as far as the sources use them.
\<close>

definition digit_of :: "nat \<Rightarrow> byte" where
  "digit_of n = (if n < 10 then word_of_nat (48 + n) else word_of_nat (55 + n))"

definition digit_val :: "nat \<Rightarrow> byte \<Rightarrow> nat option" where
  "digit_val radix b =
     (let c = unat b;
          v = (if 48 \<le> c \<and> c \<le> 57 then Some (c - 48)
               else if 65 \<le> c \<and> c \<le> 90 then Some (c - 55)
               else if 97 \<le> c \<and> c \<le> 122 then Some (c - 87) else None)
      in case v of None \<Rightarrow> None | Some d \<Rightarrow> if d < radix then Some d else None)"

fun parse_digits :: "nat \<Rightarrow> nat \<Rightarrow> bytes \<Rightarrow> nat option" where
  "parse_digits radix acc [] = Some acc"
| "parse_digits radix acc (b # bs) =
     (case digit_val radix b of None \<Rightarrow> None | Some d \<Rightarrow> parse_digits radix (acc * radix + d) bs)"

function show_nat :: "nat \<Rightarrow> nat \<Rightarrow> bytes" where
  "show_nat radix n =
     (if n < radix \<or> radix < 2 then [digit_of n]
      else show_nat radix (n div radix) @ [digit_of (n mod radix)])"
  by pat_completeness auto
termination
  by (relation "measure snd") (auto simp: div_less_dividend)

declare show_nat.simps [simp del]

text \<open>Unsigned: a \<open>+\<close> is accepted, no digits or an overflow is an error.\<close>

definition parse_unsigned :: "nat \<Rightarrow> nat \<Rightarrow> bytes \<Rightarrow> nat option" where
  "parse_unsigned radix bound s =
     (let ds = (case s of b # r \<Rightarrow> if b = 43 then r else s | [] \<Rightarrow> [])
      in if ds = [] then None
         else case parse_digits radix 0 ds of None \<Rightarrow> None | Some n \<Rightarrow> if n < bound then Some n else None)"

definition parse_i64 :: "bytes \<Rightarrow> int option" where
  "parse_i64 s =
     (case s of
        [] \<Rightarrow> None
      | b # r \<Rightarrow>
          let (neg, ds) = (if b = 45 then (True, r) else if b = 43 then (False, r) else (False, s))
          in if ds = [] then None
             else case parse_digits 10 0 ds of
                    None \<Rightarrow> None
                  | Some n \<Rightarrow>
                      if neg then (if n \<le> 2 ^ 63 then Some (- int n) else None)
                      else (if n < 2 ^ 63 then Some (int n) else None))"

definition show_int :: "int \<Rightarrow> bytes" where
  "show_int i = (if i < 0 then 45 # show_nat 10 (nat (- i)) else show_nat 10 (nat i))"

lemma unat_digit_of: "n < 16 \<Longrightarrow> unat (digit_of n) = (if n < 10 then 48 + n else 55 + n)"
  by (simp add: digit_of_def unat_of_nat del: of_nat_add)

lemma digit_roundtrip: "radix \<le> 16 \<Longrightarrow> n < radix \<Longrightarrow> digit_val radix (digit_of n) = Some n"
  by (simp add: digit_val_def Let_def unat_digit_of)

lemma parse_digits_append:
  "parse_digits radix acc (xs @ ys) = Option.bind (parse_digits radix acc xs) (\<lambda>a. parse_digits radix a ys)"
  by (induction xs arbitrary: acc) (auto split: option.splits)

lemma parse_show_nat: "2 \<le> radix \<Longrightarrow> radix \<le> 16 \<Longrightarrow> parse_digits radix 0 (show_nat radix n) = Some n"
proof (induction radix n rule: show_nat.induct)
  case (1 radix n)
  show ?case
  proof (cases "n < radix")
    case True
    then show ?thesis using 1(3) by (simp add: show_nat.simps [of radix n] digit_roundtrip)
  next
    case False
    then show ?thesis
      using 1 by (subst show_nat.simps) (simp add: parse_digits_append digit_roundtrip)
  qed
qed

lemma show_nat_not_Nil [simp]: "show_nat radix n \<noteq> []"
  by (subst show_nat.simps) simp

lemma digit_of_range: "n < 16 \<Longrightarrow> 48 \<le> digit_of n \<and> digit_of n \<le> 70"
  using unat_digit_of [of n] by (simp add: word_le_nat_alt)

lemma show_nat_digits: "2 \<le> radix \<Longrightarrow> radix \<le> 16 \<Longrightarrow> \<forall>b \<in> set (show_nat radix n). 48 \<le> b \<and> b \<le> 70"
proof (induction radix n rule: show_nat.induct)
  case (1 radix n)
  show ?case
  proof (cases "n < radix")
    case True
    then show ?thesis using 1(3) digit_of_range [of n] by (simp add: show_nat.simps [of radix n])
  next
    case False
    then show ?thesis
      using 1 digit_of_range [of "n mod radix"] mod_less_divisor [of radix n]
      by (subst show_nat.simps) (auto simp del: mod_less_divisor)
  qed
qed

lemma show_nat_head: "2 \<le> radix \<Longrightarrow> radix \<le> 16 \<Longrightarrow> show_nat radix n = b # r \<Longrightarrow> b \<noteq> 43 \<and> b \<noteq> 45"
  using show_nat_digits [of radix n] by (auto simp: word_le_nat_alt)

lemma parse_unsigned_show:
  "2 \<le> radix \<Longrightarrow> radix \<le> 16 \<Longrightarrow> n < bound \<Longrightarrow> parse_unsigned radix bound (show_nat radix n) = Some n"
  using show_nat_head [of radix n] parse_show_nat [of radix n]
  by (auto simp: parse_unsigned_def Let_def split: list.splits)

lemma parse_i64_show: "- (2 ^ 63) \<le> i \<Longrightarrow> i < 2 ^ 63 \<Longrightarrow> parse_i64 (show_int i) = Some i"
proof (cases "i < 0")
  case True
  assume "- (2 ^ 63) \<le> i"
  then have "nat (- i) \<le> 2 ^ 63" by simp
  then show ?thesis using True parse_show_nat [of 10 "nat (- i)"] by (simp add: show_int_def parse_i64_def)
next
  case False
  assume "i < 2 ^ 63"
  then have n: "nat i < 2 ^ 63" using False by simp
  obtain b r where s: "show_nat 10 (nat i) = b # r" using show_nat_not_Nil by (meson list.exhaust)
  then have "b \<noteq> 43 \<and> b \<noteq> 45" using show_nat_head [of 10] by simp
  then show ?thesis using False n parse_show_nat [of 10 "nat i"] s by (simp add: show_int_def parse_i64_def)
qed

text \<open>Lowercase hexadecimal of bytes, two digits each (\<open>{byte:02x}\<close>).\<close>

definition hex_digit :: "nat \<Rightarrow> byte" where
  "hex_digit n = (if n < 10 then word_of_nat (48 + n) else word_of_nat (87 + n))"

definition encode_hex :: "bytes \<Rightarrow> rstr" where
  "encode_hex bs = concat (map (\<lambda>b. [hex_digit (unat b div 16), hex_digit (unat b mod 16)]) bs)"

lemma encode_hex_Nil [simp]: "encode_hex bs = [] \<longleftrightarrow> bs = []"
  by (cases bs) (simp_all add: encode_hex_def)

section \<open>Trimming\<close>

text \<open>\<open>str::trim\<close>: the white space characters of Unicode in UTF-8.\<close>

definition white_space :: "bytes list" where
  "white_space =
     [[9], [10], [11], [12], [13], [32], [0xC2, 0x85], [0xC2, 0xA0], [0xE1, 0x9A, 0x80]] @
     map (\<lambda>i. [0xE2, 0x80, word_of_nat i]) [0x80..<0x8B] @
     [[0xE2, 0x80, 0xA8], [0xE2, 0x80, 0xA9], [0xE2, 0x80, 0xAF], [0xE2, 0x81, 0x9F], [0xE3, 0x80, 0x80]]"

function strip_all :: "bytes list \<Rightarrow> bytes \<Rightarrow> bytes" where
  "strip_all ws s =
     (case find (\<lambda>w. w \<noteq> [] \<and> take (length w) s = w) ws of
        None \<Rightarrow> s
      | Some w \<Rightarrow> strip_all ws (drop (length w) s))"
  by pat_completeness auto
termination
proof (relation "measure (\<lambda>(_, s). length s)")
  fix ws s w assume "find (\<lambda>w. w \<noteq> [] \<and> take (length w) s = w) ws = Some w"
  then have "w \<noteq> []" "take (length w) s = w" by (auto simp: find_Some_iff)
  then show "((ws, drop (length w) s), (ws, s)) \<in> measure (\<lambda>(_, s). length s)"
    by (cases s; cases w) auto
qed auto

declare strip_all.simps [simp del]

definition strip_end :: "bytes list \<Rightarrow> bytes \<Rightarrow> bytes" where
  "strip_end ws s = rev (strip_all (map rev ws) (rev s))"

definition trim_text :: "rstr \<Rightarrow> rstr" where
  "trim_text s = strip_end white_space (strip_all white_space s)"

lemma strip_none: "find (\<lambda>w. w \<noteq> [] \<and> take (length w) s = w) ws = None \<Longrightarrow> strip_all ws s = s"
  by (subst strip_all.simps) simp

lemma trim_none:
  assumes "find (\<lambda>w. w \<noteq> [] \<and> take (length w) s = w) white_space = None"
    and "find (\<lambda>w. w \<noteq> [] \<and> take (length w) (rev s) = w) (map rev white_space) = None"
  shows "trim_text s = s"
  by (simp add: trim_text_def strip_end_def strip_none [OF assms(1)] strip_none [OF assms(2)])

end
