(* ===== verification/Columnar.thy ===== *)
theory Columnar
  imports CopyText Numerals Registry
begin

text \<open>
  The columnar table store, \<open>TableStore\<close> of \<open>crates/graydb-columnar/src/store.rs\<close>: flushed segments with
  their delete sidecars, the open rows, and the key index. A parquet file is its columns of typed cells
  and the \<open>__gdb_lsn\<close> column; parsing and printing of \<open>f64\<close> is the parameter \<open>ff\<close>. The write of a
  segment file may fail (\<open>disk_ok\<close>). Indexes and segment numbers are naturals; the sentinel
  \<open>OPEN_SEGMENT\<close> is \<open>None\<close>.
\<close>

section \<open>Values\<close>

type_synonym row = "rstr option list"

record column_spec =
  cs_name :: rstr
  cs_type_oid :: u32
  cs_is_key :: bool

datatype data_type = DBoolean | DInt64 | DFloat64 | DUtf8

definition arrow_type :: "u32 \<Rightarrow> data_type" where
  "arrow_type oid =
     (if oid = 16 then DBoolean
      else if oid = 20 \<or> oid = 21 \<or> oid = 23 \<or> oid = 26 then DInt64
      else if oid = 700 \<or> oid = 701 then DFloat64
      else DUtf8)"

datatype cell = CInt int | CFloat u64 | CBool bool | CStr rstr

record float_fmt =
  ff_parse :: "rstr \<Rightarrow> u64 option"
  ff_print :: "u64 \<Rightarrow> rstr"

datatype store_error =
    NoColumns
  | CopyArity nat nat
  | ChangeArity nat nat
  | ColumnName nat
  | ToastWithoutPrior
  | BinaryValue
  | KeylessStore change_op
  | NoImage change_op
  | UnknownKey change_op
  | CellParse rstr rstr
  | SegmentIo
  | StorePanic

section \<open>State\<close>

record open_row =
  or_values :: row
  or_insert :: u64
  or_delete :: "u64 option"

record seg_meta =
  sm_id :: nat
  sm_rows :: nat
  sm_lsn_min :: u64
  sm_lsn_max :: u64

record seg_batch =
  sb_columns :: "cell option list list"
  sb_lsns :: "u64 list"

record loc =
  loc_seg :: "nat option"
  loc_row :: nat

record table_store =
  ts_columns :: "column_spec list"
  ts_key_idx :: "nat list"
  ts_flush_rows :: nat
  ts_open :: "open_row list"
  ts_segments :: "seg_meta list"
  ts_files :: "(nat \<times> seg_batch) list"
  ts_sidecars :: "(nat \<times> (nat \<times> u64) list) list"
  ts_index :: "(bytes \<times> loc) list"
  ts_applied :: u64
  ts_cache :: "(nat \<times> row list) option"
  ts_live :: u64

definition key_columns :: "column_spec list \<Rightarrow> nat list" where
  "key_columns cols = map fst (filter (\<lambda>(i, c). cs_is_key c) (enumerate 0 cols))"

definition store_create :: "column_spec list \<Rightarrow> nat \<Rightarrow> store_error + table_store" where
  "store_create columns flush_rows =
     res_bind (ensure (columns \<noteq> []) NoColumns) (\<lambda>_.
     Ok \<lparr>ts_columns = columns, ts_key_idx = key_columns columns, ts_flush_rows = flush_rows,
         ts_open = [], ts_segments = [], ts_files = [], ts_sidecars = [], ts_index = [],
         ts_applied = 0, ts_cache = None, ts_live = 0\<rparr>)"

definition has_key :: "table_store \<Rightarrow> bool" where
  "has_key s \<longleftrightarrow> ts_key_idx s \<noteq> []"

definition visible_rows :: "table_store \<Rightarrow> u64" where
  "visible_rows s = ts_live s"

text \<open>The hash map of the index: insertion replaces.\<close>

definition idx_put :: "'k \<Rightarrow> 'v \<Rightarrow> ('k \<times> 'v) list \<Rightarrow> ('k \<times> 'v) list" where
  "idx_put k v m = (k, v) # filter (\<lambda>(k', _). k' \<noteq> k) m"

definition idx_remove :: "'k \<Rightarrow> ('k \<times> 'v) list \<Rightarrow> ('k \<times> 'v) list" where
  "idx_remove k m = filter (\<lambda>(k', _). k' \<noteq> k) m"

definition key_bytes :: "nat list \<Rightarrow> row \<Rightarrow> bytes" where
  "key_bytes idxs values =
     concat (map (\<lambda>i. (case values ! i of Some s \<Rightarrow> 1 # s | None \<Rightarrow> [0]) @ [0x1F]) idxs)"

definition key_of :: "table_store \<Rightarrow> row \<Rightarrow> bytes" where
  "key_of s values = key_bytes (ts_key_idx s) values"

section \<open>Typed segments\<close>

definition build_cell :: "float_fmt \<Rightarrow> rstr \<Rightarrow> data_type \<Rightarrow> rstr \<Rightarrow> store_error + cell" where
  "build_cell ff name dt v =
     (case dt of
        DInt64 \<Rightarrow> (case parse_i64 v of Some i \<Rightarrow> Ok (CInt i) | None \<Rightarrow> Err (CellParse name v))
      | DFloat64 \<Rightarrow> (case ff_parse ff v of Some f \<Rightarrow> Ok (CFloat f) | None \<Rightarrow> Err (CellParse name v))
      | DBoolean \<Rightarrow>
          (if v = str ''t'' \<or> v = str ''true'' then Ok (CBool True)
           else if v = str ''f'' \<or> v = str ''false'' then Ok (CBool False)
           else Err (CellParse name v))
      | DUtf8 \<Rightarrow> Ok (CStr v))"

fun build_array :: "float_fmt \<Rightarrow> rstr \<Rightarrow> data_type \<Rightarrow> open_row list \<Rightarrow> nat \<Rightarrow> store_error + cell option list" where
  "build_array ff name dt [] col = Ok []"
| "build_array ff name dt (r # rows) col =
     res_bind (case or_values r ! col of
                 None \<Rightarrow> Ok None
               | Some v \<Rightarrow> res_bind (build_cell ff name dt v) (\<lambda>c. Ok (Some c))) (\<lambda>c.
     res_bind (build_array ff name dt rows col) (\<lambda>cs. Ok (c # cs)))"

fun build_columns ::
    "float_fmt \<Rightarrow> nat \<Rightarrow> column_spec list \<Rightarrow> open_row list \<Rightarrow> store_error + cell option list list" where
  "build_columns ff i [] rows = Ok []"
| "build_columns ff i (c # cols) rows =
     res_bind (build_array ff (cs_name c) (arrow_type (cs_type_oid c)) rows i) (\<lambda>a.
     res_bind (build_columns ff (Suc i) cols rows) (\<lambda>as. Ok (a # as)))"

definition build_batch :: "float_fmt \<Rightarrow> column_spec list \<Rightarrow> open_row list \<Rightarrow> store_error + seg_batch" where
  "build_batch ff cols rows =
     res_bind (build_columns ff 0 cols rows) (\<lambda>arrays.
     Ok \<lparr>sb_columns = arrays, sb_lsns = map or_insert rows\<rparr>)"

definition open_rows_batch :: "float_fmt \<Rightarrow> u64 \<Rightarrow> table_store \<Rightarrow> store_error + seg_batch option" where
  "open_rows_batch ff lsn s =
     (let visible = filter (\<lambda>r. or_insert r \<le> lsn \<and> \<not> (\<exists>d. or_delete r = Some d \<and> d \<le> lsn)) (ts_open s)
      in if visible = [] then Ok None
         else res_bind (build_batch ff (ts_columns s) visible) (\<lambda>b. Ok (Some b)))"

definition render_cell :: "float_fmt \<Rightarrow> cell \<Rightarrow> rstr" where
  "render_cell ff c =
     (case c of
        CInt i \<Rightarrow> show_int i
      | CFloat f \<Rightarrow> ff_print ff f
      | CBool b \<Rightarrow> (if b then str ''t'' else str ''f'')
      | CStr s \<Rightarrow> s)"

definition render_row :: "float_fmt \<Rightarrow> seg_batch \<Rightarrow> nat \<Rightarrow> row" where
  "render_row ff b r = map (\<lambda>col. map_option (render_cell ff) (col ! r)) (sb_columns b)"

definition rendered_rows :: "float_fmt \<Rightarrow> (nat \<Rightarrow> bool) \<Rightarrow> u64 \<Rightarrow> seg_batch \<Rightarrow> row list" where
  "rendered_rows ff deleted max_lsn b =
     map (render_row ff b)
       (filter (\<lambda>r. \<not> deleted r \<and> sb_lsns b ! r \<le> max_lsn) [0..<length (sb_lsns b)])"

definition read_segment_rows :: "float_fmt \<Rightarrow> nat \<Rightarrow> table_store \<Rightarrow> store_error + row list" where
  "read_segment_rows ff sid s =
     res_bind (need (map_of (ts_files s) sid) SegmentIo) (\<lambda>b.
     Ok (rendered_rows ff (\<lambda>_. False) (- 1) b))"

section \<open>Rows\<close>

definition insert_row :: "row \<Rightarrow> u64 \<Rightarrow> table_store \<Rightarrow> table_store" where
  "insert_row values lsn s =
     (let s = (if has_key s
               then s\<lparr>ts_index := idx_put (key_of s values) \<lparr>loc_seg = None, loc_row = length (ts_open s)\<rparr> (ts_index s)\<rparr>
               else s)
      in s\<lparr>ts_open := ts_open s @ [\<lparr>or_values = values, or_insert = lsn, or_delete = None\<rparr>],
           ts_live := ts_live s + 1\<rparr>)"

definition mark_deleted :: "loc \<Rightarrow> u64 \<Rightarrow> table_store \<Rightarrow> table_store" where
  "mark_deleted l lsn s =
     (let s = s\<lparr>ts_live := (if ts_live s = 0 then 0 else ts_live s - 1)\<rparr>
      in case loc_seg l of
           None \<Rightarrow> s\<lparr>ts_open := (ts_open s)[loc_row l := (ts_open s ! loc_row l)\<lparr>or_delete := Some lsn\<rparr>]\<rparr>
         | Some sid \<Rightarrow>
             s\<lparr>ts_sidecars := bt_insert sid
                 ((case map_of (ts_sidecars s) sid of None \<Rightarrow> [] | Some ds \<Rightarrow> ds) @ [(loc_row l, lsn)])
                 (ts_sidecars s)\<rparr>)"

text \<open>
  Indexing the open rows panics out of bounds; only a location left behind by a failed flush is.
\<close>

definition loc_in :: "table_store \<Rightarrow> loc \<Rightarrow> bool" where
  "loc_in s l \<longleftrightarrow> (case loc_seg l of None \<Rightarrow> loc_row l < length (ts_open s) | Some _ \<Rightarrow> True)"

fun load_lines :: "bytes list \<Rightarrow> u64 \<Rightarrow> u64 \<Rightarrow> table_store \<Rightarrow> (store_error + u64) \<times> table_store" where
  "load_lines [] lsn0 n s = (Ok n, s)"
| "load_lines (line # lines) lsn0 n s =
     (let values = parse_copy_line line
      in if length values \<noteq> length (ts_columns s)
         then (Err (CopyArity (length values) (length (ts_columns s))), s)
         else load_lines lines lsn0 (n + 1) (insert_row values lsn0 s))"

definition load_copy_part :: "bytes \<Rightarrow> u64 \<Rightarrow> table_store \<Rightarrow> (store_error + u64) \<times> table_store" where
  "load_copy_part data lsn0 s =
     st_bind (load_lines (copy_lines data) lsn0 0 s) (\<lambda>n s. (Ok n, s\<lparr>ts_applied := max (ts_applied s) lsn0\<rparr>))"

definition fetch_value :: "float_fmt \<Rightarrow> loc \<Rightarrow> nat \<Rightarrow> table_store \<Rightarrow> (store_error + rstr option) \<times> table_store" where
  "fetch_value ff l col s =
     (case loc_seg l of
        None \<Rightarrow>
          (if loc_in s l then (Ok (or_values (ts_open s ! loc_row l) ! col), s) else (Err StorePanic, s))
      | Some sid \<Rightarrow>
          st_bind (case ts_cache s of
                     Some (cid, rows) \<Rightarrow>
                       if cid = sid then (Ok (), s)
                       else (case read_segment_rows ff sid s of
                               Inl e \<Rightarrow> (Err e, s) | Inr rows \<Rightarrow> (Ok (), s\<lparr>ts_cache := Some (sid, rows)\<rparr>))
                   | None \<Rightarrow>
                       (case read_segment_rows ff sid s of
                          Inl e \<Rightarrow> (Err e, s) | Inr rows \<Rightarrow> (Ok (), s\<lparr>ts_cache := Some (sid, rows)\<rparr>))) (\<lambda>_ s.
          (Ok (snd (the (ts_cache s)) ! loc_row l ! col), s)))"

fun tuple_values ::
    "float_fmt \<Rightarrow> nat \<Rightarrow> named_row \<Rightarrow> loc option \<Rightarrow> table_store \<Rightarrow> (store_error + row) \<times> table_store" where
  "tuple_values ff i [] prior s = (Ok [], s)"
| "tuple_values ff i ((name, value) # named) prior s =
     (if name \<noteq> cs_name (ts_columns s ! i) then (Err (ColumnName i), s)
      else
        st_bind (case value of
                   TText t \<Rightarrow> (Ok (Some t), s)
                 | TNull \<Rightarrow> (Ok None, s)
                 | TUnchangedToast \<Rightarrow>
                     (case prior of
                        None \<Rightarrow> (Err ToastWithoutPrior, s)
                      | Some l \<Rightarrow> fetch_value ff l i s)
                 | TBinary _ \<Rightarrow> (Err BinaryValue, s)) (\<lambda>v s.
        st_bind (tuple_values ff (Suc i) named prior s) (\<lambda>vs s. (Ok (v # vs), s))))"

definition tuple_to_values ::
    "float_fmt \<Rightarrow> named_row \<Rightarrow> loc option \<Rightarrow> table_store \<Rightarrow> (store_error + row) \<times> table_store" where
  "tuple_to_values ff named prior s =
     (if length named \<noteq> length (ts_columns s) then (Err (ChangeArity (length named) (length (ts_columns s))), s)
      else tuple_values ff 0 named prior s)"

definition image_values :: "named_row \<Rightarrow> row" where
  "image_values named = map (\<lambda>(_, v). case v of TText s \<Rightarrow> Some s | _ \<Rightarrow> None) named"

section \<open>Flush\<close>

definition min_lsn :: "u64 list \<Rightarrow> u64" where
  "min_lsn ls = (case ls of [] \<Rightarrow> 0 | l # r \<Rightarrow> foldl min l r)"

definition max_lsn :: "u64 list \<Rightarrow> u64" where
  "max_lsn ls = (case ls of [] \<Rightarrow> 0 | l # r \<Rightarrow> foldl max l r)"

fun open_deletes :: "nat \<Rightarrow> open_row list \<Rightarrow> (nat \<times> u64) list" where
  "open_deletes i [] = []"
| "open_deletes i (r # rows) =
     (case or_delete r of None \<Rightarrow> open_deletes (Suc i) rows | Some d \<Rightarrow> (i, d) # open_deletes (Suc i) rows)"

fun reindex :: "nat \<Rightarrow> nat \<Rightarrow> open_row list \<Rightarrow> table_store \<Rightarrow> table_store" where
  "reindex sid i [] s = s"
| "reindex sid i (r # rows) s =
     reindex sid (Suc i) rows
       (if or_delete r = None
        then s\<lparr>ts_index := idx_put (key_of s (or_values r)) \<lparr>loc_seg = Some sid, loc_row = i\<rparr> (ts_index s)\<rparr>
        else s)"

definition flush :: "float_fmt \<Rightarrow> bool \<Rightarrow> table_store \<Rightarrow> (store_error + unit) \<times> table_store" where
  "flush ff disk_ok s =
     (if ts_open s = [] then (Ok (), s)
      else
        (let sid = length (ts_segments s);
             rows = ts_open s;
             s = s\<lparr>ts_open := []\<rparr>
         in st_bind (build_batch ff (ts_columns s) rows, s) (\<lambda>batch s.
            if \<not> disk_ok then (Err SegmentIo, s)
            else
              (let s = s\<lparr>ts_files := idx_put sid batch (ts_files s),
                         ts_sidecars := bt_insert sid
                           ((case map_of (ts_sidecars s) sid of None \<Rightarrow> [] | Some ds \<Rightarrow> ds) @ open_deletes 0 rows)
                           (ts_sidecars s)\<rparr>;
                   s = (if has_key s then reindex sid 0 rows s else s)
               in (Ok (), s\<lparr>ts_segments := ts_segments s @
                    [\<lparr>sm_id = sid, sm_rows = length rows, sm_lsn_min = min_lsn (map or_insert rows),
                      sm_lsn_max = max_lsn (map or_insert rows)\<rparr>]\<rparr>)))))"

section \<open>Apply\<close>

text \<open>\<open>key_of\<close> of an image taken from the stream: a missing key column is an index out of bounds.\<close>

definition image_key :: "table_store \<Rightarrow> named_row \<Rightarrow> store_error + bytes" where
  "image_key s named =
     (if \<forall>i \<in> set (ts_key_idx s). i < length named then Ok (key_of s (image_values named)) else Err StorePanic)"

definition apply_insert :: "float_fmt \<Rightarrow> typed_change \<Rightarrow> table_store \<Rightarrow> (store_error + unit) \<times> table_store" where
  "apply_insert ff c s =
     st_bind (need (tc_new c) (NoImage OInsert), s) (\<lambda>named s.
     st_bind (tuple_to_values ff named None s) (\<lambda>values s. (Ok (), insert_row values (tc_commit_lsn c) s)))"

definition apply_update :: "float_fmt \<Rightarrow> typed_change \<Rightarrow> table_store \<Rightarrow> (store_error + unit) \<times> table_store" where
  "apply_update ff c s =
     st_bind (ensure (has_key s) (KeylessStore OUpdate), s) (\<lambda>_ s.
     st_bind (need (tc_new c) (NoImage OUpdate), s) (\<lambda>named s.
     st_bind (image_key s (case tc_old c of Some old \<Rightarrow> old | None \<Rightarrow> named), s) (\<lambda>old_key s.
     let prior = map_of (ts_index s) old_key in
     st_bind (tuple_to_values ff named prior s) (\<lambda>values s.
     case prior of
       Some l \<Rightarrow>
         st_bind (ensure (loc_in s l) StorePanic, s) (\<lambda>_ s.
         let s = mark_deleted l (tc_commit_lsn c) s;
             s = s\<lparr>ts_index := idx_remove old_key (ts_index s)\<rparr>
         in (Ok (), insert_row values (tc_commit_lsn c) s))
     | None \<Rightarrow> (Err (UnknownKey OUpdate), s)))))"

definition apply_delete :: "typed_change \<Rightarrow> table_store \<Rightarrow> (store_error + unit) \<times> table_store" where
  "apply_delete c s =
     st_bind (ensure (has_key s) (KeylessStore ODelete), s) (\<lambda>_ s.
     st_bind (need (tc_old c) (NoImage ODelete), s) (\<lambda>old s.
     st_bind (image_key s old, s) (\<lambda>key s.
     case map_of (ts_index s) key of
       Some l \<Rightarrow>
         st_bind (ensure (loc_in s l) StorePanic, s\<lparr>ts_index := idx_remove key (ts_index s)\<rparr>) (\<lambda>_ s.
         (Ok (), mark_deleted l (tc_commit_lsn c) s))
     | None \<Rightarrow> (Err (UnknownKey ODelete), s))))"

definition clear_index :: "u64 \<Rightarrow> table_store \<Rightarrow> table_store" where
  "clear_index lsn s = (fold (\<lambda>(k, l). mark_deleted l lsn) (ts_index s) s)\<lparr>ts_index := []\<rparr>"

definition apply_truncate :: "typed_change \<Rightarrow> table_store \<Rightarrow> (store_error + unit) \<times> table_store" where
  "apply_truncate c s =
     st_bind (ensure (\<forall>(k, l) \<in> set (ts_index s). loc_in s l) StorePanic, s) (\<lambda>_ s.
     (Ok (), clear_index (tc_commit_lsn c) s))"

definition apply_change ::
    "float_fmt \<Rightarrow> bool \<Rightarrow> typed_change \<Rightarrow> table_store \<Rightarrow> (store_error + unit) \<times> table_store" where
  "apply_change ff disk_ok c s =
     st_bind (case tc_op c of
                OInsert \<Rightarrow> apply_insert ff c s
              | OUpdate \<Rightarrow> apply_update ff c s
              | ODelete \<Rightarrow> apply_delete c s
              | OTruncate \<Rightarrow> apply_truncate c s) (\<lambda>_ s.
     let s = s\<lparr>ts_applied := max (ts_applied s) (tc_commit_lsn c)\<rparr> in
     if ts_flush_rows s \<le> length (ts_open s) then flush ff disk_ok s else (Ok (), s))"

fun apply_all :: "float_fmt \<Rightarrow> typed_change list \<Rightarrow> table_store \<Rightarrow> (store_error + unit) \<times> table_store" where
  "apply_all ff [] s = (Ok (), s)"
| "apply_all ff (c # cs) s = st_bind (apply_change ff True c s) (\<lambda>_ s. apply_all ff cs s)"

section \<open>Scan\<close>

definition deleted_by :: "(nat \<times> (nat \<times> u64) list) list \<Rightarrow> nat \<Rightarrow> u64 \<Rightarrow> nat \<Rightarrow> bool" where
  "deleted_by sidecars sid lsn r \<longleftrightarrow>
     (case map_of sidecars sid of None \<Rightarrow> False | Some ds \<Rightarrow> \<exists>(r', d) \<in> set ds. r' = r \<and> d \<le> lsn)"

fun scan_segments :: "float_fmt \<Rightarrow> u64 \<Rightarrow> seg_meta list \<Rightarrow> table_store \<Rightarrow> store_error + row list" where
  "scan_segments ff lsn [] s = Ok []"
| "scan_segments ff lsn (m # ms) s =
     (if lsn < sm_lsn_min m then scan_segments ff lsn ms s
      else
        res_bind (need (map_of (ts_files s) (sm_id m)) SegmentIo) (\<lambda>b.
        res_bind (scan_segments ff lsn ms s) (\<lambda>rest.
        Ok (rendered_rows ff (deleted_by (ts_sidecars s) (sm_id m) lsn) lsn b @ rest))))"

definition open_visible :: "u64 \<Rightarrow> open_row \<Rightarrow> bool" where
  "open_visible lsn r \<longleftrightarrow> or_insert r \<le> lsn \<and> \<not> (\<exists>d. or_delete r = Some d \<and> d \<le> lsn)"

definition scan_at :: "float_fmt \<Rightarrow> u64 \<Rightarrow> table_store \<Rightarrow> store_error + row list" where
  "scan_at ff lsn s =
     res_bind (scan_segments ff lsn (ts_segments s) s) (\<lambda>out.
     Ok (out @ map or_values (filter (open_visible lsn) (ts_open s))))"

section \<open>On disk\<close>

text \<open>What \<open>finalize\<close> writes and the reader of \<open>reader.rs\<close> reads: manifest, sidecars, segment files.\<close>

record store_dir =
  sd_columns :: "column_spec list"
  sd_applied :: u64
  sd_segments :: "seg_meta list"
  sd_sidecars :: "(nat \<times> (nat \<times> u64) list) list"
  sd_files :: "(nat \<times> seg_batch) list"

definition finalize :: "float_fmt \<Rightarrow> bool \<Rightarrow> table_store \<Rightarrow> (store_error + store_dir) \<times> table_store" where
  "finalize ff disk_ok s =
     st_bind (flush ff disk_ok s) (\<lambda>_ s.
     (Ok \<lparr>sd_columns = ts_columns s, sd_applied = ts_applied s, sd_segments = ts_segments s,
          sd_sidecars = ts_sidecars s, sd_files = ts_files s\<rparr>, s))"

definition read_sidecar :: "store_dir \<Rightarrow> nat \<Rightarrow> (nat \<times> u64) list" where
  "read_sidecar d sid = (case map_of (sd_sidecars d) sid of None \<Rightarrow> [] | Some ds \<Rightarrow> ds)"

record seg_snapshot =
  sn_meta :: seg_meta
  sn_deletes :: "(nat \<times> u64) list"

definition segments_snapshot :: "table_store \<Rightarrow> seg_snapshot list" where
  "segments_snapshot s =
     map (\<lambda>m. \<lparr>sn_meta = m, sn_deletes = (case map_of (ts_sidecars s) (sm_id m) of None \<Rightarrow> [] | Some ds \<Rightarrow> ds)\<rparr>)
       (ts_segments s)"

definition load_segment_snapshots :: "store_dir \<Rightarrow> seg_snapshot list \<times> u64" where
  "load_segment_snapshots d =
     (map (\<lambda>m. \<lparr>sn_meta = m, sn_deletes = read_sidecar d (sm_id m)\<rparr>) (sd_segments d), sd_applied d)"

text \<open>The typed rows of a filtered batch, each with its \<open>__gdb_lsn\<close>.\<close>

definition filter_batch :: "(nat \<Rightarrow> bool) \<Rightarrow> seg_batch \<Rightarrow> (cell option list \<times> u64) list" where
  "filter_batch keep b =
     map (\<lambda>r. (map (\<lambda>col. col ! r) (sb_columns b), sb_lsns b ! r)) (filter keep [0..<length (sb_lsns b)])"

fun read_batches :: "u64 \<Rightarrow> seg_meta list \<Rightarrow> store_dir \<Rightarrow> store_error + (cell option list \<times> u64) list list" where
  "read_batches lsn [] d = Ok []"
| "read_batches lsn (m # ms) d =
     (if lsn < sm_lsn_min m then read_batches lsn ms d
      else
        res_bind (need (map_of (sd_files d) (sm_id m)) SegmentIo) (\<lambda>b.
        res_bind (read_batches lsn ms d) (\<lambda>rest.
        let rows = filter_batch (\<lambda>r. \<not> deleted_by (sd_sidecars d) (sm_id m) lsn r \<and> sb_lsns b ! r \<le> lsn) b
        in Ok (if rows = [] then rest else rows # rest))))"

definition read_visible_batches :: "u64 \<Rightarrow> store_dir \<Rightarrow> store_error + (cell option list \<times> u64) list list" where
  "read_visible_batches lsn d =
     res_bind (read_batches lsn (sd_segments d) d) (\<lambda>out.
     if \<forall>m \<in> set (sd_segments d). lsn < sm_lsn_min m then Err SegmentIo else Ok out)"

end
