(* ===== verification/ColumnarVersions.thy ===== *)
theory ColumnarVersions
  imports Columnar
begin

text \<open>
  The table store as a multi-version table. Its segments and open rows are one list of versions, each
  with the LSN that inserted it and perhaps the one that deleted it (\<open>versions\<close>); the key index names
  the live version of each key. Flushing changes neither. A scan at any LSN returns the table the
  changes up to that LSN describe.
\<close>

section \<open>Versions\<close>

record version =
  v_values :: row
  v_ins :: u64
  v_del :: "u64 option"

definition sidecar_of :: "table_store \<Rightarrow> nat \<Rightarrow> (nat \<times> u64) list" where
  "sidecar_of s i = (case map_of (ts_sidecars s) i of None \<Rightarrow> [] | Some ds \<Rightarrow> ds)"

definition batch_of :: "table_store \<Rightarrow> nat \<Rightarrow> seg_batch" where
  "batch_of s i = the (map_of (ts_files s) i)"

definition seg_versions :: "float_fmt \<Rightarrow> table_store \<Rightarrow> nat \<Rightarrow> version list" where
  "seg_versions ff s i =
     map (\<lambda>r. \<lparr>v_values = render_row ff (batch_of s i) r, v_ins = sb_lsns (batch_of s i) ! r,
               v_del = map_of (sidecar_of s i) r\<rparr>) [0..<length (sb_lsns (batch_of s i))]"

definition open_version :: "open_row \<Rightarrow> version" where
  "open_version r = \<lparr>v_values = or_values r, v_ins = or_insert r, v_del = or_delete r\<rparr>"

definition versions :: "float_fmt \<Rightarrow> table_store \<Rightarrow> version list" where
  "versions ff s =
     concat (map (seg_versions ff s) [0..<length (ts_segments s)]) @ map open_version (ts_open s)"

definition visible :: "u64 \<Rightarrow> version \<Rightarrow> bool" where
  "visible lsn v \<longleftrightarrow> v_ins v \<le> lsn \<and> \<not> (\<exists>d. v_del v = Some d \<and> d \<le> lsn)"

definition seg_base :: "table_store \<Rightarrow> nat \<Rightarrow> nat" where
  "seg_base s i = sum_list (map (\<lambda>i. length (sb_lsns (batch_of s i))) [0..<i])"

definition pos :: "table_store \<Rightarrow> loc \<Rightarrow> nat" where
  "pos s l = (case loc_seg l of None \<Rightarrow> seg_base s (length (ts_segments s)) + loc_row l
     | Some i \<Rightarrow> seg_base s i + loc_row l)"

definition loc_ok :: "table_store \<Rightarrow> loc \<Rightarrow> bool" where
  "loc_ok s l \<longleftrightarrow> (case loc_seg l of None \<Rightarrow> loc_row l < length (ts_open s)
     | Some i \<Rightarrow> i < length (ts_segments s) \<and> loc_row l < length (sb_lsns (batch_of s i)))"

text \<open>A value whose typed cell renders back to it, and a row of such values.\<close>

definition canonical :: "float_fmt \<Rightarrow> column_spec list \<Rightarrow> row \<Rightarrow> bool" where
  "canonical ff cols r \<longleftrightarrow> length r = length cols \<and>
     (\<forall>i < length cols. \<forall>v. r ! i = Some v \<longrightarrow>
        (\<exists>c. build_cell ff (cs_name (cols ! i)) (arrow_type (cs_type_oid (cols ! i))) v = Ok c \<and> render_cell ff c = v))"

definition physical_ok :: "float_fmt \<Rightarrow> table_store \<Rightarrow> bool" where
  "physical_ok ff s \<longleftrightarrow>
     map sm_id (ts_segments s) = [0..<length (ts_segments s)] \<and>
     (\<forall>i < length (ts_segments s). map_of (ts_files s) i = Some (batch_of s i) \<and>
        (\<forall>l \<in> set (sb_lsns (batch_of s i)). sm_lsn_min (ts_segments s ! i) \<le> l)) \<and>
     (\<forall>i. length (ts_segments s) \<le> i \<longrightarrow> map_of (ts_sidecars s) i = None) \<and>
     (\<forall>i. distinct (map fst (sidecar_of s i))) \<and>
     (\<forall>r \<in> set (ts_open s). canonical ff (ts_columns s) (or_values r)) \<and>
     (\<forall>i rows. ts_cache s = Some (i, rows) \<longrightarrow> i < length (ts_segments s) \<and>
        rows = map (render_row ff (batch_of s i)) [0..<length (sb_lsns (batch_of s i))])"

section \<open>A scan sees the visible versions\<close>

lemma length_seg_versions [simp]: "length (seg_versions ff s i) = length (sb_lsns (batch_of s i))"
  by (simp add: seg_versions_def)

lemma length_segs: "length (concat (map (seg_versions ff s) [0..<n])) = seg_base s n"
  by (simp add: length_concat seg_base_def comp_def)

lemma deleted_by_sidecar:
  assumes "distinct (map fst (sidecar_of s i))"
  shows "deleted_by (ts_sidecars s) i lsn r \<longleftrightarrow> (\<exists>d. map_of (sidecar_of s i) r = Some d \<and> d \<le> lsn)"
  using assms by (auto simp: deleted_by_def sidecar_of_def split: option.splits)

lemma rendered_visible:
  assumes "distinct (map fst (sidecar_of s i))"
  shows "rendered_rows ff (deleted_by (ts_sidecars s) i lsn) lsn (batch_of s i) =
    map v_values (filter (visible lsn) (seg_versions ff s i))"
  unfolding rendered_rows_def seg_versions_def
  by (simp add: filter_map comp_def visible_def deleted_by_sidecar [OF assms] conj_commute)

lemma scan_segments_visible:
  assumes "physical_ok ff s" "ts_segments s = pre @ ms"
  shows "scan_segments ff lsn ms s =
    Ok (map v_values (filter (visible lsn) (concat (map (seg_versions ff s) [length pre..<length (ts_segments s)]))))"
  using assms(2)
proof (induction ms arbitrary: pre)
  case Nil
  then show ?case by simp
next
  case (Cons m ms)
  let ?i = "length pre"
  have i: "?i < length (ts_segments s)" "ts_segments s ! ?i = m" using Cons.prems by simp_all
  have len: "[?i..<length (ts_segments s)] = ?i # [length (pre @ [m])..<length (ts_segments s)]"
    using i(1) by (simp add: upt_conv_Cons)
  have "map sm_id (ts_segments s) = [0..<length (ts_segments s)]" using assms(1) by (simp add: physical_ok_def)
  from arg_cong [OF this, of "\<lambda>xs. xs ! ?i"] have sid: "sm_id m = ?i" using i by simp
  have f: "map_of (ts_files s) ?i = Some (batch_of s ?i)" "\<forall>l \<in> set (sb_lsns (batch_of s ?i)). sm_lsn_min m \<le> l"
    and d: "distinct (map fst (sidecar_of s ?i))"
    using assms(1) i by (auto simp: physical_ok_def)
  have IH: "scan_segments ff lsn ms s =
    Ok (map v_values (filter (visible lsn) (concat (map (seg_versions ff s) [length (pre @ [m])..<length (ts_segments s)]))))"
    using Cons.IH [of "pre @ [m]"] Cons.prems by simp
  show ?case
  proof (cases "lsn < sm_lsn_min m")
    case True
    have "\<not> sb_lsns (batch_of s ?i) ! r \<le> lsn" if "r < length (sb_lsns (batch_of s ?i))" for r
      using f(2) True nth_mem [OF that] by (meson leD order_trans)
    then have "filter (visible lsn) (seg_versions ff s ?i) = []"
      by (auto simp: filter_empty_conv seg_versions_def visible_def)
    then show ?thesis unfolding len using True IH by simp
  next
    case False
    then show ?thesis unfolding len using IH f(1) by (simp add: sid rendered_visible [OF d])
  qed
qed

lemma scan_visible:
  assumes "physical_ok ff s"
  shows "scan_at ff lsn s = Ok (map v_values (filter (visible lsn) (versions ff s)))"
proof -
  have "open_visible lsn = visible lsn \<circ> open_version"
    by (auto simp: open_visible_def visible_def open_version_def)
  then have "map or_values (filter (open_visible lsn) (ts_open s)) =
      map v_values (filter (visible lsn) (map open_version (ts_open s)))"
    by (simp add: filter_map comp_def open_version_def)
  then show ?thesis
    using scan_segments_visible [OF assms, of "[]" "ts_segments s"]
    by (simp add: scan_at_def versions_def)
qed


section \<open>Locations\<close>

lemma seg_base_Suc: "seg_base s (Suc i) = seg_base s i + length (sb_lsns (batch_of s i))"
  by (simp add: seg_base_def)

lemma seg_base_mono: "i \<le> j \<Longrightarrow> seg_base s i \<le> seg_base s j"
  by (induction j) (auto simp: seg_base_Suc le_Suc_eq)

lemma length_versions: "length (versions ff s) = seg_base s (length (ts_segments s)) + length (ts_open s)"
  by (simp add: versions_def length_segs)

lemma pos_less: "loc_ok s l \<Longrightarrow> pos s l < length (versions ff s)"
proof (cases "loc_seg l")
  case (Some i)
  assume "loc_ok s l"
  then have i: "i < length (ts_segments s)" "loc_row l < length (sb_lsns (batch_of s i))"
    using Some by (simp_all add: loc_ok_def)
  then have "pos s l < seg_base s (Suc i)" using Some by (simp add: pos_def seg_base_Suc)
  also have "\<dots> \<le> seg_base s (length (ts_segments s))" using i(1) by (intro seg_base_mono) simp
  finally show ?thesis by (simp add: length_versions)
qed (simp add: pos_def loc_ok_def length_versions)

lemma concat_nth:
  "i < length xss \<Longrightarrow> r < length (xss ! i) \<Longrightarrow>
     concat xss ! (sum_list (map length (take i xss)) + r) = xss ! i ! r"
proof (induction xss arbitrary: i)
  case (Cons xs xss)
  then show ?case by (cases i) (simp_all add: nth_append add.assoc)
qed simp

lemma concat_update:
  "i < length xss \<Longrightarrow> r < length (xss ! i) \<Longrightarrow>
     (concat xss)[sum_list (map length (take i xss)) + r := x] = concat (xss[i := (xss ! i)[r := x]])"
proof (induction xss arbitrary: i)
  case (Cons xs xss)
  then show ?case by (cases i) (simp_all add: list_update_append add.assoc)
qed simp

lemma seg_base_take:
  "i \<le> n \<Longrightarrow> sum_list (map length (take i (map (seg_versions ff s) [0..<n]))) = seg_base s i"
  by (simp add: seg_base_def take_map comp_def)

lemma versions_nth_seg:
  assumes "i < length (ts_segments s)" "r < length (sb_lsns (batch_of s i))"
  shows "versions ff s ! (seg_base s i + r) = seg_versions ff s i ! r"
proof -
  let ?xss = "map (seg_versions ff s) [0..<length (ts_segments s)]"
  have "concat ?xss ! (sum_list (map length (take i ?xss)) + r) = ?xss ! i ! r"
    by (rule concat_nth) (use assms in simp_all)
  then have "concat ?xss ! (seg_base s i + r) = seg_versions ff s i ! r"
    using assms seg_base_take [of i "length (ts_segments s)" ff s] by simp
  moreover have "seg_base s i + r < length (concat ?xss)"
    using pos_less [of s "\<lparr>loc_seg = Some i, loc_row = r\<rparr>" ff] assms
      seg_base_mono [of "Suc i" "length (ts_segments s)" s] by (simp add: length_segs seg_base_Suc)
  ultimately show ?thesis by (simp add: versions_def nth_append)
qed

lemma versions_nth_open:
  "r < length (ts_open s) \<Longrightarrow>
     versions ff s ! (seg_base s (length (ts_segments s)) + r) = open_version (ts_open s ! r)"
  by (simp add: versions_def nth_append length_segs)

lemma pos_cong:
  assumes "ts_segments s' = ts_segments s" "batch_of s' = batch_of s"
  shows "seg_base s' = seg_base s \<and> pos s' = pos s"
proof -
  have base: "seg_base s' = seg_base s" unfolding seg_base_def [abs_def] assms ..
  show ?thesis unfolding pos_def [abs_def] base assms by simp
qed

lemma loc_ok_cong:
  assumes "ts_segments s' = ts_segments s" "batch_of s' = batch_of s" "length (ts_open s) \<le> length (ts_open s')" "loc_ok s l"
  shows "loc_ok s' l"
  using assms(3,4) unfolding loc_ok_def assms(1,2) by (cases "loc_seg l") auto

section \<open>Marking a version deleted\<close>

lemma versions_cong:
  assumes "ts_segments s' = ts_segments s" "\<And>i. i < length (ts_segments s) \<Longrightarrow> batch_of s' i = batch_of s i"
    "\<And>i. i < length (ts_segments s) \<Longrightarrow> sidecar_of s' i = sidecar_of s i" "ts_open s' = ts_open s"
  shows "versions ff s' = versions ff s"
proof -
  have "concat (map (seg_versions ff s') [0..<length (ts_segments s)]) = concat (map (seg_versions ff s) [0..<length (ts_segments s)])"
    using assms(2,3) by (intro arg_cong [of _ _ concat] map_cong) (simp_all add: seg_versions_def)
  then show ?thesis unfolding versions_def assms(1,4) by (rule arg_cong)
qed

abbreviation live :: "version \<Rightarrow> bool" where
  "live v \<equiv> v_del v = None"

lemma mark_versions:
  assumes "loc_ok s l" "live (versions ff s ! pos s l)"
  shows "versions ff (mark_deleted l lsn s) =
    (versions ff s)[pos s l := (versions ff s ! pos s l)\<lparr>v_del := Some lsn\<rparr>]"
proof (cases "loc_seg l")
  case None
  then have r: "loc_row l < length (ts_open s)" using assms(1) by (simp add: loc_ok_def)
  let ?s = "mark_deleted l lsn s" and ?b = "seg_base s (length (ts_segments s))"
  have o: "ts_open ?s = (ts_open s)[loc_row l := (ts_open s ! loc_row l)\<lparr>or_delete := Some lsn\<rparr>]"
    "ts_segments ?s = ts_segments s" "batch_of ?s = batch_of s" "sidecar_of ?s = sidecar_of s"
    by (auto simp: mark_deleted_def None batch_of_def sidecar_of_def fun_eq_iff)
  have "concat (map (seg_versions ff ?s) [0..<length (ts_segments s)]) = concat (map (seg_versions ff s) [0..<length (ts_segments s)])"
    by (intro arg_cong [of _ _ concat] map_cong) (simp_all add: seg_versions_def o)
  then have "versions ff ?s = concat (map (seg_versions ff s) [0..<length (ts_segments s)]) @
      (map open_version (ts_open s))[loc_row l := open_version ((ts_open s ! loc_row l)\<lparr>or_delete := Some lsn\<rparr>)]"
    unfolding versions_def o by (simp only: map_update)
  moreover have "open_version ((ts_open s ! loc_row l)\<lparr>or_delete := Some lsn\<rparr>) =
      (open_version (ts_open s ! loc_row l))\<lparr>v_del := Some lsn\<rparr>" by (simp add: open_version_def)
  ultimately show ?thesis
    using versions_nth_open [OF r, of ff]
    by (simp add: pos_def None versions_def list_update_append length_segs)
next
  case (Some i)
  then have i: "i < length (ts_segments s)" "loc_row l < length (sb_lsns (batch_of s i))"
    using assms(1) by (simp_all add: loc_ok_def)
  let ?s = "mark_deleted l lsn s" and ?r = "loc_row l" and ?n = "length (ts_segments s)"
  let ?xss = "map (seg_versions ff s) [0..<?n]"
  have o: "ts_open ?s = ts_open s" "ts_segments ?s = ts_segments s" "batch_of ?s = batch_of s"
    "sidecar_of ?s j = (if j = i then sidecar_of s i @ [(?r, lsn)] else sidecar_of s j)" for j
    by (auto simp: mark_deleted_def Some batch_of_def sidecar_of_def fun_eq_iff Let_def)
  have v: "versions ff s ! pos s l = seg_versions ff s i ! ?r"
    using versions_nth_seg [OF i] by (simp add: pos_def Some)
  have live: "map_of (sidecar_of s i) ?r = None" using assms(2) i(2) unfolding v by (simp add: seg_versions_def)
  have seg_i: "seg_versions ff ?s i = (seg_versions ff s i)[?r := (seg_versions ff s i ! ?r)\<lparr>v_del := Some lsn\<rparr>]"
  proof (rule nth_equalityI)
    fix r assume "r < length (seg_versions ff ?s i)"
    then show "seg_versions ff ?s i ! r = (seg_versions ff s i)[?r := (seg_versions ff s i ! ?r)\<lparr>v_del := Some lsn\<rparr>] ! r"
      using i(2) live by (cases "r = ?r") (auto simp: seg_versions_def o map_add_def split: option.splits)
  qed (simp add: o)
  have "map (seg_versions ff ?s) [0..<?n] = ?xss[i := (?xss ! i)[?r := (seg_versions ff s i ! ?r)\<lparr>v_del := Some lsn\<rparr>]]"
  proof (rule nth_equalityI)
    fix j assume "j < length (map (seg_versions ff ?s) [0..<?n])"
    then show "map (seg_versions ff ?s) [0..<?n] ! j =
        ?xss[i := (?xss ! i)[?r := (seg_versions ff s i ! ?r)\<lparr>v_del := Some lsn\<rparr>]] ! j"
      using i seg_i by (cases "j = i") (auto simp: seg_versions_def o)
  qed simp
  then have "concat (map (seg_versions ff ?s) [0..<?n]) =
      (concat ?xss)[seg_base s i + ?r := (seg_versions ff s i ! ?r)\<lparr>v_del := Some lsn\<rparr>]"
    using concat_update [of i ?xss ?r] i seg_base_take [of i ?n ff s] by simp
  moreover have "seg_base s i + ?r < length (concat ?xss)"
    using i seg_base_mono [of "Suc i" ?n s] by (simp add: length_segs seg_base_Suc)
  ultimately show ?thesis
    unfolding v by (simp add: versions_def o pos_def Some list_update_append)
qed

lemma mark_pos: "pos (mark_deleted l lsn s) = pos s" "loc_ok (mark_deleted l lsn s) = loc_ok s"
  by (auto simp: pos_def loc_ok_def seg_base_def mark_deleted_def batch_of_def Let_def fun_eq_iff split: option.splits)

lemma mark_physical:
  assumes "physical_ok ff s" "loc_ok s l" "live (versions ff s ! pos s l)"
  shows "physical_ok ff (mark_deleted l lsn s)"
proof (cases "loc_seg l")
  case None
  then have r: "loc_row l < length (ts_open s)" using assms(2) by (simp add: loc_ok_def)
  have "set ((ts_open s)[loc_row l := (ts_open s ! loc_row l)\<lparr>or_delete := Some lsn\<rparr>]) \<subseteq>
      insert ((ts_open s ! loc_row l)\<lparr>or_delete := Some lsn\<rparr>) (set (ts_open s))"
    by (rule set_update_subset_insert)
  moreover have "\<forall>r \<in> insert ((ts_open s ! loc_row l)\<lparr>or_delete := Some lsn\<rparr>) (set (ts_open s)).
      canonical ff (ts_columns s) (or_values r)"
    using assms(1) r by (simp add: physical_ok_def)
  ultimately have "\<forall>r \<in> set ((ts_open s)[loc_row l := (ts_open s ! loc_row l)\<lparr>or_delete := Some lsn\<rparr>]).
      canonical ff (ts_columns s) (or_values r)"
    by blast
  then show ?thesis
    using assms(1) None
    by (simp add: physical_ok_def mark_deleted_def batch_of_def sidecar_of_def)
next
  case (Some i)
  then have i: "i < length (ts_segments s)" "loc_row l < length (sb_lsns (batch_of s i))"
    using assms(2) by (simp_all add: loc_ok_def)
  have "map_of (sidecar_of s i) (loc_row l) = None"
    using assms(3) versions_nth_seg [OF i, of ff] i(2) by (simp add: pos_def Some seg_versions_def)
  then have "loc_row l \<notin> fst ` set (sidecar_of s i)" by (simp add: map_of_eq_None_iff)
  then show ?thesis
    using assms(1) i Some
    by (auto simp: physical_ok_def mark_deleted_def batch_of_def sidecar_of_def Let_def)
qed


section \<open>The table a list of versions holds\<close>

definition table_at :: "u64 \<Rightarrow> version list \<Rightarrow> row list" where
  "table_at lsn vs = map v_values (filter (visible lsn) vs)"

definition head_table :: "version list \<Rightarrow> row list" where
  "head_table vs = map v_values (filter live vs)"

definition bounded :: "u64 \<Rightarrow> version list \<Rightarrow> bool" where
  "bounded m vs \<longleftrightarrow> (\<forall>v \<in> set vs. v_ins v \<le> m \<and> (\<forall>d. v_del v = Some d \<longrightarrow> d \<le> m))"

lemma bounded_mono: "bounded m vs \<Longrightarrow> m \<le> m' \<Longrightarrow> bounded m' vs"
  unfolding bounded_def by (meson order_trans)

lemma table_at_head: "bounded m vs \<Longrightarrow> m \<le> lsn \<Longrightarrow> table_at lsn vs = head_table vs"
proof -
  assume b: "bounded m vs" "m \<le> lsn"
  have "visible lsn v \<longleftrightarrow> live v" if v: "v \<in> set vs" for v
  proof (cases "v_del v")
    case None
    then show ?thesis using b v by (auto simp: bounded_def visible_def intro: order_trans)
  next
    case (Some d)
    then have "d \<le> lsn" using b v by (auto simp: bounded_def intro: order_trans)
    then show ?thesis using Some by (simp add: visible_def)
  qed
  then show ?thesis by (simp add: table_at_def head_table_def cong: filter_cong)
qed

lemma table_at_insert_before: "lsn < l \<Longrightarrow> table_at lsn (vs @ [\<lparr>v_values = r, v_ins = l, v_del = d\<rparr>]) = table_at lsn vs"
  by (auto simp: table_at_def visible_def dest: leD)

lemma table_at_mark_before:
  "p < length vs \<Longrightarrow> live (vs ! p) \<Longrightarrow> lsn < l \<Longrightarrow> table_at lsn (vs[p := (vs ! p)\<lparr>v_del := Some l\<rparr>]) = table_at lsn vs"
proof (induction vs arbitrary: p)
  case (Cons v vs)
  then show ?case by (cases p) (auto simp: table_at_def visible_def)
qed simp

lemma head_insert: "head_table (vs @ [\<lparr>v_values = r, v_ins = l, v_del = None\<rparr>]) = head_table vs @ [r]"
  by (simp add: head_table_def)

text \<open>With one live version per key, marking that version removes the rows with its key.\<close>

definition unique_keys :: "(row \<Rightarrow> bytes) \<Rightarrow> version list \<Rightarrow> bool" where
  "unique_keys key vs \<longleftrightarrow>
     (\<forall>p q. p < length vs \<longrightarrow> q < length vs \<longrightarrow> live (vs ! p) \<longrightarrow> live (vs ! q) \<longrightarrow>
        key (v_values (vs ! p)) = key (v_values (vs ! q)) \<longrightarrow> p = q)"

lemma unique_keys_tl: "unique_keys key (v # vs) \<Longrightarrow> unique_keys key vs"
  unfolding unique_keys_def
proof (intro allI impI)
  fix p q
  assume u: "\<forall>p q. p < length (v # vs) \<longrightarrow> q < length (v # vs) \<longrightarrow> live ((v # vs) ! p) \<longrightarrow> live ((v # vs) ! q) \<longrightarrow>
        key (v_values ((v # vs) ! p)) = key (v_values ((v # vs) ! q)) \<longrightarrow> p = q"
    and "p < length vs" "q < length vs" "live (vs ! p)" "live (vs ! q)" "key (v_values (vs ! p)) = key (v_values (vs ! q))"
  then show "p = q" using u [rule_format, of "Suc p" "Suc q"] by simp
qed

lemma head_mark:
  "unique_keys key vs \<Longrightarrow> p < length vs \<Longrightarrow> live (vs ! p) \<Longrightarrow> key (v_values (vs ! p)) = k \<Longrightarrow>
     head_table (vs[p := (vs ! p)\<lparr>v_del := Some l\<rparr>]) = filter (\<lambda>r. key r \<noteq> k) (head_table vs)"
proof (induction vs arbitrary: p)
  case (Cons v vs)
  show ?case
  proof (cases p)
    case 0
    have "key (v_values w) \<noteq> k" if w: "w \<in> set vs" "live w" for w
    proof -
      obtain q where "q < length vs" "vs ! q = w" using w(1) by (auto simp: in_set_conv_nth)
      then show ?thesis
        using Cons.prems w(2) 0 unfolding unique_keys_def
        by (metis Suc_less_eq length_Cons nat.distinct(1) nth_Cons_0 nth_Cons_Suc zero_less_Suc)
    qed
    then have "filter (\<lambda>r. key r \<noteq> k) (head_table vs) = head_table vs"
      by (auto simp: head_table_def filter_id_conv)
    then show ?thesis using 0 Cons.prems by (simp add: head_table_def)
  next
    case (Suc q)
    have "live v \<longrightarrow> key (v_values v) \<noteq> k"
      using Cons.prems Suc unfolding unique_keys_def
      by (metis length_Cons nat.distinct(1) nth_Cons_0 zero_less_Suc)
    then show ?thesis
      using Cons.IH [OF unique_keys_tl [OF Cons.prems(1)], of q] Cons.prems Suc by (simp add: head_table_def)
  qed
qed simp

lemma bounded_mark: "bounded m vs \<Longrightarrow> m \<le> l \<Longrightarrow> p < length vs \<Longrightarrow> bounded l (vs[p := (vs ! p)\<lparr>v_del := Some l\<rparr>])"
proof -
  assume b: "bounded m vs" "m \<le> l" "p < length vs"
  have "set (vs[p := (vs ! p)\<lparr>v_del := Some l\<rparr>]) \<subseteq> insert ((vs ! p)\<lparr>v_del := Some l\<rparr>) (set vs)"
    by (rule set_update_subset_insert)
  moreover have "bounded l vs" using b bounded_mono by blast
  ultimately show ?thesis using b(3) unfolding bounded_def by fastforce
qed

section \<open>The invariant of a keyed store\<close>

text \<open>An index from keys to positions that names exactly the live versions, by their keys.\<close>

definition abs_idx :: "(bytes \<Rightarrow> nat option) \<Rightarrow> (row \<Rightarrow> bytes) \<Rightarrow> version list \<Rightarrow> bool" where
  "abs_idx I key vs \<longleftrightarrow>
     (\<forall>k p. I k = Some p \<longleftrightarrow> p < length vs \<and> live (vs ! p) \<and> key (v_values (vs ! p)) = k)"

lemma abs_idx_insert:
  assumes "abs_idx I key vs" "I (key r) = None"
  shows "abs_idx (I(key r \<mapsto> length vs)) key (vs @ [\<lparr>v_values = r, v_ins = l, v_del = None\<rparr>])"
proof -
  have "key (v_values (vs ! p)) \<noteq> key r" if "p < length vs" "live (vs ! p)" for p
  proof
    assume "key (v_values (vs ! p)) = key r"
    then have "I (key r) = Some p" using assms(1) that unfolding abs_idx_def by blast
    then show False using assms(2) by simp
  qed
  then show ?thesis
    using assms unfolding abs_idx_def by (auto simp: nth_append less_Suc_eq)
qed

lemma abs_idx_mark:
  assumes "abs_idx I key vs" "I k = Some p"
  shows "abs_idx (I(k := None)) key (vs[p := (vs ! p)\<lparr>v_del := Some l\<rparr>])"
proof -
  have p: "p < length vs" "live (vs ! p)" "key (v_values (vs ! p)) = k" using assms by (auto simp: abs_idx_def)
  have q: "q = p" if "q < length vs" "live (vs ! q)" "key (v_values (vs ! q)) = k" for q
  proof -
    have "I k = Some q" using assms(1) that unfolding abs_idx_def by blast
    then show ?thesis using assms(2) by simp
  qed
  show ?thesis
    unfolding abs_idx_def
  proof (intro allI)
    fix k' p'
    show "((I(k := None)) k' = Some p') = (p' < length (vs[p := (vs ! p)\<lparr>v_del := Some l\<rparr>]) \<and>
        live (vs[p := (vs ! p)\<lparr>v_del := Some l\<rparr>] ! p') \<and>
        key (v_values (vs[p := (vs ! p)\<lparr>v_del := Some l\<rparr>] ! p')) = k')"
    proof (cases "p' = p")
      case True
      then show ?thesis using assms p by (auto simp: abs_idx_def)
    next
      case False
      have "I k' = Some p' \<longleftrightarrow> p' < length vs \<and> live (vs ! p') \<and> key (v_values (vs ! p')) = k'"
        using assms(1) unfolding abs_idx_def by blast
      then show ?thesis using False q by auto
    qed
  qed
qed

lemma abs_idx_unique: "abs_idx I key vs \<Longrightarrow> unique_keys key vs"
  unfolding abs_idx_def unique_keys_def by (metis option.inject)

definition positions :: "table_store \<Rightarrow> bytes \<Rightarrow> nat option" where
  "positions s k = map_option (pos s) (map_of (ts_index s) k)"

definition indexed :: "float_fmt \<Rightarrow> table_store \<Rightarrow> bool" where
  "indexed ff s \<longleftrightarrow> distinct (map fst (ts_index s)) \<and>
     (\<forall>k l. map_of (ts_index s) k = Some l \<longrightarrow> loc_ok s l) \<and>
     abs_idx (positions s) (key_of s) (versions ff s)"

definition store_inv :: "float_fmt \<Rightarrow> table_store \<Rightarrow> bool" where
  "store_inv ff s \<longleftrightarrow> physical_ok ff s \<and> has_key s \<and> (\<forall>i \<in> set (ts_key_idx s). i < length (ts_columns s)) \<and>
     indexed ff s \<and> ts_live s = word_of_nat (length (ts_index s))"

lemma inv_unique: "store_inv ff s \<Longrightarrow> unique_keys (key_of s) (versions ff s)"
  unfolding store_inv_def indexed_def by (blast intro: abs_idx_unique)

lemma map_of_put [simp]: "map_of (idx_put k v m) = (map_of m)(k \<mapsto> v)"
proof -
  have "map_of (filter (\<lambda>(k', _). k' \<noteq> k) m) x = (if x = k then None else map_of m x)" for x
    by (induction m) auto
  then show ?thesis by (auto simp: idx_put_def)
qed

lemma map_of_remove [simp]: "map_of (idx_remove k m) = (map_of m)(k := None)"
proof -
  have "map_of (filter (\<lambda>(k', _). k' \<noteq> k) m) x = (if x = k then None else map_of m x)" for x
    by (induction m) auto
  then show ?thesis by (auto simp: idx_remove_def)
qed

lemma distinct_filter_keys: "distinct (map fst m) \<Longrightarrow> distinct (map fst (filter P m))"
  by (induction m) auto

lemma distinct_remove [simp]: "distinct (map fst m) \<Longrightarrow> distinct (map fst (idx_remove k m))"
  by (simp add: idx_remove_def distinct_filter_keys)

lemma distinct_put [simp]: "distinct (map fst m) \<Longrightarrow> distinct (map fst (idx_put k v m))"
  by (auto simp: idx_put_def distinct_filter_keys)

lemma put_fresh: "map_of m k = None \<Longrightarrow> length (idx_put k v m) = Suc (length m)"
  by (induction m) (auto simp: idx_put_def split: if_splits)

lemma remove_length: "distinct (map fst m) \<Longrightarrow> map_of m k = Some v \<Longrightarrow> Suc (length (idx_remove k m)) = length m"
proof (induction m)
  case (Cons x m)
  obtain k' v' where x: "x = (k', v')" by (cases x)
  show ?case
  proof (cases "k' = k")
    case True
    then have "k \<notin> fst ` set m" using Cons.prems x by simp
    then have "filter (\<lambda>(k', _). k' \<noteq> k) m = m" by (force simp: filter_id_conv)
    then show ?thesis using True x by (simp add: idx_remove_def)
  next
    case False
    then show ?thesis using Cons x by (simp add: idx_remove_def)
  qed
qed simp


section \<open>Operations keep it\<close>

lemma insert_row_keyed:
  "has_key s \<Longrightarrow> insert_row r l s = s\<lparr>
     ts_index := idx_put (key_of s r) \<lparr>loc_seg = None, loc_row = length (ts_open s)\<rparr> (ts_index s),
     ts_open := ts_open s @ [\<lparr>or_values = r, or_insert = l, or_delete = None\<rparr>],
     ts_live := ts_live s + 1\<rparr>"
  by (simp add: insert_row_def Let_def)

lemma insert_inv:
  assumes inv: "store_inv ff s" and r: "canonical ff (ts_columns s) r" and fresh: "map_of (ts_index s) (key_of s r) = None"
  shows "store_inv ff (insert_row r l s)"
    and "versions ff (insert_row r l s) = versions ff s @ [\<lparr>v_values = r, v_ins = l, v_del = None\<rparr>]"
proof -
  let ?s = "insert_row r l s"
  have k: "has_key s" using inv by (simp add: store_inv_def)
  have f: "ts_segments ?s = ts_segments s" "batch_of ?s = batch_of s" "sidecar_of ?s = sidecar_of s"
    "ts_open ?s = ts_open s @ [\<lparr>or_values = r, or_insert = l, or_delete = None\<rparr>]" "ts_key_idx ?s = ts_key_idx s"
    "ts_columns ?s = ts_columns s" "ts_sidecars ?s = ts_sidecars s" "ts_files ?s = ts_files s" "ts_cache ?s = ts_cache s"
    "ts_index ?s = idx_put (key_of s r) \<lparr>loc_seg = None, loc_row = length (ts_open s)\<rparr> (ts_index s)"
    "ts_live ?s = ts_live s + 1"
    by (auto simp: insert_row_keyed [OF k] batch_of_def sidecar_of_def fun_eq_iff)
  have sv: "seg_versions ff ?s = seg_versions ff s" by (simp add: seg_versions_def f fun_eq_iff)
  show v: "versions ff ?s = versions ff s @ [\<lparr>v_values = r, v_ins = l, v_del = None\<rparr>]"
    unfolding versions_def f sv by (simp add: open_version_def)
  have key: "key_of ?s = key_of s" by (simp add: key_of_def f fun_eq_iff)
  have pos: "pos ?s = pos s" using pos_cong f(1,2) by blast
  have phys: "physical_ok ff ?s"
    using inv r unfolding store_inv_def physical_ok_def f by auto
  have "positions ?s = (positions s)(key_of s r \<mapsto> length (versions ff s))"
    by (auto simp: positions_def f pos fun_eq_iff pos_def length_versions)
  moreover have "positions s (key_of s r) = None" using fresh by (simp add: positions_def)
  ultimately have "abs_idx (positions ?s) (key_of ?s) (versions ff ?s)"
    using inv abs_idx_insert unfolding v key store_inv_def indexed_def by simp
  moreover have "\<forall>k l. map_of (ts_index ?s) k = Some l \<longrightarrow> loc_ok ?s l"
  proof (intro allI impI)
    fix k p assume p: "map_of (ts_index ?s) k = Some p"
    show "loc_ok ?s p"
    proof (cases "k = key_of s r")
      case True
      then show ?thesis using p by (auto simp: f loc_ok_def)
    next
      case False
      then have "loc_ok s p" using p inv by (auto simp: f store_inv_def indexed_def)
      then show ?thesis using loc_ok_cong [of ?s s] by (simp add: f)
    qed
  qed
  moreover have "distinct (map fst (ts_index ?s))" using inv by (simp add: f store_inv_def indexed_def)
  ultimately show "store_inv ff ?s"
    using phys inv put_fresh [OF fresh] by (simp add: store_inv_def indexed_def has_key_def f add.commute)
qed

text \<open>Marking the version a key names and removing the key, as updates and deletes do.\<close>

definition drop_key :: "bytes \<Rightarrow> loc \<Rightarrow> u64 \<Rightarrow> table_store \<Rightarrow> table_store" where
  "drop_key k p l s = (mark_deleted p l s)\<lparr>ts_index := idx_remove k (ts_index s)\<rparr>"

lemma drop_inv:
  assumes inv: "store_inv ff s" and k: "map_of (ts_index s) k = Some p" and small: "length (ts_index s) < 2 ^ 64"
  shows "store_inv ff (drop_key k p l s)"
    and "versions ff (drop_key k p l s) = (versions ff s)[pos s p := (versions ff s ! pos s p)\<lparr>v_del := Some l\<rparr>]"
proof -
  let ?m = "mark_deleted p l s" and ?s = "drop_key k p l s"
  have ok: "loc_ok s p" and idx: "positions s k = Some (pos s p)" and abs: "abs_idx (positions s) (key_of s) (versions ff s)"
    using inv k by (auto simp: store_inv_def indexed_def positions_def)
  have live: "live (versions ff s ! pos s p)" using abs idx by (auto simp: abs_idx_def)
  have phys: "physical_ok ff ?m" using mark_physical ok live inv by (simp add: store_inv_def)
  have f: "ts_segments ?s = ts_segments ?m" "batch_of ?s = batch_of ?m" "sidecar_of ?s = sidecar_of ?m" "ts_open ?s = ts_open ?m"
    "ts_columns ?s = ts_columns ?m" "ts_sidecars ?s = ts_sidecars ?m" "ts_files ?s = ts_files ?m" "ts_cache ?s = ts_cache ?m"
    by (auto simp: drop_key_def batch_of_def sidecar_of_def fun_eq_iff)
  show v: "versions ff ?s = (versions ff s)[pos s p := (versions ff s ! pos s p)\<lparr>v_del := Some l\<rparr>]"
    using versions_cong [of ?s ?m ff] f mark_versions [OF ok live] by simp
  have phys': "physical_ok ff ?s" using phys unfolding physical_ok_def f .
  have g: "ts_key_idx ?s = ts_key_idx s" "ts_columns ?s = ts_columns s" "ts_index ?s = idx_remove k (ts_index s)"
    by (simp_all add: drop_key_def mark_deleted_def Let_def split: option.splits)
  have key: "key_of ?s = key_of s" by (simp add: key_of_def g fun_eq_iff)
  have "pos ?s = pos ?m" using pos_cong f(1,2) by blast
  then have pos: "pos ?s = pos s" using mark_pos by simp
  have lok: "loc_ok ?s q" if "loc_ok s q" for q
    using loc_ok_cong [of ?s ?m q] mark_pos(2) that f by simp
  have "positions ?s = (positions s)(k := None)" by (auto simp: positions_def g pos fun_eq_iff)
  then have "abs_idx (positions ?s) (key_of ?s) (versions ff ?s)"
    using abs_idx_mark [OF abs idx] unfolding v key by simp
  then have ind: "indexed ff ?s"
    using inv lok by (auto simp: indexed_def g store_inv_def)
  have dist: "distinct (map fst (ts_index s))" using inv by (simp add: store_inv_def indexed_def)
  have len: "Suc (length (idx_remove k (ts_index s))) = length (ts_index s)" by (rule remove_length [OF dist k])
  have "ts_live s = word_of_nat (length (ts_index s))" using inv by (simp add: store_inv_def)
  moreover have "ts_live ?s = (if ts_live s = 0 then 0 else ts_live s - 1)"
    by (simp add: drop_key_def mark_deleted_def Let_def split: option.splits)
  moreover have "(word_of_nat (length (ts_index s)) :: u64) \<noteq> 0"
    using small len of_nat_inverse_64 [OF small] by (metis nat.distinct(1) unat_0)
  ultimately have "ts_live ?s = word_of_nat (length (idx_remove k (ts_index s)))"
    unfolding len [symmetric] by simp
  then show "store_inv ff ?s"
    using phys' inv ind by (simp add: store_inv_def has_key_def g)
qed


section \<open>Flushing\<close>

definition cell_ok :: "float_fmt \<Rightarrow> column_spec \<Rightarrow> rstr option \<Rightarrow> bool" where
  "cell_ok ff c x \<longleftrightarrow> (\<forall>v. x = Some v \<longrightarrow>
     (\<exists>cell. build_cell ff (cs_name c) (arrow_type (cs_type_oid c)) v = Ok cell \<and> render_cell ff cell = v))"

lemma build_array_ok:
  "\<forall>r \<in> set rows. cell_ok ff c (or_values r ! i) \<Longrightarrow>
    \<exists>a. build_array ff (cs_name c) (arrow_type (cs_type_oid c)) rows i = Ok a \<and> length a = length rows \<and>
      (\<forall>j < length rows. map_option (render_cell ff) (a ! j) = or_values (rows ! j) ! i)"
proof (induction rows)
  case (Cons r rows)
  then obtain a where a: "build_array ff (cs_name c) (arrow_type (cs_type_oid c)) rows i = Ok a" "length a = length rows"
    "\<forall>j < length rows. map_option (render_cell ff) (a ! j) = or_values (rows ! j) ! i" by auto
  obtain x where x: "(case or_values r ! i of None \<Rightarrow> Ok None
      | Some v \<Rightarrow> res_bind (build_cell ff (cs_name c) (arrow_type (cs_type_oid c)) v) (\<lambda>c. Ok (Some c))) = Ok x"
    "map_option (render_cell ff) x = or_values r ! i"
    using Cons.prems by (cases "or_values r ! i") (auto simp: cell_ok_def)
  then have "map_option (render_cell ff) ((x # a) ! j) = or_values ((r # rows) ! j) ! i" if "j < length (r # rows)" for j
    using a(3) that by (cases j) auto
  then show ?case using a x by (intro exI [of _ "x # a"]) simp
qed simp

lemma build_columns_ok:
  assumes "\<forall>r \<in> set rows. length (or_values r) = i + length cols \<and>
      (\<forall>q < length cols. cell_ok ff (cols ! q) (or_values r ! (i + q)))"
  shows "\<exists>as. build_columns ff i cols rows = Ok as \<and>
    (\<forall>j < length rows. map (\<lambda>col. map_option (render_cell ff) (col ! j)) as = drop i (or_values (rows ! j)))"
  using assms
proof (induction cols arbitrary: i)
  case Nil
  then show ?case by simp
next
  case (Cons c cols)
  have "\<forall>r \<in> set rows. cell_ok ff c (or_values r ! i)" using Cons.prems by fastforce
  from build_array_ok [OF this] obtain a where a: "build_array ff (cs_name c) (arrow_type (cs_type_oid c)) rows i = Ok a"
    "\<forall>j < length rows. map_option (render_cell ff) (a ! j) = or_values (rows ! j) ! i" by blast
  have "\<forall>r \<in> set rows. length (or_values r) = Suc i + length cols \<and>
      (\<forall>q < length cols. cell_ok ff (cols ! q) (or_values r ! (Suc i + q)))"
    using Cons.prems by fastforce
  from Cons.IH [OF this] obtain as where as: "build_columns ff (Suc i) cols rows = Ok as"
    "\<forall>j < length rows. map (\<lambda>col. map_option (render_cell ff) (col ! j)) as = drop (Suc i) (or_values (rows ! j))" by blast
  have "drop i (or_values (rows ! j)) = or_values (rows ! j) ! i # drop (Suc i) (or_values (rows ! j))"
    if "j < length rows" for j
    using Cons.prems nth_mem [OF that] by (intro Cons_nth_drop_Suc [symmetric]) fastforce
  then show ?case using a as by (intro exI [of _ "a # as"]) simp
qed

lemma build_batch_ok:
  assumes "\<forall>r \<in> set rows. canonical ff cols (or_values r)"
  shows "\<exists>b. build_batch ff cols rows = Ok b \<and> sb_lsns b = map or_insert rows \<and>
    (\<forall>j < length rows. render_row ff b j = or_values (rows ! j))"
proof -
  have "\<forall>r \<in> set rows. length (or_values r) = 0 + length cols \<and>
      (\<forall>q < length cols. cell_ok ff (cols ! q) (or_values r ! (0 + q)))"
    using assms by (auto simp: canonical_def cell_ok_def)
  from build_columns_ok [OF this] show ?thesis by (fastforce simp: build_batch_def render_row_def)
qed

lemma min_lsn_le: "l \<in> set ls \<Longrightarrow> min_lsn ls \<le> l"
proof -
  have "foldl min a xs \<le> a \<and> (\<forall>x \<in> set xs. foldl min a xs \<le> x)" for a :: u64 and xs
  proof (induction xs arbitrary: a)
    case (Cons x xs)
    have "foldl min (min a x) xs \<le> min a x" using Cons by blast
    then show ?case using Cons by auto
  qed simp
  then show "l \<in> set ls \<Longrightarrow> min_lsn ls \<le> l" by (auto simp: min_lsn_def split: list.splits)
qed

lemma open_deletes_map:
  "map_of (open_deletes i rows) r = (if i \<le> r \<and> r < i + length rows then or_delete (rows ! (r - i)) else None)"
proof (induction i rows rule: open_deletes.induct)
  case (2 i r' rows)
  then show ?case by (auto simp: nth_Cons' split: option.splits)
qed auto

lemma open_deletes_ge: "x \<in> fst ` set (open_deletes i rows) \<Longrightarrow> i \<le> x"
  by (induction i rows rule: open_deletes.induct) (auto split: option.splits intro: Suc_leD)

lemma open_deletes_distinct: "distinct (map fst (open_deletes i rows))"
proof (induction i rows rule: open_deletes.induct)
  case (2 i r rows)
  then show ?case using open_deletes_ge [of i "Suc i" rows] by (auto split: option.splits)
qed simp

lemma reindex_frame: "\<exists>m. reindex sid i rows s = s\<lparr>ts_index := m\<rparr>"
proof (induction rows arbitrary: i s)
  case Nil
  show ?case by (auto intro: exI [of _ "ts_index s"])
next
  case (Cons r rows)
  obtain m where "reindex sid i (r # rows) s = reindex sid (Suc i) rows (s\<lparr>ts_index := m\<rparr>)"
    by (cases "or_delete r") (auto intro: that [of "ts_index s"])
  then show ?case using Cons by (metis table_store.update_convs(8) table_store.surjective)
qed

text \<open>After reindexing, a key of a live row of the list names that row, every other key what it did.\<close>

lemma reindex_none:
  "\<forall>r \<in> set rows. or_delete r = None \<longrightarrow> key_of s (or_values r) \<noteq> k \<Longrightarrow>
     map_of (ts_index (reindex sid i rows s)) k = map_of (ts_index s) k"
proof (induction rows arbitrary: i s)
  case (Cons r rows)
  show ?case
    using Cons.prems Cons.IH [of s] Cons.IH [of "s\<lparr>ts_index := idx_put (key_of s (or_values r)) \<lparr>loc_seg = Some sid, loc_row = i\<rparr> (ts_index s)\<rparr>"]
    by (auto simp: key_of_def)
qed simp

lemma reindex_hit:
  assumes "j < length rows" "or_delete (rows ! j) = None" "key_of s (or_values (rows ! j)) = k"
    "\<And>j'. j' < length rows \<Longrightarrow> or_delete (rows ! j') = None \<Longrightarrow> key_of s (or_values (rows ! j')) = k \<Longrightarrow> j' = j"
  shows "map_of (ts_index (reindex sid i rows s)) k = Some \<lparr>loc_seg = Some sid, loc_row = i + j\<rparr>"
  using assms
proof (induction rows arbitrary: i j s)
  case (Cons r rows)
  let ?s = "s\<lparr>ts_index := idx_put (key_of s (or_values r)) \<lparr>loc_seg = Some sid, loc_row = i\<rparr> (ts_index s)\<rparr>"
  have key: "key_of ?s = key_of s" by (simp add: key_of_def fun_eq_iff)
  show ?case
  proof (cases j)
    case 0
    have "\<forall>x \<in> set rows. or_delete x = None \<longrightarrow> key_of ?s (or_values x) \<noteq> k"
    proof (intro ballI impI)
      fix x assume x: "x \<in> set rows" "or_delete x = None"
      then obtain q where "q < length rows" "rows ! q = x" by (auto simp: in_set_conv_nth)
      then show "key_of ?s (or_values x) \<noteq> k" using Cons.prems(4) [of "Suc q"] x 0 key by auto
    qed
    then show ?thesis using reindex_none [of rows ?s k sid "Suc i"] Cons.prems(2,3) 0 by simp
  next
    case (Suc q)
    have "map_of (ts_index (reindex sid (Suc i) rows s')) k = Some \<lparr>loc_seg = Some sid, loc_row = Suc i + q\<rparr>"
      if "key_of s' = key_of s" for s'
    proof (rule Cons.IH)
      fix j' assume "j' < length rows" "or_delete (rows ! j') = None" "key_of s' (or_values (rows ! j')) = k"
      then show "j' = q" using Cons.prems(4) [of "Suc j'"] Suc that by simp
    qed (use Cons.prems Suc that in simp_all)
    then show ?thesis using Suc key by simp
  qed
qed simp

lemma reindex_distinct: "distinct (map fst (ts_index s)) \<Longrightarrow> distinct (map fst (ts_index (reindex sid i rows s)))"
  by (induction rows arbitrary: i s) auto

lemma length_index: "distinct (map fst m) \<Longrightarrow> length m = card (dom (map_of m))"
  by (metis distinct_card dom_map_of_conv_image_fst length_map list.set_map)

lemma flush_inv:
  assumes inv: "store_inv ff s"
  shows "\<exists>s'. flush ff True s = (Ok (), s') \<and> store_inv ff s' \<and> versions ff s' = versions ff s \<and>
    ts_key_idx s' = ts_key_idx s \<and> ts_columns s' = ts_columns s \<and>
    length (ts_index s') = length (ts_index s)"
proof (cases "ts_open s = []")
  case True
  then show ?thesis using inv by (simp add: flush_def)
next
  case False
  let ?rows = "ts_open s" and ?n = "length (ts_segments s)"
  have phys: "physical_ok ff s" and hk: "has_key s" using inv by (simp_all add: store_inv_def)
  from build_batch_ok [of ?rows ff "ts_columns s"] phys obtain b where b: "build_batch ff (ts_columns s) ?rows = Ok b"
    "sb_lsns b = map or_insert ?rows" "\<forall>j < length ?rows. render_row ff b j = or_values (?rows ! j)"
    by (auto simp: physical_ok_def)
  have none: "map_of (ts_sidecars s) ?n = None" using phys by (simp add: physical_ok_def)
  let ?u = "s\<lparr>ts_open := [], ts_files := idx_put ?n b (ts_files s),
      ts_sidecars := bt_insert ?n (open_deletes 0 ?rows) (ts_sidecars s)\<rparr>"
  let ?m = "\<lparr>sm_id = ?n, sm_rows = length ?rows, sm_lsn_min = min_lsn (map or_insert ?rows),
      sm_lsn_max = max_lsn (map or_insert ?rows)\<rparr>"
  let ?r = "reindex ?n 0 ?rows ?u"
  define s' where "s' = ?r\<lparr>ts_segments := ts_segments ?r @ [?m]\<rparr>"
  obtain idx where r: "?r = ?u\<lparr>ts_index := idx\<rparr>" using reindex_frame by blast
  have fl: "flush ff True s = (Ok (), s')"
    using False b(1) hk none by (simp add: flush_def Let_def has_key_def s'_def)
  have f: "ts_segments s' = ts_segments s @ [?m]" "ts_open s' = []" "ts_files s' = idx_put ?n b (ts_files s)"
    "ts_sidecars s' = bt_insert ?n (open_deletes 0 ?rows) (ts_sidecars s)" "ts_key_idx s' = ts_key_idx s"
    "ts_columns s' = ts_columns s" "ts_cache s' = ts_cache s" "ts_live s' = ts_live s" "ts_index s' = ts_index ?r"
    by (simp_all add: r s'_def)
  have ba: "batch_of s' i = (if i = ?n then b else batch_of s i)"
    and si: "sidecar_of s' i = (if i = ?n then open_deletes 0 ?rows else sidecar_of s i)" for i
    using none by (simp_all add: batch_of_def sidecar_of_def f)
  have old: "seg_versions ff s' i = seg_versions ff s i" if "i < ?n" for i
    using that by (simp add: seg_versions_def ba si)
  have new: "seg_versions ff s' ?n = map open_version ?rows"
  proof (rule nth_equalityI)
    show "length (seg_versions ff s' ?n) = length (map open_version ?rows)" by (simp add: ba b(2))
    fix j assume "j < length (seg_versions ff s' ?n)"
    then have j: "j < length ?rows" by (simp add: ba b(2))
    then show "seg_versions ff s' ?n ! j = map open_version ?rows ! j"
      using b(2,3) by (simp add: seg_versions_def ba si open_version_def open_deletes_map)
  qed
  have "concat (map (seg_versions ff s') [0..<?n]) = concat (map (seg_versions ff s) [0..<?n])"
    using old by (intro arg_cong [of _ _ concat] map_cong) simp_all
  then have v: "versions ff s' = versions ff s"
    unfolding versions_def f using new by simp
  have key: "key_of s' = key_of s" "key_of ?u = key_of s" by (simp_all add: key_of_def f fun_eq_iff)
  have base: "seg_base s' i = seg_base s i" if "i \<le> ?n" for i
    unfolding seg_base_def using that by (intro arg_cong [of _ _ sum_list] map_cong) (simp_all add: ba)
  have abs: "abs_idx (positions s) (key_of s) (versions ff s)" and dist: "distinct (map fst (ts_index s))"
    and loc: "\<And>k l. map_of (ts_index s) k = Some l \<Longrightarrow> loc_ok s l"
    using inv by (auto simp: store_inv_def indexed_def)
  have hit: "positions s k = Some (seg_base s ?n + j)"
    if "j < length ?rows" "or_delete (?rows ! j) = None" "key_of s (or_values (?rows ! j)) = k" for j k
    using abs that versions_nth_open [OF that(1), of ff] unfolding abs_idx_def
    by (simp add: length_versions open_version_def)
  have look: "map_of (ts_index s') k = Some \<lparr>loc_seg = Some ?n, loc_row = j\<rparr>"
    if j: "j < length ?rows" "or_delete (?rows ! j) = None" "key_of s (or_values (?rows ! j)) = k" for j k
  proof -
    have "map_of (ts_index ?r) k = Some \<lparr>loc_seg = Some ?n, loc_row = 0 + j\<rparr>"
    proof (rule reindex_hit)
      fix j' assume "j' < length ?rows" "or_delete (?rows ! j') = None" "key_of ?u (or_values (?rows ! j')) = k"
      then show "j' = j" using hit [of j' k] hit [OF j] key by simp
    qed (use j key in simp_all)
    then show ?thesis by (simp add: f)
  qed
  have miss: "map_of (ts_index s') k = map_of (ts_index s) k"
    if "\<forall>j < length ?rows. or_delete (?rows ! j) = None \<longrightarrow> key_of s (or_values (?rows ! j)) \<noteq> k" for k
  proof -
    have "\<forall>r \<in> set ?rows. or_delete r = None \<longrightarrow> key_of ?u (or_values r) \<noteq> k"
      using that key by (auto simp: in_set_conv_nth)
    from reindex_none [OF this, of ?n 0] show ?thesis by (simp add: f)
  qed
  have cases: "positions s' k = positions s k \<and> (\<forall>l. map_of (ts_index s') k = Some l \<longrightarrow> loc_ok s' l)" for k
  proof (cases "\<exists>j < length ?rows. or_delete (?rows ! j) = None \<and> key_of s (or_values (?rows ! j)) = k")
    case True
    then obtain j where j: "j < length ?rows" "or_delete (?rows ! j) = None" "key_of s (or_values (?rows ! j)) = k" by blast
    have "pos s' \<lparr>loc_seg = Some ?n, loc_row = j\<rparr> = seg_base s ?n + j" using base [of ?n] by (simp add: pos_def)
    moreover have "loc_ok s' \<lparr>loc_seg = Some ?n, loc_row = j\<rparr>" using j(1) b(2) by (simp add: loc_ok_def f ba)
    moreover have "positions s' k = Some (pos s' \<lparr>loc_seg = Some ?n, loc_row = j\<rparr>)"
      by (simp add: positions_def look [OF j])
    ultimately show ?thesis using look [OF j] hit [OF j] by simp
  next
    case False
    then have m: "map_of (ts_index s') k = map_of (ts_index s) k" by (intro miss) blast
    show ?thesis
    proof (cases "map_of (ts_index s) k")
      case None
      then show ?thesis using m by (simp add: positions_def)
    next
      case (Some l)
      have "loc_seg l \<noteq> None"
      proof
        assume o: "loc_seg l = None"
        then have j: "loc_row l < length ?rows" using loc [OF Some] by (simp add: loc_ok_def)
        have "positions s k = Some (seg_base s ?n + loc_row l)" using Some o by (simp add: positions_def pos_def)
        then have "live (versions ff s ! (seg_base s ?n + loc_row l)) \<and>
            key_of s (v_values (versions ff s ! (seg_base s ?n + loc_row l))) = k"
          using abs unfolding abs_idx_def by blast
        then show False using False j versions_nth_open [OF j, of ff] by (auto simp: open_version_def)
      qed
      then obtain i where i: "loc_seg l = Some i" by blast
      then have "i < ?n" "loc_row l < length (sb_lsns (batch_of s i))" using loc [OF Some] by (simp_all add: loc_ok_def)
      then have "pos s' l = pos s l" "loc_ok s' l" using i base [of i] by (simp_all add: pos_def loc_ok_def f ba)
      then show ?thesis using m Some by (simp add: positions_def)
    qed
  qed
  have P: "positions s' = positions s" using cases by blast
  have dist': "distinct (map fst (ts_index s'))" using reindex_distinct [of ?u ?n 0 ?rows] dist by (simp add: f)
  have "(map_of (ts_index s') k = None) = (map_of (ts_index s) k = None)" for k
    using fun_cong [OF P, of k] unfolding positions_def by (metis option.map_disc_iff)
  then have "dom (map_of (ts_index s')) = dom (map_of (ts_index s))" by (auto simp: dom_def)
  then have len: "length (ts_index s') = length (ts_index s)" using length_index dist dist' by metis
  have ids: "map sm_id (ts_segments s) = [0..<?n]"
    and files: "\<forall>i < ?n. map_of (ts_files s) i = Some (batch_of s i) \<and>
        (\<forall>l \<in> set (sb_lsns (batch_of s i)). sm_lsn_min (ts_segments s ! i) \<le> l)"
    and side: "\<forall>i. ?n \<le> i \<longrightarrow> map_of (ts_sidecars s) i = None" and sdist: "\<forall>i. distinct (map fst (sidecar_of s i))"
    and cache: "\<forall>i rows. ts_cache s = Some (i, rows) \<longrightarrow> i < ?n \<and>
        rows = map (render_row ff (batch_of s i)) [0..<length (sb_lsns (batch_of s i))]"
    using phys unfolding physical_ok_def by blast+
  have "\<forall>i < Suc ?n. map_of (ts_files s') i = Some (batch_of s' i) \<and>
        (\<forall>l \<in> set (sb_lsns (batch_of s' i)). sm_lsn_min (ts_segments s' ! i) \<le> l)"
  proof (intro allI impI)
    fix i assume "i < Suc ?n"
    then consider "i < ?n" | "i = ?n" by linarith
    then show "map_of (ts_files s') i = Some (batch_of s' i) \<and>
        (\<forall>l \<in> set (sb_lsns (batch_of s' i)). sm_lsn_min (ts_segments s' ! i) \<le> l)"
    proof cases
      case 1
      then show ?thesis using files by (simp add: f ba nth_append)
    next
      case 2
      then show ?thesis using min_lsn_le [of _ "map or_insert ?rows"] b(2) by (simp add: f ba nth_append)
    qed
  qed
  moreover have "\<forall>i. distinct (map fst (sidecar_of s' i))" using sdist open_deletes_distinct by (simp add: si)
  ultimately have phys': "physical_ok ff s'"
    unfolding physical_ok_def using ids side cache by (auto simp: f ba)
  have "store_inv ff s'"
    using phys' inv cases dist' abs len unfolding store_inv_def indexed_def P v key
    by (simp add: has_key_def f)
  then show ?thesis using fl v f len by blast
qed


section \<open>Reading a prior version\<close>

lemma cache_inv:
  assumes "store_inv ff s" "i < length (ts_segments s)"
  shows "store_inv ff (s\<lparr>ts_cache := Some (i, map (render_row ff (batch_of s i)) [0..<length (sb_lsns (batch_of s i))])\<rparr>)"
    and "versions ff (s\<lparr>ts_cache := c\<rparr>) = versions ff s"
    and "pos (s\<lparr>ts_cache := c\<rparr>) = pos s"
proof -
  let ?s = "\<lambda>c. s\<lparr>ts_cache := c\<rparr>"
  have ba: "batch_of (?s c) = batch_of s" "sidecar_of (?s c) = sidecar_of s" for c
    by (simp_all add: batch_of_def sidecar_of_def fun_eq_iff)
  show v: "versions ff (?s c) = versions ff s" for c by (rule versions_cong) (simp_all add: ba)
  show p: "pos (?s c) = pos s" for c using pos_cong [of "?s c" s] ba by simp
  have lok: "loc_ok (?s c) l" if "loc_ok s l" for c l using loc_ok_cong [of "?s c" s l] ba that by simp
  have "key_of (?s c) = key_of s" "positions (?s c) = positions s" for c
    by (simp_all add: key_of_def [abs_def] positions_def [abs_def] p)
  then show "store_inv ff (?s (Some (i, map (render_row ff (batch_of s i)) [0..<length (sb_lsns (batch_of s i))])))"
    using assms lok unfolding store_inv_def indexed_def v physical_ok_def ba by (simp add: has_key_def)
qed

lemma read_rows:
  assumes "physical_ok ff s" "i < length (ts_segments s)"
  shows "read_segment_rows ff i s = Ok (map (render_row ff (batch_of s i)) [0..<length (sb_lsns (batch_of s i))])"
proof -
  have "map_of (ts_files s) i = Some (batch_of s i)" using assms by (simp add: physical_ok_def)
  moreover have "filter (\<lambda>r. True \<and> sb_lsns (batch_of s i) ! r \<le> - 1) [0..<length (sb_lsns (batch_of s i))] =
      [0..<length (sb_lsns (batch_of s i))]"
    by (simp add: filter_id_conv)
  ultimately show ?thesis by (simp add: read_segment_rows_def rendered_rows_def)
qed

lemma fetch_ok:
  assumes inv: "store_inv ff s" and ok: "loc_ok s l"
  shows "\<exists>c. fetch_value ff l col s = (Ok (v_values (versions ff s ! pos s l) ! col), s\<lparr>ts_cache := c\<rparr>) \<and>
    store_inv ff (s\<lparr>ts_cache := c\<rparr>)"
proof (cases "loc_seg l")
  case None
  then have "loc_row l < length (ts_open s)" using ok by (simp add: loc_ok_def)
  then show ?thesis
    using None inv versions_nth_open [of "loc_row l" s ff]
    by (intro exI [of _ "ts_cache s"]) (simp add: fetch_value_def pos_def open_version_def loc_in_def)
next
  case (Some i)
  then have i: "i < length (ts_segments s)" "loc_row l < length (sb_lsns (batch_of s i))"
    using ok by (simp_all add: loc_ok_def)
  let ?rows = "map (render_row ff (batch_of s i)) [0..<length (sb_lsns (batch_of s i))]"
  have phys: "physical_ok ff s" using inv by (simp add: store_inv_def)
  have "fetch_value ff l col s = (Ok (?rows ! loc_row l ! col), s\<lparr>ts_cache := Some (i, ?rows)\<rparr>)"
  proof (cases "\<exists>rows. ts_cache s = Some (i, rows)")
    case True
    then have c: "ts_cache s = Some (i, ?rows)" using phys by (auto simp: physical_ok_def)
    then have "s\<lparr>ts_cache := Some (i, ?rows)\<rparr> = s" by simp
    then show ?thesis using c Some by (simp add: fetch_value_def)
  next
    case False
    then show ?thesis
      using read_rows [OF phys i(1)] Some by (cases "ts_cache s") (auto simp: fetch_value_def)
  qed
  moreover have "v_values (versions ff s ! pos s l) = ?rows ! loc_row l"
    using versions_nth_seg [OF i, of ff] i(2) by (simp add: pos_def Some seg_versions_def)
  ultimately show ?thesis using cache_inv(1) [OF inv i(1)] by auto
qed

text \<open>The row a change carries, unchanged TOAST columns taken from the prior version.\<close>

fun resolve :: "nat \<Rightarrow> row option \<Rightarrow> named_row \<Rightarrow> row" where
  "resolve i prior [] = []"
| "resolve i prior ((n, v) # named) =
     (case v of TText t \<Rightarrow> Some t | TUnchangedToast \<Rightarrow> (case prior of Some p \<Rightarrow> p ! i | None \<Rightarrow> None) | _ \<Rightarrow> None)
       # resolve (Suc i) prior named"

lemma tuple_values_ok:
  assumes "tuple_values ff i named prior s = (Ok vals, s')" "store_inv ff s" "\<And>l. prior = Some l \<Longrightarrow> loc_ok s l"
  shows "vals = resolve i (map_option (\<lambda>l. v_values (versions ff s ! pos s l)) prior) named \<and>
    (\<exists>c. s' = s\<lparr>ts_cache := c\<rparr>) \<and> store_inv ff s'"
  using assms
proof (induction ff i named prior s arbitrary: vals s' rule: tuple_values.induct)
  case (1 ff i prior s)
  then show ?case by (auto intro: exI [of _ "ts_cache s"])
next
  case (2 ff i name v named prior s)
  let ?prior = "map_option (\<lambda>l. v_values (versions ff s ! pos s l)) prior"
  from 2(2) obtain x s1 vs where x: "(case v of TText t \<Rightarrow> (Ok (Some t), s) | TNull \<Rightarrow> (Ok None, s)
      | TUnchangedToast \<Rightarrow> (case prior of None \<Rightarrow> (Err ToastWithoutPrior, s) | Some l \<Rightarrow> fetch_value ff l i s)
      | TBinary _ \<Rightarrow> (Err BinaryValue, s)) = (Ok x, s1)"
    and vs: "tuple_values ff (Suc i) named prior s1 = (Ok vs, s')" "vals = x # vs" and n: "name = cs_name (ts_columns s ! i)"
    by (auto simp: st_bind_Ok_iff split: if_splits)
  have s1: "(\<exists>c. s1 = s\<lparr>ts_cache := c\<rparr>) \<and> store_inv ff s1 \<and>
      x = (case v of TText t \<Rightarrow> Some t | TUnchangedToast \<Rightarrow> (case ?prior of Some p \<Rightarrow> p ! i | None \<Rightarrow> None) | _ \<Rightarrow> None)"
  proof (cases v)
    case TUnchangedToast
    then obtain l where l: "prior = Some l" using x by (cases prior) auto
    from fetch_ok [OF 2(3) 2(4) [OF l], of i] show ?thesis using x TUnchangedToast l by auto
  qed (use x 2(3) in \<open>auto intro: exI [of _ "ts_cache s"]\<close>)
  then obtain c where c: "s1 = s\<lparr>ts_cache := c\<rparr>" by blast
  have same: "versions ff s1 = versions ff s" "pos s1 = pos s" "\<And>l. loc_ok s l \<Longrightarrow> loc_ok s1 l"
    using loc_ok_cong [of s1 s] versions_cong [of s1 s ff] pos_cong [of s1 s]
    by (simp_all add: c batch_of_def [abs_def] sidecar_of_def)
  have IH: "vs = resolve (Suc i) (map_option (\<lambda>l. v_values (versions ff s1 ! pos s1 l)) prior) named \<and>
      (\<exists>c. s' = s1\<lparr>ts_cache := c\<rparr>) \<and> store_inv ff s'"
    by (rule 2(1) [OF _ vs(1)]) (use n s1 2(4) same(3) x in auto)
  then show ?case using s1 c vs(2) same by (auto split: option.splits)
qed

end
