(* ===== verification/ColumnarMvcc.thy ===== *)
theory ColumnarMvcc
  imports ColumnarVersions
begin

text \<open>
  The specification of the table store: a table is the list of its live rows, a change edits it
  (\<open>spec_apply\<close>), and a scan of the store at an LSN returns the table as the changes up to that LSN leave
  it. The proofs rest on the version invariant of \<open>ColumnarVersions\<close>.
\<close>

section \<open>Specification\<close>

definition image_of :: "typed_change \<Rightarrow> named_row" where
  "image_of c = (case tc_new c of Some n \<Rightarrow> n | None \<Rightarrow> [])"

text \<open>The key a change removes: that of the old image, or of the new one when there is no old.\<close>

definition old_image :: "typed_change \<Rightarrow> named_row" where
  "old_image c = (case tc_old c of Some old \<Rightarrow> old | None \<Rightarrow> image_of c)"

fun spec_apply :: "(row \<Rightarrow> bytes) \<Rightarrow> typed_change \<Rightarrow> row list \<Rightarrow> row list" where
  "spec_apply key c T =
     (let k = key (image_values (old_image c)) in
      case tc_op c of
        OInsert \<Rightarrow> T @ [resolve 0 None (image_of c)]
      | OUpdate \<Rightarrow> filter (\<lambda>r. key r \<noteq> k) T @ [resolve 0 (find (\<lambda>r. key r = k) T) (image_of c)]
      | ODelete \<Rightarrow> filter (\<lambda>r. key r \<noteq> k) T
      | OTruncate \<Rightarrow> [])"

definition spec_run :: "(row \<Rightarrow> bytes) \<Rightarrow> typed_change list \<Rightarrow> row list \<Rightarrow> row list" where
  "spec_run key cs T = fold (spec_apply key) cs T"

text \<open>
  What the source database guarantees: the row a change leaves has no key another row holds (the
  primary key), and its values are in the form a typed column prints.
\<close>

definition admissible :: "float_fmt \<Rightarrow> column_spec list \<Rightarrow> (row \<Rightarrow> bytes) \<Rightarrow> typed_change \<Rightarrow> row list \<Rightarrow> bool" where
  "admissible ff cols key c T \<longleftrightarrow>
     (tc_op c \<in> {OInsert, OUpdate} \<longrightarrow>
        (let T' = spec_apply key c T in
         canonical ff cols (last T') \<and> key (last T') \<notin> key ` set (butlast T')))"

fun admissible_run :: "float_fmt \<Rightarrow> column_spec list \<Rightarrow> (row \<Rightarrow> bytes) \<Rightarrow> typed_change list \<Rightarrow> row list \<Rightarrow> bool" where
  "admissible_run ff cols key [] T = True"
| "admissible_run ff cols key (c # cs) T =
     (admissible ff cols key c T \<and> admissible_run ff cols key cs (spec_apply key c T))"

lemma head_row:
  "abs_idx I key vs \<Longrightarrow> r \<in> set (head_table vs) \<longleftrightarrow> (\<exists>p. I (key r) = Some p \<and> v_values (vs ! p) = r)"
  unfolding abs_idx_def head_table_def by (fastforce simp: in_set_conv_nth)

lemma idx_fresh: "abs_idx I key vs \<Longrightarrow> k \<notin> key ` set (head_table vs) \<Longrightarrow> I k = None"
proof (rule ccontr)
  assume a: "abs_idx I key vs" "k \<notin> key ` set (head_table vs)" "I k \<noteq> None"
  then obtain p where p: "I k = Some p" by blast
  then have "key (v_values (vs ! p)) = k" using a(1) by (auto simp: abs_idx_def)
  then have "v_values (vs ! p) \<in> set (head_table vs)" using head_row [OF a(1)] p by blast
  then show False using a(2) \<open>key (v_values (vs ! p)) = k\<close> by blast
qed

lemma find_head:
  assumes "abs_idx I key vs" "I k = Some p"
  shows "find (\<lambda>r. key r = k) (head_table vs) = Some (v_values (vs ! p))"
proof -
  have p: "v_values (vs ! p) \<in> set (head_table vs)" "key (v_values (vs ! p)) = k"
    using assms head_row [OF assms(1)] by (auto simp: abs_idx_def)
  then obtain r where r: "find (\<lambda>r. key r = k) (head_table vs) = Some r"
    by (cases "find (\<lambda>r. key r = k) (head_table vs)") (auto simp: find_None_iff)
  then have "r \<in> set (head_table vs)" "key r = k" by (auto simp: find_Some_iff in_set_conv_nth)
  then have "r = v_values (vs ! p)" using head_row [OF assms(1)] assms(2) by auto
  with r show ?thesis by simp
qed

text \<open>One change: what it does to the head, and that it leaves every earlier LSN alone.\<close>

definition steps_to :: "float_fmt \<Rightarrow> u64 \<Rightarrow> row list \<Rightarrow> table_store \<Rightarrow> table_store \<Rightarrow> bool" where
  "steps_to ff l T' s s' \<longleftrightarrow> store_inv ff s' \<and> bounded l (versions ff s') \<and>
     (\<forall>lsn < l. table_at lsn (versions ff s') = table_at lsn (versions ff s)) \<and>
     head_table (versions ff s') = T' \<and> key_of s' = key_of s \<and> ts_columns s' = ts_columns s"

lemma insert_steps:
  assumes inv: "store_inv ff s" and b: "bounded m (versions ff s)" "m \<le> l"
    and r: "canonical ff (ts_columns s) r" "key_of s r \<notin> key_of s ` set (head_table (versions ff s))"
  shows "steps_to ff l (head_table (versions ff s) @ [r]) s (insert_row r l s)"
proof -
  have "positions s (key_of s r) = None"
    using idx_fresh r(2) inv by (auto simp: store_inv_def indexed_def)
  then have fresh: "map_of (ts_index s) (key_of s r) = None" by (simp add: positions_def)
  note i = insert_inv [OF inv r(1) fresh, of l]
  have "bounded l (versions ff (insert_row r l s))"
    using bounded_mono [OF b] unfolding i(2) bounded_def by auto
  moreover have "key_of (insert_row r l s) = key_of s" "ts_columns (insert_row r l s) = ts_columns s"
    using inv by (simp_all add: insert_row_keyed store_inv_def key_of_def [abs_def])
  ultimately show ?thesis
    using i by (simp add: steps_to_def table_at_insert_before head_insert)
qed

lemma drop_steps:
  assumes inv: "store_inv ff s" and b: "bounded m (versions ff s)" "m \<le> l"
    and k: "map_of (ts_index s) k = Some p" and small: "length (ts_index s) < 2 ^ 64"
  shows "steps_to ff l (filter (\<lambda>r. key_of s r \<noteq> k) (head_table (versions ff s))) s (drop_key k p l s)"
proof -
  have idx: "positions s k = Some (pos s p)" and abs: "abs_idx (positions s) (key_of s) (versions ff s)"
    using inv k by (auto simp: store_inv_def indexed_def positions_def)
  then have p: "pos s p < length (versions ff s)" "live (versions ff s ! pos s p)"
    "key_of s (v_values (versions ff s ! pos s p)) = k" by (auto simp: abs_idx_def)
  note d = drop_inv [OF inv k small, of l]
  have "key_of (drop_key k p l s) = key_of s" "ts_columns (drop_key k p l s) = ts_columns s"
    by (simp_all add: drop_key_def mark_deleted_def Let_def key_of_def [abs_def] split: option.splits)
  then show ?thesis
    using d(1) bounded_mark [OF b p(1)] table_at_mark_before [OF p(1,2)]
      head_mark [OF abs_idx_unique [OF abs] p]
    by (simp add: steps_to_def d(2))
qed


lemma steps_trans:
  assumes "steps_to ff l T s s1" "steps_to ff l T' s1 s2"
  shows "steps_to ff l T' s s2"
  using assms by (simp add: steps_to_def)

lemma applied_inv:
  "store_inv ff (s\<lparr>ts_applied := x\<rparr>) = store_inv ff s" "versions ff (s\<lparr>ts_applied := x\<rparr>) = versions ff s"
  "key_of (s\<lparr>ts_applied := x\<rparr>) = key_of s"
proof -
  let ?s = "s\<lparr>ts_applied := x\<rparr>"
  have ba: "batch_of ?s = batch_of s" "sidecar_of ?s = sidecar_of s"
    by (simp_all add: batch_of_def [abs_def] sidecar_of_def [abs_def])
  show v: "versions ff ?s = versions ff s" by (rule versions_cong) (simp_all add: ba)
  have p: "pos ?s = pos s" using pos_cong [of ?s s] ba by simp
  have lok: "loc_ok ?s l \<longleftrightarrow> loc_ok s l" for l using loc_ok_cong [of ?s s l] loc_ok_cong [of s ?s l] ba by auto
  show k: "key_of ?s = key_of s" by (simp add: key_of_def [abs_def])
  have "positions ?s = positions s" by (simp add: positions_def [abs_def] p)
  then show "store_inv ff ?s = store_inv ff s"
    unfolding store_inv_def indexed_def v physical_ok_def ba k lok by (simp add: has_key_def)
qed

lemma flush_steps:
  assumes "store_inv ff s" "bounded l (versions ff s)" "flush ff True s = (Ok (), s')"
  shows "steps_to ff l (head_table (versions ff s)) s s' \<and> length (ts_index s') = length (ts_index s)"
  using flush_inv [OF assms(1)] assms(2,3) by (auto simp: steps_to_def key_of_def [abs_def])

lemma truncate_steps:
  assumes "store_inv ff s" "bounded m (versions ff s)" "m \<le> tc_commit_lsn c" "length (ts_index s) < 2 ^ 64"
  shows "steps_to ff (tc_commit_lsn c) [] s (clear_index (tc_commit_lsn c) s)"
proof -
  let ?l = "tc_commit_lsn c"
  have mark_idx: "mark_deleted p ?l (s\<lparr>ts_index := m\<rparr>) = (mark_deleted p ?l s)\<lparr>ts_index := m\<rparr>" for p m s
    by (auto simp: mark_deleted_def Let_def split: option.splits)
  have fold_idx: "fold (\<lambda>(k, p). mark_deleted p ?l) xs (s\<lparr>ts_index := m\<rparr>) =
      (fold (\<lambda>(k, p). mark_deleted p ?l) xs s)\<lparr>ts_index := m\<rparr>" for xs m s
    by (induction xs arbitrary: s) (auto simp: mark_idx)
  have "steps_to ff ?l [] s ((fold (\<lambda>(k, p). mark_deleted p ?l) xs s)\<lparr>ts_index := []\<rparr>)"
    if "store_inv ff s" "bounded m (versions ff s)" "m \<le> ?l" "ts_index s = xs" "length xs < 2 ^ 64" for xs s m
    using that
  proof (induction xs arbitrary: s m)
    case Nil
    have abs: "abs_idx (positions s) (key_of s) (versions ff s)" using Nil by (simp add: store_inv_def indexed_def)
    have "r \<notin> set (head_table (versions ff s))" for r
      using head_row [OF abs, of r] Nil(4) by (auto simp: positions_def)
    then have "head_table (versions ff s) = []" by (metis ex_in_conv set_empty)
    then have "steps_to ff ?l [] s s" using Nil(1) bounded_mono [OF Nil(2,3)] by (simp add: steps_to_def)
    moreover have "(fold (\<lambda>(k, p). mark_deleted p ?l) ([] :: (bytes \<times> loc) list) s)\<lparr>ts_index := []\<rparr> = s" using Nil(4) by simp
    ultimately show ?case by (simp only:)
  next
    case (Cons x xs)
    obtain k p where x: "x = (k, p)" by (cases x)
    have dist: "distinct (map fst (ts_index s))" using Cons.prems(1) by (simp add: store_inv_def indexed_def)
    have "k \<notin> fst ` set xs" using dist Cons.prems(4) x by simp
    then have rem: "idx_remove k (ts_index s) = xs"
      using Cons.prems(4) x by (force simp: idx_remove_def filter_id_conv)
    let ?s1 = "drop_key k p ?l s"
    have s1: "?s1 = (mark_deleted p ?l s)\<lparr>ts_index := xs\<rparr>" by (simp add: drop_key_def rem)
    have d: "steps_to ff ?l (filter (\<lambda>r. key_of s r \<noteq> k) (head_table (versions ff s))) s ?s1"
      by (rule drop_steps [OF Cons.prems(1-3)]) (use Cons.prems(4,5) x in simp_all)
    have "steps_to ff ?l [] ?s1 ((fold (\<lambda>(k, p). mark_deleted p ?l) xs ?s1)\<lparr>ts_index := []\<rparr>)"
      by (rule Cons.IH [of _ ?l]) (use d Cons.prems(5) s1 in \<open>simp_all add: steps_to_def\<close>)
    moreover have "(fold (\<lambda>(k, p). mark_deleted p ?l) xs ?s1)\<lparr>ts_index := []\<rparr> =
        (fold (\<lambda>(k, p). mark_deleted p ?l) (x # xs) s)\<lparr>ts_index := []\<rparr>"
      unfolding s1 by (simp add: fold_idx x)
    ultimately show ?case using steps_trans [OF d] by simp
  qed
  from this [OF assms(1-3) refl assms(4)] show ?thesis by (simp add: clear_index_def)
qed

lemma cache_steps:
  assumes "store_inv ff s'" "s' = s\<lparr>ts_cache := c\<rparr>"
  shows "versions ff s' = versions ff s" "key_of s' = key_of s" "ts_columns s' = ts_columns s"
    "ts_index s' = ts_index s" "pos s' = pos s"
  using versions_cong [of s' s ff] pos_cong [of s' s]
  by (simp_all add: assms(2) batch_of_def [abs_def] sidecar_of_def key_of_def [abs_def])

lemma mark_index [simp]: "ts_index (mark_deleted p l s) = ts_index s"
  by (simp add: mark_deleted_def Let_def split: option.splits)

lemma apply_core_steps:
  assumes inv: "store_inv ff s" and b: "bounded m (versions ff s)" "m \<le> tc_commit_lsn c"
    and adm: "admissible ff (ts_columns s) (key_of s) c (head_table (versions ff s))"
    and small: "length (ts_index s) < 2 ^ 64"
    and ap: "(case tc_op c of OInsert \<Rightarrow> apply_insert ff c s | OUpdate \<Rightarrow> apply_update ff c s
      | ODelete \<Rightarrow> apply_delete c s | OTruncate \<Rightarrow> apply_truncate c s) = (Ok (), s')"
  shows "steps_to ff (tc_commit_lsn c) (spec_apply (key_of s) c (head_table (versions ff s))) s s'"
proof -
  let ?l = "tc_commit_lsn c" and ?T = "head_table (versions ff s)"
  have abs: "abs_idx (positions s) (key_of s) (versions ff s)" using inv by (simp add: store_inv_def indexed_def)
  show ?thesis
  proof (cases "tc_op c")
    case OInsert
    from ap OInsert obtain named vals s1 where n: "tc_new c = Some named"
      and v: "tuple_values ff 0 named None s = (Ok vals, s1)" and s': "s' = insert_row vals ?l s1"
      by (auto simp: apply_insert_def st_bind_Ok_iff tuple_to_values_def split: if_splits)
    from tuple_values_ok [OF v inv] obtain cc where vals: "vals = resolve 0 None named" and s1: "s1 = s\<lparr>ts_cache := cc\<rparr>" "store_inv ff s1"
      by auto
    note same = cache_steps [OF s1(2,1)]
    have "canonical ff (ts_columns s) vals \<and> key_of s vals \<notin> key_of s ` set ?T"
      using adm OInsert n vals by (simp add: admissible_def image_of_def)
    then have "steps_to ff ?l (?T @ [vals]) s1 s'"
      using insert_steps [OF s1(2), of m ?l vals] b same s' by simp
    then show ?thesis using OInsert n vals same by (simp add: steps_to_def image_of_def)
  next
    case OUpdate
    from ap OUpdate obtain named k p vals s1 where n: "tc_new c = Some named"
      and k: "k = key_of s (image_values (old_image c))" and p: "map_of (ts_index s) k = Some p"
      and v: "tuple_values ff 0 named (Some p) s = (Ok vals, s1)"
      and s': "s' = insert_row vals ?l (drop_key k p ?l s1)"
      by (auto simp: apply_update_def st_bind_Ok_iff tuple_to_values_def image_key_def Let_def drop_key_def
          old_image_def image_of_def split: if_splits option.splits)
    have loc: "loc_ok s p" using inv p by (auto simp: store_inv_def indexed_def)
    from tuple_values_ok [OF v inv] loc obtain cc where
      vals: "vals = resolve 0 (Some (v_values (versions ff s ! pos s p))) named"
      and s1: "s1 = s\<lparr>ts_cache := cc\<rparr>" "store_inv ff s1" by auto
    note same = cache_steps [OF s1(2,1)]
    have "positions s k = Some (pos s p)" using p by (simp add: positions_def)
    from find_head [OF abs this] have fnd: "find (\<lambda>r. key_of s r = k) ?T = Some (v_values (versions ff s ! pos s p))" .
    let ?T1 = "filter (\<lambda>r. key_of s r \<noteq> k) ?T"
    have d: "steps_to ff ?l ?T1 s1 (drop_key k p ?l s1)"
      using drop_steps [OF s1(2), of m ?l k p] b same p small by simp
    have "canonical ff (ts_columns s) vals \<and> key_of s vals \<notin> key_of s ` set ?T1"
      using adm OUpdate n vals k fnd by (simp add: admissible_def image_of_def)
    then have "steps_to ff ?l (?T1 @ [vals]) (drop_key k p ?l s1) s'"
      using insert_steps [of ff "drop_key k p ?l s1" ?l ?l vals] d same s' by (simp add: steps_to_def)
    then have "steps_to ff ?l (?T1 @ [vals]) s1 s'" using steps_trans [OF d] by simp
    then show ?thesis using OUpdate n vals same k fnd by (simp add: steps_to_def image_of_def)
  next
    case ODelete
    from ap ODelete obtain old k p where o: "tc_old c = Some old" and k: "k = key_of s (image_values old)"
      and p: "map_of (ts_index s) k = Some p"
      and s': "s' = mark_deleted p ?l (s\<lparr>ts_index := idx_remove k (ts_index s)\<rparr>)"
      by (auto simp: apply_delete_def st_bind_Ok_iff image_key_def split: if_splits option.splits)
    have "s' = drop_key k p ?l s"
      unfolding s' drop_key_def by (auto simp: mark_deleted_def Let_def split: option.splits)
    then show ?thesis
      using drop_steps [OF inv b p small] ODelete o k by (simp add: old_image_def)
  next
    case OTruncate
    then show ?thesis using truncate_steps [OF inv b small] ap by (auto simp: apply_truncate_def st_bind_Ok_iff)
  qed
qed

lemma apply_steps:
  assumes inv: "store_inv ff s" and b: "bounded m (versions ff s)" "m \<le> tc_commit_lsn c"
    and adm: "admissible ff (ts_columns s) (key_of s) c (head_table (versions ff s))"
    and small: "length (ts_index s) < 2 ^ 64" and ap: "apply_change ff True c s = (Ok (), s')"
  shows "steps_to ff (tc_commit_lsn c) (spec_apply (key_of s) c (head_table (versions ff s))) s s'"
proof -
  let ?l = "tc_commit_lsn c" and ?T = "spec_apply (key_of s) c (head_table (versions ff s))"
  from ap obtain s1 where core: "(case tc_op c of OInsert \<Rightarrow> apply_insert ff c s | OUpdate \<Rightarrow> apply_update ff c s
      | ODelete \<Rightarrow> apply_delete c s | OTruncate \<Rightarrow> apply_truncate c s) = (Ok (), s1)"
    and s': "(let s = s1\<lparr>ts_applied := max (ts_applied s1) ?l\<rparr> in
      if ts_flush_rows s \<le> length (ts_open s) then flush ff True s else (Ok (), s)) = (Ok (), s')"
    unfolding apply_change_def st_bind_Ok_iff by auto
  let ?s2 = "s1\<lparr>ts_applied := max (ts_applied s1) ?l\<rparr>"
  have s1: "steps_to ff ?l ?T s s1" by (rule apply_core_steps [OF inv b adm small core])
  then have s2: "steps_to ff ?l ?T s1 ?s2" by (simp add: steps_to_def applied_inv)
  have "steps_to ff ?l ?T ?s2 s' \<or> s' = ?s2"
    using s' flush_steps [of ff ?s2 ?l s'] s2 unfolding Let_def steps_to_def by (auto split: if_splits)
  then show ?thesis using s1 s2 steps_trans by blast
qed

section \<open>Scans return the history\<close>

lemma index_size:
  assumes "store_inv ff s"
  shows "length (ts_index s) = length (head_table (versions ff s))"
proof -
  let ?vs = "versions ff s" and ?key = "\<lambda>p. key_of s (v_values (versions ff s ! p))"
  let ?P = "{p. p < length ?vs \<and> live (?vs ! p)}"
  have abs: "abs_idx (positions s) (key_of s) ?vs" and d: "distinct (map fst (ts_index s))"
    using assms by (simp_all add: store_inv_def indexed_def)
  have dom: "dom (map_of (ts_index s)) = dom (positions s)" by (auto simp: positions_def dom_def)
  have at: "positions s k = Some p \<longleftrightarrow> p \<in> ?P \<and> ?key p = k" for k p
    using abs unfolding abs_idx_def by simp
  have img: "?key ` ?P = dom (positions s)"
  proof (intro set_eqI iffI)
    fix k assume "k \<in> ?key ` ?P"
    then obtain p where "p \<in> ?P" "?key p = k" by blast
    then show "k \<in> dom (positions s)" using at [of k p] by blast
  next
    fix k assume "k \<in> dom (positions s)"
    then obtain p where "positions s k = Some p" by blast
    then show "k \<in> ?key ` ?P" using at [of k p] by blast
  qed
  have inj: "inj_on ?key ?P"
  proof (rule inj_onI)
    fix p q assume pq: "p \<in> ?P" "q \<in> ?P" "?key p = ?key q"
    have "positions s (?key p) = Some p" using at pq(1) by blast
    moreover have "positions s (?key p) = Some q" using at pq(2) unfolding pq(3) by blast
    ultimately show "p = q" by simp
  qed
  have "length (ts_index s) = card (dom (positions s))" using length_index [OF d] unfolding dom .
  also have "\<dots> = card ?P" using card_image [OF inj] unfolding img .
  also have "\<dots> = length (head_table (versions ff s))"
    unfolding head_table_def length_map length_filter_conv_card ..
  finally show ?thesis .
qed

lemma spec_apply_size: "length (spec_apply key c T) \<le> Suc (length T)"
  by (cases "tc_op c") (simp_all add: Let_def le_SucI)

lemma spec_run_snoc: "spec_run key (cs @ [c]) T = spec_apply key c (spec_run key cs T)"
  by (simp add: spec_run_def)

lemma spec_run_size: "length (spec_run key cs []) \<le> length cs"
proof (induction cs rule: rev_induct)
  case (snoc c cs)
  then show ?case using spec_apply_size [of key c "spec_run key cs []"] by (simp add: spec_run_snoc)
qed (simp add: spec_run_def)

lemma admissible_snoc:
  "admissible_run ff cols key (cs @ [c]) T \<longleftrightarrow>
     admissible_run ff cols key cs T \<and> admissible ff cols key c (spec_run key cs T)"
  by (induction cs arbitrary: T) (simp_all add: spec_run_def)

lemma apply_all_append: "apply_all ff (cs @ ds) s = st_bind (apply_all ff cs s) (\<lambda>_. apply_all ff ds)"
  by (induction cs arbitrary: s) (simp_all add: st_bind_def split: prod.splits sum.splits)

lemma create_inv:
  assumes "store_create cols n = Ok s" "has_key s"
  shows "store_inv ff s" "versions ff s = []" "ts_columns s = cols" "ts_index s = []"
proof -
  have s: "s = \<lparr>ts_columns = cols, ts_key_idx = key_columns cols, ts_flush_rows = n, ts_open = [], ts_segments = [],
      ts_files = [], ts_sidecars = [], ts_index = [], ts_applied = 0, ts_cache = None, ts_live = 0\<rparr>"
    using assms(1) by (auto simp: store_create_def res_bind_Ok_iff)
  show v: "versions ff s = []" "ts_columns s = cols" "ts_index s = []" by (simp_all add: s versions_def)
  have "\<forall>i \<in> set (ts_key_idx s). i < length (ts_columns s)"
    by (auto simp: s key_columns_def in_set_enumerate_eq)
  then show "store_inv ff s" using assms(2) v
    by (simp add: store_inv_def physical_ok_def indexed_def abs_idx_def positions_def s sidecar_of_def)
qed

lemma history_inv:
  assumes "store_create cols n = Ok s0" "has_key s0" "sorted (map tc_commit_lsn cs)"
    "admissible_run ff cols (key_of s0) cs []" "length cs < 2 ^ 64" "apply_all ff cs s0 = (Ok (), s)"
  shows "store_inv ff s \<and> key_of s = key_of s0 \<and> ts_columns s = cols \<and>
    bounded (if cs = [] then 0 else tc_commit_lsn (last cs)) (versions ff s) \<and>
    head_table (versions ff s) = spec_run (key_of s0) cs [] \<and>
    (\<forall>lsn. table_at lsn (versions ff s) = spec_run (key_of s0) (filter (\<lambda>c. tc_commit_lsn c \<le> lsn) cs) [])"
  using assms(3-)
proof (induction cs arbitrary: s rule: rev_induct)
  case Nil
  then show ?case using create_inv(1,2) [OF assms(1,2), of ff] create_inv(3) [OF assms(1,2)] by (simp add: bounded_def head_table_def table_at_def spec_run_def)
next
  case (snoc c cs)
  let ?key = "key_of s0" and ?l = "tc_commit_lsn c" and ?m = "if cs = [] then 0 else tc_commit_lsn (last cs)"
  from snoc.prems(4) obtain s1 where s1: "apply_all ff cs s0 = (Ok (), s1)" "apply_change ff True c s1 = (Ok (), s)"
    by (auto simp: apply_all_append st_bind_Ok_iff)
  have le: "tc_commit_lsn d \<le> ?l" if "d \<in> set cs" for d
    using snoc.prems(1) that by (simp add: sorted_append)
  have IH: "store_inv ff s1" "key_of s1 = ?key" "ts_columns s1 = cols" "bounded ?m (versions ff s1)"
    "head_table (versions ff s1) = spec_run ?key cs []"
    "\<And>lsn. table_at lsn (versions ff s1) = spec_run ?key (filter (\<lambda>c. tc_commit_lsn c \<le> lsn) cs) []"
    using snoc.IH [OF _ _ _ s1(1)] snoc.prems(1-3) by (auto simp: sorted_append admissible_snoc)
  have m: "?m \<le> ?l" using le by simp
  have "length (ts_index s1) < 2 ^ 64"
    using index_size [OF IH(1)] IH(5) spec_run_size [of ?key cs] snoc.prems(3) by simp
  then have st: "steps_to ff ?l (spec_run ?key (cs @ [c]) []) s1 s"
    using apply_steps [OF IH(1,4) m _ _ s1(2)] IH snoc.prems(2) by (simp add: admissible_snoc spec_run_snoc)
  have "table_at lsn (versions ff s) = spec_run ?key (filter (\<lambda>c. tc_commit_lsn c \<le> lsn) (cs @ [c])) []" for lsn
  proof (cases "lsn < ?l")
    case True
    then have "\<not> ?l \<le> lsn" by simp
    then show ?thesis using True st IH(6) by (simp add: steps_to_def)
  next
    case False
    then have "filter (\<lambda>c. tc_commit_lsn c \<le> lsn) (cs @ [c]) = cs @ [c]"
      using le by (force simp: filter_id_conv)
    then show ?thesis using st table_at_head False by (auto simp: steps_to_def)
  qed
  then show ?case using st IH by (simp add: steps_to_def)
qed

end
