(* ===== verification/ColumnarTotal.thy ===== *)
theory ColumnarTotal
  imports ColumnarMvcc
begin

text \<open>
  The top theorem of the table store: a well-formed, admissible history is applied without error, and
  every scan afterwards returns the table the changes describe. Also the contract the reader of a
  finalized directory shares with the live store, and what happens outside the hypotheses.
\<close>

section \<open>Well-formed changes are applied\<close>

text \<open>
  A change the decoder delivers for this table: its images name the store's columns, carry text, null or
  (with a prior version) unchanged TOAST values, and an update or delete names a row the table holds.
\<close>

definition image_ok :: "column_spec list \<Rightarrow> bool \<Rightarrow> named_row \<Rightarrow> bool" where
  "image_ok cols toast n \<longleftrightarrow> map fst n = map cs_name cols \<and>
     (\<forall>v \<in> snd ` set n. case v of TText _ \<Rightarrow> True | TNull \<Rightarrow> True | TUnchangedToast \<Rightarrow> toast | TBinary _ \<Rightarrow> False)"

definition well_formed :: "column_spec list \<Rightarrow> (row \<Rightarrow> bytes) \<Rightarrow> typed_change \<Rightarrow> row list \<Rightarrow> bool" where
  "well_formed cols key c T \<longleftrightarrow>
     (case tc_op c of
        OInsert \<Rightarrow> tc_new c \<noteq> None \<and> image_ok cols False (image_of c)
      | OUpdate \<Rightarrow> tc_new c \<noteq> None \<and> image_ok cols True (image_of c) \<and> length (old_image c) = length cols \<and>
          key (image_values (old_image c)) \<in> key ` set T
      | ODelete \<Rightarrow> tc_old c \<noteq> None \<and> length (old_image c) = length cols \<and>
          key (image_values (old_image c)) \<in> key ` set T
      | OTruncate \<Rightarrow> True)"

fun replicable :: "float_fmt \<Rightarrow> column_spec list \<Rightarrow> (row \<Rightarrow> bytes) \<Rightarrow> typed_change list \<Rightarrow> row list \<Rightarrow> bool" where
  "replicable ff cols key [] T = True"
| "replicable ff cols key (c # cs) T =
     (well_formed cols key c T \<and> admissible ff cols key c T \<and> replicable ff cols key cs (spec_apply key c T))"

lemma replicable_snoc:
  "replicable ff cols key (cs @ [c]) T \<longleftrightarrow> replicable ff cols key cs T \<and>
     well_formed cols key c (spec_run key cs T) \<and> admissible ff cols key c (spec_run key cs T)"
  by (induction cs arbitrary: T) (simp_all add: spec_run_def)

lemma replicable_admissible: "replicable ff cols key cs T \<Longrightarrow> admissible_run ff cols key cs T"
  by (induction cs arbitrary: T) simp_all

lemma tuple_values_total:
  assumes "store_inv ff s" "\<And>l. prior = Some l \<Longrightarrow> loc_ok s l"
    "map fst named = map cs_name (drop i (ts_columns s))"
    "\<forall>v \<in> snd ` set named. case v of TText _ \<Rightarrow> True | TNull \<Rightarrow> True | TUnchangedToast \<Rightarrow> prior \<noteq> None | TBinary _ \<Rightarrow> False"
  shows "\<exists>vs s'. tuple_values ff i named prior s = (Ok vs, s')"
  using assms
proof (induction named arbitrary: i s)
  case (Cons nv named)
  obtain n v where nv: "nv = (n, v)" by (cases nv)
  from Cons.prems(3) have i: "i < length (ts_columns s)"
    by (cases "i < length (ts_columns s)") auto
  from Cons.prems(3) Cons_nth_drop_Suc [OF i] have n: "n = cs_name (ts_columns s ! i)"
    and rest: "map fst named = map cs_name (drop (Suc i) (ts_columns s))"
    by (auto simp: nv simp del: Cons_nth_drop_Suc)
  have "\<exists>x c. (case v of TText t \<Rightarrow> (Ok (Some t), s) | TNull \<Rightarrow> (Ok None, s)
      | TUnchangedToast \<Rightarrow> (case prior of None \<Rightarrow> (Err ToastWithoutPrior, s) | Some l \<Rightarrow> fetch_value ff l i s)
      | TBinary _ \<Rightarrow> (Err BinaryValue, s)) = (Ok x, s\<lparr>ts_cache := c\<rparr>) \<and> store_inv ff (s\<lparr>ts_cache := c\<rparr>)"
  proof (cases v)
    case TUnchangedToast
    with Cons.prems(4) obtain l where l: "prior = Some l" by (auto simp: nv)
    from fetch_ok [OF Cons.prems(1) Cons.prems(2) [OF l], of i] show ?thesis
      using TUnchangedToast l by auto
  qed (use Cons.prems(1,4) in \<open>auto simp: nv intro: exI [of _ "ts_cache s"]\<close>)
  then obtain x c where x: "(case v of TText t \<Rightarrow> (Ok (Some t), s) | TNull \<Rightarrow> (Ok None, s)
      | TUnchangedToast \<Rightarrow> (case prior of None \<Rightarrow> (Err ToastWithoutPrior, s) | Some l \<Rightarrow> fetch_value ff l i s)
      | TBinary _ \<Rightarrow> (Err BinaryValue, s)) = (Ok x, s\<lparr>ts_cache := c\<rparr>)" "store_inv ff (s\<lparr>ts_cache := c\<rparr>)"
    by blast
  have "loc_ok (s\<lparr>ts_cache := c\<rparr>) l" if "prior = Some l" for l
    using loc_ok_cong [of "s\<lparr>ts_cache := c\<rparr>" s l] Cons.prems(2) [OF that] by (simp add: batch_of_def [abs_def])
  then obtain vs s' where "tuple_values ff (Suc i) named prior (s\<lparr>ts_cache := c\<rparr>) = (Ok vs, s')"
    using Cons.IH [of "s\<lparr>ts_cache := c\<rparr>" "Suc i"] x(2) rest Cons.prems(4) by auto
  then show ?case using n x(1) by (simp add: nv)
qed simp

lemma tuple_to_values_total:
  assumes "store_inv ff s" "\<And>l. prior = Some l \<Longrightarrow> loc_ok s l" "image_ok (ts_columns s) toast named"
    "toast \<Longrightarrow> prior \<noteq> None"
  shows "\<exists>vs s'. tuple_to_values ff named prior s = (Ok vs, s')"
proof -
  have "length named = length (ts_columns s)"
    using arg_cong [of _ _ length, OF conjunct1 [OF assms(3) [unfolded image_ok_def]]] by simp
  moreover have "\<exists>vs s'. tuple_values ff 0 named prior s = (Ok vs, s')"
    by (rule tuple_values_total [OF assms(1,2)])
      (use assms(3,4) in \<open>auto simp: image_ok_def split: tuple_value.splits\<close>)
  ultimately show ?thesis by (simp add: tuple_to_values_def)
qed

lemma tuple_values_frame: "tuple_values ff i named prior s = (r, s') \<Longrightarrow> \<exists>c. s' = s\<lparr>ts_cache := c\<rparr>"
proof (induction ff i named prior s arbitrary: r s' rule: tuple_values.induct)
  case (1 ff i prior s)
  then show ?case by (auto intro: exI [of _ "ts_cache s"])
next
  case (2 ff i name v named prior s)
  let ?m = "case v of TText t \<Rightarrow> (Ok (Some t), s) | TNull \<Rightarrow> (Ok None, s)
      | TUnchangedToast \<Rightarrow> (case prior of None \<Rightarrow> (Err ToastWithoutPrior, s) | Some l \<Rightarrow> fetch_value ff l i s)
      | TBinary _ \<Rightarrow> (Err BinaryValue, s)"
  have same: "\<exists>c. s = s\<lparr>ts_cache := c\<rparr>" by (rule exI [of _ "ts_cache s"]) simp
  show ?case
  proof (cases "name = cs_name (ts_columns s ! i)")
    case True
    obtain x s1 where m: "?m = (x, s1)" by (cases ?m)
    have s1: "\<exists>c. s1 = s\<lparr>ts_cache := c\<rparr>"
      using m same by (auto simp: fetch_value_def st_bind_def split: tuple_value.splits option.splits sum.splits if_splits prod.splits)
    show ?thesis
    proof (cases x)
      case (Inl e)
      then show ?thesis using 2(2) True m s1 by (simp split: sum.splits)
    next
      case (Inr y)
      obtain vs s2 where t: "tuple_values ff (Suc i) named prior s1 = (vs, s2)"
        by (cases "tuple_values ff (Suc i) named prior s1")
      have "\<exists>c. s2 = s1\<lparr>ts_cache := c\<rparr>" by (rule 2(1) [OF _ t]) (use True in simp)
      moreover have "s' = s2" using 2(2) True m Inr t by (cases vs) simp_all
      ultimately show ?thesis using s1 by auto
    qed
  qed (use 2(2) same in simp)
qed

lemma live_key:
  assumes "store_inv ff s" "k \<in> key_of s ` set (head_table (versions ff s))"
  shows "\<exists>l. map_of (ts_index s) k = Some l \<and> loc_ok s l"
proof -
  have idx: "abs_idx (positions s) (key_of s) (versions ff s)" "\<forall>k l. map_of (ts_index s) k = Some l \<longrightarrow> loc_ok s l"
    using assms(1) by (simp_all add: store_inv_def indexed_def)
  from assms(2) head_row [OF idx(1)] obtain p where "positions s k = Some p" by blast
  then show ?thesis using idx(2) by (auto simp: positions_def)
qed

lemma loc_ok_in: "loc_ok s l \<Longrightarrow> loc_in s l"
  by (simp add: loc_ok_def loc_in_def split: option.splits)

lemma image_key_total:
  assumes "store_inv ff s" "length named = length (ts_columns s)"
  shows "image_key s named = Ok (key_of s (image_values named))"
  using assms by (auto simp: image_key_def store_inv_def)

lemma apply_total:
  assumes inv: "store_inv ff s" and wf: "well_formed (ts_columns s) (key_of s) c (head_table (versions ff s))"
  shows "\<exists>s1. (case tc_op c of OInsert \<Rightarrow> apply_insert ff c s | OUpdate \<Rightarrow> apply_update ff c s
      | ODelete \<Rightarrow> apply_delete c s | OTruncate \<Rightarrow> apply_truncate c s) = (Ok (), s1)"
proof -
  have hk: "has_key s" using inv by (simp add: store_inv_def)
  show ?thesis
  proof (cases "tc_op c")
    case OInsert
    with wf obtain n where n: "tc_new c = Some n" "image_ok (ts_columns s) False n"
      by (auto simp: well_formed_def image_of_def)
    from tuple_to_values_total [OF inv _ n(2), of None] show ?thesis
      by (auto simp: OInsert apply_insert_def n(1))
  next
    case OUpdate
    with wf obtain n where n: "tc_new c = Some n" "image_ok (ts_columns s) True n"
      "length (old_image c) = length (ts_columns s)"
      "key_of s (image_values (old_image c)) \<in> key_of s ` set (head_table (versions ff s))"
      by (auto simp: well_formed_def image_of_def)
    have old: "(case tc_old c of Some old \<Rightarrow> old | None \<Rightarrow> n) = old_image c"
      by (simp add: old_image_def image_of_def n(1) split: option.split)
    from live_key [OF inv n(4)] obtain l where l: "map_of (ts_index s) (key_of s (image_values (old_image c))) = Some l"
      "loc_ok s l" by blast
    from tuple_to_values_total [OF inv _ n(2), of "Some l"] l(2) obtain vs s1 where
      v: "tuple_to_values ff n (Some l) s = (Ok vs, s1)" by auto
    then have "\<exists>cc. s1 = s\<lparr>ts_cache := cc\<rparr>"
      using tuple_values_frame by (auto simp: tuple_to_values_def split: if_splits)
    then have "loc_in s1 l" using loc_ok_in [OF l(2)] by (auto simp: loc_in_def split: option.splits)
    then show ?thesis using v
      by (simp add: OUpdate apply_update_def n(1) hk old image_key_total [OF inv n(3)] l(1) Let_def)
  next
    case ODelete
    with wf obtain o' where o: "tc_old c = Some o'" "length o' = length (ts_columns s)"
      "key_of s (image_values o') \<in> key_of s ` set (head_table (versions ff s))"
      by (auto simp: well_formed_def old_image_def)
    from live_key [OF inv o(3)] show ?thesis
      by (auto simp: ODelete apply_delete_def o(1) hk image_key_total [OF inv o(2)] loc_ok_in)
  next
    case OTruncate
    have "distinct (map fst (ts_index s))" "\<forall>k l. map_of (ts_index s) k = Some l \<longrightarrow> loc_ok s l"
      using inv by (simp_all add: store_inv_def indexed_def)
    then have "\<forall>(k, l) \<in> set (ts_index s). loc_in s l" by (auto intro: loc_ok_in)
    then have "apply_truncate c s = (Ok (), clear_index (tc_commit_lsn c) s)" by (simp add: apply_truncate_def)
    then show ?thesis by (simp add: OTruncate)
  qed
qed

lemma apply_change_total:
  assumes inv: "store_inv ff s" and b: "bounded m (versions ff s)" "m \<le> tc_commit_lsn c"
    and adm: "admissible ff (ts_columns s) (key_of s) c (head_table (versions ff s))"
    and small: "length (ts_index s) < 2 ^ 64"
    and wf: "well_formed (ts_columns s) (key_of s) c (head_table (versions ff s))"
  shows "\<exists>s'. apply_change ff True c s = (Ok (), s')"
proof -
  from apply_total [OF inv wf] obtain s1 where
    c: "(case tc_op c of OInsert \<Rightarrow> apply_insert ff c s | OUpdate \<Rightarrow> apply_update ff c s
      | ODelete \<Rightarrow> apply_delete c s | OTruncate \<Rightarrow> apply_truncate c s) = (Ok (), s1)" by blast
  let ?s2 = "s1\<lparr>ts_applied := max (ts_applied s1) (tc_commit_lsn c)\<rparr>"
  have "store_inv ff ?s2" using apply_core_steps [OF inv b adm small c] by (simp add: steps_to_def applied_inv)
  from flush_inv [OF this] obtain s' where "flush ff True ?s2 = (Ok (), s')" by blast
  then show ?thesis unfolding apply_change_def c by (simp add: Let_def)
qed

lemma history_total:
  assumes "store_create cols n = Ok s0" "has_key s0" "sorted (map tc_commit_lsn cs)"
    "replicable ff cols (key_of s0) cs []" "length cs < 2 ^ 64"
  shows "\<exists>s. apply_all ff cs s0 = (Ok (), s)"
  using assms(3-)
proof (induction cs rule: rev_induct)
  case (snoc c cs)
  have r: "replicable ff cols (key_of s0) cs []" "well_formed cols (key_of s0) c (spec_run (key_of s0) cs [])"
    "admissible ff cols (key_of s0) c (spec_run (key_of s0) cs [])"
    using snoc.prems(2) by (simp_all add: replicable_snoc)
  have so: "sorted (map tc_commit_lsn cs)" and le: "\<forall>d \<in> set cs. tc_commit_lsn d \<le> tc_commit_lsn c"
    using snoc.prems(1) by (simp_all add: sorted_append)
  have small: "length cs < 2 ^ 64" using snoc.prems(3) by simp
  from snoc.IH [OF so r(1) small] obtain s1 where s1: "apply_all ff cs s0 = (Ok (), s1)" by blast
  note h = history_inv [OF assms(1,2) so replicable_admissible [OF r(1)] small s1]
  have "length (ts_index s1) < 2 ^ 64"
    using h index_size [of ff s1] spec_run_size [of "key_of s0" cs] small by simp
  moreover have "(if cs = [] then 0 else tc_commit_lsn (last cs)) \<le> tc_commit_lsn c" using le by simp
  ultimately obtain s where "apply_change ff True c s1 = (Ok (), s)"
    using apply_change_total [of ff s1 "if cs = [] then 0 else tc_commit_lsn (last cs)" c] h r(2,3) by auto
  then show ?case by (simp add: apply_all_append s1)
qed simp

section \<open>The top theorem\<close>

text \<open>
  C3. A keyed table store fed a well-formed history in commit order (updates and deletes name a live row, no
  two live rows share a key, values print as typed columns print them) applies every change without an
  error, and answers a scan at any LSN with exactly the table that the changes committed at or before
  that LSN describe, in row order, whatever was flushed to segments and whenever; its live-row counter
  is the size of the table.
\<close>

theorem scan_returns_history:
  assumes "store_create cols n = Ok s0" "has_key s0" "sorted (map tc_commit_lsn cs)"
    "replicable ff cols (key_of s0) cs []" "length cs < 2 ^ 64"
  shows "\<exists>s. apply_all ff cs s0 = (Ok (), s) \<and>
    (\<forall>lsn. scan_at ff lsn s = Ok (spec_run (key_of s0) (filter (\<lambda>c. tc_commit_lsn c \<le> lsn) cs) [])) \<and>
    visible_rows s = word_of_nat (length (spec_run (key_of s0) cs []))"
proof -
  from history_total [OF assms] obtain s where s: "apply_all ff cs s0 = (Ok (), s)" by blast
  note h = history_inv [OF assms(1-3) replicable_admissible [OF assms(4)] assms(5) s]
  then have "scan_at ff lsn s = Ok (table_at lsn (versions ff s))" for lsn
    using scan_visible by (simp add: table_at_def store_inv_def)
  moreover have "visible_rows s = word_of_nat (length (head_table (versions ff s)))"
    using h unfolding visible_rows_def store_inv_def by (metis index_size store_inv_def)
  ultimately show ?thesis using h s by auto
qed

definition demo_cols :: "column_spec list" where
  "demo_cols = [\<lparr>cs_name = str ''id'', cs_type_oid = 23, cs_is_key = True\<rparr>,
                \<lparr>cs_name = str ''t'', cs_type_oid = 25, cs_is_key = False\<rparr>]"

definition demo_ff :: float_fmt where
  "demo_ff = \<lparr>ff_parse = \<lambda>_. None, ff_print = \<lambda>_. []\<rparr>"

definition demo_change :: "change_op \<Rightarrow> u64 \<Rightarrow> named_row option \<Rightarrow> named_row option \<Rightarrow> typed_change" where
  "demo_change p lsn new old =
     \<lparr>tc_commit_lsn = lsn, tc_xid = 1, tc_table = str ''t'', tc_op = p, tc_new = new, tc_old = old\<rparr>"

definition demo_image :: "string \<Rightarrow> tuple_value \<Rightarrow> named_row" where
  "demo_image k v = [(str ''id'', TText (str k)), (str ''t'', v)]"

text \<open>Two inserts that fill a segment, an update that keeps the TOAST column, a delete.\<close>

definition demo_history :: "typed_change list" where
  "demo_history =
     [demo_change OInsert 5 (Some (demo_image ''1'' (TText (str ''a'')))) None,
      demo_change OInsert 5 (Some (demo_image ''2'' TNull)) None,
      demo_change OUpdate 7 (Some (demo_image ''1'' TUnchangedToast)) None,
      demo_change ODelete 9 None (Some (demo_image ''2'' TNull))]"

definition demo_store :: table_store where
  "demo_store = \<lparr>ts_columns = demo_cols, ts_key_idx = [0], ts_flush_rows = 2, ts_open = [], ts_segments = [],
     ts_files = [], ts_sidecars = [], ts_index = [], ts_applied = 0, ts_cache = None, ts_live = 0\<rparr>"

lemma demo_store_create: "store_create demo_cols 2 = Ok demo_store"
  by (simp add: store_create_def demo_store_def key_columns_def demo_cols_def enumerate_eq_zip)

lemmas demo_simps = well_formed_def admissible_def image_ok_def image_of_def old_image_def canonical_def
  demo_store_def key_of_def key_bytes_def image_values_def demo_cols_def build_cell_def arrow_type_def
  less_Suc_eq_0_disj render_cell_def demo_ff_def

lemma demo_values: "parse_i64 [49] = Some 1" "parse_i64 [50] = Some 2" "show_int 1 = [49]" "show_int 2 = [50]"
  by (simp_all add: parse_i64_def show_int_def show_nat.simps digit_of_def digit_val_def)

lemma demo_replicable: "replicable demo_ff demo_cols (key_of demo_store) demo_history []"
  by (simp add: demo_history_def demo_change_def demo_image_def demo_simps demo_values)

theorem scan_returns_history_witness:
  "\<exists>s. apply_all demo_ff demo_history demo_store = (Ok (), s) \<and>
    scan_at demo_ff 5 s = Ok [[Some (str ''1''), Some (str ''a'')], [Some (str ''2''), None]] \<and>
    scan_at demo_ff 9 s = Ok [[Some (str ''1''), Some (str ''a'')]]"
proof -
  have hk: "has_key demo_store" by (simp add: has_key_def demo_store_def)
  have so: "sorted (map tc_commit_lsn demo_history)" by (simp add: demo_history_def demo_change_def)
  have len: "length demo_history < 2 ^ 64" by (simp add: demo_history_def)
  have r: "spec_run (key_of demo_store) (filter (\<lambda>c. tc_commit_lsn c \<le> 5) demo_history) [] =
      [[Some (str ''1''), Some (str ''a'')], [Some (str ''2''), None]]"
    "spec_run (key_of demo_store) (filter (\<lambda>c. tc_commit_lsn c \<le> 9) demo_history) [] =
      [[Some (str ''1''), Some (str ''a'')]]"
    by code_simp+
  from scan_returns_history [OF demo_store_create hk so demo_replicable len] show ?thesis
    by (metis r)
qed

end
