(* ===== verification/ColumnarDisk.thy ===== *)
theory ColumnarDisk
  imports ColumnarTotal
begin

text \<open>
  What leaves the live store: the finalized directory and its independent reader (\<open>reader.rs\<close>), the key
  encoding of \<open>key_of\<close>, and the cases the top theorem excludes (a table without a key, a flush that
  fails).
\<close>

section \<open>The reader of a finalized directory\<close>

definition typed_row :: "float_fmt \<Rightarrow> cell option list \<times> u64 \<Rightarrow> row" where
  "typed_row ff r = map (map_option (render_cell ff)) (fst r)"

lemma rendered_filter:
  "rendered_rows ff (deleted_by sc i lsn) lsn b =
     map (typed_row ff) (filter_batch (\<lambda>r. \<not> deleted_by sc i lsn r \<and> sb_lsns b ! r \<le> lsn) b)"
  by (simp add: rendered_rows_def filter_batch_def typed_row_def render_row_def comp_def)

lemma read_batches_scan:
  assumes "sd_files d = ts_files s" "sd_sidecars d = ts_sidecars s"
  shows "scan_segments ff lsn ms s =
    res_bind (read_batches lsn ms d) (\<lambda>bs. Ok (map (typed_row ff) (concat bs)))"
proof (induction ms)
  case (Cons m ms)
  then show ?case
    by (cases "map_of (ts_files s) (sm_id m)"; cases "read_batches lsn ms d")
      (simp_all add: assms rendered_filter Let_def)
qed simp

lemma read_batches_skip: "\<forall>m \<in> set ms. lsn < sm_lsn_min m \<Longrightarrow> read_batches lsn ms d = Ok []"
  by (induction ms) simp_all

lemma reindex_open: "ts_open (reindex sid i rows s) = ts_open s"
  using reindex_frame [of sid i rows s] by auto

lemma flush_open: "flush ff b s = (Ok (), s') \<Longrightarrow> ts_open s' = []"
  by (auto simp: flush_def st_bind_Ok_iff Let_def reindex_open split: if_splits)

text \<open>A row version starts no earlier than its segment.\<close>

lemma version_starts:
  assumes "physical_ok ff s" and "ts_open s = []" and "\<forall>m \<in> set (ts_segments s). lsn < sm_lsn_min m"
  shows "\<forall>v \<in> set (versions ff s). lsn < v_ins v"
proof
  fix v assume "v \<in> set (versions ff s)"
  then obtain i where i: "i < length (ts_segments s)" "v \<in> set (seg_versions ff s i)"
    by (auto simp: versions_def assms(2))
  then have "v_ins v \<in> set (sb_lsns (batch_of s i))" by (auto simp: seg_versions_def)
  then have "sm_lsn_min (ts_segments s ! i) \<le> v_ins v" using assms(1) i(1) unfolding physical_ok_def by blast
  moreover have "lsn < sm_lsn_min (ts_segments s ! i)" using assms(3) i(1) by simp
  ultimately show "lsn < v_ins v" by simp
qed

lemma none_visible: "\<forall>v \<in> set vs. lsn < v_ins v \<Longrightarrow> table_at lsn vs = []"
  by (auto simp: table_at_def visible_def filter_empty_conv)

text \<open>
  C10. After any well-formed history of a keyed table, finalizing the store succeeds. The live store's scan at every LSN
  gives the rows of the table at that LSN, and the disk-side reader of the finalized directory gives the same rows in the
  same order whenever some segment starts at or before the LSN; otherwise it errs, and then no row version
  of the whole history starts by that LSN, so the live scan gives no rows.
\<close>

theorem disk_reader_agrees:
  assumes "store_create cols n = Ok s0" "has_key s0" "sorted (map tc_commit_lsn cs)"
    "replicable ff cols (key_of s0) cs []" "length cs < 2 ^ 64" "apply_all ff cs s0 = (Ok (), s)"
  shows "\<exists>d s'. finalize ff True s = (Ok d, s') \<and>
    (\<forall>lsn. let rows = spec_run (key_of s0) (filter (\<lambda>c. tc_commit_lsn c \<le> lsn) cs) [] in
       scan_at ff lsn s = Ok rows \<and>
       (if list_ex (\<lambda>m. sm_lsn_min m \<le> lsn) (sd_segments d)
        then \<exists>bs. read_visible_batches lsn d = Ok bs \<and> map (typed_row ff) (concat bs) = rows
        else read_visible_batches lsn d = Err SegmentIo \<and> rows = [] \<and> list_all (\<lambda>v. lsn < v_ins v) (versions ff s)))"
proof -
  note h = history_inv [OF assms(1-3) replicable_admissible [OF assms(4)] assms(5,6)]
  then have inv: "store_inv ff s" by blast
  from flush_inv [OF inv] obtain s' where f: "flush ff True s = (Ok (), s')" "store_inv ff s'" "versions ff s' = versions ff s"
    by blast
  let ?d = "\<lparr>sd_columns = ts_columns s', sd_applied = ts_applied s', sd_segments = ts_segments s',
          sd_sidecars = ts_sidecars s', sd_files = ts_files s'\<rparr>"
  let ?rows = "\<lambda>lsn. spec_run (key_of s0) (filter (\<lambda>c. tc_commit_lsn c \<le> lsn) cs) []"
  have fin: "finalize ff True s = (Ok ?d, s')" by (simp add: finalize_def f(1))
  have o: "ts_open s' = []" by (rule flush_open [OF f(1)])
  have at: "table_at lsn (versions ff s) = ?rows lsn" for lsn using h by simp
  have scan: "scan_at ff lsn s = Ok (?rows lsn)" "scan_at ff lsn s' = Ok (?rows lsn)" for lsn
    using scan_visible [of ff s lsn] scan_visible [of ff s' lsn] inv f at [of lsn] by (simp_all add: table_at_def store_inv_def)
  have read: "if list_ex (\<lambda>m. sm_lsn_min m \<le> lsn) (sd_segments ?d)
        then \<exists>bs. read_visible_batches lsn ?d = Ok bs \<and> map (typed_row ff) (concat bs) = ?rows lsn
        else read_visible_batches lsn ?d = Err SegmentIo \<and> ?rows lsn = [] \<and> list_all (\<lambda>v. lsn < v_ins v) (versions ff s)" for lsn
  proof (cases "\<forall>m \<in> set (ts_segments s'). lsn < sm_lsn_min m")
    case True
    have late: "\<forall>v \<in> set (versions ff s). lsn < v_ins v"
      using version_starts [OF _ o True, of ff] f(2,3) unfolding store_inv_def by metis
    show ?thesis
      using read_batches_skip [OF True, of ?d] True late none_visible [OF late] at [of lsn]
      by (simp add: read_visible_batches_def list_ex_iff list_all_iff not_le)
  next
    case False
    have "scan_segments ff lsn (ts_segments s') s' = Ok (?rows lsn)"
      using scan(2) by (simp add: scan_at_def o res_bind_Ok_iff)
    then obtain bs where "read_batches lsn (ts_segments s') ?d = Ok bs" "map (typed_row ff) (concat bs) = ?rows lsn"
      using read_batches_scan [of ?d s' ff lsn "ts_segments s'"] by (auto simp: res_bind_Ok_iff)
    then show ?thesis using False by (auto simp: read_visible_batches_def list_ex_iff not_le)
  qed
  show ?thesis
    using fin scan(1) read unfolding Let_def by blast
qed

theorem disk_reader_agrees_witness:
  "\<exists>d s s' bs. apply_all demo_ff demo_history demo_store = (Ok (), s) \<and> finalize demo_ff True s = (Ok d, s') \<and>
    scan_at demo_ff 5 s = Ok [[Some (str ''1''), Some (str ''a'')], [Some (str ''2''), None]] \<and>
    read_visible_batches 5 d = Ok bs \<and>
    map (typed_row demo_ff) (concat bs) = [[Some (str ''1''), Some (str ''a'')], [Some (str ''2''), None]]"
proof -
  have hk: "has_key demo_store" by (simp add: has_key_def demo_store_def)
  have so: "sorted (map tc_commit_lsn demo_history)" by (simp add: demo_history_def demo_change_def)
  have len: "length demo_history < 2 ^ 64" by (simp add: demo_history_def)
  have r: "spec_run (key_of demo_store) (filter (\<lambda>c. tc_commit_lsn c \<le> 5) demo_history) [] =
      [[Some (str ''1''), Some (str ''a'')], [Some (str ''2''), None]]" by code_simp
  obtain s where s: "apply_all demo_ff demo_history demo_store = (Ok (), s)"
    using history_total [OF demo_store_create hk so demo_replicable len] by blast
  from disk_reader_agrees [OF demo_store_create hk so demo_replicable len s] obtain d s' where
    d: "finalize demo_ff True s = (Ok d, s')" "scan_at demo_ff 5 s = Ok [[Some (str ''1''), Some (str ''a'')], [Some (str ''2''), None]]"
    and rd: "if list_ex (\<lambda>m. sm_lsn_min m \<le> 5) (sd_segments d)
        then \<exists>bs. read_visible_batches 5 d = Ok bs \<and>
          map (typed_row demo_ff) (concat bs) = [[Some (str ''1''), Some (str ''a'')], [Some (str ''2''), None]]
        else read_visible_batches 5 d = Err SegmentIo \<and> [[Some (str ''1''), Some (str ''a'')], [Some (str ''2''), None]] = [] \<and>
          list_all (\<lambda>v. 5 < v_ins v) (versions demo_ff s)"
    unfolding Let_def r [symmetric] by blast
  then show ?thesis using s by (auto split: if_splits)
qed

section \<open>Keys\<close>

definition clean_key :: "nat list \<Rightarrow> row \<Rightarrow> bool" where
  "clean_key idxs r \<longleftrightarrow> (\<forall>i \<in> set idxs. \<forall>v. r ! i = Some v \<longrightarrow> 0x1F \<notin> set v)"

lemma split_at_sep:
  assumes "xs @ x # r = ys @ x # r'" "x \<notin> set xs" "x \<notin> set ys"
  shows "xs = ys \<and> r = r'"
  using assms
proof (induction xs arbitrary: ys)
  case Nil
  then show ?case by (cases ys) auto
next
  case (Cons a xs)
  then show ?case by (cases ys) auto
qed

text \<open>
  The key encoding separates rows whose key values carry no \<open>0x1F\<close> byte: equal key bytes mean equal
  key values, NULLs and empty strings told apart.
\<close>

theorem key_bytes_separate:
  assumes "key_bytes idxs r = key_bytes idxs r'" "clean_key idxs r" "clean_key idxs r'" "i \<in> set idxs"
  shows "r ! i = r' ! i"
  using assms
proof (induction idxs)
  case (Cons j idxs)
  let ?f = "\<lambda>v :: rstr option. case v of Some s \<Rightarrow> 1 # s | None \<Rightarrow> [0]"
  have "?f (r ! j) @ 0x1F # key_bytes idxs r = ?f (r' ! j) @ 0x1F # key_bytes idxs r'"
    using Cons.prems(1) by (simp add: key_bytes_def)
  moreover have "0x1F \<notin> set (?f (r ! j))" "0x1F \<notin> set (?f (r' ! j))"
    using Cons.prems(2,3) by (auto simp: clean_key_def split: option.splits)
  ultimately have eq: "?f (r ! j) = ?f (r' ! j) \<and> key_bytes idxs r = key_bytes idxs r'" by (rule split_at_sep)
  then have "r ! j = r' ! j" by (auto split: option.splits)
  moreover have "clean_key idxs r" "clean_key idxs r'" using Cons.prems(2,3) by (simp_all add: clean_key_def)
  ultimately show ?case using Cons.IH eq Cons.prems(4) by auto
qed simp

theorem key_bytes_separate_witness: "[None, Some [5 :: byte]] ! 1 = [None, Some [5 :: byte]] ! 1"
  using key_bytes_separate [of "[0, 1]" "[None, Some [5]]" "[None, Some [5]]" 1] by (simp add: clean_key_def)

definition text_cols :: "column_spec list" where
  "text_cols = [\<lparr>cs_name = str ''a'', cs_type_oid = 25, cs_is_key = True\<rparr>,
                \<lparr>cs_name = str ''b'', cs_type_oid = 25, cs_is_key = True\<rparr>]"

definition text_image :: "bytes \<Rightarrow> bytes \<Rightarrow> named_row" where
  "text_image a b = [(str ''a'', TText a), (str ''b'', TText b)]"

text \<open>
  Outside that, two different composite keys can encode to the same bytes, and deleting one row then
  removes the other: after inserting the second of the two rows below, deleting the first by its key
  succeeds and leaves the table empty.
\<close>

theorem composite_keys_collide:
  "case store_create text_cols 100 of Inl _ \<Rightarrow> False | Inr s0 \<Rightarrow>
     (case apply_all ff
        [demo_change OInsert 5 (Some (text_image [65] [66, 0x1F, 1, 67])) None,
         demo_change ODelete 6 None (Some (text_image [65, 0x1F, 1, 66] [67]))] s0 of
        (Inl _, _) \<Rightarrow> False | (Inr _, s) \<Rightarrow> scan_at ff 6 s = Ok [] \<and> visible_rows s = 0)"
  by (simp add: store_create_def text_cols_def key_columns_def enumerate_eq_zip demo_change_def text_image_def
      apply_change_def apply_insert_def apply_delete_def tuple_to_values_def has_key_def image_key_def key_of_def
      key_bytes_def image_values_def insert_row_def mark_deleted_def loc_in_def idx_put_def idx_remove_def Let_def
      scan_at_def open_visible_def visible_rows_def)

section \<open>Outside the top theorem\<close>

lemma flush_keyless: "\<not> has_key s \<Longrightarrow> flush ff b s = (r, s') \<Longrightarrow> \<not> has_key s' \<and> ts_index s' = ts_index s"
  by (auto simp: flush_def st_bind_def has_key_def Let_def split: if_splits sum.splits)

lemma keyless_frame:
  assumes "\<not> has_key s" "ts_index s = []" "apply_change ff b c s = (Ok (), s')"
  shows "\<not> has_key s' \<and> ts_index s' = []"
proof -
  from assms(3) obtain s1 where core: "(case tc_op c of OInsert \<Rightarrow> apply_insert ff c s | OUpdate \<Rightarrow> apply_update ff c s
      | ODelete \<Rightarrow> apply_delete c s | OTruncate \<Rightarrow> apply_truncate c s) = (Ok (), s1)"
    and s': "(let s = s1\<lparr>ts_applied := max (ts_applied s1) (tc_commit_lsn c)\<rparr> in
      if ts_flush_rows s \<le> length (ts_open s) then flush ff b s else (Ok (), s)) = (Ok (), s')"
    unfolding apply_change_def st_bind_Ok_iff by auto
  have "\<not> has_key s1 \<and> ts_index s1 = []"
  proof (cases "tc_op c")
    case OInsert
    from core OInsert obtain n vs s2 where "tuple_values ff 0 n None s = (Ok vs, s2)" "s1 = insert_row vs (tc_commit_lsn c) s2"
      by (auto simp: apply_insert_def st_bind_Ok_iff tuple_to_values_def split: if_splits)
    with tuple_values_frame [of ff 0 n None s] obtain cc where "s1 = insert_row vs (tc_commit_lsn c) (s\<lparr>ts_cache := cc\<rparr>)"
      by blast
    then show ?thesis using assms(1,2) by (simp add: insert_row_def has_key_def)
  qed (use core assms(1,2) in \<open>auto simp: apply_update_def apply_delete_def apply_truncate_def clear_index_def st_bind_Ok_iff has_key_def\<close>)
  then show ?thesis
    using s' flush_keyless [of "s1\<lparr>ts_applied := max (ts_applied s1) (tc_commit_lsn c)\<rparr>" ff b "Ok ()" s']
    by (auto simp: Let_def has_key_def split: if_splits)
qed

lemma keyless_history:
  "\<not> has_key s \<Longrightarrow> ts_index s = [] \<Longrightarrow> apply_all ff cs s = (Ok (), s') \<Longrightarrow> \<not> has_key s' \<and> ts_index s' = []"
proof (induction cs arbitrary: s)
  case (Cons c cs)
  then show ?case using keyless_frame [of s ff True c] by (auto simp: st_bind_Ok_iff)
qed simp

text \<open>
  On a table without a key a TRUNCATE deletes nothing: deletes are driven by the key index, which is
  empty after any applied history, so the change is accepted and leaves the store as it was.
\<close>

theorem keyless_truncate_is_ignored:
  assumes "store_create cols n = Ok s0" "\<not> has_key s0" "apply_all ff cs s0 = (Ok (), s)"
  shows "apply_truncate c s = (Ok (), s)"
proof -
  have "ts_index s0 = []" using assms(1) by (auto simp: store_create_def res_bind_Ok_iff)
  then have "ts_index s = []" using keyless_history assms(2,3) by blast
  then show ?thesis by (simp add: apply_truncate_def clear_index_def)
qed

definition log_cols :: "column_spec list" where
  "log_cols = [\<lparr>cs_name = str ''a'', cs_type_oid = 25, cs_is_key = False\<rparr>]"

theorem keyless_truncate_is_ignored_witness:
  "\<exists>s0 s. store_create log_cols 100 = Ok s0 \<and>
    apply_all demo_ff [demo_change OInsert 5 (Some [(str ''a'', TText [65])]) None] s0 = (Ok (), s) \<and>
    scan_at demo_ff 9 (snd (apply_truncate (demo_change OTruncate 8 None None) s)) = Ok [[Some [65]]]"
proof -
  obtain s0 where s0: "store_create log_cols 100 = Ok s0" "ts_key_idx s0 = []" "ts_columns s0 = log_cols" "ts_open s0 = []"
    "ts_flush_rows s0 = 100" "ts_segments s0 = []"
    by (simp add: store_create_def log_cols_def key_columns_def enumerate_eq_zip)
  let ?h = "[demo_change OInsert 5 (Some [(str ''a'', TText [65])]) None]"
  have "\<not> has_key s0" by (simp add: has_key_def s0)
  obtain s where s: "apply_all demo_ff ?h s0 = (Ok (), s)" "scan_at demo_ff 9 s = Ok [[Some [65]]]"
    by (simp add: demo_change_def apply_change_def apply_insert_def tuple_to_values_def s0 log_cols_def insert_row_def
        has_key_def scan_at_def open_visible_def Let_def)
  from keyless_truncate_is_ignored [OF s0(1) \<open>\<not> has_key s0\<close> s(1), of "demo_change OTruncate 8 None None"] s s0(1)
  show ?thesis by (metis snd_conv)
qed

text \<open>
  A flush that fails, on a value a typed column cannot hold or on the disk, drops the open rows: they were
  moved out of the store first. Segments, sidecars and the key index stay as they were, so the index
  still names the lost rows.
\<close>

theorem failed_flush_drops_open_rows:
  assumes "flush ff disk_ok s = (Err e, s')"
  shows "ts_open s \<noteq> [] \<and> s' = s\<lparr>ts_open := []\<rparr>"
  using assms by (auto simp: flush_def st_bind_def Let_def split: if_splits sum.splits)

theorem failed_flush_drops_open_rows_witness:
  "ts_open (insert_row [Some [65], None] 5 demo_store) \<noteq> [] \<and>
   snd (flush demo_ff False (insert_row [Some [49], None] 5 demo_store)) = (insert_row [Some [49], None] 5 demo_store)\<lparr>ts_open := []\<rparr>"
proof -
  have "flush demo_ff False (insert_row [Some [49], None] 5 demo_store) =
      (Err SegmentIo, (insert_row [Some [49], None] 5 demo_store)\<lparr>ts_open := []\<rparr>)"
    by (simp add: flush_def insert_row_def Let_def demo_store_def has_key_def build_batch_def demo_cols_def arrow_type_def
        build_cell_def demo_values key_of_def key_bytes_def idx_put_def)
  from failed_flush_drops_open_rows [OF this] this show ?thesis by (simp add: insert_row_def Let_def)
qed

end
