(* ===== verification/PrefixCodec.thy ===== *)
theory PrefixCodec
  imports FrameCodec
begin

text \<open>
  The contract of a self-delimiting encoding, as a locale: a decoder that returns an encoded item and
  what follows it, and nothing for a strict prefix of one. The frame log and the replication protocol
  both provide it. Proved once from it: a byte stream determines its items, and a reader that buffers
  what arrives recognises an item exactly when all of it has.
\<close>

locale prefix_codec =
  fixes enc :: "'a \<Rightarrow> bytes" and dec :: "bytes \<Rightarrow> ('a \<times> bytes) option" and ok :: "'a \<Rightarrow> bool"
  assumes dec_enc: "ok x \<Longrightarrow> dec (enc x @ r) = Some (x, r)"
    and dec_cut: "ok x \<Longrightarrow> n < length (enc x) \<Longrightarrow> dec (take n (enc x)) = None"
begin

lemma dec_unique: "ok x \<Longrightarrow> ok y \<Longrightarrow> enc x @ r = enc y @ s \<Longrightarrow> x = y \<and> r = s"
  using dec_enc [of x r] dec_enc [of y s] by (metis option.inject prod.inject)

lemma dec_buffered:
  assumes "ok x" "buf @ tl_bytes = enc x @ r"
  shows "dec buf = (if length (enc x) \<le> length buf then Some (x, drop (length (enc x)) buf) else None)"
proof (cases "length (enc x) \<le> length buf")
  case True
  then have "take (length (enc x)) (buf @ tl_bytes) = take (length (enc x)) buf" by simp
  then have "take (length (enc x)) buf = enc x" unfolding assms(2) by simp
  then have "dec buf = dec (enc x @ drop (length (enc x)) buf)" using append_take_drop_id [of "length (enc x)" buf] by metis
  then show ?thesis using dec_enc [OF assms(1)] True by simp
next
  case False
  then have "take (length buf) (enc x @ r) = take (length buf) (enc x)" by simp
  then have "buf = take (length buf) (enc x)" unfolding assms(2) [symmetric] by simp
  then have "dec buf = dec (take (length buf) (enc x))" by (rule arg_cong)
  then show ?thesis using dec_cut [OF assms(1), of "length buf"] False by simp
qed

lemma stream_unique:
  assumes "\<forall>x \<in> set xs. ok x \<and> enc x \<noteq> []" "\<forall>y \<in> set ys. ok y \<and> enc y \<noteq> []"
    "concat (map enc xs) = concat (map enc ys)"
  shows "xs = ys"
  using assms
proof (induction xs arbitrary: ys)
  case Nil
  then show ?case by (cases ys) auto
next
  case (Cons x xs)
  obtain y ys' where ys: "ys = y # ys'" using Cons.prems(1,3) by (cases ys) auto
  have xy: "x = y \<and> concat (map enc xs) = concat (map enc ys')"
  proof (rule dec_unique)
    show "ok x" using Cons.prems(1) by simp
    show "ok y" using Cons.prems(2) ys by simp
    show "enc x @ concat (map enc xs) = enc y @ concat (map enc ys')" using Cons.prems(3) by (simp only: ys list.map concat.simps)
  qed
  moreover have "xs = ys'" by (rule Cons.IH) (use Cons.prems(1,2) ys xy in auto)
  ultimately show ?case using ys by simp
qed

end

text \<open>The frames of the log provide it.\<close>

definition frame_item :: "crc_fun \<Rightarrow> bytes \<Rightarrow> (frame \<times> bytes) option" where
  "frame_item crc bs = (case decode_frame crc bs of Inr (Some f, rest) \<Rightarrow> Some (f, rest) | _ \<Rightarrow> None)"

interpretation frame_stream: prefix_codec "encode_frame crc" "frame_item crc" fits for crc
proof
  show "frame_item crc (encode_frame crc f @ r) = Some (f, r)" if "fits f" for f r
    by (simp add: frame_item_def decode_encode [OF that])
  show "frame_item crc (take n (encode_frame crc f)) = None" if "fits f" "n < length (encode_frame crc f)" for f n
    using decode_cut [OF that(1) _ that(2)] by (cases "n = 0") (auto simp: frame_item_def)
qed

text \<open>
  The bytes of a log segment determine its frames: two sequences of frames whose payload lengths fit
  the header's field and that encode to the same bytes are the same sequence.
\<close>

theorem segment_bytes_determine_frames:
  assumes "\<forall>f \<in> set fs. fits f" "\<forall>g \<in> set gs. fits g" "encode_all crc fs = encode_all crc gs"
  shows "fs = gs"
  by (rule frame_stream.stream_unique [of _ crc]) (use assms in \<open>simp_all add: encode_all_def\<close>)

theorem segment_bytes_determine_frames_witness:
  "[\<lparr>fr_seq = 0, fr_lsn_start = 5, fr_lsn_end = 9, fr_txn_complete = True, fr_payload = [1, 2]\<rparr>] =
   [\<lparr>fr_seq = 0, fr_lsn_start = 5, fr_lsn_end = 9, fr_txn_complete = True, fr_payload = [1, 2]\<rparr>]"
  by (rule segment_bytes_determine_frames [of _ _ "\<lambda>_. 0"]) (simp_all add: fits_def)

end
