(* ===== verification/Lsn.thy ===== *)
theory Lsn
  imports Numerals
begin

text \<open>
  The \<open>X/Y\<close> text form of a WAL position (\<open>parse_lsn\<close>, \<open>format_lsn\<close> of
  \<open>crates/graydb-ingest/src/repl.rs\<close>) and the SQL quoting of \<open>crates/graydb-ingest/src/lib.rs\<close>.
\<close>

datatype repl_error =
    BadLsnFormat rstr
  | BadHex rstr
  | ConnClosed
  | BadMessageLength int
  | EmptyCopyData
  | UnknownCopyKind byte
  | ServerError rstr
  | StreamEnded
  | UnexpectedTag byte
  | QueryFailed rstr rstr
  | NoRow
  | MissingColumn nat
  | WriteFailed
  | ReplPanic

fun split_once :: "byte \<Rightarrow> bytes \<Rightarrow> (bytes \<times> bytes) option" where
  "split_once c [] = None"
| "split_once c (b # bs) =
     (if b = c then Some ([], bs) else map_option (\<lambda>(l, r). (b # l, r)) (split_once c bs))"

definition parse_hex :: "rstr \<Rightarrow> repl_error + u64" where
  "parse_hex s = res_bind (need (parse_unsigned 16 (2 ^ 64) s) (BadHex s)) (\<lambda>n. Ok (word_of_nat n))"

definition parse_lsn :: "rstr \<Rightarrow> repl_error + u64" where
  "parse_lsn s =
     res_bind (need (split_once 47 s) (BadLsnFormat s)) (\<lambda>(hi, lo).
     res_bind (parse_hex hi) (\<lambda>h.
     res_bind (parse_hex lo) (\<lambda>l. Ok (push_bit 32 h OR l))))"

definition format_lsn :: "u64 \<Rightarrow> rstr" where
  "format_lsn lsn = show_nat 16 (unat (drop_bit 32 lsn)) @ 47 # show_nat 16 (unat (lsn AND 0xFFFFFFFF))"

section \<open>Round trip\<close>

lemma split_once_append: "c \<notin> set l \<Longrightarrow> split_once c (l @ c # r) = Some (l, r)"
  by (induction l) auto

lemma digit_of_not_slash: "n < 16 \<Longrightarrow> digit_of n \<noteq> 47"
proof
  assume "n < 16" "digit_of n = 47"
  then show False using unat_digit_of [of n] by (auto split: if_splits)
qed

lemma show_hex_no_slash: "47 \<notin> set (show_nat 16 n)"
proof (induction n rule: less_induct)
  case (less n)
  have "digit_of (n mod 16) \<noteq> 47" by (rule digit_of_not_slash) simp
  then show ?case using less [of "n div 16"] digit_of_not_slash [of n] by (subst show_nat.simps) auto
qed

lemma parse_hex_show: "parse_hex (show_nat 16 (unat w)) = Ok w"
  using unsigned_less [of w, where ?'a = nat] by (simp add: parse_hex_def parse_unsigned_show)

lemma lsn_halves: "push_bit 32 (drop_bit 32 w) OR (w AND 0xFFFFFFFF) = (w :: u64)"
proof -
  have m: "(0xFFFFFFFF :: u64) = mask 32" by (simp add: mask_eq_exp_minus_1)
  show ?thesis unfolding m
    by (rule bit_word_eqI) (auto simp: bit_simps)
qed

text \<open>
  A WAL position survives printing and parsing: \<open>parse_lsn\<close> of \<open>format_lsn\<close> is the position, for all
  64-bit values.
\<close>

theorem lsn_roundtrip: "parse_lsn (format_lsn lsn) = Ok lsn"
  unfolding parse_lsn_def format_lsn_def
  by (simp add: split_once_append [OF show_hex_no_slash] parse_hex_show lsn_halves)

section \<open>SQL quoting\<close>

definition double_byte :: "byte \<Rightarrow> rstr \<Rightarrow> rstr" where
  "double_byte q s = concat (map (\<lambda>b. if b = q then [q, q] else [b]) s)"

definition quote_ident :: "rstr \<Rightarrow> rstr" where
  "quote_ident s = 34 # double_byte 34 s @ [34]"

definition quote_literal :: "rstr \<Rightarrow> rstr" where
  "quote_literal s = 39 # double_byte 39 s @ [39]"

text \<open>How PostgreSQL reads a quoted token: a doubled quote is one, a single one ends the token.\<close>

fun unquote :: "byte \<Rightarrow> bytes \<Rightarrow> (rstr \<times> bytes) option" where
  "unquote q [] = None"
| "unquote q (b # bs) =
     (if b \<noteq> q then map_option (\<lambda>(s, r). (b # s, r)) (unquote q bs)
      else (case bs of
              b' # bs' \<Rightarrow> if b' = q then map_option (\<lambda>(s, r). (q # s, r)) (unquote q bs') else Some ([], bs)
            | [] \<Rightarrow> Some ([], [])))"

lemma unquote_double: "(case r of [] \<Rightarrow> True | b # _ \<Rightarrow> b \<noteq> q) \<Longrightarrow> unquote q (double_byte q s @ q # r) = Some (s, r)"
  by (induction s) (auto simp: double_byte_def split: list.splits)

text \<open>
  Quoting closes every injection: whatever the identifier or the literal holds, the SQL reader gets it
  back and ends the token where the quoting ended it.
\<close>

theorem quoting_is_read_back:
  assumes "case r of [] \<Rightarrow> True | b # _ \<Rightarrow> b \<noteq> 34 \<and> b \<noteq> 39"
  shows "unquote 34 (tl (quote_ident s) @ r) = Some (s, r) \<and> unquote 39 (tl (quote_literal s) @ r) = Some (s, r)"
  using assms unquote_double [where r = r and q = 34 and s = s] unquote_double [where r = r and q = 39 and s = s]
  by (auto simp: quote_ident_def quote_literal_def split: list.splits)

theorem quoting_is_read_back_witness:
  "unquote 34 (tl (quote_ident [97, 34, 59]) @ [32]) = Some ([97, 34, 59], [32])"
  using quoting_is_read_back [of "[32]"] by simp

end
