(* ===== verification/ReplClient.thy ===== *)
theory ReplClient
  imports PrefixCodec Lsn PgOutput
begin

text \<open>
  The replication-protocol client (\<open>crates/graydb-ingest/src/repl.rs\<close>). The socket is the list of chunks
  its reads will return (an empty one, or none left, is end of file), whether writes succeed, and the
  messages written. Authentication is not modelled.
\<close>

section \<open>State\<close>

record backend_message =
  bm_tag :: byte
  bm_body :: bytes

record repl_client =
  rc_buf :: bytes
  rc_in :: "bytes list"
  rc_writable :: bool
  rc_sent :: "bytes list"

datatype repl_msg =
    XLogData u64 bytes
  | Keepalive u64 bool

record slot_snapshot =
  sl_slot_name :: rstr
  sl_consistent_point :: rstr
  sl_snapshot_name :: rstr
  sl_output_plugin :: rstr

section \<open>Framing\<close>

definition try_parse :: "bytes \<Rightarrow> repl_error + (backend_message option \<times> bytes)" where
  "try_parse buf =
     (if length buf < 5 then Ok (None, buf)
      else
        res_bind (need (get_u32 (drop 1 buf)) ReplPanic) (\<lambda>(w, _).
        let len = sint w in
        res_bind (ensure (4 \<le> len) (BadMessageLength len)) (\<lambda>_.
        let total = 1 + nat len in
        if length buf < total then Ok (None, buf)
        else Ok (Some \<lparr>bm_tag = hd buf, bm_body = drop 5 (take total buf)\<rparr>, drop total buf))))"

fun read_loop :: "bytes \<Rightarrow> bytes list \<Rightarrow> (repl_error + backend_message) \<times> bytes \<times> bytes list" where
  "read_loop buf [] =
     (case try_parse buf of
        Inl e \<Rightarrow> (Err e, buf, [])
      | Inr (Some m, rest) \<Rightarrow> (Ok m, rest, [])
      | Inr (None, _) \<Rightarrow> (Err ConnClosed, buf, []))"
| "read_loop buf (c # chunks) =
     (case try_parse buf of
        Inl e \<Rightarrow> (Err e, buf, c # chunks)
      | Inr (Some m, rest) \<Rightarrow> (Ok m, rest, c # chunks)
      | Inr (None, _) \<Rightarrow> if c = [] then (Err ConnClosed, buf, chunks) else read_loop (buf @ c) chunks)"

definition read_message :: "repl_client \<Rightarrow> (repl_error + backend_message) \<times> repl_client" where
  "read_message c =
     (let (r, buf, chunks) = read_loop (rc_buf c) (rc_in c) in (r, c\<lparr>rc_buf := buf, rc_in := chunks\<rparr>))"

definition message_bytes :: "byte \<Rightarrow> bytes \<Rightarrow> bytes" where
  "message_bytes tag body = tag # put_u32 (word_of_nat (length body) + 4) @ body"

definition send_msg :: "byte \<Rightarrow> bytes \<Rightarrow> repl_client \<Rightarrow> (repl_error + unit) \<times> repl_client" where
  "send_msg tag body c =
     (if rc_writable c then (Ok (), c\<lparr>rc_sent := rc_sent c @ [message_bytes tag body]\<rparr>) else (Err WriteFailed, c))"

definition pending_bytes :: "repl_client \<Rightarrow> nat" where
  "pending_bytes c = length (rc_buf c) + length (concat (rc_in c))"

lemma try_parse_Some:
  "try_parse buf = Ok (Some m, rest) \<Longrightarrow> length buf = 5 + length (bm_body m) + length rest"
  by (auto simp: try_parse_def res_bind_Ok_iff Let_def split: if_splits prod.splits)

lemma read_loop_pending:
  "read_loop buf chunks = (Ok m, buf', chunks') \<Longrightarrow>
     length buf' + length (concat chunks') < length buf + length (concat chunks)"
proof (induction chunks arbitrary: buf)
  case Nil
  then show ?case by (auto dest: try_parse_Some split: sum.splits prod.splits option.splits if_splits)
next
  case (Cons c chunks)
  show ?case
  proof (cases "\<exists>m rest. try_parse buf = Ok (Some m, rest)")
    case True
    then show ?thesis using Cons.prems try_parse_Some by fastforce
  next
    case False
    then have "read_loop (buf @ c) chunks = (Ok m, buf', chunks')"
      using Cons.prems by (auto split: sum.splits prod.splits option.splits if_splits)
    from Cons.IH [OF this] show ?thesis by simp
  qed
qed

lemma read_message_pending: "read_message c = (Ok m, c') \<Longrightarrow> pending_bytes c' < pending_bytes c"
  by (auto simp: read_message_def pending_bytes_def split: prod.splits dest: read_loop_pending)

text \<open>
  The loops of the client: read a message, and go on with a new loop state, return or fail. Every
  message takes bytes off the pending input, so the loops end.
\<close>

datatype ('s, 'r) verdict = Again 's | Return 'r | Fail repl_error

function msg_loop ::
    "('s \<Rightarrow> backend_message \<Rightarrow> ('s, 'r) verdict) \<Rightarrow> 's \<Rightarrow> repl_client \<Rightarrow> (repl_error + 'r) \<times> repl_client" where
  "msg_loop handle st c =
     (case read_message c of
        (Inl e, c') \<Rightarrow> (Err e, c')
      | (Inr m, c') \<Rightarrow>
          (case handle st m of
             Again st' \<Rightarrow> msg_loop handle st' c'
           | Return r \<Rightarrow> (Ok r, c')
           | Fail e \<Rightarrow> (Err e, c')))"
  by pat_completeness auto
termination
  by (relation "measure (\<lambda>(_, _, c). pending_bytes c)") (auto dest: read_message_pending [OF sym])

declare msg_loop.simps [simp del]

section \<open>Server errors\<close>

function error_fields :: "bytes \<Rightarrow> (byte \<times> rstr) list" where
  "error_fields [] = []"
| "error_fields (b # bs) =
     (if b = 0 then []
      else (b, utf8_lossy (takeWhile (\<lambda>x. x \<noteq> 0) bs)) # error_fields (drop 1 (dropWhile (\<lambda>x. x \<noteq> 0) bs)))"
  by pat_completeness auto
termination
  by (relation "measure length") (auto intro: le_less_trans [OF diff_le_self] le_imp_less_Suc length_dropWhile_le)

definition last_field :: "byte \<Rightarrow> (byte \<times> rstr) list \<Rightarrow> rstr" where
  "last_field tag fs = fold (\<lambda>(b, v) acc. if b = tag then v else acc) fs []"

definition parse_error :: "bytes \<Rightarrow> rstr" where
  "parse_error body =
     (let fs = error_fields body
      in last_field 83 fs @ str '' '' @ last_field 67 fs @ str '': '' @ last_field 77 fs)"

section \<open>Queries\<close>

fun row_fields :: "nat \<Rightarrow> bytes \<Rightarrow> repl_error + rstr option list" where
  "row_fields 0 b = Ok []"
| "row_fields (Suc n) b =
     res_bind (need (get_u32 b) ReplPanic) (\<lambda>(w, b).
     if sint w < 0 then res_bind (row_fields n b) (\<lambda>fs. Ok (None # fs))
     else
       res_bind (need (take_n (nat (sint w)) b) ReplPanic) (\<lambda>(v, b).
       res_bind (row_fields n b) (\<lambda>fs. Ok (Some (utf8_lossy v) # fs))))"

text \<open>A negative field count is a capacity overflow of \<open>Vec::with_capacity\<close>.\<close>

definition data_row :: "bytes \<Rightarrow> repl_error + rstr option list" where
  "data_row body =
     res_bind (need (get_u16 body) ReplPanic) (\<lambda>(w, b).
     res_bind (ensure (0 \<le> sint w) ReplPanic) (\<lambda>_. row_fields (nat (sint w)) b))"

type_synonym query_state = "rstr option list list \<times> rstr option"

definition query_handler :: "rstr \<Rightarrow> query_state \<Rightarrow> backend_message \<Rightarrow> (query_state, rstr option list list) verdict" where
  "query_handler sql st m =
     (let (rows, err) = st; tag = bm_tag m in
      if tag \<in> {84, 67, 83, 78, 73} then Again st
      else if tag = 68 then
        (case data_row (bm_body m) of Inl e \<Rightarrow> Fail e | Inr row \<Rightarrow> Again (rows @ [row], err))
      else if tag = 69 then Again (rows, Some (parse_error (bm_body m)))
      else if tag = 90 then (case err of Some e \<Rightarrow> Fail (QueryFailed e sql) | None \<Rightarrow> Return rows)
      else Fail (UnexpectedTag tag))"

definition simple_query :: "rstr \<Rightarrow> repl_client \<Rightarrow> (repl_error + rstr option list list) \<times> repl_client" where
  "simple_query sql c =
     st_bind (send_msg 81 (sql @ [0]) c) (\<lambda>_ c. msg_loop (query_handler sql) ([], None) c)"

definition field_at :: "rstr option list \<Rightarrow> nat \<Rightarrow> rstr option" where
  "field_at row i = (if i < length row then row ! i else None)"

definition identify_system ::
    "repl_client \<Rightarrow> (repl_error + (rstr \<times> rstr \<times> rstr \<times> rstr option)) \<times> repl_client" where
  "identify_system c =
     st_bind (simple_query (str ''IDENTIFY_SYSTEM'') c) (\<lambda>rows c.
     case rows of
       [] \<Rightarrow> (Err NoRow, c)
     | row # _ \<Rightarrow>
         let get = (\<lambda>i. case field_at row i of None \<Rightarrow> [] | Some s \<Rightarrow> s)
         in (Ok (get 0, get 1, get 2, field_at row 3), c))"

definition create_slot_with_snapshot :: "rstr \<Rightarrow> repl_client \<Rightarrow> (repl_error + slot_snapshot) \<times> repl_client" where
  "create_slot_with_snapshot slot c =
     st_bind (simple_query (str ''CREATE_REPLICATION_SLOT '' @ quote_ident slot @
                str '' LOGICAL pgoutput (SNAPSHOT '' @ 39 # str ''export'' @ 39 # str '')'') c) (\<lambda>rows c.
     (case rows of
        [] \<Rightarrow> Err NoRow
      | row # _ \<Rightarrow>
          let get = (\<lambda>i. need (field_at row i) (MissingColumn i)) in
          res_bind (get 0) (\<lambda>name. res_bind (get 1) (\<lambda>cp. res_bind (get 2) (\<lambda>sn. res_bind (get 3) (\<lambda>pl.
          Ok \<lparr>sl_slot_name = name, sl_consistent_point = cp, sl_snapshot_name = sn, sl_output_plugin = pl\<rparr>)))), c))"

definition start_handler :: "unit \<Rightarrow> backend_message \<Rightarrow> (unit, unit) verdict" where
  "start_handler _ m =
     (let tag = bm_tag m in
      if tag = 87 then Return ()
      else if tag \<in> {83, 78, 67} then Again ()
      else if tag = 69 then Fail (ServerError (parse_error (bm_body m)))
      else if tag = 90 then Fail StreamEnded
      else Fail (UnexpectedTag tag))"

definition start_replication :: "rstr \<Rightarrow> rstr \<Rightarrow> u64 \<Rightarrow> repl_client \<Rightarrow> (repl_error + unit) \<times> repl_client" where
  "start_replication slot publication start_lsn c =
     st_bind (send_msg 81 (str ''START_REPLICATION SLOT '' @ quote_ident slot @ str '' LOGICAL '' @ format_lsn start_lsn @
                str '' (proto_version '' @ 39 # str ''1'' @ 39 # str '', publication_names '' @ 39 #
                double_byte 39 publication @ 39 # str '')'' @ [0]) c) (\<lambda>_ c.
     msg_loop start_handler () c)"

section \<open>The replication stream\<close>

definition copy_data_msg :: "bytes \<Rightarrow> repl_error + repl_msg" where
  "copy_data_msg body =
     (case body of
        [] \<Rightarrow> Err EmptyCopyData
      | k # b \<Rightarrow>
          if k = 119 then
            res_bind (need (get_u64 b) ReplPanic) (\<lambda>(wal_start, b).
            res_bind (need (get_u64 b) ReplPanic) (\<lambda>(_, b).
            res_bind (need (get_u64 b) ReplPanic) (\<lambda>(_, b). Ok (XLogData wal_start b))))
          else if k = 107 then
            res_bind (need (get_u64 b) ReplPanic) (\<lambda>(wal_end, b).
            res_bind (need (get_u64 b) ReplPanic) (\<lambda>(_, b).
            res_bind (need (get_u8 b) ReplPanic) (\<lambda>(r, _). Ok (Keepalive wal_end (r = 1)))))
          else Err (UnknownCopyKind k))"

definition stream_handler :: "unit \<Rightarrow> backend_message \<Rightarrow> (unit, repl_msg) verdict" where
  "stream_handler _ m =
     (let tag = bm_tag m in
      if tag = 100 then (case copy_data_msg (bm_body m) of Inl e \<Rightarrow> Fail e | Inr r \<Rightarrow> Return r)
      else if tag \<in> {78, 83} then Again ()
      else if tag = 69 then Fail (ServerError (parse_error (bm_body m)))
      else if tag \<in> {99, 67, 90} then Fail StreamEnded
      else Fail (UnexpectedTag tag))"

definition next_replication_message :: "repl_client \<Rightarrow> (repl_error + repl_msg) \<times> repl_client" where
  "next_replication_message c = msg_loop stream_handler () c"

definition status_body :: "u64 \<Rightarrow> bool \<Rightarrow> u64 \<Rightarrow> bytes" where
  "status_body durable_lsn request_reply now =
     114 # put_u64 durable_lsn @ put_u64 durable_lsn @ put_u64 durable_lsn @ put_u64 now @ [if request_reply then 1 else 0]"

definition send_standby_status :: "u64 \<Rightarrow> bool \<Rightarrow> u64 \<Rightarrow> repl_client \<Rightarrow> (repl_error + unit) \<times> repl_client" where
  "send_standby_status durable_lsn request_reply now c = send_msg 100 (status_body durable_lsn request_reply now) c"

definition close :: "repl_client \<Rightarrow> (repl_error + unit) \<times> repl_client" where
  "close c = send_msg 88 [] c"

section \<open>Any chunking gives the same messages\<close>

definition backend_bytes :: "backend_message \<Rightarrow> bytes" where
  "backend_bytes m = message_bytes (bm_tag m) (bm_body m)"

definition backend_item :: "bytes \<Rightarrow> (backend_message \<times> bytes) option" where
  "backend_item bs = (case try_parse bs of Inr (Some m, rest) \<Rightarrow> Some (m, rest) | _ \<Rightarrow> None)"

definition message_fits :: "backend_message \<Rightarrow> bool" where
  "message_fits m \<longleftrightarrow> length (bm_body m) + 4 < 2 ^ 31"

lemma sint_small: "n < 2 ^ 31 \<Longrightarrow> sint (word_of_nat n :: u32) = int n"
  by (simp add: signed_of_nat signed_take_bit_int_eq_self)

lemma body_length:
  assumes "message_fits m"
  shows "sint (word_of_nat (length (bm_body m)) + 4 :: u32) = int (length (bm_body m)) + 4"
proof -
  have "(word_of_nat (length (bm_body m)) + 4 :: u32) = word_of_nat (length (bm_body m) + 4)" by simp
  then show ?thesis using sint_small [of "length (bm_body m) + 4"] assms unfolding message_fits_def by (metis of_nat_add of_nat_numeral)
qed

lemma length_backend_bytes [simp]: "length (backend_bytes m) = 5 + length (bm_body m)"
  by (simp add: backend_bytes_def message_bytes_def)

lemma drop_backend [simp]: "drop 5 (backend_bytes m) = bm_body m"
  by (simp add: backend_bytes_def message_bytes_def numeral_eq_Suc)

lemma get_backend_length:
  "get_u32 (drop 1 (backend_bytes m @ r)) = Some (word_of_nat (length (bm_body m)) + 4, bm_body m @ r)"
  by (simp add: backend_bytes_def message_bytes_def get_put)

lemma try_parse_backend: "message_fits m \<Longrightarrow> try_parse (backend_bytes m @ r) = Ok (Some m, r)"
proof -
  assume m: "message_fits m"
  have hd: "hd (backend_bytes m @ r) = bm_tag m" "drop 5 (take (5 + length (bm_body m)) (backend_bytes m @ r)) = bm_body m"
    by (simp_all add: backend_bytes_def message_bytes_def numeral_eq_Suc)
  have "nat (int (length (bm_body m)) + 4) = 4 + length (bm_body m)" by simp
  then show ?thesis
    unfolding try_parse_def get_backend_length
    by (simp add: body_length [OF m] hd Let_def)
qed

lemma get_cut:
  "5 \<le> n \<Longrightarrow> get_u32 (drop 1 (take n (backend_bytes m))) =
     Some (word_of_nat (length (bm_body m)) + 4, take (n - 5) (bm_body m))"
  by (simp add: backend_bytes_def message_bytes_def get_put take_Cons' drop_Cons')

lemma try_parse_cut:
  assumes "message_fits m" "n < length (backend_bytes m)"
  shows "try_parse (take n (backend_bytes m)) = Ok (None, take n (backend_bytes m))"
proof (cases "n < 5")
  case False
  then show ?thesis using assms(2) get_cut [of n m] by (simp add: try_parse_def body_length [OF assms(1)] Let_def)
qed (simp add: try_parse_def)

interpretation message_stream: prefix_codec backend_bytes backend_item message_fits
proof
  show "backend_item (backend_bytes m @ r) = Some (m, r)" if "message_fits m" for m r
    by (simp add: backend_item_def try_parse_backend [OF that])
  show "backend_item (take n (backend_bytes m)) = None" if "message_fits m" "n < length (backend_bytes m)" for m n
    by (simp add: backend_item_def try_parse_cut [OF that])
qed

lemma read_loop_message:
  assumes "message_fits m" "buf @ concat chunks = backend_bytes m @ r" "[] \<notin> set chunks"
  shows "\<exists>buf' chunks'. read_loop buf chunks = (Ok m, buf', chunks') \<and> buf' @ concat chunks' = r \<and> [] \<notin> set chunks'"
  using assms(2,3)
proof (induction chunks arbitrary: buf)
  case Nil
  then have "buf = backend_bytes m @ r" by simp
  then show ?case using try_parse_backend [OF assms(1)] by simp
next
  case (Cons c chunks)
  have d: "backend_item buf = (if length (backend_bytes m) \<le> length buf then Some (m, drop (length (backend_bytes m)) buf) else None)"
    by (rule message_stream.dec_buffered [OF assms(1) Cons.prems(1)])
  show ?case
  proof (cases "length (backend_bytes m) \<le> length buf")
    case True
    then have "try_parse buf = Ok (Some m, drop (length (backend_bytes m)) buf)"
      using d by (auto simp: backend_item_def split: sum.splits option.splits prod.splits)
    moreover have "drop (length (backend_bytes m)) (buf @ concat (c # chunks)) = r" unfolding Cons.prems(1) by simp
    ultimately show ?thesis using True Cons.prems(2) by simp
  next
    case False
    have "buf = take (length buf) (backend_bytes m)"
      using False arg_cong [OF Cons.prems(1), of "take (length buf)"] by simp
    then have "try_parse buf = Ok (None, buf)" using try_parse_cut [OF assms(1), of "length buf"] False by simp
    moreover have "c \<noteq> []" using Cons.prems(2) by auto
    ultimately show ?thesis using Cons.IH [of "buf @ c"] Cons.prems by simp
  qed
qed

section \<open>The stream a server sends\<close>

text \<open>The CopyBoth messages of a server: \<open>w\<close> and \<open>k\<close> messages with fields the client ignores, and notices.\<close>

datatype server_item =
    Sends repl_msg u64 u64
  | Notice byte bytes

fun wire_item :: "server_item \<Rightarrow> backend_message" where
  "wire_item (Sends (XLogData s p) a b) = \<lparr>bm_tag = 100, bm_body = 119 # put_u64 s @ put_u64 a @ put_u64 b @ p\<rparr>"
| "wire_item (Sends (Keepalive e r) a b) = \<lparr>bm_tag = 100, bm_body = 107 # put_u64 e @ put_u64 b @ [if r then 1 else 0]\<rparr>"
| "wire_item (Notice t b) = \<lparr>bm_tag = t, bm_body = b\<rparr>"

fun item_ok :: "server_item \<Rightarrow> bool" where
  "item_ok (Notice t b) = (t \<in> {78, 83} \<and> message_fits \<lparr>bm_tag = t, bm_body = b\<rparr>)"
| "item_ok (Sends m a b) = message_fits (wire_item (Sends m a b))"

fun sent_msgs :: "server_item list \<Rightarrow> repl_msg list" where
  "sent_msgs [] = []"
| "sent_msgs (Sends m a b # is) = m # sent_msgs is"
| "sent_msgs (Notice t b # is) = sent_msgs is"

fun next_messages :: "nat \<Rightarrow> repl_client \<Rightarrow> (repl_error + repl_msg list) \<times> repl_client" where
  "next_messages 0 c = (Ok [], c)"
| "next_messages (Suc n) c =
     st_bind (next_replication_message c) (\<lambda>m c. st_bind (next_messages n c) (\<lambda>ms c. (Ok (m # ms), c)))"

definition server_bytes :: "server_item list \<Rightarrow> bytes" where
  "server_bytes is = concat (map (\<lambda>i. backend_bytes (wire_item i)) is)"

lemma server_bytes_simps [simp]:
  "server_bytes [] = []" "server_bytes (i # is) = backend_bytes (wire_item i) @ server_bytes is"
  by (simp_all add: server_bytes_def)

lemma copy_data_sent: "copy_data_msg (bm_body (wire_item (Sends m a b))) = Ok m"
  by (cases m) (simp_all add: copy_data_msg_def get_put)

lemma stream_sent: "stream_handler () (wire_item (Sends m a b)) = Return m"
proof -
  have "bm_tag (wire_item (Sends m a b)) = 100" by (cases m) simp_all
  then show ?thesis by (simp only: stream_handler_def copy_data_sent Let_def) simp
qed

lemma stream_notice: "t \<in> {78, 83} \<Longrightarrow> stream_handler () \<lparr>bm_tag = t, bm_body = b\<rparr> = Again ()"
  by (auto simp: stream_handler_def)

lemma read_item:
  assumes "item_ok i" "rc_buf c @ concat (rc_in c) = backend_bytes (wire_item i) @ r" "[] \<notin> set (rc_in c)"
  shows "\<exists>c'. read_message c = (Ok (wire_item i), c') \<and> rc_buf c' @ concat (rc_in c') = r \<and> [] \<notin> set (rc_in c')"
proof -
  have "message_fits (wire_item i)" using assms(1) by (cases i) simp_all
  from read_loop_message [OF this assms(2,3)] show ?thesis by (auto simp: read_message_def)
qed

lemma next_message_arrives:
  assumes "\<forall>i \<in> set is. item_ok i" "rc_buf c @ concat (rc_in c) = server_bytes is @ r" "[] \<notin> set (rc_in c)"
    "sent_msgs is = m # ms"
  shows "\<exists>c' is'. next_replication_message c = (Ok m, c') \<and> sent_msgs is' = ms \<and> (\<forall>i \<in> set is'. item_ok i) \<and>
    rc_buf c' @ concat (rc_in c') = server_bytes is' @ r \<and> [] \<notin> set (rc_in c')"
  using assms
proof (induction "is" arbitrary: c)
  case (Cons i "is")
  have ok: "item_ok i" using Cons.prems(1) by simp
  have "rc_buf c @ concat (rc_in c) = backend_bytes (wire_item i) @ server_bytes is @ r" using Cons.prems(2) by simp
  from read_item [OF ok this Cons.prems(3)] obtain c' where c':
    "read_message c = (Ok (wire_item i), c')" "rc_buf c' @ concat (rc_in c') = server_bytes is @ r" "[] \<notin> set (rc_in c')"
    by blast
  show ?case
  proof (cases i)
    case (Sends m' a b)
    then have "next_replication_message c = (Ok m', c')"
      unfolding next_replication_message_def by (subst msg_loop.simps) (simp only: c'(1) stream_sent prod.case sum.case verdict.case)
    then show ?thesis using Cons.prems c' Sends by auto
  next
    case (Notice t b)
    then have "next_replication_message c = next_replication_message c'"
      unfolding next_replication_message_def using ok
      by (subst msg_loop.simps) (simp add: c'(1) stream_notice)
    then show ?thesis using Cons.IH [OF _ c'(2,3)] Cons.prems Notice by simp
  qed
qed simp

text \<open>
  C15. The buffered reader is chunk-independent: however the network cuts a server's stream of replication
  messages and notices into reads, the client returns exactly the messages sent, in order, with their
  positions and payloads, and keeps what follows them.
\<close>

theorem stream_survives_chunking:
  assumes "\<forall>i \<in> set is. item_ok i" "rc_buf c @ concat (rc_in c) = server_bytes is" "[] \<notin> set (rc_in c)"
  shows "\<exists>c'. next_messages (length (sent_msgs is)) c = (Ok (sent_msgs is), c')"
proof -
  have "\<exists>c'. next_messages (length ms) c = (Ok ms, c')"
    if "\<forall>i \<in> set is. item_ok i" "rc_buf c @ concat (rc_in c) = server_bytes is" "[] \<notin> set (rc_in c)" "sent_msgs is = ms"
    for ms "is" c
    using that
  proof (induction ms arbitrary: "is" c)
    case (Cons m ms)
    from next_message_arrives [of "is" c "[]", OF Cons.prems(1) _ Cons.prems(3,4)] Cons.prems(2) obtain c' is' where
      "next_replication_message c = (Ok m, c')" "sent_msgs is' = ms" "\<forall>i \<in> set is'. item_ok i"
      "rc_buf c' @ concat (rc_in c') = server_bytes is'" "[] \<notin> set (rc_in c')" by auto
    then show ?case using Cons.IH [of is' c'] by auto
  qed simp
  then show ?thesis using assms by blast
qed

theorem stream_survives_chunking_witness:
  "\<exists>c'. next_messages 1 \<lparr>rc_buf = [], rc_in = [[78, 0], [0, 0], [5, 7], server_bytes [Sends (Keepalive 9 True) 0 0]],
     rc_writable = True, rc_sent = []\<rparr> = (Ok [Keepalive 9 True], c')"
proof -
  have "[78, 0, 0, 0, 5, 7] = backend_bytes (wire_item (Notice 78 [7]))"
    by (simp add: backend_bytes_def message_bytes_def put_u32_def be_bytes_def)
  then show ?thesis
    using stream_survives_chunking [of "[Notice 78 [7], Sends (Keepalive 9 True) 0 0]"
      "\<lparr>rc_buf = [], rc_in = [[78, 0], [0, 0], [5, 7], server_bytes [Sends (Keepalive 9 True) 0 0]],
        rc_writable = True, rc_sent = []\<rparr>"]
    by (simp add: message_fits_def backend_bytes_def message_bytes_def)
qed

end
