(* ===== verification/Pump.thy ===== *)
theory Pump
  imports ReplClient LogStaging
begin

text \<open>
  The ingest pump (\<open>crates/graydb-ingest/src/stream.rs\<close>): one step per branch of its \<open>select!\<close> loop.
  The log is used through the operations of \<open>log_ops\<close>; the locale \<open>durable_log\<close> states what the pump
  relies on, and \<open>FrameLog\<close> provides it.
\<close>

section \<open>State\<close>

record pump_command =
  pc_stalled :: bool
  pc_shutdown :: bool

record ingest_metrics =
  im_frames :: u64
  im_commits :: u64
  im_spilled_frames :: u64
  im_durable_lsn :: u64
  im_acked_lsn :: u64
  im_stream_lsn :: u64

definition zero_metrics :: ingest_metrics where
  "zero_metrics = \<lparr>im_frames = 0, im_commits = 0, im_spilled_frames = 0, im_durable_lsn = 0,
     im_acked_lsn = 0, im_stream_lsn = 0\<rparr>"

record 'l log_ops =
  lo_append :: "io \<Rightarrow> u64 \<Rightarrow> u64 \<Rightarrow> bool \<Rightarrow> bytes \<Rightarrow> 'l \<Rightarrow> (log_error + u64) \<times> 'l"
  lo_set_stalled :: "io \<Rightarrow> bool \<Rightarrow> 'l \<Rightarrow> (log_error + unit) \<times> 'l"
  lo_mark :: "'l \<Rightarrow> durable_mark"
  lo_is_stalled :: "'l \<Rightarrow> bool"
  lo_spilled :: "'l \<Rightarrow> u64"

definition frame_log_ops :: "crc_fun \<Rightarrow> frame_log log_ops" where
  "frame_log_ops crc = \<lparr>lo_append = log_append crc, lo_set_stalled = set_stalled, lo_mark = fl_mark,
     lo_is_stalled = fl_stalled, lo_spilled = fl_spilled\<rparr>"

record 'l pump =
  pm_client :: repl_client
  pm_log :: 'l
  pm_metrics :: ingest_metrics

datatype pump_error = PumpRepl repl_error | PumpLog log_error

text \<open>
  What \<open>select!\<close> picks: a change of the control channel (\<open>None\<close> when the controller is gone), the next
  message, or the status tick; each with the input/output its log calls meet and the clock.
\<close>

datatype pump_event = Ctrl "pump_command option" | Arrival | Tick

record pump_input =
  pi_event :: pump_event
  pi_io :: io
  pi_now :: u64

definition from_log :: "(log_error + 'a) \<times> 'l \<Rightarrow> 'l pump \<Rightarrow> (pump_error + 'a) \<times> 'l pump" where
  "from_log r st = (case fst r of Inl e \<Rightarrow> Err (PumpLog e) | Inr x \<Rightarrow> Ok x, st\<lparr>pm_log := snd r\<rparr>)"

definition from_client :: "(repl_error + 'a) \<times> repl_client \<Rightarrow> 'l pump \<Rightarrow> (pump_error + 'a) \<times> 'l pump" where
  "from_client r st = (case fst r of Inl e \<Rightarrow> Err (PumpRepl e) | Inr x \<Rightarrow> Ok x, st\<lparr>pm_client := snd r\<rparr>)"

section \<open>One step\<close>

definition commit_end_lsn :: "bytes \<Rightarrow> u64 option" where
  "commit_end_lsn payload =
     (if 26 \<le> length payload \<and> payload ! 0 = 67 then map_option fst (get_u64 (drop 10 payload)) else None)"

definition send_status :: "u64 \<Rightarrow> bool \<Rightarrow> u64 \<Rightarrow> 'l pump \<Rightarrow> (pump_error + unit) \<times> 'l pump" where
  "send_status lsn request_reply now st =
     from_client (send_standby_status lsn request_reply now (pm_client st)) st"

definition set_acked :: "u64 \<Rightarrow> 'l pump \<Rightarrow> 'l pump" where
  "set_acked lsn st = st\<lparr>pm_metrics := (pm_metrics st)\<lparr>im_acked_lsn := lsn\<rparr>\<rparr>"

definition on_ctrl ::
    "'l log_ops \<Rightarrow> io \<Rightarrow> u64 \<Rightarrow> pump_command option \<Rightarrow> 'l pump \<Rightarrow> (pump_error + bool) \<times> 'l pump" where
  "on_ctrl ops w now cmd st =
     (case cmd of
        None \<Rightarrow> (Ok False, st)
      | Some c \<Rightarrow>
          if pc_shutdown c then (Ok False, st)
          else
            st_bind (from_log (lo_set_stalled ops w (pc_stalled c) (pm_log st)) st) (\<lambda>_ st.
            if \<not> pc_stalled c \<and> dm_valid (lo_mark ops (pm_log st)) then
              let lsn = dm_lsn (lo_mark ops (pm_log st)) in
              st_bind (send_status lsn False now st) (\<lambda>_ st. (Ok True, set_acked lsn st))
            else (Ok True, st)))"

definition saw_lsn :: "u64 \<Rightarrow> ingest_metrics \<Rightarrow> ingest_metrics" where
  "saw_lsn lsn mt = mt\<lparr>im_stream_lsn := max (im_stream_lsn mt) lsn\<rparr>"

definition count_frame :: "bool \<Rightarrow> u64 \<Rightarrow> durable_mark \<Rightarrow> ingest_metrics \<Rightarrow> ingest_metrics" where
  "count_frame txn_complete spilled m mt =
     mt\<lparr>im_frames := im_frames mt + 1,
        im_commits := im_commits mt + (if txn_complete then 1 else 0),
        im_spilled_frames := spilled,
        im_durable_lsn := (if dm_valid m then dm_lsn m else im_durable_lsn mt)\<rparr>"

definition on_xlog ::
    "'l log_ops \<Rightarrow> io \<Rightarrow> u64 \<Rightarrow> u64 \<Rightarrow> bytes \<Rightarrow> 'l pump \<Rightarrow> (pump_error + bool) \<times> 'l pump" where
  "on_xlog ops w now wal_start payload st =
     (let cend = commit_end_lsn payload;
          txn_complete = (cend \<noteq> None);
          lsn_end = (case cend of Some e \<Rightarrow> e | None \<Rightarrow> wal_start);
          st = st\<lparr>pm_metrics := saw_lsn lsn_end (pm_metrics st)\<rparr>
      in st_bind (from_log (lo_append ops w wal_start lsn_end txn_complete payload (pm_log st)) st) (\<lambda>_ st.
         let m = lo_mark ops (pm_log st);
             st = st\<lparr>pm_metrics := count_frame txn_complete (lo_spilled ops (pm_log st)) m (pm_metrics st)\<rparr>
         in if txn_complete \<and> \<not> lo_is_stalled ops (pm_log st) \<and> dm_valid m \<and> im_acked_lsn (pm_metrics st) < dm_lsn m
            then st_bind (send_status (dm_lsn m) False now st) (\<lambda>_ st. (Ok True, set_acked (dm_lsn m) st))
            else (Ok True, st)))"

definition durable_or :: "u64 \<Rightarrow> durable_mark \<Rightarrow> u64" where
  "durable_or start_lsn m = (if dm_valid m then dm_lsn m else start_lsn)"

definition on_keepalive ::
    "'l log_ops \<Rightarrow> u64 \<Rightarrow> u64 \<Rightarrow> u64 \<Rightarrow> bool \<Rightarrow> 'l pump \<Rightarrow> (pump_error + bool) \<times> 'l pump" where
  "on_keepalive ops start_lsn now wal_end reply_requested st =
     (let st = st\<lparr>pm_metrics := saw_lsn wal_end (pm_metrics st)\<rparr>
      in if reply_requested
         then st_bind (send_status (durable_or start_lsn (lo_mark ops (pm_log st))) False now st) (\<lambda>_ st. (Ok True, st))
         else (Ok True, st))"

definition on_tick :: "'l log_ops \<Rightarrow> u64 \<Rightarrow> u64 \<Rightarrow> 'l pump \<Rightarrow> (pump_error + bool) \<times> 'l pump" where
  "on_tick ops start_lsn now st =
     (let m = lo_mark ops (pm_log st)
      in if lo_is_stalled ops (pm_log st) then (Ok True, st)
         else st_bind (send_status (durable_or start_lsn m) True now st) (\<lambda>_ st.
              (Ok True, if dm_valid m then set_acked (dm_lsn m) st else st)))"

definition pump_step ::
    "'l log_ops \<Rightarrow> u64 \<Rightarrow> pump_input \<Rightarrow> 'l pump \<Rightarrow> (pump_error + bool) \<times> 'l pump" where
  "pump_step ops start_lsn i st =
     (case pi_event i of
        Ctrl cmd \<Rightarrow> on_ctrl ops (pi_io i) (pi_now i) cmd st
      | Arrival \<Rightarrow>
          st_bind (from_client (next_replication_message (pm_client st)) st) (\<lambda>msg st.
          case msg of
            XLogData wal_start payload \<Rightarrow> on_xlog ops (pi_io i) (pi_now i) wal_start payload st
          | Keepalive wal_end reply \<Rightarrow> on_keepalive ops start_lsn (pi_now i) wal_end reply st)
      | Tick \<Rightarrow> on_tick ops start_lsn (pi_now i) st)"

text \<open>The end of the loop: a final status and \<open>Terminate\<close>, whose errors are dropped.\<close>

definition pump_stop :: "'l log_ops \<Rightarrow> u64 \<Rightarrow> 'l pump \<Rightarrow> 'l pump" where
  "pump_stop ops now st =
     (let m = lo_mark ops (pm_log st);
          st = (if dm_valid m then snd (send_status (dm_lsn m) False now st) else st)
      in snd (from_client (close (pm_client st)) st))"

text \<open>The loop over the inputs it meets; \<open>Ok True\<close> when it still runs after the last one.\<close>

fun run_pump :: "'l log_ops \<Rightarrow> u64 \<Rightarrow> pump_input list \<Rightarrow> 'l pump \<Rightarrow> (pump_error + bool) \<times> 'l pump" where
  "run_pump ops start_lsn [] st = (Ok True, st)"
| "run_pump ops start_lsn (i # is) st =
     st_bind (pump_step ops start_lsn i st) (\<lambda>go st.
     if go then run_pump ops start_lsn is st else (Ok False, pump_stop ops (pi_now i) st))"

section \<open>What the pump relies on\<close>

definition alive :: "pump_error + 'a \<Rightarrow> bool" where
  "alive r = (case r of Inl (PumpLog _) \<Rightarrow> False | _ \<Rightarrow> True)"

lemma alive_simps [simp]: "alive (Inr x)" "alive (Inl (PumpRepl e))" "\<not> alive (Inl (PumpLog l))"
  by (simp_all add: alive_def)

lemma alive_Err: "alive (Inl e) \<longleftrightarrow> (\<exists>x. e = PumpRepl x)"
  by (simp add: alive_def split: pump_error.splits)

text \<open>A message that, if it is a status update, reports the start position or a published mark.\<close>

definition justified :: "u64 \<Rightarrow> durable_mark set \<Rightarrow> bytes \<Rightarrow> bool" where
  "justified start_lsn ms x \<longleftrightarrow> (\<forall>lsn rr now. x = message_bytes 100 (status_body lsn rr now) \<longrightarrow>
     lsn = start_lsn \<or> (\<exists>m \<in> ms. dm_valid m \<and> dm_lsn m = lsn))"

definition acks_ok :: "u64 \<Rightarrow> durable_mark set \<Rightarrow> repl_client \<Rightarrow> bool" where
  "acks_ok start_lsn ms c \<longleftrightarrow> (\<forall>x \<in> set (rc_sent c). justified start_lsn ms x)"

lemma acks_mono: "acks_ok start_lsn ms c \<Longrightarrow> ms \<subseteq> ms' \<Longrightarrow> acks_ok start_lsn ms' c"
  unfolding acks_ok_def justified_def by blast

lemma status_inj:
  assumes "message_bytes 100 (status_body lsn rr now) = message_bytes 100 (status_body lsn' rr' now')"
  shows "lsn = lsn'"
proof -
  have "get_u64 (drop 6 (message_bytes 100 (status_body l r n))) =
      Some (l, put_u64 l @ put_u64 l @ put_u64 n @ [if r then 1 else 0])" for l r n
    by (simp add: message_bytes_def status_body_def numeral_eq_Suc get_put)
  from this [of lsn rr now] this [of lsn' rr' now'] show ?thesis unfolding assms by simp
qed

lemma send_status_acks:
  assumes "acks_ok start_lsn ms (pm_client st)" "lsn = start_lsn \<or> (\<exists>m \<in> ms. dm_valid m \<and> dm_lsn m = lsn)"
    "send_status lsn rr now st = (r, st')"
  shows "acks_ok start_lsn ms (pm_client st') \<and> pm_log st' = pm_log st \<and> alive r"
proof -
  have "justified start_lsn ms (message_bytes 100 (status_body lsn rr now))"
    unfolding justified_def using assms(2) status_inj by blast
  then show ?thesis using assms(1,3)
    by (auto simp: send_status_def from_client_def send_standby_status_def send_msg_def acks_ok_def split: if_splits)
qed

lemma close_acks:
  assumes "acks_ok start_lsn ms (pm_client st)"
  shows "acks_ok start_lsn ms (pm_client (snd (from_client (close (pm_client st)) st)))"
proof -
  have "justified start_lsn ms (message_bytes 88 [])" by (simp add: justified_def message_bytes_def)
  then show ?thesis using assms by (simp add: close_def from_client_def send_msg_def acks_ok_def)
qed

text \<open>The payload of a received message is shorter than the length field can say.\<close>

lemma try_parse_short: "try_parse buf = Ok (Some m, rest) \<Longrightarrow> length (bm_body m) < 2 ^ 31"
proof -
  assume "try_parse buf = Ok (Some m, rest)"
  then obtain w where "bm_body m = drop 5 (take (1 + nat (sint (w :: u32))) buf)"
    by (auto simp: try_parse_def res_bind_Ok_iff Let_def split: if_splits prod.splits)
  moreover have "sint w < 2 ^ 31" using sint_lt [of w] by simp
  ultimately show ?thesis by (auto simp: min_def)
qed

lemma read_loop_short: "read_loop buf chunks = (Ok m, r) \<Longrightarrow> length (bm_body m) < 2 ^ 31"
proof (induction chunks arbitrary: buf)
  case Nil
  then show ?case by (auto dest: try_parse_short split: sum.splits prod.splits option.splits)
next
  case (Cons c chunks)
  show ?case
  proof (cases "\<exists>m rest. try_parse buf = Ok (Some m, rest)")
    case True
    then show ?thesis using Cons.prems try_parse_short by fastforce
  next
    case False
    then have "read_loop (buf @ c) chunks = (Ok m, r)"
      using Cons.prems by (auto split: sum.splits prod.splits option.splits if_splits)
    from Cons.IH [OF this] show ?thesis .
  qed
qed

lemma read_message_facts:
  "read_message c = (r, c') \<Longrightarrow> rc_sent c' = rc_sent c \<and> (\<forall>m. r = Ok m \<longrightarrow> length (bm_body m) < 2 ^ 31)"
  by (auto simp: read_message_def split: prod.splits dest: read_loop_short)

lemma msg_loop_facts:
  "msg_loop handle st c = (r, c') \<Longrightarrow> rc_sent c' = rc_sent c \<and>
     (\<forall>x. r = Ok x \<longrightarrow> (\<exists>st' m. handle st' m = Return x \<and> length (bm_body m) < 2 ^ 31))"
proof (induction handle st c rule: msg_loop.induct)
  case (1 handle st c)
  obtain m c1 where m: "read_message c = (m, c1)" by (cases "read_message c")
  note f = read_message_facts [OF m]
  show ?case
  proof (cases m)
    case (Inl e)
    then show ?thesis using 1(2) f m by (subst (asm) msg_loop.simps) auto
  next
    case (Inr x)
    show ?thesis
    proof (cases "handle st x")
      case (Again st')
      have "msg_loop handle st' c1 = (r, c')" using 1(2) m Inr Again by (subst (asm) msg_loop.simps) simp
      from 1(1) [OF m [symmetric] Inr Again this] show ?thesis using f by simp
    next
      case (Return y)
      then show ?thesis using 1(2) f m Inr by (subst (asm) msg_loop.simps) auto
    next
      case (Fail e)
      then show ?thesis using 1(2) f m Inr by (subst (asm) msg_loop.simps) auto
    qed
  qed
qed

lemma copy_data_short: "copy_data_msg b = Ok (XLogData s p) \<Longrightarrow> length p \<le> length b"
  by (auto simp: copy_data_msg_def res_bind_Ok_iff get_u64_def take_n_def split: list.splits if_splits)

lemma next_message_facts:
  assumes "next_replication_message c = (r, c')"
  shows "rc_sent c' = rc_sent c" "r = Ok (XLogData s p) \<Longrightarrow> length p < 2 ^ 32"
proof -
  note f = msg_loop_facts [OF assms [unfolded next_replication_message_def]]
  then show "rc_sent c' = rc_sent c" by simp
  assume "r = Ok (XLogData s p)"
  with f obtain m where "stream_handler () m = Return (XLogData s p)" "length (bm_body m) < 2 ^ 31" by auto
  then have "copy_data_msg (bm_body m) = Ok (XLogData s p)" "length (bm_body m) < 2 ^ 31"
    by (auto simp: stream_handler_def Let_def split: if_splits sum.splits)
  then show "length p < 2 ^ 32" using copy_data_short by fastforce
qed

section \<open>The contract of a durable log\<close>

definition pump_ok ::
    "(bool \<Rightarrow> 'l \<Rightarrow> durable_mark set \<Rightarrow> bool) \<Rightarrow> u64 \<Rightarrow> bool \<Rightarrow> 'l pump \<Rightarrow> durable_mark set \<Rightarrow> bool" where
  "pump_ok reach start_lsn running st ms \<longleftrightarrow> reach running (pm_log st) ms \<and> acks_ok start_lsn ms (pm_client st)"

text \<open>
  \<open>reach running l ms\<close>: a log in state \<open>l\<close> (stopped by a failed call unless \<open>running\<close>) that has published the
  marks \<open>ms\<close>. The mark it shows is published, and no call takes a published mark back.
\<close>

locale durable_log =
  fixes ops :: "'l log_ops" and reach :: "bool \<Rightarrow> 'l \<Rightarrow> durable_mark set \<Rightarrow> bool" and used :: "'l \<Rightarrow> nat"
  assumes mark_published: "reach True l ms \<Longrightarrow> lo_mark ops l \<in> ms"
    and append_law: "reach True l ms \<Longrightarrow> length p < 2 ^ 32 \<Longrightarrow> used l + 1 < 2 ^ 64 \<Longrightarrow>
      lo_append ops w a b t p l = (r, l') \<Longrightarrow> \<exists>ms'. ms \<subseteq> ms' \<and> reach (is_ok r) l' ms' \<and> used l' \<le> Suc (used l)"
    and stall_law: "reach True l ms \<Longrightarrow>
      lo_set_stalled ops w s l = (q, l') \<Longrightarrow> \<exists>ms'. ms \<subseteq> ms' \<and> reach (is_ok q) l' ms' \<and> used l' \<le> used l"
begin

lemma status_ok:
  assumes "pump_ok reach start_lsn True st ms" "send_status (durable_or start_lsn (lo_mark ops (pm_log st))) rr now st = (r, st')"
  shows "pump_ok reach start_lsn True st' ms \<and> pm_log st' = pm_log st \<and> alive r"
proof -
  have "lo_mark ops (pm_log st) \<in> ms" using assms(1) mark_published by (simp add: pump_ok_def)
  then have "durable_or start_lsn (lo_mark ops (pm_log st)) = start_lsn \<or>
      (\<exists>m \<in> ms. dm_valid m \<and> dm_lsn m = durable_or start_lsn (lo_mark ops (pm_log st)))"
    by (auto simp: durable_or_def)
  from send_status_acks [OF _ this assms(2)] show ?thesis using assms(1) by (simp add: pump_ok_def)
qed

lemma ctrl_ok:
  assumes "pump_ok reach start_lsn True st ms" "on_ctrl ops w now cmd st = (r, st')"
  shows "\<exists>ms'. ms \<subseteq> ms' \<and> pump_ok reach start_lsn (alive r) st' ms' \<and> used (pm_log st') \<le> used (pm_log st)"
proof (cases "cmd = None \<or> (\<exists>c. cmd = Some c \<and> pc_shutdown c)")
  case True
  then have "st' = st" "alive r" using assms(2) by (auto simp: on_ctrl_def)
  then show ?thesis using assms(1) by auto
next
  case False
  then obtain c where c: "cmd = Some c" "\<not> pc_shutdown c" by auto
  obtain q l' where q: "lo_set_stalled ops w (pc_stalled c) (pm_log st) = (q, l')"
    by (cases "lo_set_stalled ops w (pc_stalled c) (pm_log st)")
  from stall_law [OF _ q] assms(1) obtain ms' where ms': "ms \<subseteq> ms'" "reach (is_ok q) l' ms'" "used l' \<le> used (pm_log st)"
    by (auto simp: pump_ok_def)
  let ?st = "st\<lparr>pm_log := l'\<rparr>"
  have ok: "pump_ok reach start_lsn (is_ok q) ?st ms'"
    using ms'(1,2) assms(1) acks_mono by (auto simp: pump_ok_def)
  show ?thesis
  proof (cases q)
    case (Inl e)
    then show ?thesis using assms(2) c q ok ms' by (auto simp: on_ctrl_def from_log_def)
  next
    case (Inr u)
    show ?thesis
    proof (cases "\<not> pc_stalled c \<and> dm_valid (lo_mark ops l')")
      case True
      obtain x st1 where x: "send_status (dm_lsn (lo_mark ops l')) False now ?st = (x, st1)"
        by (cases "send_status (dm_lsn (lo_mark ops l')) False now ?st")
      have "pump_ok reach start_lsn True st1 ms' \<and> pm_log st1 = l' \<and> alive x"
        using status_ok [of start_lsn ?st ms' False now x st1] ok Inr x True by (simp add: durable_or_def)
      then show ?thesis using assms(2) c q Inr True x ms'
        by (cases x) (auto simp: on_ctrl_def from_log_def Let_def pump_ok_def set_acked_def alive_Err)
    next
      case False
      then have "st' = ?st" "alive r" using assms(2) c q Inr by (auto simp: on_ctrl_def from_log_def)
      then show ?thesis using ok ms' Inr by (intro exI [of _ ms']) simp
    qed
  qed
qed

lemma xlog_ok:
  assumes "pump_ok reach start_lsn True st ms" "length payload < 2 ^ 32" "used (pm_log st) + 1 < 2 ^ 64"
    "on_xlog ops w now wal_start payload st = (r, st')"
  shows "\<exists>ms'. ms \<subseteq> ms' \<and> pump_ok reach start_lsn (alive r) st' ms' \<and> used (pm_log st') \<le> Suc (used (pm_log st))"
proof -
  let ?cend = "commit_end_lsn payload"
  let ?lsn = "case ?cend of Some e \<Rightarrow> e | None \<Rightarrow> wal_start"
  obtain q l' where q: "lo_append ops w wal_start ?lsn (?cend \<noteq> None) payload (pm_log st) = (q, l')"
    by (cases "lo_append ops w wal_start ?lsn (?cend \<noteq> None) payload (pm_log st)")
  from append_law [OF _ assms(2,3) q] assms(1) obtain ms' where ms': "ms \<subseteq> ms'" "reach (is_ok q) l' ms'"
    "used l' \<le> Suc (used (pm_log st))" by (auto simp: pump_ok_def)
  have acks: "acks_ok start_lsn ms' (pm_client st)" using assms(1) ms'(1) acks_mono by (auto simp: pump_ok_def)
  show ?thesis
  proof (cases q)
    case (Inl e)
    then show ?thesis using assms(4) q ms' acks by (auto simp: on_xlog_def from_log_def pump_ok_def Let_def)
  next
    case (Inr u)
    let ?m = "lo_mark ops l'"
    define mt where "mt = count_frame (?cend \<noteq> None) (lo_spilled ops l') ?m (saw_lsn ?lsn (pm_metrics st))"
    have st': "(if ?cend \<noteq> None \<and> \<not> lo_is_stalled ops l' \<and> dm_valid ?m \<and> im_acked_lsn mt < dm_lsn ?m
         then st_bind (send_status (dm_lsn ?m) False now (st\<lparr>pm_log := l', pm_metrics := mt\<rparr>))
           (\<lambda>_ st. (Ok True, set_acked (dm_lsn ?m) st))
         else (Ok True, st\<lparr>pm_log := l', pm_metrics := mt\<rparr>)) = (r, st')"
      using assms(4) q Inr by (simp add: on_xlog_def from_log_def mt_def Let_def cong: if_cong)
    let ?st = "st\<lparr>pm_log := l', pm_metrics := mt\<rparr>"
    have ok: "pump_ok reach start_lsn True ?st ms'" using ms'(2) acks Inr by (simp add: pump_ok_def)
    obtain x st1 where x: "send_status (dm_lsn ?m) False now ?st = (x, st1)"
      by (cases "send_status (dm_lsn ?m) False now ?st")
    have "pump_ok reach start_lsn True st1 ms' \<and> pm_log st1 = l' \<and> alive x" if "dm_valid ?m"
      using status_ok [of start_lsn ?st ms' False now x st1] ok x that by (simp add: durable_or_def)
    then show ?thesis using st' x ok ms'
      by (cases x) (auto simp: pump_ok_def set_acked_def alive_Err split: if_splits)
  qed
qed

lemma keepalive_ok:
  assumes "pump_ok reach start_lsn True st ms" "on_keepalive ops start_lsn now e reply st = (r, st')"
  shows "pump_ok reach start_lsn True st' ms \<and> pm_log st' = pm_log st \<and> alive r"
proof -
  let ?st = "st\<lparr>pm_metrics := saw_lsn e (pm_metrics st)\<rparr>"
  have ok: "pump_ok reach start_lsn True ?st ms" using assms(1) by (simp add: pump_ok_def)
  obtain x st1 where x: "send_status (durable_or start_lsn (lo_mark ops (pm_log ?st))) False now ?st = (x, st1)"
    by (cases "send_status (durable_or start_lsn (lo_mark ops (pm_log ?st))) False now ?st")
  from status_ok [OF ok x] ok x assms(2) show ?thesis
    by (cases x) (auto simp: on_keepalive_def Let_def alive_Err split: if_splits)
qed

lemma tick_ok:
  assumes "pump_ok reach start_lsn True st ms" "on_tick ops start_lsn now st = (r, st')"
  shows "pump_ok reach start_lsn True st' ms \<and> pm_log st' = pm_log st \<and> alive r"
proof -
  obtain x st1 where x: "send_status (durable_or start_lsn (lo_mark ops (pm_log st))) True now st = (x, st1)"
    by (cases "send_status (durable_or start_lsn (lo_mark ops (pm_log st))) True now st")
  from status_ok [OF assms(1) x] assms x show ?thesis
    by (cases x) (auto simp: on_tick_def Let_def pump_ok_def set_acked_def alive_Err split: if_splits)
qed

lemma step_ok:
  assumes "pump_ok reach start_lsn True st ms" "used (pm_log st) + 1 < 2 ^ 64" "pump_step ops start_lsn i st = (r, st')"
  shows "\<exists>ms'. ms \<subseteq> ms' \<and> pump_ok reach start_lsn (alive r) st' ms' \<and> used (pm_log st') \<le> Suc (used (pm_log st))"
proof (cases "pi_event i")
  case (Ctrl cmd)
  then show ?thesis using ctrl_ok [OF assms(1), of "pi_io i" "pi_now i" cmd r st'] assms(3)
    by (auto simp: pump_step_def le_SucI)
next
  case Arrival
  obtain m c where m: "next_replication_message (pm_client st) = (m, c)"
    by (cases "next_replication_message (pm_client st)")
  let ?st = "st\<lparr>pm_client := c\<rparr>"
  have ok: "pump_ok reach start_lsn True ?st ms"
    using assms(1) next_message_facts(1) [OF m] by (simp add: pump_ok_def acks_ok_def)
  show ?thesis
  proof (cases m)
    case (Inl e)
    then have "st' = ?st" "alive r" using assms(3) m Arrival by (auto simp: pump_step_def from_client_def)
    then show ?thesis using ok by auto
  next
    case (Inr msg)
    show ?thesis
    proof (cases msg)
      case (XLogData s p)
      then have "on_xlog ops (pi_io i) (pi_now i) s p ?st = (r, st')"
        using assms(3) m Arrival Inr by (simp add: pump_step_def from_client_def)
      from xlog_ok [OF ok _ _ this] next_message_facts(2) [OF m, of s p] assms(2) Inr XLogData show ?thesis by simp
    next
      case (Keepalive e b)
      then have "on_keepalive ops start_lsn (pi_now i) e b ?st = (r, st')"
        using assms(3) m Arrival Inr by (simp add: pump_step_def from_client_def)
      from keepalive_ok [OF ok this] show ?thesis by auto
    qed
  qed
next
  case Tick
  then show ?thesis using tick_ok [OF assms(1), of "pi_now i" r st'] assms(3) by (auto simp: pump_step_def)
qed

lemma stop_ok:
  assumes "pump_ok reach start_lsn True st ms"
  shows "pump_ok reach start_lsn True (pump_stop ops now st) ms \<and> pm_log (pump_stop ops now st) = pm_log st"
proof -
  obtain x st1 where x: "send_status (durable_or start_lsn (lo_mark ops (pm_log st))) False now st = (x, st1)"
    by (cases "send_status (durable_or start_lsn (lo_mark ops (pm_log st))) False now st")
  let ?s = "if dm_valid (lo_mark ops (pm_log st)) then st1 else st"
  have ok: "pump_ok reach start_lsn True ?s ms" "pm_log ?s = pm_log st" using status_ok [OF assms x] assms by simp_all
  have "pump_stop ops now st = snd (from_client (close (pm_client ?s)) ?s)"
    using x by (cases "dm_valid (lo_mark ops (pm_log st))") (simp_all add: pump_stop_def durable_or_def Let_def)
  then show ?thesis using ok close_acks [of start_lsn ms ?s] by (simp add: pump_ok_def from_client_def)
qed

lemma pump_run:
  assumes "pump_ok reach start_lsn True st ms" "used (pm_log st) + length is < 2 ^ 64"
    "run_pump ops start_lsn is st = (r, st')"
  shows "\<exists>ms'. ms \<subseteq> ms' \<and> pump_ok reach start_lsn (alive r) st' ms'"
  using assms
proof (induction "is" arbitrary: st ms)
  case (Cons i "is")
  obtain q st1 where q: "pump_step ops start_lsn i st = (q, st1)" by (cases "pump_step ops start_lsn i st")
  from step_ok [OF Cons.prems(1) _ q] Cons.prems(2) obtain ms' where
    ms': "ms \<subseteq> ms'" "pump_ok reach start_lsn (alive q) st1 ms'" "used (pm_log st1) \<le> Suc (used (pm_log st))" by auto
  show ?case
  proof (cases q)
    case (Inl e)
    then show ?thesis using Cons.prems(3) q ms' by auto
  next
    case (Inr go)
    show ?thesis
    proof (cases go)
      case True
      have "run_pump ops start_lsn is st1 = (r, st')" using Cons.prems(3) q Inr True by simp
      moreover have "used (pm_log st1) + length is < 2 ^ 64" using ms'(3) Cons.prems(2) by simp
      ultimately obtain ms'' where "ms' \<subseteq> ms''" "pump_ok reach start_lsn (alive r) st' ms''"
        using Cons.IH [of st1 ms'] ms'(2) Inr by auto
      then show ?thesis using ms'(1) by blast
    next
      case False
      then show ?thesis using Cons.prems(3) q Inr ms' stop_ok [of start_lsn st1 ms'] by auto
    qed
  qed
qed auto

end

section \<open>The frame log keeps the contract\<close>

definition log_status :: "crc_fun \<Rightarrow> bool \<Rightarrow> frame_log \<Rightarrow> durable_mark set \<Rightarrow> bool" where
  "log_status crc running L ms \<longleftrightarrow> log_reach crc (if running then Live L else Down (fl_dir L), ms)"

lemma reach_mark: "log_reach crc (s, ms) \<Longrightarrow> s = Live L \<Longrightarrow> fl_mark L \<in> ms"
  by (induction "(s, ms)" arbitrary: s ms L rule: log_reach.induct) (auto simp: log_create_def elim: log_step.cases)

lemma op_step:
  assumes "log_status crc True L ms" "op_fits p L" "run_op crc w p L = (r, L')"
  shows "log_status crc (is_ok r) L' (insert (fl_mark L') ms)"
proof (cases r)
  case (Inl e)
  then show ?thesis using assms step_fail [of crc w p L e L' ms] by (auto simp: log_status_def intro: reach_step)
next
  case (Inr u)
  then show ?thesis using assms step_ok [of crc w p L u L' ms] by (auto simp: log_status_def intro: reach_step)
qed

lemma write_file_seq: "fl_next_seq (snd (write_file w bs L)) = fl_next_seq L"
  by (simp add: write_file_def split: option.splits)

lemma sync_file_seq: "fl_next_seq (snd (sync_file w L)) = fl_next_seq L"
  by (simp add: sync_file_def)

lemma roll_segment_seq: "fl_next_seq (snd (roll_segment w L)) = fl_next_seq L"
  by (simp add: roll_segment_def)

lemma bind_seq:
  assumes "fl_next_seq (snd m) = n" "\<And>x L. m = (Ok x, L) \<Longrightarrow> fl_next_seq (snd (f x L)) = n"
  shows "fl_next_seq (snd (st_bind m f)) = n"
  using assms by (cases m; cases "fst m") auto

lemma write_durable_seq: "fl_next_seq (snd (write_durable w q e t bs L)) = fl_next_seq L"
  unfolding write_durable_def
  by (rule bind_seq) (auto simp: write_file_seq sync_file_seq roll_segment_seq send_mark_def Let_def
    dest!: arg_cong [of _ _ "\<lambda>m. fl_next_seq (snd m)"] intro!: bind_seq)

lemma spill_frame_seq: "fl_next_seq (snd (spill_frame w bs L)) = fl_next_seq L"
  by (auto simp: spill_frame_def st_bind_def Let_def split: option.splits prod.splits sum.splits if_splits)

lemma append_seq: "fl_next_seq (snd (log_append crc w a b t p L)) = fl_next_seq L + 1"
  by (auto simp: log_append_def Let_def write_durable_seq spill_frame_seq take_seq_def
    dest!: arg_cong [of _ _ "\<lambda>m. fl_next_seq (snd m)"] intro!: bind_seq)

lemma drain_seq: "fl_next_seq (snd (drain w fs c L)) = fl_next_seq L"
proof (induction fs arbitrary: c L)
  case (Cons f fs)
  show ?case unfolding drain.simps Let_def
    by (rule bind_seq) (auto simp: write_file_seq Cons.IH dest!: arg_cong [of _ _ "\<lambda>m. fl_next_seq (snd m)"])
qed simp

lemma stalled_seq: "fl_next_seq (snd (set_stalled w b L)) = fl_next_seq L"
  by (auto simp: set_stalled_def Let_def drain_seq sync_file_seq roll_segment_seq send_mark_def
    dest!: arg_cong [of _ _ "\<lambda>m. fl_next_seq (snd m)"] intro!: bind_seq split: option.splits)

interpretation frame_custody: durable_log "frame_log_ops crc" "log_status crc" "\<lambda>L. unat (fl_next_seq L)" for crc
proof
  fix L ms
  assume "log_status crc True L ms"
  then show "lo_mark (frame_log_ops crc) L \<in> ms"
    using reach_mark by (simp add: frame_log_ops_def log_status_def)
next
  fix L ms w a b t r L' and p :: bytes
  assume L: "log_status crc True L ms" "length p < 2 ^ 32" "unat (fl_next_seq L) + 1 < 2 ^ 64"
    and r: "lo_append (frame_log_ops crc) w a b t p L = (r, L')"
  then have a: "log_append crc w a b t p L = (r, L')" by (simp add: frame_log_ops_def)
  then have "run_op crc w (OpAppend a b t p) L = (case r of Inl e \<Rightarrow> Err e | Inr x \<Rightarrow> Ok (), L')"
    by (simp add: run_op_def st_bind_def split: sum.splits)
  from op_step [OF L(1) _ this] L(2,3) have "log_status crc (is_ok r) L' (insert (fl_mark L') ms)"
    by (cases r) simp_all
  moreover have "fl_next_seq L' = fl_next_seq L + 1" using append_seq [of crc w a b t p L] a by simp
  then have "unat (fl_next_seq L') \<le> Suc (unat (fl_next_seq L))" by (simp add: unat_word_ariths)
  ultimately show "\<exists>ms'. ms \<subseteq> ms' \<and> log_status crc (is_ok r) L' ms' \<and> unat (fl_next_seq L') \<le> Suc (unat (fl_next_seq L))"
    by (intro exI [of _ "insert (fl_mark L') ms"]) auto
next
  fix L ms w s q L'
  assume L: "log_status crc True L ms" and r: "lo_set_stalled (frame_log_ops crc) w s L = (q, L')"
  then have a: "run_op crc w (OpStall s) L = (q, L')" by (simp add: frame_log_ops_def run_op_def)
  from op_step [OF L _ a] have "log_status crc (is_ok q) L' (insert (fl_mark L') ms)" by simp
  moreover have "fl_next_seq L' = fl_next_seq L" using stalled_seq [of w s L] a by (simp add: run_op_def)
  ultimately show "\<exists>ms'. ms \<subseteq> ms' \<and> log_status crc (is_ok q) L' ms' \<and> unat (fl_next_seq L') \<le> unat (fl_next_seq L)"
    by (intro exI [of _ "insert (fl_mark L') ms"]) auto
qed

section \<open>The ack invariant\<close>

lemma log_steps_reach: "(log_step crc)\<^sup>*\<^sup>* s s' \<Longrightarrow> log_reach crc s \<Longrightarrow> log_reach crc s'"
  by (induction rule: rtranclp_induct) (auto intro: reach_step)

lemma log_steps_marks: "(log_step crc)\<^sup>*\<^sup>* s s' \<Longrightarrow> snd s \<subseteq> snd s'"
proof (induction rule: rtranclp_induct)
  case (step s s')
  from step(2) have "snd s \<subseteq> snd s'" by cases auto
  then show ?case using step(3) by blast
qed simp

text \<open>
  C1. The ack invariant, end to end. Run the pump over any sequence of control changes, arrivals and ticks, any
  chunking of the server's bytes, any failure of the log's input/output or of the socket, from any log a
  program can reach. Every position it ever reports to the server, other than the start position, is the
  end of a transaction-complete frame that is in the log afterwards and stays there through every
  continuation: appends, stalls, failed calls, crashes that lose unsynced bytes, and resumes.
\<close>

theorem acked_position_is_never_lost:
  assumes "log_reach crc (Live (pm_log st), ms)" "rc_sent (pm_client st) = []"
    "unat (fl_next_seq (pm_log st)) + length is < 2 ^ 64"
    "run_pump (frame_log_ops crc) start_lsn is st = (r, st')"
  shows "\<exists>w ms'. w \<in> {Live (pm_log st'), Down (fl_dir (pm_log st'))} \<and> log_reach crc (w, ms') \<and>
    (\<forall>lsn rr now w' ms''. message_bytes 100 (status_body lsn rr now) \<in> set (rc_sent (pm_client st')) \<longrightarrow>
       lsn \<noteq> start_lsn \<longrightarrow> (log_step crc)\<^sup>*\<^sup>* (w, ms') (w', ms'') \<longrightarrow>
       (\<exists>c \<in> set (log_frames crc (world_dir w')). fr_txn_complete c \<and> fr_lsn_end c = lsn))"
proof -
  have "pump_ok (log_status crc) start_lsn True st ms"
    using assms(1,2) by (simp add: pump_ok_def log_status_def acks_ok_def)
  from frame_custody.pump_run [OF this assms(3,4)] obtain ms' where
    ok: "log_status crc (alive r) (pm_log st') ms'" "acks_ok start_lsn ms' (pm_client st')"
    by (auto simp: pump_ok_def)
  let ?w = "if alive r then Live (pm_log st') else Down (fl_dir (pm_log st'))"
  have w: "log_reach crc (?w, ms')" using ok(1) by (simp add: log_status_def)
  have "\<exists>c \<in> set (log_frames crc (world_dir w')). fr_txn_complete c \<and> fr_lsn_end c = lsn"
    if "message_bytes 100 (status_body lsn rr now) \<in> set (rc_sent (pm_client st'))" "lsn \<noteq> start_lsn"
      "(log_step crc)\<^sup>*\<^sup>* (?w, ms') (w', ms'')" for lsn rr now w' ms''
  proof -
    from ok(2) that(1,2) obtain m where m: "m \<in> ms'" "dm_valid m" "dm_lsn m = lsn"
      unfolding acks_ok_def justified_def by blast
    have "log_reach crc (w', ms'')" "m \<in> ms''"
      using log_steps_reach [OF that(3) w] log_steps_marks [OF that(3)] m(1) by auto
    then have "mark_in m (log_frames crc (world_dir w'))" using world_marks [OF reach_inv] by blast
    then show ?thesis using m by (auto simp: mark_in_def)
  qed
  then show ?thesis using w by (intro exI [of _ ?w] exI [of _ ms']) auto
qed

definition demo_commit :: bytes where
  "demo_commit = 67 # 0 # put_u64 3 @ put_u64 9 @ put_u64 0"

definition demo_pump :: "frame_log pump" where
  "demo_pump = \<lparr>pm_client = \<lparr>rc_buf = [], rc_in = [server_bytes [Sends (XLogData 5 demo_commit) 0 0]],
       rc_writable = True, rc_sent = []\<rparr>, pm_log = log_create 1000, pm_metrics = zero_metrics\<rparr>"

definition demo_input :: pump_input where
  "demo_input = \<lparr>pi_event = Arrival, pi_io = io_fine, pi_now = 0\<rparr>"

lemma demo_commit_end: "commit_end_lsn demo_commit = Some 9"
  by (simp add: commit_end_lsn_def demo_commit_def numeral_eq_Suc get_put)

lemma try_parse_short_buffer: "length buf < 5 \<Longrightarrow> try_parse buf = Ok (None, buf)"
  by (simp add: try_parse_def)

lemma backend_bytes_not_Nil: "backend_bytes m \<noteq> []"
  by (simp flip: length_greater_0_conv)

lemma demo_arrival:
  "\<exists>c. next_replication_message (pm_client demo_pump) = (Ok (XLogData 5 demo_commit), c) \<and> rc_sent c = [] \<and> rc_writable c"
proof -
  have len: "length demo_commit = 26" by (simp add: demo_commit_def)
  have "read_message (pm_client demo_pump) =
      (Ok (wire_item (Sends (XLogData 5 demo_commit) 0 0)), (pm_client demo_pump)\<lparr>rc_buf := [], rc_in := []\<rparr>)"
    using try_parse_backend [of "wire_item (Sends (XLogData 5 demo_commit) 0 0)" "[]"]
    by (simp add: read_message_def demo_pump_def message_fits_def len try_parse_short_buffer backend_bytes_not_Nil)
  then show ?thesis
    unfolding next_replication_message_def
    by (subst msg_loop.simps) (simp only: stream_sent prod.case sum.case verdict.case, simp add: demo_pump_def)
qed

theorem acked_position_is_never_lost_witness:
  "\<exists>r st' w ms'. run_pump (frame_log_ops (\<lambda>_. 0)) 4 [demo_input] demo_pump = (r, st') \<and>
    message_bytes 100 (status_body 9 False 0) \<in> set (rc_sent (pm_client st')) \<and>
    log_reach (\<lambda>_. 0) (w, ms') \<and>
    (\<forall>w' ms''. (log_step (\<lambda>_. 0))\<^sup>*\<^sup>* (w, ms') (w', ms'') \<longrightarrow>
       (\<exists>c \<in> set (log_frames (\<lambda>_. 0) (world_dir w')). fr_txn_complete c \<and> fr_lsn_end c = 9))"
proof -
  obtain c where c: "next_replication_message (pm_client demo_pump) = (Ok (XLogData 5 demo_commit), c)"
    "rc_sent c = []" "rc_writable c" using demo_arrival by blast
  have len: "length demo_commit = 26" by (simp add: demo_commit_def)
  have log: "pm_log demo_pump = log_create 1000" "pm_metrics demo_pump = zero_metrics" by (simp_all add: demo_pump_def)
  obtain st' where st': "run_pump (frame_log_ops (\<lambda>_. 0)) 4 [demo_input] demo_pump = (Ok True, st')"
    "rc_sent (pm_client st') = [message_bytes 100 (status_body 9 False 0)]"
    by (simp add: pump_step_def demo_input_def c from_client_def on_xlog_def demo_commit_end from_log_def
        frame_log_ops_def log run_op_defs len Let_def zero_metrics_def count_frame_def saw_lsn_def
        send_status_def send_standby_status_def send_msg_def set_acked_def)
  have "log_reach (\<lambda>_. 0) (Live (pm_log demo_pump), {default_mark})" unfolding log by (rule reach_create)
  from acked_position_is_never_lost [OF this _ _ st'(1)] obtain w ms' where
    w: "log_reach (\<lambda>_. 0) (w, ms')" and
    surv: "\<forall>lsn rr now w' ms''. message_bytes 100 (status_body lsn rr now) \<in> set (rc_sent (pm_client st')) \<longrightarrow>
       lsn \<noteq> 4 \<longrightarrow> (log_step (\<lambda>_. 0))\<^sup>*\<^sup>* (w, ms') (w', ms'') \<longrightarrow>
       (\<exists>c \<in> set (log_frames (\<lambda>_. 0) (world_dir w')). fr_txn_complete c \<and> fr_lsn_end c = lsn)"
    by (auto simp: demo_pump_def log_create_def)
  have "message_bytes 100 (status_body 9 False 0) \<in> set (rc_sent (pm_client st'))" by (simp add: st'(2))
  moreover from surv [rule_format, OF this] have "\<forall>w' ms''. (log_step (\<lambda>_. 0))\<^sup>*\<^sup>* (w, ms') (w', ms'') \<longrightarrow>
       (\<exists>c \<in> set (log_frames (\<lambda>_. 0) (world_dir w')). fr_txn_complete c \<and> fr_lsn_end c = 9)" by simp
  ultimately show ?thesis using st'(1) w by blast
qed

section \<open>The commit flag\<close>

lemma tagged_commit: "parse_tagged tag b = (Ok (MCommit f l e t), r) \<Longrightarrow> tag = 67"
  by (auto simp: parse_tagged_def parse_begin_def parse_relation_def parse_update_def parse_logical_def
      st_bind_Ok_iff rd_ret_def rd_fail_def split: if_splits prod.splits)

lemma get_u64_rest: "get_u64 b = Some (x, r) \<Longrightarrow> r = drop 8 b \<and> 8 \<le> length b"
  by (auto simp: get_u64_def take_n_def split: if_splits)

lemma lift_get_Ok: "lift_get g b = (Ok x, r) \<longleftrightarrow> g b = Some (x, r)"
  by (auto simp: lift_get_def split: option.splits)

lemma parse_commit_bytes:
  assumes "parse_commit b = (Ok m, r)"
  shows "\<exists>f l e t. m = MCommit f l e t \<and> commit_end_lsn (67 # b) = Some e"
proof -
  from assms obtain f l e t b1 b2 b3 where m: "m = MCommit f l e t" and
    b: "get_u8 b = Some (f, b1)" "get_u64 b1 = Some (l, b2)" "get_u64 b2 = Some (e, b3)" "get_u64 b3 = Some (t, r)"
    by (auto simp: parse_commit_def st_bind_Ok_iff lift_get_Ok rd_ret_def)
  have "b = f # b1" using b(1) by (auto simp: get_u8_def split: list.splits)
  moreover have "b2 = drop 8 b1" "length b1 = 24 + length r"
    using get_u64_rest [OF b(2)] get_Some_length(4) [OF b(2)] get_Some_length(4) [OF b(3)] get_Some_length(4) [OF b(4)]
    by simp_all
  ultimately show ?thesis using m b(3) by (simp add: commit_end_lsn_def numeral_eq_Suc)
qed

text \<open>
  The pump's shortcut agrees with the parser: on every payload the parser accepts, the bytes
  \<open>commit_end_lsn\<close> peeks at mark a transaction end exactly when the message is a Commit, and give its end
  position.
\<close>

theorem commit_flag_matches_parser:
  assumes "parse_message p = Ok m"
  shows "commit_end_lsn p = (case m of MCommit _ _ e _ \<Rightarrow> Some e | _ \<Rightarrow> None)"
proof -
  from assms obtain tag b r where p: "p = tag # b" "parse_tagged tag b = (Ok m, r)"
    by (cases p) (auto simp: parse_message_def fst_def split: prod.splits)
  show ?thesis
  proof (cases "tag = 67")
    case True
    then have "parse_commit b = (Ok m, r)" using p(2) by (simp add: parse_tagged_def)
    from parse_commit_bytes [OF this] show ?thesis using p(1) True by auto
  next
    case False
    then have "\<nexists>f l e t. m = MCommit f l e t" using tagged_commit p(2) by blast
    then show ?thesis using p(1) False by (auto simp: commit_end_lsn_def split: message.splits)
  qed
qed

theorem commit_flag_matches_parser_witness: "commit_end_lsn (wire_message (MCommit 0 3 9 7)) = Some 9"
  using commit_flag_matches_parser [of "wire_message (MCommit 0 3 9 7)" "MCommit 0 3 9 7"]
  by (simp add: parse_message_def parse_tagged_def parse_commit_def lift_get_def rd_ret_def
      get_put(4) [of 7 "[]", simplified])

end
