(* ===== verification/Search.thy ===== *)
theory Search
  imports Registry "HOL-Library.Multiset" "HOL-Library.Sublist"
begin

text \<open>
  The text search index of a table, \<open>crates/graydb-search/src/lib.rs\<close>, and the retrying directory it
  writes through, \<open>crates/graydb-search/src/retry_dir.rs\<close>. The index itself is tantivy's: \<open>index_ops\<close>
  holds the calls the store makes, \<open>tantivy_laws\<close> what tantivy documents of them (a deletion by term
  removes the documents added before it that carry the term, a commit publishes what is staged, a term
  longer than the limit is not indexed).
\<close>

section \<open>The index and the store\<close>

record search_doc =
  sd_key :: rstr
  sd_lsn :: u64
  sd_texts :: "(rstr \<times> rstr) list"

datatype search_error =
    SNoImage change_op
  | SKeyMissing rstr
  | SKeyless change_op
  | SIndex
  | SMetaIo

record search_meta =
  sx_table :: rstr
  sx_columns :: "rstr list"
  sx_applied :: u64
  sx_commits :: u64

record 'i index_ops =
  ix_create :: "rstr list \<Rightarrow> 'i option"
  ix_add :: "search_doc \<Rightarrow> 'i \<Rightarrow> bool \<times> 'i"
  ix_delete :: "rstr \<Rightarrow> 'i \<Rightarrow> 'i"
  ix_delete_all :: "'i \<Rightarrow> bool \<times> 'i"
  ix_commit :: "'i \<Rightarrow> bool \<times> 'i"
  ix_committed :: "'i \<Rightarrow> search_doc multiset"
  ix_query :: "rstr \<Rightarrow> nat \<Rightarrow> 'i \<Rightarrow> (search_doc \<times> u32) list option"

record 'i search_store =
  ss_table :: rstr
  ss_columns :: "rstr list"
  ss_keys :: "rstr list"
  ss_index :: 'i
  ss_meta :: search_meta
  ss_saved :: "search_meta option"

definition search_create ::
    "'i index_ops \<Rightarrow> rstr \<Rightarrow> rstr list \<Rightarrow> rstr list \<Rightarrow> search_error + 'i search_store" where
  "search_create ix table columns keys =
     res_bind (need (ix_create ix columns) SIndex) (\<lambda>i.
     Ok \<lparr>ss_table = table, ss_columns = columns, ss_keys = keys, ss_index = i,
         ss_meta = \<lparr>sx_table = table, sx_columns = columns, sx_applied = 0, sx_commits = 0\<rparr>,
         ss_saved = None\<rparr>)"

definition is_keyed :: "'i search_store \<Rightarrow> bool" where
  "is_keyed s \<longleftrightarrow> ss_keys s \<noteq> []"

text \<open>The first value of a column in an image, when it is text.\<close>

definition image_text :: "named_row \<Rightarrow> rstr \<Rightarrow> rstr option" where
  "image_text named c =
     (case map_of named c of Some (TText s) \<Rightarrow> Some s | _ \<Rightarrow> None)"

fun key_parts :: "named_row \<Rightarrow> rstr list \<Rightarrow> search_error + rstr list" where
  "key_parts named [] = Ok []"
| "key_parts named (kc # kcs) =
     res_bind (need (image_text named kc) (SKeyMissing kc)) (\<lambda>v.
     res_bind (key_parts named kcs) (\<lambda>vs. Ok (v # vs)))"

fun join_units :: "rstr list \<Rightarrow> rstr" where
  "join_units [] = []"
| "join_units [p] = p"
| "join_units (p # ps) = p @ [0x1F] @ join_units ps"

definition key_from_image :: "'i search_store \<Rightarrow> named_row \<Rightarrow> search_error + rstr" where
  "key_from_image s named = res_bind (key_parts named (ss_keys s)) (\<lambda>parts. Ok (join_units parts))"

definition project :: "'i search_store \<Rightarrow> named_row \<Rightarrow> rstr option list" where
  "project s named = map (image_text named) (ss_columns s)"

text \<open>The fields of the document: the columns zipped with the values, the null ones left out.\<close>

definition doc_of :: "rstr list \<Rightarrow> rstr \<Rightarrow> rstr option list \<Rightarrow> u64 \<Rightarrow> search_doc" where
  "doc_of columns key vals lsn =
     \<lparr>sd_key = key, sd_lsn = lsn,
      sd_texts = concat (map (\<lambda>(c, v). case v of None \<Rightarrow> [] | Some t \<Rightarrow> [(c, t)]) (zip columns vals))\<rparr>"

definition add_doc ::
    "'i index_ops \<Rightarrow> rstr \<Rightarrow> rstr option list \<Rightarrow> u64 \<Rightarrow> 'i search_store \<Rightarrow> (search_error + unit) \<times> 'i search_store" where
  "add_doc ix key vals lsn s =
     (let (done_ok, i) = ix_add ix (doc_of (ss_columns s) key vals lsn) (ss_index s)
      in (ensure done_ok SIndex, s\<lparr>ss_index := i\<rparr>))"

definition delete_key :: "'i index_ops \<Rightarrow> rstr \<Rightarrow> 'i search_store \<Rightarrow> 'i search_store" where
  "delete_key ix key s = s\<lparr>ss_index := ix_delete ix key (ss_index s)\<rparr>"

definition index_backfill_row ::
    "'i index_ops \<Rightarrow> rstr \<Rightarrow> rstr option list \<Rightarrow> u64 \<Rightarrow> 'i search_store \<Rightarrow> (search_error + unit) \<times> 'i search_store" where
  "index_backfill_row ix key vals lsn0 s = add_doc ix key vals lsn0 (delete_key ix key s)"

section \<open>Apply\<close>

definition search_insert ::
    "'i index_ops \<Rightarrow> typed_change \<Rightarrow> rstr \<Rightarrow> 'i search_store \<Rightarrow> (search_error + unit) \<times> 'i search_store" where
  "search_insert ix c synthetic s =
     st_bind (need (tc_new c) (SNoImage OInsert), s) (\<lambda>named s.
     st_bind (if is_keyed s then key_from_image s named else Ok synthetic, s) (\<lambda>key s.
     add_doc ix key (project s named) (tc_commit_lsn c) (delete_key ix key s)))"

definition search_update ::
    "'i index_ops \<Rightarrow> typed_change \<Rightarrow> 'i search_store \<Rightarrow> (search_error + unit) \<times> 'i search_store" where
  "search_update ix c s =
     st_bind (ensure (is_keyed s) (SKeyless OUpdate), s) (\<lambda>_ s.
     st_bind (need (tc_new c) (SNoImage OUpdate), s) (\<lambda>named s.
     st_bind (key_from_image s (case tc_old c of Some old \<Rightarrow> old | None \<Rightarrow> named), s) (\<lambda>old_key s.
     let s = delete_key ix old_key s in
     st_bind (key_from_image s named, s) (\<lambda>new_key s.
     add_doc ix new_key (project s named) (tc_commit_lsn c) s))))"

definition search_delete ::
    "'i index_ops \<Rightarrow> typed_change \<Rightarrow> 'i search_store \<Rightarrow> (search_error + unit) \<times> 'i search_store" where
  "search_delete ix c s =
     st_bind (ensure (is_keyed s) (SKeyless ODelete), s) (\<lambda>_ s.
     st_bind (need (tc_old c) (SNoImage ODelete), s) (\<lambda>old s.
     st_bind (key_from_image s old, s) (\<lambda>key s. (Ok (), delete_key ix key s))))"

definition search_truncate :: "'i index_ops \<Rightarrow> 'i search_store \<Rightarrow> (search_error + unit) \<times> 'i search_store" where
  "search_truncate ix s =
     (let (done_ok, i) = ix_delete_all ix (ss_index s) in (ensure done_ok SIndex, s\<lparr>ss_index := i\<rparr>))"

definition search_apply ::
    "'i index_ops \<Rightarrow> typed_change \<Rightarrow> rstr \<Rightarrow> 'i search_store \<Rightarrow> (search_error + unit) \<times> 'i search_store" where
  "search_apply ix c synthetic s =
     (case tc_op c of
        OInsert \<Rightarrow> search_insert ix c synthetic s
      | OUpdate \<Rightarrow> search_update ix c s
      | ODelete \<Rightarrow> search_delete ix c s
      | OTruncate \<Rightarrow> search_truncate ix s)"

text \<open>The caller's loop over a batch: it stops at the first error.\<close>

fun search_apply_all ::
    "'i index_ops \<Rightarrow> (typed_change \<times> rstr) list \<Rightarrow> 'i search_store \<Rightarrow> (search_error + unit) \<times> 'i search_store" where
  "search_apply_all ix [] s = (Ok (), s)"
| "search_apply_all ix ((c, k) # cs) s = st_bind (search_apply ix c k s) (\<lambda>_ s. search_apply_all ix cs s)"

definition commit_batch ::
    "'i index_ops \<Rightarrow> bool \<Rightarrow> u64 \<Rightarrow> 'i search_store \<Rightarrow> (search_error + unit) \<times> 'i search_store" where
  "commit_batch ix disk_ok lsn s =
     (let (done_ok, i) = ix_commit ix (ss_index s) in
      if \<not> done_ok then (Err SIndex, s\<lparr>ss_index := i\<rparr>)
      else
        (let s = s\<lparr>ss_index := i,
                   ss_meta := (ss_meta s)\<lparr>sx_applied := lsn, sx_commits := sx_commits (ss_meta s) + 1\<rparr>\<rparr>
         in if disk_ok then (Ok (), s\<lparr>ss_saved := Some (ss_meta s)\<rparr>) else (Err SMetaIo, s)))"

definition num_docs :: "'i index_ops \<Rightarrow> 'i search_store \<Rightarrow> nat" where
  "num_docs ix s = size (ix_committed ix (ss_index s))"

definition search_hits ::
    "'i index_ops \<Rightarrow> rstr \<Rightarrow> nat \<Rightarrow> 'i search_store \<Rightarrow> search_error + (rstr \<times> u64 \<times> u32) list" where
  "search_hits ix query limit s =
     res_bind (need (ix_query ix query limit (ss_index s)) SIndex) (\<lambda>top.
     Ok (map (\<lambda>(d, score). (sd_key d, sd_lsn d, score)) top))"

text \<open>The read-only opener: the saved watermark and the committed documents.\<close>

record 'i search_reader =
  sr_index :: 'i
  sr_meta :: search_meta

definition reader_open :: "'i search_store \<Rightarrow> search_error + 'i search_reader" where
  "reader_open s =
     res_bind (need (ss_saved s) SMetaIo) (\<lambda>m. Ok \<lparr>sr_index = ss_index s, sr_meta = m\<rparr>)"

definition reader_search ::
    "'i index_ops \<Rightarrow> rstr \<Rightarrow> nat \<Rightarrow> 'i search_reader \<Rightarrow> search_error + (rstr \<times> u32) list" where
  "reader_search ix query limit r =
     res_bind (need (ix_query ix query limit (sr_index r)) SIndex) (\<lambda>top.
     Ok (map (\<lambda>(d, score). (sd_key d, score)) top))"

section \<open>What the index promises\<close>

definition tantivy_laws :: "'i index_ops \<Rightarrow> ('i \<Rightarrow> search_doc multiset) \<Rightarrow> nat \<Rightarrow> bool" where
  "tantivy_laws ix staged limit \<longleftrightarrow>
     (\<forall>d i. fst (ix_add ix d i) \<longrightarrow> staged (snd (ix_add ix d i)) = add_mset d (staged i)) \<and>
     (\<forall>d i. ix_committed ix (snd (ix_add ix d i)) = ix_committed ix i) \<and>
     (\<forall>k i. length k \<le> limit \<longrightarrow> staged (ix_delete ix k i) = filter_mset (\<lambda>d. sd_key d \<noteq> k) (staged i)) \<and>
     (\<forall>k i. ix_committed ix (ix_delete ix k i) = ix_committed ix i) \<and>
     (\<forall>i. fst (ix_delete_all ix i) \<longrightarrow> staged (snd (ix_delete_all ix i)) = {#}) \<and>
     (\<forall>i. ix_committed ix (snd (ix_delete_all ix i)) = ix_committed ix i) \<and>
     (\<forall>i. fst (ix_commit ix i) \<longrightarrow>
          ix_committed ix (snd (ix_commit ix i)) = staged i \<and> staged (snd (ix_commit ix i)) = staged i)"

text \<open>An index kept in memory, as the staged and the committed documents, satisfies them.\<close>

definition mem_index :: "(search_doc multiset \<times> search_doc multiset) index_ops" where
  "mem_index =
     \<lparr>ix_create = (\<lambda>_. Some ({#}, {#})),
      ix_add = (\<lambda>d (st, co). (True, (add_mset d st, co))),
      ix_delete = (\<lambda>k (st, co). (filter_mset (\<lambda>d. sd_key d \<noteq> k) st, co)),
      ix_delete_all = (\<lambda>(st, co). (True, ({#}, co))),
      ix_commit = (\<lambda>(st, co). (True, (st, st))),
      ix_committed = snd,
      ix_query = (\<lambda>_ _ _. None)\<rparr>"

lemma mem_index_laws: "tantivy_laws mem_index fst limit"
  by (auto simp: tantivy_laws_def mem_index_def split: prod.splits)

definition slot :: "('i \<Rightarrow> search_doc multiset) \<Rightarrow> 'i search_store \<Rightarrow> rstr \<Rightarrow> search_doc multiset" where
  "slot staged s k = filter_mset (\<lambda>d. sd_key d = k) (staged (ss_index s))"

lemma staged_eqI: "(\<And>k. slot staged s k = slot staged s' k) \<Longrightarrow> staged (ss_index s) = staged (ss_index s')"
proof (rule multiset_eqI)
  fix d assume a: "\<And>k. slot staged s k = slot staged s' k"
  have "count (slot staged s (sd_key d)) d = count (slot staged s' (sd_key d)) d"
    by (simp add: a)
  then show "count (staged (ss_index s)) d = count (staged (ss_index s')) d"
    by (simp add: slot_def)
qed

lemma filter_filter_key:
  "filter_mset (\<lambda>d. sd_key d = k') (filter_mset (\<lambda>d. sd_key d \<noteq> k) M) =
     (if k' = k then {#} else filter_mset (\<lambda>d. sd_key d = k') M)"
  by (auto simp: filter_filter_mset intro!: filter_mset_cong)

lemma slot_delete_key:
  assumes "tantivy_laws ix staged limit" and "length k \<le> limit"
  shows "slot staged (delete_key ix k s) k' = (if k' = k then {#} else slot staged s k')"
proof -
  have "staged (ix_delete ix k (ss_index s)) = filter_mset (\<lambda>d. sd_key d \<noteq> k) (staged (ss_index s))"
    using assms unfolding tantivy_laws_def by blast
  then show ?thesis
    by (simp add: slot_def delete_key_def filter_filter_key)
qed

lemma slot_add_doc:
  assumes "tantivy_laws ix staged limit" and "add_doc ix k vals lsn s = (Ok (), s')"
  shows "slot staged s' k' =
           (if k' = k then add_mset (doc_of (ss_columns s) k vals lsn) (slot staged s k') else slot staged s k')"
proof -
  let ?r = "ix_add ix (doc_of (ss_columns s) k vals lsn) (ss_index s)"
  have s': "fst ?r" "ss_index s' = snd ?r"
    using assms(2) by (auto simp: add_doc_def ensure_def split: prod.splits if_splits)
  then have "staged (ss_index s') = add_mset (doc_of (ss_columns s) k vals lsn) (staged (ss_index s))"
    using assms(1) by (simp add: tantivy_laws_def)
  then show ?thesis by (simp add: slot_def doc_of_def)
qed

text \<open>What no call of the writer changes.\<close>

lemma store_frame [simp]:
  "ss_keys (delete_key ix k s) = ss_keys s" "ss_columns (delete_key ix k s) = ss_columns s"
  "is_keyed (delete_key ix k s) = is_keyed s" "key_from_image (delete_key ix k s) = key_from_image s"
  "project (delete_key ix k s) = project s"
  by (auto simp: delete_key_def is_keyed_def key_from_image_def project_def fun_eq_iff)

lemma add_doc_frame:
  assumes "add_doc ix k vals lsn s = (r, s')"
  shows "ss_keys s' = ss_keys s \<and> ss_columns s' = ss_columns s"
  using assms by (auto simp: add_doc_def split: prod.splits)

section \<open>The document a change writes\<close>

definition key_for :: "'i search_store \<Rightarrow> named_row \<Rightarrow> rstr" where
  "key_for s named = (case key_from_image s named of Inl _ \<Rightarrow> [] | Inr k \<Rightarrow> k)"

definition new_key :: "'i search_store \<Rightarrow> typed_change \<Rightarrow> rstr \<Rightarrow> rstr" where
  "new_key s c synthetic =
     (if tc_op c = OInsert \<and> \<not> is_keyed s then synthetic else key_for s (the (tc_new c)))"

definition old_key :: "'i search_store \<Rightarrow> typed_change \<Rightarrow> rstr \<Rightarrow> rstr" where
  "old_key s c synthetic =
     (case tc_old c of None \<Rightarrow> new_key s c synthetic
      | Some old \<Rightarrow> if tc_op c = OInsert then new_key s c synthetic else key_for s old)"

definition new_doc :: "'i search_store \<Rightarrow> typed_change \<Rightarrow> rstr \<Rightarrow> search_doc" where
  "new_doc s c synthetic =
     doc_of (ss_columns s) (new_key s c synthetic) (project s (the (tc_new c))) (tc_commit_lsn c)"

definition key_fits :: "nat \<Rightarrow> 'i search_store \<Rightarrow> typed_change \<times> rstr \<Rightarrow> bool" where
  "key_fits limit s ck = (tc_op (fst ck) = OTruncate \<or> length (old_key s (fst ck) (snd ck)) \<le> limit)"

definition keeps_key :: "'i search_store \<Rightarrow> typed_change \<times> rstr \<Rightarrow> bool" where
  "keeps_key s ck =
     (tc_op (fst ck) = OUpdate \<longrightarrow> old_key s (fst ck) (snd ck) = new_key s (fst ck) (snd ck))"

lemma keys_same_frame:
  assumes "ss_keys s' = ss_keys s" and "ss_columns s' = ss_columns s"
  shows "key_for s' = key_for s" "new_key s' = new_key s" "old_key s' = old_key s" "new_doc s' = new_doc s"
    "key_fits limit s' = key_fits limit s" "keeps_key s' = keeps_key s"
proof -
  show kf: "key_for s' = key_for s"
    using assms by (simp add: key_for_def key_from_image_def fun_eq_iff)
  show nk: "new_key s' = new_key s"
    using assms(1) by (intro ext) (simp add: new_key_def is_keyed_def kf)
  show ok: "old_key s' = old_key s"
    by (intro ext) (simp add: old_key_def kf nk split: option.split)
  show "new_doc s' = new_doc s"
    using assms by (simp add: new_doc_def nk project_def fun_eq_iff)
  show "key_fits limit s' = key_fits limit s" "keeps_key s' = keeps_key s"
    by (simp_all add: key_fits_def keeps_key_def ok nk fun_eq_iff)
qed

lemma apply_frame:
  assumes "search_apply ix c k s = (r, s')"
  shows "ss_keys s' = ss_keys s \<and> ss_columns s' = ss_columns s"
  using assms
  by (auto simp: search_apply_def search_insert_def search_update_def search_delete_def search_truncate_def
      Let_def st_bind_def need_def ensure_def dest!: add_doc_frame
      split: change_op.splits prod.splits sum.splits option.splits if_splits)

text \<open>The effect of a successful change on the documents under each key.\<close>

definition slot_after ::
    "'i search_store \<Rightarrow> typed_change \<Rightarrow> rstr \<Rightarrow> (rstr \<Rightarrow> search_doc multiset) \<Rightarrow> rstr \<Rightarrow> search_doc multiset" where
  "slot_after s c synthetic m =
     (case tc_op c of
        OTruncate \<Rightarrow> (\<lambda>_. {#})
      | ODelete \<Rightarrow> m(old_key s c synthetic := {#})
      | _ \<Rightarrow> (let m = m(old_key s c synthetic := {#}); k = new_key s c synthetic
             in m(k := add_mset (new_doc s c synthetic) (m k))))"

lemma slot_insert:
  assumes "tantivy_laws ix staged limit" and "search_apply ix c k s = (Ok (), s')"
    and "key_fits limit s (c, k)" and "tc_op c = OInsert"
  shows "slot staged s' = slot_after s c k (slot staged s)"
proof -
  obtain named where n: "tc_new c = Some named" using assms
    by (cases "tc_new c") (auto simp: search_apply_def search_insert_def)
  obtain key where key: "(if is_keyed s then key_from_image s named else Ok k) = Ok key"
    using assms n by (cases "if is_keyed s then key_from_image s named else Ok k :: search_error + rstr")
      (auto simp: search_apply_def search_insert_def)
  have k: "new_key s c k = key" "old_key s c k = key"
    using key n assms(4) by (auto simp: new_key_def old_key_def key_for_def split: if_splits option.splits)
  have "length key \<le> limit" using assms(3,4) k by (simp add: key_fits_def)
  note sl = slot_delete_key [OF assms(1) this]
  have "add_doc ix key (project s named) (tc_commit_lsn c) (delete_key ix key s) = (Ok (), s')"
    using assms(2,4) n key by (simp add: search_apply_def search_insert_def)
  from slot_add_doc [OF assms(1) this] show ?thesis
    using k n assms(4) by (auto simp: slot_after_def sl new_doc_def fun_eq_iff)
qed

lemma slot_update:
  assumes "tantivy_laws ix staged limit" and "search_apply ix c k s = (Ok (), s')"
    and "key_fits limit s (c, k)" and "tc_op c = OUpdate"
  shows "slot staged s' = slot_after s c k (slot staged s)"
proof -
  let ?old = "\<lambda>named. case tc_old c of Some old \<Rightarrow> old | None \<Rightarrow> named"
  have kd: "is_keyed s" using assms(2,4) by (cases "is_keyed s") (auto simp: search_apply_def search_update_def)
  obtain named where n: "tc_new c = Some named" using assms kd
    by (cases "tc_new c") (auto simp: search_apply_def search_update_def)
  obtain okey where ok: "key_from_image s (?old named) = Ok okey"
    using assms n kd by (cases "key_from_image s (?old named)") (auto simp: search_apply_def search_update_def)
  obtain nkey where nk: "key_from_image s named = Ok nkey"
    using assms n kd ok by (cases "key_from_image s named") (auto simp: search_apply_def search_update_def Let_def)
  have k: "new_key s c k = nkey" "old_key s c k = okey"
    using ok nk n assms(4) by (auto simp: new_key_def old_key_def key_for_def split: option.splits)
  have "length okey \<le> limit" using assms(3,4) k by (simp add: key_fits_def)
  note sl = slot_delete_key [OF assms(1) this]
  have "add_doc ix nkey (project s named) (tc_commit_lsn c) (delete_key ix okey s) = (Ok (), s')"
    using assms(2,4) n ok nk kd by (simp add: search_apply_def search_update_def Let_def)
  from slot_add_doc [OF assms(1) this] show ?thesis
    using k n assms(4) by (auto simp: slot_after_def sl new_doc_def fun_eq_iff)
qed

lemma slot_delete:
  assumes "tantivy_laws ix staged limit" and "search_apply ix c k s = (Ok (), s')"
    and "key_fits limit s (c, k)" and "tc_op c = ODelete"
  shows "slot staged s' = slot_after s c k (slot staged s)"
proof -
  have kd: "is_keyed s" using assms(2,4) by (cases "is_keyed s") (auto simp: search_apply_def search_delete_def)
  obtain old where o: "tc_old c = Some old" using assms kd
    by (cases "tc_old c") (auto simp: search_apply_def search_delete_def)
  obtain key where key: "key_from_image s old = Ok key"
    using assms o kd by (cases "key_from_image s old") (auto simp: search_apply_def search_delete_def)
  have k: "old_key s c k = key" using key o assms(4) by (auto simp: old_key_def key_for_def)
  have len: "length key \<le> limit" using assms(3,4) k by (simp add: key_fits_def)
  have "s' = delete_key ix key s"
    using assms(2,4) o key kd by (simp add: search_apply_def search_delete_def)
  then show ?thesis
    using k assms(4) by (auto simp: slot_after_def slot_delete_key [OF assms(1) len] fun_eq_iff)
qed

lemma slot_apply:
  assumes "tantivy_laws ix staged limit" and "search_apply ix c k s = (Ok (), s')" and "key_fits limit s (c, k)"
  shows "slot staged s' = slot_after s c k (slot staged s)"
proof (cases "tc_op c")
  case OTruncate
  let ?r = "ix_delete_all ix (ss_index s)"
  have "fst ?r" "ss_index s' = snd ?r"
    using assms(2) OTruncate
    by (auto simp: search_apply_def search_truncate_def ensure_def split: prod.splits if_splits)
  then have "staged (ss_index s') = {#}" using assms(1) by (simp add: tantivy_laws_def)
  then show ?thesis using OTruncate by (auto simp: slot_def slot_after_def fun_eq_iff)
qed (use slot_insert [OF assms] slot_update [OF assms] slot_delete [OF assms] in auto)

section \<open>Batches\<close>

text \<open>The documents after a batch that applied without error.\<close>

fun slots_after ::
    "'i search_store \<Rightarrow> (typed_change \<times> rstr) list \<Rightarrow> (rstr \<Rightarrow> search_doc multiset) \<Rightarrow> rstr \<Rightarrow> search_doc multiset" where
  "slots_after s [] m = m"
| "slots_after s ((c, k) # cs) m = slots_after s cs (slot_after s c k m)"

lemma slots_apply_all:
  assumes "tantivy_laws ix staged limit" and "search_apply_all ix cs s = (Ok (), s')"
    and "ss_keys s = ss_keys t" and "ss_columns s = ss_columns t" and "list_all (key_fits limit t) cs"
  shows "slot staged s' = slots_after t cs (slot staged s) \<and> ss_keys s' = ss_keys t \<and> ss_columns s' = ss_columns t"
  using assms(2-)
proof (induction cs arbitrary: s)
  case (Cons ck cs)
  obtain c k where ck: "ck = (c, k)" by (cases ck)
  obtain s1 where a: "search_apply ix c k s = (Ok (), s1)" and b: "search_apply_all ix cs s1 = (Ok (), s')"
    using Cons.prems(1) by (auto simp: ck st_bind_Ok_iff)
  note same = keys_same_frame [OF Cons.prems(2,3)]
  have eff: "slot_after s = slot_after t"
    by (intro ext, case_tac "tc_op x") (simp_all add: slot_after_def same)
  have "ss_keys s1 = ss_keys t" "ss_columns s1 = ss_columns t"
    using apply_frame [OF a] Cons.prems(2,3) by auto
  moreover have "slot staged s1 = slot_after t c k (slot staged s)"
    using slot_apply [OF assms(1) a] Cons.prems(4) by (simp add: ck same eff)
  ultimately show ?case
    using Cons.IH [OF b] Cons.prems(4) by (simp add: ck)
qed auto

text \<open>
  A change that keeps its key overwrites the documents under it whatever they were: \<open>writes\<close> is what it
  leaves there, if it touches the key at all.
\<close>

definition writes :: "'i search_store \<Rightarrow> typed_change \<Rightarrow> rstr \<Rightarrow> rstr \<Rightarrow> search_doc multiset option" where
  "writes s c synthetic k =
     (if tc_op c = OTruncate then Some {#}
      else if k \<noteq> old_key s c synthetic then None
      else if tc_op c = ODelete then Some {#} else Some {#new_doc s c synthetic#})"

lemma slot_after_writes:
  assumes "keeps_key s (c, synthetic)"
  shows "slot_after s c synthetic m k = (case writes s c synthetic k of None \<Rightarrow> m k | Some d \<Rightarrow> d)"
  using assms
  by (cases "tc_op c") (auto simp: slot_after_def writes_def keeps_key_def old_key_def split: option.splits)

fun last_write :: "'i search_store \<Rightarrow> (typed_change \<times> rstr) list \<Rightarrow> rstr \<Rightarrow> search_doc multiset option" where
  "last_write s [] k = None"
| "last_write s ((c, y) # cs) k = (case last_write s cs k of Some d \<Rightarrow> Some d | None \<Rightarrow> writes s c y k)"

lemma slots_after_last_write:
  "list_all (keeps_key s) cs \<Longrightarrow>
     slots_after s cs m k = (case last_write s cs k of None \<Rightarrow> m k | Some d \<Rightarrow> d)"
  by (induction cs arbitrary: m)
    (auto simp: slot_after_writes split: option.splits)

lemma last_write_append:
  "last_write s (cs @ ds) k = (case last_write s ds k of Some d \<Rightarrow> Some d | None \<Rightarrow> last_write s cs k)"
  by (induction cs) (auto split: option.splits)

lemma slots_after_replay:
  assumes "list_all (keeps_key s) (p @ q)"
  shows "slots_after s (p @ q) (slots_after s p m) = slots_after s (p @ q) m"
proof
  fix k
  have "list_all (keeps_key s) p" using assms by simp
  then show "slots_after s (p @ q) (slots_after s p m) k = slots_after s (p @ q) m k"
    using assms by (simp add: slots_after_last_write last_write_append split: option.split)
qed

section \<open>The index mirrors the table\<close>

text \<open>
  The table an index should mirror: the live rows by the texts of their key columns, each with its image and the LSN that
  wrote it. In a keyless table, which only takes inserts, a row is told apart by the key the caller gives it.
\<close>

type_synonym live_rows = "rstr list \<rightharpoonup> named_row \<times> u64"

definition key_texts :: "'i search_store \<Rightarrow> named_row \<Rightarrow> rstr list" where
  "key_texts s named = map (\<lambda>kc. case image_text named kc of None \<Rightarrow> [] | Some v \<Rightarrow> v) (ss_keys s)"

definition row_key :: "'i search_store \<Rightarrow> rstr \<Rightarrow> named_row \<Rightarrow> rstr list" where
  "row_key s synthetic named = (if is_keyed s then key_texts s named else [synthetic])"

definition replaced_key :: "'i search_store \<Rightarrow> typed_change \<Rightarrow> rstr \<Rightarrow> rstr list" where
  "replaced_key s c synthetic =
     row_key s synthetic (case (tc_op c, tc_old c) of (OInsert, _) \<Rightarrow> the (tc_new c) | (_, Some old) \<Rightarrow> old | (_, None) \<Rightarrow> the (tc_new c))"

definition row_step :: "'i search_store \<Rightarrow> typed_change \<Rightarrow> rstr \<Rightarrow> live_rows \<Rightarrow> live_rows" where
  "row_step s c synthetic rows =
     (case tc_op c of
        OTruncate \<Rightarrow> Map.empty
      | ODelete \<Rightarrow> rows(replaced_key s c synthetic := None)
      | _ \<Rightarrow> (rows(replaced_key s c synthetic := None))
              (row_key s synthetic (the (tc_new c)) \<mapsto> (the (tc_new c), tc_commit_lsn c)))"

fun row_run :: "'i search_store \<Rightarrow> (typed_change \<times> rstr) list \<Rightarrow> live_rows \<Rightarrow> live_rows" where
  "row_run s [] rows = rows"
| "row_run s ((c, k) # cs) rows = row_run s cs (row_step s c k rows)"

text \<open>PostgreSQL's primary key: a row moves only to a key no other row has.\<close>

fun moves_to_free_rows :: "'i search_store \<Rightarrow> (typed_change \<times> rstr) list \<Rightarrow> live_rows \<Rightarrow> bool" where
  "moves_to_free_rows s [] rows \<longleftrightarrow> True"
| "moves_to_free_rows s ((c, k) # cs) rows \<longleftrightarrow>
     (tc_op c = OUpdate \<longrightarrow>
        row_key s k (the (tc_new c)) = replaced_key s c k \<or> rows (row_key s k (the (tc_new c))) = None) \<and>
     moves_to_free_rows s cs (row_step s c k rows)"

text \<open>
  Composite keys whose texts hold no unit separator; with one key column the text is free. The engine joins the texts
  with that byte and does not escape it.
\<close>

definition separable :: "'i search_store \<Rightarrow> rstr list \<Rightarrow> bool" where
  "separable s ks \<longleftrightarrow> length ks = max 1 (length (ss_keys s)) \<and> (length ks = 1 \<or> (\<forall>k \<in> set ks. 0x1F \<notin> set k))"

definition keys_separable :: "'i search_store \<Rightarrow> typed_change \<times> rstr \<Rightarrow> bool" where
  "keys_separable s ck \<longleftrightarrow> tc_op (fst ck) = OTruncate \<or>
     separable s (replaced_key s (fst ck) (snd ck)) \<and>
     (tc_op (fst ck) = OUpdate \<longrightarrow> separable s (row_key s (snd ck) (the (tc_new (fst ck)))))"

lemma join_units_inj:
  assumes "join_units xs = join_units ys" and "length xs = length ys"
    and "length xs = 1 \<or> (\<forall>k \<in> set xs \<union> set ys. 0x1F \<notin> set k)"
  shows "xs = ys"
  using assms
proof (induction xs arbitrary: ys rule: join_units.induct)
  case (2 p)
  then show ?case by (cases ys) auto
next
  case (3 p q ps)
  obtain p' q' ps' where ys: "ys = p' # q' # ps'" using 3(3) by (metis Suc_length_conv)
  have clean: "0x1F \<notin> set p" "0x1F \<notin> set p'" using 3(4) ys by auto
  have eq: "p @ 0x1F # join_units (q # ps) = p' @ 0x1F # join_units (q' # ps')" using 3(2) ys by simp
  have "takeWhile (\<lambda>b. b \<noteq> 0x1F) (p @ 0x1F # r) = p" "takeWhile (\<lambda>b. b \<noteq> 0x1F) (p' @ 0x1F # r) = p'" for r
    using clean by (subst takeWhile_append2; auto)+
  then have p: "p = p'" using eq by metis
  have "q # ps = q' # ps'"
    by (rule "3.IH") (use eq p 3(3,4) ys in auto)
  then show ?case using p ys by simp
qed simp

lemma separable_inj: "separable s xs \<Longrightarrow> separable s ys \<Longrightarrow> join_units xs = join_units ys \<Longrightarrow> xs = ys"
  by (rule join_units_inj) (auto simp: separable_def)

text \<open>The document of a live row.\<close>

definition row_doc :: "'i search_store \<Rightarrow> rstr list \<Rightarrow> named_row \<times> u64 \<Rightarrow> search_doc" where
  "row_doc s ks row = doc_of (ss_columns s) (join_units ks) (project s (fst row)) (snd row)"

definition row_docs :: "'i search_store \<Rightarrow> live_rows \<Rightarrow> search_doc multiset" where
  "row_docs s rows = image_mset (\<lambda>ks. row_doc s ks (the (rows ks))) (mset_set (dom rows))"

lemma row_doc_key [simp]: "sd_key (row_doc s ks row) = join_units ks"
  by (simp add: row_doc_def doc_of_def)

lemma row_docs_delete:
  assumes "finite (dom rows)" and "separable s ks" and "\<forall>x \<in> dom rows. separable s x"
  shows "filter_mset (\<lambda>d. sd_key d \<noteq> join_units ks) (row_docs s rows) = row_docs s (rows(ks := None))"
proof -
  have "filter_mset (\<lambda>x. join_units x \<noteq> join_units ks) (mset_set (dom rows)) = mset_set (dom rows - {ks})"
    using assms separable_inj [of s] by (subst filter_mset_mset_set) (auto intro!: arg_cong [of _ _ mset_set])
  moreover have "image_mset (\<lambda>x. row_doc s x (the (rows x))) (mset_set (dom rows - {ks})) =
      image_mset (\<lambda>x. row_doc s x (the ((rows(ks := None)) x))) (mset_set (dom rows - {ks}))"
    using assms(1) by (intro image_mset_cong) auto
  ultimately show ?thesis by (simp add: row_docs_def filter_mset_image_mset)
qed

lemma row_docs_add:
  assumes "finite (dom rows)" and "rows ks = None"
  shows "add_mset (row_doc s ks row) (row_docs s rows) = row_docs s (rows(ks \<mapsto> row))"
proof -
  have "ks \<notin> dom rows" using assms(2) by auto
  then have "mset_set (insert ks (dom rows)) = add_mset ks (mset_set (dom rows))" using assms(1) by simp
  moreover have "image_mset (\<lambda>x. row_doc s x (the (rows x))) (mset_set (dom rows)) =
      image_mset (\<lambda>x. row_doc s x (the ((rows(ks \<mapsto> row)) x))) (mset_set (dom rows))"
    using assms by (intro image_mset_cong) auto
  ultimately show ?thesis by (simp add: row_docs_def)
qed

text \<open>A change that applies carries its keys.\<close>

lemma parts_texts: "key_parts named kcs = Ok ps \<Longrightarrow> ps = map (\<lambda>kc. case image_text named kc of None \<Rightarrow> [] | Some v \<Rightarrow> v) kcs"
  by (induction kcs arbitrary: ps) (auto simp: res_bind_Ok_iff)

lemma key_joined: "key_from_image s named = Ok k \<Longrightarrow> k = join_units (key_texts s named)"
  by (auto simp: key_from_image_def res_bind_Ok_iff key_texts_def dest: parts_texts)

lemma key_for_joined: "key_from_image s named = Ok k \<Longrightarrow> key_for s named = join_units (key_texts s named)"
  by (simp add: key_for_def key_joined)

lemma applied_keys:
  assumes "search_apply ix c y s = (Ok (), s')" and "tc_op c \<noteq> OTruncate"
  shows "old_key s c y = join_units (replaced_key s c y)"
    and "tc_op c \<noteq> ODelete \<Longrightarrow> new_key s c y = join_units (row_key s y (the (tc_new c)))"
proof -
  have "old_key s c y = join_units (replaced_key s c y) \<and> (tc_op c \<noteq> ODelete \<longrightarrow> new_key s c y = join_units (row_key s y (the (tc_new c))))"
    using assms
    by (cases "tc_op c")
      (auto simp: search_apply_def search_insert_def search_update_def search_delete_def st_bind_def need_def ensure_def Let_def
        old_key_def new_key_def replaced_key_def row_key_def key_for_joined
        split: option.splits sum.splits if_splits)
  then show "old_key s c y = join_units (replaced_key s c y)"
    "tc_op c \<noteq> ODelete \<Longrightarrow> new_key s c y = join_units (row_key s y (the (tc_new c)))" by auto
qed

lemma apply_staged:
  assumes "tantivy_laws ix staged limit" and "search_apply ix c y s = (Ok (), s')" and "key_fits limit s (c, y)"
  shows "staged (ss_index s') =
    (case tc_op c of
       OTruncate \<Rightarrow> {#}
     | ODelete \<Rightarrow> filter_mset (\<lambda>d. sd_key d \<noteq> old_key s c y) (staged (ss_index s))
     | _ \<Rightarrow> add_mset (new_doc s c y) (filter_mset (\<lambda>d. sd_key d \<noteq> old_key s c y) (staged (ss_index s))))"
proof (rule multiset_eqI)
  fix d
  have "count (staged (ss_index s')) d = count (slot staged s' (sd_key d)) d" by (simp add: slot_def)
  also have "slot staged s' = slot_after s c y (slot staged s)" by (rule slot_apply [OF assms])
  finally show "count (staged (ss_index s')) d = count (case tc_op c of
       OTruncate \<Rightarrow> {#}
     | ODelete \<Rightarrow> filter_mset (\<lambda>d. sd_key d \<noteq> old_key s c y) (staged (ss_index s))
     | _ \<Rightarrow> add_mset (new_doc s c y) (filter_mset (\<lambda>d. sd_key d \<noteq> old_key s c y) (staged (ss_index s)))) d"
    by (cases "tc_op c") (auto simp: slot_after_def slot_def Let_def new_doc_def doc_of_def)
qed

lemma step_mirrors:
  assumes "tantivy_laws ix staged limit" and "search_apply ix c y s = (Ok (), s')" and "key_fits limit s (c, y)"
    and "keys_separable s (c, y)"
    and "tc_op c = OUpdate \<longrightarrow> row_key s y (the (tc_new c)) = replaced_key s c y \<or> rows (row_key s y (the (tc_new c))) = None"
    and "finite (dom rows)" and "\<forall>x \<in> dom rows. separable s x" and "staged (ss_index s) = row_docs s rows"
  shows "staged (ss_index s') = row_docs s (row_step s c y rows) \<and> finite (dom (row_step s c y rows)) \<and>
    (\<forall>x \<in> dom (row_step s c y rows). separable s x)"
proof (cases "tc_op c = OTruncate")
  case True
  then show ?thesis using apply_staged [OF assms(1-3)] by (simp add: row_step_def row_docs_def)
next
  case False
  let ?old = "replaced_key s c y" and ?new = "row_key s y (the (tc_new c))"
  note keys = applied_keys [OF assms(2) False]
  have sep: "separable s ?old" using assms(4) False by (simp add: keys_separable_def)
  have del: "filter_mset (\<lambda>d. sd_key d \<noteq> old_key s c y) (staged (ss_index s)) = row_docs s (rows(?old := None))"
    unfolding keys(1) assms(8) by (rule row_docs_delete [OF assms(6) sep assms(7)])
  have fin: "finite (dom (rows(?old := None)))" using assms(6) by simp
  show ?thesis
  proof (cases "tc_op c = ODelete")
    case True
    then show ?thesis using apply_staged [OF assms(1-3)] del fin assms(7) by (auto simp: row_step_def)
  next
    case nd: False
    have ins: "tc_op c = OInsert \<Longrightarrow> ?new = ?old" by (simp add: replaced_key_def)
    have free: "(rows(?old := None)) ?new = None" using assms(5) ins False nd by (cases "tc_op c") auto
    have new: "new_doc s c y = row_doc s ?new (the (tc_new c), tc_commit_lsn c)"
      by (simp add: new_doc_def row_doc_def keys(2) [OF nd])
    have st: "row_step s c y rows = (rows(?old := None))(?new \<mapsto> (the (tc_new c), tc_commit_lsn c))"
      using False nd by (cases "tc_op c") (simp_all add: row_step_def)
    have "staged (ss_index s') = add_mset (new_doc s c y) (filter_mset (\<lambda>d. sd_key d \<noteq> old_key s c y) (staged (ss_index s)))"
      using apply_staged [OF assms(1-3)] False nd by (cases "tc_op c") simp_all
    also have "\<dots> = row_docs s (row_step s c y rows)"
      unfolding del new st by (rule row_docs_add [OF fin free])
    finally have "staged (ss_index s') = row_docs s (row_step s c y rows)" .
    moreover have "separable s ?new" using sep ins assms(4) False nd by (cases "tc_op c") (auto simp: keys_separable_def)
    ultimately show ?thesis using fin assms(6,7) st by auto
  qed
qed

lemma row_frame:
  assumes "ss_keys s' = ss_keys s" and "ss_columns s' = ss_columns s"
  shows "row_key s' = row_key s" "replaced_key s' = replaced_key s" "row_step s' = row_step s" "separable s' = separable s"
    "keys_separable s' = keys_separable s" "row_docs s' = row_docs s" "row_run s' = row_run s" "moves_to_free_rows s' = moves_to_free_rows s"
proof -
  show k: "row_key s' = row_key s" using assms by (simp add: row_key_def key_texts_def is_keyed_def fun_eq_iff)
  show r: "replaced_key s' = replaced_key s" unfolding replaced_key_def k by (rule refl)
  show st: "row_step s' = row_step s" unfolding row_step_def k r by (rule refl)
  show sp: "separable s' = separable s" using assms by (simp add: separable_def fun_eq_iff)
  show "keys_separable s' = keys_separable s" unfolding keys_separable_def sp r k by (rule refl)
  show "row_docs s' = row_docs s" using assms by (simp add: row_docs_def row_doc_def project_def fun_eq_iff)
  have run: "row_run s' cs rows = row_run s cs rows" for cs rows
    by (induction cs arbitrary: rows) (auto simp: st)
  show "row_run s' = row_run s" by (rule ext, rule ext, rule run)
  have mv: "moves_to_free_rows s' cs rows = moves_to_free_rows s cs rows" for cs rows
    by (induction cs arbitrary: rows) (auto simp: st k r)
  show "moves_to_free_rows s' = moves_to_free_rows s" by (rule ext, rule ext, rule mv)
qed

lemma batch_mirrors:
  assumes "tantivy_laws ix staged limit" and "search_apply_all ix cs s = (Ok (), s')"
    and "list_all (key_fits limit s) cs" and "list_all (keys_separable s) cs" and "moves_to_free_rows s cs rows"
    and "finite (dom rows)" and "\<forall>x \<in> dom rows. separable s x" and "staged (ss_index s) = row_docs s rows"
  shows "staged (ss_index s') = row_docs s (row_run s cs rows) \<and> finite (dom (row_run s cs rows)) \<and>
    (\<forall>x \<in> dom (row_run s cs rows). separable s x)"
  using assms(2-)
proof (induction cs arbitrary: s rows)
  case (Cons ck cs)
  obtain c y where ck: "ck = (c, y)" by (cases ck)
  obtain s1 where a: "search_apply ix c y s = (Ok (), s1)" and b: "search_apply_all ix cs s1 = (Ok (), s')"
    using Cons.prems(1) by (auto simp: ck st_bind_Ok_iff)
  have fr: "ss_keys s1 = ss_keys s" "ss_columns s1 = ss_columns s" using apply_frame [OF a] by auto
  have st: "staged (ss_index s1) = row_docs s (row_step s c y rows) \<and> finite (dom (row_step s c y rows)) \<and>
      (\<forall>x \<in> dom (row_step s c y rows). separable s x)"
    by (rule step_mirrors [OF assms(1) a]) (use Cons.prems ck in auto)
  show ?case
    using Cons.IH [OF b, of "row_step s c y rows"] Cons.prems st by (simp add: ck row_frame [OF fr] keys_same_frame [OF fr])
qed auto


section \<open>A concrete run\<close>

definition demo_index :: "(search_doc multiset \<times> search_doc multiset) search_store" where
  "demo_index =
     \<lparr>ss_table = str ''app.t'', ss_columns = [str ''name''], ss_keys = [str ''id''], ss_index = ({#}, {#}),
      ss_meta = \<lparr>sx_table = str ''app.t'', sx_columns = [str ''name''], sx_applied = 0, sx_commits = 0\<rparr>,
      ss_saved = None\<rparr>"

definition demo_row :: "string \<Rightarrow> string \<Rightarrow> named_row" where
  "demo_row i n = [(str ''id'', TText (str i)), (str ''name'', TText (str n))]"

definition demo_write :: "u64 \<Rightarrow> change_op \<Rightarrow> named_row option \<Rightarrow> named_row option \<Rightarrow> typed_change \<times> rstr" where
  "demo_write lsn oper old new =
     (\<lparr>tc_commit_lsn = lsn, tc_xid = 7, tc_table = str ''app.t'', tc_op = oper, tc_new = new, tc_old = old\<rparr>, [])"

definition demo_batch :: "(typed_change \<times> rstr) list" where
  "demo_batch =
     [demo_write 10 OInsert None (Some (demo_row ''1'' ''ant'')),
      demo_write 10 OInsert None (Some (demo_row ''2'' ''bee'')),
      demo_write 20 OUpdate None (Some (demo_row ''1'' ''asp'')),
      demo_write 30 ODelete (Some (demo_row ''2'' ''bee'')) None]"

lemmas demo_search_simps =
  demo_index_def demo_row_def demo_write_def demo_batch_def mem_index_def search_apply_def search_insert_def
  search_update_def search_delete_def search_truncate_def key_from_image_def image_text_def is_keyed_def
  add_doc_def delete_key_def commit_batch_def doc_of_def project_def ensure_def need_def Let_def

lemma demo_search_runs:
  "search_apply_all mem_index demo_batch demo_index =
     (Ok (), demo_index\<lparr>ss_index := ({#\<lparr>sd_key = str ''1'', sd_lsn = 20, sd_texts = [(str ''name'', str ''asp'')]\<rparr>#}, {#})\<rparr>)"
  by (simp add: demo_search_simps)

lemma demo_search_reruns:
  "search_apply_all mem_index demo_batch
     (demo_index\<lparr>ss_index := ({#\<lparr>sd_key = str ''1'', sd_lsn = 20, sd_texts = [(str ''name'', str ''asp'')]\<rparr>#}, {#})\<rparr>) =
     (Ok (), demo_index\<lparr>ss_index := ({#\<lparr>sd_key = str ''1'', sd_lsn = 20, sd_texts = [(str ''name'', str ''asp'')]\<rparr>#}, {#})\<rparr>)"
  by (simp add: demo_search_simps)

lemmas demo_key_simps =
  demo_batch_def demo_write_def demo_row_def demo_index_def key_fits_def keeps_key_def old_key_def new_key_def
  key_for_def key_from_image_def image_text_def is_keyed_def

lemma demo_keys:
  "list_all (key_fits 65530 demo_index) demo_batch" "list_all (keeps_key demo_index) demo_batch"
  by (simp_all add: demo_key_simps)

text \<open>A composite key: one row moves to another key, one goes.\<close>

definition pair_index :: "(search_doc multiset \<times> search_doc multiset) search_store" where
  "pair_index = demo_index\<lparr>ss_keys := [str ''id'', str ''name'']\<rparr>"

definition pair_batch :: "(typed_change \<times> rstr) list" where
  "pair_batch =
     [demo_write 10 OInsert None (Some (demo_row ''1'' ''ant'')),
      demo_write 10 OInsert None (Some (demo_row ''2'' ''bee'')),
      demo_write 20 OUpdate (Some (demo_row ''1'' ''ant'')) (Some (demo_row ''1'' ''asp'')),
      demo_write 30 ODelete (Some (demo_row ''2'' ''bee'')) None]"

lemma pair_run:
  "search_apply_all mem_index pair_batch pair_index =
     (Ok (), pair_index\<lparr>ss_index := ({#\<lparr>sd_key = str ''1'' @ 0x1F # str ''asp'', sd_lsn = 20, sd_texts = [(str ''name'', str ''asp'')]\<rparr>#}, {#})\<rparr>)"
  by (simp add: pair_index_def pair_batch_def demo_search_simps)

lemmas pair_key_simps =
  pair_index_def pair_batch_def demo_key_simps keys_separable_def separable_def replaced_key_def row_key_def key_texts_def row_step_def

lemma pair_keys:
  "list_all (key_fits 65530 pair_index) pair_batch" "list_all (keys_separable pair_index) pair_batch"
  "moves_to_free_rows pair_index pair_batch Map.empty"
  by (simp_all add: pair_key_simps)

lemma pair_rows:
  "row_run pair_index pair_batch Map.empty = [[str ''1'', str ''asp''] \<mapsto> (demo_row ''1'' ''asp'', 20)]"
  by (rule ext) (simp add: pair_key_simps)


text \<open>
  Re-applying is idempotent for changes that keep their key: an index that already holds any
  first part of a batch (a crash, or a commit before the watermark was written) and then has the whole
  batch applied again holds exactly the documents one application of the batch leaves, whatever the
  index held before.
\<close>
theorem reapplied_batch_is_idempotent:
  assumes "tantivy_laws ix staged limit"
    and "list_all (key_fits limit s) (p @ q)" and "list_all (keeps_key s) (p @ q)"
    and "search_apply_all ix p s = (Ok (), s1)" and "search_apply_all ix (p @ q) s1 = (Ok (), s2)"
    and "search_apply_all ix (p @ q) s = (Ok (), s3)"
  shows "staged (ss_index s2) = staged (ss_index s3)"
proof (rule staged_eqI)
  fix k
  have fits: "list_all (key_fits limit s) p" using assms(2) by simp
  note first = slots_apply_all [OF assms(1,4) refl refl fits]
  have "slot staged s2 = slots_after s (p @ q) (slot staged s1)"
    using slots_apply_all [OF assms(1,5) _ _ assms(2)] first by simp
  moreover have "slot staged s3 = slots_after s (p @ q) (slot staged s)"
    using slots_apply_all [OF assms(1,6) refl refl assms(2)] by simp
  ultimately show "slot staged s2 k = slot staged s3 k"
    using first slots_after_replay [OF assms(3)] by simp
qed

theorem reapplied_batch_is_idempotent_witness:
  "\<exists>s1 s2 s3. search_apply_all mem_index demo_batch demo_index = (Ok (), s1) \<and>
     search_apply_all mem_index demo_batch s1 = (Ok (), s2) \<and> fst (ss_index s2) = fst (ss_index s1)"
proof -
  note runs = demo_search_runs demo_search_reruns
  from reapplied_batch_is_idempotent [of mem_index fst 65530 demo_index demo_batch "[]", OF mem_index_laws]
  show ?thesis using demo_keys runs by auto
qed

text \<open>
  Re-applying an update that changed the key duplicates the row: when the index already holds the
  document of the new key, replaying the insert of the old key and the update leaves that document
  twice, since the update deletes under the old key only.
\<close>
theorem reapplied_key_change_duplicates:
  assumes "tantivy_laws ix staged limit" and "key_fits limit s (c, y)"
    and "tc_op c = OUpdate" and "new_key s c y \<noteq> old_key s c y"
    and "search_apply ix c y s = (Ok (), s1)" and "search_apply ix c y s1 = (Ok (), s2)"
  shows "count (staged (ss_index s2)) (new_doc s c y) = count (staged (ss_index s)) (new_doc s c y) + 2"
proof -
  have fr: "ss_keys s1 = ss_keys s" "ss_columns s1 = ss_columns s" using apply_frame [OF assms(5)] by auto
  note same = keys_same_frame [OF fr]
  have one: "slot staged s1 = slot_after s c y (slot staged s)"
    using slot_apply [OF assms(1,5,2)] .
  have two: "slot staged s2 = slot_after s1 c y (slot staged s1)"
    using slot_apply [OF assms(1,6)] assms(2) same by simp
  have key: "sd_key (new_doc s c y) = new_key s c y" by (simp add: new_doc_def doc_of_def)
  have "count (staged (ss_index t)) (new_doc s c y) = count (slot staged t (new_key s c y)) (new_doc s c y)" for t
    by (simp add: slot_def key)
  then show ?thesis
    using assms(3,4) by (simp add: one two slot_after_def same Let_def)
qed

theorem reapplied_key_change_duplicates_witness:
  "\<exists>s1 s2. search_apply mem_index (fst (demo_write 40 OUpdate (Some (demo_row ''1'' ''asp'')) (Some (demo_row ''5'' ''asp'')))) [] demo_index = (Ok (), s1) \<and>
     search_apply mem_index (fst (demo_write 40 OUpdate (Some (demo_row ''1'' ''asp'')) (Some (demo_row ''5'' ''asp'')))) [] s1 = (Ok (), s2) \<and>
     count (fst (ss_index s2)) \<lparr>sd_key = str ''5'', sd_lsn = 40, sd_texts = [(str ''name'', str ''asp'')]\<rparr> = 2"
proof -
  define c where "c = fst (demo_write 40 OUpdate (Some (demo_row ''1'' ''asp'')) (Some (demo_row ''5'' ''asp'')))"
  obtain s1 where s1: "search_apply mem_index c [] demo_index = (Ok (), s1)"
    by (simp add: c_def demo_search_simps)
  obtain s2 where s2: "search_apply mem_index c [] s1 = (Ok (), s2)"
    using s1 by (auto simp: c_def demo_search_simps)
  have k: "key_fits 65530 demo_index (c, [])" "tc_op c = OUpdate" "new_key demo_index c [] \<noteq> old_key demo_index c []"
    by (simp_all add: c_def demo_key_simps)
  have d: "new_doc demo_index c [] = \<lparr>sd_key = str ''5'', sd_lsn = 40, sd_texts = [(str ''name'', str ''asp'')]\<rparr>"
    by (simp add: c_def new_doc_def demo_key_simps doc_of_def project_def)
  have "fst (ss_index demo_index) = {#}" by (simp add: demo_index_def)
  with reapplied_key_change_duplicates [OF mem_index_laws k s1 s2] s1 s2 show ?thesis
    unfolding d c_def [symmetric] by auto
qed

text \<open>
  An update that leaves a large column unchanged drops the column's text from the index: the
  stream sends it as unchanged, the projection reads that as no value, and the document written has no
  text for it, whatever the row's document held before.
\<close>
theorem unchanged_column_loses_text:
  assumes "tantivy_laws ix staged limit" and "key_fits limit s (c, y)" and "keeps_key s (c, y)"
    and "tc_op c = OUpdate" and "map_of (the (tc_new c)) col = Some TUnchangedToast"
    and "search_apply ix c y s = (Ok (), s')"
    and "d \<in># staged (ss_index s')" and "sd_key d = new_key s c y"
  shows "col \<notin> fst ` set (sd_texts d)"
proof -
  have "slot staged s' (new_key s c y) = {#new_doc s c y#}"
    using slot_apply [OF assms(1,6,2)] assms(3,4) by (simp add: slot_after_def keeps_key_def)
  moreover have "d \<in># slot staged s' (new_key s c y)" using assms(7,8) by (simp add: slot_def)
  ultimately have "d = new_doc s c y" by simp
  moreover have "image_text (the (tc_new c)) col = None" using assms(5) by (simp add: image_text_def)
  ultimately show ?thesis
    by (auto simp: new_doc_def doc_of_def project_def zip_map2 zip_same_conv_map split: option.splits)
qed

theorem unchanged_column_loses_text_witness:
  "\<exists>s' d. search_apply mem_index (fst (demo_write 40 OUpdate None (Some [(str ''id'', TText (str ''1'')), (str ''name'', TUnchangedToast)]))) []
       (snd (search_apply_all mem_index demo_batch demo_index)) = (Ok (), s') \<and>
     d \<in># fst (ss_index s') \<and> sd_key d = str ''1'' \<and> str ''name'' \<notin> fst ` set (sd_texts d)"
proof -
  define c where "c = fst (demo_write 40 OUpdate None (Some [(str ''id'', TText (str ''1'')), (str ''name'', TUnchangedToast)]))"
  define s where "s = snd (search_apply_all mem_index demo_batch demo_index)"
  have k: "key_fits 65530 s (c, [])" "keeps_key s (c, [])" "tc_op c = OUpdate"
    "map_of (the (tc_new c)) (str ''name'') = Some TUnchangedToast" "new_key s c [] = str ''1''"
    unfolding s_def demo_search_runs by (simp_all add: c_def demo_key_simps)
  obtain s' where s': "search_apply mem_index c [] s = (Ok (), s')"
      and st: "fst (ss_index s') = {#\<lparr>sd_key = str ''1'', sd_lsn = 40, sd_texts = []\<rparr>#}"
    unfolding s_def demo_search_runs by (simp add: c_def demo_search_simps)
  show ?thesis
    using unchanged_column_loses_text [OF mem_index_laws k(1-4) s', of "\<lparr>sd_key = str ''1'', sd_lsn = 40, sd_texts = []\<rparr>"]
      s' st k(5) unfolding c_def s_def by auto
qed

section \<open>The retrying directory\<close>

text \<open>
  Antivirus software answers some file operations with \<open>PermissionDenied\<close>; the directory repeats the
  operation up to \<open>MAX_RETRIES\<close> times. The operation is its outcomes in order; \<open>denied\<close> is the test on
  the error. The three loops are the same but for the operation and the error type.
\<close>

definition MAX_RETRIES :: nat where "MAX_RETRIES = 40"

function retry_loop :: "('e \<Rightarrow> bool) \<Rightarrow> (nat \<Rightarrow> 'e + 'a) \<Rightarrow> nat \<Rightarrow> ('e + 'a) \<times> nat" where
  "retry_loop denied oper attempt =
     (case oper attempt of
        Inl e \<Rightarrow> if denied e \<and> attempt < MAX_RETRIES then retry_loop denied oper (attempt + 1)
               else (Inl e, attempt)
      | Inr x \<Rightarrow> (Inr x, attempt))"
  by pat_completeness auto
termination by (relation "measure (\<lambda>(_, _, attempt). MAX_RETRIES - attempt)") auto

declare retry_loop.simps [simp del]

datatype io_kind = PermissionDenied | OtherKind
datatype delete_error = FileDoesNotExist | DeleteIo io_kind
datatype open_write_error = FileAlreadyExists | WriteIo io_kind

definition eacces_write :: "open_write_error \<Rightarrow> bool" where
  "eacces_write e = (case e of WriteIo k \<Rightarrow> k = PermissionDenied | _ \<Rightarrow> False)"

definition eacces_delete :: "delete_error \<Rightarrow> bool" where
  "eacces_delete e = (case e of DeleteIo k \<Rightarrow> k = PermissionDenied | _ \<Rightarrow> False)"

definition retry_delete :: "(nat \<Rightarrow> delete_error + unit) \<Rightarrow> delete_error + unit" where
  "retry_delete oper = fst (retry_loop eacces_delete oper 0)"

definition retry_open_write :: "(nat \<Rightarrow> open_write_error + 'w) \<Rightarrow> open_write_error + 'w" where
  "retry_open_write oper = fst (retry_loop eacces_write oper 0)"

definition retry_atomic_write :: "(nat \<Rightarrow> io_kind + unit) \<Rightarrow> io_kind + unit" where
  "retry_atomic_write oper = fst (retry_loop (\<lambda>k. k = PermissionDenied) oper 0)"

definition was_denied :: "('e \<Rightarrow> bool) \<Rightarrow> 'e + 'a \<Rightarrow> bool" where
  "was_denied denied r = (case r of Inl e \<Rightarrow> denied e | Inr _ \<Rightarrow> False)"

lemma was_denied_simps [simp]: "was_denied denied (Inr x) = False" "was_denied denied (Inl e) = denied e"
  by (simp_all add: was_denied_def)

lemma retry_loop_result:
  assumes "attempt \<le> MAX_RETRIES" and "retry_loop denied oper attempt = (r, n)"
  shows "attempt \<le> n \<and> n \<le> MAX_RETRIES \<and> r = oper n \<and> (\<forall>i. attempt \<le> i \<longrightarrow> i < n \<longrightarrow> was_denied denied (oper i)) \<and>
         (was_denied denied r \<longrightarrow> MAX_RETRIES \<le> n)"
  using assms
proof (induction denied oper attempt rule: retry_loop.induct)
  case (1 denied oper attempt)
  show ?case
  proof (cases "oper attempt")
    case (Inr x)
    then have "r = Inr x" "n = attempt"
      using "1.prems"(2) by (simp_all add: retry_loop.simps [of denied oper attempt])
    then show ?thesis using "1.prems"(1) Inr by simp
  next
    case (Inl e)
    show ?thesis
    proof (cases "denied e \<and> attempt < MAX_RETRIES")
      case True
      then have "retry_loop denied oper (attempt + 1) = (r, n)"
        using "1.prems"(2) Inl by (simp add: retry_loop.simps [of denied oper attempt])
      with "1.IH" [OF Inl True] True
      have ih: "attempt + 1 \<le> n" "n \<le> MAX_RETRIES" "r = oper n"
          "\<forall>i. attempt + 1 \<le> i \<longrightarrow> i < n \<longrightarrow> was_denied denied (oper i)"
          "was_denied denied r \<longrightarrow> MAX_RETRIES \<le> n"
        by simp_all
      have "was_denied denied (oper attempt)" using Inl True by simp
      then have "\<forall>i. attempt \<le> i \<longrightarrow> i < n \<longrightarrow> was_denied denied (oper i)"
        using ih(4) by (metis Suc_eq_plus1 Suc_leI le_neq_implies_less)
      with ih show ?thesis by simp
    next
      case False
      then have "r = Inl e" "n = attempt"
        using "1.prems"(2) Inl by (auto simp: retry_loop.simps [of denied oper attempt])
      then show ?thesis using "1.prems"(1) Inl False by auto
    qed
  qed
qed

text \<open>
  The retrying directory returns the first outcome of the delete that is not a permission error,
  after at most 41 attempts; a permission error comes back only when all 41 were denied.
\<close>
theorem retry_returns_first_undenied:
  "(\<exists>n \<le> MAX_RETRIES. retry_delete oper = oper n \<and> (\<forall>i<n. was_denied eacces_delete (oper i)) \<and>
      (was_denied eacces_delete (oper n) \<longrightarrow> (\<forall>i \<le> MAX_RETRIES. was_denied eacces_delete (oper i))))"
proof -
  obtain r n where rn: "retry_loop eacces_delete oper 0 = (r, n)" by fastforce
  from retry_loop_result [OF _ rn]
  have n: "n \<le> MAX_RETRIES" "r = oper n" "\<forall>i<n. was_denied eacces_delete (oper i)"
    and last: "was_denied eacces_delete r \<longrightarrow> MAX_RETRIES \<le> n" by auto
  have "was_denied eacces_delete (oper n) \<longrightarrow> (\<forall>i \<le> MAX_RETRIES. was_denied eacces_delete (oper i))"
    using n last by (metis order_trans le_neq_implies_less)
  moreover have "retry_delete oper = oper n" using n(2) rn by (simp add: retry_delete_def)
  ultimately show ?thesis using n(1,3) by blast
qed

theorem retry_returns_first_undenied_witness:
  "retry_delete (\<lambda>i. if i < 3 then Inl (DeleteIo PermissionDenied) else Inr ()) = Inr ()"
proof -
  define oper :: "nat \<Rightarrow> delete_error + unit"
    where "oper = (\<lambda>i. if i < 3 then Inl (DeleteIo PermissionDenied) else Inr ())"
  obtain n where n: "n \<le> MAX_RETRIES" "retry_delete oper = oper n"
      and last: "was_denied eacces_delete (oper n) \<longrightarrow> (\<forall>i \<le> MAX_RETRIES. was_denied eacces_delete (oper i))"
    using retry_returns_first_undenied [of oper] by blast
  have "\<not> was_denied eacces_delete (oper 3)" by (simp add: oper_def)
  moreover have "3 \<le> MAX_RETRIES" by (simp add: MAX_RETRIES_def)
  ultimately have "\<not> was_denied eacces_delete (oper n)" using last by blast
  then have "oper n = Inr ()" by (auto simp: oper_def eacces_delete_def split: if_splits)
  with n show ?thesis by (simp add: oper_def)
qed

end
