(* ===== verification/Snapshot.thy ===== *)
theory Snapshot
  imports Lsn CopyText "HOL-Library.Multiset" "HOL-Library.List_Lexorder"
begin

text \<open>
  The initial load, \<open>crates/graydb-ingest/src/snapshot.rs\<close>: the plan of page ranges, the pool of COPY
  workers over the shared job queue and the assembly of the manifest; and the check of the staged rows
  against the source, \<open>crates/graydb-check/src/multiset.rs\<close>. The answers of the server are parameters:
  the catalog rows of the planning session, \<open>copy_out\<close> from a statement to the chunks it streams, and
  which sessions open and which files can be written. Which worker pops which job is the schedule
  \<open>sched\<close>. The SHA-256 of the check is the parameter \<open>sha\<close>.
\<close>

section \<open>Manifest and plan\<close>

record part_manifest =
  pm_file :: rstr
  pm_rows :: u64
  pm_bytes :: u64
  pm_first :: u32
  pm_end :: "u32 option"

record table_manifest =
  tm_table :: rstr
  tm_columns :: "rstr list"
  tm_oids :: "u32 list"
  tm_keys :: "rstr list"
  tm_rows :: u64
  tm_bytes :: u64
  tm_parts :: "part_manifest list"

record snapshot_manifest =
  sn_lsn0 :: rstr
  sn_snapshot :: rstr
  sn_tables :: "table_manifest list"

record copy_job =
  cj_table_idx :: nat
  cj_table :: rstr
  cj_select :: rstr
  cj_first :: u32
  cj_end :: "u32 option"
  cj_out :: rstr
  cj_rel :: rstr

record table_plan =
  tp_table :: rstr
  tp_columns :: "rstr list"
  tp_oids :: "u32 list"
  tp_keys :: "rstr list"

datatype snap_error =
    NoColumnsOf rstr
  | NoSession nat
  | NoTableName rstr
  | FileCreate rstr
  | CopyOut rstr
  | ManifestWrite
  | SnapPanic

text \<open>What the planning session reads of a table.\<close>

record catalog_table =
  ct_schema :: rstr
  ct_name :: rstr
  ct_pages :: int
  ct_columns :: "(rstr \<times> u32) list"
  ct_identity :: "rstr list"
  ct_primary :: "rstr list"

definition begin_snapshot_txn :: "rstr \<Rightarrow> rstr list" where
  "begin_snapshot_txn snapshot =
     [str ''BEGIN ISOLATION LEVEL REPEATABLE READ READ ONLY'', str ''SET TRANSACTION SNAPSHOT '' @ quote_literal snapshot]"

definition table_name :: "catalog_table \<Rightarrow> rstr" where
  "table_name t = ct_schema t @ 46 # ct_name t"

fun join_with :: "rstr \<Rightarrow> rstr list \<Rightarrow> rstr" where
  "join_with sep [] = []"
| "join_with sep [x] = x"
| "join_with sep (x # xs) = x @ sep @ join_with sep xs"

definition select_cols :: "rstr list \<Rightarrow> rstr" where
  "select_cols cols = join_with (str '', '') (map quote_ident cols)"

text \<open>The loop that collects range starts: \<open>p\<close> is the local of the loop, \<open>bs\<close> the boundaries so far.\<close>

function page_starts :: "u32 \<Rightarrow> u32 \<Rightarrow> u32 \<Rightarrow> u32 \<Rightarrow> u32 list \<Rightarrow> u32 list" where
  "page_starts relpages streams chunk p bs =
     (if p < relpages \<and> length bs + 1 < unat streams
      then page_starts relpages streams chunk (p + chunk) (bs @ [p])
      else bs @ [p])"
  by pat_completeness auto
termination by (relation "measure (\<lambda>(_, streams, _, _, bs). unat streams - length bs)") auto

declare page_starts.simps [simp del]

definition boundaries :: "int \<Rightarrow> nat \<Rightarrow> snap_error + u32 list" where
  "boundaries pages copy_streams =
     (let streams = word_of_nat (max copy_streams 1) :: u32;
          relpages = word_of_int (max pages 0)
      in if streams = 0 then Err SnapPanic
         else Ok (page_starts relpages streams (max (relpages div streams) 1) 0 []))"

definition pad4 :: "nat \<Rightarrow> rstr" where
  "pad4 n = replicate (4 - length (show_nat 10 n)) 48 @ show_nat 10 n"

definition make_job ::
    "nat \<Rightarrow> rstr \<Rightarrow> rstr \<Rightarrow> u32 \<Rightarrow> u32 option \<Rightarrow> nat \<Rightarrow> rstr \<Rightarrow> rstr \<Rightarrow> copy_job" where
  "make_job idx table sel first lim part dir dir_name =
     (let rel_file = dir_name @ str ''/part-'' @ pad4 part @ str ''.copy''
      in \<lparr>cj_table_idx = idx, cj_table = table, cj_select = sel, cj_first = first, cj_end = lim,
          cj_out = dir @ 47 # rel_file, cj_rel = rel_file\<rparr>)"

definition table_jobs :: "nat \<Rightarrow> rstr \<Rightarrow> catalog_table \<Rightarrow> u32 list \<Rightarrow> copy_job list" where
  "table_jobs idx dir t bs =
     (let sel = select_cols (map fst (ct_columns t)); q = table_name t
      in map (\<lambda>(part, (a, b)). make_job idx q sel a (Some b) part dir q) (enumerate 0 (zip bs (tl bs)))
         @ [make_job idx q sel (last bs) None (length bs - 1) dir q])"

definition key_columns_of :: "catalog_table \<Rightarrow> rstr list" where
  "key_columns_of t = (if ct_identity t \<noteq> [] then ct_identity t else ct_primary t)"

definition table_plan_of :: "catalog_table \<Rightarrow> table_plan" where
  "table_plan_of t =
     \<lparr>tp_table = table_name t, tp_columns = map fst (ct_columns t), tp_oids = map snd (ct_columns t),
      tp_keys = key_columns_of t\<rparr>"

fun plan_tables :: "nat \<Rightarrow> rstr \<Rightarrow> nat \<Rightarrow> catalog_table list \<Rightarrow> snap_error + table_plan list \<times> copy_job list" where
  "plan_tables streams dir idx [] = Ok ([], [])"
| "plan_tables streams dir idx (t # ts) =
     res_bind (ensure (ct_columns t \<noteq> []) (NoColumnsOf (table_name t))) (\<lambda>_.
     res_bind (boundaries (ct_pages t) streams) (\<lambda>bs.
     res_bind (plan_tables streams dir (Suc idx) ts) (\<lambda>(plans, jobs).
     Ok (table_plan_of t # plans, table_jobs idx dir t bs @ jobs))))"

section \<open>The workers\<close>

definition range_pred :: "copy_job \<Rightarrow> rstr" where
  "range_pred job =
     (case cj_end job of
        Some e \<Rightarrow> str ''WHERE ctid >= '('' @ show_nat 10 (unat (cj_first job)) @ str '',0)'::tid AND ctid < '(''
                  @ show_nat 10 (unat e) @ str '',0)'::tid''
      | None \<Rightarrow> str ''WHERE ctid >= '('' @ show_nat 10 (unat (cj_first job)) @ str '',0)'::tid'')"

definition copy_sql :: "copy_job \<Rightarrow> snap_error + rstr" where
  "copy_sql job =
     res_bind (need (split_once 46 (cj_table job)) (NoTableName (cj_table job))) (\<lambda>(schema, name).
     Ok (str ''COPY (SELECT '' @ cj_select job @ str '' FROM '' @ quote_ident schema @ 46 # quote_ident name
         @ str '' '' @ range_pred job @ str '') TO STDOUT''))"

fun count_chunks :: "bytes list \<Rightarrow> u64 \<Rightarrow> u64 \<Rightarrow> u64 \<times> u64" where
  "count_chunks [] rows n = (rows, n)"
| "count_chunks (c # cs) rows n =
     count_chunks cs (rows + word_of_nat (length (filter (\<lambda>b. b = LF) c))) (n + word_of_nat (length c))"

text \<open>A staged part: the table it belongs to, its manifest entry and the bytes in its file.\<close>

type_synonym staged = "nat \<times> part_manifest \<times> bytes"

definition copy_part ::
    "(rstr \<Rightarrow> bytes list option) \<Rightarrow> (rstr \<Rightarrow> bool) \<Rightarrow> copy_job \<Rightarrow> snap_error + staged" where
  "copy_part copy_out disk job =
     res_bind (copy_sql job) (\<lambda>sql.
     res_bind (ensure (disk (cj_out job)) (FileCreate (cj_out job))) (\<lambda>_.
     res_bind (need (copy_out sql) (CopyOut (cj_rel job))) (\<lambda>chunks.
     let (rows, n) = count_chunks chunks 0 0 in
     Ok (cj_table_idx job,
         \<lparr>pm_file = cj_rel job, pm_rows = rows, pm_bytes = n, pm_first = cj_first job, pm_end = cj_end job\<rparr>,
         concat chunks))))"

fun worker_loop ::
    "(rstr \<Rightarrow> bytes list option) \<Rightarrow> (rstr \<Rightarrow> bool) \<Rightarrow> copy_job list \<Rightarrow> snap_error + staged list" where
  "worker_loop copy_out disk [] = Ok []"
| "worker_loop copy_out disk (job # jobs) =
     res_bind (copy_part copy_out disk job) (\<lambda>r.
     res_bind (worker_loop copy_out disk jobs) (\<lambda>rs. Ok (r # rs)))"

definition jobs_of :: "nat list \<Rightarrow> copy_job list \<Rightarrow> nat \<Rightarrow> copy_job list" where
  "jobs_of sched jobs w = map snd (filter (\<lambda>(v, _). v = w) (zip sched jobs))"

definition copy_worker ::
    "(rstr \<Rightarrow> bytes list option) \<Rightarrow> (rstr \<Rightarrow> bool) \<Rightarrow> (nat \<Rightarrow> bool) \<Rightarrow> nat list \<Rightarrow> copy_job list \<Rightarrow> nat
      \<Rightarrow> snap_error + staged list" where
  "copy_worker copy_out disk session sched jobs w =
     res_bind (ensure (session w) (NoSession w)) (\<lambda>_. worker_loop copy_out disk (jobs_of sched jobs w))"

text \<open>The handles are joined in the order the workers were spawned.\<close>

fun join_workers :: "(nat \<Rightarrow> snap_error + staged list) \<Rightarrow> nat list \<Rightarrow> snap_error + staged list" where
  "join_workers run [] = Ok []"
| "join_workers run (w # ws) =
     res_bind (run w) (\<lambda>parts. res_bind (join_workers run ws) (\<lambda>rest. Ok (parts @ rest)))"

definition add_part :: "table_manifest list \<Rightarrow> nat \<times> part_manifest \<Rightarrow> table_manifest list" where
  "add_part tables ip =
     (let (idx, part) = ip; t = tables ! idx
      in tables[idx := t\<lparr>tm_rows := tm_rows t + pm_rows part, tm_bytes := tm_bytes t + pm_bytes part,
                         tm_parts := tm_parts t @ [part]\<rparr>])"

definition empty_manifest :: "table_plan \<Rightarrow> table_manifest" where
  "empty_manifest p =
     \<lparr>tm_table = tp_table p, tm_columns = tp_columns p, tm_oids = tp_oids p, tm_keys = tp_keys p,
      tm_rows = 0, tm_bytes = 0, tm_parts = []\<rparr>"

definition assemble :: "table_plan list \<Rightarrow> (nat \<times> part_manifest) list \<Rightarrow> table_manifest list" where
  "assemble plans results =
     map (\<lambda>t. t\<lparr>tm_parts := sort_key pm_first (tm_parts t)\<rparr>) (foldl add_part (map empty_manifest plans) results)"

text \<open>The manifest and the files of the snapshot directory.\<close>

definition run_parallel_copy ::
    "(rstr \<Rightarrow> bytes list option) \<Rightarrow> (rstr \<Rightarrow> bool) \<Rightarrow> (nat \<Rightarrow> bool) \<Rightarrow> nat list \<Rightarrow> nat \<Rightarrow> rstr \<Rightarrow> rstr \<Rightarrow> rstr \<Rightarrow>
      catalog_table list \<Rightarrow> snap_error + snapshot_manifest \<times> (rstr \<times> bytes) list" where
  "run_parallel_copy copy_out disk session sched streams lsn0 snapshot dir catalog =
     res_bind (plan_tables streams dir 0 catalog) (\<lambda>(plans, jobs).
     res_bind (join_workers (copy_worker copy_out disk session sched jobs) [0..<max streams 1]) (\<lambda>results.
     res_bind (ensure (disk (dir @ str ''/manifest.json'')) ManifestWrite) (\<lambda>_.
     Ok (\<lparr>sn_lsn0 = lsn0, sn_snapshot = snapshot,
          sn_tables = assemble plans (map (\<lambda>(i, p, _). (i, p)) results)\<rparr>,
         map (\<lambda>(_, p, data). (pm_file p, data)) results))))"

section \<open>The check of the staged rows\<close>

record table_check =
  tk_table :: rstr
  tk_source_rows :: u64
  tk_staged_rows :: u64
  tk_source_hash :: bytes
  tk_staged_hash :: bytes
  tk_pass :: bool

definition split_copy_lines :: "bytes \<Rightarrow> bytes list" where
  "split_copy_lines data = split_lines [] data"

definition sorted_multiset_hash :: "(bytes \<Rightarrow> bytes) \<Rightarrow> bytes list \<Rightarrow> u64 \<times> bytes" where
  "sorted_multiset_hash sha lines =
     (word_of_nat (length lines), sha (concat (map (\<lambda>l. l @ [LF]) (sort lines))))"

fun staged_lines :: "(rstr \<times> bytes) list \<Rightarrow> part_manifest list \<Rightarrow> snap_error + bytes list" where
  "staged_lines files [] = Ok []"
| "staged_lines files (p # ps) =
     res_bind (need (map_of files (pm_file p)) (FileCreate (pm_file p))) (\<lambda>data.
     res_bind (staged_lines files ps) (\<lambda>ls. Ok (split_copy_lines data @ ls)))"

definition full_copy_sql :: "table_manifest \<Rightarrow> snap_error + rstr" where
  "full_copy_sql m =
     res_bind (need (split_once 46 (tm_table m)) (NoTableName (tm_table m))) (\<lambda>(schema, name).
     Ok (str ''COPY (SELECT '' @ select_cols (tm_columns m) @ str '' FROM '' @ quote_ident schema @ 46 # quote_ident name
         @ str '') TO STDOUT''))"

definition check_table ::
    "(bytes \<Rightarrow> bytes) \<Rightarrow> (rstr \<Rightarrow> bytes list option) \<Rightarrow> (rstr \<times> bytes) list \<Rightarrow> table_manifest \<Rightarrow> snap_error + table_check" where
  "check_table sha copy_out files m =
     res_bind (full_copy_sql m) (\<lambda>sql.
     res_bind (need (copy_out sql) (CopyOut (tm_table m))) (\<lambda>chunks.
     let (source_rows, source_hash) = sorted_multiset_hash sha (split_copy_lines (concat chunks)) in
     res_bind (staged_lines files (tm_parts m)) (\<lambda>ls.
     let (staged_rows, staged_hash) = sorted_multiset_hash sha ls in
     Ok \<lparr>tk_table = tm_table m, tk_source_rows = source_rows, tk_staged_rows = staged_rows,
         tk_source_hash = source_hash, tk_staged_hash = staged_hash,
         tk_pass = (source_rows = staged_rows \<and> source_hash = staged_hash \<and> staged_rows = tm_rows m)\<rparr>)))"

section \<open>Ranges\<close>

lemma unat_u32: "n < 2 ^ 32 \<Longrightarrow> unat (word_of_nat n :: u32) = n"
  by (simp add: unat_of_nat)

lemma page_starts_steps:
  assumes "streams \<noteq> 0" and "unat relpages < 2 ^ 31" and "chunk = max (relpages div streams) 1"
    and "length bs < unat streams" and "length bs * unat chunk \<le> unat relpages"
    and "p = word_of_nat (length bs * unat chunk)"
  shows "\<exists>m \<ge> length bs. m * unat chunk \<le> unat relpages \<and>
    page_starts relpages streams chunk p bs = bs @ map (\<lambda>i. word_of_nat (i * unat chunk)) [length bs..<Suc m]"
  using assms
proof (induction relpages streams chunk p bs rule: page_starts.induct)
  case (1 relpages streams chunk p bs)
  let ?c = "unat chunk" and ?k = "length bs"
  show ?case
  proof (cases "p < relpages \<and> ?k + 1 < unat streams")
    case True
    have "?k * ?c < 2 ^ 32" using "1.prems"(2,5) by simp
    then have p: "unat p = ?k * ?c" using unat_u32 "1.prems"(6) by blast
    have "(?k + 1) * ?c \<le> unat relpages"
    proof (cases "relpages div streams = 0")
      case True
      then have "chunk = 1" using "1.prems"(3) by simp
      then show ?thesis using \<open>p < relpages \<and> _\<close> p by (simp add: word_less_nat_alt)
    next
      case False
      then have "1 \<le> relpages div streams" by (simp add: word_le_nat_alt unat_gt_0 Suc_le_eq)
      then have "chunk = relpages div streams" using "1.prems"(3) by (simp add: max_def)
      then have c: "?c = unat relpages div unat streams" by (simp add: unat_div)
      have "(?k + 1) * ?c \<le> unat streams * ?c" using True by (intro mult_le_mono1) simp
      also have "\<dots> \<le> unat relpages" unfolding c by simp
      finally show ?thesis .
    qed
    moreover have "p + chunk = word_of_nat ((?k + 1) * ?c)"
      using "1.prems"(6) by (simp add: algebra_simps)
    ultimately obtain m where m: "m \<ge> ?k + 1" "m * ?c \<le> unat relpages"
      "page_starts relpages streams chunk (p + chunk) (bs @ [p]) =
         (bs @ [p]) @ map (\<lambda>i. word_of_nat (i * ?c)) [?k + 1..<Suc m]"
      using "1.IH" [OF True] "1.prems" True by auto
    have "page_starts relpages streams chunk p bs = bs @ map (\<lambda>i. word_of_nat (i * ?c)) [?k..<Suc m]"
    proof -
      have "page_starts relpages streams chunk p bs = page_starts relpages streams chunk (p + chunk) (bs @ [p])"
        by (subst page_starts.simps) (simp only: True simp_thms if_True)
      moreover have "[?k..<Suc m] = ?k # [?k + 1..<Suc m]" using m(1) by (simp add: upt_conv_Cons del: upt_Suc)
      ultimately show ?thesis unfolding m(3) using "1.prems"(6) by simp
    qed
    then show ?thesis using m by (intro exI [of _ m]) simp
  next
    case False
    then have "page_starts relpages streams chunk p bs = bs @ [p]"
      by (subst page_starts.simps) auto
    then show ?thesis using "1.prems" by (intro exI [of _ ?k]) simp
  qed
qed

lemma boundaries_sorted:
  assumes "boundaries pages streams = Ok bs" and "pages < 2 ^ 31"
  shows "bs \<noteq> [] \<and> hd bs = 0 \<and> sorted_wrt (<) bs"
proof -
  define st :: u32 where "st = word_of_nat (max streams 1)"
  define rp :: u32 where "rp = word_of_int (max pages 0)"
  define ch where "ch = max (rp div st) 1"
  have st: "st \<noteq> 0" and bs: "bs = page_starts rp st ch 0 []"
    using assms(1) by (auto simp: boundaries_def Let_def st_def rp_def ch_def split: if_splits)
  have rp: "unat rp < 2 ^ 31"
    using assms(2) by (simp add: rp_def unat_eq_nat_uint uint_word_of_int nat_less_iff)
  have c1: "1 \<le> unat ch" by (simp add: ch_def max_def word_le_nat_alt Suc_le_eq split: if_splits)
  obtain m where m: "m * unat ch \<le> unat rp" "bs = map (\<lambda>i. word_of_nat (i * unat ch)) [0..<Suc m]"
    using page_starts_steps [OF st rp ch_def, of "[]" 0] st unfolding bs by (auto simp: unat_gt_0)
  have un: "unat (word_of_nat (i * unat ch) :: u32) = i * unat ch" if "i \<le> m" for i
  proof -
    have "i * unat ch \<le> unat rp" by (rule le_trans [OF mult_le_mono1 [OF that] m(1)])
    from unat_u32 [OF order.strict_trans1 [OF this order.strict_trans [OF rp]]] show ?thesis by simp
  qed
  have "sorted_wrt (<) bs"
    unfolding m(2) sorted_wrt_map
    by (rule sorted_wrt_mono_rel [OF _ sorted_wrt_upt]) (use un c1 in \<open>auto simp: word_less_nat_alt less_Suc_eq_le\<close>)
  moreover have "hd bs = 0" using m(2) by (simp add: hd_map upt_conv_Cons del: upt_Suc)
  ultimately show ?thesis using m(2) by simp
qed

text \<open>The rows of a range, in the order of the table; the ranges of a plan.\<close>

type_synonym content = "(u32 \<times> bytes) list"

definition rows_in :: "u32 \<Rightarrow> u32 option \<Rightarrow> content \<Rightarrow> content" where
  "rows_in a e rows = filter (\<lambda>(p, _). a \<le> p \<and> (case e of None \<Rightarrow> True | Some b \<Rightarrow> p < b)) rows"

fun ranges :: "u32 list \<Rightarrow> (u32 \<times> u32 option) list" where
  "ranges [] = []"
| "ranges [a] = [(a, None)]"
| "ranges (a # b # bs) = (a, Some b) # ranges (b # bs)"

lemma ranges_zip: "bs \<noteq> [] \<Longrightarrow> map (\<lambda>(a, b). (a, Some b)) (zip bs (tl bs)) @ [(last bs, None)] = ranges bs"
  by (induction bs rule: ranges.induct) auto

lemma ranges_partition:
  "bs \<noteq> [] \<Longrightarrow> sorted_wrt (<) bs \<Longrightarrow>
     mset (concat (map (\<lambda>(a, e). rows_in a e rows) (ranges bs))) = filter_mset (\<lambda>r. hd bs \<le> fst r) (mset rows)"
proof (induction bs rule: ranges.induct)
  case (3 a b bs)
  have ab: "a < b" using 3 by simp
  have "mset (rows_in a (Some b) rows) + filter_mset (\<lambda>r. b \<le> fst r) (mset rows) =
      filter_mset (\<lambda>r. a \<le> fst r) (mset rows)"
    by (induction rows) (use ab in \<open>auto simp: rows_in_def\<close>)
  then show ?case using 3 by simp
qed (auto simp: rows_in_def case_prod_beta)

lemma hd_ranges: "map fst (ranges bs) = bs"
  by (induction bs rule: ranges.induct) auto

section \<open>The manifest\<close>

definition starts_of :: "nat \<Rightarrow> catalog_table \<Rightarrow> u32 list" where
  "starts_of streams t = (case boundaries (ct_pages t) streams of Inl _ \<Rightarrow> [] | Inr bs \<Rightarrow> bs)"

definition jobs_for :: "nat \<Rightarrow> rstr \<Rightarrow> nat \<times> catalog_table \<Rightarrow> copy_job list" where
  "jobs_for streams dir it = table_jobs (fst it) dir (snd it) (starts_of streams (snd it))"

lemma plan_tables_Ok:
  assumes "plan_tables streams dir idx ts = Ok (plans, jobs)"
  shows "plans = map table_plan_of ts \<and> jobs = concat (map (jobs_for streams dir) (enumerate idx ts)) \<and>
    (\<forall>t \<in> set ts. boundaries (ct_pages t) streams = Ok (starts_of streams t))"
  using assms
proof (induction ts arbitrary: idx plans jobs)
  case (Cons t ts)
  obtain bs pl jo where b: "boundaries (ct_pages t) streams = Ok bs"
    and r: "plan_tables streams dir (Suc idx) ts = Ok (pl, jo)"
    and e: "plans = table_plan_of t # pl" "jobs = table_jobs idx dir t bs @ jo"
    using Cons.prems by (auto simp: res_bind_Ok_iff)
  have "starts_of streams t = bs" by (simp add: starts_of_def b)
  then show ?case using Cons.IH [OF r] b e by (simp add: jobs_for_def)
qed simp

definition part_of :: "(rstr \<Rightarrow> bytes list option) \<Rightarrow> (rstr \<Rightarrow> bool) \<Rightarrow> copy_job \<Rightarrow> staged" where
  "part_of copy_out disk job =
     (case copy_part copy_out disk job of Inr r \<Rightarrow> r | Inl _ \<Rightarrow> (0, \<lparr>pm_file = [], pm_rows = 0, pm_bytes = 0, pm_first = 0, pm_end = None\<rparr>, []))"

lemma worker_loop_Ok:
  "worker_loop copy_out disk jobs = Ok rs \<Longrightarrow>
     rs = map (part_of copy_out disk) jobs \<and> (\<forall>j \<in> set jobs. copy_part copy_out disk j = Ok (part_of copy_out disk j))"
proof (induction jobs arbitrary: rs)
  case (Cons j jobs)
  then obtain r rest where "copy_part copy_out disk j = Ok r" "worker_loop copy_out disk jobs = Ok rest" "rs = r # rest"
    by (auto simp: res_bind_Ok_iff)
  with Cons.IH show ?case by (simp add: part_of_def)
qed simp

lemma join_workers_Ok:
  "join_workers (copy_worker copy_out disk session sched jobs) ws = Ok rs \<Longrightarrow>
     rs = map (part_of copy_out disk) (concat (map (jobs_of sched jobs) ws)) \<and>
     (\<forall>w \<in> set ws. \<forall>j \<in> set (jobs_of sched jobs w). copy_part copy_out disk j = Ok (part_of copy_out disk j))"
proof (induction ws arbitrary: rs)
  case (Cons w ws)
  obtain a rest where a: "copy_worker copy_out disk session sched jobs w = Ok a"
    and r: "join_workers (copy_worker copy_out disk session sched jobs) ws = Ok rest" and e: "rs = a @ rest"
    using Cons.prems by (auto simp: res_bind_Ok_iff)
  have "worker_loop copy_out disk (jobs_of sched jobs w) = Ok a"
    using a by (auto simp: copy_worker_def res_bind_Ok_iff)
  from worker_loop_Ok [OF this] Cons.IH [OF r] e show ?case by auto
qed simp

lemma schedule_covers:
  assumes "length sched = length jobs" and "set sched \<subseteq> set ws" and "distinct ws"
  shows "mset (concat (map (jobs_of sched jobs) ws)) = mset jobs"
  using assms(1,2)
proof (induction sched jobs rule: list_induct2)
  case Nil
  have "concat (map (jobs_of [] []) ws) = []" by (induction ws) (auto simp: jobs_of_def)
  then show ?case by simp
next
  case (Cons v sched j jobs)
  have step: "jobs_of (v # sched) (j # jobs) w = (if w = v then [j] else []) @ jobs_of sched jobs w" for w
    by (simp add: jobs_of_def)
  have "mset (concat (map (jobs_of (v # sched) (j # jobs)) us)) =
      (if v \<in> set us then {#j#} else {#}) + mset (concat (map (jobs_of sched jobs) us))" if "distinct us" for us
    using that by (induction us) (auto simp: step)
  from this [OF assms(3)] Cons show ?case by simp
qed

lemma foldl_add_part:
  assumes "i < length tables" and "\<forall>(k, p) \<in> set rs. k < length tables"
  shows "foldl add_part tables rs ! i =
     (tables ! i)\<lparr>tm_rows := tm_rows (tables ! i) + (\<Sum>r \<leftarrow> filter (\<lambda>(k, p). k = i) rs. pm_rows (snd r)),
                  tm_bytes := tm_bytes (tables ! i) + (\<Sum>r \<leftarrow> filter (\<lambda>(k, p). k = i) rs. pm_bytes (snd r)),
                  tm_parts := tm_parts (tables ! i) @ map snd (filter (\<lambda>(k, p). k = i) rs)\<rparr>"
  using assms
proof (induction rs arbitrary: tables)
  case (Cons kp rs)
  obtain k p where kp: "kp = (k, p)" by (cases kp)
  have len: "length (add_part tables kp) = length tables" by (simp add: add_part_def kp Let_def)
  have "i < length (add_part tables kp)" "\<forall>(k, p) \<in> set rs. k < length (add_part tables kp)"
    using Cons.prems len by auto
  from Cons.IH [OF this] Cons.prems show ?case by (auto simp: kp add_part_def Let_def add.assoc)
qed simp

lemma length_foldl_add_part: "length (foldl add_part tables rs) = length tables"
  by (induction rs arbitrary: tables) (auto simp: add_part_def Let_def split: prod.splits)

lemma table_jobs_ranges:
  assumes "bs \<noteq> []"
  shows "map (\<lambda>j. (cj_first j, cj_end j)) (table_jobs idx dir t bs) = ranges bs"
proof -
  have "map (\<lambda>j. (cj_first j, cj_end j))
      (map (\<lambda>(part, (a, b)). make_job idx q sel a (Some b) part dir q) (enumerate n xs)) = map (\<lambda>(a, b). (a, Some b)) xs"
    for sel q n xs by (induction xs arbitrary: n) (auto simp: make_job_def Let_def)
  then show ?thesis
    unfolding table_jobs_def Let_def map_append
    by (simp only: ranges_zip [OF assms, symmetric]) (simp add: make_job_def Let_def)
qed

lemma table_jobs_idx: "j \<in> set (table_jobs idx dir t bs) \<Longrightarrow> cj_table_idx j = idx \<and> cj_table j = table_name t"
  by (auto simp: table_jobs_def Let_def make_job_def)

lemma jobs_of_table:
  "filter (\<lambda>j. cj_table_idx j = i) (concat (map (jobs_for streams dir) (enumerate n ts))) =
     (if n \<le> i \<and> i < n + length ts then jobs_for streams dir (i, ts ! (i - n)) else [])"
proof (induction ts arbitrary: n)
  case (Cons t ts)
  have "filter (\<lambda>j. cj_table_idx j = i) (jobs_for streams dir (n, t)) =
      (if n = i then jobs_for streams dir (n, t) else [])"
    by (auto simp: jobs_for_def filter_id_conv filter_empty_conv dest: table_jobs_idx)
  then show ?case by (auto simp: Cons nth_Cons' not_less_eq_eq Suc_le_eq)
qed auto

definition entry_of :: "(rstr \<Rightarrow> bytes list option) \<Rightarrow> (rstr \<Rightarrow> bool) \<Rightarrow> copy_job \<Rightarrow> part_manifest" where
  "entry_of copy_out disk job = fst (snd (part_of copy_out disk job))"

definition copied ::
    "(rstr \<Rightarrow> bytes list option) \<Rightarrow> (rstr \<Rightarrow> bool) \<Rightarrow> nat \<Rightarrow> rstr \<Rightarrow> nat \<times> catalog_table \<Rightarrow> table_manifest" where
  "copied copy_out disk streams dir it =
     (let parts = map (entry_of copy_out disk) (jobs_for streams dir it)
      in \<lparr>tm_table = table_name (snd it), tm_columns = map fst (ct_columns (snd it)),
          tm_oids = map snd (ct_columns (snd it)), tm_keys = key_columns_of (snd it),
          tm_rows = (\<Sum>p\<leftarrow>parts. pm_rows p), tm_bytes = (\<Sum>p\<leftarrow>parts. pm_bytes p), tm_parts = parts\<rparr>)"

lemma sum_list_mset: "mset xs = mset ys \<Longrightarrow> (\<Sum>x\<leftarrow>xs. f x) = (\<Sum>x\<leftarrow>ys. f x :: 'a::comm_monoid_add)"
  by (metis mset_map sum_mset_sum_list)

lemma count_chunks_eq [simp]:
  "count_chunks cs rows n =
     (rows + word_of_nat (length (filter (\<lambda>b. b = LF) (concat cs))), n + word_of_nat (length (concat cs)))"
  by (induction cs arbitrary: rows n) (simp_all add: add.assoc)

lemma copy_part_fields:
  assumes "copy_part copy_out disk j = Ok r"
  shows "fst r = cj_table_idx j \<and> pm_first (fst (snd r)) = cj_first j \<and> pm_end (fst (snd r)) = cj_end j \<and>
    pm_file (fst (snd r)) = cj_rel j"
  using assms by (auto simp: copy_part_def res_bind_Ok_iff Let_def split: prod.splits)

lemma sort_parts:
  assumes "mset xs = mset ys" and "sorted_wrt (<) (map pm_first ys)"
  shows "sort_key pm_first xs = ys"
proof -
  have "distinct (map pm_first ys)" "sorted (map pm_first ys)"
    using assms(2) by (simp_all add: strict_sorted_iff)
  then show ?thesis
    using assms(1) by (intro sort_key_inj_key_eq) (auto simp: distinct_map dest: mset_eq_setD)
qed

lemma assemble_copied:
  assumes "mset results = mset (map (part_of copy_out disk) jobs)"
    and "jobs = concat (map (jobs_for streams dir) (enumerate 0 catalog))"
    and "\<forall>j \<in> set jobs. copy_part copy_out disk j = Ok (part_of copy_out disk j)"
    and "\<forall>t \<in> set catalog. boundaries (ct_pages t) streams = Ok (starts_of streams t) \<and> ct_pages t < 2 ^ 31"
  shows "assemble (map table_plan_of catalog) (map (\<lambda>(i, p, _). (i, p)) results) =
    map (copied copy_out disk streams dir) (enumerate 0 catalog)"
proof (rule nth_equalityI)
  show "length (assemble (map table_plan_of catalog) (map (\<lambda>(i, p, _). (i, p)) results)) =
      length (map (copied copy_out disk streams dir) (enumerate 0 catalog))"
    by (simp add: assemble_def length_foldl_add_part)
next
  let ?R = "map (\<lambda>(i, p, _). (i, p)) results" and ?f = "\<lambda>j. (cj_table_idx j, entry_of copy_out disk j)"
  fix i assume "i < length (assemble (map table_plan_of catalog) ?R)"
  then have i: "i < length catalog" by (simp add: assemble_def length_foldl_add_part)
  let ?t = "catalog ! i" and ?parts = "map (entry_of copy_out disk) (jobs_for streams dir (i, catalog ! i))"
  have fld: "fst (part_of copy_out disk j) = cj_table_idx j \<and> pm_first (entry_of copy_out disk j) = cj_first j"
    if "j \<in> set jobs" for j
  proof -
    have "copy_part copy_out disk j = Ok (part_of copy_out disk j)" using assms(3) that by blast
    from copy_part_fields [OF this] show ?thesis by (simp add: entry_of_def)
  qed
  let ?g = "\<lambda>(i, p, _). (i, p)"
  have g: "?g (part_of copy_out disk j) = ?f j" if "j \<in> set jobs" for j
    using fld [OF that] by (cases "part_of copy_out disk j") (auto simp: entry_of_def)
  have "mset ?R = image_mset ?g (mset results)" by simp
  also have "\<dots> = mset (map ?g (map (part_of copy_out disk) jobs))" unfolding assms(1) by (simp only: mset_map)
  also have "map ?g (map (part_of copy_out disk) jobs) = map ?f jobs" using g by simp
  finally have R: "mset ?R = mset (map ?f jobs)" .
  then have "mset (filter (\<lambda>(k, p). k = i) ?R) = mset (filter (\<lambda>(k, p). k = i) (map ?f jobs))"
    by (metis mset_filter)
  also have "filter (\<lambda>(k, p). k = i) (map ?f jobs) = map ?f (filter (\<lambda>j. cj_table_idx j = i) jobs)"
    by (simp add: filter_map comp_def)
  also have "filter (\<lambda>j. cj_table_idx j = i) jobs = jobs_for streams dir (i, ?t)"
    using i by (simp add: assms(2) jobs_of_table)
  finally have F: "mset (filter (\<lambda>(k, p). k = i) ?R) = mset (map ?f (jobs_for streams dir (i, ?t)))" .
  have "mset (map snd (filter (\<lambda>(k, p). k = i) ?R)) = image_mset snd (mset (map ?f (jobs_for streams dir (i, ?t))))"
    by (simp only: mset_map F)
  then have P: "mset (map snd (filter (\<lambda>(k, p). k = i) ?R)) = mset ?parts"
    by (simp add: multiset.map_comp comp_def)
  have sub: "set (jobs_for streams dir (i, ?t)) \<subseteq> set jobs"
    using i by (auto simp: assms(2) in_set_enumerate_eq intro!: bexI [of _ "(i, ?t)"])
  have b: "boundaries (ct_pages ?t) streams = Ok (starts_of streams ?t)" "ct_pages ?t < 2 ^ 31"
    using assms(4) i by auto
  note bs = boundaries_sorted [OF b]
  have "map pm_first ?parts = map cj_first (jobs_for streams dir (i, ?t))"
    using sub fld by auto
  also have "\<dots> = map fst (map (\<lambda>j. (cj_first j, cj_end j)) (jobs_for streams dir (i, ?t)))" by simp
  also have "\<dots> = starts_of streams ?t"
    unfolding jobs_for_def fst_conv snd_conv table_jobs_ranges [OF conjunct1 [OF bs]] hd_ranges ..
  finally have S: "sort_key pm_first (map snd (filter (\<lambda>(k, p). k = i) ?R)) = ?parts"
    using sort_parts [OF P] bs by simp
  have k: "\<forall>(k, p) \<in> set ?R. k < length (map empty_manifest (map table_plan_of catalog))"
  proof -
    have "set ?R = set (map ?f jobs)" using R by (rule mset_eq_setD)
    moreover have "cj_table_idx j < length catalog" if "j \<in> set jobs" for j
      using that by (auto simp: assms(2) in_set_enumerate_eq jobs_for_def dest: table_jobs_idx)
    ultimately show ?thesis by auto
  qed
  have sums: "(\<Sum>r\<leftarrow>filter (\<lambda>(k, p). k = i) ?R. f (snd r)) = (\<Sum>p\<leftarrow>?parts. f p)" for f :: "part_manifest \<Rightarrow> u64"
    using sum_list_mset [OF P, of f] by (simp add: comp_def)
  show "assemble (map table_plan_of catalog) ?R ! i = map (copied copy_out disk streams dir) (enumerate 0 catalog) ! i"
    using i foldl_add_part [OF _ k, of i] sums [of pm_rows] sums [of pm_bytes] S
    by (simp add: assemble_def length_foldl_add_part copied_def Let_def empty_manifest_def table_plan_of_def nth_enumerate_eq)
qed

section \<open>The files\<close>

definition rel_name :: "rstr \<Rightarrow> nat \<Rightarrow> rstr" where
  "rel_name q k = q @ str ''/part-'' @ pad4 k @ str ''.copy''"

lemma pad4_inj: "pad4 m = pad4 n \<Longrightarrow> m = n"
proof -
  have zeros: "parse_digits 10 0 (replicate k 48 @ xs) = parse_digits 10 0 xs" for k xs
    by (induction k) (simp_all add: digit_val_def)
  have "parse_digits 10 0 (pad4 k) = Some k" for k by (simp add: pad4_def zeros parse_show_nat)
  then show "pad4 m = pad4 n \<Longrightarrow> m = n" by (metis option.inject)
qed

lemma pad4_no_slash: "47 \<notin> set (pad4 n)"
proof -
  have "48 \<le> (47 :: byte) \<Longrightarrow> False" by simp
  then show ?thesis using show_nat_digits [of 10 n] by (auto simp: pad4_def)
qed

lemma last_slash:
  "a @ 47 # s = b @ 47 # u \<Longrightarrow> (47 :: byte) \<notin> set s \<Longrightarrow> 47 \<notin> set u \<Longrightarrow> a = b \<and> s = u"
proof (induction a arbitrary: b)
  case Nil
  then show ?case by (cases b) auto
next
  case (Cons x a)
  then show ?case by (cases b) auto
qed

lemma rel_name_inj: "rel_name q k = rel_name r l \<longleftrightarrow> q = r \<and> k = l"
proof
  assume a: "rel_name q k = rel_name r l"
  have "q @ 47 # (str ''part-'' @ pad4 k @ str ''.copy'') = r @ 47 # (str ''part-'' @ pad4 l @ str ''.copy'')"
    using a by (simp add: rel_name_def)
  from last_slash [OF this] have "q = r" "pad4 k = pad4 l" by (simp_all add: pad4_no_slash)
  then show "q = r \<and> k = l" using pad4_inj by simp
qed simp

lemma table_jobs_rel:
  assumes "bs \<noteq> []"
  shows "map cj_rel (table_jobs idx dir t bs) = map (rel_name (table_name t)) [0..<length bs]"
proof -
  have "map cj_rel (map (\<lambda>(part, (a, b)). make_job idx q sel a (Some b) part dir q) (enumerate n xs)) =
      map (rel_name q) [n..<n + length xs]" for sel q n xs
    by (induction xs arbitrary: n) (auto simp: make_job_def Let_def rel_name_def upt_conv_Cons simp del: upt_Suc)
  moreover obtain m where "length bs = Suc m" using assms by (cases bs) auto
  ultimately show ?thesis
    unfolding table_jobs_def Let_def map_append by (simp add: make_job_def Let_def rel_name_def)
qed

lemma distinct_files:
  assumes "distinct (map table_name ts)" and "\<forall>t \<in> set ts. starts_of streams t \<noteq> []"
  shows "distinct (map cj_rel (concat (map (jobs_for streams dir) (enumerate n ts))))"
proof -
  have "map cj_rel (concat (map (jobs_for streams dir) (enumerate n ts))) =
      concat (map (\<lambda>t. map (rel_name (table_name t)) [0..<length (starts_of streams t)]) ts)" for n
    using assms(2)
  proof (induction ts arbitrary: n)
    case (Cons t ts)
    then show ?case by (simp add: jobs_for_def table_jobs_rel map_concat del: enumerate_simps(2)) (simp add: jobs_for_def table_jobs_rel)
  qed simp
  moreover have "distinct (concat (map (\<lambda>t. map (rel_name (table_name t)) [0..<length (starts_of streams t)]) ts))"
    using assms(1)
  proof (induction ts)
    case (Cons t ts)
    then show ?case by (auto simp: distinct_map inj_on_def rel_name_inj)
  qed simp
  ultimately show ?thesis by simp
qed

definition data_of :: "(rstr \<Rightarrow> bytes list option) \<Rightarrow> (rstr \<Rightarrow> bool) \<Rightarrow> copy_job \<Rightarrow> bytes" where
  "data_of copy_out disk job = snd (snd (part_of copy_out disk job))"

definition all_jobs :: "nat \<Rightarrow> rstr \<Rightarrow> catalog_table list \<Rightarrow> copy_job list" where
  "all_jobs streams dir catalog = concat (map (jobs_for streams dir) (enumerate 0 catalog))"

definition valid_schedule :: "nat \<Rightarrow> nat list \<Rightarrow> copy_job list \<Rightarrow> bool" where
  "valid_schedule streams sched jobs \<longleftrightarrow> length sched = length jobs \<and> list_all (\<lambda>w. w < max streams 1) sched"

definition catalog_ok :: "catalog_table list \<Rightarrow> bool" where
  "catalog_ok catalog \<longleftrightarrow> distinct (map table_name catalog) \<and> list_all (\<lambda>t. ct_pages t < 2 ^ 31) catalog"

lemma run_Ok:
  assumes "run_parallel_copy copy_out disk session sched streams lsn0 snapshot dir catalog = Ok (man, files)"
    and "catalog_ok catalog" and "valid_schedule streams sched (all_jobs streams dir catalog)"
  shows "man = \<lparr>sn_lsn0 = lsn0, sn_snapshot = snapshot,
                sn_tables = map (copied copy_out disk streams dir) (enumerate 0 catalog)\<rparr> \<and>
    (\<forall>j \<in> set (all_jobs streams dir catalog).
       copy_part copy_out disk j = Ok (part_of copy_out disk j) \<and> map_of files (cj_rel j) = Some (data_of copy_out disk j)) \<and>
    (\<forall>n. map_of files n \<noteq> None \<longrightarrow> n \<in> cj_rel ` set (all_jobs streams dir catalog)) \<and>
    (\<forall>t \<in> set catalog. boundaries (ct_pages t) streams = Ok (starts_of streams t))"
proof -
  let ?jobs = "all_jobs streams dir catalog" and ?ws = "[0..<max streams 1]"
  obtain plans jobs results where pl: "plan_tables streams dir 0 catalog = Ok (plans, jobs)"
    and jw: "join_workers (copy_worker copy_out disk session sched jobs) ?ws = Ok results"
    and man: "man = \<lparr>sn_lsn0 = lsn0, sn_snapshot = snapshot,
                sn_tables = assemble plans (map (\<lambda>(i, p, _). (i, p)) results)\<rparr>"
    and files: "files = map (\<lambda>(_, p, data). (pm_file p, data)) results"
    using assms(1) by (auto simp: run_parallel_copy_def res_bind_Ok_iff)
  note plan = plan_tables_Ok [OF pl]
  then have jobs: "jobs = ?jobs" and plans: "plans = map table_plan_of catalog" by (simp_all add: all_jobs_def)
  have sch: "length sched = length ?jobs" "set sched \<subseteq> set ?ws"
    using assms(3) by (auto simp: valid_schedule_def list_all_iff)
  have cover: "mset (concat (map (jobs_of sched ?jobs) ?ws)) = mset ?jobs"
    using schedule_covers [OF sch] by simp
  note ran = join_workers_Ok [OF jw, unfolded jobs]
  have res: "mset results = mset (map (part_of copy_out disk) ?jobs)" using ran cover by (metis mset_map)
  have "set (concat (map (jobs_of sched ?jobs) ?ws)) = set ?jobs" using cover by (rule mset_eq_setD)
  then have ok: "\<forall>j \<in> set ?jobs. copy_part copy_out disk j = Ok (part_of copy_out disk j)" using ran by auto
  have b: "\<forall>t \<in> set catalog. boundaries (ct_pages t) streams = Ok (starts_of streams t) \<and> ct_pages t < 2 ^ 31"
    using plan assms(2) by (auto simp: catalog_ok_def list_all_iff)
  note asm = assemble_copied [OF res all_jobs_def ok b]
  let ?entries = "map (\<lambda>j. (cj_rel j, data_of copy_out disk j)) ?jobs"
  have g: "(\<lambda>(_, p, data). (pm_file p, data)) (part_of copy_out disk j) = (cj_rel j, data_of copy_out disk j)"
    if "j \<in> set ?jobs" for j
  proof -
    have "copy_part copy_out disk j = Ok (part_of copy_out disk j)" using ok that by blast
    from copy_part_fields [OF this] show ?thesis by (simp add: data_of_def case_prod_beta)
  qed
  have "mset files = image_mset (\<lambda>(_, p, data). (pm_file p, data)) (mset results)" by (simp add: files)
  also have "\<dots> = mset (map (\<lambda>(_, p, data). (pm_file p, data)) (map (part_of copy_out disk) ?jobs))"
    unfolding res by (simp only: mset_map)
  also have "map (\<lambda>(_, p, data). (pm_file p, data)) (map (part_of copy_out disk) ?jobs) = ?entries" using g by simp
  finally have ent: "mset files = mset ?entries" .
  have "\<forall>t \<in> set catalog. starts_of streams t \<noteq> []" using b boundaries_sorted by blast
  with assms(2) have d: "distinct (map cj_rel ?jobs)"
    unfolding all_jobs_def catalog_ok_def by (intro distinct_files) auto
  have "mset (map fst files) = mset (map fst ?entries)" by (simp only: mset_map ent)
  moreover have "map fst ?entries = map cj_rel ?jobs" by simp
  ultimately have "distinct (map fst files)" using d by (metis mset_eq_imp_distinct_iff)
  moreover have set_files: "set files = set ?entries" using ent by (rule mset_eq_setD)
  ultimately have "map_of files (cj_rel j) = Some (data_of copy_out disk j)" if "j \<in> set ?jobs" for j
    using that by (intro map_of_is_SomeI) auto
  moreover have "n \<in> cj_rel ` set ?jobs" if "map_of files n \<noteq> None" for n
    using that set_files by (auto dest!: map_of_SomeD)
  ultimately show ?thesis using man asm plans ok b by simp
qed

section \<open>Nothing is lost\<close>

text \<open>
  What COPY answers over a table whose rows are \<open>content t\<close>, each with its heap page: a range statement
  the lines of the pages in the range, the full statement all lines in some order.
\<close>

definition as_data :: "bytes list \<Rightarrow> bytes" where
  "as_data ls = concat (map (\<lambda>l. l @ [LF]) ls)"

definition serves ::
    "(rstr \<Rightarrow> bytes list option) \<Rightarrow> (catalog_table \<Rightarrow> content) \<Rightarrow> nat \<Rightarrow> rstr \<Rightarrow> catalog_table list \<Rightarrow> bool" where
  "serves copy_out content streams dir catalog \<longleftrightarrow>
     (\<forall>(i, t) \<in> set (enumerate 0 catalog). \<forall>j \<in> set (jobs_for streams dir (i, t)). \<forall>sql chunks.
        copy_sql j = Ok sql \<and> copy_out sql = Some chunks \<longrightarrow>
        concat chunks = as_data (map snd (rows_in (cj_first j) (cj_end j) (content t))))"

definition serves_full :: "(rstr \<Rightarrow> bytes list option) \<Rightarrow> content \<Rightarrow> table_manifest \<Rightarrow> bool" where
  "serves_full copy_out rows m \<longleftrightarrow>
     (\<exists>sql chunks ls. full_copy_sql m = Ok sql \<and> copy_out sql = Some chunks \<and>
        mset ls = mset (map snd rows) \<and> concat chunks = as_data ls)"

definition lines_ok :: "bytes list \<Rightarrow> bool" where
  "lines_ok ls \<longleftrightarrow> list_all (\<lambda>l. LF \<notin> set l) ls"

lemma split_as_data: "lines_ok ls \<Longrightarrow> split_copy_lines (as_data ls) = ls"
  by (induction ls) (auto simp: split_copy_lines_def as_data_def lines_ok_def split_lines_line)

lemma lines_ok_mset: "mset ls = mset ls' \<Longrightarrow> lines_ok ls = lines_ok ls'"
  by (auto simp: lines_ok_def list_all_iff dest: mset_eq_setD)

lemma count_lf: "lines_ok ls \<Longrightarrow> length (filter (\<lambda>b. b = LF) (as_data ls)) = length ls"
  by (induction ls) (auto simp: as_data_def lines_ok_def filter_empty_conv)

lemma split_lines_ok: "LF \<notin> set cur \<Longrightarrow> lines_ok (split_lines cur data)"
  by (induction cur data rule: split_lines.induct) (auto simp: lines_ok_def)

lemma hash_eq_iff:
  assumes "lines_ok ls" and "lines_ok ls'" and "inj_on sha {as_data (sort ls), as_data (sort ls')}"
  shows "snd (sorted_multiset_hash sha ls) = snd (sorted_multiset_hash sha ls') \<longleftrightarrow> mset ls = mset ls'"
proof -
  have "snd (sorted_multiset_hash sha ls) = snd (sorted_multiset_hash sha ls') \<longleftrightarrow> as_data (sort ls) = as_data (sort ls')"
    unfolding sorted_multiset_hash_def snd_conv as_data_def [symmetric] by (rule inj_on_eq_iff [OF assms(3)]) simp_all
  also have "\<dots> \<longleftrightarrow> sort ls = sort ls'"
  proof
    assume "as_data (sort ls) = as_data (sort ls')"
    then have "split_copy_lines (as_data (sort ls)) = split_copy_lines (as_data (sort ls'))" by simp
    moreover have "lines_ok (sort ls)" "lines_ok (sort ls')" using assms(1,2) lines_ok_mset [OF mset_sort] by blast+
    ultimately show "sort ls = sort ls'" by (simp add: split_as_data)
  qed simp
  also have "\<dots> \<longleftrightarrow> mset ls = mset ls'" by (metis mset_sort sorted_list_of_multiset_mset)
  finally show ?thesis .
qed

lemma part_lines:
  assumes "copy_part copy_out disk j = Ok (part_of copy_out disk j)"
    and "\<forall>sql chunks. copy_sql j = Ok sql \<and> copy_out sql = Some chunks \<longrightarrow> concat chunks = as_data ls"
    and "lines_ok ls"
  shows "split_copy_lines (data_of copy_out disk j) = ls \<and> pm_rows (entry_of copy_out disk j) = word_of_nat (length ls) \<and>
    pm_file (entry_of copy_out disk j) = cj_rel j"
proof -
  obtain sql chunks where "copy_sql j = Ok sql" "copy_out sql = Some chunks"
    and p: "part_of copy_out disk j =
      (cj_table_idx j, \<lparr>pm_file = cj_rel j, pm_rows = word_of_nat (length (filter (\<lambda>b. b = LF) (concat chunks))),
         pm_bytes = word_of_nat (length (concat chunks)), pm_first = cj_first j, pm_end = cj_end j\<rparr>, concat chunks)"
    using assms(1) by (auto simp: copy_part_def res_bind_Ok_iff)
  then have "concat chunks = as_data ls" using assms(2) by blast
  then show ?thesis
    using assms(3) by (simp add: p data_of_def entry_of_def split_as_data count_lf)
qed

lemma lines_ok_rows: "lines_ok (map snd rows) \<Longrightarrow> lines_ok (map snd (rows_in a e rows))"
  by (auto simp: lines_ok_def list_all_iff rows_in_def)

lemma job_ranges:
  assumes "boundaries (ct_pages t) streams = Ok (starts_of streams t)" and "ct_pages t < 2 ^ 31"
  shows "mset (concat (map (\<lambda>j. rows_in (cj_first j) (cj_end j) rows) (jobs_for streams dir (i, t)))) = mset rows"
proof -
  note bs = boundaries_sorted [OF assms]
  have "map (\<lambda>j. rows_in (cj_first j) (cj_end j) rows) (jobs_for streams dir (i, t)) =
      map (\<lambda>(a, e). rows_in a e rows) (map (\<lambda>j. (cj_first j, cj_end j)) (jobs_for streams dir (i, t)))"
    by simp
  also have "\<dots> = map (\<lambda>(a, e). rows_in a e rows) (ranges (starts_of streams t))"
    unfolding jobs_for_def fst_conv snd_conv table_jobs_ranges [OF conjunct1 [OF bs]] ..
  finally show ?thesis using ranges_partition [of "starts_of streams t" rows] bs by simp
qed

text \<open>The staged lines of a table are its rows, whatever pages they are on.\<close>

lemma staged_are_rows:
  assumes "run_parallel_copy copy_out disk session sched streams lsn0 snapshot dir catalog = Ok (man, files)"
    and "catalog_ok catalog" and "valid_schedule streams sched (all_jobs streams dir catalog)"
    and "serves copy_out content streams dir catalog" and "i < length catalog"
    and "lines_ok (map snd (content (catalog ! i)))"
  shows "\<exists>ls. staged_lines files (tm_parts (sn_tables man ! i)) = Ok ls \<and>
      mset ls = mset (map snd (content (catalog ! i))) \<and> tm_rows (sn_tables man ! i) = word_of_nat (length ls)"
proof -
  let ?t = "catalog ! i"
  let ?jobs = "jobs_for streams dir (i, ?t)" and ?ls = "\<lambda>j. map snd (rows_in (cj_first j) (cj_end j) (content ?t))"
  note r = run_Ok [OF assms(1-3)]
  have it: "(i, ?t) \<in> set (enumerate 0 catalog)" using assms(5) by (auto simp: in_set_enumerate_eq)
  then have sub: "set ?jobs \<subseteq> set (all_jobs streams dir catalog)" by (auto simp: all_jobs_def)
  have job: "split_copy_lines (data_of copy_out disk j) = ?ls j \<and> pm_rows (entry_of copy_out disk j) = word_of_nat (length (?ls j)) \<and>
      pm_file (entry_of copy_out disk j) = cj_rel j \<and> map_of files (cj_rel j) = Some (data_of copy_out disk j)"
    if j: "j \<in> set ?jobs" for j
  proof -
    have "copy_part copy_out disk j = Ok (part_of copy_out disk j)" "map_of files (cj_rel j) = Some (data_of copy_out disk j)"
      using r sub j by blast+
    moreover have "\<forall>sql chunks. copy_sql j = Ok sql \<and> copy_out sql = Some chunks \<longrightarrow> concat chunks = as_data (?ls j)"
      using assms(4) it j unfolding serves_def by blast
    ultimately show ?thesis using part_lines [OF _ _ lines_ok_rows [OF assms(6)]] by blast
  qed
  have m: "sn_tables man ! i = copied copy_out disk streams dir (i, ?t)"
    using r assms(5) by (simp add: nth_enumerate_eq)
  have st: "staged_lines files (map (entry_of copy_out disk) js) = Ok (concat (map ?ls js)) \<and>
      (\<Sum>p\<leftarrow>map (entry_of copy_out disk) js. pm_rows p) = word_of_nat (length (concat (map ?ls js)))"
    if "set js \<subseteq> set ?jobs" for js
    using that by (induction js) (simp_all add: job)
  have "boundaries (ct_pages ?t) streams = Ok (starts_of streams ?t)" "ct_pages ?t < 2 ^ 31"
    using r assms(2,5) by (auto simp: catalog_ok_def list_all_iff)
  note ranges = job_ranges [OF this, of "content ?t" dir i]
  have "concat (map ?ls ?jobs) = map snd (concat (map (\<lambda>j. rows_in (cj_first j) (cj_end j) (content ?t)) ?jobs))"
    by (simp add: map_concat comp_def)
  then have "mset (concat (map ?ls ?jobs)) = mset (map snd (content ?t))"
    by (simp only: mset_map ranges)
  then show ?thesis using st [OF subset_refl] by (simp add: m copied_def Let_def)
qed

section \<open>A concrete load\<close>

text \<open>Two streams over a table whose statistics say one page and whose rows are on pages 0 and 3.\<close>

definition demo_table :: catalog_table where
  "demo_table =
     \<lparr>ct_schema = str ''app'', ct_name = str ''t'', ct_pages = 1, ct_columns = [(str ''n'', 23)],
      ct_identity = [], ct_primary = [str ''n'']\<rparr>"

definition demo_content :: "catalog_table \<Rightarrow> content" where
  "demo_content t = [(0, str ''7''), (3, str ''8'')]"

definition demo_copy_out :: "rstr \<Rightarrow> bytes list option" where
  "demo_copy_out sql =
     (if sql = str ''COPY (SELECT \"n\" FROM \"app\".\"t\" WHERE ctid >= '(0,0)'::tid AND ctid < '(1,0)'::tid) TO STDOUT''
      then Some [str ''7'', [LF]]
      else if sql = str ''COPY (SELECT \"n\" FROM \"app\".\"t\" WHERE ctid >= '(1,0)'::tid) TO STDOUT''
      then Some [str ''8'' @ [LF]]
      else if sql = str ''COPY (SELECT \"n\" FROM \"app\".\"t\") TO STDOUT'' then Some [str ''8'' @ LF # str ''7'' @ [LF]]
      else None)"

lemma demo_starts: "boundaries 1 2 = Ok [0, 1]"
  by (simp add: boundaries_def page_starts.simps Let_def word_less_nat_alt max_def)

definition demo_dir :: rstr where "demo_dir = str ''d''"

definition demo_j0 :: copy_job where
  "demo_j0 = make_job 0 (str ''app.t'') (str ''\"n\"'') 0 (Some 1) 0 demo_dir (str ''app.t'')"

definition demo_j1 :: copy_job where
  "demo_j1 = make_job 0 (str ''app.t'') (str ''\"n\"'') 1 None 1 demo_dir (str ''app.t'')"

lemma demo_jobs:
  "all_jobs 2 demo_dir [demo_table] =
     [demo_j0,
      demo_j1]"
  by (simp add: all_jobs_def jobs_for_def starts_of_def demo_table_def demo_j0_def demo_j1_def demo_starts table_jobs_def Let_def
      table_name_def select_cols_def quote_ident_def double_byte_def)

lemma demo_copy_sql:
  "copy_sql demo_j0 =
     Ok (str ''COPY (SELECT \"n\" FROM \"app\".\"t\" WHERE ctid >= '(0,0)'::tid AND ctid < '(1,0)'::tid) TO STDOUT'')"
  "copy_sql demo_j1 =
     Ok (str ''COPY (SELECT \"n\" FROM \"app\".\"t\" WHERE ctid >= '(1,0)'::tid) TO STDOUT'')"
  by (simp_all add: copy_sql_def demo_j0_def demo_j1_def make_job_def Let_def range_pred_def quote_ident_def double_byte_def show_nat.simps digit_of_def)

lemma demo_answers:
  "demo_copy_out (str ''COPY (SELECT \"n\" FROM \"app\".\"t\" WHERE ctid >= '(0,0)'::tid AND ctid < '(1,0)'::tid) TO STDOUT'') = Some [str ''7'', [LF]]"
  "demo_copy_out (str ''COPY (SELECT \"n\" FROM \"app\".\"t\" WHERE ctid >= '(1,0)'::tid) TO STDOUT'') = Some [str ''8'' @ [LF]]"
  "demo_copy_out (str ''COPY (SELECT \"n\" FROM \"app\".\"t\") TO STDOUT'') = Some [str ''8'' @ LF # str ''7'' @ [LF]]"
  by (simp_all add: demo_copy_out_def)

lemma demo_parts:
  "\<exists>r. copy_part demo_copy_out (\<lambda>_. True) demo_j0 = Ok r"
  "\<exists>r. copy_part demo_copy_out (\<lambda>_. True) demo_j1 = Ok r"
  by (simp_all only: copy_part_def demo_copy_sql demo_answers res_bind_simps need_simps ensure_simps count_chunks_eq
      Let_def prod.case sum.inject ex_simps simp_thms)

lemma demo_catalog:
  "catalog_ok [demo_table]" "valid_schedule 2 [1, 0] (all_jobs 2 demo_dir [demo_table])"
  "valid_schedule 2 [0, 0] (all_jobs 2 demo_dir [demo_table])"
  by (simp_all add: catalog_ok_def valid_schedule_def demo_jobs) (simp add: demo_table_def)

lemma demo_plan:
  "plan_tables 2 demo_dir 0 [demo_table] = Ok ([table_plan_of demo_table], all_jobs 2 demo_dir [demo_table])"
proof -
  have "boundaries (ct_pages demo_table) 2 = Ok [0, 1]" using demo_starts by (simp add: demo_table_def)
  moreover have "ct_columns demo_table \<noteq> []" by (simp add: demo_table_def)
  ultimately show ?thesis by (simp add: all_jobs_def jobs_for_def starts_of_def)
qed

lemma demo_run:
  assumes "sched = [1, 0] \<or> sched = [0, 0]"
  shows "\<exists>man files. run_parallel_copy demo_copy_out (\<lambda>_. True) (\<lambda>_. True) sched 2 (str ''0/1'') (str ''s'') demo_dir [demo_table] = Ok (man, files)"
proof -
  obtain r q where "copy_part demo_copy_out (\<lambda>_. True) demo_j0 = Ok r"
    "copy_part demo_copy_out (\<lambda>_. True) demo_j1 = Ok q"
    using demo_parts by blast
  then obtain results where jw: "join_workers (copy_worker demo_copy_out (\<lambda>_. True) (\<lambda>_. True) sched (all_jobs 2 demo_dir [demo_table])) [0..<max 2 1] = Ok results"
    using assms by (auto simp: demo_jobs copy_worker_def jobs_of_def upt_rec)
  show ?thesis
    unfolding run_parallel_copy_def demo_plan res_bind_simps prod.case jw by (simp add: ensure_def)
qed

text \<open>
  The load does not depend on the scheduling of its workers: two runs over the same catalog and the
  same server answers give the same manifest and the same file contents, whichever worker took which job.
\<close>
theorem load_ignores_schedule:
  assumes "run_parallel_copy copy_out disk session sched streams lsn0 snapshot dir catalog = Ok (man, files)"
    and "run_parallel_copy copy_out disk session' sched' streams lsn0 snapshot dir catalog = Ok (man', files')"
    and "catalog_ok catalog" and "valid_schedule streams sched (all_jobs streams dir catalog)"
    and "valid_schedule streams sched' (all_jobs streams dir catalog)"
  shows "man = man' \<and> map_of files = map_of files'"
proof -
  note r = run_Ok [OF assms(1,3,4)] and r' = run_Ok [OF assms(2,3,5)]
  have "map_of files n = map_of files' n" for n
  proof (cases "n \<in> cj_rel ` set (all_jobs streams dir catalog)")
    case True
    then show ?thesis using r r' by auto
  next
    case False
    then have "map_of files n = None" "map_of files' n = None" using r r' by blast+
    then show ?thesis by simp
  qed
  then show ?thesis using r r' by auto
qed

theorem load_ignores_schedule_witness:
  "\<exists>man files files'.
     run_parallel_copy demo_copy_out (\<lambda>_. True) (\<lambda>_. True) [1, 0] 2 (str ''0/1'') (str ''s'') demo_dir [demo_table] = Ok (man, files) \<and>
     run_parallel_copy demo_copy_out (\<lambda>_. True) (\<lambda>_. True) [0, 0] 2 (str ''0/1'') (str ''s'') demo_dir [demo_table] = Ok (man, files') \<and>
     map_of files = map_of files'"
  using load_ignores_schedule [OF _ _ demo_catalog] demo_run [of "[1, 0]"] demo_run [of "[0, 0]"] by fast

text \<open>
  The text of a COPY statement over the columns of a table, the pages from \<open>a\<close> on or from \<open>a\<close> up to \<open>b\<close>.
\<close>

definition copy_text :: "rstr \<Rightarrow> rstr \<Rightarrow> rstr list \<Rightarrow> (u32 \<times> u32 option) option \<Rightarrow> rstr" where
  "copy_text schema name cols pages =
     str ''COPY (SELECT '' @ join_with (str '', '') (map quote_ident cols) @ str '' FROM '' @ quote_ident schema @ 46 # quote_ident name @
     (case pages of
        None \<Rightarrow> []
      | Some (a, b) \<Rightarrow>
          str '' WHERE ctid >= '('' @ show_nat 10 (unat a) @ str '',0)'::tid'' @
          (case b of None \<Rightarrow> [] | Some e \<Rightarrow> str '' AND ctid < '('' @ show_nat 10 (unat e) @ str '',0)'::tid'')) @
     str '') TO STDOUT''"

definition table_text :: "catalog_table \<Rightarrow> (u32 \<times> u32 option) option \<Rightarrow> rstr" where
  "table_text t = copy_text (ct_schema t) (ct_name t) (map fst (ct_columns t))"

text \<open>
  PostgreSQL over tables whose rows are \<open>content t\<close>, each with its heap page: the answer depends on the text of the
  statement alone. A statement over a range of pages streams the lines of the rows on those pages, one over the
  whole table all lines in some order. Of other statements nothing is known.
\<close>

definition answers :: "(rstr \<Rightarrow> bytes list option) \<Rightarrow> (catalog_table \<Rightarrow> content) \<Rightarrow> catalog_table list \<Rightarrow> bool" where
  "answers copy_out content catalog \<longleftrightarrow>
     (\<forall>t \<in> set catalog.
        (\<forall>a b chunks. copy_out (table_text t (Some (a, b))) = Some chunks \<longrightarrow> concat chunks = as_data (map snd (rows_in a b (content t)))) \<and>
        (\<exists>chunks ls. copy_out (table_text t None) = Some chunks \<and> mset ls = mset (map snd (content t)) \<and> concat chunks = as_data ls))"

lemma copy_sql_text:
  assumes "46 \<notin> set (ct_schema t)" and "j \<in> set (jobs_for streams dir (i, t))"
  shows "copy_sql j = Ok (table_text t (Some (cj_first j, cj_end j)))"
proof -
  have "cj_table j = table_name t \<and> cj_select j = select_cols (map fst (ct_columns t))"
    using assms(2) by (auto simp: jobs_for_def table_jobs_def make_job_def Let_def)
  then show ?thesis
    using split_once_append [OF assms(1), of "ct_name t"]
    by (simp add: copy_sql_def table_name_def table_text_def copy_text_def range_pred_def select_cols_def split: option.split)
qed

lemma answers_serve:
  assumes "answers copy_out content catalog" and "list_all (\<lambda>t. 46 \<notin> set (ct_schema t)) catalog"
  shows "serves copy_out content streams dir catalog"
  unfolding serves_def
proof clarify
  fix i t j sql chunks
  assume t: "(i, t) \<in> set (enumerate 0 catalog)" and j: "j \<in> set (jobs_for streams dir (i, t))"
    and c: "copy_sql j = Ok sql" "copy_out sql = Some chunks"
  have t: "t \<in> set catalog" using t by (auto simp: in_set_enumerate_eq)
  then have "sql = table_text t (Some (cj_first j, cj_end j))"
    using copy_sql_text [OF _ j] c(1) assms(2) by (auto simp: list_all_iff)
  then show "concat chunks = as_data (map snd (rows_in (cj_first j) (cj_end j) (content t)))"
    using assms(1) t c(2) unfolding answers_def by blast
qed

lemma answers_full:
  assumes "answers copy_out content catalog" and "t \<in> set catalog" and "46 \<notin> set (ct_schema t)"
    and "tm_table m = table_name t" and "tm_columns m = map fst (ct_columns t)"
  shows "serves_full copy_out (content t) m"
proof -
  have "full_copy_sql m = Ok (table_text t None)"
    using split_once_append [OF assms(3), of "ct_name t"]
    by (simp add: full_copy_sql_def assms(4,5) table_name_def table_text_def copy_text_def select_cols_def)
  then show ?thesis using assms(1,2) by (auto simp: serves_full_def answers_def)
qed

text \<open>
  C12. The initial load loses and duplicates nothing. Let PostgreSQL answer each COPY statement by its text, over tables
  of distinct names whose schemas hold no dot and whose lines hold no line feed. After a load that reported
  success, under any scheduling of the workers and any page statistics, stale ones included, the staged lines of
  every table are the lines of its rows, each as often as it occurs, the manifest counts them, and the check of
  the table against the source passes.
\<close>
theorem loaded_tables_pass_check:
  assumes "run_parallel_copy copy_out disk session sched streams lsn0 snapshot dir catalog = Ok (man, files)"
    and "catalog_ok catalog" and "valid_schedule streams sched (all_jobs streams dir catalog)"
    and "answers copy_out content catalog" and "list_all (\<lambda>t. 46 \<notin> set (ct_schema t)) catalog"
    and "i < length catalog" and "lines_ok (map snd (content (catalog ! i)))"
  shows "\<exists>ls c. staged_lines files (tm_parts (sn_tables man ! i)) = Ok ls \<and>
    mset ls = mset (map snd (content (catalog ! i))) \<and> tm_rows (sn_tables man ! i) = word_of_nat (length ls) \<and>
    check_table sha copy_out files (sn_tables man ! i) = Ok c \<and> tk_pass c"
proof -
  let ?m = "sn_tables man ! i" and ?t = "catalog ! i"
  obtain ls where st: "staged_lines files (tm_parts ?m) = Ok ls" and ms: "mset ls = mset (map snd (content ?t))"
    and rows: "tm_rows ?m = word_of_nat (length ls)"
    using staged_are_rows [OF assms(1-3) answers_serve [OF assms(4,5)] assms(6,7)] by blast
  have "?m = copied copy_out disk streams dir (i, ?t)"
    using run_Ok [OF assms(1-3)] assms(6) by (simp add: nth_enumerate_eq)
  then have m: "tm_table ?m = table_name ?t" "tm_columns ?m = map fst (ct_columns ?t)" by (simp_all add: copied_def Let_def)
  have "46 \<notin> set (ct_schema ?t)" using assms(5,6) by (simp add: list_all_length)
  from answers_full [OF assms(4) nth_mem [OF assms(6)] this m] obtain sql chunks src where
    sql: "full_copy_sql ?m = Ok sql" "copy_out sql = Some chunks"
    and src: "mset src = mset (map snd (content ?t))" "concat chunks = as_data src"
    by (auto simp: serves_full_def)
  have "lines_ok src" using lines_ok_mset [OF src(1)] assms(7) by simp
  moreover have "sort src = sort ls" "length src = length ls"
    using ms src(1) by (metis sorted_list_of_multiset_mset, metis size_mset)
  ultimately have "\<exists>c. check_table sha copy_out files ?m = Ok c \<and> tk_pass c"
    by (simp add: check_table_def sql st src(2) split_as_data sorted_multiset_hash_def rows)
  then show ?thesis using st ms rows by blast
qed

text \<open>The text of a statement says which rows it reads, so a function of the text can answer it.\<close>

lemma comma_free: "44 \<notin> set (show_nat 10 k)"
  using show_nat_digits [of 10 k] by (auto simp: word_le_nat_alt)

lemma show_nat_eq: "show_nat 10 m = show_nat 10 n \<longleftrightarrow> m = n"
proof
  assume "show_nat 10 m = show_nat 10 n"
  then have "parse_digits 10 0 (show_nat 10 m) = parse_digits 10 0 (show_nat 10 n)" by (rule arg_cong)
  then show "m = n" by (simp only: parse_show_nat rel_simps option.inject)
qed (simp only:)

lemma digits_then_comma:
  assumes "show_nat 10 m @ 44 # r = show_nat 10 n @ 44 # s"
  shows "m = n \<and> r = s"
proof -
  have "split_once 44 (show_nat 10 m @ 44 # r) = split_once 44 (show_nat 10 n @ 44 # s)" using assms by simp
  then show ?thesis by (simp only: split_once_append [OF comma_free] option.inject prod.inject show_nat_eq)
qed

lemma digits_no_comma:
  "show_nat 10 m @ 44 # r \<noteq> show_nat 10 n" "show_nat 10 n \<noteq> show_nat 10 m @ 44 # r"
  using comma_free [of n] by (metis in_set_conv_decomp)+

lemma table_text_inj: "table_text t x = table_text t y \<Longrightarrow> x = y"
proof -
  let ?q = "\<lambda>x. case x of None \<Rightarrow> [] | Some (a :: u32, b) \<Rightarrow>
          str '' WHERE ctid >= '('' @ show_nat 10 (unat a) @ str '',0)'::tid'' @
          (case b of None \<Rightarrow> [] | Some (e :: u32) \<Rightarrow> str '' AND ctid < '('' @ show_nat 10 (unat e) @ str '',0)'::tid'')"
  assume "table_text t x = table_text t y"
  then have "?q x = ?q y" unfolding table_text_def copy_text_def by (simp only: append_assoc same_append_eq append_same_eq append_Cons list.inject simp_thms)
  then show "x = y"
    by (auto simp: word_unat_eq_iff show_nat_eq digits_no_comma split: option.splits prod.splits dest!: digits_then_comma)
qed


lemma demo_text:
  "table_text demo_table (Some (0, Some 1)) =
     str ''COPY (SELECT \"n\" FROM \"app\".\"t\" WHERE ctid >= '(0,0)'::tid AND ctid < '(1,0)'::tid) TO STDOUT''"
  "table_text demo_table (Some (1, None)) =
     str ''COPY (SELECT \"n\" FROM \"app\".\"t\" WHERE ctid >= '(1,0)'::tid) TO STDOUT''"
  "table_text demo_table None = str ''COPY (SELECT \"n\" FROM \"app\".\"t\") TO STDOUT''"
  by (simp_all add: table_text_def copy_text_def demo_table_def quote_ident_def double_byte_def show_nat.simps digit_of_def)

lemma demo_answers_text: "answers demo_copy_out demo_content [demo_table]"
proof -
  have d: "demo_copy_out sql =
     (if sql = table_text demo_table (Some (0, Some 1)) then Some [str ''7'', [LF]]
      else if sql = table_text demo_table (Some (1, None)) then Some [str ''8'' @ [LF]]
      else if sql = table_text demo_table None then Some [str ''8'' @ LF # str ''7'' @ [LF]]
      else None)" for sql
    unfolding demo_copy_out_def demo_text ..
  have "concat chunks = as_data (map snd (rows_in a b (demo_content demo_table)))"
    if "demo_copy_out (table_text demo_table (Some (a, b))) = Some chunks" for a b chunks
    using that by (auto simp: d as_data_def demo_content_def rows_in_def dest!: table_text_inj split: if_splits)
  moreover have "demo_copy_out (table_text demo_table None) = Some [str ''8'' @ LF # str ''7'' @ [LF]]"
    by (auto simp: d dest!: table_text_inj)
  moreover have "mset [str ''8'', str ''7''] = mset (map snd (demo_content demo_table))"
    "concat [str ''8'' @ LF # str ''7'' @ [LF]] = as_data [str ''8'', str ''7'']"
    by (simp_all add: demo_content_def as_data_def)
  ultimately show ?thesis unfolding answers_def by (metis (no_types, lifting) empty_iff insert_iff list.set(1) list.set(2))
qed

theorem loaded_tables_pass_check_witness:
  "\<exists>man files ls c.
     run_parallel_copy demo_copy_out (\<lambda>_. True) (\<lambda>_. True) [1, 0] 2 (str ''0/1'') (str ''s'') demo_dir [demo_table] = Ok (man, files) \<and>
     staged_lines files (tm_parts (sn_tables man ! 0)) = Ok ls \<and> mset ls = {#str ''7'', str ''8''#} \<and>
     check_table (\<lambda>b. b) demo_copy_out files (sn_tables man ! 0) = Ok c \<and> tk_pass c"
proof -
  obtain man files where run: "run_parallel_copy demo_copy_out (\<lambda>_. True) (\<lambda>_. True) [1, 0] 2 (str ''0/1'') (str ''s'')
      demo_dir [demo_table] = Ok (man, files)"
    using demo_run by blast
  have "list_all (\<lambda>t. 46 \<notin> set (ct_schema t)) [demo_table]" "0 < length [demo_table]"
      "lines_ok (map snd (demo_content ([demo_table] ! 0)))" by (simp_all add: demo_table_def demo_content_def lines_ok_def)
  from loaded_tables_pass_check [OF run demo_catalog(1,2) demo_answers_text this, of "\<lambda>b. b"] run show ?thesis
    by (simp add: demo_content_def) blast
qed

text \<open>
  The check is exact: when SHA-256 does not collide on the two sorted streams, a table passes if and
  only if the source lines and the staged lines are the same multiset and the manifest counts them right.
\<close>
theorem check_passes_iff_same_rows:
  assumes "check_table sha copy_out files m = Ok c"
    and "full_copy_sql m = Ok sql" and "copy_out sql = Some chunks" and "staged_lines files (tm_parts m) = Ok ls"
    and "inj_on sha {as_data (sort (split_copy_lines (concat chunks))), as_data (sort ls)}"
  shows "tk_pass c \<longleftrightarrow> mset (split_copy_lines (concat chunks)) = mset ls \<and> tm_rows m = word_of_nat (length ls)"
proof -
  have ok: "lines_ok (split_copy_lines d)" for d using split_lines_ok [of "[]"] by (simp add: split_copy_lines_def)
  have "staged_lines files ps = Ok xs \<Longrightarrow> lines_ok xs" for ps xs
    by (induction ps arbitrary: xs) (use ok in \<open>auto simp: res_bind_Ok_iff lines_ok_def\<close>)
  from hash_eq_iff [OF ok this [OF assms(4)] assms(5)]
  have "tk_pass c \<longleftrightarrow> mset (split_copy_lines (concat chunks)) = mset ls \<and>
      word_of_nat (length (split_copy_lines (concat chunks))) = (word_of_nat (length ls) :: u64) \<and> word_of_nat (length ls) = tm_rows m"
    using assms(1-4) by (auto simp: check_table_def sorted_multiset_hash_def)
  then show ?thesis by (metis size_mset)
qed

theorem check_passes_iff_same_rows_witness:
  "\<exists>c. check_table (\<lambda>b. b) demo_copy_out [(str ''f'', [56, LF])]
      \<lparr>tm_table = str ''app.t'', tm_columns = [str ''n''], tm_oids = [23], tm_keys = [], tm_rows = 1, tm_bytes = 2,
       tm_parts = [\<lparr>pm_file = str ''f'', pm_rows = 1, pm_bytes = 2, pm_first = 0, pm_end = None\<rparr>]\<rparr> = Ok c \<and> \<not> tk_pass c"
proof -
  define m :: table_manifest where "m =
      \<lparr>tm_table = str ''app.t'', tm_columns = [str ''n''], tm_oids = [23], tm_keys = [], tm_rows = 1, tm_bytes = 2,
       tm_parts = [\<lparr>pm_file = str ''f'', pm_rows = 1, pm_bytes = 2, pm_first = 0, pm_end = None\<rparr>]\<rparr>"
  have sql: "full_copy_sql m = Ok (str ''COPY (SELECT \"n\" FROM \"app\".\"t\") TO STDOUT'')"
    by (simp add: m_def full_copy_sql_def select_cols_def quote_ident_def double_byte_def)
  have st: "staged_lines [(str ''f'', [56, LF])] (tm_parts m) = Ok [[56]]"
    by (simp add: m_def split_copy_lines_def)
  obtain c where c: "check_table (\<lambda>b. b) demo_copy_out [(str ''f'', [56, LF])] m = Ok c"
    unfolding check_table_def sql res_bind_simps demo_answers need_simps st Let_def by (simp add: sorted_multiset_hash_def)
  have "mset (split_copy_lines (concat [str ''8'' @ LF # str ''7'' @ [LF]])) \<noteq> mset [[56]]"
    by (simp add: split_copy_lines_def)
  then show ?thesis
    using check_passes_iff_same_rows [OF c sql demo_answers(3) st] c by (simp add: m_def)
qed

text \<open>
  A schema whose name holds a dot is split in the wrong place: the statement reads another table.
\<close>

lemma dotted_schema_copies_other_table:
  assumes "46 \<notin> set a" and "cj_table j = (a @ 46 # b) @ 46 # name"
  shows "copy_sql j =
    Ok (str ''COPY (SELECT '' @ cj_select j @ str '' FROM '' @ quote_ident a @ 46 # quote_ident (b @ 46 # name)
        @ str '' '' @ range_pred j @ str '') TO STDOUT'')"
  using split_once_append [OF assms(1), of "b @ 46 # name"] assms(2) by (simp add: copy_sql_def)

end
