(* ===== verification/Provider.thy ===== *)
theory Provider
  imports ColumnarDisk
begin

text \<open>
  The streaming read path, \<open>crates/graydb-studio/src/provider.rs\<close>: a snapshot of a table pinned to an LSN
  and the iterator that opens its segments one after the other, masks and projects the batches the parquet
  reader yields and ends with the overlay of open rows. The parquet reader is the parameter \<open>parquet\<close>,
  from a segment and the column set to the batches it yields or to a failed open; row offsets, a \<open>u32\<close> in
  the source, are naturals.
\<close>

section \<open>Snapshots and batches\<close>

record table_snapshot =
  sp_name :: rstr
  sp_columns :: "column_spec list"
  sp_segments :: "seg_snapshot list"
  sp_overlay :: "seg_batch option"
  sp_target :: u64
  sp_applied :: u64

datatype out_cell = OData "cell option" | OLsn u64

record rbatch =
  rb_columns :: "out_cell list list"
  rb_rows :: nat

datatype df_error = SegmentOpen nat | SegmentRead nat | LsnColumn

type_synonym parquet = "nat \<Rightarrow> nat list \<Rightarrow> (df_error + rbatch) list option"

text \<open>The columns of a batch by index; \<open>__gdb_lsn\<close> comes after the data columns.\<close>

definition batch_column :: "nat \<Rightarrow> seg_batch \<Rightarrow> nat \<Rightarrow> out_cell list" where
  "batch_column k b i = (if i < k then map OData (sb_columns b ! i) else map OLsn (sb_lsns b))"

definition lsn_index :: "table_snapshot \<Rightarrow> nat" where
  "lsn_index snap = length (sp_columns snap)"

section \<open>The iterator\<close>

record seg_iter =
  si_proj :: "nat list"
  si_read_set :: "nat list"
  si_out :: "nat list"
  si_lsn_pos :: nat
  si_seg :: nat
  si_reader :: "(df_error + rbatch) list option"
  si_deleted :: "nat list"
  si_base :: nat
  si_overlay_done :: bool

fun index_of :: "nat \<Rightarrow> nat list \<Rightarrow> nat" where
  "index_of x [] = 0"
| "index_of x (y # ys) = (if x = y then 0 else Suc (index_of x ys))"

definition seg_iter_new :: "table_snapshot \<Rightarrow> nat list \<Rightarrow> seg_iter" where
  "seg_iter_new snap proj =
     (let lsn = lsn_index snap;
          read_set = remdups_adj (sort (if lsn \<in> set proj then proj else proj @ [lsn]))
      in \<lparr>si_proj = proj, si_read_set = read_set, si_out = map (\<lambda>p. index_of p read_set) proj,
          si_lsn_pos = index_of lsn read_set, si_seg = 0, si_reader = None, si_deleted = [], si_base = 0,
          si_overlay_done = False\<rparr>)"

function open_next_segment ::
    "parquet \<Rightarrow> table_snapshot \<Rightarrow> seg_iter \<Rightarrow> (df_error + bool) \<times> seg_iter" where
  "open_next_segment parquet snap it =
     (if si_seg it < length (sp_segments snap)
      then
        (let seg = sp_segments snap ! si_seg it;
             it = it\<lparr>si_seg := si_seg it + 1\<rparr>
         in if sp_target snap < sm_lsn_min (sn_meta seg) then open_next_segment parquet snap it
            else
              (let it = it\<lparr>si_deleted := map fst (filter (\<lambda>(_, d). d \<le> sp_target snap) (sn_deletes seg)), si_base := 0\<rparr>
               in case parquet (sm_id (sn_meta seg)) (si_read_set it) of
                    None \<Rightarrow> (Err (SegmentOpen (sm_id (sn_meta seg))), it)
                  | Some batches \<Rightarrow> (Ok True, it\<lparr>si_reader := Some batches\<rparr>)))
      else (Ok False, it))"
  by pat_completeness auto
termination by (relation "measure (\<lambda>(_, snap, it). length (sp_segments snap) - si_seg it)") auto

declare open_next_segment.simps [simp del]

definition lsn_of :: "out_cell \<Rightarrow> u64" where
  "lsn_of c = (case c of OLsn l \<Rightarrow> l | OData _ \<Rightarrow> 0)"

definition is_lsn :: "out_cell \<Rightarrow> bool" where
  "is_lsn c = (case c of OLsn _ \<Rightarrow> True | OData _ \<Rightarrow> False)"

definition mask_and_project ::
    "table_snapshot \<Rightarrow> rbatch \<Rightarrow> seg_iter \<Rightarrow> (df_error + rbatch option) \<times> seg_iter" where
  "mask_and_project snap batch it =
     (let n = rb_rows batch; lsn_col = rb_columns batch ! si_lsn_pos it in
      if \<not> list_all is_lsn lsn_col then (Err LsnColumn, it)
      else
        (let base = si_base it;
             it = it\<lparr>si_base := base + n\<rparr>;
             rows = filter (\<lambda>i. lsn_of (lsn_col ! i) \<le> sp_target snap \<and> base + i \<notin> set (si_deleted it)) [0..<n]
         in if rows = [] then (Ok None, it)
            else (Ok (Some \<lparr>rb_columns = map (\<lambda>p. map (\<lambda>i. rb_columns batch ! p ! i) rows) (si_out it),
                            rb_rows = length rows\<rparr>), it)))"

definition project_overlay :: "table_snapshot \<Rightarrow> seg_batch \<Rightarrow> seg_iter \<Rightarrow> rbatch" where
  "project_overlay snap b it =
     \<lparr>rb_columns = map (batch_column (lsn_index snap) b) (si_proj it), rb_rows = length (sb_lsns b)\<rparr>"

text \<open>One round of the loop of \<open>next\<close>: an item, the end, or another round.\<close>

datatype round = Yield "df_error + rbatch" | Stop | Again

definition iter_round :: "parquet \<Rightarrow> table_snapshot \<Rightarrow> seg_iter \<Rightarrow> round \<times> seg_iter" where
  "iter_round parquet snap it =
     (case si_reader it of
        Some (r # rs) \<Rightarrow>
          (let it = it\<lparr>si_reader := Some rs\<rparr> in
           case r of
             Inl e \<Rightarrow> (Yield (Err e), it)
           | Inr batch \<Rightarrow>
               (case mask_and_project snap batch it of
                  (Inl e, it) \<Rightarrow> (Yield (Err e), it)
                | (Inr (Some out), it) \<Rightarrow> (Yield (Ok out), it)
                | (Inr None, it) \<Rightarrow> (Again, it)))
      | Some [] \<Rightarrow> (Again, it\<lparr>si_reader := None\<rparr>)
      | None \<Rightarrow>
          (case open_next_segment parquet snap it of
             (Inl e, it) \<Rightarrow> (Yield (Err e), it)
           | (Inr True, it) \<Rightarrow> (Again, it)
           | (Inr False, it) \<Rightarrow>
               if si_overlay_done it then (Stop, it)
               else
                 (let it = it\<lparr>si_overlay_done := True\<rparr> in
                  case sp_overlay snap of
                    Some b \<Rightarrow> if 0 < length (sb_lsns b) then (Yield (Ok (project_overlay snap b it)), it) else (Stop, it)
                  | None \<Rightarrow> (Stop, it))))"

text \<open>Every round but the last makes the rest of the work smaller, so \<open>next\<close> and the stream end.\<close>

definition work_left :: "table_snapshot \<Rightarrow> seg_iter \<Rightarrow> (nat \<times> nat) \<times> nat" where
  "work_left snap it =
     ((length (sp_segments snap) - si_seg it, case si_reader it of None \<Rightarrow> 0 | Some rs \<Rightarrow> Suc (length rs)),
      if si_overlay_done it then 0 else 1)"

definition work_rel :: "(((nat \<times> nat) \<times> nat) \<times> ((nat \<times> nat) \<times> nat)) set" where
  "work_rel = (less_than <*lex*> less_than) <*lex*> less_than"

lemma wf_work: "wf work_rel"
  by (simp add: work_rel_def wf_lex_prod)

lemma open_next_segment_left:
  "open_next_segment parquet snap it = (r, it') \<Longrightarrow> si_reader it = None \<Longrightarrow>
     si_overlay_done it' = si_overlay_done it \<and>
     (if r = Ok False then si_reader it' = None \<and> it' = it\<lparr>si_seg := si_seg it'\<rparr> \<and> length (sp_segments snap) - si_seg it' \<le> length (sp_segments snap) - si_seg it
      else length (sp_segments snap) - si_seg it' < length (sp_segments snap) - si_seg it)"
proof (induction parquet snap it arbitrary: r it' rule: open_next_segment.induct)
  case (1 parquet snap it)
  let ?seg = "sp_segments snap ! si_seg it"
  show ?case
  proof (cases "si_seg it < length (sp_segments snap)")
    case True
    show ?thesis
    proof (cases "sp_target snap < sm_lsn_min (sn_meta ?seg)")
      case pr: True
      have "open_next_segment parquet snap (it\<lparr>si_seg := si_seg it + 1\<rparr>) = (r, it')"
        using "1.prems"(1) True pr by (subst (asm) open_next_segment.simps) (simp add: Let_def)
      from "1.IH" [OF True refl refl pr this] "1.prems"(2) True show ?thesis
        by (auto split: if_splits)
    next
      case False
      then show ?thesis
        using "1.prems" True
        by (subst (asm) open_next_segment.simps) (auto simp: Let_def split: option.splits)
    qed
  next
    case False
    then show ?thesis
      using "1.prems" by (subst (asm) open_next_segment.simps) auto
  qed
qed

lemma mask_frame:
  "mask_and_project snap b it = (r, it') \<Longrightarrow>
     si_reader it' = si_reader it \<and> si_seg it' = si_seg it \<and> si_overlay_done it' = si_overlay_done it"
  by (auto simp: mask_and_project_def Let_def split: if_splits)

lemma round_decreases:
  assumes "iter_round parquet snap it = (r, it')" and "r \<noteq> Stop"
  shows "(work_left snap it', work_left snap it) \<in> work_rel"
proof (cases "si_reader it")
  case None
  obtain o' it1 where o: "open_next_segment parquet snap it = (o', it1)" by (cases "open_next_segment parquet snap it")
  note left = open_next_segment_left [OF o None]
  show ?thesis
    using assms left
    by (auto simp: iter_round_def None o work_rel_def work_left_def Let_def
        split: sum.splits bool.splits option.splits if_splits)
next
  case (Some rs)
  then show ?thesis
    using assms
    by (cases rs) (auto simp: iter_round_def work_rel_def work_left_def Let_def dest!: mask_frame
        split: sum.splits prod.splits option.splits)
qed

function iter_next :: "parquet \<Rightarrow> table_snapshot \<Rightarrow> seg_iter \<Rightarrow> (df_error + rbatch) option \<times> seg_iter" where
  "iter_next parquet snap it =
     (case iter_round parquet snap it of
        (Yield x, it) \<Rightarrow> (Some x, it)
      | (Stop, it) \<Rightarrow> (None, it)
      | (Again, it) \<Rightarrow> iter_next parquet snap it)"
  by pat_completeness auto
termination
  by (relation "inv_image work_rel (\<lambda>(_, snap, it). work_left snap it)")
    (auto intro: wf_work round_decreases [OF sym])

declare iter_next.simps [simp del]

lemma next_decreases:
  "iter_next parquet snap it = (Some x, it') \<Longrightarrow> (work_left snap it', work_left snap it) \<in> work_rel"
proof (induction parquet snap it rule: iter_next.induct)
  case (1 parquet snap it)
  obtain r it1 where r: "iter_round parquet snap it = (r, it1)" by (cases "iter_round parquet snap it")
  have tr: "trans work_rel" by (simp add: work_rel_def trans_lex_prod trans_less_than)
  show ?case
  proof (cases r)
    case (Yield y)
    then show ?thesis using "1.prems" r round_decreases [OF r] by (simp add: iter_next.simps [of parquet snap it])
  next
    case Stop
    then show ?thesis using "1.prems" r by (simp add: iter_next.simps [of parquet snap it])
  next
    case Again
    then have "iter_next parquet snap it1 = (Some x, it')"
      using "1.prems" r by (simp add: iter_next.simps [of parquet snap it])
    with "1.IH" [OF r [symmetric]] Again have "(work_left snap it', work_left snap it1) \<in> work_rel" by simp
    then show ?thesis using transD [OF tr _ round_decreases [OF r]] Again by simp
  qed
qed

text \<open>What a consumer that polls the stream to its end receives.\<close>

function drain_stream :: "parquet \<Rightarrow> table_snapshot \<Rightarrow> seg_iter \<Rightarrow> (df_error + rbatch) list" where
  "drain_stream parquet snap it =
     (case iter_next parquet snap it of (None, _) \<Rightarrow> [] | (Some x, it) \<Rightarrow> x # drain_stream parquet snap it)"
  by pat_completeness auto
termination
  by (relation "inv_image work_rel (\<lambda>(_, snap, it). work_left snap it)")
    (auto intro: wf_work next_decreases [OF sym])

declare drain_stream.simps [simp del]

definition execute_scan :: "parquet \<Rightarrow> table_snapshot \<Rightarrow> nat list \<Rightarrow> (df_error + rbatch) list" where
  "execute_scan parquet snap proj = drain_stream parquet snap (seg_iter_new snap proj)"

definition scan_projection :: "table_snapshot \<Rightarrow> nat list option \<Rightarrow> nat list" where
  "scan_projection snap projection = (case projection of Some p \<Rightarrow> p | None \<Rightarrow> [0..<length (sp_columns snap) + 1])"

text \<open>The snapshot a query takes of a live store.\<close>

definition take_snapshot :: "float_fmt \<Rightarrow> rstr \<Rightarrow> u64 \<Rightarrow> u64 \<Rightarrow> table_store \<Rightarrow> store_error + table_snapshot" where
  "take_snapshot ff name lsn0 lsn s =
     res_bind (open_rows_batch ff lsn s) (\<lambda>overlay.
     Ok \<lparr>sp_name = name, sp_columns = ts_columns s, sp_segments = segments_snapshot s, sp_overlay = overlay,
         sp_target = lsn, sp_applied = max (ts_applied s) lsn0\<rparr>)"

section \<open>What the stream carries\<close>

lemma drain_round:
  "drain_stream parquet snap it =
     (case iter_round parquet snap it of
        (Yield x, it') \<Rightarrow> x # drain_stream parquet snap it'
      | (Stop, _) \<Rightarrow> []
      | (Again, it') \<Rightarrow> drain_stream parquet snap it')"
  by (subst drain_stream.simps, subst iter_next.simps)
    (auto split: round.splits prod.splits simp: drain_stream.simps [of parquet snap])

definition batch_rows :: "rbatch \<Rightarrow> out_cell list list" where
  "batch_rows rb = map (\<lambda>i. map (\<lambda>c. c ! i) (rb_columns rb)) [0..<rb_rows rb]"

text \<open>The parquet file of a segment, cut into batches of any sizes.\<close>

fun slices :: "nat \<Rightarrow> nat list \<Rightarrow> out_cell list list \<Rightarrow> rbatch list" where
  "slices a [] cols = []"
| "slices a (l # ls) cols =
     \<lparr>rb_columns = map (\<lambda>c. map (\<lambda>i. c ! (a + i)) [0..<l]) cols, rb_rows = l\<rparr> # slices (a + l) ls cols"

definition reads_files :: "parquet \<Rightarrow> (nat \<times> seg_batch) list \<Rightarrow> nat \<Rightarrow> bool" where
  "reads_files parquet files k \<longleftrightarrow>
     (\<forall>i b cols. map_of files i = Some b \<longrightarrow> (\<exists>ls. sum_list ls = length (sb_lsns b) \<and>
        parquet i cols = Some (map Ok (slices 0 ls (map (batch_column k b) cols)))))"

lemma filter_shift: "filter P [a..<a + l] = map (\<lambda>i. a + i) (filter (\<lambda>i. P (a + i)) [0..<l])"
  by (induction l) auto

lemma drain_reader:
  assumes "si_reader it = Some (map Ok (slices a ls cols))" and "si_base it = a"
    and "\<forall>p \<in> set (si_out it). p < length cols" and "si_lsn_pos it < length cols"
    and "cols ! si_lsn_pos it = map OLsn lsns" and "a + sum_list ls \<le> length lsns"
  shows "\<exists>bs. drain_stream parquet snap it =
      map Ok bs @ drain_stream parquet snap (it\<lparr>si_reader := None, si_base := a + sum_list ls\<rparr>) \<and>
    concat (map batch_rows bs) =
      map (\<lambda>i. map (\<lambda>p. cols ! p ! i) (si_out it))
        (filter (\<lambda>i. lsns ! i \<le> sp_target snap \<and> i \<notin> set (si_deleted it)) [a..<a + sum_list ls])"
  using assms
proof (induction ls arbitrary: a it)
  case Nil
  then have "iter_round parquet snap it = (Again, it\<lparr>si_reader := None\<rparr>)" by (simp add: iter_round_def)
  moreover have "it\<lparr>si_reader := None, si_base := a\<rparr> = it\<lparr>si_reader := None\<rparr>" using Nil.prems(2) by simp
  ultimately show ?case by (intro exI [of _ "[]"]) (simp add: drain_round [of parquet snap it])
next
  case (Cons l ls)
  let ?rd = "Some (map Ok (slices (a + l) ls cols)) :: (df_error + rbatch) list option"
  let ?it = "it\<lparr>si_reader := ?rd, si_base := a + l\<rparr>"
  let ?b = "\<lparr>rb_columns = map (\<lambda>c. map (\<lambda>i. c ! (a + i)) [0..<l]) cols, rb_rows = l\<rparr>"
  let ?P = "\<lambda>i. lsns ! i \<le> sp_target snap \<and> i \<notin> set (si_deleted it)"
  let ?rows = "filter (\<lambda>i. ?P (a + i)) [0..<l]"
  let ?out = "\<lparr>rb_columns = map (\<lambda>p. map (\<lambda>i. rb_columns ?b ! p ! i) ?rows) (si_out it), rb_rows = length ?rows\<rparr>"
  have lc: "rb_columns ?b ! si_lsn_pos it = map (\<lambda>i. OLsn (lsns ! (a + i))) [0..<l]"
    using Cons.prems(4-6) by (auto intro!: nth_equalityI)
  have rows: "filter (\<lambda>i. lsn_of (rb_columns ?b ! si_lsn_pos it ! i) \<le> sp_target snap \<and> a + i \<notin> set (si_deleted it)) [0..<l] = ?rows"
    unfolding lc by (intro filter_cong) (auto simp: lsn_of_def)
  have mask: "mask_and_project snap ?b (it\<lparr>si_reader := ?rd\<rparr>) = (Ok (if ?rows = [] then None else Some ?out), ?it)"
  proof -
    have "list_all is_lsn (rb_columns ?b ! si_lsn_pos it)" unfolding lc by (simp add: list_all_iff is_lsn_def)
    then show ?thesis
      unfolding mask_and_project_def Let_def using Cons.prems(2) rows by simp
  qed
  have out_rows: "batch_rows ?out = map (\<lambda>i. map (\<lambda>p. cols ! p ! i) (si_out it)) (filter ?P [a..<a + l])"
  proof -
    have "?rows ! j < l" if "j < length ?rows" for j using nth_mem [OF that] by auto
    then show ?thesis
      using Cons.prems(3) unfolding filter_shift [of ?P] by (auto simp: batch_rows_def intro!: nth_equalityI)
  qed
  have "\<exists>bs. drain_stream parquet snap ?it =
      map Ok bs @ drain_stream parquet snap (?it\<lparr>si_reader := None, si_base := (a + l) + sum_list ls\<rparr>) \<and>
    concat (map batch_rows bs) =
      map (\<lambda>i. map (\<lambda>p. cols ! p ! i) (si_out ?it))
        (filter (\<lambda>i. lsns ! i \<le> sp_target snap \<and> i \<notin> set (si_deleted ?it)) [a + l..<(a + l) + sum_list ls])"
    by (rule Cons.IH) (use Cons.prems in simp_all)
  then obtain bs where bs: "drain_stream parquet snap ?it =
      map Ok bs @ drain_stream parquet snap (it\<lparr>si_reader := None, si_base := a + l + sum_list ls\<rparr>)"
    "concat (map batch_rows bs) = map (\<lambda>i. map (\<lambda>p. cols ! p ! i) (si_out it)) (filter ?P [a + l..<a + l + sum_list ls])"
    by auto
  have split: "filter ?P [a..<a + (l + sum_list ls)] = filter ?P [a..<a + l] @ filter ?P [a + l..<a + l + sum_list ls]"
    using arg_cong [OF upt_append_length [of a l "sum_list ls"], of "filter ?P"] by (simp add: add.assoc)
  have round: "iter_round parquet snap it = (if ?rows = [] then (Again, ?it) else (Yield (Ok ?out), ?it))"
    using Cons.prems(1) mask by (simp add: iter_round_def Let_def)
  show ?case
  proof (cases "?rows = []")
    case True
    then have "filter ?P [a..<a + l] = []" unfolding filter_shift [of ?P] by simp
    then show ?thesis
      using True bs round split by (intro exI [of _ bs]) (simp add: drain_round [of parquet snap it] add.assoc)
  next
    case False
    then show ?thesis
      using bs round split out_rows
      by (intro exI [of _ "?out # bs"]) (simp add: drain_round [of parquet snap it] add.assoc)
  qed
qed
text \<open>The rows a segment contributes, as row numbers of its batch.\<close>

definition seg_hits :: "table_snapshot \<Rightarrow> (nat \<times> seg_batch) list \<Rightarrow> seg_snapshot \<Rightarrow> (seg_batch \<times> nat) list" where
  "seg_hits snap files m =
     (if sp_target snap < sm_lsn_min (sn_meta m) then []
      else (let b = the (map_of files (sm_id (sn_meta m))) in
        map (\<lambda>i. (b, i))
          (filter (\<lambda>i. sb_lsns b ! i \<le> sp_target snap \<and> i \<notin> set (map fst (filter (\<lambda>(_, d). d \<le> sp_target snap) (sn_deletes m))))
             [0..<length (sb_lsns b)])))"

definition overlay_hits :: "table_snapshot \<Rightarrow> (seg_batch \<times> nat) list" where
  "overlay_hits snap = (case sp_overlay snap of None \<Rightarrow> [] | Some b \<Rightarrow> map (\<lambda>i. (b, i)) [0..<length (sb_lsns b)])"

definition hit_row :: "nat \<Rightarrow> nat list \<Rightarrow> seg_batch \<times> nat \<Rightarrow> out_cell list" where
  "hit_row k proj h = map (\<lambda>p. batch_column k (fst h) p ! snd h) proj"

lemma index_of_nth: "x \<in> set xs \<Longrightarrow> index_of x xs < length xs \<and> xs ! index_of x xs = x"
  by (induction xs) auto

definition iter_for :: "table_snapshot \<Rightarrow> nat list \<Rightarrow> seg_iter \<Rightarrow> bool" where
  "iter_for snap proj it \<longleftrightarrow> si_proj it = proj \<and> set proj \<subseteq> set (si_read_set it) \<and> lsn_index snap \<in> set (si_read_set it) \<and>
     si_out it = map (\<lambda>p. index_of p (si_read_set it)) proj \<and> si_lsn_pos it = index_of (lsn_index snap) (si_read_set it)"

lemma iter_for_new: "iter_for snap proj (seg_iter_new snap proj)"
  by (auto simp: iter_for_def seg_iter_new_def Let_def)

lemma drain_segments:
  assumes "iter_for snap proj it" and "si_reader it = None" and "\<not> si_overlay_done it"
    and "reads_files parquet files (lsn_index snap)"
    and "\<forall>m \<in> set (sp_segments snap). map_of files (sm_id (sn_meta m)) \<noteq> None"
  shows "\<exists>bs. drain_stream parquet snap it = map Ok bs \<and>
    concat (map batch_rows bs) = map (hit_row (lsn_index snap) proj)
      (concat (map (seg_hits snap files) (drop (si_seg it) (sp_segments snap))) @ overlay_hits snap)"
  using assms(1-3)
proof (induction "length (sp_segments snap) - si_seg it" arbitrary: it rule: less_induct)
  case less
  let ?k = "lsn_index snap"
  show ?case
  proof (cases "si_seg it < length (sp_segments snap)")
    case False
    then have o: "open_next_segment parquet snap it = (Ok False, it)" by (subst open_next_segment.simps) simp
    have fin: "iter_round parquet snap (it\<lparr>si_overlay_done := True\<rparr>) = (Stop, it\<lparr>si_overlay_done := True\<rparr>)"
      using False less.prems(2) by (simp add: iter_round_def open_next_segment.simps [of parquet snap "it\<lparr>si_overlay_done := True\<rparr>"])
    have drain0: "drain_stream parquet snap (it\<lparr>si_overlay_done := True\<rparr>) = []"
      by (simp add: drain_round [of parquet snap] fin)
    show ?thesis
    proof (cases "overlay_hits snap = []")
      case True
      then have "fst (iter_round parquet snap it) = Stop"
        using less.prems(2,3) o by (auto simp: iter_round_def overlay_hits_def Let_def split: option.splits)
      then have "drain_stream parquet snap it = []"
        by (cases "iter_round parquet snap it") (simp add: drain_round [of parquet snap it])
      then show ?thesis using True False by (intro exI [of _ "[]"]) simp
    next
      case ov: False
      then obtain b where b: "sp_overlay snap = Some b" "sb_lsns b \<noteq> []"
        by (auto simp: overlay_hits_def split: option.splits)
      let ?out = "project_overlay snap b (it\<lparr>si_overlay_done := True\<rparr>)"
      have "iter_round parquet snap it = (Yield (Ok ?out), it\<lparr>si_overlay_done := True\<rparr>)"
        using less.prems(2,3) o b by (simp add: iter_round_def Let_def)
      then have "drain_stream parquet snap it = map Ok [?out]" using drain0 by (simp add: drain_round [of parquet snap it])
      moreover have "batch_rows ?out = map (hit_row ?k proj) (overlay_hits snap)"
        using less.prems(1) b by (simp add: batch_rows_def project_overlay_def overlay_hits_def hit_row_def iter_for_def comp_def)
      ultimately show ?thesis using False by (intro exI [of _ "[?out]"]) simp
    qed
  next
    case True
    let ?m = "sp_segments snap ! si_seg it" and ?it1 = "it\<lparr>si_seg := si_seg it + 1\<rparr>"
    have drp: "drop (si_seg it) (sp_segments snap) = ?m # drop (si_seg it + 1) (sp_segments snap)"
      using Cons_nth_drop_Suc [OF True] by simp
    show ?thesis
    proof (cases "sp_target snap < sm_lsn_min (sn_meta ?m)")
      case pr: True
      have "open_next_segment parquet snap it = open_next_segment parquet snap ?it1"
        using True pr by (subst open_next_segment.simps) (simp add: Let_def)
      then have "iter_round parquet snap it = iter_round parquet snap ?it1"
        using less.prems(2) by (simp add: iter_round_def)
      then have "drain_stream parquet snap it = drain_stream parquet snap ?it1"
        unfolding drain_round [of parquet snap it] drain_round [of parquet snap ?it1] by simp
      moreover have "\<exists>bs. drain_stream parquet snap ?it1 = map Ok bs \<and>
          concat (map batch_rows bs) = map (hit_row ?k proj)
            (concat (map (seg_hits snap files) (drop (si_seg ?it1) (sp_segments snap))) @ overlay_hits snap)"
        by (rule less.hyps) (use True less.prems in \<open>auto simp: iter_for_def\<close>)
      moreover have "seg_hits snap files ?m = []" using pr by (simp add: seg_hits_def)
      ultimately show ?thesis unfolding drp by simp
    next
      case np: False
      obtain b where b: "map_of files (sm_id (sn_meta ?m)) = Some b" using assms(5) True nth_mem by blast
      let ?dels = "map fst (filter (\<lambda>(_, d). d \<le> sp_target snap) (sn_deletes ?m))"
      let ?cols = "map (batch_column ?k b) (si_read_set it)"
      obtain ls where ls: "sum_list ls = length (sb_lsns b)" "parquet (sm_id (sn_meta ?m)) (si_read_set it) = Some (map Ok (slices 0 ls ?cols))"
        using assms(4) b unfolding reads_files_def by blast
      let ?it2 = "?it1\<lparr>si_deleted := ?dels, si_base := 0, si_reader := Some (map Ok (slices 0 ls ?cols))\<rparr>"
      have "open_next_segment parquet snap it = (Ok True, ?it2)"
        using True np ls(2) by (subst open_next_segment.simps) (simp add: Let_def)
      then have d1: "drain_stream parquet snap it = drain_stream parquet snap ?it2"
        using less.prems(2) by (simp add: drain_round [of parquet snap it] iter_round_def)
      have idx: "index_of p (si_read_set it) < length (si_read_set it) \<and> si_read_set it ! index_of p (si_read_set it) = p"
        if "p \<in> set proj \<or> p = ?k" for p
        using that less.prems(1) index_of_nth [of p "si_read_set it"] unfolding iter_for_def by blast
      have "\<exists>bs. drain_stream parquet snap ?it2 =
          map Ok bs @ drain_stream parquet snap (?it2\<lparr>si_reader := None, si_base := 0 + sum_list ls\<rparr>) \<and>
        concat (map batch_rows bs) = map (\<lambda>i. map (\<lambda>p. ?cols ! p ! i) (si_out ?it2))
            (filter (\<lambda>i. sb_lsns b ! i \<le> sp_target snap \<and> i \<notin> set (si_deleted ?it2)) [0..<0 + sum_list ls])"
        by (rule drain_reader)
          (use less.prems(1) idx ls(1) in \<open>auto simp: iter_for_def batch_column_def\<close>)
      then obtain bs where bs: "drain_stream parquet snap ?it2 =
          map Ok bs @ drain_stream parquet snap (?it2\<lparr>si_reader := None, si_base := length (sb_lsns b)\<rparr>)"
        "concat (map batch_rows bs) = map (\<lambda>i. map (\<lambda>p. ?cols ! p ! i) (si_out it))
            (filter (\<lambda>i. sb_lsns b ! i \<le> sp_target snap \<and> i \<notin> set ?dels) [0..<length (sb_lsns b)])"
        using ls(1) by auto
      have "map (\<lambda>p. ?cols ! p ! i) (si_out it) = hit_row ?k proj (b, i)" for i
        using less.prems(1) idx by (auto simp: iter_for_def hit_row_def)
      then have rows: "concat (map batch_rows bs) = map (hit_row ?k proj) (seg_hits snap files ?m)"
        using bs(2) np b by (simp add: seg_hits_def Let_def comp_def)
      let ?it3 = "?it2\<lparr>si_reader := None, si_base := length (sb_lsns b)\<rparr>"
      have "\<exists>cs. drain_stream parquet snap ?it3 = map Ok cs \<and>
          concat (map batch_rows cs) = map (hit_row ?k proj)
            (concat (map (seg_hits snap files) (drop (si_seg ?it3) (sp_segments snap))) @ overlay_hits snap)"
        by (rule less.hyps) (use True less.prems in \<open>auto simp: iter_for_def\<close>)
      then obtain cs where "drain_stream parquet snap ?it3 = map Ok cs"
          "concat (map batch_rows cs) = map (hit_row ?k proj)
            (concat (map (seg_hits snap files) (drop (si_seg it + 1) (sp_segments snap))) @ overlay_hits snap)"
        by auto
      then show ?thesis
        unfolding drp d1 bs(1) using rows by (intro exI [of _ "bs @ cs"]) simp
    qed
  qed
qed

section \<open>The stream is the scan\<close>

definition batch_shape :: "nat \<Rightarrow> seg_batch \<Rightarrow> bool" where
  "batch_shape k b \<longleftrightarrow> length (sb_columns b) = k \<and> (\<forall>c \<in> set (sb_columns b). length c = length (sb_lsns b))"

definition files_shape :: "table_store \<Rightarrow> bool" where
  "files_shape s \<longleftrightarrow> (\<forall>b \<in> snd ` set (ts_files s). batch_shape (length (ts_columns s)) b)"

lemma build_array_length: "build_array ff name dt rows col = Ok a \<Longrightarrow> length a = length rows"
  by (induction rows arbitrary: a) (auto simp: res_bind_Ok_iff)

lemma build_columns_shape:
  "build_columns ff i cols rows = Ok as \<Longrightarrow> length as = length cols \<and> (\<forall>c \<in> set as. length c = length rows)"
  by (induction cols arbitrary: i as) (auto simp: res_bind_Ok_iff dest: build_array_length)

lemma build_batch_shape: "build_batch ff cols rows = Ok b \<Longrightarrow> batch_shape (length cols) b"
  using build_columns_shape by (fastforce simp: build_batch_def batch_shape_def res_bind_Ok_iff)

lemma insert_files [simp]: "ts_files (insert_row v l s) = ts_files s" "ts_columns (insert_row v l s) = ts_columns s"
  by (simp_all add: insert_row_def Let_def)

lemma mark_files [simp]: "ts_files (mark_deleted p l s) = ts_files s" "ts_columns (mark_deleted p l s) = ts_columns s"
  by (simp_all add: mark_deleted_def Let_def split: option.split)

lemma clear_files [simp]: "ts_files (clear_index l s) = ts_files s" "ts_columns (clear_index l s) = ts_columns s"
proof -
  have "ts_files (fold (\<lambda>(k, p). mark_deleted p l) m s) = ts_files s \<and>
      ts_columns (fold (\<lambda>(k, p). mark_deleted p l) m s) = ts_columns s" for m :: "(bytes \<times> loc) list"
    by (induction m arbitrary: s) auto
  then show "ts_files (clear_index l s) = ts_files s" "ts_columns (clear_index l s) = ts_columns s"
    by (simp_all add: clear_index_def)
qed

lemma values_files: "tuple_to_values ff n p s = (r, s') \<Longrightarrow> ts_files s' = ts_files s \<and> ts_columns s' = ts_columns s"
  by (auto simp: tuple_to_values_def split: if_splits dest!: tuple_values_frame)

lemma apply_core_files:
  assumes "(case tc_op c of OInsert \<Rightarrow> apply_insert ff c s | OUpdate \<Rightarrow> apply_update ff c s
      | ODelete \<Rightarrow> apply_delete c s | OTruncate \<Rightarrow> apply_truncate c s) = (Ok (), s1)"
  shows "ts_files s1 = ts_files s \<and> ts_columns s1 = ts_columns s"
proof (cases "tc_op c")
  case OInsert
  then show ?thesis
    using assms by (auto simp: apply_insert_def st_bind_Ok_iff dest!: values_files)
next
  case OUpdate
  then show ?thesis
    using assms by (auto simp: apply_update_def st_bind_Ok_iff Let_def dest!: values_files split: option.splits)
next
  case ODelete
  then show ?thesis
    using assms by (auto simp: apply_delete_def st_bind_Ok_iff split: option.splits)
next
  case OTruncate
  then show ?thesis using assms by (auto simp: apply_truncate_def st_bind_Ok_iff)
qed

lemma reindex_files: "ts_files (reindex sid i rows s) = ts_files s" "ts_columns (reindex sid i rows s) = ts_columns s"
  using reindex_frame [of sid i rows s] by auto

lemma flush_shape: "flush ff b s = (Ok (), s') \<Longrightarrow> files_shape s \<Longrightarrow> files_shape s' \<and> ts_columns s' = ts_columns s"
  using build_batch_shape
  by (fastforce simp: flush_def st_bind_Ok_iff Let_def files_shape_def idx_put_def reindex_files split: if_splits)

lemma apply_all_shape: "apply_all ff cs s = (Ok (), s') \<Longrightarrow> files_shape s \<Longrightarrow> files_shape s'"
proof (induction cs arbitrary: s)
  case (Cons c cs)
  obtain s1 where s1: "apply_change ff True c s = (Ok (), s1)" and r: "apply_all ff cs s1 = (Ok (), s')"
    using Cons.prems(1) by (auto simp: st_bind_Ok_iff)
  obtain u s2 where s2u: "(case tc_op c of OInsert \<Rightarrow> apply_insert ff c s | OUpdate \<Rightarrow> apply_update ff c s
      | ODelete \<Rightarrow> apply_delete c s | OTruncate \<Rightarrow> apply_truncate c s) = (Ok u, s2)"
    and f: "(let s = s2\<lparr>ts_applied := max (ts_applied s2) (tc_commit_lsn c)\<rparr> in
        if ts_flush_rows s \<le> length (ts_open s) then flush ff True s else (Ok (), s)) = (Ok (), s1)"
    using s1 unfolding apply_change_def st_bind_Ok_iff by blast
  have "u = ()" by simp
  note s2 = s2u [unfolded this]
  have "files_shape (s2\<lparr>ts_applied := max (ts_applied s2) (tc_commit_lsn c)\<rparr>)"
    using apply_core_files [OF s2] Cons.prems(2) by (simp add: files_shape_def)
  then have "files_shape s1" using f flush_shape by (auto simp: Let_def split: if_splits)
  then show ?case using Cons.IH [OF r] by simp
qed simp

definition hit_values :: "float_fmt \<Rightarrow> seg_batch \<times> nat \<Rightarrow> row" where
  "hit_values ff h = render_row ff (fst h) (snd h)"

lemma scan_hits:
  assumes "\<forall>m \<in> set ms. map_of (ts_files s) (sm_id m) \<noteq> None" and "sp_target snap = lsn"
  shows "scan_segments ff lsn ms s = Ok (map (hit_values ff) (concat (map (seg_hits snap (ts_files s))
     (map (\<lambda>m. \<lparr>sn_meta = m, sn_deletes = (case map_of (ts_sidecars s) (sm_id m) of None \<Rightarrow> [] | Some ds \<Rightarrow> ds)\<rparr>) ms))))"
  using assms(1)
proof (induction ms)
  case (Cons m ms)
  obtain b where b: "map_of (ts_files s) (sm_id m) = Some b" using Cons.prems by auto
  let ?ds = "case map_of (ts_sidecars s) (sm_id m) of None \<Rightarrow> [] | Some ds \<Rightarrow> ds"
  have del: "deleted_by (ts_sidecars s) (sm_id m) lsn r \<longleftrightarrow> r \<in> set (map fst (filter (\<lambda>(_, d). d \<le> lsn) ?ds))" for r
    by (force simp: deleted_by_def split: option.splits)
  have "rendered_rows ff (deleted_by (ts_sidecars s) (sm_id m) lsn) lsn b =
      map (hit_values ff) (map (\<lambda>i. (b, i)) (filter (\<lambda>i. sb_lsns b ! i \<le> lsn \<and>
        i \<notin> set (map fst (filter (\<lambda>(_, d). d \<le> lsn) ?ds))) [0..<length (sb_lsns b)]))"
    unfolding rendered_rows_def del by (simp add: comp_def hit_values_def conj_commute)
  then show ?case using Cons b by (simp add: seg_hits_def assms(2))
qed simp

text \<open>What a cell shows as text.\<close>

definition render_out :: "float_fmt \<Rightarrow> out_cell \<Rightarrow> rstr option" where
  "render_out ff c = (case c of OData x \<Rightarrow> map_option (render_cell ff) x | OLsn l \<Rightarrow> Some (show_nat 10 (unat l)))"

lemma render_hit:
  assumes "batch_shape k (fst h)" and "snd h < length (sb_lsns (fst h))" and "set proj \<subseteq> {..<k}"
  shows "map (render_out ff) (hit_row k proj h) = map (\<lambda>p. hit_values ff h ! p) proj"
proof -
  have "render_out ff (batch_column k (fst h) p ! snd h) = hit_values ff h ! p" if "p < k" for p
  proof -
    have "p < length (sb_columns (fst h))" using assms(1) that by (simp add: batch_shape_def)
    moreover from this have "length (sb_columns (fst h) ! p) = length (sb_lsns (fst h))"
      using assms(1) nth_mem by (auto simp: batch_shape_def)
    ultimately show ?thesis
      using that assms(2) by (simp add: batch_column_def render_out_def hit_values_def render_row_def)
  qed
  then show ?thesis using assms(3) by (auto simp: hit_row_def)
qed

lemma snapshot_scan:
  assumes inv: "store_inv ff s" and shape: "files_shape s"
    and reads: "reads_files parquet (ts_files s) (length (ts_columns s))" and proj: "set proj \<subseteq> {..<length (ts_columns s)}"
  shows "\<exists>snap bs rows. take_snapshot ff name lsn0 lsn s = Ok snap \<and> execute_scan parquet snap proj = map Ok bs \<and>
    scan_at ff lsn s = Ok rows \<and>
    map (map (render_out ff)) (concat (map batch_rows bs)) = map (\<lambda>r. map (\<lambda>p. r ! p) proj) rows"
proof -
  let ?k = "length (ts_columns s)" and ?vis = "filter (open_visible lsn) (ts_open s)"
  have phys: "physical_ok ff s" using inv by (simp add: store_inv_def)
  have files: "\<forall>m \<in> set (ts_segments s). map_of (ts_files s) (sm_id m) \<noteq> None"
  proof
    fix m assume "m \<in> set (ts_segments s)"
    then have "sm_id m \<in> set (map sm_id (ts_segments s))" by simp
    moreover have e: "map sm_id (ts_segments s) = [0..<length (ts_segments s)]" using phys by (simp add: physical_ok_def)
    ultimately have "sm_id m < length (ts_segments s)" unfolding e by simp
    then show "map_of (ts_files s) (sm_id m) \<noteq> None" using phys by (simp add: physical_ok_def)
  qed
  have "\<forall>r \<in> set ?vis. canonical ff (ts_columns s) (or_values r)" using phys by (auto simp: physical_ok_def)
  from build_batch_ok [OF this] obtain ob where ob: "build_batch ff (ts_columns s) ?vis = Ok ob"
    "sb_lsns ob = map or_insert ?vis" "\<forall>j < length ?vis. render_row ff ob j = or_values (?vis ! j)" by blast
  define ov where "ov = (if ?vis = [] then None else Some ob)"
  have "open_visible lsn = (\<lambda>r. or_insert r \<le> lsn \<and> \<not> (\<exists>d. or_delete r = Some d \<and> d \<le> lsn))"
    by (auto simp: open_visible_def)
  then have over: "open_rows_batch ff lsn s = Ok ov"
    using ob(1) by (simp add: open_rows_batch_def Let_def ov_def)
  define snap where "snap = \<lparr>sp_name = name, sp_columns = ts_columns s, sp_segments = segments_snapshot s, sp_overlay = ov,
         sp_target = lsn, sp_applied = max (ts_applied s) lsn0\<rparr>"
  have take: "take_snapshot ff name lsn0 lsn s = Ok snap" by (simp add: take_snapshot_def over snap_def)
  have k: "lsn_index snap = ?k" by (simp add: lsn_index_def snap_def)
  have "\<forall>m \<in> set (sp_segments snap). map_of (ts_files s) (sm_id (sn_meta m)) \<noteq> None"
    using files by (auto simp: snap_def segments_snapshot_def)
  moreover have new: "si_reader (seg_iter_new snap proj) = None" "\<not> si_overlay_done (seg_iter_new snap proj)"
      "si_seg (seg_iter_new snap proj) = 0" and segs: "sp_segments snap = segments_snapshot s"
    by (simp_all add: seg_iter_new_def Let_def snap_def)
  ultimately obtain bs where
    bs: "execute_scan parquet snap proj = map Ok bs"
      "concat (map batch_rows bs) = map (hit_row ?k proj)
        (concat (map (seg_hits snap (ts_files s)) (segments_snapshot s)) @ overlay_hits snap)" (is "_ = map _ ?hits")
    using drain_segments [OF iter_for_new new(1,2) reads [folded k]]
    unfolding new(3) segs k execute_scan_def by auto
  have "overlay_hits snap = map (\<lambda>i. (ob, i)) [0..<length ?vis]"
    by (simp add: overlay_hits_def snap_def ov_def ob(2))
  moreover have "map (hit_values ff) (map (\<lambda>i. (ob, i)) [0..<length ?vis]) = map or_values ?vis"
    using ob(3) by (intro nth_equalityI) (simp_all add: hit_values_def)
  ultimately have o: "map (hit_values ff) (overlay_hits snap) = map or_values ?vis" by simp
  have "scan_segments ff lsn (ts_segments s) s =
      Ok (map (hit_values ff) (concat (map (seg_hits snap (ts_files s)) (segments_snapshot s))))"
    using scan_hits [OF files, of snap lsn ff] by (simp add: snap_def segments_snapshot_def)
  then have scan: "scan_at ff lsn s = Ok (map (hit_values ff) ?hits)" by (simp add: scan_at_def o)
  have "map (render_out ff) (hit_row ?k proj h) = map (\<lambda>p. hit_values ff h ! p) proj" if h: "h \<in> set ?hits" for h
  proof (rule render_hit [OF _ _ proj])
    show "snd h < length (sb_lsns (fst h))"
      using h ob(2) by (auto simp: seg_hits_def Let_def overlay_hits_def split: if_splits option.splits)
    show "batch_shape ?k (fst h)"
    proof (cases "h \<in> set (overlay_hits snap)")
      case True
      then have "fst h = ob" by (auto simp: overlay_hits_def snap_def ov_def split: if_splits)
      then show ?thesis using build_batch_shape [OF ob(1)] by simp
    next
      case False
      then obtain m where m: "m \<in> set (ts_segments s)" "fst h = the (map_of (ts_files s) (sm_id m))"
        using h by (auto simp: seg_hits_def Let_def segments_snapshot_def split: if_splits)
      then obtain b where "map_of (ts_files s) (sm_id m) = Some b" using files by blast
      then show ?thesis using map_of_SomeD m(2) shape by (fastforce simp: files_shape_def)
    qed
  qed
  then have "map (map (render_out ff)) (concat (map batch_rows bs)) = map (\<lambda>r. map (\<lambda>p. r ! p) proj) (map (hit_values ff) ?hits)"
    unfolding bs(2) by simp
  then show ?thesis using take bs(1) scan by blast
qed

text \<open>
  C13. What a query streams is the table. For a store that applied any well-formed history, a snapshot at
  any LSN succeeds, and the stream over it, with any projection of the data columns and whatever batches
  the parquet reader cuts the segments into, ends without an error and carries, row by row and in order,
  the projected rows of the table the changes up to that LSN describe.
\<close>
theorem stream_is_table_at_lsn:
  assumes "store_create cols n = Ok s0" "has_key s0" "sorted (map tc_commit_lsn cs)"
    "replicable ff cols (key_of s0) cs []" "length cs < 2 ^ 64" "apply_all ff cs s0 = (Ok (), s)"
    and "reads_files parquet (ts_files s) (length cols)" and "set proj \<subseteq> {..<length cols}"
  shows "\<exists>snap bs. take_snapshot ff name lsn0 lsn s = Ok snap \<and> execute_scan parquet snap proj = map Ok bs \<and>
    map (map (render_out ff)) (concat (map batch_rows bs)) =
      map (\<lambda>r. map (\<lambda>p. r ! p) proj) (spec_run (key_of s0) (filter (\<lambda>c. tc_commit_lsn c \<le> lsn) cs) [])"
proof -
  note h = history_inv [OF assms(1-3) replicable_admissible [OF assms(4)] assms(5,6)]
  then have inv: "store_inv ff s" and cols: "ts_columns s = cols" by auto
  have "files_shape s0" using assms(1) by (auto simp: store_create_def files_shape_def res_bind_Ok_iff)
  from apply_all_shape [OF assms(6) this] have "files_shape s" .
  from snapshot_scan [OF inv this, of parquet proj name lsn0 lsn] assms(7,8) cols obtain snap bs rows where
    r: "take_snapshot ff name lsn0 lsn s = Ok snap" "execute_scan parquet snap proj = map Ok bs" "scan_at ff lsn s = Ok rows"
    "map (map (render_out ff)) (concat (map batch_rows bs)) = map (\<lambda>r. map (\<lambda>p. r ! p) proj) rows"
    by auto
  have "scan_at ff lsn s = Ok (table_at lsn (versions ff s))"
    using scan_visible inv by (simp add: table_at_def store_inv_def)
  then show ?thesis using r h by auto
qed

text \<open>A reader that yields every row as a batch of its own.\<close>

definition demo_parquet :: "table_store \<Rightarrow> parquet" where
  "demo_parquet s i cols =
     map_option (\<lambda>b. map Ok (slices 0 (replicate (length (sb_lsns b)) 1) (map (batch_column 2 b) cols))) (map_of (ts_files s) i)"

theorem stream_is_table_at_lsn_witness:
  "\<exists>s snap bs. apply_all demo_ff demo_history demo_store = (Ok (), s) \<and>
     take_snapshot demo_ff (str ''app.t'') 0 5 s = Ok snap \<and> execute_scan (demo_parquet s) snap [1] = map Ok bs \<and>
     map (map (render_out demo_ff)) (concat (map batch_rows bs)) = [[Some (str ''a'')], [None]]"
proof -
  have hk: "has_key demo_store" by (simp add: has_key_def demo_store_def)
  have so: "sorted (map tc_commit_lsn demo_history)" by (simp add: demo_history_def demo_change_def)
  have len: "length demo_history < 2 ^ 64" by (simp add: demo_history_def)
  have r: "spec_run (key_of demo_store) (filter (\<lambda>c. tc_commit_lsn c \<le> 5) demo_history) [] =
      [[Some (str ''1''), Some (str ''a'')], [Some (str ''2''), None]]" by code_simp
  obtain s where s: "apply_all demo_ff demo_history demo_store = (Ok (), s)"
    using history_total [OF demo_store_create hk so demo_replicable len] by blast
  have "reads_files (demo_parquet s) (ts_files s) (length demo_cols)"
    unfolding reads_files_def demo_parquet_def
  proof (intro allI impI)
    fix i b cols assume "map_of (ts_files s) i = Some b"
    then show "\<exists>ls. sum_list ls = length (sb_lsns b) \<and>
        map_option (\<lambda>b. map Ok (slices 0 (replicate (length (sb_lsns b)) 1) (map (batch_column 2 b) cols))) (map_of (ts_files s) i) =
        Some (map Ok (slices 0 ls (map (batch_column (length demo_cols) b) cols)))"
      by (intro exI [of _ "replicate (length (sb_lsns b)) 1"]) (simp add: demo_cols_def sum_list_replicate numeral_2_eq_2)
  qed
  moreover have "set [1] \<subseteq> {..<length demo_cols}" by (simp add: demo_cols_def)
  ultimately show ?thesis
    using stream_is_table_at_lsn [OF demo_store_create hk so demo_replicable len s, of "demo_parquet s" "[1]" "str ''app.t''" 0 5] s
    unfolding r by auto
qed

end
