(* ===== verification/Backfill.thy ===== *)
theory Backfill
  imports ColumnarDisk Snapshot Search
begin

text \<open>
  How \<open>attach\<close> of \<open>crates/graydb-studio/src/engine.rs\<close> turns the staged parts of a table into its stores:
  the columnar store is created, loaded part by part at the slot's consistent point, flushed and
  finalized; the search store is filled row by row and committed. The history theorem of the columnar
  store is extended to start from such a store.
\<close>

section \<open>The columnar store of a table\<close>

datatype attach_error = AStore store_error | ASearch search_error | AFile rstr | APanic

definition specs_of :: "table_manifest \<Rightarrow> column_spec list" where
  "specs_of m =
     map (\<lambda>(name, oid). \<lparr>cs_name = name, cs_type_oid = oid, cs_is_key = (name \<in> set (tm_keys m))\<rparr>)
       (zip (tm_columns m) (tm_oids m))"

definition from_store :: "(store_error + 'a) \<times> 's \<Rightarrow> (attach_error + 'a) \<times> 's" where
  "from_store r = (case r of (Inl e, s) \<Rightarrow> (Inl (AStore e), s) | (Inr x, s) \<Rightarrow> (Inr x, s))"

lemma from_store_simps [simp]:
  "from_store (Inl e, s) = (Inl (AStore e), s)" "from_store (Inr x, s) = (Inr x, s)"
  by (simp_all add: from_store_def)

fun load_parts ::
    "(rstr \<times> bytes) list \<Rightarrow> u64 \<Rightarrow> part_manifest list \<Rightarrow> table_store \<Rightarrow> (attach_error + unit) \<times> table_store" where
  "load_parts files lsn0 [] s = (Ok (), s)"
| "load_parts files lsn0 (p # ps) s =
     st_bind (need (map_of files (pm_file p)) (AFile (pm_file p)), s) (\<lambda>data s.
     st_bind (from_store (load_copy_part data lsn0 s)) (\<lambda>_ s. load_parts files lsn0 ps s))"

definition build_table_store ::
    "float_fmt \<Rightarrow> bool \<Rightarrow> (rstr \<times> bytes) list \<Rightarrow> nat \<Rightarrow> u64 \<Rightarrow> table_manifest \<Rightarrow> attach_error + table_store" where
  "build_table_store ff disk_ok files flush_rows lsn0 m =
     (case store_create (specs_of m) flush_rows of
        Inl e \<Rightarrow> Err (AStore e)
      | Inr s \<Rightarrow>
          (case st_bind (load_parts files lsn0 (tm_parts m) s) (\<lambda>_ s.
                st_bind (from_store (flush ff disk_ok s)) (\<lambda>_ s. from_store (finalize ff disk_ok s))) of
             (Inl e, _) \<Rightarrow> Err e
           | (Inr _, s) \<Rightarrow> Ok s))"

section \<open>The search store of a table\<close>

definition position_of :: "rstr list \<Rightarrow> rstr \<Rightarrow> nat option" where
  "position_of cols c = find (\<lambda>i. cols ! i = c) [0..<length cols]"

definition positions_in :: "rstr list \<Rightarrow> rstr list \<Rightarrow> nat list" where
  "positions_in cols cs = List.map_filter (position_of cols) cs"

text \<open>Splitting at line feeds keeps the empty piece after the last one; empty pieces are then skipped.\<close>

fun index_lines ::
    "'i index_ops \<Rightarrow> rstr \<Rightarrow> nat list \<Rightarrow> nat list \<Rightarrow> u64 \<Rightarrow> nat \<Rightarrow> bytes list \<Rightarrow> 'i search_store \<Rightarrow>
      (attach_error + unit) \<times> 'i search_store" where
  "index_lines ix file_name cols keys lsn0 n [] s = (Ok (), s)"
| "index_lines ix file_name cols keys lsn0 n (line # ls) s =
     (if line = [] then index_lines ix file_name cols keys lsn0 (n + 1) ls s
      else
        (let vals = parse_copy_line line in
         if \<not> (\<forall>i \<in> set (cols @ keys). i < length vals) then (Err APanic, s)
         else
           (let key = (if keys = [] then str ''b:'' @ file_name @ 58 # show_nat 10 n
                       else join_units (map (\<lambda>i. case vals ! i of Some v \<Rightarrow> v | None \<Rightarrow> []) keys))
            in case index_backfill_row ix key (map (\<lambda>i. vals ! i) cols) lsn0 s of
                 (Inl e, s) \<Rightarrow> (Err (ASearch e), s)
               | (Inr _, s) \<Rightarrow> index_lines ix file_name cols keys lsn0 (n + 1) ls s)))"

fun index_parts ::
    "'i index_ops \<Rightarrow> (rstr \<times> bytes) list \<Rightarrow> nat list \<Rightarrow> nat list \<Rightarrow> u64 \<Rightarrow> part_manifest list \<Rightarrow> 'i search_store \<Rightarrow>
      (attach_error + unit) \<times> 'i search_store" where
  "index_parts ix files cols keys lsn0 [] s = (Ok (), s)"
| "index_parts ix files cols keys lsn0 (p # ps) s =
     st_bind (need (map_of files (pm_file p)) (AFile (pm_file p)), s) (\<lambda>data s.
     st_bind (index_lines ix (pm_file p) cols keys lsn0 0 (split_at_byte LF data) s) (\<lambda>_ s.
     index_parts ix files cols keys lsn0 ps s))"

definition build_search_store ::
    "'i index_ops \<Rightarrow> bool \<Rightarrow> (rstr \<times> bytes) list \<Rightarrow> u64 \<Rightarrow> rstr list \<Rightarrow> table_manifest \<Rightarrow> attach_error + 'i search_store" where
  "build_search_store ix disk_ok files lsn0 columns m =
     (case search_create ix (tm_table m) columns (tm_keys m) of
        Inl e \<Rightarrow> Err (ASearch e)
      | Inr s \<Rightarrow>
          (case index_parts ix files (positions_in (tm_columns m) columns) (positions_in (tm_columns m) (tm_keys m)) lsn0
                  (tm_parts m) s of
             (Inl e, _) \<Rightarrow> Err e
           | (Inr _, s) \<Rightarrow>
               (case commit_batch ix disk_ok lsn0 s of (Inl e, _) \<Rightarrow> Err (ASearch e) | (Inr _, s) \<Rightarrow> Ok s)))"

section \<open>A history on top of a loaded table\<close>

lemma spec_run_size_from: "length (spec_run key cs T) \<le> length T + length cs"
proof (induction cs rule: rev_induct)
  case (snoc c cs)
  then show ?case using spec_apply_size [of key c "spec_run key cs T"] by (simp add: spec_run_snoc)
qed (simp add: spec_run_def)

definition table_ready :: "float_fmt \<Rightarrow> u64 \<Rightarrow> row list \<Rightarrow> table_store \<Rightarrow> bool" where
  "table_ready ff l rows s \<longleftrightarrow> store_inv ff s \<and> bounded l (versions ff s) \<and> head_table (versions ff s) = rows"

lemma history_from:
  assumes "table_ready ff l rows s0" "sorted (map tc_commit_lsn cs)" "\<forall>c \<in> set cs. l \<le> tc_commit_lsn c"
    "admissible_run ff (ts_columns s0) (key_of s0) cs rows" "length rows + length cs < 2 ^ 64"
    "apply_all ff cs s0 = (Ok (), s)"
  shows "store_inv ff s \<and> key_of s = key_of s0 \<and> ts_columns s = ts_columns s0 \<and>
    bounded (if cs = [] then l else tc_commit_lsn (last cs)) (versions ff s) \<and>
    head_table (versions ff s) = spec_run (key_of s0) cs rows \<and>
    (\<forall>lsn \<ge> l. table_at lsn (versions ff s) = spec_run (key_of s0) (filter (\<lambda>c. tc_commit_lsn c \<le> lsn) cs) rows)"
  using assms(2-)
proof (induction cs arbitrary: s rule: rev_induct)
  case Nil
  then show ?case
    using assms(1) table_at_head by (auto simp: table_ready_def spec_run_def)
next
  case (snoc c cs)
  let ?key = "key_of s0" and ?l = "tc_commit_lsn c" and ?m = "if cs = [] then l else tc_commit_lsn (last cs)"
  from snoc.prems(5) obtain s1 where s1: "apply_all ff cs s0 = (Ok (), s1)" "apply_change ff True c s1 = (Ok (), s)"
    by (auto simp: apply_all_append st_bind_Ok_iff)
  have le: "tc_commit_lsn d \<le> ?l" if "d \<in> set cs" for d
    using snoc.prems(1) that by (simp add: sorted_append)
  have IH: "store_inv ff s1" "key_of s1 = ?key" "ts_columns s1 = ts_columns s0" "bounded ?m (versions ff s1)"
    "head_table (versions ff s1) = spec_run ?key cs rows"
    "\<And>lsn. l \<le> lsn \<Longrightarrow> table_at lsn (versions ff s1) = spec_run ?key (filter (\<lambda>c. tc_commit_lsn c \<le> lsn) cs) rows"
    using snoc.IH [OF _ _ _ _ s1(1)] snoc.prems(1-4) by (auto simp: sorted_append admissible_snoc)
  have m: "?m \<le> ?l" using le snoc.prems(2) by simp
  have "length (ts_index s1) < 2 ^ 64"
    using index_size [OF IH(1)] IH(5) spec_run_size_from [of ?key cs rows] snoc.prems(4) by simp
  then have st: "steps_to ff ?l (spec_run ?key (cs @ [c]) rows) s1 s"
    using apply_steps [OF IH(1,4) m _ _ s1(2)] IH snoc.prems(3) by (simp add: admissible_snoc spec_run_snoc)
  have "table_at lsn (versions ff s) = spec_run ?key (filter (\<lambda>c. tc_commit_lsn c \<le> lsn) (cs @ [c])) rows" if "l \<le> lsn" for lsn
  proof (cases "lsn < ?l")
    case True
    then have "\<not> ?l \<le> lsn" by simp
    then show ?thesis using True st IH(6) [OF that] by (simp add: steps_to_def)
  next
    case False
    then have "filter (\<lambda>c. tc_commit_lsn c \<le> lsn) (cs @ [c]) = cs @ [c]"
      using le by (force simp: filter_id_conv)
    then show ?thesis using st table_at_head False by (auto simp: steps_to_def)
  qed
  then show ?case using st IH by (simp add: steps_to_def)
qed

lemma history_from_total:
  assumes "table_ready ff l rows s0" "sorted (map tc_commit_lsn cs)" "\<forall>c \<in> set cs. l \<le> tc_commit_lsn c"
    "replicable ff (ts_columns s0) (key_of s0) cs rows" "length rows + length cs < 2 ^ 64"
  shows "\<exists>s. apply_all ff cs s0 = (Ok (), s)"
  using assms(2-)
proof (induction cs rule: rev_induct)
  case (snoc c cs)
  have r: "replicable ff (ts_columns s0) (key_of s0) cs rows"
    "well_formed (ts_columns s0) (key_of s0) c (spec_run (key_of s0) cs rows)"
    "admissible ff (ts_columns s0) (key_of s0) c (spec_run (key_of s0) cs rows)"
    using snoc.prems(3) by (simp_all add: replicable_snoc)
  have so: "sorted (map tc_commit_lsn cs)" and le: "\<forall>d \<in> set cs. tc_commit_lsn d \<le> tc_commit_lsn c"
    and ge: "\<forall>d \<in> set cs. l \<le> tc_commit_lsn d" and small: "length rows + length cs < 2 ^ 64"
    using snoc.prems by (simp_all add: sorted_append)
  from snoc.IH [OF so ge r(1) small] obtain s1 where s1: "apply_all ff cs s0 = (Ok (), s1)" by blast
  note h = history_from [OF assms(1) so ge replicable_admissible [OF r(1)] small s1]
  have "length (ts_index s1) < 2 ^ 64"
    using h index_size [of ff s1] spec_run_size_from [of "key_of s0" cs rows] small by simp
  moreover have "(if cs = [] then l else tc_commit_lsn (last cs)) \<le> tc_commit_lsn c" using le snoc.prems(2) by simp
  ultimately obtain s where "apply_change ff True c s1 = (Ok (), s)"
    using apply_change_total [of ff s1 "if cs = [] then l else tc_commit_lsn (last cs)" c] h r(2,3) by auto
  then show ?case by (simp add: apply_all_append s1)
qed simp

section \<open>Loading\<close>

definition part_rows :: "(rstr \<times> bytes) list \<Rightarrow> part_manifest \<Rightarrow> row list" where
  "part_rows files p = (case map_of files (pm_file p) of None \<Rightarrow> [] | Some d \<Rightarrow> map parse_copy_line (copy_lines d))"

definition loadable :: "float_fmt \<Rightarrow> column_spec list \<Rightarrow> (row \<Rightarrow> bytes) \<Rightarrow> row list \<Rightarrow> bool" where
  "loadable ff cols key rows \<longleftrightarrow> list_all (canonical ff cols) rows \<and> distinct (map key rows)"

lemma load_lines_ready:
  assumes "table_ready ff lsn0 rows s" and "loadable ff (ts_columns s) (key_of s) (rows @ map parse_copy_line ls)"
  shows "\<exists>n' s'. load_lines ls lsn0 n s = (Ok n', s') \<and> table_ready ff lsn0 (rows @ map parse_copy_line ls) s' \<and>
    key_of s' = key_of s \<and> ts_columns s' = ts_columns s"
  using assms
proof (induction ls arbitrary: rows n s)
  case (Cons l ls)
  let ?r = "parse_copy_line l"
  have c: "canonical ff (ts_columns s) ?r" "key_of s ?r \<notin> key_of s ` set rows"
    using Cons.prems(2) by (auto simp: loadable_def)
  have st: "steps_to ff lsn0 (rows @ [?r]) s (insert_row ?r lsn0 s)"
    using insert_steps [of ff s lsn0 lsn0 ?r] Cons.prems(1) c by (simp add: table_ready_def)
  then have "table_ready ff lsn0 (rows @ [?r]) (insert_row ?r lsn0 s)"
      "key_of (insert_row ?r lsn0 s) = key_of s" "ts_columns (insert_row ?r lsn0 s) = ts_columns s"
    by (simp_all add: steps_to_def table_ready_def)
  moreover have "length ?r = length (ts_columns s)" using c(1) by (simp add: canonical_def)
  ultimately show ?case
    using Cons.IH [of "rows @ [?r]" "insert_row ?r lsn0 s" "n + 1"] Cons.prems(2) by simp
qed auto

lemma load_parts_ready:
  assumes "table_ready ff lsn0 rows s" and "\<forall>p \<in> set ps. map_of files (pm_file p) \<noteq> None"
    and "loadable ff (ts_columns s) (key_of s) (rows @ concat (map (part_rows files) ps))"
  shows "\<exists>s'. load_parts files lsn0 ps s = (Ok (), s') \<and>
    table_ready ff lsn0 (rows @ concat (map (part_rows files) ps)) s' \<and> key_of s' = key_of s \<and> ts_columns s' = ts_columns s"
  using assms
proof (induction ps arbitrary: rows s)
  case (Cons p ps)
  obtain d where d: "map_of files (pm_file p) = Some d" using Cons.prems(2) by auto
  have pr: "part_rows files p = map parse_copy_line (copy_lines d)" by (simp add: part_rows_def d)
  have "loadable ff (ts_columns s) (key_of s) (rows @ map parse_copy_line (copy_lines d))"
    using Cons.prems(3) by (auto simp: loadable_def pr)
  from load_lines_ready [OF Cons.prems(1) this, of 0] obtain n' s1 where
    s1: "load_lines (copy_lines d) lsn0 0 s = (Ok n', s1)" "table_ready ff lsn0 (rows @ part_rows files p) s1"
    "key_of s1 = key_of s" "ts_columns s1 = ts_columns s" by (auto simp: pr)
  let ?s2 = "s1\<lparr>ts_applied := max (ts_applied s1) lsn0\<rparr>"
  have "table_ready ff lsn0 (rows @ part_rows files p) ?s2" "key_of ?s2 = key_of s" "ts_columns ?s2 = ts_columns s"
    using s1 by (simp_all add: table_ready_def applied_inv)
  moreover from this have "loadable ff (ts_columns ?s2) (key_of ?s2) ((rows @ part_rows files p) @ concat (map (part_rows files) ps))"
    using Cons.prems(3) by simp
  ultimately obtain s' where "load_parts files lsn0 ps ?s2 = (Ok (), s')"
      "table_ready ff lsn0 ((rows @ part_rows files p) @ concat (map (part_rows files) ps)) s'" "key_of s' = key_of s" "ts_columns s' = ts_columns s"
    using Cons.IH [of "rows @ part_rows files p" ?s2] Cons.prems(2) by auto
  then show ?case using d s1(1) by (simp add: load_copy_part_def)
qed auto

lemma flush_ready:
  assumes "table_ready ff l rows s"
  shows "\<exists>s'. flush ff True s = (Ok (), s') \<and> table_ready ff l rows s' \<and> key_of s' = key_of s \<and> ts_columns s' = ts_columns s"
proof -
  from flush_inv [of ff s] assms obtain s' where f: "flush ff True s = (Ok (), s')" by (auto simp: table_ready_def)
  from flush_steps [of ff s l s'] assms f show ?thesis by (auto simp: steps_to_def table_ready_def)
qed

definition manifest_rows :: "(rstr \<times> bytes) list \<Rightarrow> table_manifest \<Rightarrow> row list" where
  "manifest_rows files m = concat (map (part_rows files) (tm_parts m))"

definition manifest_key :: "table_manifest \<Rightarrow> row \<Rightarrow> bytes" where
  "manifest_key m = key_bytes (key_columns (specs_of m))"

definition keyed_manifest :: "table_manifest \<Rightarrow> bool" where
  "keyed_manifest m \<longleftrightarrow> key_columns (specs_of m) \<noteq> []"

lemma build_ready:
  assumes "keyed_manifest m" and "list_all (\<lambda>p. map_of files (pm_file p) \<noteq> None) (tm_parts m)"
    and "loadable ff (specs_of m) (manifest_key m) (manifest_rows files m)"
  shows "\<exists>s. build_table_store ff True files n lsn0 m = Ok s \<and> table_ready ff lsn0 (manifest_rows files m) s \<and>
    key_of s = manifest_key m \<and> ts_columns s = specs_of m"
proof -
  have ne: "specs_of m \<noteq> []" using assms(1) by (auto simp: keyed_manifest_def key_columns_def)
  obtain s0 where c: "store_create (specs_of m) n = Ok s0" using ne by (simp add: store_create_def)
  have s0: "ts_key_idx s0 = key_columns (specs_of m)" using c by (auto simp: store_create_def res_bind_Ok_iff)
  have hk: "has_key s0" using s0 assms(1) by (simp add: has_key_def keyed_manifest_def)
  note cr = create_inv(1,2) [OF c hk, of ff] create_inv(3) [OF c hk]
  have k0: "key_of s0 = manifest_key m" by (simp add: key_of_def [abs_def] s0 manifest_key_def)
  have "table_ready ff lsn0 [] s0" using cr by (simp add: table_ready_def bounded_def head_table_def)
  from load_parts_ready [OF this, of "tm_parts m" files] assms(2,3) k0 cr(3) obtain s1 where
    s1: "load_parts files lsn0 (tm_parts m) s0 = (Ok (), s1)" "table_ready ff lsn0 (manifest_rows files m) s1"
      "key_of s1 = manifest_key m" "ts_columns s1 = specs_of m"
    by (auto simp: list_all_iff manifest_rows_def)
  from flush_ready [OF s1(2)] obtain s2 where s2: "flush ff True s1 = (Ok (), s2)"
    "table_ready ff lsn0 (manifest_rows files m) s2" "key_of s2 = key_of s1" "ts_columns s2 = ts_columns s1" by blast
  from flush_ready [OF s2(2)] obtain s3 where s3: "flush ff True s2 = (Ok (), s3)"
    "table_ready ff lsn0 (manifest_rows files m) s3" "key_of s3 = key_of s2" "ts_columns s3 = ts_columns s2" by blast
  have "build_table_store ff True files n lsn0 m = Ok s3"
    by (simp add: build_table_store_def c s1(1) s2(1) finalize_def s3(1))
  then show ?thesis using s1 s2 s3 by auto
qed


text \<open>
  C5. A table attached and then followed answers at every LSN from the consistent point on with the
  staged rows as the changes up to that LSN leave them: building its store from the staged parts succeeds,
  so does applying any well-formed history to it, and a scan returns exactly that table.
\<close>
theorem backfill_then_history:
  assumes "keyed_manifest m" and "list_all (\<lambda>p. map_of files (pm_file p) \<noteq> None) (tm_parts m)"
    and "loadable ff (specs_of m) (manifest_key m) (manifest_rows files m)"
    and "sorted (map tc_commit_lsn cs)" and "list_all (\<lambda>c. lsn0 \<le> tc_commit_lsn c) cs"
    and "replicable ff (specs_of m) (manifest_key m) cs (manifest_rows files m)"
    and "length (manifest_rows files m) + length cs < 2 ^ 64" and "lsn0 \<le> lsn"
  shows "\<exists>s0 s. build_table_store ff True files n lsn0 m = Ok s0 \<and> apply_all ff cs s0 = (Ok (), s) \<and>
    scan_at ff lsn s = Ok (spec_run (manifest_key m) (filter (\<lambda>c. tc_commit_lsn c \<le> lsn) cs) (manifest_rows files m))"
proof -
  from build_ready [OF assms(1-3)] obtain s0 where s0: "build_table_store ff True files n lsn0 m = Ok s0"
    "table_ready ff lsn0 (manifest_rows files m) s0" "key_of s0 = manifest_key m" "ts_columns s0 = specs_of m" by blast
  have ge: "\<forall>c \<in> set cs. lsn0 \<le> tc_commit_lsn c" using assms(5) by (simp add: list_all_iff)
  have r: "replicable ff (ts_columns s0) (key_of s0) cs (manifest_rows files m)" using assms(6) s0 by simp
  from history_from_total [OF s0(2) assms(4) ge r assms(7)] obtain s where s: "apply_all ff cs s0 = (Ok (), s)" by blast
  note h = history_from [OF s0(2) assms(4) ge replicable_admissible [OF r] assms(7) s]
  have "scan_at ff lsn s = Ok (table_at lsn (versions ff s))"
    using scan_visible h by (simp add: table_at_def store_inv_def)
  then show ?thesis using s0 s h assms(8) by auto
qed

definition demo_manifest :: table_manifest where
  "demo_manifest =
     \<lparr>tm_table = str ''app.t'', tm_columns = [str ''id'', str ''t''], tm_oids = [23, 25], tm_keys = [str ''id''],
      tm_rows = 2, tm_bytes = 10,
      tm_parts = [\<lparr>pm_file = str ''p0'', pm_rows = 1, pm_bytes = 4, pm_first = 0, pm_end = Some 1\<rparr>,
                  \<lparr>pm_file = str ''p1'', pm_rows = 1, pm_bytes = 5, pm_first = 1, pm_end = None\<rparr>]\<rparr>"

definition demo_files :: "(rstr \<times> bytes) list" where
  "demo_files = [(str ''p0'', [49, TAB, 97, LF]), (str ''p1'', [50, TAB, BACKSLASH, 78, LF])]"

definition demo_updates :: "typed_change list" where
  "demo_updates =
     [demo_change OUpdate 7 (Some (demo_image ''1'' TUnchangedToast)) None,
      demo_change ODelete 9 None (Some (demo_image ''2'' TNull))]"

lemma demo_manifest_rows:
  "manifest_rows demo_files demo_manifest = [[Some (str ''1''), Some (str ''a'')], [Some (str ''2''), None]]"
  by (simp add: manifest_rows_def demo_manifest_def demo_files_def part_rows_def copy_lines_def parse_copy_line_def
      unescape_field_def utf8_ok_ascii)

lemma demo_loadable:
  "loadable demo_ff (specs_of demo_manifest) (manifest_key demo_manifest) (manifest_rows demo_files demo_manifest)"
  unfolding demo_manifest_rows
  by (simp add: loadable_def canonical_def specs_of_def demo_manifest_def manifest_key_def key_columns_def key_bytes_def
      enumerate_eq_zip less_Suc_eq_0_disj build_cell_def arrow_type_def render_cell_def demo_values)

lemma demo_follow:
  "replicable demo_ff (specs_of demo_manifest) (manifest_key demo_manifest) demo_updates (manifest_rows demo_files demo_manifest)"
  unfolding demo_manifest_rows
  by (simp add: demo_updates_def demo_change_def demo_image_def well_formed_def admissible_def image_ok_def image_of_def
      old_image_def canonical_def specs_of_def demo_manifest_def manifest_key_def key_columns_def key_bytes_def
      enumerate_eq_zip image_values_def less_Suc_eq_0_disj build_cell_def arrow_type_def render_cell_def demo_values)

theorem backfill_then_history_witness:
  "\<exists>s0 s. build_table_store demo_ff True demo_files 2 5 demo_manifest = Ok s0 \<and> apply_all demo_ff demo_updates s0 = (Ok (), s) \<and>
     scan_at demo_ff 7 s = Ok [[Some (str ''2''), None], [Some (str ''1''), Some (str ''a'')]]"
proof -
  have k: "keyed_manifest demo_manifest"
    by (simp add: keyed_manifest_def specs_of_def demo_manifest_def key_columns_def enumerate_eq_zip)
  have f: "list_all (\<lambda>p. map_of demo_files (pm_file p) \<noteq> None) (tm_parts demo_manifest)"
    by (simp add: demo_manifest_def demo_files_def)
  have so: "sorted (map tc_commit_lsn demo_updates)" "list_all (\<lambda>c. 5 \<le> tc_commit_lsn c) demo_updates"
    by (simp_all add: demo_updates_def demo_change_def)
  have len: "length (manifest_rows demo_files demo_manifest) + length demo_updates < 2 ^ 64"
    by (simp add: demo_manifest_rows demo_updates_def)
  have r: "spec_run (manifest_key demo_manifest) (filter (\<lambda>c. tc_commit_lsn c \<le> 7) demo_updates)
      (manifest_rows demo_files demo_manifest) = [[Some (str ''2''), None], [Some (str ''1''), Some (str ''a'')]]"
    unfolding demo_manifest_rows
    by (simp add: spec_run_def demo_updates_def demo_change_def demo_image_def old_image_def image_of_def specs_of_def
        demo_manifest_def manifest_key_def key_columns_def key_bytes_def enumerate_eq_zip image_values_def)
  have "5 \<le> (7 :: u64)" by simp
  from backfill_then_history [OF k f demo_loadable so demo_follow len this, of 2] show ?thesis unfolding r .
qed

end
