(* ===== verification/Engine.thy ===== *)
theory Engine
  imports Backfill Provider Pump LogTail Decoder
begin

text \<open>
  The live pipeline, \<open>crates/graydb-studio/src/engine.rs\<close>: the stores built at attach, the apply loop that
  polls the log tail, decodes and applies, the consistency classes of a read, and the event ring. What
  the engine reads of the pump is its metrics, the durable mark and the last control command; the text
  of an error and of the clock are parameters.
\<close>

section \<open>Events\<close>

definition EVENT_CAP :: nat where "EVENT_CAP = 200"

record engine_event =
  ev_at :: rstr
  ev_level :: rstr
  ev_message :: rstr

definition EM_DASH :: rstr where "EM_DASH = [0xE2, 0x80, 0x94]"

definition push_event :: "engine_event \<Rightarrow> engine_event list \<Rightarrow> engine_event list" where
  "push_event e events = (if length events = EVENT_CAP then tl events else events) @ [e]"

definition events_shown :: "engine_event list \<Rightarrow> engine_event list" where
  "events_shown events = rev events"

definition pad2 :: "nat \<Rightarrow> rstr" where
  "pad2 n = replicate (2 - length (show_nat 10 n)) 48 @ show_nat 10 n"

definition now_hms :: "u64 \<Rightarrow> rstr" where
  "now_hms secs =
     (let s = unat (secs mod 86400) in pad2 (s div 3600) @ 58 # pad2 ((s mod 3600) div 60) @ 58 # pad2 (s mod 60))"

section \<open>The pipeline\<close>

record 'i pipeline =
  pl_lsn0 :: u64
  pl_manifest :: snapshot_manifest
  pl_columnar :: "(rstr \<times> table_store) list"
  pl_search :: "(rstr \<times> 'i search_store) list"
  pl_eligibility :: "(rstr \<times> rstr) list"
  pl_applied :: u64
  pl_tail :: log_tail
  pl_decoder :: stream_decoder
  pl_version :: rstr

text \<open>\<open>get_mut\<close> of a hash map and a write through it.\<close>

definition entry_set :: "'k \<Rightarrow> 'v \<Rightarrow> ('k \<times> 'v) list \<Rightarrow> ('k \<times> 'v) list" where
  "entry_set k v m = map (\<lambda>(k', v'). if k' = k then (k', v) else (k', v')) m"

text \<open>\<open>insert\<close> of the loop that builds a hash map in front of the later turns: a later entry of the key wins.\<close>

definition insert_before :: "'k \<Rightarrow> 'v \<Rightarrow> ('k \<times> 'v) list \<Rightarrow> ('k \<times> 'v) list" where
  "insert_before k v rest = (if map_of rest k = None then (k, v) # rest else rest)"

fun build_columnar ::
    "float_fmt \<Rightarrow> bool \<Rightarrow> (rstr \<times> bytes) list \<Rightarrow> nat \<Rightarrow> u64 \<Rightarrow> table_manifest list \<Rightarrow> attach_error + (rstr \<times> table_store) list" where
  "build_columnar ff disk_ok files flush_rows lsn0 [] = Ok []"
| "build_columnar ff disk_ok files flush_rows lsn0 (m # ms) =
     res_bind (build_table_store ff disk_ok files flush_rows lsn0 m) (\<lambda>s.
     res_bind (build_columnar ff disk_ok files flush_rows lsn0 ms) (\<lambda>rest.
     Ok (insert_before (tm_table m) s rest)))"

text \<open>The configured indexes; one on a table that was not loaded is skipped.\<close>

fun build_search ::
    "'i index_ops \<Rightarrow> bool \<Rightarrow> (rstr \<times> bytes) list \<Rightarrow> u64 \<Rightarrow> table_manifest list \<Rightarrow> (rstr \<times> rstr list) list \<Rightarrow>
      attach_error + (rstr \<times> 'i search_store) list" where
  "build_search ix disk_ok files lsn0 tables [] = Ok []"
| "build_search ix disk_ok files lsn0 tables ((table, cols) # indexes) =
     (case find (\<lambda>t. tm_table t = table) tables of
        None \<Rightarrow> build_search ix disk_ok files lsn0 tables indexes
      | Some t \<Rightarrow>
          res_bind (build_search_store ix disk_ok files lsn0 cols t) (\<lambda>s.
          res_bind (build_search ix disk_ok files lsn0 tables indexes) (\<lambda>rest.
          Ok (insert_before table s rest))))"

definition attach_pipeline ::
    "float_fmt \<Rightarrow> 'i index_ops \<Rightarrow> bool \<Rightarrow> (rstr \<times> bytes) list \<Rightarrow> nat \<Rightarrow> u64 \<Rightarrow> snapshot_manifest \<Rightarrow>
      (rstr \<times> rstr list) list \<Rightarrow> (rstr \<times> rstr) list \<Rightarrow> rstr \<Rightarrow> attach_error + 'i pipeline" where
  "attach_pipeline ff ix disk_ok files flush_rows lsn0 manifest indexes eligibility version =
     res_bind (build_columnar ff disk_ok files flush_rows lsn0 (sn_tables manifest)) (\<lambda>columnar.
     res_bind (build_search ix disk_ok files lsn0 (sn_tables manifest) indexes) (\<lambda>search.
     Ok \<lparr>pl_lsn0 = lsn0, pl_manifest = manifest, pl_columnar = columnar, pl_search = search,
         pl_eligibility = eligibility, pl_applied = lsn0, pl_tail = tail_new, pl_decoder = decoder_new,
         pl_version = version\<rparr>))"

section \<open>Applying new frames\<close>

datatype engine_error =
    ETail tail_error
  | EDecode replay_error
  | EStore store_error
  | ESearch search_error
  | ENotAttached
  | ENoPump
  | ELsn repl_error
  | EStrongTimeout
  | EStale u64 u64
  | EClass rstr
  | ELog log_error
  | EActive
  | EClosed

definition synthetic_key :: "u64 \<Rightarrow> rstr" where
  "synthetic_key i = str ''s:'' @ show_nat 10 (unat i)"

definition apply_columnar ::
    "float_fmt \<Rightarrow> bool \<Rightarrow> typed_change \<Rightarrow> 'i pipeline \<Rightarrow> (engine_error + unit) \<times> 'i pipeline" where
  "apply_columnar ff disk_ok c p =
     (case map_of (pl_columnar p) (tc_table c) of
        None \<Rightarrow> (Ok (), p)
      | Some s \<Rightarrow>
          (let (r, s') = apply_change ff disk_ok c s
           in (case r of Inl e \<Rightarrow> Err (EStore e) | Inr u \<Rightarrow> Ok (),
               p\<lparr>pl_columnar := entry_set (tc_table c) s' (pl_columnar p)\<rparr>)))"

definition apply_search ::
    "'i index_ops \<Rightarrow> u64 \<Rightarrow> typed_change \<Rightarrow> 'i pipeline \<Rightarrow> (engine_error + bool) \<times> 'i pipeline" where
  "apply_search ix i c p =
     (case map_of (pl_search p) (tc_table c) of
        None \<Rightarrow> (Ok False, p)
      | Some s \<Rightarrow>
          (let (r, s') = search_apply ix c (synthetic_key i) s
           in (case r of Inl e \<Rightarrow> Err (ESearch e) | Inr u \<Rightarrow> Ok True,
               p\<lparr>pl_search := entry_set (tc_table c) s' (pl_search p)\<rparr>)))"

text \<open>The loop over the batch: the index of the change, and whether a search store was touched.\<close>

fun apply_changes ::
    "float_fmt \<Rightarrow> (u64 \<Rightarrow> bool) \<Rightarrow> 'i index_ops \<Rightarrow> u64 \<Rightarrow> bool \<Rightarrow> typed_change list \<Rightarrow> 'i pipeline \<Rightarrow>
      (engine_error + bool) \<times> 'i pipeline" where
  "apply_changes ff flush_ok ix i touched [] p = (Ok touched, p)"
| "apply_changes ff flush_ok ix i touched (c # cs) p =
     st_bind (apply_columnar ff (flush_ok i) c p) (\<lambda>_ p.
     st_bind (apply_search ix i c p) (\<lambda>t p. apply_changes ff flush_ok ix (i + 1) (touched \<or> t) cs p))"

fun commit_all ::
    "'i index_ops \<Rightarrow> bool \<Rightarrow> u64 \<Rightarrow> (rstr \<times> 'i search_store) list \<Rightarrow> (engine_error + unit) \<times> (rstr \<times> 'i search_store) list" where
  "commit_all ix disk_ok lsn [] = (Ok (), [])"
| "commit_all ix disk_ok lsn ((k, s) # m) =
     (case commit_batch ix disk_ok lsn s of
        (Inl e, s') \<Rightarrow> (Err (ESearch e), (k, s') # m)
      | (Inr _, s') \<Rightarrow> (let (r, m') = commit_all ix disk_ok lsn m in (r, (k, s') # m')))"

definition commit_search ::
    "'i index_ops \<Rightarrow> bool \<Rightarrow> u64 \<Rightarrow> bool \<Rightarrow> 'i pipeline \<Rightarrow> (engine_error + unit) \<times> 'i pipeline" where
  "commit_search ix disk_ok lsn touched p =
     (if touched then (let (r, m) = commit_all ix disk_ok lsn (pl_search p) in (r, p\<lparr>pl_search := m\<rparr>)) else (Ok (), p))"

text \<open>
  One poll. \<open>Some (n, lsn)\<close> is the event of an applied batch; \<open>None\<close> that there was nothing to apply.
\<close>

definition apply_new_frames ::
    "crc_fun \<Rightarrow> float_fmt \<Rightarrow> (u64 \<Rightarrow> bool) \<Rightarrow> bool \<Rightarrow> 'i index_ops \<Rightarrow> dir \<Rightarrow> 'i pipeline \<Rightarrow>
      (engine_error + (nat \<times> u64) option) \<times> 'i pipeline" where
  "apply_new_frames crc ff flush_ok meta_ok ix d p =
     (let (r, t) = read_new crc d (pl_tail p); p = p\<lparr>pl_tail := t\<rparr> in
      case r of
        Inl e \<Rightarrow> (Err (ETail e), p)
      | Inr batch \<Rightarrow>
          (let p = (if tb_rewound batch then p\<lparr>pl_decoder := abort_open_txn (pl_decoder p)\<rparr> else p) in
           if tb_frames batch = [] then (Ok None, p)
           else
             (let (r, d) = feed (tb_frames batch) (pl_decoder p); p = p\<lparr>pl_decoder := d\<rparr> in
              case r of
                Inl e \<Rightarrow> (Err (EDecode e), p)
              | Inr decoded \<Rightarrow>
                  if db_changes decoded = [] then (Ok None, p)
                  else
                    st_bind (apply_changes ff flush_ok ix (db_first_change_index decoded) False (db_changes decoded) p) (\<lambda>touched p.
                    let lsn = max (db_last_commit_lsn decoded) (pl_applied p); p = p\<lparr>pl_applied := lsn\<rparr> in
                    st_bind (commit_search ix meta_ok lsn touched p) (\<lambda>_ p.
                    (Ok (Some (length (db_changes decoded), lsn)), p))))))"

section \<open>The engine\<close>

text \<open>What the engine sees of the pump.\<close>

record pump_view =
  pv_metrics :: ingest_metrics
  pv_durable :: durable_mark
  pv_finished :: bool
  pv_command :: pump_command

record 'i engine =
  en_pipeline :: "'i pipeline option"
  en_pump :: "pump_view option"
  en_events :: "engine_event list"
  en_frozen :: bool

definition log_event :: "rstr \<Rightarrow> rstr \<Rightarrow> rstr \<Rightarrow> 'i engine \<Rightarrow> 'i engine" where
  "log_event at level msg e =
     e\<lparr>en_events := push_event \<lparr>ev_at = at, ev_level = level, ev_message = msg\<rparr> (en_events e)\<rparr>"

text \<open>One turn of the apply loop; \<open>show_err\<close> is the text of an error.\<close>

definition apply_tick ::
    "crc_fun \<Rightarrow> float_fmt \<Rightarrow> (u64 \<Rightarrow> bool) \<Rightarrow> bool \<Rightarrow> 'i index_ops \<Rightarrow> (engine_error \<Rightarrow> rstr) \<Rightarrow> rstr \<Rightarrow> dir \<Rightarrow> 'i engine \<Rightarrow> 'i engine" where
  "apply_tick crc ff flush_ok meta_ok ix show_err at d e =
     (if en_frozen e then e
      else case en_pipeline e of
        None \<Rightarrow> e
      | Some p \<Rightarrow>
          (case apply_new_frames crc ff flush_ok meta_ok ix d p of
             (Inl err, p) \<Rightarrow> log_event at (str ''error'') (str ''apply failed: '' @ show_err err) (e\<lparr>en_pipeline := Some p\<rparr>)
           | (Inr None, p) \<Rightarrow> e\<lparr>en_pipeline := Some p\<rparr>
           | (Inr (Some (n, lsn)), p) \<Rightarrow>
               log_event at (str ''info'')
                 (str ''applied '' @ show_nat 10 n @ str '' changes; shapes now at '' @ format_lsn lsn)
                 (e\<lparr>en_pipeline := Some p\<rparr>)))"

definition applied_lsn :: "'i engine \<Rightarrow> u64" where
  "applied_lsn e = (case en_pipeline e of None \<Rightarrow> 0 | Some p \<Rightarrow> pl_applied p)"

definition received_lsn :: "'i engine \<Rightarrow> u64" where
  "received_lsn e =
     (case en_pump e of None \<Rightarrow> 0 | Some h \<Rightarrow> max (im_stream_lsn (pv_metrics h)) (dm_lsn (pv_durable h)))"

definition apply_lag :: "'i engine \<Rightarrow> u64" where
  "apply_lag e = (if applied_lsn e \<le> received_lsn e then received_lsn e - applied_lsn e else 0)"

text \<open>The rows of the status panel; the WAL gauge and the source address come from outside.\<close>

record table_status =
  st_table :: rstr
  st_eligibility :: rstr
  st_columnar :: rstr
  st_search :: "rstr option"
  st_rows :: u64

definition table_status_of :: "'i pipeline \<Rightarrow> table_manifest \<Rightarrow> table_status" where
  "table_status_of p t =
     \<lparr>st_table = tm_table t,
      st_eligibility = (case map_of (pl_eligibility p) (tm_table t) of Some x \<Rightarrow> x | None \<Rightarrow> str ''unknown''),
      st_columnar = format_lsn (pl_applied p),
      st_search = map_option (\<lambda>s. format_lsn (sx_applied (ss_meta s))) (map_of (pl_search p) (tm_table t)),
      st_rows = (case map_of (pl_columnar p) (tm_table t) of Some s \<Rightarrow> visible_rows s | None \<Rightarrow> 0)\<rparr>"

record engine_status =
  es_attached :: bool
  es_version :: rstr
  es_lsn0 :: rstr
  es_received :: rstr
  es_flushed :: rstr
  es_applied :: rstr
  es_lag :: int
  es_frames :: u64
  es_commits :: u64
  es_spilled :: u64
  es_alive :: bool
  es_stalled :: bool
  es_tables :: "table_status list"

definition engine_status_of :: "'i engine \<Rightarrow> engine_status" where
  "engine_status_of e =
     (let durable = (case en_pump e of None \<Rightarrow> 0 | Some h \<Rightarrow> dm_lsn (pv_durable h));
          m = (case en_pump e of None \<Rightarrow> zero_metrics | Some h \<Rightarrow> pv_metrics h)
      in \<lparr>es_attached = (en_pipeline e \<noteq> None),
          es_version = (case en_pipeline e of Some p \<Rightarrow> pl_version p | None \<Rightarrow> str ''-''),
          es_lsn0 = (case en_pipeline e of Some p \<Rightarrow> format_lsn (pl_lsn0 p) | None \<Rightarrow> str ''-''),
          es_received = format_lsn (received_lsn e), es_flushed = format_lsn durable,
          es_applied = format_lsn (applied_lsn e), es_lag = sint (apply_lag e),
          es_frames = im_frames m, es_commits = im_commits m, es_spilled = im_spilled_frames m,
          es_alive = (case en_pump e of None \<Rightarrow> False | Some h \<Rightarrow> \<not> pv_finished h),
          es_stalled = (case en_pump e of None \<Rightarrow> False
                        | Some h \<Rightarrow> pv_command h = \<lparr>pc_stalled = True, pc_shutdown = False\<rparr>),
          es_tables = (case en_pipeline e of None \<Rightarrow> [] | Some p \<Rightarrow> map (table_status_of p) (sn_tables (pl_manifest p)))\<rparr>)"

section \<open>Consistency classes\<close>

definition starts_with :: "rstr \<Rightarrow> rstr \<Rightarrow> bool" where
  "starts_with p s \<longleftrightarrow> take (length p) s = p"

text \<open>
  The loop of a strong read: what it sees in round \<open>i\<close> of the stream position, the durable mark and the
  applied position. Every twentieth round nudges the source, which does not change the loop's state.
\<close>

record read_view =
  rv_stream :: u64
  rv_durable :: u64
  rv_applied :: u64

function strong_loop :: "u64 \<Rightarrow> (nat \<Rightarrow> read_view) \<Rightarrow> nat \<Rightarrow> engine_error + u64 option" where
  "strong_loop barrier views i =
     (if i < 600
      then (let v = views i in
            if barrier \<le> rv_stream v \<and> rv_durable v \<le> rv_applied v
            then Ok (Some (max (rv_applied v) barrier))
            else strong_loop barrier views (i + 1))
      else Err EStrongTimeout)"
  by pat_completeness auto
termination by (relation "measure (\<lambda>(_, _, i). 600 - i)") auto

declare strong_loop.simps [simp del]

definition from_lsn :: "repl_error + 'a \<Rightarrow> engine_error + 'a" where
  "from_lsn r = (case r of Inl e \<Rightarrow> Err (ELsn e) | Inr x \<Rightarrow> Ok x)"

definition saturating_sub :: "u64 \<Rightarrow> u64 \<Rightarrow> u64" where
  "saturating_sub a b = (if b \<le> a then a - b else 0)"

definition bounded_text :: "rstr \<Rightarrow> rstr" where
  "bounded_text s = strip_end [str ''s''] (strip_end [str '')''] (strip_all [str ''bounded(''] s))"

text \<open>
  \<open>head\<close> is what \<open>pg_current_wal_lsn()\<close> answers; \<open>budget\<close> the byte budget of a bound in seconds, which
  the source computes in \<open>f64\<close>.
\<close>

definition resolve_class ::
    "rstr \<Rightarrow> (rstr \<Rightarrow> u64) \<Rightarrow> (nat \<Rightarrow> read_view) \<Rightarrow> u64 \<Rightarrow> rstr \<Rightarrow> engine_error + u64 option" where
  "resolve_class head budget views applied class_text =
     (let c = trim_text class_text in
      if starts_with (str ''target_lsn='') c
      then res_bind (from_lsn (parse_lsn (trim_text (drop 11 c)))) (\<lambda>l. Ok (Some l))
      else if c = [] \<or> c = str ''eventual'' then Ok None
      else if c = str ''strong''
      then res_bind (from_lsn (parse_lsn head)) (\<lambda>barrier. strong_loop barrier views 0)
      else if starts_with (str ''bounded('') c
      then res_bind (from_lsn (parse_lsn head)) (\<lambda>h.
           let lag = saturating_sub h applied in
           if lag \<le> budget (bounded_text c) then Ok (Some applied) else Err (EStale lag (budget (bounded_text c))))
      else Err (EClass c))"

text \<open>The snapshots of a query: one per columnar table, all at the target.\<close>

fun take_snapshots :: "float_fmt \<Rightarrow> u64 \<Rightarrow> u64 \<Rightarrow> (rstr \<times> table_store) list \<Rightarrow> engine_error + table_snapshot list" where
  "take_snapshots ff lsn0 lsn [] = Ok []"
| "take_snapshots ff lsn0 lsn ((name, s) # m) =
     (case take_snapshot ff name lsn0 lsn s of
        Inl e \<Rightarrow> Err (EStore e)
      | Inr snap \<Rightarrow> res_bind (take_snapshots ff lsn0 lsn m) (\<lambda>rest. Ok (snap # rest)))"

definition query_snapshots :: "float_fmt \<Rightarrow> u64 option \<Rightarrow> 'i engine \<Rightarrow> engine_error + table_snapshot list" where
  "query_snapshots ff target e =
     (let lsn = (case target of Some l \<Rightarrow> l | None \<Rightarrow> - 1) in
      res_bind (need (en_pipeline e) ENotAttached) (\<lambda>p. take_snapshots ff (pl_lsn0 p) lsn (pl_columnar p)))"

section \<open>Controls\<close>

text \<open>
  Starting a pump: a slot that is still active is retried; \<open>starts\<close> is what \<open>start_replication\<close> answers in
  each attempt.
\<close>

function start_pump :: "(nat \<Rightarrow> engine_error + unit) \<Rightarrow> nat \<Rightarrow> engine_error + nat" where
  "start_pump starts attempt =
     (case starts attempt of
        Inr _ \<Rightarrow> Ok attempt
      | Inl e \<Rightarrow> if attempt < 40 \<and> e = EActive then start_pump starts (attempt + 1) else Err e)"
  by pat_completeness auto
termination by (relation "measure (\<lambda>(_, attempt). 40 - attempt)") auto

declare start_pump.simps [simp del]

definition new_pump_view :: "durable_mark \<Rightarrow> pump_view" where
  "new_pump_view m =
     \<lparr>pv_metrics = zero_metrics, pv_durable = m, pv_finished = False,
      pv_command = \<lparr>pc_stalled = False, pc_shutdown = False\<rparr>\<rparr>"

definition chaos_kill_decoder :: "rstr \<Rightarrow> 'i engine \<Rightarrow> (engine_error + unit) \<times> 'i engine" where
  "chaos_kill_decoder at e =
     (case en_pump e of
        None \<Rightarrow> (Err ENoPump, e)
      | Some h \<Rightarrow> (Ok (), log_event at (str ''warn'')
          (str ''CHAOS: decoder killed mid-stream at durable='' @ format_lsn (dm_lsn (pv_durable h))) (e\<lparr>en_pump := None\<rparr>)))"

text \<open>The restart resumes the log and starts a pump from its durable mark.\<close>

definition restart_decoder ::
    "crc_fun \<Rightarrow> dir option \<Rightarrow> u64 \<Rightarrow> (nat \<Rightarrow> engine_error + unit) \<Rightarrow> rstr \<Rightarrow> 'i engine \<Rightarrow>
      (engine_error + frame_log) \<times> 'i engine" where
  "restart_decoder crc d seg_max starts at e =
     (case resume crc d seg_max of
        Inl err \<Rightarrow> (Err (ELog err), e)
      | Inr log \<Rightarrow>
          (case start_pump starts 0 of
             Inl err \<Rightarrow> (Err err, e)
           | Inr _ \<Rightarrow>
               (Ok log, log_event at (str ''info'')
                  (str ''restart: fresh replication session from last durable ack '' @ format_lsn (dm_lsn (fl_mark log))
                   @ str '' (Relation metadata re-emitted)'')
                  (e\<lparr>en_pump := Some (new_pump_view (fl_mark log))\<rparr>))))"

text \<open>A watch channel refuses a value once its receiver, here the pump's task, is gone.\<close>

definition chaos_stall_log :: "bool \<Rightarrow> rstr \<Rightarrow> 'i engine \<Rightarrow> (engine_error + unit) \<times> 'i engine" where
  "chaos_stall_log stalled at e =
     (case en_pump e of
        None \<Rightarrow> (Err ENoPump, e)
      | Some h \<Rightarrow>
          if pv_finished h then (Err EClosed, e)
          else (Ok (), log_event at (if stalled then str ''warn'' else str ''info'')
             (if stalled then str ''CHAOS: log write path stalled '' @ EM_DASH @ str '' rung 3 staging active, ack frozen''
              else str ''resumed: staging drained in order, durable mark advanced, ack caught up'')
             (e\<lparr>en_pump := Some (h\<lparr>pv_command := \<lparr>pc_stalled = stalled, pc_shutdown = False\<rparr>\<rparr>)\<rparr>)))"

text \<open>The receiver of this channel is the apply loop, which starts with the attach.\<close>

definition chaos_crash_before_materialize :: "bool \<Rightarrow> rstr \<Rightarrow> 'i engine \<Rightarrow> (engine_error + unit) \<times> 'i engine" where
  "chaos_crash_before_materialize frozen at e =
     (if en_pipeline e = None then (Err EClosed, e)
      else
        (Ok (), log_event at (if frozen then str ''warn'' else str ''info'')
          (if frozen then str ''CHAOS: materialization frozen '' @ EM_DASH @ str '' frames still durable, shapes falling behind''
           else str ''materialization resumed '' @ EM_DASH @ str '' replaying from the durable log, zero loss'')
          (e\<lparr>en_frozen := frozen\<rparr>)))"

section \<open>The log and the engine\<close>

text \<open>
  A writer and the engine on one log: operations of the log and polls that return without an error, in
  any order, from the pipeline \<open>p0\<close> of the attach on.
\<close>

inductive engine_run ::
    "crc_fun \<Rightarrow> float_fmt \<Rightarrow> 'i index_ops \<Rightarrow> 'i pipeline \<Rightarrow> frame_log \<Rightarrow> 'i pipeline \<Rightarrow> bool"
  for crc ff ix p0 where
  er_start: "log_reach crc (Live L, ms) \<Longrightarrow> engine_run crc ff ix p0 L p0"
| er_write: "engine_run crc ff ix p0 L p \<Longrightarrow> run_op crc w oper L = (Ok u, L') \<Longrightarrow> op_fits oper L \<Longrightarrow> engine_run crc ff ix p0 L' p"
| er_poll: "engine_run crc ff ix p0 L p \<Longrightarrow> apply_new_frames crc ff (\<lambda>_. True) True ix (fl_dir L) p = (Ok r, p') \<Longrightarrow>
    engine_run crc ff ix p0 L p'"

lemma feed_all_snoc:
  "feed_all (fss @ [fs]) d = st_bind (feed_all fss d) (\<lambda>bs d. st_bind (feed fs d) (\<lambda>b d. (Ok (bs @ [b]), d)))"
  by (induction fss arbitrary: d) (auto simp: st_bind_def split: prod.splits sum.splits)

lemma entry_set_lookup:
  "map_of (entry_set k v m) x = (if x = k \<and> map_of m k \<noteq> None then Some v else map_of m x)"
  by (induction m) (auto simp: entry_set_def)

lemma entry_set_keys [simp]: "map fst (entry_set k v m) = map fst m"
  by (induction m) (auto simp: entry_set_def)

text \<open>What a batch does to the columnar stores: each applies its own changes.\<close>

abbreviation changes_of :: "rstr \<Rightarrow> typed_change list \<Rightarrow> typed_change list" where
  "changes_of k \<equiv> filter (\<lambda>c. tc_table c = k)"

definition stores_follow ::
    "float_fmt \<Rightarrow> typed_change list \<Rightarrow> (rstr \<times> table_store) list \<Rightarrow> (rstr \<times> table_store) list \<Rightarrow> bool" where
  "stores_follow ff cs m m' \<longleftrightarrow> map fst m' = map fst m \<and>
     (\<forall>k s. map_of m k = Some s \<longrightarrow> (\<exists>s'. map_of m' k = Some s' \<and> apply_all ff (changes_of k cs) s = (Ok (), s')))"

lemma stores_follow_refl: "stores_follow ff [] m m"
  by (simp add: stores_follow_def)

lemma stores_follow_trans:
  assumes "stores_follow ff cs m m1" and "stores_follow ff ds m1 m2"
  shows "stores_follow ff (cs @ ds) m m2"
  unfolding stores_follow_def
proof (intro conjI allI impI)
  show "map fst m2 = map fst m" using assms by (simp add: stores_follow_def)
  fix k s assume "map_of m k = Some s"
  then obtain s1 where s1: "map_of m1 k = Some s1" "apply_all ff (changes_of k cs) s = (Ok (), s1)"
    using assms(1) by (auto simp: stores_follow_def)
  then obtain s2 where "map_of m2 k = Some s2" "apply_all ff (changes_of k ds) s1 = (Ok (), s2)"
    using assms(2) by (auto simp: stores_follow_def)
  then show "\<exists>s'. map_of m2 k = Some s' \<and> apply_all ff (changes_of k (cs @ ds)) s = (Ok (), s')"
    using s1 by (simp add: apply_all_append)
qed

lemma columnar_follow:
  assumes "apply_columnar ff True c p = (Ok u, p')"
  shows "stores_follow ff [c] (pl_columnar p) (pl_columnar p') \<and> p' = p\<lparr>pl_columnar := pl_columnar p'\<rparr>"
proof (cases "map_of (pl_columnar p) (tc_table c)")
  case None
  then show ?thesis using assms by (auto simp: apply_columnar_def stores_follow_def)
next
  case (Some s)
  obtain r s' where a: "apply_change ff True c s = (r, s')" by (cases "apply_change ff True c s")
  then have "r = Ok ()" "p' = p\<lparr>pl_columnar := entry_set (tc_table c) s' (pl_columnar p)\<rparr>"
    using assms Some by (auto simp: apply_columnar_def split: sum.splits)
  then show ?thesis using a Some by (auto simp: stores_follow_def entry_set_lookup)
qed

text \<open>The key columns of a table's index, which no poll changes.\<close>

definition search_keys :: "(rstr \<times> 'i search_store) list \<Rightarrow> rstr \<Rightarrow> rstr list option" where
  "search_keys m k = map_option ss_keys (map_of m k)"

lemma search_frame:
  assumes "apply_search ix i c p = (r, p')"
  shows "p' = p\<lparr>pl_search := pl_search p'\<rparr> \<and> search_keys (pl_search p') = search_keys (pl_search p)"
  using assms
  by (auto simp: apply_search_def Let_def search_keys_def entry_set_lookup fun_eq_iff dest: apply_frame split: option.splits prod.splits)

lemma apply_changes_follow:
  "apply_changes ff (\<lambda>_. True) ix i t cs p = (Ok t', p') \<Longrightarrow>
     stores_follow ff cs (pl_columnar p) (pl_columnar p') \<and> pl_tail p' = pl_tail p \<and> pl_decoder p' = pl_decoder p \<and>
     search_keys (pl_search p') = search_keys (pl_search p)"
proof (induction cs arbitrary: i t p)
  case (Cons c cs)
  obtain u p1 where 1: "apply_columnar ff True c p = (Ok u, p1)"
    and r: "st_bind (apply_search ix i c p1) (\<lambda>t' p. apply_changes ff (\<lambda>_. True) ix (i + 1) (t \<or> t') cs p) = (Ok t', p')"
    using Cons.prems by (auto simp: st_bind_Ok_iff)
  obtain b p2 where 2: "apply_search ix i c p1 = (Ok b, p2)"
    and 3: "apply_changes ff (\<lambda>_. True) ix (i + 1) (t \<or> b) cs p2 = (Ok t', p')"
    using r by (auto simp: st_bind_Ok_iff)
  note c = columnar_follow [OF 1] and s = search_frame [OF 2] and ih = Cons.IH [OF 3]
  obtain m1 where p1: "p1 = p\<lparr>pl_columnar := m1\<rparr>" using c by blast
  obtain m2 where p2: "p2 = p1\<lparr>pl_search := m2\<rparr>" using s by blast
  have "stores_follow ff cs (pl_columnar p1) (pl_columnar p')" using ih p2 by simp
  from stores_follow_trans [OF conjunct1 [OF c] this] ih s show ?case
    by (simp add: p1 p2)
qed (simp add: stores_follow_refl)

lemma commit_batch_keys: "commit_batch ix b l s = (r, s') \<Longrightarrow> ss_keys s' = ss_keys s"
  by (auto simp: commit_batch_def Let_def split: prod.splits if_splits)

lemma commit_all_keys: "commit_all ix b l m = (r, m') \<Longrightarrow> search_keys m' = search_keys m"
  by (induction m arbitrary: r m') (auto simp: Let_def search_keys_def fun_eq_iff split: prod.splits sum.splits dest!: commit_batch_keys [THEN sym])

lemma commit_frame:
  "commit_search ix b l t p = (r, p') \<Longrightarrow> \<exists>m. p' = p\<lparr>pl_search := m\<rparr> \<and> search_keys m = search_keys (pl_search p)"
  by (cases t; cases "commit_all ix b l (pl_search p)")
    (auto simp: commit_search_def dest: commit_all_keys intro: exI [of _ "pl_search p"])

text \<open>One poll of a tail that sees no rewind.\<close>

lemma poll_step:
  assumes "apply_new_frames crc ff (\<lambda>_. True) True ix d p = (Ok r, p')" and "read_new crc d (pl_tail p) = (Ok b, t)"
    and "\<not> tb_rewound b"
  shows "pl_tail p' = t \<and> search_keys (pl_search p') = search_keys (pl_search p) \<and>
    (if tb_frames b = [] then pl_decoder p' = pl_decoder p \<and> pl_columnar p' = pl_columnar p
     else \<exists>out. feed (tb_frames b) (pl_decoder p) = (Ok out, pl_decoder p') \<and>
       stores_follow ff (db_changes out) (pl_columnar p) (pl_columnar p'))"
proof (cases "tb_frames b = []")
  case True
  then show ?thesis using assms by (auto simp: apply_new_frames_def)
next
  case False
  obtain q dec where f: "feed (tb_frames b) (pl_decoder p) = (q, dec)" by (cases "feed (tb_frames b) (pl_decoder p)")
  obtain out where q: "q = Ok out" using assms f False by (cases q) (auto simp: apply_new_frames_def Let_def)
  let ?p = "p\<lparr>pl_tail := t, pl_decoder := dec\<rparr>"
  show ?thesis
  proof (cases "db_changes out = []")
    case True
    then have "p' = ?p" using assms f q False by (auto simp: apply_new_frames_def Let_def)
    then show ?thesis using False f q True by (simp add: stores_follow_refl)
  next
    case ne: False
    obtain touched p1 where a: "apply_changes ff (\<lambda>_. True) ix (db_first_change_index out) False (db_changes out) ?p = (Ok touched, p1)"
      and b: "st_bind (commit_search ix True (max (db_last_commit_lsn out) (pl_applied p1)) touched
          (p1\<lparr>pl_applied := max (db_last_commit_lsn out) (pl_applied p1)\<rparr>))
          (\<lambda>_ p. (Ok (Some (length (db_changes out), max (db_last_commit_lsn out) (pl_applied p1))), p)) = (Ok r, p')"
      using assms f q False ne by (auto simp: apply_new_frames_def Let_def st_bind_Ok_iff)
    note fa = apply_changes_follow [OF a]
    obtain v where c: "commit_search ix True (max (db_last_commit_lsn out) (pl_applied p1)) touched
          (p1\<lparr>pl_applied := max (db_last_commit_lsn out) (pl_applied p1)\<rparr>) = (Ok v, p')"
      using b by (auto simp: st_bind_Ok_iff)
    from commit_frame [OF c] obtain m where "p' = p1\<lparr>pl_applied := max (db_last_commit_lsn out) (pl_applied p1), pl_search := m\<rparr>"
        and "search_keys m = search_keys (pl_search p1)" by auto
    then show ?thesis using fa f q False by simp
  qed
qed

text \<open>A tail that was polled along reads the rest of the log and sees no rewind.\<close>

lemma tail_next:
  assumes "tail_run crc L t seen"
  obtains b t' where "read_new crc (fl_dir L) t = (Ok b, t')" and "\<not> tb_rewound b"
    and "seen @ tb_frames b = log_frames crc (fl_dir L)" and "tail_run crc L t' (seen @ tb_frames b)"
proof -
  from tail_run_inv [OF assms] obtain init lf j sp ms where inv: "log_inv crc L init lf j sp ms"
    and t: "tail_at crc (fl_dir L) t (length seen)" "seen = take (length seen) (log_frames crc (fl_dir L))" by blast
  define b where "b = \<lparr>tb_frames = drop (length seen) (log_frames crc (fl_dir L)), tb_rewound = False\<rparr>"
  from read_new_wf [OF inv_all_fit [OF inv] inv_distinct [OF inv] inv_dir_ne [OF inv] t(1)] obtain t' where
    "read_new crc (fl_dir L) t = (Ok b, t')" unfolding b_def by blast
  then have b: "read_new crc (fl_dir L) t = (Ok b, t')" "\<not> tb_rewound b"
      "tb_frames b = drop (length seen) (log_frames crc (fl_dir L))" by (simp_all add: b_def)
  moreover have "seen @ tb_frames b = log_frames crc (fl_dir L)" using b(3) t(2) by (metis append_take_drop_id)
  ultimately show ?thesis using that tail_read [OF assms b(1)] by blast
qed

definition fresh_pipeline :: "'i pipeline \<Rightarrow> bool" where
  "fresh_pipeline p \<longleftrightarrow> pl_tail p = tail_new \<and> pl_decoder p = decoder_new"

definition engine_at ::
    "crc_fun \<Rightarrow> float_fmt \<Rightarrow> 'i pipeline \<Rightarrow> frame_log \<Rightarrow> 'i pipeline \<Rightarrow> frame list list \<Rightarrow> decoded_batch list \<Rightarrow> bool" where
  "engine_at crc ff p0 L p fss bs \<longleftrightarrow>
     tail_run crc L (pl_tail p) (concat fss) \<and> feed_all fss decoder_new = (Ok bs, pl_decoder p) \<and>
     stores_follow ff (concat (map db_changes bs)) (pl_columnar p0) (pl_columnar p) \<and>
     search_keys (pl_search p) = search_keys (pl_search p0)"

lemma poll_at:
  assumes "engine_at crc ff p0 L p fss bs"
    and "apply_new_frames crc ff (\<lambda>_. True) True ix (fl_dir L) p = (Ok r, p')"
  shows "\<exists>fss' bs'. engine_at crc ff p0 L p' fss' bs' \<and> concat fss' = log_frames crc (fl_dir L)"
proof -
  have at: "tail_run crc L (pl_tail p) (concat fss)" "feed_all fss decoder_new = (Ok bs, pl_decoder p)"
    "stores_follow ff (concat (map db_changes bs)) (pl_columnar p0) (pl_columnar p)"
    "search_keys (pl_search p) = search_keys (pl_search p0)"
    using assms(1) by (simp_all add: engine_at_def)
  from tail_next [OF at(1)] obtain b t' where b: "read_new crc (fl_dir L) (pl_tail p) = (Ok b, t')" "\<not> tb_rewound b"
    "concat fss @ tb_frames b = log_frames crc (fl_dir L)" "tail_run crc L t' (concat fss @ tb_frames b)" .
  note st = poll_step [OF assms(2) b(1,2)]
  show ?thesis
  proof (cases "tb_frames b = []")
    case True
    then have "engine_at crc ff p0 L p' fss bs" using st at b by (simp add: engine_at_def)
    then show ?thesis using b(3) True by auto
  next
    case False
    then obtain out where o: "feed (tb_frames b) (pl_decoder p) = (Ok out, pl_decoder p')"
      "stores_follow ff (db_changes out) (pl_columnar p) (pl_columnar p')" using st by auto
    have "engine_at crc ff p0 L p' (fss @ [tb_frames b]) (bs @ [out])"
      unfolding engine_at_def using st b at o stores_follow_trans [OF at(3) o(2)] by (simp add: feed_all_snoc)
    then show ?thesis using b(3) by (intro exI [of _ "fss @ [tb_frames b]"]) auto
  qed
qed

lemma engine_run_at:
  "engine_run crc ff ix p0 L p \<Longrightarrow> fresh_pipeline p0 \<Longrightarrow> \<exists>fss bs. engine_at crc ff p0 L p fss bs"
proof (induction rule: engine_run.induct)
  case (er_start L ms)
  then have "engine_at crc ff p0 L p0 [] []"
    by (auto simp: engine_at_def fresh_pipeline_def stores_follow_refl intro: tail_start)
  then show ?case by blast
next
  case (er_write L p w oper u L')
  then show ?case unfolding engine_at_def using tail_write by blast
next
  case (er_poll L p r p')
  then show ?case using poll_at by blast
qed

section \<open>Polls do not fail on good input\<close>

text \<open>An index whose calls succeed, and changes that carry the text of the key columns.\<close>

definition index_calls_ok :: "'i index_ops \<Rightarrow> bool" where
  "index_calls_ok ix \<longleftrightarrow> (\<forall>d i. fst (ix_add ix d i)) \<and> (\<forall>i. fst (ix_delete_all ix i)) \<and> (\<forall>i. fst (ix_commit ix i))"

definition has_texts :: "rstr list \<Rightarrow> named_row option \<Rightarrow> bool" where
  "has_texts keys img = (case img of None \<Rightarrow> False | Some n \<Rightarrow> list_all (\<lambda>k. image_text n k \<noteq> None) keys)"

definition carries_key :: "rstr list \<Rightarrow> typed_change \<Rightarrow> bool" where
  "carries_key keys c =
     (case tc_op c of
        OInsert \<Rightarrow> has_texts keys (tc_new c)
      | OUpdate \<Rightarrow> keys \<noteq> [] \<and> has_texts keys (tc_new c) \<and> (tc_old c \<noteq> None \<longrightarrow> has_texts keys (tc_old c))
      | ODelete \<Rightarrow> keys \<noteq> [] \<and> has_texts keys (tc_old c)
      | OTruncate \<Rightarrow> True)"

lemma key_parts_total: "list_all (\<lambda>k. image_text n k \<noteq> None) keys \<Longrightarrow> \<exists>ps. key_parts n keys = Ok ps"
  by (induction keys) (auto simp: need_def)

lemma has_texts_key:
  assumes "has_texts (ss_keys s) img"
  obtains n k where "img = Some n" and "key_from_image s n = Ok k"
  using assms key_parts_total by (fastforce simp: has_texts_def key_from_image_def split: option.splits)

lemma add_doc_total: "index_calls_ok ix \<Longrightarrow> \<exists>s'. add_doc ix k vals l s = (Ok (), s')"
  by (auto simp: index_calls_ok_def add_doc_def ensure_def split: prod.splits) (metis fst_conv)+

lemma search_total:
  assumes "index_calls_ok ix" and "carries_key (ss_keys s) c"
  shows "\<exists>s'. search_apply ix c y s = (Ok (), s')"
proof (cases "tc_op c")
  case OInsert
  then have "has_texts (ss_keys s) (tc_new c)" using assms(2) by (simp add: carries_key_def)
  then obtain n k where "tc_new c = Some n" "key_from_image s n = Ok k" by (rule has_texts_key)
  then show ?thesis using OInsert add_doc_total [OF assms(1)]
    by (simp add: search_apply_def search_insert_def need_def)
next
  case OUpdate
  then have h: "is_keyed s" "has_texts (ss_keys s) (tc_new c)" "tc_old c \<noteq> None \<longrightarrow> has_texts (ss_keys s) (tc_old c)"
    using assms(2) by (simp_all add: carries_key_def is_keyed_def)
  obtain n k where n: "tc_new c = Some n" "key_from_image s n = Ok k" using h(2) by (rule has_texts_key)
  have "\<exists>k'. key_from_image s (case tc_old c of Some old \<Rightarrow> old | None \<Rightarrow> n) = Ok k'"
  proof (cases "tc_old c")
    case (Some old)
    then have "has_texts (ss_keys s) (tc_old c)" using h(3) by simp
    then show ?thesis by (rule has_texts_key) (simp add: Some)
  qed (simp add: n)
  then show ?thesis using OUpdate n h(1) add_doc_total [OF assms(1)]
    by (auto simp: search_apply_def search_update_def need_def ensure_def Let_def)
next
  case ODelete
  then have h: "is_keyed s" "has_texts (ss_keys s) (tc_old c)" using assms(2) by (simp_all add: carries_key_def is_keyed_def)
  obtain n k where "tc_old c = Some n" "key_from_image s n = Ok k" using h(2) by (rule has_texts_key)
  then show ?thesis using ODelete h(1) by (simp add: search_apply_def search_delete_def need_def ensure_def)
next
  case OTruncate
  have "fst (ix_delete_all ix (ss_index s))" using assms(1) by (simp add: index_calls_ok_def)
  then show ?thesis using OTruncate by (cases "ix_delete_all ix (ss_index s)") (simp add: search_apply_def search_truncate_def ensure_def)
qed

text \<open>The indexes, if there are any, take the changes.\<close>

definition indexes_take :: "'i index_ops \<Rightarrow> typed_change list \<Rightarrow> (rstr \<times> 'i search_store) list \<Rightarrow> bool" where
  "indexes_take ix cs m \<longleftrightarrow> (m = [] \<or> index_calls_ok ix) \<and>
     (\<forall>k keys. search_keys m k = Some keys \<longrightarrow> list_all (carries_key keys) (changes_of k cs))"

lemma search_keys_empty: "search_keys m = Map.empty \<longleftrightarrow> m = []"
  by (cases m) (auto simp: search_keys_def fun_eq_iff)

lemma indexes_take_frame: "search_keys m' = search_keys m \<Longrightarrow> indexes_take ix cs m' = indexes_take ix cs m"
  using search_keys_empty [of m] search_keys_empty [of m'] by (simp add: indexes_take_def)

lemma indexes_take_part: "indexes_take ix (bs @ cs @ ds) m \<Longrightarrow> indexes_take ix cs m"
  by (simp add: indexes_take_def)

lemma apply_search_total:
  assumes "indexes_take ix (c # cs) (pl_search p)"
  shows "\<exists>b p'. apply_search ix i c p = (Ok b, p')"
proof (cases "map_of (pl_search p) (tc_table c)")
  case (Some s)
  then have "search_keys (pl_search p) (tc_table c) = Some (ss_keys s)" by (simp add: search_keys_def)
  then have "carries_key (ss_keys s) c" "index_calls_ok ix" using assms Some unfolding indexes_take_def by fastforce+
  with search_total [of ix s c "synthetic_key i"] Some show ?thesis by (auto simp: apply_search_def)
qed (auto simp: apply_search_def)

lemma commit_all_total: "m = [] \<or> index_calls_ok ix \<Longrightarrow> \<exists>m'. commit_all ix True l m = (Ok (), m')"
proof (induction m)
  case (Cons e m)
  obtain k s where e: "e = (k, s)" by (cases e)
  have "fst (ix_commit ix (ss_index s))" using Cons.prems by (simp add: index_calls_ok_def)
  then have "\<exists>s'. commit_batch ix True l s = (Ok (), s')" by (cases "ix_commit ix (ss_index s)") (simp add: commit_batch_def)
  then show ?case using Cons e by auto
qed simp

lemma apply_changes_total:
  assumes "indexes_take ix cs (pl_search p)"
    and "\<And>k s. map_of (pl_columnar p) k = Some s \<Longrightarrow> \<exists>s'. apply_all ff (changes_of k cs) s = (Ok (), s')"
  shows "\<exists>t' p'. apply_changes ff (\<lambda>_. True) ix i t cs p = (Ok t', p') \<and> search_keys (pl_search p') = search_keys (pl_search p)"
  using assms
proof (induction cs arbitrary: i t p)
  case (Cons c cs)
  have "\<exists>p1. apply_columnar ff True c p = (Ok (), p1) \<and> pl_search p1 = pl_search p \<and>
    (\<forall>k s. map_of (pl_columnar p1) k = Some s \<longrightarrow> (\<exists>s'. apply_all ff (changes_of k cs) s = (Ok (), s')))"
  proof (cases "map_of (pl_columnar p) (tc_table c)")
    case None
    have "\<exists>s'. apply_all ff (changes_of k cs) s = (Ok (), s')" if "map_of (pl_columnar p) k = Some s" for k s
      using Cons.prems(2) [OF that] None that by (cases "tc_table c = k") auto
    then show ?thesis using None by (simp add: apply_columnar_def)
  next
    case (Some s)
    then obtain s1 where s1: "apply_change ff True c s = (Ok (), s1)" and r: "\<exists>s'. apply_all ff (changes_of (tc_table c) cs) s1 = (Ok (), s')"
      using Cons.prems(2) [OF Some] by (auto simp: st_bind_Ok_iff)
    let ?p1 = "p\<lparr>pl_columnar := entry_set (tc_table c) s1 (pl_columnar p)\<rparr>"
    have "\<exists>s'. apply_all ff (changes_of k cs) u = (Ok (), s')" if "map_of (pl_columnar ?p1) k = Some u" for k u
      using that Some r Cons.prems(2) [of k u] by (auto simp: entry_set_lookup split: if_splits)
    then show ?thesis using Some s1 by (simp add: apply_columnar_def)
  qed
  then obtain p1 where p1: "apply_columnar ff True c p = (Ok (), p1)" "pl_search p1 = pl_search p"
    "\<And>k s. map_of (pl_columnar p1) k = Some s \<Longrightarrow> \<exists>s'. apply_all ff (changes_of k cs) s = (Ok (), s')" by blast
  obtain b p2 where p2: "apply_search ix i c p1 = (Ok b, p2)"
    using apply_search_total [of ix c cs p1 i] Cons.prems(1) p1(2) by auto
  note fr = search_frame [OF p2]
  then obtain m where m: "p2 = p1\<lparr>pl_search := m\<rparr>" by blast
  have "indexes_take ix cs (pl_search p2)"
    using indexes_take_part [of ix "[c]" cs "[]"] indexes_take_frame [OF conjunct2 [OF fr]] Cons.prems(1) p1(2) by simp
  from Cons.IH [OF this, of "i + 1" "t \<or> b"] p1(3) obtain t' p' where
    "apply_changes ff (\<lambda>_. True) ix (i + 1) (t \<or> b) cs p2 = (Ok t', p')" "search_keys (pl_search p') = search_keys (pl_search p2)" by (auto simp: m)
  then show ?case using p1(1,2) p2 fr by auto
qed auto

lemma feed_all_prefix:
  assumes "feed_all (fss @ [fs]) d = (Ok bs, d')" and "feed_all fss d = (Ok bs0, d0)"
  shows "\<exists>b. feed fs d0 = (Ok b, d') \<and> bs = bs0 @ [b]"
  using assms by (auto simp: feed_all_snoc st_bind_Ok_iff)

lemma poll_total:
  assumes at: "engine_at crc ff p0 L p fss bs" and ix: "indexes_take ix cs (pl_search p0)"
    and "\<And>gss. concat gss = log_frames crc (fl_dir L) \<Longrightarrow> \<exists>bs d. feed_all gss decoder_new = (Ok bs, d) \<and> concat (map db_changes bs) = cs"
    and "\<And>k s. map_of (pl_columnar p0) k = Some s \<Longrightarrow> \<exists>s'. apply_all ff (changes_of k cs) s = (Ok (), s')"
  shows "is_ok (fst (apply_new_frames crc ff (\<lambda>_. True) True ix (fl_dir L) p))"
proof -
  have a: "tail_run crc L (pl_tail p) (concat fss)" "feed_all fss decoder_new = (Ok bs, pl_decoder p)"
    "stores_follow ff (concat (map db_changes bs)) (pl_columnar p0) (pl_columnar p)" "search_keys (pl_search p) = search_keys (pl_search p0)"
    using at by (simp_all add: engine_at_def)
  from tail_next [OF a(1)] obtain b t' where b: "read_new crc (fl_dir L) (pl_tail p) = (Ok b, t')" "\<not> tb_rewound b"
    "concat fss @ tb_frames b = log_frames crc (fl_dir L)" by blast
  show ?thesis
  proof (cases "tb_frames b = []")
    case True
    then show ?thesis using b by (simp add: apply_new_frames_def)
  next
    case False
    have "concat (fss @ [tb_frames b]) = log_frames crc (fl_dir L)" using b(3) by simp
    from assms(3) [OF this] obtain bs2 d2 where f2: "feed_all (fss @ [tb_frames b]) decoder_new = (Ok bs2, d2)"
      "concat (map db_changes bs2) = cs" by blast
    from feed_all_prefix [OF f2(1) a(2)] obtain out where out: "feed (tb_frames b) (pl_decoder p) = (Ok out, d2)" "bs2 = bs @ [out]"
      by blast
    have cs: "cs = concat (map db_changes bs) @ db_changes out" using f2(2) out(2) by simp
    have tot: "\<exists>s'. apply_all ff (changes_of k (db_changes out)) s = (Ok (), s')" if s: "map_of (pl_columnar p) k = Some s" for k s
    proof -
      have "k \<in> fst ` set (pl_columnar p0)"
        using s a(3) map_of_SomeD [OF s] unfolding stores_follow_def by (metis fst_conv image_eqI list.set_map)
      then obtain s0 where s0: "map_of (pl_columnar p0) k = Some s0" by (cases "map_of (pl_columnar p0) k") (auto simp: map_of_eq_None_iff)
      then have "apply_all ff (changes_of k (concat (map db_changes bs))) s0 = (Ok (), s)"
        using a(3) s by (fastforce simp: stores_follow_def)
      with assms(4) [OF s0] show ?thesis by (auto simp: cs apply_all_append)
    qed
    let ?p = "p\<lparr>pl_tail := t', pl_decoder := d2\<rparr>"
    have "indexes_take ix (db_changes out) (pl_search p)"
      using ix indexes_take_part [of ix "concat (map db_changes bs)" "db_changes out" "[]" "pl_search p0"]
      unfolding indexes_take_frame [OF a(4)] cs by (simp only: append_Nil2)
    with apply_changes_total [of ix "db_changes out" ?p ff "db_first_change_index out" False] tot obtain q p2 where
      ac: "apply_changes ff (\<lambda>_. True) ix (db_first_change_index out) False (db_changes out) ?p = (Ok q, p2)"
      "search_keys (pl_search p2) = search_keys (pl_search p)" by auto
    have "pl_search p2 = [] \<or> index_calls_ok ix"
      using ix indexes_take_frame [of "pl_search p2" "pl_search p0" ix cs] ac(2) a(4) by (metis indexes_take_def)
    then have "\<exists>p3. commit_search ix True l q (p2\<lparr>pl_applied := x\<rparr>) = (Ok (), p3)" for l x
      using commit_all_total [of "pl_search p2" ix l] by (auto simp: commit_search_def)
    then obtain f where "\<And>l x. commit_search ix True l q (p2\<lparr>pl_applied := x\<rparr>) = (Ok (), f l x)" by metis
    then show ?thesis using b False out(1) ac(1) by (simp add: apply_new_frames_def Let_def)
  qed
qed

section \<open>The stores equal the replay of the log\<close>

lemma feed_all_log:
  assumes "log_inv crc L init lf j sp ms" and "concat fss = log_frames crc (fl_dir L)"
    and "replay_log crc (fl_dir L) = Ok out"
  shows "\<exists>bs d. feed_all fss decoder_new = (Ok bs, d) \<and> concat (map db_changes bs) = rp_changes out"
proof -
  have "numbered (concat fss)"
    unfolding assms(2) log_frames_inv [OF assms(1)] using invE(2) [OF assms(1)] numbered_prefix [of "flat init @ lf" sp] by simp
  then have cont: "contiguous (sd_next_seq decoder_new) (concat fss)"
    using numbered_contiguous by (simp add: decoder_new_def)
  from assms(3) verify_clean [OF inv_clean [OF assms(1)]] obtain n live txn where
    rep: "replay_frames (concat fss) (init_replay n) = Ok (out, live, txn)"
    unfolding assms(2) by (auto simp: replay_log_def verify_log_def res_bind_Ok_iff)
  obtain rout0 where i: "init_replay n = (rout0, [], None)" and r0: "rp_changes rout0 = []" "rp_ddl_events rout0 = []"
    "rp_txns rout0 = 0" "rp_registry rout0 = []"
    by (simp add: init_replay_def)
  have "simulates (rp_changes rout0) (rp_ddl_events rout0) (rp_txns rout0) (init_batch 0) decoder_new (rout0, [], None)"
    using r0 by (simp add: simulates_def decoder_new_def init_batch_def)
  from feed_all_replay [OF this cont] rep i r0 show ?thesis by auto
qed

text \<open>The changes of a table as its source sends them after the consistent point.\<close>

definition follows_table ::
    "float_fmt \<Rightarrow> u64 \<Rightarrow> column_spec list \<Rightarrow> (row \<Rightarrow> bytes) \<Rightarrow> typed_change list \<Rightarrow> row list \<Rightarrow> bool" where
  "follows_table ff lsn0 cols key cs rows \<longleftrightarrow>
     sorted (map tc_commit_lsn cs) \<and> list_all (\<lambda>c. lsn0 \<le> tc_commit_lsn c) cs \<and>
     replicable ff cols key cs rows \<and> length rows + length cs < 2 ^ 64"

lemma follow_store:
  assumes "table_ready ff lsn0 rows s0" and "follows_table ff lsn0 (ts_columns s0) (key_of s0) cs rows"
  shows "\<exists>s. apply_all ff cs s0 = (Ok (), s) \<and>
    (\<forall>lsn \<ge> lsn0. scan_at ff lsn s = Ok (spec_run (key_of s0) (filter (\<lambda>c. tc_commit_lsn c \<le> lsn) cs) rows))"
proof -
  have f: "sorted (map tc_commit_lsn cs)" "\<forall>c \<in> set cs. lsn0 \<le> tc_commit_lsn c"
    "replicable ff (ts_columns s0) (key_of s0) cs rows" "length rows + length cs < 2 ^ 64"
    using assms(2) by (simp_all add: follows_table_def list_all_iff)
  from history_from_total [OF assms(1) f] obtain s where s: "apply_all ff cs s0 = (Ok (), s)" by blast
  note h = history_from [OF assms(1) f(1,2) replicable_admissible [OF f(3)] f(4) s]
  have "scan_at ff lsn s = Ok (table_at lsn (versions ff s))" for lsn
    using scan_visible h by (simp add: table_at_def store_inv_def)
  then show ?thesis using s h by auto
qed

text \<open>The tables of an attach: keyed, staged, and with rows a typed column prints back.\<close>

definition attachable :: "float_fmt \<Rightarrow> (rstr \<times> bytes) list \<Rightarrow> table_manifest list \<Rightarrow> bool" where
  "attachable ff files ms \<longleftrightarrow> distinct (map tm_table ms) \<and>
     list_all (\<lambda>m. keyed_manifest m \<and> list_all (\<lambda>p. map_of files (pm_file p) \<noteq> None) (tm_parts m) \<and>
        loadable ff (specs_of m) (manifest_key m) (manifest_rows files m)) ms"

lemma build_columnar_ready:
  assumes "attachable ff files ms" and "build_columnar ff True files n lsn0 ms = Ok col"
  shows "map fst col = map tm_table ms \<and> (\<forall>m \<in> set ms. \<exists>s. map_of col (tm_table m) = Some s \<and>
    table_ready ff lsn0 (manifest_rows files m) s \<and> key_of s = manifest_key m \<and> ts_columns s = specs_of m)"
  using assms
proof (induction ms arbitrary: col)
  case (Cons m ms)
  then obtain s rest where s: "build_table_store ff True files n lsn0 m = Ok s"
    and r: "build_columnar ff True files n lsn0 ms = Ok rest" and col: "col = insert_before (tm_table m) s rest"
    by (auto simp: res_bind_Ok_iff)
  from Cons.prems(1) build_ready [of m files ff n lsn0] s have
    ready: "table_ready ff lsn0 (manifest_rows files m) s \<and> key_of s = manifest_key m \<and> ts_columns s = specs_of m"
    by (auto simp: attachable_def)
  have "attachable ff files ms" using Cons.prems(1) by (simp add: attachable_def)
  note ih = Cons.IH [OF this r]
  have other: "tm_table m' \<noteq> tm_table m" if "m' \<in> set ms" for m'
  proof
    assume "tm_table m' = tm_table m"
    then have "tm_table m \<in> tm_table ` set ms" using that by (metis image_eqI)
    then show False using Cons.prems(1) by (simp add: attachable_def)
  qed
  have "tm_table m \<notin> set (map fst rest)" using ih other by fastforce
  then have "map_of rest (tm_table m) = None" by (simp add: map_of_eq_None_iff)
  then have "col = (tm_table m, s) # rest" by (simp add: col insert_before_def)
  with ready ih other show ?case by auto
qed simp

text \<open>The indexes of an attach are keyed like their tables.\<close>

lemma index_lines_keys: "index_lines ix f cols keys l n ls s = (r, s') \<Longrightarrow> ss_keys s' = ss_keys s"
proof (induction ls arbitrary: n s)
  case (Cons line ls)
  have "ss_keys t = ss_keys s" if "index_backfill_row ix k vals l s = (q, t)" for q t k vals
    using that add_doc_frame [of ix k vals l "delete_key ix k s"] by (auto simp: index_backfill_row_def)
  then show ?case using Cons by (auto simp: Let_def split: if_splits prod.splits sum.splits)
qed simp

lemma index_parts_keys: "index_parts ix files cols keys l ps s = (r, s') \<Longrightarrow> ss_keys s' = ss_keys s"
  by (induction ps arbitrary: s) (auto simp: st_bind_def need_def dest: index_lines_keys split: prod.splits sum.splits option.splits)

lemma build_search_store_keys: "build_search_store ix b files l cols m = Ok s \<Longrightarrow> ss_keys s = tm_keys m"
  by (auto simp: build_search_store_def search_create_def res_bind_Ok_iff dest!: commit_batch_keys index_parts_keys
      split: sum.splits prod.splits)

lemma build_search_keys:
  "build_search ix b files l tables indexes = Ok m \<Longrightarrow> search_keys m k = Some keys \<Longrightarrow>
     \<exists>t. t \<in> set tables \<and> tm_table t = k \<and> keys = tm_keys t \<and> k \<in> set (map fst indexes)"
proof (induction indexes arbitrary: m)
  case (Cons i rest_ixs)
  obtain table cols where i: "i = (table, cols)" by (cases i)
  show ?case
  proof (cases "find (\<lambda>t. tm_table t = table) tables")
    case None
    then show ?thesis using Cons by (auto simp: i)
  next
    case (Some t)
    obtain s rest where s: "build_search_store ix b files l cols t = Ok s" and r: "build_search ix b files l tables rest_ixs = Ok rest"
      and m: "m = insert_before table s rest" using Cons.prems(1) Some by (auto simp: i res_bind_Ok_iff)
    have "t \<in> set tables" "tm_table t = table" using Some by (auto simp: find_Some_iff)
    then show ?thesis using Cons.IH [OF r] Cons.prems(2) build_search_store_keys [OF s]
      by (auto simp: m i insert_before_def search_keys_def split: if_splits)
  qed
qed (simp add: search_keys_def)

lemma attached_indexes:
  assumes "build_search ix True files l (sn_tables manifest) indexes = Ok m"
    and "indexes = [] \<or> index_calls_ok ix"
    and "list_all (\<lambda>t. tm_table t \<in> set (map fst indexes) \<longrightarrow> list_all (carries_key (tm_keys t)) (changes_of (tm_table t) cs))
           (sn_tables manifest)"
  shows "indexes_take ix cs m"
proof -
  have "m = [] \<or> index_calls_ok ix" using assms(1,2) by auto
  then show ?thesis using build_search_keys [OF assms(1)] assms(3) unfolding indexes_take_def list_all_iff by blast
qed

text \<open>
  C4. The materialized tables are the source's. A log and an attach of keyed, staged tables whose typed columns print
  back; log operations and polls, each without error and with file writes that succeed, in any order; a log whose replay succeeds and whose changes to each
  table, none before the consistent point, are well formed for its rows; and, if there are search indexes, index calls
  that succeed and changes that carry the text of the key columns. Then the next poll, its file writes succeeding, returns without error, and every
  table answers a scan at any LSN from the consistent point on with its staged rows as the changes of offline replay of
  the whole log, up to that LSN, leave them.
\<close>
theorem engine_tables_equal_replay:
  assumes "attach_pipeline ff ix True files n lsn0 manifest indexes eligibility version = Ok p0"
    and "attachable ff files (sn_tables manifest)"
    and "engine_run crc ff ix p0 L p"
    and "replay_log crc (fl_dir L) = Ok out"
    and "list_all (\<lambda>m. follows_table ff lsn0 (specs_of m) (manifest_key m) (changes_of (tm_table m) (rp_changes out))
           (manifest_rows files m)) (sn_tables manifest)"
    and "indexes = [] \<or> index_calls_ok ix"
    and "list_all (\<lambda>m. tm_table m \<in> set (map fst indexes) \<longrightarrow>
           list_all (carries_key (tm_keys m)) (changes_of (tm_table m) (rp_changes out))) (sn_tables manifest)"
  shows "\<exists>r p'. apply_new_frames crc ff (\<lambda>_. True) True ix (fl_dir L) p = (Ok r, p') \<and>
    (\<forall>m \<in> set (sn_tables manifest). \<exists>s. map_of (pl_columnar p') (tm_table m) = Some s \<and>
      (\<forall>lsn \<ge> lsn0. scan_at ff lsn s =
         Ok (spec_run (manifest_key m) (filter (\<lambda>c. tc_commit_lsn c \<le> lsn) (changes_of (tm_table m) (rp_changes out)))
               (manifest_rows files m))))"
proof -
  let ?poll = "apply_new_frames crc ff (\<lambda>_. True) True ix (fl_dir L) p"
  obtain srch where p0: "build_columnar ff True files n lsn0 (sn_tables manifest) = Ok (pl_columnar p0)"
    "build_search ix True files lsn0 (sn_tables manifest) indexes = Ok srch" "pl_search p0 = srch" "fresh_pipeline p0"
    using assms(1) by (auto simp: attach_pipeline_def res_bind_Ok_iff fresh_pipeline_def)
  note ready = build_columnar_ready [OF assms(2) p0(1)]
  from engine_run_at [OF assms(3) p0(4)] obtain fss bs where at: "engine_at crc ff p0 L p fss bs" by blast
  then obtain init lf j sp ms where inv: "log_inv crc L init lf j sp ms"
    using tail_run_inv unfolding engine_at_def by blast
  have replay: "\<exists>bs d. feed_all gss decoder_new = (Ok bs, d) \<and> concat (map db_changes bs) = rp_changes out"
    if "concat gss = log_frames crc (fl_dir L)" for gss
    using feed_all_log [OF inv that assms(4)] .
  have good: "\<exists>s. apply_all ff (changes_of (tm_table m) (rp_changes out)) s0 = (Ok (), s) \<and>
      (\<forall>lsn \<ge> lsn0. scan_at ff lsn s =
         Ok (spec_run (manifest_key m) (filter (\<lambda>c. tc_commit_lsn c \<le> lsn) (changes_of (tm_table m) (rp_changes out)))
               (manifest_rows files m)))"
    if m: "m \<in> set (sn_tables manifest)" and s0: "map_of (pl_columnar p0) (tm_table m) = Some s0" for m s0
  proof -
    have "table_ready ff lsn0 (manifest_rows files m) s0" "key_of s0 = manifest_key m" "ts_columns s0 = specs_of m"
      using ready m s0 by auto
    moreover have "follows_table ff lsn0 (specs_of m) (manifest_key m) (changes_of (tm_table m) (rp_changes out)) (manifest_rows files m)"
      using assms(5) m unfolding list_all_iff by blast
    ultimately show ?thesis using follow_store [of ff lsn0 "manifest_rows files m" s0] by metis
  qed
  have take: "indexes_take ix (rp_changes out) (pl_search p0)"
    using attached_indexes [OF p0(2) assms(6,7)] p0(3) by simp
  have "\<exists>s'. apply_all ff (changes_of k (rp_changes out)) s = (Ok (), s')" if "map_of (pl_columnar p0) k = Some s" for k s
  proof -
    have "k \<in> set (map fst (pl_columnar p0))" using map_of_SomeD [OF that] by force
    then obtain m where "m \<in> set (sn_tables manifest)" "k = tm_table m" using ready by auto
    then show ?thesis using good that by blast
  qed
  then have "is_ok (fst ?poll)" using poll_total [OF at take] replay by blast
  then obtain r p' where poll: "?poll = (Ok r, p')" by (cases ?poll; cases "fst ?poll") auto
  from poll_at [OF at poll] obtain gss cs where g: "engine_at crc ff p0 L p' gss cs" "concat gss = log_frames crc (fl_dir L)"
    by blast
  then have fol: "stores_follow ff (rp_changes out) (pl_columnar p0) (pl_columnar p')"
    using replay [OF g(2)] by (auto simp: engine_at_def)
  have "\<exists>s. map_of (pl_columnar p') (tm_table m) = Some s \<and>
      (\<forall>lsn \<ge> lsn0. scan_at ff lsn s =
         Ok (spec_run (manifest_key m) (filter (\<lambda>c. tc_commit_lsn c \<le> lsn) (changes_of (tm_table m) (rp_changes out)))
               (manifest_rows files m)))" if m: "m \<in> set (sn_tables manifest)" for m
  proof -
    obtain s0 where s0: "map_of (pl_columnar p0) (tm_table m) = Some s0" using ready m by blast
    from good [OF m s0] fol s0 show ?thesis unfolding stores_follow_def by fastforce
  qed
  then show ?thesis using poll by blast
qed

section \<open>A concrete run\<close>

lemma engine_append:
  assumes "engine_run (\<lambda>_. 0) ff ix p0 L p"
    and "fst (run_op (\<lambda>_. 0) io_fine (OpAppend (fr_lsn_start f) (fr_lsn_end f) (fr_txn_complete f) (fr_payload f)) L) = Ok ()"
    and "op_fits (OpAppend (fr_lsn_start f) (fr_lsn_end f) (fr_txn_complete f) (fr_payload f)) L"
  shows "engine_run (\<lambda>_. 0) ff ix p0 (append_ok f L) p"
  by (rule er_write [OF assms(1) _ assms(3), of io_fine "()"]) (use assms(2) in \<open>simp add: append_ok_def prod_eq_iff\<close>)

lemma follow_log_run:
  assumes "map length ps = [21, 37, 15, 26]"
  shows "engine_run (\<lambda>_. 0) ff ix p0 (follow_log ps) p0"
proof -
  from list_of_four [OF assms] obtain q0 q1 q2 q3 where ps: "ps = [q0, q1, q2, q3]"
    "length q0 = 21" "length q1 = 37" "length q2 = 15" "length q3 = 26" by blast
  have "engine_run (\<lambda>_. 0) ff ix p0 (log_create 1000) p0" by (rule er_start [OF reach_create])
  then show ?thesis
    unfolding ps(1) follow_log_def demo_frames_def
    apply simp
    apply (intro engine_append)
    apply (simp_all add: ps append_ok_def run_op_defs Let_def dir_update_def file_append_def
        file_sync_def empty_file_def)
    done
qed

definition demo_applied :: typed_change where
  "demo_applied = (demo_change OUpdate 7 (Some (demo_image ''1'' TUnchangedToast)) None)\<lparr>tc_table := str ''app.t''\<rparr>"

lemma follow_change_applied: "follow_change = demo_applied"
  by (simp add: follow_change_def demo_applied_def demo_change_def demo_image_def)

lemmas follow_feed = txn_feed [unfolded follow_change_applied]

lemmas follow_replay = txn_replay [unfolded follow_change_applied]

definition demo_snapshot :: snapshot_manifest where
  "demo_snapshot = \<lparr>sn_lsn0 = str ''0/5'', sn_snapshot = str ''s'', sn_tables = [demo_manifest]\<rparr>"

lemma demo_attachable: "attachable demo_ff demo_files (sn_tables demo_snapshot)"
  using demo_loadable
  by (simp add: attachable_def demo_snapshot_def)
    (simp add: keyed_manifest_def specs_of_def demo_manifest_def key_columns_def enumerate_eq_zip demo_files_def)

lemma demo_applied_follows:
  "follows_table demo_ff 5 (specs_of demo_manifest) (manifest_key demo_manifest) [demo_applied] (manifest_rows demo_files demo_manifest)"
  unfolding demo_manifest_rows
  by (simp add: follows_table_def demo_applied_def demo_change_def demo_image_def well_formed_def admissible_def image_ok_def image_of_def
      old_image_def canonical_def specs_of_def demo_manifest_def manifest_key_def key_columns_def key_bytes_def
      enumerate_eq_zip image_values_def less_Suc_eq_0_disj build_cell_def arrow_type_def render_cell_def demo_values)

lemma demo_applied_result:
  "spec_run (manifest_key demo_manifest) (filter (\<lambda>c. tc_commit_lsn c \<le> 7) [demo_applied]) (manifest_rows demo_files demo_manifest) =
    [[Some (str ''2''), None], [Some (str ''1''), Some (str ''a'')]]"
  unfolding demo_manifest_rows
  by (simp add: spec_run_def demo_applied_def demo_change_def demo_image_def old_image_def image_of_def specs_of_def
      demo_manifest_def manifest_key_def key_columns_def key_bytes_def enumerate_eq_zip image_values_def)

text \<open>The run has a search index on the table's text column.\<close>

abbreviation demo_indexes :: "(rstr \<times> rstr list) list" where
  "demo_indexes \<equiv> [(str ''app.t'', [str ''t''])]"

lemma demo_index_built: "\<exists>m. build_search mem_index True demo_files 5 [demo_manifest] demo_indexes = Ok m"
  by (simp add: demo_manifest_def demo_files_def build_search_store_def search_create_def mem_index_def need_def
      positions_in_def List.map_filter_def position_of_def parse_copy_line_def unescape_field_def utf8_ok_ascii
      index_backfill_row_def add_doc_def delete_key_def ensure_def commit_batch_def insert_before_def Let_def doc_of_def)

lemma demo_keys_carried: "list_all (carries_key (tm_keys demo_manifest)) [demo_applied]"
  by (simp add: carries_key_def demo_manifest_def demo_applied_def demo_change_def demo_image_def has_texts_def image_text_def)

lemma mem_index_calls_ok: "index_calls_ok mem_index"
  by (auto simp: index_calls_ok_def mem_index_def)

theorem engine_tables_equal_replay_witness:
  "\<exists>p0 r p' s. attach_pipeline demo_ff mem_index True demo_files 2 5 demo_snapshot demo_indexes [] [] = Ok p0 \<and>
    apply_new_frames (\<lambda>_. 0) demo_ff (\<lambda>_. True) True mem_index (fl_dir (follow_log (map wire_message demo_txn))) p0 = (Ok r, p') \<and>
    map_of (pl_columnar p') (str ''app.t'') = Some s \<and>
    scan_at demo_ff 7 s = Ok [[Some (str ''2''), None], [Some (str ''1''), Some (str ''a'')]]"
proof -
  have len: "map length (map wire_message demo_txn) = [21, 37, 15, 26]" using demo_lengths by simp
  have km: "keyed_manifest demo_manifest" and tm: "tm_table demo_manifest = str ''app.t''"
    by (simp_all add: keyed_manifest_def specs_of_def demo_manifest_def key_columns_def enumerate_eq_zip)
  have fl: "list_all (\<lambda>p. map_of demo_files (pm_file p) \<noteq> None) (tm_parts demo_manifest)"
    by (simp add: demo_manifest_def demo_files_def)
  from build_ready [OF km fl demo_loadable] obtain s0 where
    "build_table_store demo_ff True demo_files 2 5 demo_manifest = Ok s0" by blast
  with demo_index_built obtain p0 where p0: "attach_pipeline demo_ff mem_index True demo_files 2 5 demo_snapshot demo_indexes [] [] = Ok p0"
    by (auto simp: attach_pipeline_def demo_snapshot_def)
  from follow_replay [OF len refl] obtain out where
    out: "replay_log (\<lambda>_. 0) (fl_dir (follow_log (map wire_message demo_txn))) = Ok out" "rp_changes out = [demo_applied]" by blast
  have fol: "list_all (\<lambda>m. follows_table demo_ff 5 (specs_of m) (manifest_key m) (changes_of (tm_table m) (rp_changes out))
      (manifest_rows demo_files m)) (sn_tables demo_snapshot)"
    using demo_applied_follows by (simp add: demo_snapshot_def out(2) tm demo_applied_def)
  have here: "demo_manifest \<in> set (sn_tables demo_snapshot)" "changes_of (tm_table demo_manifest) (rp_changes out) = [demo_applied]"
    by (simp_all add: demo_snapshot_def out(2) tm demo_applied_def)
  have carried: "list_all (\<lambda>m. tm_table m \<in> set (map fst demo_indexes) \<longrightarrow>
      list_all (carries_key (tm_keys m)) (changes_of (tm_table m) (rp_changes out))) (sn_tables demo_snapshot)"
    using demo_keys_carried by (simp only: demo_snapshot_def snapshot_manifest.simps list.pred_inject here(2) simp_thms)
  from engine_tables_equal_replay [OF p0 demo_attachable follow_log_run [OF len] out(1) fol disjI2 [OF mem_index_calls_ok] carried]
  obtain r p' where poll: "apply_new_frames (\<lambda>_. 0) demo_ff (\<lambda>_. True) True mem_index
      (fl_dir (follow_log (map wire_message demo_txn))) p0 = (Ok r, p')"
    and tables: "\<forall>m \<in> set (sn_tables demo_snapshot). \<exists>s. map_of (pl_columnar p') (tm_table m) = Some s \<and>
      (\<forall>lsn \<ge> 5. scan_at demo_ff lsn s = Ok (spec_run (manifest_key m)
         (filter (\<lambda>c. tc_commit_lsn c \<le> lsn) (changes_of (tm_table m) (rp_changes out))) (manifest_rows demo_files m)))"
    by (elim exE conjE)
  from bspec [OF tables here(1)] obtain s where "map_of (pl_columnar p') (str ''app.t'') = Some s"
    "\<forall>lsn \<ge> 5. scan_at demo_ff lsn s = Ok (spec_run (manifest_key demo_manifest)
       (filter (\<lambda>c. tc_commit_lsn c \<le> lsn) [demo_applied]) (manifest_rows demo_files demo_manifest))"
    unfolding here(2) unfolding tm by (elim exE conjE)
  moreover have "(5 :: u64) \<le> 7" by simp
  ultimately show ?thesis using p0 poll demo_applied_result by metis
qed

section \<open>What a failed apply leaves\<close>

lemma apply_changes_frame:
  "apply_changes ff g ix i t cs p = (r, p') \<Longrightarrow> pl_tail p' = pl_tail p \<and> pl_applied p' = pl_applied p"
proof (induction cs arbitrary: i t p)
  case (Cons c cs)
  obtain r1 p1 where 1: "apply_columnar ff (g i) c p = (r1, p1)" by fastforce
  obtain r2 p2 where 2: "apply_search ix i c p1 = (r2, p2)" by fastforce
  have "pl_tail p1 = pl_tail p \<and> pl_applied p1 = pl_applied p"
    using 1 by (auto simp: apply_columnar_def Let_def split: option.splits prod.splits)
  moreover have "pl_tail p2 = pl_tail p1 \<and> pl_applied p2 = pl_applied p1"
    using 2 by (auto simp: apply_search_def Let_def split: option.splits prod.splits)
  ultimately show ?case using Cons.prems Cons.IH 1 2 by (cases r1; cases r2) (auto simp: st_bind_def)
qed simp

lemma commit_all_error: "commit_all ix b l m = (Inl e, m') \<Longrightarrow> \<exists>x. e = ESearch x"
  by (induction m arbitrary: m') (auto simp: Let_def split: prod.splits sum.splits)

lemma store_error_frame:
  assumes "apply_new_frames crc ff g h ix d p = (Err (EStore e), p')" and "read_new crc d (pl_tail p) = (Ok b, t)"
  shows "pl_tail p' = t \<and> pl_applied p' = pl_applied p"
proof -
  define p1 where "p1 = (if tb_rewound b then (p\<lparr>pl_tail := t\<rparr>)\<lparr>pl_decoder := abort_open_txn (pl_decoder p)\<rparr> else p\<lparr>pl_tail := t\<rparr>)"
  have p1: "pl_tail p1 = t" "pl_applied p1 = pl_applied p" by (simp_all add: p1_def)
  obtain q dec where f: "feed (tb_frames b) (pl_decoder p1) = (q, dec)" by fastforce
  have ne: "tb_frames b \<noteq> []" using assms by (auto simp: apply_new_frames_def Let_def split: if_splits)
  obtain out where q: "q = Ok out"
    using assms f ne by (cases q) (auto simp: apply_new_frames_def Let_def p1_def split: if_splits)
  have ch: "db_changes out \<noteq> []"
    using assms f ne q by (auto simp: apply_new_frames_def Let_def p1_def split: if_splits)
  obtain r2 p2 where a: "apply_changes ff g ix (db_first_change_index out) False (db_changes out) (p1\<lparr>pl_decoder := dec\<rparr>) = (r2, p2)"
    by fastforce
  have fr: "pl_tail p2 = t \<and> pl_applied p2 = pl_applied p" using apply_changes_frame [OF a] p1 by simp
  show ?thesis
  proof (cases r2)
    case (Inl e')
    then have "p' = p2" using assms f ne q ch a by (auto simp: apply_new_frames_def Let_def p1_def split: if_splits)
    then show ?thesis using fr by simp
  next
    case (Inr touched)
    let ?p3 = "p2\<lparr>pl_applied := max (db_last_commit_lsn out) (pl_applied p2)\<rparr>"
    have "apply_new_frames crc ff g h ix d p =
        st_bind (commit_search ix h (max (db_last_commit_lsn out) (pl_applied p2)) touched ?p3)
          (\<lambda>_ p. (Ok (Some (length (db_changes out), max (db_last_commit_lsn out) (pl_applied p2))), p))"
      using assms(2) f ne q ch a Inr by (simp add: apply_new_frames_def Let_def p1_def split del: if_split cong: if_cong)
    then show ?thesis
      using assms(1) by (auto simp: commit_search_def st_bind_def Let_def dest: commit_all_error split: if_splits prod.splits sum.splits)
  qed
qed

text \<open>
  C39. A store error loses the rest of its batch. When applying a change fails, the poll has already moved
  the tail and the decoder past the whole batch: the next poll on the same log reports success with nothing
  to apply, leaves every columnar store as the failed one left it, and the applied position where it was.
\<close>
theorem failed_apply_loses_batch:
  assumes "attach_pipeline ff ix True files n lsn0 manifest indexes eligibility version = Ok p0"
    and "engine_run crc ff ix p0 L p"
    and "apply_new_frames crc ff flush_ok meta_ok ix (fl_dir L) p = (Err (EStore e), p')"
  shows "\<exists>p''. apply_new_frames crc ff flush_ok meta_ok ix (fl_dir L) p' = (Ok None, p'') \<and>
    pl_columnar p'' = pl_columnar p' \<and> pl_applied p'' = pl_applied p"
proof -
  have "fresh_pipeline p0" using assms(1) by (auto simp: attach_pipeline_def res_bind_Ok_iff fresh_pipeline_def)
  from engine_run_at [OF assms(2) this] have "\<exists>seen. tail_run crc L (pl_tail p) seen" by (auto simp: engine_at_def)
  then obtain seen where run: "tail_run crc L (pl_tail p) seen" ..
  from tail_next [OF run] obtain b t where b: "read_new crc (fl_dir L) (pl_tail p) = (Ok b, t)" "\<not> tb_rewound b"
    "seen @ tb_frames b = log_frames crc (fl_dir L)" "tail_run crc L t (seen @ tb_frames b)" .
  from tail_next [OF b(4)] obtain b' t' where b': "read_new crc (fl_dir L) t = (Ok b', t')" "\<not> tb_rewound b'"
    "(seen @ tb_frames b) @ tb_frames b' = log_frames crc (fl_dir L)" by blast
  then have none: "tb_frames b' = []" using b(3) by simp
  have "pl_tail p' = t \<and> pl_applied p' = pl_applied p"
    using store_error_frame [OF assms(3) b(1)] .
  then show ?thesis using b' none by (simp add: apply_new_frames_def)
qed

definition bare_manifest :: table_manifest where
  "bare_manifest = demo_manifest\<lparr>tm_parts := [], tm_rows := 0\<rparr>"

definition bare_snapshot :: snapshot_manifest where
  "bare_snapshot = \<lparr>sn_lsn0 = str ''0/5'', sn_snapshot = str ''s'', sn_tables = [bare_manifest]\<rparr>"

definition bare_pipeline :: "(search_doc multiset \<times> search_doc multiset) pipeline" where
  "bare_pipeline =
     \<lparr>pl_lsn0 = 5, pl_manifest = bare_snapshot,
      pl_columnar = [(str ''app.t'', \<lparr>ts_columns = demo_cols, ts_key_idx = [0], ts_flush_rows = 1, ts_open = [], ts_segments = [],
        ts_files = [], ts_sidecars = [], ts_index = [], ts_applied = 0, ts_cache = None, ts_live = 0\<rparr>)],
      pl_search = [], pl_eligibility = [], pl_applied = 5, pl_tail = tail_new, pl_decoder = decoder_new, pl_version = []\<rparr>"

lemma bare_attach: "attach_pipeline demo_ff mem_index True [] 1 5 bare_snapshot [] [] [] = Ok bare_pipeline"
  by (simp add: attach_pipeline_def bare_snapshot_def build_table_store_def bare_manifest_def demo_manifest_def specs_of_def
     store_create_def key_columns_def enumerate_eq_zip flush_def finalize_def bare_pipeline_def demo_cols_def insert_before_def)

lemma bare_update: "\<exists>e s. apply_change demo_ff True demo_applied (snd (hd (pl_columnar bare_pipeline))) = (Err e, s)"
  by (simp add: bare_pipeline_def demo_applied_def demo_change_def demo_image_def apply_change_def apply_update_def demo_cols_def
    has_key_def image_key_def key_of_def key_bytes_def image_values_def tuple_to_values_def)

lemma bare_poll:
  "\<exists>e p'. apply_new_frames (\<lambda>_. 0) demo_ff (\<lambda>_. True) True mem_index
      (fl_dir (follow_log (map wire_message demo_txn))) bare_pipeline = (Err (EStore e), p')"
proof -
  have len: "map length (map wire_message demo_txn) = [21, 37, 15, 26]" using demo_lengths by simp
  have "fresh_pipeline bare_pipeline" by (simp add: fresh_pipeline_def bare_pipeline_def)
  from engine_run_at [OF follow_log_run [OF len, of demo_ff mem_index] this] obtain seen where
    seen: "tail_run (\<lambda>_. 0) (follow_log (map wire_message demo_txn)) tail_new seen"
    by (auto simp: engine_at_def bare_pipeline_def)
  from tail_run_inv [OF this] have "seen = []" by (auto simp: tail_at_def tail_new_def)
  with seen have "tail_run (\<lambda>_. 0) (follow_log (map wire_message demo_txn)) tail_new []" by simp
  from tail_next [OF this] obtain b t' where b: "read_new (\<lambda>_. 0) (fl_dir (follow_log (map wire_message demo_txn))) tail_new = (Ok b, t')"
    "\<not> tb_rewound b" and fr: "[] @ tb_frames b = log_frames (\<lambda>_. 0) (fl_dir (follow_log (map wire_message demo_txn)))" .
  have "tb_frames b = demo_frames (map wire_message demo_txn)" using fr by (simp only: follow_frames [OF len] append_Nil)
  note b = b this
  obtain out d where f: "feed (demo_frames (map wire_message demo_txn)) decoder_new = (Ok out, d)" "db_changes out = [demo_applied]"
    using follow_feed [OF refl] by blast
  obtain e s where u: "apply_change demo_ff True demo_applied (snd (hd (pl_columnar bare_pipeline))) = (Err e, s)"
    using bare_update by blast
  have ne: "demo_frames ps \<noteq> []" for ps by (simp add: demo_frames_def)
  show ?thesis
    using b f u ne by (auto simp: apply_new_frames_def bare_pipeline_def apply_columnar_def demo_applied_def demo_change_def)
qed

theorem failed_apply_loses_batch_witness:
  "\<exists>e p' p''. apply_new_frames (\<lambda>_. 0) demo_ff (\<lambda>_. True) True mem_index
      (fl_dir (follow_log (map wire_message demo_txn))) bare_pipeline = (Err (EStore e), p') \<and>
    apply_new_frames (\<lambda>_. 0) demo_ff (\<lambda>_. True) True mem_index
      (fl_dir (follow_log (map wire_message demo_txn))) p' = (Ok None, p'') \<and> pl_columnar p'' = pl_columnar p'"
proof -
  have len: "map length (map wire_message demo_txn) = [21, 37, 15, 26]" using demo_lengths by simp
  from bare_poll obtain e p' where "apply_new_frames (\<lambda>_. 0) demo_ff (\<lambda>_. True) True mem_index
      (fl_dir (follow_log (map wire_message demo_txn))) bare_pipeline = (Err (EStore e), p')" by blast
  with failed_apply_loses_batch [OF bare_attach follow_log_run [OF len] this] show ?thesis by blast
qed

section \<open>A strong read\<close>

lemma strong_loop_find:
  "strong_loop barrier views i =
     (case find (\<lambda>k. barrier \<le> rv_stream (views k) \<and> rv_durable (views k) \<le> rv_applied (views k)) [i..<600] of
        Some k \<Rightarrow> Ok (Some (max (rv_applied (views k)) barrier))
      | None \<Rightarrow> Err EStrongTimeout)"
proof (induction "600 - i" arbitrary: i)
  case 0
  then show ?case by (subst strong_loop.simps) simp
next
  case (Suc n)
  then have "n = 600 - Suc i" "i < 600" by simp_all
  then show ?case
    using Suc.hyps(1) [of "Suc i"] by (subst strong_loop.simps) (simp add: Let_def upt_conv_Cons del: upt_Suc)
qed

text \<open>
  A strong read always ends: it answers at the first of its 600 rounds in which the stream has reached
  the barrier and the shapes have applied all that is durable, with an LSN no earlier than the barrier;
  when no round is like that it times out.
\<close>
theorem strong_read_first_round:
  "resolve_class head budget views applied (str ''strong'') =
     (case parse_lsn head of
        Inl e \<Rightarrow> Err (ELsn e)
      | Inr barrier \<Rightarrow>
          (case find (\<lambda>k. barrier \<le> rv_stream (views k) \<and> rv_durable (views k) \<le> rv_applied (views k)) [0..<600] of
             Some k \<Rightarrow> Ok (Some (max (rv_applied (views k)) barrier))
           | None \<Rightarrow> Err EStrongTimeout))"
proof -
  have "trim_text (str ''strong'') = str ''strong''" by (rule trim_none) (simp_all add: white_space_def)
  then show ?thesis
    by (simp add: resolve_class_def starts_with_def from_lsn_def strong_loop_find split: sum.splits)
qed

text \<open>
  C38. A strong read does not see what the source has committed when the log is stalled. The pump has received
  the commit, so the stream position passes the barrier; the frame is only staged, so the durable mark
  stays and the shapes are level with it. The read answers at an LSN past the commit, while the log the
  engine applies from is unchanged.
\<close>
theorem strong_read_misses_stalled_commit:
  assumes "fl_stalled (pm_log st)" and "commit_end_lsn payload = Some e"
    and "on_xlog (frame_log_ops crc) w now wal_start payload st = (Ok True, st')"
    and "dm_lsn (fl_mark (pm_log st)) \<le> applied"
  shows "strong_loop e (\<lambda>_. \<lparr>rv_stream = im_stream_lsn (pm_metrics st'), rv_durable = dm_lsn (fl_mark (pm_log st')),
      rv_applied = applied\<rparr>) 0 = Ok (Some (max applied e)) \<and>
    fl_dir (pm_log st') = fl_dir (pm_log st)"
proof -
  have "fl_stalled (take_seq b L) = fl_stalled L" "fl_dir (take_seq b L) = fl_dir L" "fl_mark (take_seq b L) = fl_mark L" for b L
    by (simp_all add: take_seq_def Let_def)
  moreover have "fl_dir L' = fl_dir L \<and> fl_mark L' = fl_mark L" if "spill_frame w bs L = (r, L')" for bs L r L'
    using that by (auto simp: spill_frame_def st_bind_def Let_def split: if_splits option.splits)
  ultimately have log: "fl_dir L' = fl_dir L \<and> fl_mark L' = fl_mark L"
    if "log_append crc w a b c x L = (r, L')" "fl_stalled L" for a b c x L r L'
    using that by (auto simp: log_append_def st_bind_def Let_def split: prod.splits sum.splits) 
  obtain r L' where l: "log_append crc w wal_start e True payload (pm_log st) = (r, L')" by fastforce
  have "pm_log st' = L' \<and> e \<le> im_stream_lsn (pm_metrics st')"
    using assms(2,3) l
    by (auto simp: on_xlog_def frame_log_ops_def from_log_def st_bind_def Let_def saw_lsn_def count_frame_def send_status_def
        from_client_def set_acked_def split: sum.splits if_splits prod.splits)
  then show ?thesis
    using log [OF l assms(1)] assms(4) by (subst strong_loop.simps) (simp add: Let_def)
qed

theorem strong_read_misses_stalled_commit_witness:
  "\<exists>st'. on_xlog (frame_log_ops (\<lambda>_. 0)) io_fine 0 5 demo_commit (demo_pump\<lparr>pm_log := (log_create 1000)\<lparr>fl_stalled := True\<rparr>\<rparr>) = (Ok True, st') \<and>
    strong_loop 9 (\<lambda>_. \<lparr>rv_stream = im_stream_lsn (pm_metrics st'), rv_durable = dm_lsn (fl_mark (pm_log st')),
      rv_applied = 4\<rparr>) 0 = Ok (Some 9) \<and> fl_dir (pm_log st') = fl_dir (log_create 1000)"
proof -
  let ?st = "demo_pump\<lparr>pm_log := (log_create 1000)\<lparr>fl_stalled := True\<rparr>\<rparr>"
  have s: "fl_stalled (pm_log ?st)" "dm_lsn (fl_mark (pm_log ?st)) \<le> 4" by (simp_all add: log_create_def default_mark_def)
  have "\<exists>st'. on_xlog (frame_log_ops (\<lambda>_. 0)) io_fine 0 5 demo_commit ?st = (Ok True, st')"
    by (simp add: on_xlog_def demo_commit_end from_log_def frame_log_ops_def run_op_defs Let_def)
  then obtain st' where st': "on_xlog (frame_log_ops (\<lambda>_. 0)) io_fine 0 5 demo_commit ?st = (Ok True, st')" by blast
  from strong_read_misses_stalled_commit [OF s(1) demo_commit_end st' s(2)] st' show ?thesis by auto
qed

end
