(* ===== verification/ControlRepl.thy ===== *)
theory ControlRepl
  imports Pump Decoder Numerals
begin

text \<open>
  The control stream of the benchmark, the first half of \<open>crates/graydb-r1/src/replication.rs\<close>: the mapper from
  a marker row to the commit that made it visible, and the loop that logs the stream, maps it and
  acknowledges it. The decoder, the frame log and the replication client are the modelled ones.
\<close>

section \<open>The mapper\<close>

record ledger_commit =
  lc_sequence :: u64
  lc_xid :: u32
  lc_source_lsn :: u64
  lc_operation :: rstr

definition CONTROL_SLOT :: rstr where "CONTROL_SLOT = str ''graydb_r1_control_slot''"
definition CONTROL_PUBLICATION :: rstr where "CONTROL_PUBLICATION = str ''graydb_r1_control_pub''"
definition CONTROL_MARKER_TABLE :: rstr where "CONTROL_MARKER_TABLE = str ''r1_control.tx_marker''"
definition CONTROL_ACK_BATCH_COMMITS :: u64 where "CONTROL_ACK_BATCH_COMMITS = 64"

datatype mapper_error =
    MapDecode replay_error
  | MultipleMarkers
  | MarkerNotInsert
  | MarkerLsn
  | MarkerNoRow
  | MarkerMissing rstr
  | MarkerNotText rstr
  | MarkerSequence

definition marker_field :: "named_row \<Rightarrow> rstr \<Rightarrow> mapper_error + rstr" where
  "marker_field row name =
     res_bind (need (find (\<lambda>(column, _). column = name) row) (MarkerMissing name)) (\<lambda>(_, v).
     case v of TText s \<Rightarrow> Ok s | _ \<Rightarrow> Err (MarkerNotText name))"

definition marker_from_change :: "typed_change \<Rightarrow> u64 \<Rightarrow> mapper_error + ledger_commit" where
  "marker_from_change c commit_lsn =
     res_bind (ensure (tc_op c = OInsert) MarkerNotInsert) (\<lambda>_.
     res_bind (ensure (tc_commit_lsn c = commit_lsn) MarkerLsn) (\<lambda>_.
     res_bind (need (tc_new c) MarkerNoRow) (\<lambda>row.
     res_bind (marker_field row (str ''sequence'')) (\<lambda>s.
     res_bind (need (parse_unsigned 10 (2 ^ 64) s) MarkerSequence) (\<lambda>sequence.
     res_bind (marker_field row (str ''operation_sha256'')) (\<lambda>hash.
     Ok \<lparr>lc_sequence = of_nat sequence, lc_xid = tc_xid c, lc_source_lsn = commit_lsn, lc_operation = hash\<rparr>))))))"

fun marker_loop :: "typed_change list \<Rightarrow> u64 \<Rightarrow> ledger_commit option \<Rightarrow> mapper_error + ledger_commit option" where
  "marker_loop [] lsn marker = Ok marker"
| "marker_loop (c # cs) lsn marker =
     (if tc_table c = CONTROL_MARKER_TABLE
      then if marker \<noteq> None then Err MultipleMarkers
           else res_bind (marker_from_change c lsn) (\<lambda>m. marker_loop cs lsn (Some m))
      else marker_loop cs lsn marker)"

definition mapper_feed :: "frame \<Rightarrow> stream_decoder \<Rightarrow> (mapper_error + ledger_commit option) \<times> stream_decoder" where
  "mapper_feed f d =
     (case feed [f] d of
        (Inl e, d) \<Rightarrow> (Err (MapDecode e), d)
      | (Inr b, d) \<Rightarrow>
          (if db_last_commit_lsn b = 0 then Ok None else marker_loop (db_changes b) (db_last_commit_lsn b) None, d))"

section \<open>The loop\<close>

text \<open>\<open>ct_sent\<close>: what went into the channel to the writer, in order.\<close>

record control =
  ct_client :: repl_client
  ct_log :: frame_log
  ct_mapper :: stream_decoder
  ct_pending :: "frame list"
  ct_unacked :: u64
  ct_sent :: "ledger_commit list"

datatype control_error =
    CtlRepl repl_error
  | CtlLog log_error
  | CtlMap mapper_error
  | ReceiverDropped
  | NoDurableMark

text \<open>
  What \<open>select!\<close> picks, with the input/output its two log calls meet, the clock, and whether the receiver of
  the channel is still there. \<open>Stop\<close>: the stop channel changed, to a value, or was dropped (\<open>None\<close>).
\<close>

datatype control_event = Stop "bool option" | Message

record control_input =
  ci_event :: control_event
  ci_io :: io
  ci_flush_io :: io
  ci_now :: u64
  ci_receiver :: bool

definition ctl_log :: "(log_error + 'a) \<times> frame_log \<Rightarrow> control \<Rightarrow> (control_error + 'a) \<times> control" where
  "ctl_log r st = (case fst r of Inl e \<Rightarrow> Err (CtlLog e) | Inr x \<Rightarrow> Ok x, st\<lparr>ct_log := snd r\<rparr>)"

definition ctl_client :: "(repl_error + 'a) \<times> repl_client \<Rightarrow> control \<Rightarrow> (control_error + 'a) \<times> control" where
  "ctl_client r st = (case fst r of Inl e \<Rightarrow> Err (CtlRepl e) | Inr x \<Rightarrow> Ok x, st\<lparr>ct_client := snd r\<rparr>)"

definition ctl_status :: "u64 \<Rightarrow> u64 \<Rightarrow> control \<Rightarrow> (control_error + unit) \<times> control" where
  "ctl_status lsn now st = ctl_client (send_standby_status lsn False now (ct_client st)) st"

text \<open>\<open>pending.drain(..)\<close>: each frame is mapped and what it maps to is sent.\<close>

fun deliver :: "bool \<Rightarrow> frame list \<Rightarrow> control \<Rightarrow> (control_error + unit) \<times> control" where
  "deliver receiver [] st = (Ok (), st)"
| "deliver receiver (f # fs) st =
     (case mapper_feed f (ct_mapper st) of
        (Inl e, d) \<Rightarrow> (Err (CtlMap e), st\<lparr>ct_mapper := d\<rparr>)
      | (Inr None, d) \<Rightarrow> deliver receiver fs (st\<lparr>ct_mapper := d\<rparr>)
      | (Inr (Some c), d) \<Rightarrow>
          if receiver then deliver receiver fs (st\<lparr>ct_mapper := d, ct_sent := ct_sent st @ [c]\<rparr>)
          else (Err ReceiverDropped, st\<lparr>ct_mapper := d\<rparr>))"

definition ack_batch :: "io \<Rightarrow> u64 \<Rightarrow> u64 \<Rightarrow> control \<Rightarrow> (control_error + unit) \<times> control" where
  "ack_batch w now lsn_end st =
     st_bind (ctl_log (flush_pending w (ct_log st)) st) (\<lambda>_ st.
     let durable = fl_mark (ct_log st) in
     st_bind (ensure (dm_valid durable \<and> dm_lsn durable = lsn_end) NoDurableMark, st) (\<lambda>_ st.
     st_bind (ctl_status (dm_lsn durable) now st) (\<lambda>_ st. (Ok (), st\<lparr>ct_unacked := 0\<rparr>))))"

definition control_xlog :: "crc_fun \<Rightarrow> control_input \<Rightarrow> u64 \<Rightarrow> bytes \<Rightarrow> control \<Rightarrow> (control_error + unit) \<times> control" where
  "control_xlog crc i wal_start payload st =
     (let (lsn_end, txn_complete) = (case commit_end_lsn payload of Some lsn \<Rightarrow> (lsn, True) | None \<Rightarrow> (wal_start, False)) in
      st_bind (ctl_log (log_append_deferred crc (ci_io i) wal_start lsn_end txn_complete payload (ct_log st)) st) (\<lambda>seq st.
      let st = st\<lparr>ct_pending := ct_pending st @ [new_frame seq wal_start lsn_end txn_complete payload]\<rparr> in
      if txn_complete
      then st_bind (deliver (ci_receiver i) (ct_pending st) (st\<lparr>ct_pending := []\<rparr>)) (\<lambda>_ st.
           let st = st\<lparr>ct_unacked := ct_unacked st + 1\<rparr> in
           if CONTROL_ACK_BATCH_COMMITS \<le> ct_unacked st then ack_batch (ci_flush_io i) (ci_now i) lsn_end st else (Ok (), st))
      else (Ok (), st)))"

definition control_keepalive :: "control_input \<Rightarrow> u64 \<Rightarrow> control \<Rightarrow> (control_error + unit) \<times> control" where
  "control_keepalive i start_lsn st =
     st_bind (ctl_log (flush_pending (ci_flush_io i) (ct_log st)) st) (\<lambda>_ st.
     st_bind (ctl_status (durable_or start_lsn (fl_mark (ct_log st))) (ci_now i) st) (\<lambda>_ st.
     (Ok (), st\<lparr>ct_unacked := 0\<rparr>)))"

definition control_step :: "crc_fun \<Rightarrow> u64 \<Rightarrow> control_input \<Rightarrow> control \<Rightarrow> (control_error + bool) \<times> control" where
  "control_step crc start_lsn i st =
     (case ci_event i of
        Stop v \<Rightarrow> (Ok (v = Some False), st)
      | Message \<Rightarrow>
          st_bind (ctl_client (next_replication_message (ct_client st)) st) (\<lambda>msg st.
          st_bind (case msg of
             XLogData wal_start payload \<Rightarrow> control_xlog crc i wal_start payload st
           | Keepalive _ reply_requested \<Rightarrow> if reply_requested then control_keepalive i start_lsn st else (Ok (), st))
          (\<lambda>_ st. (Ok True, st))))"

text \<open>After the loop: the last status and \<open>Terminate\<close>, whose errors are dropped.\<close>

definition control_stop :: "u64 \<Rightarrow> control \<Rightarrow> control" where
  "control_stop now st =
     (let durable = fl_mark (ct_log st);
          st = (if dm_valid durable then snd (ctl_status (dm_lsn durable) now st) else st)
      in snd (ctl_client (close (ct_client st)) st))"

fun run_control :: "crc_fun \<Rightarrow> u64 \<Rightarrow> control_input list \<Rightarrow> control \<Rightarrow> (control_error + bool) \<times> control" where
  "run_control crc start_lsn [] st = (Ok True, st)"
| "run_control crc start_lsn (i # is) st =
     st_bind (control_step crc start_lsn i st) (\<lambda>go st.
     if go then run_control crc start_lsn is st else (Ok False, control_stop (ci_now i) st))"

text \<open>
  Before the loop, on a connected client: the slot, the start position, the stream, and a new log. What
  \<open>ready\<close> is told is the result.
\<close>

definition control_start :: "u64 \<Rightarrow> u64 \<Rightarrow> repl_client \<Rightarrow> (control_error + u64 \<times> control) \<times> repl_client" where
  "control_start initial_lsn segment_max_bytes c =
     (let lift = (\<lambda>(r, c). (case r of Inl e \<Rightarrow> Err (CtlRepl e) | Inr x \<Rightarrow> Ok x, c)) in
      case create_slot_with_snapshot CONTROL_SLOT c of
        (Inl e, c) \<Rightarrow> (Err (CtlRepl e), c)
      | (Inr snapshot, c) \<Rightarrow>
          (case (if initial_lsn = 0 then parse_lsn (sl_consistent_point snapshot) else Ok initial_lsn) of
             Inl e \<Rightarrow> (Err (CtlRepl e), c)
           | Inr start_lsn \<Rightarrow>
               (case start_replication CONTROL_SLOT CONTROL_PUBLICATION start_lsn c of
                  (Inl e, c) \<Rightarrow> (Err (CtlRepl e), c)
                | (Inr _, c) \<Rightarrow>
                    (Ok (start_lsn, \<lparr>ct_client = c, ct_log = log_create segment_max_bytes, ct_mapper = decoder_new,
                       ct_pending = [], ct_unacked = 0, ct_sent = []\<rparr>), c))))"

section \<open>A mapping comes from a commit\<close>

lemma marker_loop_Some:
  "marker_loop cs lsn m0 = Ok (Some c) \<Longrightarrow>
    (m0 = Some c \<and> (\<forall>x \<in> set cs. tc_table x \<noteq> CONTROL_MARKER_TABLE)) \<or>
    (m0 = None \<and> (\<exists>x. filter (\<lambda>x. tc_table x = CONTROL_MARKER_TABLE) cs = [x] \<and> marker_from_change x lsn = Ok c))"
proof (induction cs lsn m0 rule: marker_loop.induct)
  case (2 x cs lsn m0)
  show ?case
  proof (cases "tc_table x = CONTROL_MARKER_TABLE")
    case True
    then obtain m where m: "m0 = None" "marker_from_change x lsn = Ok m" "marker_loop cs lsn (Some m) = Ok (Some c)"
      using 2(3) by (auto simp: res_bind_Ok_iff split: if_splits)
    then have "m = c" "\<forall>x \<in> set cs. tc_table x \<noteq> CONTROL_MARKER_TABLE" using 2(1) True by auto
    then show ?thesis using m True by (auto simp: filter_empty_conv)
  next
    case False
    then show ?thesis using 2(2,3) by auto
  qed
qed simp

lemma feed_one_commit:
  assumes "feed [f] d = (Ok b, d')" and "db_last_commit_lsn b \<noteq> 0"
  shows "\<exists>fl l e ts t. parse_frame f = Ok (MCommit fl l e ts) \<and> sd_txn d = Some t \<and> db_last_commit_lsn b = e \<and>
    db_changes b = commit_changes e t \<and> sd_txn d' = None"
proof -
  obtain m d1 where m: "parse_frame f = Ok m" and d1: "d1 = d\<lparr>sd_next_seq := fr_seq f + 1, sd_started := True\<rparr>"
    and r: "decode_message (fr_seq f) (fr_lsn_end f) m (init_batch (sd_change_counter d)) d1 = (Ok b, d')"
    using assms(1) by (auto simp: feed_def st_bind_Ok_iff)
  show ?thesis
  proof (cases m)
    case (MCommit a l e ts)
    then show ?thesis using r m d1 by (auto simp: st_bind_Ok_iff init_batch_def)
  qed (use r assms(2) in \<open>auto simp: st_bind_Ok_iff init_batch_def Let_def\<close>)
qed

text \<open>
  A marker becomes a mapping only at its commit. When the mapper returns a mapping for a frame, the frame is
  the Commit of the open transaction, the mapping carries that commit's end position and the
  transaction's xid, and the transaction inserted into the marker table exactly one row, the one the
  sequence number and the hash are read from.
\<close>
theorem mapping_comes_from_commit:
  assumes "mapper_feed f d = (Ok (Some c), d')"
  shows "\<exists>fl l e ts t x. parse_frame f = Ok (MCommit fl l e ts) \<and> sd_txn d = Some t \<and> sd_txn d' = None \<and>
    filter (\<lambda>x. tc_table x = CONTROL_MARKER_TABLE) (commit_changes e t) = [x] \<and> tc_op x = OInsert \<and>
    lc_source_lsn c = e \<and> lc_xid c = tc_xid x \<and>
    (\<exists>row s. tc_new x = Some row \<and> marker_field row (str ''sequence'') = Ok s \<and>
      parse_unsigned 10 (2 ^ 64) s = Some (unat (lc_sequence c)) \<and> marker_field row (str ''operation_sha256'') = Ok (lc_operation c))"
proof -
  obtain b where b: "feed [f] d = (Ok b, d')" "db_last_commit_lsn b \<noteq> 0"
      "marker_loop (db_changes b) (db_last_commit_lsn b) None = Ok (Some c)"
    using assms by (auto simp: mapper_feed_def split: prod.splits sum.splits if_splits)
  from feed_one_commit [OF b(1,2)] obtain fl l e ts t where
    e: "parse_frame f = Ok (MCommit fl l e ts)" "sd_txn d = Some t" "db_last_commit_lsn b = e" "db_changes b = commit_changes e t" "sd_txn d' = None"
    by blast
  from marker_loop_Some [OF b(3)] obtain x where
    x: "filter (\<lambda>x. tc_table x = CONTROL_MARKER_TABLE) (db_changes b) = [x]" "marker_from_change x e = Ok c"
    using e(3) by auto
  obtain row s n h where y: "tc_op x = OInsert" "tc_new x = Some row" "marker_field row (str ''sequence'') = Ok s"
      "parse_unsigned 10 (2 ^ 64) s = Some n" "marker_field row (str ''operation_sha256'') = Ok h"
      "c = \<lparr>lc_sequence = of_nat n, lc_xid = tc_xid x, lc_source_lsn = e, lc_operation = h\<rparr>"
    using x(2) by (auto simp: marker_from_change_def res_bind_Ok_iff)
  have "n < 2 ^ 64" using y(4) by (auto simp: parse_unsigned_def Let_def split: if_splits option.splits)
  then have "n = unat (lc_sequence c)" by (simp add: y(6) of_nat_inverse_64)
  then have "(\<exists>row s. tc_new x = Some row \<and> marker_field row (str ''sequence'') = Ok s \<and>
      parse_unsigned 10 (2 ^ 64) s = Some (unat (lc_sequence c)) \<and> marker_field row (str ''operation_sha256'') = Ok (lc_operation c))"
    using y by auto
  moreover have "lc_source_lsn c = e" "lc_xid c = tc_xid x" by (simp_all add: y(6))
  ultimately show ?thesis using e x(1) y(1) by metis
qed

section \<open>The control slot is acknowledged up to a durable commit\<close>

definition log_alive :: "control_error + 'a \<Rightarrow> bool" where
  "log_alive r = (case r of Inl (CtlLog _) \<Rightarrow> False | _ \<Rightarrow> True)"

lemma log_alive_simps [simp]:
  "log_alive (Inr x)" "\<not> log_alive (Inl (CtlLog e))" "log_alive (Inl (CtlRepl e'))" "log_alive (Inl (CtlMap e''))"
  "log_alive (Inl ReceiverDropped)" "log_alive (Inl NoDurableMark)"
  by (simp_all add: log_alive_def)

definition control_ok :: "crc_fun \<Rightarrow> u64 \<Rightarrow> bool \<Rightarrow> control \<Rightarrow> durable_mark set \<Rightarrow> bool" where
  "control_ok crc start_lsn running st ms \<longleftrightarrow> log_status crc running (ct_log st) ms \<and> acks_ok start_lsn ms (ct_client st)"

text \<open>The log calls of the loop, in the terms of the log's transition system.\<close>

lemma roll_keeps_seq: "fl_next_seq (snd (flush_pending w L)) = fl_next_seq L"
  by (auto simp: flush_pending_def sync_file_seq send_mark_def dest!: arg_cong [of _ _ "\<lambda>m. fl_next_seq (snd m)"]
      intro!: bind_seq split: option.splits)

lemma deferred_seq: "fl_next_seq (snd (log_append_deferred crc w a b t p L)) = fl_next_seq L + 1"
  by (auto simp: log_append_deferred_def Let_def write_file_seq spill_frame_seq roll_keeps_seq roll_segment_seq take_seq_def
      dest!: arg_cong [of _ _ "\<lambda>m. fl_next_seq (snd m)"] intro!: bind_seq)

lemma deferred_status:
  assumes "log_status crc True L ms" and "length p < 2 ^ 32" and "unat (fl_next_seq L) + 1 < 2 ^ 64"
    and "log_append_deferred crc w a b t p L = (r, L')"
  shows "log_status crc (is_ok r) L' (insert (fl_mark L') ms)" and "unat (fl_next_seq L') \<le> Suc (unat (fl_next_seq L))"
proof -
  have "run_op crc w (OpDeferred a b t p) L = (case r of Inl e \<Rightarrow> Err e | Inr x \<Rightarrow> Ok (), L')"
    using assms(4) by (simp add: run_op_def st_bind_def split: sum.splits)
  from op_step [OF assms(1) _ this] assms(2,3) show "log_status crc (is_ok r) L' (insert (fl_mark L') ms)"
    by (cases r) simp_all
  have "fl_next_seq L' = fl_next_seq L + 1" using deferred_seq [of crc w a b t p L] assms(4) by simp
  then show "unat (fl_next_seq L') \<le> Suc (unat (fl_next_seq L))" by (simp add: unat_word_ariths)
qed

lemma flush_status:
  assumes "log_status crc True L ms" and "flush_pending w L = (r, L')"
  shows "log_status crc (is_ok r) L' (insert (fl_mark L') ms)" and "fl_next_seq L' = fl_next_seq L"
  using op_step [OF assms(1), of OpFlush w r L'] roll_keeps_seq [of w L] assms(2) by (simp_all add: run_op_def)

lemma status_acks:
  assumes "control_ok crc start_lsn True st ms" and "ctl_status (durable_or start_lsn (fl_mark (ct_log st))) now st = (r, st')"
  shows "control_ok crc start_lsn True st' ms \<and> ct_log st' = ct_log st \<and> log_alive r"
proof -
  have "log_reach crc (Live (ct_log st), ms)" using assms(1) by (simp add: control_ok_def log_status_def)
  from reach_mark [OF this refl] have "fl_mark (ct_log st) \<in> ms" .
  then have d: "durable_or start_lsn (fl_mark (ct_log st)) = start_lsn \<or>
      (\<exists>m \<in> ms. dm_valid m \<and> dm_lsn m = durable_or start_lsn (fl_mark (ct_log st)))"
    by (auto simp: durable_or_def)
  have "justified start_lsn ms (message_bytes 100 (status_body (durable_or start_lsn (fl_mark (ct_log st))) False now))"
    unfolding justified_def using d status_inj by blast
  then show ?thesis
    using assms by (auto simp: control_ok_def acks_ok_def ctl_status_def ctl_client_def send_standby_status_def send_msg_def split: if_splits)
qed

lemma ok_mono: "control_ok crc start_lsn b st ms \<Longrightarrow> log_status crc b' L' ms' \<Longrightarrow> ms \<subseteq> ms' \<Longrightarrow>
    control_ok crc start_lsn b' (st\<lparr>ct_log := L'\<rparr>) ms'"
  by (auto simp: control_ok_def dest: acks_mono)

lemma deliver_frame: "deliver receiver fs st = (r, st') \<Longrightarrow> ct_log st' = ct_log st \<and> ct_client st' = ct_client st \<and> log_alive r"
  by (induction receiver fs st rule: deliver.induct) (auto split: prod.splits sum.splits option.splits if_splits)

lemma deliver_unacked: "deliver receiver fs st = (r, st') \<Longrightarrow> ct_unacked st' = ct_unacked st"
  by (induction receiver fs st rule: deliver.induct) (auto split: prod.splits sum.splits option.splits if_splits)

lemma ok_cong: "ct_log st' = ct_log st \<Longrightarrow> ct_client st' = ct_client st \<Longrightarrow> control_ok crc start_lsn b st' ms = control_ok crc start_lsn b st ms"
  by (simp add: control_ok_def)

lemma flush_ok:
  assumes "control_ok crc start_lsn True st ms" and "ctl_log (flush_pending w (ct_log st)) st = (r, st')"
  shows "control_ok crc start_lsn (log_alive r) st' (insert (fl_mark (ct_log st')) ms) \<and> fl_next_seq (ct_log st') = fl_next_seq (ct_log st)"
proof -
  obtain q L where q: "flush_pending w (ct_log st) = (q, L)" by fastforce
  then have "log_status crc (is_ok q) L (insert (fl_mark L) ms)" "fl_next_seq L = fl_next_seq (ct_log st)"
    using flush_status assms(1) by (auto simp: control_ok_def)
  moreover have "is_ok q \<longleftrightarrow> log_alive r" "st' = st\<lparr>ct_log := L\<rparr>" using assms(2) q by (auto simp: ctl_log_def split: sum.splits)
  ultimately show ?thesis using ok_mono [OF assms(1)] by auto
qed

lemma ack_batch_ok:
  assumes "control_ok crc start_lsn True st ms" and "ack_batch w now lsn_end st = (r, st')"
  shows "\<exists>ms'. ms \<subseteq> ms' \<and> control_ok crc start_lsn (log_alive r) st' ms' \<and> fl_next_seq (ct_log st') = fl_next_seq (ct_log st)"
proof -
  obtain q st1 where q: "ctl_log (flush_pending w (ct_log st)) st = (q, st1)" by fastforce
  note f = flush_ok [OF assms(1) q]
  let ?m = "fl_mark (ct_log st1)"
  show ?thesis
  proof (cases q)
    case (Inl e)
    then show ?thesis using assms(2) q f by (intro exI [of _ "insert ?m ms"]) (auto simp: ack_batch_def)
  next
    case (Inr u)
    show ?thesis
    proof (cases "dm_valid ?m \<and> dm_lsn ?m = lsn_end")
      case True
      obtain q2 st2 where q2: "ctl_status (durable_or start_lsn ?m) now st1 = (q2, st2)" by fastforce
      have "control_ok crc start_lsn True st2 (insert ?m ms) \<and> ct_log st2 = ct_log st1 \<and> log_alive q2"
        by (rule status_acks [OF _ q2]) (use f Inr in simp)
      moreover have "(r, st') = (case q2 of Inl e \<Rightarrow> (Err e, st2) | Inr _ \<Rightarrow> (Ok (), st2\<lparr>ct_unacked := 0\<rparr>))"
        using assms(2) q q2 Inr True by (simp add: ack_batch_def Let_def durable_or_def st_bind_def split: sum.splits)
      ultimately show ?thesis using f
        by (intro exI [of _ "insert ?m ms"]) (cases q2; auto simp: control_ok_def)
    next
      case False
      then show ?thesis using assms(2) q f Inr
        by (intro exI [of _ "insert ?m ms"]) (auto simp: ack_batch_def Let_def ensure_def)
    qed
  qed
qed

lemma ctl_keepalive_ok:
  assumes "control_ok crc start_lsn True st ms" and "control_keepalive i start_lsn st = (r, st')"
  shows "\<exists>ms'. ms \<subseteq> ms' \<and> control_ok crc start_lsn (log_alive r) st' ms' \<and> fl_next_seq (ct_log st') = fl_next_seq (ct_log st)"
proof -
  obtain q st1 where q: "ctl_log (flush_pending (ci_flush_io i) (ct_log st)) st = (q, st1)" by fastforce
  note f = flush_ok [OF assms(1) q]
  let ?m = "fl_mark (ct_log st1)"
  show ?thesis
  proof (cases q)
    case (Inl e)
    then show ?thesis using assms(2) q f by (intro exI [of _ "insert ?m ms"]) (auto simp: control_keepalive_def)
  next
    case (Inr u)
    obtain q2 st2 where q2: "ctl_status (durable_or start_lsn ?m) (ci_now i) st1 = (q2, st2)" by fastforce
    have "control_ok crc start_lsn True st2 (insert ?m ms) \<and> ct_log st2 = ct_log st1 \<and> log_alive q2"
      by (rule status_acks [OF _ q2]) (use f Inr in simp)
    moreover have "(r, st') = (case q2 of Inl e \<Rightarrow> (Err e, st2) | Inr _ \<Rightarrow> (Ok (), st2\<lparr>ct_unacked := 0\<rparr>))"
      using assms(2) q q2 Inr by (simp add: control_keepalive_def st_bind_def split: sum.splits)
    ultimately show ?thesis using f
      by (intro exI [of _ "insert ?m ms"]) (cases q2; auto simp: control_ok_def)
  qed
qed

lemma ctl_xlog_ok:
  assumes "control_ok crc start_lsn True st ms" and "length payload < 2 ^ 32" and "unat (fl_next_seq (ct_log st)) + 1 < 2 ^ 64"
    and "control_xlog crc i wal_start payload st = (r, st')"
  shows "\<exists>ms'. ms \<subseteq> ms' \<and> control_ok crc start_lsn (log_alive r) st' ms' \<and>
    unat (fl_next_seq (ct_log st')) \<le> Suc (unat (fl_next_seq (ct_log st)))"
proof -
  obtain e c where ec: "(case commit_end_lsn payload of Some lsn \<Rightarrow> (lsn, True) | None \<Rightarrow> (wal_start, False)) = (e, c)" by fastforce
  obtain q L where q: "log_append_deferred crc (ci_io i) wal_start e c payload (ct_log st) = (q, L)" by fastforce
  have L: "log_status crc (is_ok q) L (insert (fl_mark L) ms)" "unat (fl_next_seq L) \<le> Suc (unat (fl_next_seq (ct_log st)))"
    using deferred_status [OF _ assms(2,3) q, of ms] assms(1) by (auto simp: control_ok_def)
  let ?ms = "insert (fl_mark L) ms"
  have ok: "control_ok crc start_lsn (is_ok q) (st\<lparr>ct_log := L\<rparr>) ?ms" using ok_mono [OF assms(1) L(1)] by auto
  show ?thesis
  proof (cases q)
    case (Inl err)
    then show ?thesis using assms(4) q ec ok L(2)
      by (intro exI [of _ ?ms]) (auto simp: control_xlog_def ctl_log_def)
  next
    case (Inr seq)
    let ?st = "st\<lparr>ct_log := L, ct_pending := ct_pending st @ [new_frame seq wal_start e c payload]\<rparr>"
    have st: "control_ok crc start_lsn True ?st ?ms" using ok Inr by (simp add: control_ok_def)
    show ?thesis
    proof (cases c)
      case False
      then show ?thesis using assms(4) q ec st L(2) Inr
        by (intro exI [of _ ?ms]) (auto simp: control_xlog_def ctl_log_def)
    next
      case True
      obtain d st2 where d: "deliver (ci_receiver i) (ct_pending ?st) (?st\<lparr>ct_pending := []\<rparr>) = (d, st2)" by fastforce
      note df = deliver_frame [OF d]
      have st2: "control_ok crc start_lsn True st2 ?ms" using st df by (simp add: control_ok_def)
      show ?thesis
      proof (cases d)
        case (Inl err)
        then have "r = Err err" "st' = st2" using assms(4) q ec d Inr True by (simp_all add: control_xlog_def ctl_log_def Let_def)
        then show ?thesis using st2 df L(2) Inl by (intro exI [of _ ?ms]) auto
      next
        case ok: (Inr u)
        let ?st3 = "st2\<lparr>ct_unacked := ct_unacked st2 + 1\<rparr>"
        have r: "(r, st') = (if CONTROL_ACK_BATCH_COMMITS \<le> ct_unacked ?st3 then ack_batch (ci_flush_io i) (ci_now i) e ?st3 else (Ok (), ?st3))"
          using assms(4) q ec d Inr True ok by (simp add: control_xlog_def ctl_log_def Let_def)
        have st3: "control_ok crc start_lsn True ?st3 ?ms" "ct_log ?st3 = L" using st2 df by (simp_all add: control_ok_def)
        show ?thesis
        proof (cases "CONTROL_ACK_BATCH_COMMITS \<le> ct_unacked ?st3")
          case True
          then have "ack_batch (ci_flush_io i) (ci_now i) e ?st3 = (r, st')" using r by simp
          from ack_batch_ok [OF st3(1) this] obtain ms' where "?ms \<subseteq> ms'" "control_ok crc start_lsn (log_alive r) st' ms'"
            "fl_next_seq (ct_log st') = fl_next_seq (ct_log ?st3)" by blast
          then show ?thesis using L(2) st3(2) by (intro exI [of _ ms']) simp
        next
          case False
          then show ?thesis using r st3 L(2) by (intro exI [of _ ?ms]) auto
        qed
      qed
    qed
  qed
qed

lemma step_control_ok:
  assumes "control_ok crc start_lsn True st ms" and "unat (fl_next_seq (ct_log st)) + 1 < 2 ^ 64"
    and "control_step crc start_lsn i st = (r, st')"
  shows "\<exists>ms'. ms \<subseteq> ms' \<and> control_ok crc start_lsn (log_alive r) st' ms' \<and>
    unat (fl_next_seq (ct_log st')) \<le> Suc (unat (fl_next_seq (ct_log st)))"
proof (cases "ci_event i")
  case (Stop v)
  then show ?thesis using assms(1,3) by (intro exI [of _ ms]) (auto simp: control_step_def)
next
  case Message
  obtain m c where m: "next_replication_message (ct_client st) = (m, c)" by fastforce
  let ?st = "st\<lparr>ct_client := c\<rparr>"
  have st: "control_ok crc start_lsn True ?st ms"
    using assms(1) next_message_facts(1) [OF m] by (simp add: control_ok_def acks_ok_def)
  show ?thesis
  proof (cases m)
    case (Inl e)
    then show ?thesis using assms(3) m st Message by (intro exI [of _ ms]) (auto simp: control_step_def ctl_client_def)
  next
    case (Inr msg)
    let ?body = "case msg of XLogData wal_start payload \<Rightarrow> control_xlog crc i wal_start payload ?st
           | Keepalive _ reply_requested \<Rightarrow> if reply_requested then control_keepalive i start_lsn ?st else (Ok (), ?st)"
    obtain q st2 where q: "?body = (q, st2)" by fastforce
    have "control_step crc start_lsn i st = st_bind ?body (\<lambda>_ st. (Ok True, st))"
      using m Inr Message by (simp add: control_step_def ctl_client_def)
    then have "(r, st') = st_bind (q, st2) (\<lambda>_ st. (Ok True, st))" using assms(3) q by simp
    then have r: "st' = st2 \<and> log_alive r = log_alive q" by (cases q) (simp_all add: log_alive_def split: control_error.splits)
    have "\<exists>ms'. ms \<subseteq> ms' \<and> control_ok crc start_lsn (log_alive q) st2 ms' \<and> unat (fl_next_seq (ct_log st2)) \<le> Suc (unat (fl_next_seq (ct_log st)))"
    proof (cases msg)
      case (XLogData s p)
      have "length p < 2 ^ 32" using next_message_facts(2) [OF m] Inr XLogData by simp
      then show ?thesis using ctl_xlog_ok [OF st] q XLogData assms(2) by simp
    next
      case (Keepalive w b)
      show ?thesis
      proof (cases b)
        case True
        then have "control_keepalive i start_lsn ?st = (q, st2)" using q Keepalive by simp
        from ctl_keepalive_ok [OF st this] obtain ms' where "ms \<subseteq> ms'" "control_ok crc start_lsn (log_alive q) st2 ms'"
          "fl_next_seq (ct_log st2) = fl_next_seq (ct_log ?st)" by blast
        then show ?thesis by (intro exI [of _ ms']) simp
      next
        case False
        then show ?thesis using q Keepalive st by auto
      qed
    qed
    then show ?thesis using r by auto
  qed
qed

lemma stop_control_ok:
  assumes "control_ok crc start_lsn True st ms"
  shows "control_ok crc start_lsn True (control_stop now st) ms"
proof -
  let ?m = "fl_mark (ct_log st)"
  define st1 where "st1 = (if dm_valid ?m then snd (ctl_status (dm_lsn ?m) now st) else st)"
  have "control_ok crc start_lsn True st1 ms"
  proof (cases "dm_valid ?m")
    case True
    obtain q st2 where q: "ctl_status (durable_or start_lsn ?m) now st = (q, st2)" by (rule prod.exhaust)
    then have "st1 = st2" using True by (simp add: st1_def durable_or_def)
    then show ?thesis using status_acks [OF assms q] by simp
  qed (simp add: st1_def assms)
  moreover have "justified start_lsn ms (message_bytes 88 [])" by (simp add: justified_def message_bytes_def)
  moreover have "control_stop now st = snd (ctl_client (close (ct_client st1)) st1)" by (simp add: control_stop_def st1_def Let_def)
  ultimately show ?thesis by (auto simp: control_ok_def ctl_client_def close_def send_msg_def acks_ok_def)
qed

lemma run_control_ok:
  "control_ok crc start_lsn True st ms \<Longrightarrow> unat (fl_next_seq (ct_log st)) + length is < 2 ^ 64 \<Longrightarrow>
    run_control crc start_lsn is st = (r, st') \<Longrightarrow> \<exists>ms'. ms \<subseteq> ms' \<and> control_ok crc start_lsn (log_alive r) st' ms'"
proof (induction "is" arbitrary: st ms)
  case (Cons i "is")
  obtain q st1 where q: "control_step crc start_lsn i st = (q, st1)" by fastforce
  from step_control_ok [OF Cons.prems(1) _ q] Cons.prems(2) obtain ms' where
    ms': "ms \<subseteq> ms'" "control_ok crc start_lsn (log_alive q) st1 ms'" "unat (fl_next_seq (ct_log st1)) \<le> Suc (unat (fl_next_seq (ct_log st)))"
    by auto
  consider e where "q = Inl e" | "q = Inr True" | "q = Inr False" by (metis (full_types) old.sum.exhaust)
  then show ?case
  proof cases
    case 1
    then show ?thesis using Cons.prems(3) q ms' by (auto simp: log_alive_def)
  next
    case 2
    then have "run_control crc start_lsn is st1 = (r, st')" "unat (fl_next_seq (ct_log st1)) + length is < 2 ^ 64"
      using Cons.prems(2,3) q ms'(3) by simp_all
    from Cons.IH [OF _ this(2,1), of ms'] ms'(1,2) 2 show ?thesis by auto
  next
    case 3
    then show ?thesis using Cons.prems(3) q ms' stop_control_ok [of crc start_lsn st1 ms'] by auto
  qed
qed auto

text \<open>A status once sent stays justified in every continuation of the log.\<close>

lemma marks_survive:
  assumes "log_reach crc (w, ms)" and "acks_ok start_lsn ms c"
    and "message_bytes 100 (status_body lsn rr now) \<in> set (rc_sent c)" and "lsn \<noteq> start_lsn"
    and "(log_step crc)\<^sup>*\<^sup>* (w, ms) (w', ms')"
  shows "\<exists>c \<in> set (log_frames crc (world_dir w')). fr_txn_complete c \<and> fr_lsn_end c = lsn"
proof -
  obtain m where m: "m \<in> ms" "dm_valid m" "dm_lsn m = lsn"
    using assms(2-4) unfolding acks_ok_def justified_def by blast
  have "log_reach crc (w', ms')" "m \<in> ms'"
    using log_steps_reach [OF assms(5,1)] log_steps_marks [OF assms(5)] m(1) by auto
  then have "mark_in m (log_frames crc (world_dir w'))" using world_marks [OF reach_inv] by blast
  then show ?thesis using m by (auto simp: mark_in_def)
qed

text \<open>
  C22. The control slot is never acknowledged past what the control log keeps. Run the loop over any messages, any
  chunking, any failure of the log or the socket, with or without a receiver: every position it reports,
  other than the start position, is the end of a transaction-complete frame that the log holds
  afterwards and through every continuation, crashes and resumes included.
\<close>
theorem control_ack_is_durable:
  assumes "log_reach crc (Live (ct_log st), ms)" and "rc_sent (ct_client st) = []"
    and "unat (fl_next_seq (ct_log st)) + length is < 2 ^ 64" and "run_control crc start_lsn is st = (r, st')"
  shows "\<exists>w ms'. w \<in> {Live (ct_log st'), Down (fl_dir (ct_log st'))} \<and> log_reach crc (w, ms') \<and>
    (\<forall>lsn rr now w' ms''. message_bytes 100 (status_body lsn rr now) \<in> set (rc_sent (ct_client st')) \<longrightarrow>
       lsn \<noteq> start_lsn \<longrightarrow> (log_step crc)\<^sup>*\<^sup>* (w, ms') (w', ms'') \<longrightarrow>
       (\<exists>c \<in> set (log_frames crc (world_dir w')). fr_txn_complete c \<and> fr_lsn_end c = lsn))"
proof -
  have "control_ok crc start_lsn True st ms" using assms(1,2) by (simp add: control_ok_def log_status_def acks_ok_def)
  from run_control_ok [OF this assms(3,4)] obtain ms' where
    ok: "log_status crc (log_alive r) (ct_log st') ms'" "acks_ok start_lsn ms' (ct_client st')" by (auto simp: control_ok_def)
  let ?w = "if log_alive r then Live (ct_log st') else Down (fl_dir (ct_log st'))"
  have w: "log_reach crc (?w, ms')" using ok(1) by (simp add: log_status_def)
  have "\<exists>c \<in> set (log_frames crc (world_dir w')). fr_txn_complete c \<and> fr_lsn_end c = lsn"
    if "message_bytes 100 (status_body lsn rr now) \<in> set (rc_sent (ct_client st'))" "lsn \<noteq> start_lsn"
      "(log_step crc)\<^sup>*\<^sup>* (?w, ms') (w', ms'')" for lsn rr now w' ms''
    using marks_survive [OF w ok(2) that] .
  then show ?thesis using w by (intro exI [of _ ?w] exI [of _ ms']) auto
qed

section \<open>A mapping is sent before its commit is durable\<close>

definition synced_bytes :: "dir \<Rightarrow> (u64 \<times> nat) list" where
  "synced_bytes d = map (\<lambda>(k, f). (k, f_synced f)) d"

lemma synced_append [simp]: "synced_bytes (dir_update k (file_append bs) d) = synced_bytes d"
  by (auto simp: synced_bytes_def dir_update_def file_append_def)

lemma synced_partial [simp]: "synced_bytes (dir_update k (file_append (take n bs)) d) = synced_bytes d"
  by simp

lemma write_file_synced: "write_file w bs L = (r, L') \<Longrightarrow> synced_bytes (fl_dir L') = synced_bytes (fl_dir L) \<and>
    fl_mark L' = fl_mark L \<and> fl_segment_max L' = fl_segment_max L \<and> fl_segment_len L' = fl_segment_len L"
  by (auto simp: write_file_def split: option.splits)

text \<open>
  A commit is mapped before it is durable. As long as fewer than 64 commits wait for an acknowledgement and the
  segment has room, the step that receives a Commit sends its mapping to the writer and leaves the durable
  mark and every synced byte of the control log where they were: the writer records the transaction as
  committed although a crash can still remove its commit frame from the control log.
\<close>
theorem mapping_precedes_durability:
  assumes "control_xlog crc i wal_start payload st = (Ok (), st')" and "commit_end_lsn payload = Some lsn"
    and "\<not> fl_stalled (ct_log st)" and "ct_unacked st + 1 < CONTROL_ACK_BATCH_COMMITS"
    and "fl_segment_len (ct_log st) + word_of_nat (length (encode_frame crc (new_frame (fl_next_seq (ct_log st)) wal_start lsn True payload)))
      < fl_segment_max (ct_log st)"
  shows "fl_mark (ct_log st') = fl_mark (ct_log st) \<and> synced_bytes (fl_dir (ct_log st')) = synced_bytes (fl_dir (ct_log st)) \<and>
    (\<exists>st0. deliver (ci_receiver i) (ct_pending st @ [new_frame (fl_next_seq (ct_log st)) wal_start lsn True payload]) st0 =
        (Ok (), st'\<lparr>ct_unacked := ct_unacked st\<rparr>) \<and> ct_sent st0 = ct_sent st)"
proof -
  let ?L = "ct_log st" and ?f = "new_frame (fl_next_seq (ct_log st)) wal_start lsn True payload"
  obtain q L where q: "log_append_deferred crc (ci_io i) wal_start lsn True payload ?L = (q, L)" by (rule prod.exhaust)
  have q1: "q = Ok (fl_next_seq ?L)" and L: "fl_mark L = fl_mark ?L" "synced_bytes (fl_dir L) = synced_bytes (fl_dir ?L)"
  proof -
    have ok: "is_ok q" using assms(1,2) q by (cases q) (auto simp: control_xlog_def ctl_log_def)
    obtain x L1 where w: "write_file (ci_io i) (encode_frame crc ?f) (take_seq True ?L) = (x, L1)" by (rule prod.exhaust)
    note ws = write_file_synced [OF w]
    have x: "x = Ok ()" using ok q w assms(3) by (cases x) (auto simp: log_append_deferred_def Let_def take_seq_def)
    have "\<not> fl_segment_max L1 \<le> fl_segment_len L1 + word_of_nat (length (encode_frame crc ?f))"
      using ws assms(5) by (simp add: take_seq_def not_le)
    then have "q = Ok (fl_next_seq ?L) \<and> fl_mark L = fl_mark L1 \<and> fl_dir L = fl_dir L1"
      using q w x assms(3) by (auto simp: log_append_deferred_def Let_def take_seq_def split: if_splits)
    then show "q = Ok (fl_next_seq ?L)" "fl_mark L = fl_mark ?L" "synced_bytes (fl_dir L) = synced_bytes (fl_dir ?L)"
      using ws by (simp_all add: take_seq_def)
  qed
  let ?st0 = "st\<lparr>ct_log := L, ct_pending := []\<rparr>"
  obtain d st2 where d: "deliver (ci_receiver i) (ct_pending st @ [?f]) ?st0 = (d, st2)" by (rule prod.exhaust)
  have fr: "ct_log st2 = L" "ct_unacked st2 = ct_unacked st" using deliver_frame [OF d] deliver_unacked [OF d] by simp_all
  have "d = Ok ()" "st' = st2\<lparr>ct_unacked := ct_unacked st2 + 1\<rparr>"
    using assms(1,2,4) q q1 d fr by (cases d; auto simp: control_xlog_def ctl_log_def Let_def split: if_splits)+
  then show ?thesis using L fr d by (intro conjI exI [of _ ?st0]) simp_all
qed

section \<open>A concrete stream\<close>

definition demo_marker_row :: named_row where
  "demo_marker_row = [(str ''sequence'', TText (str ''7'')), (str ''operation_sha256'', TText (str ''ab''))]"

definition demo_marker :: typed_change where
  "demo_marker = \<lparr>tc_commit_lsn = 0, tc_xid = 3, tc_table = CONTROL_MARKER_TABLE, tc_op = OInsert, tc_new = Some demo_marker_row, tc_old = None\<rparr>"

text \<open>A mapper in a transaction that has inserted the marker of sequence 7, and a loop about to receive its commit.\<close>

definition demo_mapper :: stream_decoder where
  "demo_mapper = decoder_new\<lparr>sd_txn := Some (open_txn 3\<lparr>tx_changes := [demo_marker]\<rparr>)\<rparr>"

definition demo_mapped :: ledger_commit where
  "demo_mapped = \<lparr>lc_sequence = 7, lc_xid = 3, lc_source_lsn = 9, lc_operation = str ''ab''\<rparr>"

definition demo_control :: control where
  "demo_control = \<lparr>ct_client = pm_client demo_pump, ct_log = log_create 1000, ct_mapper = demo_mapper, ct_pending = [],
     ct_unacked = 0, ct_sent = []\<rparr>"

definition demo_ci :: control_input where
  "demo_ci = \<lparr>ci_event = Message, ci_io = io_fine, ci_flush_io = io_fine, ci_now = 0, ci_receiver = True\<rparr>"

lemma demo_commit_parsed: "parse_message demo_commit = Ok (MCommit 0 3 9 0)"
  by (simp add: demo_commit_def parse_message_def parse_tagged_def parse_commit_def lift_get_def rd_ret_def
      get_put(4) [of 0 "[]", simplified])

lemma demo_below_batch: "\<not> CONTROL_ACK_BATCH_COMMITS \<le> 1"
  by (simp add: CONTROL_ACK_BATCH_COMMITS_def word_le_nat_alt)

lemma demo_mapping:
  "\<exists>d. mapper_feed (new_frame 0 5 9 True demo_commit) demo_mapper = (Ok (Some demo_mapped), d)"
  by (simp add: mapper_feed_def feed_def parse_frame_def demo_commit_parsed demo_mapper_def decoder_new_def init_batch_def
      commit_changes_def demo_marker_def marker_from_change_def marker_field_def demo_marker_row_def open_txn_def
      parse_unsigned_def digit_val_def demo_mapped_def)

theorem mapping_comes_from_commit_witness:
  "\<exists>t. sd_txn demo_mapper = Some t \<and> lc_source_lsn demo_mapped = 9 \<and>
    (\<exists>x. filter (\<lambda>x. tc_table x = CONTROL_MARKER_TABLE) (commit_changes 9 t) = [x])"
proof -
  obtain d where "mapper_feed (new_frame 0 5 9 True demo_commit) demo_mapper = (Ok (Some demo_mapped), d)" using demo_mapping by blast
  from mapping_comes_from_commit [OF this] obtain e t x where
    "sd_txn demo_mapper = Some t" "lc_source_lsn demo_mapped = e" "filter (\<lambda>x. tc_table x = CONTROL_MARKER_TABLE) (commit_changes e t) = [x]"
    by blast
  then show ?thesis by (auto simp: demo_mapped_def)
qed

lemma demo_control_xlog:
  "\<exists>st. control_xlog (\<lambda>_. 0) demo_ci 5 demo_commit demo_control = (Ok (), st) \<and> ct_sent st = [demo_mapped]"
proof -
  obtain d where d: "mapper_feed (new_frame 0 5 9 True demo_commit) demo_mapper = (Ok (Some demo_mapped), d)" using demo_mapping by blast
  have len: "length demo_commit = 26" by (simp add: demo_commit_def)
  show ?thesis
    by (simp add: control_xlog_def demo_commit_end demo_ci_def demo_control_def log_append_deferred_def run_op_defs len ctl_log_def Let_def d
        demo_below_batch)
qed

theorem mapping_precedes_durability_witness:
  "\<exists>st. control_xlog (\<lambda>_. 0) demo_ci 5 demo_commit demo_control = (Ok (), st) \<and> ct_sent st = [demo_mapped] \<and>
    fl_mark (ct_log st) = default_mark \<and> synced_bytes (fl_dir (ct_log st)) = [(0, 0)]"
proof -
  obtain st where st: "control_xlog (\<lambda>_. 0) demo_ci 5 demo_commit demo_control = (Ok (), st)" "ct_sent st = [demo_mapped]"
    using demo_control_xlog by blast
  have len: "length demo_commit = 26" by (simp add: demo_commit_def)
  have "fl_mark (ct_log st) = fl_mark (ct_log demo_control) \<and> synced_bytes (fl_dir (ct_log st)) = synced_bytes (fl_dir (ct_log demo_control))"
    using mapping_precedes_durability [OF st(1) demo_commit_end]
    by (simp add: demo_control_def log_create_def CONTROL_ACK_BATCH_COMMITS_def len)
  then show ?thesis using st by (simp add: demo_control_def log_create_def synced_bytes_def empty_file_def)
qed

text \<open>The 64th commit of a batch: the log is flushed and the commit's end reported; then the loop is stopped.\<close>

definition demo_full_batch :: control where
  "demo_full_batch = demo_control\<lparr>ct_unacked := 63\<rparr>"

lemma demo_batch_acked:
  "\<exists>st. control_step (\<lambda>_. 0) 4 demo_ci demo_full_batch = (Ok True, st) \<and> ct_sent st = [demo_mapped] \<and>
    message_bytes 100 (status_body 9 False 0) \<in> set (rc_sent (ct_client st))"
proof -
  obtain c where c: "next_replication_message (ct_client demo_control) = (Ok (XLogData 5 demo_commit), c)" "rc_sent c = []" "rc_writable c"
    using demo_arrival by (auto simp: demo_control_def)
  then have c': "next_replication_message (pm_client demo_pump) = (Ok (XLogData 5 demo_commit), c)" by (simp add: demo_control_def)
  obtain d where d: "mapper_feed (new_frame 0 5 9 True demo_commit) demo_mapper = (Ok (Some demo_mapped), d)" using demo_mapping by blast
  have len: "length demo_commit = 26" by (simp add: demo_commit_def)
  show ?thesis
    by (simp add: control_step_def demo_ci_def c' ctl_client_def demo_full_batch_def demo_control_def)
      (simp add: control_xlog_def demo_commit_end log_append_deferred_def run_op_defs len ctl_log_def Let_def d
        CONTROL_ACK_BATCH_COMMITS_def ack_batch_def flush_pending_def ctl_status_def ctl_client_def send_standby_status_def send_msg_def
        ensure_def c)
qed

lemma stop_keeps_sent: "set (rc_sent (ct_client st)) \<subseteq> set (rc_sent (ct_client (control_stop now st)))"
  by (auto simp: control_stop_def Let_def ctl_status_def ctl_client_def send_standby_status_def close_def send_msg_def)

theorem control_ack_is_durable_witness:
  "\<exists>r st' w ms'. run_control (\<lambda>_. 0) 4 [demo_ci, demo_ci\<lparr>ci_event := Stop None\<rparr>] demo_full_batch = (r, st') \<and>
    message_bytes 100 (status_body 9 False 0) \<in> set (rc_sent (ct_client st')) \<and> log_reach (\<lambda>_. 0) (w, ms') \<and>
    (\<forall>w' ms''. (log_step (\<lambda>_. 0))\<^sup>*\<^sup>* (w, ms') (w', ms'') \<longrightarrow>
       (\<exists>c \<in> set (log_frames (\<lambda>_. 0) (world_dir w')). fr_txn_complete c \<and> fr_lsn_end c = 9))"
proof -
  from demo_batch_acked obtain st where st: "control_step (\<lambda>_. 0) 4 demo_ci demo_full_batch = (Ok True, st)"
    "message_bytes 100 (status_body 9 False 0) \<in> set (rc_sent (ct_client st))" by blast
  let ?i = "demo_ci\<lparr>ci_event := Stop None\<rparr>"
  have run: "run_control (\<lambda>_. 0) 4 [demo_ci, ?i] demo_full_batch = (Ok False, control_stop (ci_now ?i) st)"
    by (simp add: st(1)) (simp add: control_step_def)
  have sent: "message_bytes 100 (status_body 9 False 0) \<in> set (rc_sent (ct_client (control_stop (ci_now ?i) st)))"
    using st(2) stop_keeps_sent by blast
  have "log_reach (\<lambda>_. 0) (Live (ct_log demo_full_batch), {default_mark})"
    by (simp add: demo_full_batch_def demo_control_def reach_create)
  moreover have "rc_sent (ct_client demo_full_batch) = []" "unat (fl_next_seq (ct_log demo_full_batch)) + length [demo_ci, ?i] < 2 ^ 64"
    by (simp_all add: demo_full_batch_def demo_control_def demo_pump_def log_create_def)
  ultimately obtain w ms' where w: "log_reach (\<lambda>_. 0) (w, ms')" and
    surv: "\<forall>lsn rr now w' ms''. message_bytes 100 (status_body lsn rr now) \<in> set (rc_sent (ct_client (control_stop (ci_now ?i) st))) \<longrightarrow>
       lsn \<noteq> 4 \<longrightarrow> (log_step (\<lambda>_. 0))\<^sup>*\<^sup>* (w, ms') (w', ms'') \<longrightarrow>
       (\<exists>c \<in> set (log_frames (\<lambda>_. 0) (world_dir w')). fr_txn_complete c \<and> fr_lsn_end c = lsn)"
    using control_ack_is_durable [OF _ _ _ run] by blast
  have "(9 :: u64) \<noteq> 4" by simp
  then have "\<forall>w' ms''. (log_step (\<lambda>_. 0))\<^sup>*\<^sup>* (w, ms') (w', ms'') \<longrightarrow>
       (\<exists>c \<in> set (log_frames (\<lambda>_. 0) (world_dir w')). fr_txn_complete c \<and> fr_lsn_end c = 9)" using surv sent by blast
  then show ?thesis using run sent w by blast
qed

end
