(* ===== verification/Generator.thy ===== *)
theory Generator
  imports CopyText Numerals "HOL-Library.List_Lexorder" "HOL-Library.Signed_Division" "HOL-Library.Monad_Syntax"
begin

text \<open>
  The seed data of the benchmark, \<open>crates/graydb-r1/src/generator.rs\<close>: the id ranges of a load cycle, the
  row of an id, and the COPY batches of a range. An \<open>i64\<close> is a word read with \<open>sint\<close>; a branch the code
  marks \<open>unreachable!\<close> is \<open>None\<close>. SHA-256 and the text \<open>serde_json\<close> gives a value are parameters.
\<close>

type_synonym i64 = "64 word"

section \<open>Load cycles\<close>

datatype seed_table = Tenants | Customers | Orders | OrderEvents

fun table_tag :: "seed_table \<Rightarrow> u64" where
  "table_tag Tenants = 1"
| "table_tag Customers = 2"
| "table_tag Orders = 3"
| "table_tag OrderEvents = 4"

record id_range =
  rg_start :: u64
  rg_end :: u64

record table_range =
  tg_table :: seed_table
  tg_range :: id_range

definition single_cycle_ranges :: "u64 \<Rightarrow> table_range list" where
  "single_cycle_ranges cycle =
     (let base = cycle * 100
      in map (\<lambda>(t, count). \<lparr>tg_table = t, tg_range = \<lparr>rg_start = base + 1, rg_end = base + count + 1\<rparr>\<rparr>)
           [(Tenants, 1), (Customers, 5), (Orders, 20), (OrderEvents, 60)])"

text \<open>The ids of a \<open>Range<u64>\<close>, in order.\<close>

definition range_ids :: "u64 \<Rightarrow> u64 \<Rightarrow> u64 list" where
  "range_ids a b = map word_of_nat [unat a..<unat b]"

fun push_cycle :: "table_range list \<Rightarrow> u64 \<Rightarrow> (seed_table \<times> u64) list \<Rightarrow> table_range list" where
  "push_cycle out base [] = out"
| "push_cycle out base ((t, count) # cs) =
     push_cycle (out @ [\<lparr>tg_table = t, tg_range = \<lparr>rg_start = base + 1, rg_end = base + count + 1\<rparr>\<rparr>]) base cs"

definition cycle_ranges :: "u64 \<Rightarrow> table_range list" where
  "cycle_ranges cycles =
     foldl (\<lambda>out cycle. push_cycle out (cycle * 100) [(Tenants, 1), (Customers, 5), (Orders, 20), (OrderEvents, 60)])
       [] (range_ids 0 cycles)"

section \<open>Draws\<close>

definition mix64 :: "u64 \<Rightarrow> u64" where
  "mix64 z =
     (let z = z + 0x9E3779B97F4A7C15;
          z = (z XOR drop_bit 30 z) * 0xBF58476D1CE4E5B9;
          z = (z XOR drop_bit 27 z) * 0x94D049BB133111EB
      in z XOR drop_bit 31 z)"

definition gen_draw :: "u64 \<Rightarrow> seed_table \<Rightarrow> u64 \<Rightarrow> u64 \<Rightarrow> u64" where
  "gen_draw seed t i salt = mix64 (seed XOR table_tag t XOR word_rotl 17 i XOR word_rotl 41 salt)"

fun choose_slot :: "u64 \<Rightarrow> ('a \<times> u64) list \<Rightarrow> 'a option" where
  "choose_slot slot [] = None"
| "choose_slot slot ((v, w) # cs) = (if slot < w then Some v else choose_slot (slot - w) cs)"

definition weighted_choice :: "u64 \<Rightarrow> ('a \<times> u64) list \<Rightarrow> 'a option" where
  "weighted_choice draw cs = (let total = sum_list (map snd cs) in if total = 0 then None else choose_slot (draw mod total) cs)"

definition regions :: "(rstr \<times> u64) list" where
  "regions = [(str ''us-east'', 46), (str ''us-west'', 27), (str ''eu-west'', 18), (str ''ap-south'', 9)]"

definition plans :: "(rstr \<times> u64) list" where
  "plans = [(str ''free'', 70), (str ''pro'', 23), (str ''enterprise'', 7)]"

definition segments :: "(rstr \<times> u64) list" where
  "segments = [(str ''consumer'', 55), (str ''smb'', 29), (str ''mid-market'', 12), (str ''enterprise'', 4)]"

definition email_domains :: "(rstr \<times> u64) list" where
  "email_domains = [(str ''example.com'', 58), (str ''mail.test'', 25), (str ''corp.test'', 12), (str ''acme.test'', 5)]"

definition statuses :: "(rstr \<times> u64) list" where
  "statuses = [(str ''paid'', 46), (str ''shipped'', 27), (str ''pending'', 15), (str ''cancelled'', 8), (str ''refunded'', 4)]"

definition channels :: "(rstr \<times> u64) list" where
  "channels = [(str ''web'', 61), (str ''mobile'', 31), (str ''partner'', 8)]"

definition event_types :: "(rstr \<times> u64) list" where
  "event_types = [(str ''created'', 42), (str ''paid'', 30), (str ''fulfilled'', 17), (str ''cancelled'', 7), (str ''returned'', 4)]"

definition cents_buckets :: "((i64 \<times> i64) \<times> u64) list" where
  "cents_buckets = [((100, 2499), 55), ((2500, 9999), 27), ((10000, 49999), 12), ((50000, 249999), 5), ((250000, 2000000), 1)]"

definition long_tailed_cents :: "u64 \<Rightarrow> u64 \<Rightarrow> i64 option" where
  "long_tailed_cents bucket_draw value_draw =
     map_option (\<lambda>(low, high). low + value_draw mod (high - low + 1)) (choose_slot (bucket_draw mod 100) cents_buckets)"

definition MAX_TENANT_ACTIVITY_RANK :: u64 where "MAX_TENANT_ACTIVITY_RANK = 64"

text \<open>The weight of a rank is \<open>10000 / rank\<close>.\<close>

definition zipf_weights :: "u64 \<Rightarrow> (u64 \<times> u64) list" where
  "zipf_weights max_rank = map (\<lambda>rank. (rank, 10000 div rank)) (range_ids 1 (max_rank + 1))"

definition bounded_zipf_rank :: "u64 \<Rightarrow> u64 \<Rightarrow> u64 option" where
  "bounded_zipf_rank draw max_rank =
     (if 0 < max_rank \<and> max_rank \<le> MAX_TENANT_ACTIVITY_RANK then weighted_choice draw (zipf_weights max_rank) else None)"

section \<open>The row of an id\<close>

definition cycle_base :: "u64 \<Rightarrow> u64" where
  "cycle_base i = (if i = 0 then 0 else i - 1) div 100 * 100"

definition order_for_event :: "u64 \<Rightarrow> u64 \<Rightarrow> u64" where
  "order_for_event i draw = cycle_base i + 1 + draw mod 20"

definition customer_for_order :: "u64 \<Rightarrow> u64 \<Rightarrow> u64" where
  "customer_for_order i draw = cycle_base i + 1 + draw mod 5"

definition tenant_for_customer :: "u64 \<Rightarrow> u64 \<Rightarrow> u64 option" where
  "tenant_for_customer i draw =
     (let loaded_tenants = cycle_base i div 100 + 1
      in map_option (\<lambda>rank. (rank - 1) * 100 + 1) (bounded_zipf_rank draw (min loaded_tenants MAX_TENANT_ACTIVITY_RANK)))"

text \<open>A \<open>serde_json::Value\<close>, as far as \<open>json\<close> builds one; an object is its entries in key order.\<close>

datatype json_value = JNumber u64 | JString rstr | JObject "(rstr \<times> json_value) list"

definition json_label_len :: "u64 \<Rightarrow> nat" where
  "json_label_len v = (let m = v mod 100 in if m \<le> 54 then 3 else if m \<le> 81 then 16 else if m \<le> 93 then 64 else 128)"

definition json_tree :: "u64 \<Rightarrow> rstr \<Rightarrow> json_value option" where
  "json_tree v k = do {
     let tags = bt_insert (str ''bucket'') (JNumber (v mod 8)) [];
     let tags = bt_insert (str ''label'') (JString (replicate (json_label_len v) (of_char (CHR ''x'')))) tags;
     obj \<leftarrow> (if k = str ''tenant''
             then map_option (\<lambda>rank. bt_insert (str ''activity_rank'') (JNumber rank) []) (bounded_zipf_rank v MAX_TENANT_ACTIVITY_RANK)
             else Some []);
     let obj = bt_insert (str ''kind'') (JString k) obj;
     let obj = bt_insert (str ''payload'') (JNumber (v mod 1000)) obj;
     let obj = bt_insert (str ''schema_version'') (JNumber 1) obj;
     Some (JObject (bt_insert (str ''tags'') (JObject tags) obj))
   }"

definition gen_json :: "(json_value \<Rightarrow> rstr) \<Rightarrow> u64 \<Rightarrow> rstr \<Rightarrow> rstr option" where
  "gen_json jp v k = map_option jp (json_tree v k)"

text \<open>\<open>{:02}\<close>.\<close>

definition pad2_int :: "int \<Rightarrow> rstr" where
  "pad2_int n = (let s = show_int n in if length s < 2 then of_char (CHR ''0'') # s else s)"

definition format_timestamp :: "i64 \<Rightarrow> rstr" where
  "format_timestamp seconds =
     (let s = sint seconds
      in show_int (1970 + s sdiv 31536000) @ str ''-'' @ pad2_int (1 + (s sdiv 2592000) smod 12) @ str ''-'' @
         pad2_int (1 + (s sdiv 86400) smod 28) @ str '' 00:00:00+00'')"

datatype seed_row =
    TenantRow (rw_id: u64) (rw_region: rstr) (rw_plan: rstr) (rw_created: rstr) (rw_json: rstr)
  | CustomerRow (rw_id: u64) (rw_tenant: u64) (rw_segment: rstr) (rw_email_domain: rstr) (rw_json: rstr) (rw_created: rstr)
  | OrderRow (rw_id: u64) (rw_tenant: u64) (rw_customer: u64) (rw_status: rstr) (rw_channel: rstr) (rw_amount: i64)
      (rw_created: rstr) (rw_updated: rstr) (rw_json: rstr)
  | EventRow (rw_id: u64) (rw_order: u64) (rw_tenant: u64) (rw_type: rstr) (rw_created: rstr) (rw_json: rstr)

definition selected_order :: "u64 \<Rightarrow> seed_table \<Rightarrow> u64 \<Rightarrow> u64" where
  "selected_order seed t i = order_for_event i (gen_draw seed t i 3)"

definition selected_customer :: "u64 \<Rightarrow> seed_table \<Rightarrow> u64 \<Rightarrow> u64" where
  "selected_customer seed t i =
     (case t of
        OrderEvents \<Rightarrow> (let j = selected_order seed t i in customer_for_order j (gen_draw seed Orders j 7))
      | _ \<Rightarrow> customer_for_order i (gen_draw seed Orders i 7))"

definition row_tenant :: "u64 \<Rightarrow> seed_table \<Rightarrow> u64 \<Rightarrow> u64 option" where
  "row_tenant seed t i =
     (case t of
        Tenants \<Rightarrow> Some i
      | Customers \<Rightarrow> tenant_for_customer i (gen_draw seed Customers i 11)
      | _ \<Rightarrow> (let c = selected_customer seed t i in tenant_for_customer c (gen_draw seed Customers c 11)))"

definition row_created :: "u64 \<Rightarrow> seed_table \<Rightarrow> u64 \<Rightarrow> i64" where
  "row_created seed t i = (let age = gen_draw seed t i 2 mod 31536000 in 1609459200 + 31536000 - (age * age) div 31536000)"

definition make_row :: "(json_value \<Rightarrow> rstr) \<Rightarrow> u64 \<Rightarrow> seed_table \<Rightarrow> u64 \<Rightarrow> seed_row option" where
  "make_row jp seed t i = do {
     let d = gen_draw seed t i;
     tenant \<leftarrow> row_tenant seed t i;
     let created = row_created seed t i;
     let ts = format_timestamp created;
     case t of
       Tenants \<Rightarrow> do {
         region \<leftarrow> weighted_choice (d 3) regions;
         plan \<leftarrow> weighted_choice (d 4) plans;
         settings \<leftarrow> gen_json jp (d 5) (str ''tenant'');
         Some (TenantRow i region plan ts settings) }
     | Customers \<Rightarrow> do {
         segment \<leftarrow> weighted_choice (d 3) segments;
         domain \<leftarrow> weighted_choice (d 4) email_domains;
         profile \<leftarrow> gen_json jp (d 5) (str ''customer'');
         Some (CustomerRow i tenant segment domain profile ts) }
     | Orders \<Rightarrow> do {
         let updated = format_timestamp (created + d 6 mod 86400);
         status \<leftarrow> weighted_choice (d 3) statuses;
         channel \<leftarrow> weighted_choice (d 4) channels;
         cents \<leftarrow> long_tailed_cents (d 5) (d 9);
         attributes \<leftarrow> gen_json jp (d 8) (str ''order'');
         Some (OrderRow i tenant (selected_customer seed t i) status channel cents ts updated attributes) }
     | OrderEvents \<Rightarrow> do {
         event_type \<leftarrow> weighted_choice (d 4) event_types;
         metadata \<leftarrow> gen_json jp (d 5) (str ''event'');
         Some (EventRow i (selected_order seed t i) tenant event_type ts metadata) }
   }"

section \<open>COPY batches\<close>

definition show_u64 :: "u64 \<Rightarrow> rstr" where
  "show_u64 n = show_nat 10 (unat n)"

fun seed_fields :: "seed_row \<Rightarrow> rstr list" where
  "seed_fields (TenantRow i region plan created settings) = [show_u64 i, region, plan, created, settings]"
| "seed_fields (CustomerRow i tenant segment domain profile created) =
     [show_u64 i, show_u64 tenant, segment, domain, profile, created]"
| "seed_fields (OrderRow i tenant customer status channel cents created updated attributes) =
     [show_u64 i, show_u64 tenant, show_u64 customer, status, channel, show_int (sint cents), created, updated, attributes]"
| "seed_fields (EventRow i order tenant event_type event_at metadata) =
     [show_u64 i, show_u64 order, show_u64 tenant, event_type, event_at, metadata]"

definition replace_byte :: "byte \<Rightarrow> bytes \<Rightarrow> rstr \<Rightarrow> rstr" where
  "replace_byte b r s = concat (map (\<lambda>c. if c = b then r else [c]) s)"

definition gen_escape :: "rstr \<Rightarrow> rstr" where
  "gen_escape v =
     replace_byte 0x0D [BACKSLASH, of_char (CHR ''r'')]
       (replace_byte LF [BACKSLASH, of_char (CHR ''n'')]
         (replace_byte TAB [BACKSLASH, of_char (CHR ''t'')] (replace_byte BACKSLASH [BACKSLASH, BACKSLASH] v)))"

fun push_fields :: "bytes \<Rightarrow> nat \<Rightarrow> rstr list \<Rightarrow> bytes" where
  "push_fields out n [] = out"
| "push_fields out n (f # fs) = push_fields ((if 0 < n then out @ [TAB] else out) @ gen_escape f) (Suc n) fs"

fun copy_loop :: "(u64 \<Rightarrow> seed_row option) \<Rightarrow> u64 list \<Rightarrow> bytes \<Rightarrow> u64 \<Rightarrow> (bytes \<times> u64) option" where
  "copy_loop row [] out rows = Some (out, rows)"
| "copy_loop row (i # is) out rows =
     do { r \<leftarrow> row i; copy_loop row is (push_fields out 0 (seed_fields r) @ [LF]) (rows + 1) }"

record copy_batch_rec =
  cb_table :: seed_table
  cb_rows :: u64
  cb_bytes :: bytes
  cb_sha :: rstr

text \<open>The generator: its seed, the JSON text and the hash.\<close>

record generator =
  gn_seed :: u64
  gn_json :: "json_value \<Rightarrow> rstr"
  gn_sha :: "bytes \<Rightarrow> bytes"

definition gen_row :: "generator \<Rightarrow> seed_table \<Rightarrow> u64 \<Rightarrow> seed_row option" where
  "gen_row g t i = make_row (gn_json g) (gn_seed g) t i"

definition copy_batch :: "generator \<Rightarrow> seed_table \<Rightarrow> u64 \<Rightarrow> u64 \<Rightarrow> copy_batch_rec option" where
  "copy_batch g t a b = do {
     (out, rows) \<leftarrow> copy_loop (gen_row g t) (range_ids a b) [] 0;
     Some \<lparr>cb_table = t, cb_rows = rows, cb_bytes = out, cb_sha = encode_hex (gn_sha g out)\<rparr>
   }"

definition COPY_BATCH_ROWS :: u64 where "COPY_BATCH_ROWS = 100000"

text \<open>The loop of \<open>copy_batches\<close>; \<open>None\<close> is a panic or a loop that does not end.\<close>

partial_function (option) batch_loop ::
    "(u64 \<Rightarrow> u64 \<Rightarrow> copy_batch_rec option) \<Rightarrow> u64 \<Rightarrow> u64 \<Rightarrow> copy_batch_rec list \<Rightarrow> copy_batch_rec list option" where
  "batch_loop f a b out =
     (if a < b
      then Option.bind (f a (min (a + COPY_BATCH_ROWS) b)) (\<lambda>x. batch_loop f (min (a + COPY_BATCH_ROWS) b) b (out @ [x]))
      else Some out)"

definition copy_batches :: "generator \<Rightarrow> seed_table \<Rightarrow> u64 \<Rightarrow> u64 \<Rightarrow> copy_batch_rec list option" where
  "copy_batches g t a b = batch_loop (copy_batch g t) a b []"

section \<open>Draws of different ids differ\<close>

lemma xorshift_inj:
  assumes "0 < n" and "x XOR drop_bit n x = y XOR drop_bit n (y :: u64)"
  shows "x = y"
proof (rule bit_word_eqI)
  fix k
  have "bit x k = bit y k" for k
  proof (induction "64 - k" arbitrary: k rule: less_induct)
    case less
    show ?case
    proof (cases "k < 64")
      case True
      then have "bit x (n + k) = bit y (n + k)" using assms(1) by (intro less) simp
      moreover have "bit (x XOR drop_bit n x) k = bit (y XOR drop_bit n y) k" using assms(2) by simp
      ultimately show ?thesis unfolding bit_xor_iff bit_drop_bit_eq comp_def by blast
    next
      case False
      then show ?thesis using bit_imp_le_length [of x k] bit_imp_le_length [of y k] by auto
    qed
  qed
  then show "bit x k = bit y k" .
qed

lemma mult_word_inj: "c * d = 1 \<Longrightarrow> x * c = y * c \<Longrightarrow> x = (y :: u64)"
proof -
  assume *: "c * d = 1" "x * c = y * c"
  have "x = x * c * d" by (simp only: mult.assoc *(1) mult_1_right)
  also have "\<dots> = y * c * d" by (simp only: *(2))
  also have "\<dots> = y" by (simp only: mult.assoc *(1) mult_1_right)
  finally show ?thesis .
qed

lemma mix64_inj: "inj mix64"
proof (rule injI)
  fix x y assume *: "mix64 x = mix64 y"
  define f where "f z = (z XOR drop_bit 30 z) * (0xBF58476D1CE4E5B9 :: u64)" for z
  define h where "h z = (z XOR drop_bit 27 z) * (0x94D049BB133111EB :: u64)" for z
  have fi: "p = q" if "f p = f q" for p q
    by (rule xorshift_inj [of 30]) (simp_all add: mult_word_inj [OF _ that [unfolded f_def], of "0x96DE1B173F119089"])
  have hi: "p = q" if "h p = h q" for p q
    by (rule xorshift_inj [of 27]) (simp_all add: mult_word_inj [OF _ that [unfolded h_def], of "0x319642B2D24D8EC3"])
  have m: "mix64 z = h (f (z + 0x9E3779B97F4A7C15)) XOR drop_bit 31 (h (f (z + 0x9E3779B97F4A7C15)))" for z
    by (simp only: mix64_def Let_def f_def h_def)
  have "h (f (x + 0x9E3779B97F4A7C15)) = h (f (y + 0x9E3779B97F4A7C15))"
    by (rule xorshift_inj [OF zero_less_numeral]) (rule * [unfolded m])
  then have "f (x + 0x9E3779B97F4A7C15) = f (y + 0x9E3779B97F4A7C15)" by (rule hi)
  then have "x + 0x9E3779B97F4A7C15 = y + 0x9E3779B97F4A7C15" by (rule fi)
  then show "x = y" by simp
qed

lemma xor_cancel: "a XOR b = a XOR c \<longleftrightarrow> b = c" "b XOR a = c XOR a \<longleftrightarrow> b = (c :: u64)"
proof -
  have *: "a XOR (a XOR d) = d" for d :: u64 by (simp only: xor.assoc [symmetric] xor_self_eq xor.left_neutral)
  then show "a XOR b = a XOR c \<longleftrightarrow> b = c" by metis
  then show "b XOR a = c XOR a \<longleftrightarrow> b = c" by (simp only: xor.commute)
qed

text \<open>
  No two ids share a draw. For one seed, table and salt the draw is an injective function of the id, so
  nothing but the reduction to a dictionary or a range makes two rows alike.
\<close>
theorem draws_of_ids_differ: "inj (\<lambda>i. gen_draw seed t i salt)"
proof (rule injI)
  fix i j assume "gen_draw seed t i salt = gen_draw seed t j salt"
  then have "seed XOR table_tag t XOR word_rotl 17 i XOR word_rotl 41 salt = seed XOR table_tag t XOR word_rotl 17 j XOR word_rotl 41 salt"
    unfolding gen_draw_def by (rule injD [OF mix64_inj])
  then have "word_rotl 17 i = word_rotl 17 j" by (simp only: xor_cancel)
  then show "i = j" by (metis word_rot_lr)
qed

section \<open>The marked branches are unreachable\<close>

lemma unat_sum_list: "sum_list (map unat ws) < 2 ^ 64 \<Longrightarrow> unat (sum_list ws :: u64) = sum_list (map unat ws)"
proof (induction ws)
  case (Cons w ws)
  then show ?case by (simp add: unat_add_lem [THEN iffD1])
qed simp

lemma choose_slot_Some:
  "sum_list (map (unat \<circ> snd) cs) < 2 ^ 64 \<Longrightarrow> unat slot < sum_list (map (unat \<circ> snd) cs) \<Longrightarrow>
    \<exists>v w. choose_slot slot cs = Some v \<and> (v, w) \<in> set cs"
proof (induction slot cs rule: choose_slot.induct)
  case (2 slot v w cs)
  show ?case
  proof (cases "slot < w")
    case False
    then have "unat (slot - w) = unat slot - unat w" by (simp add: unat_sub not_less)
    then have "\<exists>v' w'. choose_slot (slot - w) cs = Some v' \<and> (v', w') \<in> set cs"
      using False 2(2,3) by (intro 2(1)) (auto simp: not_less word_le_nat_alt)
    then show ?thesis using False by auto
  qed auto
qed simp

lemma weighted_choice_Some:
  assumes "sum_list (map (unat \<circ> snd) cs) < 2 ^ 64" and "0 < sum_list (map (unat \<circ> snd) cs)"
  shows "\<exists>v w. weighted_choice draw cs = Some v \<and> (v, w) \<in> set cs"
proof -
  let ?t = "sum_list (map snd cs)"
  have u: "unat ?t = sum_list (map (unat \<circ> snd) cs)" using unat_sum_list [of "map snd cs"] assms(1) by (simp add: comp_def)
  then have "unat (draw mod ?t) < sum_list (map (unat \<circ> snd) cs)" using assms(2) by (simp add: unat_mod)
  moreover have "?t \<noteq> 0" using u assms(2) by (metis less_numeral_extra(3) unsigned_0)
  ultimately show ?thesis using choose_slot_Some [OF assms(1)] by (simp add: weighted_choice_def Let_def)
qed

definition dict_values :: "(rstr \<times> u64) list \<Rightarrow> rstr set" where
  "dict_values cs = fst ` set cs"

lemma dictionary_choice:
  "\<exists>v \<in> dict_values regions. weighted_choice draw regions = Some v" "\<exists>v \<in> dict_values plans. weighted_choice draw plans = Some v"
  "\<exists>v \<in> dict_values segments. weighted_choice draw segments = Some v"
  "\<exists>v \<in> dict_values email_domains. weighted_choice draw email_domains = Some v"
  "\<exists>v \<in> dict_values statuses. weighted_choice draw statuses = Some v"
  "\<exists>v \<in> dict_values channels. weighted_choice draw channels = Some v"
  "\<exists>v \<in> dict_values event_types. weighted_choice draw event_types = Some v"
proof -
  have *: "\<exists>v \<in> dict_values cs. weighted_choice draw cs = Some v"
    if "sum_list (map (unat \<circ> snd) cs) = 100" for cs :: "(rstr \<times> u64) list"
    using weighted_choice_Some [of cs draw] that by (force simp: dict_values_def)
  show "\<exists>v \<in> dict_values regions. weighted_choice draw regions = Some v" by (rule *) (simp add: regions_def)
  show "\<exists>v \<in> dict_values plans. weighted_choice draw plans = Some v" by (rule *) (simp add: plans_def)
  show "\<exists>v \<in> dict_values segments. weighted_choice draw segments = Some v" by (rule *) (simp add: segments_def)
  show "\<exists>v \<in> dict_values email_domains. weighted_choice draw email_domains = Some v" by (rule *) (simp add: email_domains_def)
  show "\<exists>v \<in> dict_values statuses. weighted_choice draw statuses = Some v" by (rule *) (simp add: statuses_def)
  show "\<exists>v \<in> dict_values channels. weighted_choice draw channels = Some v" by (rule *) (simp add: channels_def)
  show "\<exists>v \<in> dict_values event_types. weighted_choice draw event_types = Some v" by (rule *) (simp add: event_types_def)
qed

lemma unat_range_ids: "map unat (range_ids a b) = [unat a..<unat b]"
proof -
  have "\<forall>n \<in> set [unat a..<unat b]. unat (word_of_nat n :: u64) = n" by (auto intro!: of_nat_inverse_64 less_trans [OF _ unat_bound, of _ b, simplified])
  then have "map (\<lambda>n. unat (word_of_nat n :: u64)) [unat a..<unat b] = [unat a..<unat b]" by (intro map_idI) blast
  then show ?thesis by (simp add: range_ids_def comp_def)
qed

lemma set_range_ids: "set (range_ids a b) = {i. a \<le> i \<and> i < b}"
proof -
  have "i \<in> set (range_ids a b) \<longleftrightarrow> unat i \<in> set (map unat (range_ids a b))" for i
    by (auto simp: image_iff dest: unsigned_word_eqI)
  then show ?thesis unfolding unat_range_ids by (auto simp: word_le_nat_alt word_less_nat_alt)
qed

lemma zipf_rank:
  assumes "0 < max_rank" and "max_rank \<le> 64"
  shows "\<exists>rank. bounded_zipf_rank draw max_rank = Some rank \<and> 0 < rank \<and> rank \<le> max_rank"
proof -
  have m: "unat (max_rank + 1) = unat max_rank + 1" "unat max_rank \<le> 64"
    using assms(2) by (auto simp: word_le_nat_alt unat_word_ariths)
  have len: "length (range_ids 1 (max_rank + 1)) = unat max_rank" using m by (simp add: range_ids_def)
  have le: "sum_list (map (unat \<circ> snd) (zipf_weights max_rank)) \<le> 10000 * unat max_rank"
  proof -
    have "sum_list (map (unat \<circ> snd) (zipf_weights max_rank)) = sum_list (map (\<lambda>rank. 10000 div unat rank) (range_ids 1 (max_rank + 1)))"
      by (simp add: zipf_weights_def comp_def unat_div)
    also have "\<dots> \<le> sum_list (map (\<lambda>_. 10000) (range_ids 1 (max_rank + 1)))" by (intro sum_list_mono) simp
    finally show ?thesis using len by (simp add: sum_list_triv)
  qed
  have "1 \<in> set (range_ids 1 (max_rank + 1))"
    using m assms(1) by (simp add: set_range_ids word_less_nat_alt)
  then have "10000 \<in> set (map (unat \<circ> snd) (zipf_weights max_rank))" by (force simp: zipf_weights_def unat_div)
  then have "10000 \<le> sum_list (map (unat \<circ> snd) (zipf_weights max_rank))" by (rule member_le_sum_list) simp
  then obtain v w where "weighted_choice draw (zipf_weights max_rank) = Some v" "(v, w) \<in> set (zipf_weights max_rank)"
    using weighted_choice_Some [of "zipf_weights max_rank" draw] le m by fastforce
  moreover from this(2) have "0 < v \<and> v \<le> max_rank"
    using m by (auto simp: zipf_weights_def set_range_ids word_le_nat_alt word_less_nat_alt)
  ultimately show ?thesis using assms by (simp add: bounded_zipf_rank_def MAX_TENANT_ACTIVITY_RANK_def)
qed

lemma gen_json_Some: "\<exists>s. gen_json jp v k = Some s"
  using zipf_rank [of 64 v] by (auto simp: gen_json_def json_tree_def Let_def MAX_TENANT_ACTIVITY_RANK_def)

lemma sint_small_i64: "unat (w :: i64) = n \<Longrightarrow> n < 2 ^ 63 \<Longrightarrow> sint w = int n"
proof -
  assume *: "unat w = n" "n < 2 ^ 63"
  then have "w = word_of_nat n" by (metis of_nat_unat ucast_id)
  then show ?thesis using *(2) by (simp add: signed_of_nat signed_take_bit_int_eq_self)
qed

lemma cents_Some: "\<exists>c. long_tailed_cents b v = Some c \<and> 100 \<le> sint c \<and> sint c \<le> 2000000"
proof -
  have m: "unat (b mod 100) < 100" by (simp add: unat_mod)
  obtain low high w where s: "choose_slot (b mod 100) cents_buckets = Some (low, high)" "((low, high), w) \<in> set cents_buckets"
    using choose_slot_Some [of cents_buckets "b mod 100"] m by (force simp: cents_buckets_def)
  have "100 \<le> sint (low + v mod (high - low + 1)) \<and> sint (low + v mod (high - low + 1)) \<le> 2000000"
  proof -
    have *: "100 \<le> sint (word_of_nat l + v mod word_of_nat n :: i64) \<and> sint (word_of_nat l + v mod word_of_nat n :: i64) \<le> 2000000"
      if "100 \<le> l" "l + n \<le> 2000001" "0 < n" for l n
    proof -
      define m where "m = unat v mod n"
      have m: "m < n" using that by (simp add: m_def)
      have "unat (v mod word_of_nat n) = m" using that by (simp add: unat_mod unat_of_nat m_def)
      moreover have "unat (word_of_nat l :: i64) = l" using that by (intro of_nat_inverse_64) simp
      ultimately have u: "unat (word_of_nat l + v mod word_of_nat n :: i64) = l + m"
        using that m by (subst unat_add_lem [THEN iffD1]) simp_all
      have "sint (word_of_nat l + v mod word_of_nat n :: i64) = int (l + m)"
        using that m by (intro sint_small_i64 [OF u]) simp
      then show ?thesis using that m by simp
    qed
    show ?thesis
      using s(2) * [of 100 2400] * [of 2500 7500] * [of 10000 40000] * [of 50000 200000] * [of 250000 1750001]
      by (auto simp: cents_buckets_def)
  qed
  then show ?thesis using s(1) by (simp add: long_tailed_cents_def)
qed

text \<open>What a row of a table holds: its id, values of the dictionaries, an amount between one and twenty thousand.\<close>

fun row_typed :: "seed_table \<Rightarrow> u64 \<Rightarrow> seed_row \<Rightarrow> bool" where
  "row_typed t i (TenantRow j region plan _ _) \<longleftrightarrow>
     t = Tenants \<and> j = i \<and> region \<in> dict_values regions \<and> plan \<in> dict_values plans"
| "row_typed t i (CustomerRow j _ segment domain _ _) \<longleftrightarrow>
     t = Customers \<and> j = i \<and> segment \<in> dict_values segments \<and> domain \<in> dict_values email_domains"
| "row_typed t i (OrderRow j _ _ status channel cents _ _ _) \<longleftrightarrow>
     t = Orders \<and> j = i \<and> status \<in> dict_values statuses \<and> channel \<in> dict_values channels \<and> 100 \<le> sint cents \<and> sint cents \<le> 2000000"
| "row_typed t i (EventRow j _ _ event_type _ _) \<longleftrightarrow> t = OrderEvents \<and> j = i \<and> event_type \<in> dict_values event_types"

lemma tenant_Some: "\<exists>tenant. tenant_for_customer i draw = Some tenant"
proof -
  let ?m = "min (cycle_base i div 100 + 1) (64 :: u64)"
  have "unat (cycle_base i) div 100 < 2 ^ 64 div 100 + 1"
    by (rule less_mult_imp_div_less) (simp add: less_trans [OF unat_width(4)])
  then have "unat (cycle_base i div 100) + 1 < 2 ^ 64" by (simp add: unat_div)
  then have "unat (cycle_base i div 100 + 1) = unat (cycle_base i div 100) + 1" by (simp add: unat_word_ariths)
  then have "0 < ?m" "?m \<le> 64" by (simp_all add: word_less_nat_alt min_def)
  from zipf_rank [OF this] show ?thesis by (auto simp: tenant_for_customer_def MAX_TENANT_ACTIVITY_RANK_def)
qed

lemma row_tenant_Some: "\<exists>tenant. row_tenant seed t i = Some tenant"
  by (cases t) (simp_all add: row_tenant_def tenant_Some Let_def)

lemma every_row: "\<exists>r. gen_row g t i = Some r \<and> row_typed t i r"
proof -
  obtain tenant where tn: "row_tenant (gn_seed g) t i = Some tenant" using row_tenant_Some by blast
  obtain j where j: "\<And>v k. gen_json (gn_json g) v k = Some (j v k)" using gen_json_Some by metis
  show ?thesis
  proof (cases t)
    case Tenants
    then show ?thesis
      using tn j dictionary_choice(1) [of "gen_draw (gn_seed g) t i 3"] dictionary_choice(2) [of "gen_draw (gn_seed g) t i 4"]
      by (auto simp: gen_row_def make_row_def Let_def)
  next
    case Customers
    then show ?thesis
      using tn j dictionary_choice(3) [of "gen_draw (gn_seed g) t i 3"] dictionary_choice(4) [of "gen_draw (gn_seed g) t i 4"]
      by (auto simp: gen_row_def make_row_def Let_def)
  next
    case Orders
    then show ?thesis
      using tn j dictionary_choice(5) [of "gen_draw (gn_seed g) t i 3"] dictionary_choice(6) [of "gen_draw (gn_seed g) t i 4"]
        cents_Some [of "gen_draw (gn_seed g) t i 5" "gen_draw (gn_seed g) t i 9"]
      by (auto simp: gen_row_def make_row_def Let_def)
  next
    case OrderEvents
    then show ?thesis
      using tn j dictionary_choice(7) [of "gen_draw (gn_seed g) t i 4"] by (auto simp: gen_row_def make_row_def Let_def)
  qed
qed

text \<open>
  Every id of every table has a row, of the kind of its table: no dictionary, rank or bucket loop runs
  past its end, whatever the seed and the draws, every value comes from its dictionary and an amount is
  between 1.00 and 20,000.00.
\<close>
theorem every_id_has_a_row: "\<exists>r. gen_row g t i = Some r \<and> row_typed t i r"
  by (rule every_row)

section \<open>Load cycles: the two enumerations\<close>

lemma push_cycle_app:
  "push_cycle out base cs =
     out @ map (\<lambda>(t, count). \<lparr>tg_table = t, tg_range = \<lparr>rg_start = base + 1, rg_end = base + count + 1\<rparr>\<rparr>) cs"
  by (induction out base cs rule: push_cycle.induct) simp_all

lemma cycles_unfold: "cycle_ranges n = concat (map single_cycle_ranges (range_ids 0 n))"
proof -
  have "foldl (\<lambda>out cycle. push_cycle out (cycle * 100) [(Tenants, 1), (Customers, 5), (Orders, 20), (OrderEvents, 60)]) out cs =
      out @ concat (map single_cycle_ranges cs)" for out cs
    by (induction cs arbitrary: out) (simp_all add: push_cycle_app single_cycle_ranges_def Let_def)
  then show ?thesis by (simp add: cycle_ranges_def)
qed

text \<open>
  One cycle at a time is the whole load: the ranges of \<open>cycle_ranges(n)\<close> are those of
  \<open>single_cycle_ranges\<close> for the cycles 0 to n - 1, in order.
\<close>
theorem cycles_one_at_a_time: "cycle_ranges n = concat (map single_cycle_ranges (range_ids 0 n))"
  by (rule cycles_unfold)

section \<open>References between the rows\<close>

definition loaded :: "u64 \<Rightarrow> seed_table \<Rightarrow> u64 \<Rightarrow> bool" where
  "loaded cycles t i \<longleftrightarrow>
     (\<exists>tr \<in> set (cycle_ranges cycles). tg_table tr = t \<and> rg_start (tg_range tr) \<le> i \<and> i < rg_end (tg_range tr))"

fun rows_per_cycle :: "seed_table \<Rightarrow> nat" where
  "rows_per_cycle Tenants = 1"
| "rows_per_cycle Customers = 5"
| "rows_per_cycle Orders = 20"
| "rows_per_cycle OrderEvents = 60"

lemma single_cycle_loaded:
  assumes "unat c < 2 ^ 57"
  shows "(\<exists>tr \<in> set (single_cycle_ranges c). tg_table tr = t \<and> rg_start (tg_range tr) \<le> i \<and> i < rg_end (tg_range tr)) \<longleftrightarrow>
    100 * unat c < unat i \<and> unat i \<le> 100 * unat c + rows_per_cycle t"
proof -
  have b: "unat (c * 100) = unat c * 100" using assms by (simp add: unat_word_ariths)
  have u: "unat (c * 100 + 1) = unat c * 100 + 1" "unat (c * 100 + n + 1) = unat c * 100 + unat n + 1" if "unat n < 100" for n
    using b assms that by (simp_all add: unat_word_ariths)
  show ?thesis
    using u [of 1] u [of 5] u [of 20] u [of 60]
    by (cases t) (auto simp: single_cycle_ranges_def Let_def word_le_nat_alt word_less_nat_alt)
qed

lemma loaded_iff:
  assumes "unat cycles \<le> 2 ^ 57"
  shows "loaded cycles t i \<longleftrightarrow> (\<exists>c < unat cycles. 100 * c < unat i \<and> unat i \<le> 100 * c + rows_per_cycle t)"
proof -
  have "loaded cycles t i \<longleftrightarrow> (\<exists>c \<in> set (range_ids 0 cycles).
      \<exists>tr \<in> set (single_cycle_ranges c). tg_table tr = t \<and> rg_start (tg_range tr) \<le> i \<and> i < rg_end (tg_range tr))"
    by (auto simp: loaded_def cycles_unfold)
  also have "\<dots> \<longleftrightarrow> (\<exists>c \<in> set (range_ids 0 cycles). 100 * unat c < unat i \<and> unat i \<le> 100 * unat c + rows_per_cycle t)"
    using assms by (intro bex_cong refl single_cycle_loaded) (auto simp: set_range_ids word_less_nat_alt)
  also have "\<dots> \<longleftrightarrow> (\<exists>c \<in> set (map unat (range_ids 0 cycles)). 100 * c < unat i \<and> unat i \<le> 100 * c + rows_per_cycle t)" by simp
  finally show ?thesis unfolding unat_range_ids by auto
qed

lemma unat_cycle_base: "unat (cycle_base i) = (unat i - 1) div 100 * 100"
proof -
  have "unat (if i = 0 then 0 else i - 1) = unat i - 1"
    by (simp add: unat_sub word_le_nat_alt unat_gt_0 Suc_le_eq)
  moreover have "(unat i - 1) div 100 * 100 \<le> unat i" by (metis diff_le_self div_times_less_eq_dividend le_trans)
  ultimately show ?thesis
    using le_less_trans [OF _ unat_bound [of i], of "(unat i - 1) div 100 * 100"]
    by (simp add: cycle_base_def unat_word_ariths unat_div)
qed

text \<open>An id of cycle \<open>c\<close>: the ids picked for it lie in the same cycle.\<close>

lemma picks_in_cycle:
  assumes "100 * c < unat i" and "unat i \<le> 100 * c + 100" and "c < 2 ^ 57"
  shows "unat (order_for_event i d) - 100 * c \<in> {1..20}" and "100 * c < unat (order_for_event i d)"
    and "unat (customer_for_order i d) - 100 * c \<in> {1..5}" and "100 * c < unat (customer_for_order i d)"
proof -
  have "(unat i - 1) div 100 = c" using assms(1,2) by (intro div_nat_eqI) simp_all
  then have b: "unat (cycle_base i) = c * 100" by (simp add: unat_cycle_base)
  have *: "unat (cycle_base i + 1 + d mod n) = c * 100 + 1 + unat d mod unat n \<and> unat d mod unat n < unat n"
    if "0 < unat n" "unat n \<le> 20" for n
  proof -
    have "unat d mod unat n < unat n" using that by simp
    then show ?thesis using b assms(3) that by (simp add: unat_word_ariths unat_mod del: mod_less_divisor)
  qed
  show "unat (order_for_event i d) - 100 * c \<in> {1..20}" "100 * c < unat (order_for_event i d)"
    using * [of 20] by (auto simp: order_for_event_def)
  show "unat (customer_for_order i d) - 100 * c \<in> {1..5}" "100 * c < unat (customer_for_order i d)"
    using * [of 5] by (auto simp: customer_for_order_def)
qed

lemma tenant_in_prefix:
  assumes "100 * c < unat i" and "unat i \<le> 100 * c + 100" and "c < n" and "n \<le> 2 ^ 57" and "tenant_for_customer i d = Some tenant"
  shows "\<exists>k < n. 100 * k < unat tenant \<and> unat tenant \<le> 100 * k + 1"
proof -
  have "(unat i - 1) div 100 = c" using assms(1,2) by (intro div_nat_eqI) simp_all
  then have "unat (cycle_base i div 100) = c" by (simp add: unat_div unat_cycle_base)
  then have m: "unat (cycle_base i div 100 + 1) = c + 1" using assms(3,4) by (simp add: unat_word_ariths)
  let ?m = "min (cycle_base i div 100 + 1) (64 :: u64)"
  have "0 < ?m" "?m \<le> 64" using m by (simp_all add: word_less_nat_alt min_def)
  from zipf_rank [OF this, of d] obtain rank where rank: "bounded_zipf_rank d ?m = Some rank" "0 < rank" "rank \<le> ?m" by blast
  have tn: "tenant = (rank - 1) * 100 + 1" using assms(5) rank(1) by (simp add: tenant_for_customer_def MAX_TENANT_ACTIVITY_RANK_def)
  have r: "1 \<le> unat rank" "unat rank \<le> c + 1" "unat rank \<le> 64"
    using rank(2,3) m by (auto simp: word_le_nat_alt word_less_nat_alt min_def split: if_splits)
  define q where "q = rank - 1"
  have "unat q = unat rank - 1" using r by (simp add: q_def unat_sub word_le_nat_alt)
  then have "unat tenant = (unat rank - 1) * 100 + 1" using r by (simp add: tn q_def [symmetric] unat_word_ariths)
  then show ?thesis using r assms(3) by (intro exI [of _ "unat rank - 1"]) auto
qed

text \<open>What the references of a row have to be, given the rows that are loaded.\<close>

definition row_at :: "generator \<Rightarrow> u64 \<Rightarrow> seed_table \<Rightarrow> u64 \<Rightarrow> u64 \<Rightarrow> bool" where
  "row_at g cycles t i tenant \<longleftrightarrow> loaded cycles t i \<and> (\<exists>r. gen_row g t i = Some r \<and> rw_tenant r = tenant)"

fun refs_ok :: "generator \<Rightarrow> u64 \<Rightarrow> seed_row \<Rightarrow> bool" where
  "refs_ok g cycles (TenantRow _ _ _ _ _) \<longleftrightarrow> True"
| "refs_ok g cycles (CustomerRow _ tenant _ _ _ _) \<longleftrightarrow> loaded cycles Tenants tenant"
| "refs_ok g cycles (OrderRow _ tenant customer _ _ _ _ _ _) \<longleftrightarrow>
     loaded cycles Tenants tenant \<and> row_at g cycles Customers customer tenant"
| "refs_ok g cycles (EventRow _ order tenant _ _ _) \<longleftrightarrow> loaded cycles Tenants tenant \<and> row_at g cycles Orders order tenant"

lemma rw_tenant_row: "gen_row g t i = Some r \<Longrightarrow> t \<noteq> Tenants \<Longrightarrow> row_tenant (gn_seed g) t i = Some (rw_tenant r)"
  by (cases t) (auto simp: gen_row_def make_row_def Let_def bind_eq_Some_conv)

lemma gen_row_Some: "\<exists>r. gen_row g t i = Some r"
  using every_row [of g t i] by blast

text \<open>
  C34. The seed rows refer to each other. Whatever is loaded, a prefix of the cycles: an order of it belongs
  to a loaded customer and carries that customer's tenant, an event to a loaded order and carries its
  tenant, and every tenant is a loaded one.
\<close>
theorem loaded_rows_refer_to_loaded_rows:
  assumes "unat cycles \<le> 2 ^ 57" and "loaded cycles t i" and "gen_row g t i = Some r"
  shows "refs_ok g cycles r"
proof -
  obtain c where c: "c < unat cycles" "100 * c < unat i" "unat i \<le> 100 * c + 100"
    using assms(2) unfolding loaded_iff [OF assms(1)] by (cases t) auto
  let ?s = "gn_seed g"
  have tn: "loaded cycles Tenants tenant" if "tenant_for_customer j d = Some tenant" "100 * c < unat j" "unat j \<le> 100 * c + 100" for j d tenant
    using tenant_in_prefix [OF that(2,3) c(1) assms(1) that(1)] by (simp add: loaded_iff [OF assms(1)])
  have c57: "c < 2 ^ 57" using c(1) assms(1) by simp
  have order: "loaded cycles Orders (order_for_event i d) \<and> 100 * c < unat (order_for_event i d) \<and> unat (order_for_event i d) \<le> 100 * c + 100" for d
    using picks_in_cycle(1,2) [OF c(2,3) c57, of d] c(1) by (auto simp: loaded_iff [OF assms(1)])
  have customer: "loaded cycles Customers (customer_for_order j d) \<and> 100 * c < unat (customer_for_order j d) \<and> unat (customer_for_order j d) \<le> 100 * c + 100"
    if "100 * c < unat j" "unat j \<le> 100 * c + 100" for j d
    using picks_in_cycle(3,4) [OF that c57, of d] c(1) by (auto simp: loaded_iff [OF assms(1)])
  show ?thesis
  proof (cases t)
    case Tenants
    then show ?thesis using assms(3) by (auto simp: gen_row_def make_row_def Let_def bind_eq_Some_conv)
  next
    case Customers
    then show ?thesis
      using assms(3) tn [OF _ c(2,3)] by (auto simp: gen_row_def make_row_def Let_def bind_eq_Some_conv row_tenant_def)
  next
    case Orders
    let ?c = "customer_for_order i (gen_draw ?s Orders i 7)"
    obtain rc where rc: "gen_row g Customers ?c = Some rc" using gen_row_Some by blast
    have tc: "row_tenant ?s Orders i = tenant_for_customer ?c (gen_draw ?s Customers ?c 11)"
      "row_tenant ?s Customers ?c = tenant_for_customer ?c (gen_draw ?s Customers ?c 11)"
      by (simp_all add: row_tenant_def selected_customer_def Let_def)
    have "row_at g cycles Customers ?c (rw_tenant rc)" using rc customer [OF c(2,3)] by (simp add: row_at_def)
    then show ?thesis
      using Orders assms(3) rw_tenant_row [OF rc] tn tc customer [OF c(2,3)]
      by (auto simp: gen_row_def make_row_def Let_def bind_eq_Some_conv selected_customer_def)
  next
    case OrderEvents
    let ?o = "order_for_event i (gen_draw ?s OrderEvents i 3)"
    let ?c = "customer_for_order ?o (gen_draw ?s Orders ?o 7)"
    obtain ro where ro: "gen_row g Orders ?o = Some ro" using gen_row_Some by blast
    have tc: "row_tenant ?s OrderEvents i = tenant_for_customer ?c (gen_draw ?s Customers ?c 11)"
      "row_tenant ?s Orders ?o = tenant_for_customer ?c (gen_draw ?s Customers ?c 11)"
      by (simp_all add: row_tenant_def selected_customer_def selected_order_def Let_def)
    have "row_at g cycles Orders ?o (rw_tenant ro)" using ro order by (simp add: row_at_def)
    then show ?thesis
      using OrderEvents assms(3) rw_tenant_row [OF ro] tn tc customer order
      by (auto simp: gen_row_def make_row_def Let_def bind_eq_Some_conv selected_order_def)
  qed
qed

section \<open>The COPY text of a batch\<close>

definition gen_escape_byte :: "byte \<Rightarrow> bytes" where
  "gen_escape_byte b =
     (if b = BACKSLASH then [BACKSLASH, BACKSLASH] else if b = TAB then [BACKSLASH, of_char (CHR ''t'')]
      else if b = LF then [BACKSLASH, of_char (CHR ''n'')] else if b = 0x0D then [BACKSLASH, of_char (CHR ''r'')] else [b])"

lemma replace_concat: "replace_byte b r (concat (map f s)) = concat (map (\<lambda>c. replace_byte b r (f c)) s)"
  by (induction s) (simp_all add: replace_byte_def)

lemma gen_escape_bytes: "gen_escape s = concat (map gen_escape_byte s)"
proof -
  have "gen_escape s = concat (map (\<lambda>c. gen_escape [c]) s)"
    by (simp add: gen_escape_def replace_byte_def [of BACKSLASH] replace_concat)
  moreover have "gen_escape [c] = gen_escape_byte c" for c
    by (simp add: gen_escape_def replace_byte_def gen_escape_byte_def)
  ultimately show ?thesis by simp
qed

interpretation gen_text: copy_escape gen_escape_byte
  by unfold_locales (simp add: gen_escape_byte_def unescape_byte_def)

lemma gen_escape_no_sep: "TAB \<notin> set (gen_escape s)" "LF \<notin> set (gen_escape s)"
  using gen_text.escape_no_sep [of _ s] unfolding gen_escape_bytes by blast+

lemma push_fields_join:
  "push_fields out n fs = out @ (if 0 < n \<and> fs \<noteq> [] then [TAB] else []) @ tab_join (map gen_escape fs)"
proof (induction out n fs rule: push_fields.induct)
  case (2 out n f fs)
  then show ?case by (cases fs) simp_all
qed simp

definition row_line :: "seed_row \<Rightarrow> bytes" where
  "row_line r = tab_join (map gen_escape (seed_fields r))"

lemma row_line_no_lf: "LF \<notin> set (row_line r)"
  unfolding row_line_def by (rule tab_join_no_lf) (simp add: gen_escape_no_sep)

lemma row_line_parse: "\<forall>f \<in> set (seed_fields r). utf8_ok f \<Longrightarrow> parse_copy_line (row_line r) = map Some (seed_fields r)"
proof -
  assume u: "\<forall>f \<in> set (seed_fields r). utf8_ok f"
  have "seed_fields r \<noteq> []" by (cases r) simp_all
  then have "parse_copy_line (row_line r) = map unescape_field (map gen_escape (seed_fields r))"
    unfolding row_line_def by (intro parse_tab_join) (simp_all add: gen_escape_no_sep)
  then show ?thesis using u by (simp add: gen_escape_bytes gen_text.field_back)
qed

text \<open>The rows of a list of ids, all of them.\<close>

definition gen_rows :: "generator \<Rightarrow> seed_table \<Rightarrow> u64 list \<Rightarrow> seed_row list" where
  "gen_rows g t is = map (\<lambda>i. the (gen_row g t i)) is"

lemma copy_loop_rows:
  "copy_loop (gen_row g t) is out n =
     Some (out @ concat (map (\<lambda>r. row_line r @ [LF]) (gen_rows g t is)), n + of_nat (length is))"
proof (induction "is" arbitrary: out n)
  case (Cons i "is")
  obtain r where "gen_row g t i = Some r" using gen_row_Some by blast
  then show ?case using Cons by (simp add: push_fields_join row_line_def gen_rows_def)
qed (simp add: gen_rows_def)

lemma copy_batch_eq:
  "copy_batch g t a b =
     (let out = concat (map (\<lambda>r. row_line r @ [LF]) (gen_rows g t (range_ids a b)))
      in Some \<lparr>cb_table = t, cb_rows = of_nat (length (range_ids a b)), cb_bytes = out, cb_sha = encode_hex (gn_sha g out)\<rparr>)"
  by (simp add: copy_batch_def copy_loop_rows Let_def)

lemma copy_lines_rows: "copy_lines (concat (map (\<lambda>r. row_line r @ [LF]) rs)) = map row_line rs"
  by (induction rs) (simp_all add: copy_lines_def split_lines_line row_line_no_lf)

text \<open>Everything but the JSON text is ASCII.\<close>

definition ascii :: "rstr \<Rightarrow> bool" where
  "ascii s \<longleftrightarrow> (\<forall>b \<in> set s. b < 128)"

lemma ascii_simps [simp]: "ascii []" "ascii (b # s) \<longleftrightarrow> b < 128 \<and> ascii s" "ascii (s @ u) \<longleftrightarrow> ascii s \<and> ascii u"
  by (auto simp: ascii_def)

lemma ascii_utf8: "ascii s \<Longrightarrow> utf8_ok s"
  by (rule utf8_ok_ascii) (simp add: ascii_def)

lemma ascii_show [simp]: "ascii (show_nat 10 n)" "ascii (show_int k)" "ascii (show_u64 u)" "ascii (pad2_int k)"
proof -
  show s: "ascii (show_nat 10 n)" for n
    using show_nat_digits [of 10 n] unfolding ascii_def word_le_nat_alt word_less_nat_alt by fastforce
  show k: "ascii (show_int k)" for k by (simp add: show_int_def s)
  show "ascii (show_u64 u)" by (simp add: show_u64_def s)
  show "ascii (pad2_int k)" by (simp add: pad2_int_def Let_def k)
qed

lemma ascii_timestamp [simp]: "ascii (format_timestamp s)"
  by (simp add: format_timestamp_def Let_def)

lemma ascii_dict:
  "w \<in> dict_values regions \<Longrightarrow> ascii w" "w \<in> dict_values plans \<Longrightarrow> ascii w" "w \<in> dict_values segments \<Longrightarrow> ascii w"
  "w \<in> dict_values email_domains \<Longrightarrow> ascii w" "w \<in> dict_values statuses \<Longrightarrow> ascii w"
  "w \<in> dict_values channels \<Longrightarrow> ascii w" "w \<in> dict_values event_types \<Longrightarrow> ascii w"
  by (auto simp: dict_values_def regions_def plans_def segments_def email_domains_def statuses_def channels_def event_types_def)

lemma row_strings:
  assumes "gen_row g t i = Some r" and "\<forall>v. utf8_ok (gn_json g v)"
  shows "utf8_ok (rw_json r)" and "ascii (rw_created r)" and "t = Orders \<Longrightarrow> ascii (rw_updated r)"
  using assms by (cases t; auto simp: gen_row_def make_row_def Let_def bind_eq_Some_conv gen_json_def)+

lemma seed_fields_utf8:
  assumes "gen_row g t i = Some r" and "\<forall>v. utf8_ok (gn_json g v)"
  shows "\<forall>f \<in> set (seed_fields r). utf8_ok f"
proof -
  have "row_typed t i r" using every_row [of g t i] assms(1) by simp
  then show ?thesis using row_strings [OF assms] by (cases r) (auto intro!: ascii_utf8 dest: ascii_dict)
qed

text \<open>
  A seed batch loads as generated. Splitting the COPY text of a batch into lines and parsing each line the
  way the columnar store does gives back the fields of the rows of the range, one line per row, when the
  JSON text is UTF-8.
\<close>
theorem seed_batch_parses_back:
  assumes "\<forall>v. utf8_ok (gn_json g v)" and "copy_batch g t a b = Some x"
  shows "map parse_copy_line (copy_lines (cb_bytes x)) = map (\<lambda>r. map Some (seed_fields r)) (gen_rows g t (range_ids a b)) \<and>
    unat (cb_rows x) = length (gen_rows g t (range_ids a b))"
proof -
  have "parse_copy_line (row_line r) = map Some (seed_fields r)" if mem: "r \<in> set (gen_rows g t (range_ids a b))" for r
  proof -
    obtain i where "r = the (gen_row g t i)" using mem by (auto simp: gen_rows_def)
    then have "gen_row g t i = Some r" using gen_row_Some [of g t i] by auto
    then show ?thesis using seed_fields_utf8 [OF _ assms(1)] row_line_parse by blast
  qed
  moreover have "length (range_ids a b) < 2 ^ 64" using unat_bound [of b] by (simp add: range_ids_def less_imp_diff_less)
  moreover have "length (range_ids a b) = length (gen_rows g t (range_ids a b))" by (simp add: gen_rows_def)
  moreover have "cb_bytes x = concat (map (\<lambda>r. row_line r @ [LF]) (gen_rows g t (range_ids a b)))"
    "cb_rows x = of_nat (length (range_ids a b))"
    using assms(2) by (auto simp: copy_batch_eq Let_def)
  ultimately show ?thesis by (simp add: copy_lines_rows of_nat_inverse_64)
qed

lemma range_ids_split: "a \<le> m \<Longrightarrow> m \<le> b \<Longrightarrow> range_ids a b = range_ids a m @ range_ids m b"
  using upt_add_eq_append [of "unat a" "unat m" "unat b - unat m"]
  by (simp add: range_ids_def word_le_nat_alt flip: map_append)

lemma batch_loop_all:
  assumes "unat b + 100000 \<le> 2 ^ 64"
  shows "\<exists>xs. batch_loop (copy_batch g t) a b out = Some (out @ xs) \<and>
    concat (map cb_bytes xs) = concat (map (\<lambda>r. row_line r @ [LF]) (gen_rows g t (range_ids a b))) \<and>
    (\<forall>x \<in> set xs. cb_table x = t \<and> 0 < unat (cb_rows x) \<and> unat (cb_rows x) \<le> 100000)"
proof (induction "unat b - unat a" arbitrary: a out rule: less_induct)
  case less
  show ?case
  proof (cases "a < b")
    case True
    let ?m = "min (a + COPY_BATCH_ROWS) b"
    have "unat (a + COPY_BATCH_ROWS) = unat a + 100000"
      using True assms by (simp add: COPY_BATCH_ROWS_def unat_word_ariths word_less_nat_alt)
    then have m: "unat ?m = min (unat a + 100000) (unat b)" by (simp add: min_def word_le_nat_alt)
    then have am: "a < ?m" "?m \<le> b" using True by (simp_all add: word_less_nat_alt word_le_nat_alt)
    obtain x where x: "copy_batch g t a ?m = Some x" "cb_table x = t" "cb_rows x = of_nat (length (range_ids a ?m))"
        "cb_bytes x = concat (map (\<lambda>r. row_line r @ [LF]) (gen_rows g t (range_ids a ?m)))"
      by (simp add: copy_batch_eq Let_def)
    have len: "length (range_ids a ?m) = unat ?m - unat a" by (simp add: range_ids_def)
    moreover have "length (range_ids a ?m) < 2 ^ 64" unfolding len by (rule less_imp_diff_less) simp
    ultimately have "unat (cb_rows x) = unat ?m - unat a" unfolding x(3) by (metis of_nat_inverse_64)
    then have rows: "0 < unat (cb_rows x)" "unat (cb_rows x) \<le> 100000"
      using m am(1) by (simp_all add: word_less_nat_alt)
    have dec: "unat b - unat ?m < unat b - unat a" using am True by (simp add: word_less_nat_alt)
    from less [OF this] obtain xs where xs: "batch_loop (copy_batch g t) ?m b (out @ [x]) = Some ((out @ [x]) @ xs)"
        "concat (map cb_bytes xs) = concat (map (\<lambda>r. row_line r @ [LF]) (gen_rows g t (range_ids ?m b)))"
        "\<forall>x \<in> set xs. cb_table x = t \<and> 0 < unat (cb_rows x) \<and> unat (cb_rows x) \<le> 100000"
      by blast
    have "batch_loop (copy_batch g t) a b out = Some (out @ x # xs)"
      using True x(1) xs(1) by (subst batch_loop.simps) simp
    then show ?thesis
      using xs(2,3) x rows range_ids_split [OF less_imp_le [OF am(1)] am(2)]
      by (intro exI [of _ "x # xs"]) (simp add: gen_rows_def)
  next
    case False
    then have "batch_loop (copy_batch g t) a b out = Some out" by (subst batch_loop.simps) simp
    then show ?thesis using False by (simp add: range_ids_def gen_rows_def not_less word_le_nat_alt)
  qed
qed

text \<open>
  Batching a load changes nothing. For a range that does not reach the end of \<open>u64\<close> the loop of
  \<open>copy_batches\<close> ends, no batch is empty or above 100,000 rows, and the batches one after the other are
  the bytes of the whole range in one batch.
\<close>
theorem batches_are_one_batch:
  assumes "unat b + 100000 \<le> 2 ^ 64"
  shows "\<exists>xs x. copy_batches g t a b = Some xs \<and> copy_batch g t a b = Some x \<and> concat (map cb_bytes xs) = cb_bytes x \<and>
    (\<forall>y \<in> set xs. cb_table y = t \<and> 0 < unat (cb_rows y) \<and> unat (cb_rows y) \<le> 100000)"
  using batch_loop_all [OF assms, of g t a "[]"] by (auto simp: copy_batches_def copy_batch_eq Let_def)

section \<open>A concrete generator\<close>

definition demo_gen :: generator where
  "demo_gen = \<lparr>gn_seed = 20260901, gn_json = \<lambda>_. [123, 125], gn_sha = \<lambda>_. [0]\<rparr>"

theorem seed_batch_parses_back_witness:
  "\<exists>x. copy_batch demo_gen Orders 1 3 = Some x \<and> length (copy_lines (cb_bytes x)) = 2"
proof -
  obtain x where x: "copy_batch demo_gen Orders 1 3 = Some x" by (simp add: copy_batch_eq Let_def)
  have "\<forall>v. utf8_ok (gn_json demo_gen v)" by (simp add: demo_gen_def ascii_utf8)
  from seed_batch_parses_back [OF this x] have "length (map parse_copy_line (copy_lines (cb_bytes x))) = 2"
    by (simp add: gen_rows_def range_ids_def)
  then show ?thesis using x by simp
qed

theorem batches_are_one_batch_witness:
  "\<exists>xs x. copy_batches demo_gen Orders 1 250000 = Some xs \<and> copy_batch demo_gen Orders 1 250000 = Some x \<and> concat (map cb_bytes xs) = cb_bytes x"
  using batches_are_one_batch [of 250000 demo_gen Orders 1] by auto

theorem loaded_rows_refer_to_loaded_rows_witness:
  "\<exists>r. gen_row demo_gen OrderEvents 101 = Some r \<and> refs_ok demo_gen 2 r"
proof -
  obtain r where r: "gen_row demo_gen OrderEvents 101 = Some r" using gen_row_Some by blast
  have "loaded 2 OrderEvents 101" by (subst loaded_iff) (auto intro!: exI [of _ 1])
  from loaded_rows_refer_to_loaded_rows [OF _ this r] show ?thesis using r by simp
qed

text \<open>
  An order can be updated before it exists. Timestamps are cut to a month and a day of the 28, so the
  day after a 28th is the 1st of the same month: with the benchmark's seed, order 201 of the load is
  created on 2021-10-28 and updated, hours later, on 2021-10-01.
\<close>
theorem order_updated_before_created:
  "map_option (\<lambda>r. (rw_created r, rw_updated r)) (gen_row demo_gen Orders 201) =
     Some (str ''2021-10-28 00:00:00+00'', str ''2021-10-01 00:00:00+00'')"
  by code_simp

end
