(* ===== verification/Ledger.thy ===== *)
theory Ledger
  imports FrameLog Utf8 Numerals
begin

text \<open>
  The append-only JSON lines files of the benchmark harness: the ledger of committed transactions,
  \<open>crates/graydb-r1/src/ledger.rs\<close>, and the replay map of \<open>replication.rs\<close>. Both are refreshed by the same loop
  over the lines appended since the last refresh; it is modelled once, over the parser of a line and
  the check of the next entry. \<open>serde_json\<close> and SHA-256 are parameters.
\<close>

section \<open>Lines\<close>

record 'a json_codec =
  js_print :: "'a \<Rightarrow> bytes"
  js_parse :: "bytes \<Rightarrow> 'a option"

text \<open>What \<open>read_line\<close> takes: a line with its newline, or the rest.\<close>

definition next_line :: "bytes \<Rightarrow> bytes \<times> bytes" where
  "next_line s =
     (let l = takeWhile (\<lambda>b. b \<noteq> 10) s
      in if length l < length s then (l @ [10], drop (length l + 1) s) else (s, []))"

definition trim_eol :: "bytes \<Rightarrow> bytes" where
  "trim_eol s = rev (dropWhile (\<lambda>b. b = 10 \<or> b = 13) (rev s))"

lemma next_line_length:
  assumes "next_line s = (l, r)" and "s \<noteq> []"
  shows "length r < length s"
  using assms by (auto simp: next_line_def Let_def split: if_splits)

section \<open>The refresh loop\<close>

datatype 'e lines_error = LShrank | LNotUtf8 | LCorrupt | LInvalid 'e | LWrite log_error

record 'a lines_file =
  lf_entries :: "'a list"
  lf_loaded :: nat

definition lines_new :: "'a lines_file" where
  "lines_new = \<lparr>lf_entries = [], lf_loaded = 0\<rparr>"

text \<open>
  One turn per line. \<open>len\<close> is the length of the file, \<open>consumed\<close> the offset of \<open>rest\<close> in it. An error
  keeps the entries pushed before it and leaves \<open>loaded_bytes\<close> where it was.
\<close>

function refresh_loop ::
    "(bytes \<Rightarrow> 'a option) \<Rightarrow> ('a list \<Rightarrow> 'a \<Rightarrow> 'e + unit) \<Rightarrow> nat \<Rightarrow> nat \<Rightarrow> bytes \<Rightarrow> 'a lines_file \<Rightarrow>
      ('e lines_error + unit) \<times> 'a lines_file" where
  "refresh_loop parse valid len consumed rest f =
     (if rest = [] then (Ok (), f\<lparr>lf_loaded := consumed\<rparr>)
      else
        (let (line, rest') = next_line rest; consumed' = consumed + length line; trimmed = trim_eol line
         in if \<not> utf8_ok line then (Err LNotUtf8, f)
            else if trimmed = [] then refresh_loop parse valid len consumed' rest' f
            else
              (case parse trimmed of
                 None \<Rightarrow>
                   if len \<le> consumed' \<and> last line \<noteq> 10 then (Ok (), f\<lparr>lf_loaded := consumed\<rparr>) else (Err LCorrupt, f)
               | Some e \<Rightarrow>
                   (case valid (lf_entries f) e of
                      Inl err \<Rightarrow> (Err (LInvalid err), f)
                    | Inr _ \<Rightarrow> refresh_loop parse valid len consumed' rest' (f\<lparr>lf_entries := lf_entries f @ [e]\<rparr>)))))"
  by pat_completeness auto
termination
  by (relation "measure (\<lambda>(_, _, _, _, rest, _). length rest)") (auto dest: next_line_length [OF sym])

declare refresh_loop.simps [simp del]

definition refresh_lines ::
    "(bytes \<Rightarrow> 'a option) \<Rightarrow> ('a list \<Rightarrow> 'a \<Rightarrow> 'e + unit) \<Rightarrow> bytes \<Rightarrow> 'a lines_file \<Rightarrow>
      ('e lines_error + unit) \<times> 'a lines_file" where
  "refresh_lines parse valid file f =
     (if length file < lf_loaded f then (Err LShrank, f)
      else if length file = lf_loaded f then (Ok (), f)
      else refresh_loop parse valid (length file) (lf_loaded f) (drop (lf_loaded f) file) f)"

text \<open>
  Appending an entry: the check, the line and its newline, \<open>sync_data\<close>, the push. A failed write leaves
  part of the line, a failed sync all of it.
\<close>

definition append_line ::
    "('a \<Rightarrow> bytes) \<Rightarrow> ('a list \<Rightarrow> 'a \<Rightarrow> 'e + unit) \<Rightarrow> io \<Rightarrow> 'a \<Rightarrow> bytes \<Rightarrow> 'a lines_file \<Rightarrow>
      ('e lines_error + unit) \<times> bytes \<times> 'a lines_file" where
  "append_line print valid w e file f =
     (case valid (lf_entries f) e of
        Inl err \<Rightarrow> (Err (LInvalid err), file, f)
      | Inr _ \<Rightarrow>
          (let line = print e @ [10]
           in if \<not> io_create w then (Err (LWrite IoCreate), file, f)
              else case io_write w of
                Some n \<Rightarrow> (Err (LWrite IoWrite), file @ take n line, f)
              | None \<Rightarrow>
                  if \<not> io_sync w then (Err (LWrite IoSync), file @ line, f)
                  else (Ok (), file @ line, f\<lparr>lf_entries := lf_entries f @ [e]\<rparr>)))"

section \<open>A reader of a growing file\<close>

definition file_of :: "('a \<Rightarrow> bytes) \<Rightarrow> 'a list \<Rightarrow> bytes" where
  "file_of print es = concat (map (\<lambda>e. print e @ [10]) es)"

lemma file_of_simps [simp]:
  "file_of print [] = []" "file_of print (e # es) = print e @ 10 # file_of print es"
  "file_of print (es @ fs) = file_of print es @ file_of print fs"
  by (simp_all add: file_of_def)

text \<open>What the reader relies on of the printed lines: they are ASCII text without line ends, read back, and
  no proper prefix of one is a JSON value.\<close>

definition line_ok :: "'a json_codec \<Rightarrow> 'a \<Rightarrow> bool" where
  "line_ok js e \<longleftrightarrow> js_print js e \<noteq> [] \<and> (\<forall>b \<in> set (js_print js e). b < 128 \<and> b \<noteq> 10 \<and> b \<noteq> 13) \<and>
     js_parse js (js_print js e) = Some e \<and> (\<forall>n < length (js_print js e). js_parse js (take n (js_print js e)) = None)"

definition valid_run :: "('a list \<Rightarrow> 'a \<Rightarrow> 'e + unit) \<Rightarrow> 'a list \<Rightarrow> bool" where
  "valid_run valid es \<longleftrightarrow> (\<forall>k < length es. valid (take k es) (es ! k) = Ok ())"

lemma trim_eol_text:
  assumes "\<forall>b \<in> set s. b \<noteq> 10 \<and> b \<noteq> 13"
  shows "trim_eol s = s" "trim_eol (s @ [10]) = s"
proof -
  have "dropWhile (\<lambda>b. b = 10 \<or> b = 13) (rev s) = rev s"
    using assms by (cases s rule: rev_cases) auto
  then show "trim_eol s = s" "trim_eol (s @ [10]) = s" by (simp_all add: trim_eol_def)
qed

lemma next_line_text:
  assumes "\<forall>b \<in> set s. b \<noteq> 10"
  shows "next_line s = (s, [])" "next_line (s @ 10 # r) = (s @ [10], r)"
proof -
  have tw: "takeWhile (\<lambda>b. b \<noteq> 10) s = s" "takeWhile (\<lambda>b. b \<noteq> 10) (s @ 10 # r) = s"
    using assms by (auto simp: takeWhile_eq_all_conv takeWhile_append)
  then show "next_line s = (s, [])" "next_line (s @ 10 # r) = (s @ [10], r)"
    by (simp_all add: next_line_def Let_def tw)
qed

text \<open>The reader is at the end of entry \<open>k\<close>, before or after its newline.\<close>

definition reader_at :: "('a \<Rightarrow> bytes) \<Rightarrow> 'a list \<Rightarrow> 'a lines_file \<Rightarrow> nat \<Rightarrow> bool" where
  "reader_at print es f k \<longleftrightarrow> k \<le> length es \<and> lf_entries f = take k es \<and>
     (lf_loaded f = length (file_of print (take k es)) \<or> 0 < k \<and> lf_loaded f + 1 = length (file_of print (take k es)))"

definition complete_at :: "('a \<Rightarrow> bytes) \<Rightarrow> 'a list \<Rightarrow> nat \<Rightarrow> nat \<Rightarrow> bool" where
  "complete_at print es n k \<longleftrightarrow> (\<forall>m \<le> length es. length (file_of print (take m es)) \<le> n + 1 \<longrightarrow> m \<le> k)"

lemma file_of_strict:
  assumes "m < m'" and "m' \<le> length es"
  shows "length (file_of print (take m es)) < length (file_of print (take m' es))"
proof -
  have "take m' es = take m es @ take (m' - m) (drop m es)"
    using assms(1) by (metis le_add_diff_inverse less_imp_le take_add)
  moreover have "take (m' - m) (drop m es) \<noteq> []" using assms by simp
  ultimately show ?thesis by (cases "take (m' - m) (drop m es)") simp_all
qed

lemma drop_append_text: "drop (length t + 1) (t @ b # r) = r"
  by simp

lemma refresh_loop_growing:
  assumes "\<forall>e \<in> set es. line_ok js e" and "valid_run valid es"
    and "k \<le> length es" and "p = length (file_of (js_print js) (take k es))" and "p \<le> n" and "lf_entries f = take k es"
    and "n \<le> length (file_of (js_print js) es)"
  shows "\<exists>f' k'. refresh_loop (js_parse js) valid n p (drop p (take n (file_of (js_print js) es))) f = (Ok (), f') \<and>
    reader_at (js_print js) es f' k' \<and> k \<le> k' \<and> lf_loaded f' \<le> n \<and> complete_at (js_print js) es n k'"
  using assms(3-6)
proof (induction "length es - k" arbitrary: k p f)
  case 0
  let ?F = "file_of (js_print js)"
  have "k = length es" using 0 by simp
  then have "drop p (take n (?F es)) = []" "reader_at (js_print js) es (f\<lparr>lf_loaded := p\<rparr>) k" "complete_at (js_print js) es n k"
    using 0 assms(7) by (simp_all add: reader_at_def complete_at_def)
  then show ?case using 0 by (subst refresh_loop.simps) (auto intro!: exI [of _ k])
next
  case (Suc d)
  let ?F = "file_of (js_print js)" and ?t = "js_print js (es ! k)"
  have k: "k < length es" "d = length es - Suc k" using Suc.hyps(2) by simp_all
  have es: "es = take k es @ es ! k # drop (Suc k) es" using k(1) by (simp add: id_take_nth_drop)
  have ok: "?t \<noteq> []" "\<forall>b \<in> set ?t. b < 128 \<and> b \<noteq> 10 \<and> b \<noteq> 13" "js_parse js ?t = Some (es ! k)"
    "\<And>i. i < length ?t \<Longrightarrow> js_parse js (take i ?t) = None"
    using assms(1) k(1) by (auto simp: line_ok_def)
  have F: "?F es = ?F (take k es) @ ?t @ 10 # ?F (drop (Suc k) es)"
    using file_of_simps by (metis es)
  have FS: "length (?F (take (Suc k) es)) = p + length ?t + 1"
    using Suc.prems(2) k(1) by (simp add: take_Suc_conv_app_nth)
  let ?r = "drop p (take n (?F es))"
  have dr: "drop p (?F es) = ?t @ 10 # ?F (drop (Suc k) es)" using Suc.prems(2) by (simp add: F)
  have r: "?r = take (n - p) (?t @ 10 # ?F (drop (Suc k) es))" by (simp only: drop_take dr)
  have late: "m \<le> k" if "m \<le> length es" "length (?F (take m es)) \<le> n + 1" "n < p + length ?t" for m
    using that FS file_of_strict [of "Suc k" m es "js_print js"] by (cases "Suc k < m"; cases "m = Suc k") auto
  have val: "valid (lf_entries f) (es ! k) = Ok ()" using assms(2) k(1) Suc.prems(4) by (simp add: valid_run_def)
  have en: "lf_entries f @ [es ! k] = take (Suc k) es" using Suc.prems(4) k(1) by (simp add: take_Suc_conv_app_nth)
  consider (none) "n = p" | (part) "0 < n - p" "n - p < length ?t" | (whole) "n - p = length ?t" | (more) "length ?t < n - p"
    using Suc.prems(3) by linarith
  then show ?case
  proof cases
    case none
    then have "?r = []" by simp
    moreover have "complete_at (js_print js) es n k" using late none ok(1) by (simp add: complete_at_def)
    moreover have "reader_at (js_print js) es (f\<lparr>lf_loaded := p\<rparr>) k" using Suc.prems by (simp add: reader_at_def)
    ultimately show ?thesis using none by (subst refresh_loop.simps) (auto intro!: exI [of _ k])
  next
    case part
    let ?u = "take (n - p) ?t"
    have "?r = ?u" using part by (simp add: r)
    moreover have u: "\<forall>b \<in> set ?u. b < 128 \<and> b \<noteq> 10 \<and> b \<noteq> 13" using ok(2) by (meson in_set_takeD)
    then have "next_line ?u = (?u, [])" "trim_eol ?u = ?u" "utf8_ok ?u"
      by (simp_all add: next_line_text trim_eol_text utf8_ok_ascii)
    moreover have "?u \<noteq> []" "last ?u \<noteq> 10"
      using part ok(1) u last_in_set [of ?u] by auto
    moreover have "js_parse js ?u = None" using ok(4) part by simp
    moreover have "complete_at (js_print js) es n k" using late part by (simp add: complete_at_def)
    moreover have "reader_at (js_print js) es (f\<lparr>lf_loaded := p\<rparr>) k" using Suc.prems by (simp add: reader_at_def)
    ultimately show ?thesis
      using part Suc.prems(3) by (subst refresh_loop.simps) (auto simp: Let_def intro!: exI [of _ k])
  next
    case whole
    have rt: "?r = ?t" using whole by (simp add: r)
    have line: "next_line ?t = (?t, [])" "trim_eol ?t = ?t" "utf8_ok ?t"
      using ok(2) by (simp_all add: next_line_text trim_eol_text utf8_ok_ascii)
    let ?f = "f\<lparr>lf_entries := take (Suc k) es, lf_loaded := n\<rparr>"
    have "refresh_loop (js_parse js) valid n (p + length ?t) [] (f\<lparr>lf_entries := lf_entries f @ [es ! k]\<rparr>) = (Ok (), ?f)"
      using whole Suc.prems(3) ok(1) by (subst refresh_loop.simps) (simp add: en)
    then have "refresh_loop (js_parse js) valid n p ?r f = (Ok (), ?f)"
      using line ok(1,3) val unfolding rt by (subst refresh_loop.simps) (simp add: Let_def)
    moreover have "reader_at (js_print js) es ?f (Suc k)" using k(1) FS whole Suc.prems(3) ok(1) by (auto simp: reader_at_def)
    moreover have "complete_at (js_print js) es n (Suc k)"
      unfolding complete_at_def
    proof (intro allI impI)
      fix m assume m: "m \<le> length es" "length (?F (take m es)) \<le> n + 1"
      have "length (?F (take (Suc k) es)) = n + 1" using FS whole Suc.prems(3) ok(1) by simp
      then show "m \<le> Suc k" using m file_of_strict [of "Suc k" m es "js_print js"] by (cases "Suc k < m") auto
    qed
    ultimately show ?thesis by auto
  next
    case more
    then obtain c where c: "n - p = Suc (length ?t) + c" using less_imp_Suc_add by fastforce
    have rm: "?r = ?t @ 10 # take c (?F (drop (Suc k) es))" by (simp add: r c)
    have line: "next_line ?r = (?t @ [10], take c (?F (drop (Suc k) es)))" "trim_eol (?t @ [10]) = ?t" "utf8_ok (?t @ [10])"
      using ok(2) unfolding rm by (simp_all add: next_line_text trim_eol_text utf8_ok_ascii)
    let ?f = "f\<lparr>lf_entries := take (Suc k) es\<rparr>" and ?p = "p + length ?t + 1"
    have rest: "take c (?F (drop (Suc k) es)) = drop ?p (take n (?F es))"
    proof -
      have "drop ?p (?F es) = ?F (drop (Suc k) es)" using dr by (metis add.assoc add.commute drop_drop drop_append_text)
      moreover have "n - ?p = c" using c by simp
      ultimately show ?thesis by (simp add: drop_take)
    qed
    have "\<exists>f' k'. refresh_loop (js_parse js) valid n ?p (drop ?p (take n (?F es))) ?f = (Ok (), f') \<and>
        reader_at (js_print js) es f' k' \<and> Suc k \<le> k' \<and> lf_loaded f' \<le> n \<and> complete_at (js_print js) es n k'"
      by (rule Suc.hyps(1)) (use k c FS in auto)
    moreover have "refresh_loop (js_parse js) valid n p ?r f =
        refresh_loop (js_parse js) valid n ?p (drop ?p (take n (?F es))) ?f"
      using line ok(1,3) val rm rest en by (subst refresh_loop.simps) (simp add: Let_def)
    ultimately show ?thesis by (auto intro: Suc_leD)
  qed
qed

lemma same_entries [simp]: "f\<lparr>lf_entries := lf_entries f\<rparr> = f"
  by (cases f) simp

text \<open>Whole lines of valid entries in front of the rest.\<close>

lemma refresh_loop_lines:
  assumes "\<forall>e \<in> set es. line_ok js e" and "\<forall>k < length es. valid (es0 @ take k es) (es ! k) = Ok ()" and "lf_entries f = es0"
  shows "refresh_loop (js_parse js) valid len c (file_of (js_print js) es @ rest) f =
    refresh_loop (js_parse js) valid len (c + length (file_of (js_print js) es)) rest (f\<lparr>lf_entries := es0 @ es\<rparr>)"
  using assms
proof (induction es arbitrary: es0 c f)
  case (Cons e es)
  let ?t = "js_print js e" and ?r = "file_of (js_print js) es @ rest"
  have ok: "?t \<noteq> []" "\<forall>b \<in> set ?t. b < 128 \<and> b \<noteq> 10 \<and> b \<noteq> 13" "js_parse js ?t = Some e"
    using Cons.prems(1) by (simp_all add: line_ok_def)
  have line: "next_line (?t @ 10 # ?r) = (?t @ [10], ?r)" "trim_eol (?t @ [10]) = ?t" "utf8_ok (?t @ [10])"
    using ok(2) by (auto simp: next_line_text trim_eol_text intro!: utf8_ok_ascii)
  have val: "valid (lf_entries f) e = Ok ()" using Cons.prems(2,3) by force
  have nxt: "valid ((es0 @ [e]) @ take k es) (es ! k) = Ok ()" if "k < length es" for k
    using Cons.prems(2) [rule_format, of "Suc k"] that by simp
  have "refresh_loop (js_parse js) valid len c (?t @ 10 # ?r) f =
      refresh_loop (js_parse js) valid len (c + length ?t + 1) ?r (f\<lparr>lf_entries := es0 @ [e]\<rparr>)"
    using line ok(1,3) val Cons.prems(3) by (subst refresh_loop.simps) (simp add: Let_def)
  also have "\<dots> = refresh_loop (js_parse js) valid len (c + length ?t + 1 + length (file_of (js_print js) es)) rest
      (f\<lparr>lf_entries := (es0 @ [e]) @ es\<rparr>)"
    using Cons.IH [of "es0 @ [e]" "f\<lparr>lf_entries := es0 @ [e]\<rparr>"] Cons.prems(1) nxt by simp
  finally show ?case by (simp add: ac_simps)
qed auto

text \<open>One refresh at any later length of the file.\<close>

lemma refresh_growing:
  assumes "\<forall>e \<in> set es. line_ok js e" and "valid_run valid es"
    and "reader_at (js_print js) es f k" and "lf_loaded f \<le> n" and "n \<le> length (file_of (js_print js) es)"
    and "complete_at (js_print js) es (lf_loaded f) k"
  shows "\<exists>f' k'. refresh_lines (js_parse js) valid (take n (file_of (js_print js) es)) f = (Ok (), f') \<and>
    reader_at (js_print js) es f' k' \<and> k \<le> k' \<and> lf_loaded f' \<le> n \<and> complete_at (js_print js) es n k'"
proof -
  let ?F = "file_of (js_print js)"
  have len: "length (take n (?F es)) = n" using assms(5) by simp
  consider (same) "n = lf_loaded f" | (text_end) "lf_loaded f < n" "lf_loaded f = length (?F (take k es))"
    | (mid) "lf_loaded f < n" "0 < k" "lf_loaded f + 1 = length (?F (take k es))"
  proof -
    have "n = lf_loaded f \<or> lf_loaded f < n" using assms(4) by linarith
    then show ?thesis using that assms(3) unfolding reader_at_def by blast
  qed
  then show ?thesis
  proof cases
    case same
    then show ?thesis using assms len by (auto simp: refresh_lines_def intro!: exI [of _ k])
  next
    case text_end
    have "k \<le> length es" "lf_entries f = take k es" using assms(3) by (simp_all add: reader_at_def)
    from refresh_loop_growing [OF assms(1,2) this(1) text_end(2) assms(4) this(2) assms(5)] text_end(1) len
    show ?thesis by (simp add: refresh_lines_def)
  next
    case mid
    have k: "k \<le> length es" "lf_entries f = take k es" using assms(3) by (simp_all add: reader_at_def)
    obtain t where t: "?F (take k es) = t @ [10]"
      using mid(2) k(1) by (cases "take k es" rule: rev_cases) auto
    have F: "?F es = t @ 10 # ?F (drop k es)" using t by (metis append.assoc append_Cons append_Nil append_take_drop_id file_of_simps(3))
    let ?p = "lf_loaded f + 1"
    have lt: "length t = lf_loaded f" using mid(3) t by simp
    have "drop (lf_loaded f) (take n (?F es)) = take (n - lf_loaded f) (10 # ?F (drop k es))"
      using lt by (simp only: drop_take) (simp add: F)
    also have "\<dots> = 10 # drop ?p (take n (?F es))"
      using mid(1) lt by (cases "n - lf_loaded f") (simp_all add: F drop_take)
    finally have d: "drop (lf_loaded f) (take n (?F es)) = 10 # drop ?p (take n (?F es))" .
    have "next_line (10 # r) = ([10], r)" "trim_eol [10] = []" "utf8_ok [10]" for r
      using next_line_text(2) [of "[]" r] by (simp_all add: trim_eol_def utf8_ok_ascii)
    then have "refresh_loop (js_parse js) valid n (lf_loaded f) (drop (lf_loaded f) (take n (?F es))) f =
        refresh_loop (js_parse js) valid n ?p (drop ?p (take n (?F es))) f"
      unfolding d by (subst refresh_loop.simps) (simp add: Let_def)
    moreover have "?p \<le> n" using mid(1) by simp
    note refresh_loop_growing [OF assms(1,2) k(1) mid(3) this k(2) assms(5)]
    ultimately show ?thesis using mid(1) len by (simp add: refresh_lines_def)
  qed
qed

fun refresh_all ::
    "(bytes \<Rightarrow> 'a option) \<Rightarrow> ('a list \<Rightarrow> 'a \<Rightarrow> 'e + unit) \<Rightarrow> bytes list \<Rightarrow> 'a lines_file \<Rightarrow>
      ('e lines_error + unit) \<times> 'a lines_file" where
  "refresh_all parse valid [] f = (Ok (), f)"
| "refresh_all parse valid (file # files) f =
     st_bind (refresh_lines parse valid file f) (\<lambda>_ f. refresh_all parse valid files f)"

lemma sorted_last_le: "sorted ns \<Longrightarrow> n \<in> set ns \<Longrightarrow> n \<le> last ns" for n :: nat
  by (induction ns) auto

lemma refresh_all_growing:
  assumes "\<forall>e \<in> set es. line_ok js e" and "valid_run valid es"
    and "reader_at (js_print js) es f k" and "lf_loaded f \<le> n0" and "complete_at (js_print js) es (lf_loaded f) k"
    and "sorted (n0 # ns)" and "\<forall>n \<in> set ns. n \<le> length (file_of (js_print js) es)"
  shows "\<exists>f' k'. refresh_all (js_parse js) valid (map (\<lambda>n. take n (file_of (js_print js) es)) ns) f = (Ok (), f') \<and>
    reader_at (js_print js) es f' k' \<and> (ns \<noteq> [] \<longrightarrow> complete_at (js_print js) es (last ns) k')"
  using assms(3-7)
proof (induction ns arbitrary: f k n0)
  case (Cons n ns)
  then have "lf_loaded f \<le> n" "n \<le> length (file_of (js_print js) es)" by auto
  from refresh_growing [OF assms(1,2) Cons.prems(1) this Cons.prems(3)] obtain f' k' where
    1: "refresh_lines (js_parse js) valid (take n (file_of (js_print js) es)) f = (Ok (), f')"
      "reader_at (js_print js) es f' k'" "lf_loaded f' \<le> n" "complete_at (js_print js) es n k'" by blast
  have "complete_at (js_print js) es (lf_loaded f') k'" using 1(3,4) by (auto simp: complete_at_def)
  from Cons.IH [OF 1(2,3) this] Cons.prems(4,5) 1(1,2,4) show ?case by auto
qed auto

text \<open>The whole file, read in one go or in pieces, gives all its entries.\<close>

lemma refresh_all_complete:
  assumes "\<forall>e \<in> set es. line_ok js e" and "valid_run valid es" and "sorted ns" and "ns \<noteq> []"
    and "last ns = length (file_of (js_print js) es)"
  shows "\<exists>f'. refresh_all (js_parse js) valid (map (\<lambda>n. take n (file_of (js_print js) es)) ns) lines_new = (Ok (), f') \<and>
    lf_entries f' = es"
proof -
  let ?F = "file_of (js_print js)"
  have at: "reader_at (js_print js) es lines_new 0" by (simp add: reader_at_def lines_new_def)
  have pos: "2 \<le> length (?F (take m es))" if "m \<le> length es" "0 < m" for m
  proof -
    obtain e es' where "take m es = e # es'" using \<open>0 < m\<close> \<open>m \<le> length es\<close> by (cases es; cases m) auto
    moreover have "e \<in> set es" using calculation by (metis in_set_takeD list.set_intros(1))
    ultimately show ?thesis using assms(1) by (cases "js_print js e") (auto simp: line_ok_def)
  qed
  have "complete_at (js_print js) es 0 0"
    unfolding complete_at_def using pos by (metis One_nat_def Suc_1 add_0 le_trans not_gr_zero not_less_eq_eq order_refl)
  then have c: "complete_at (js_print js) es (lf_loaded (lines_new :: 'a lines_file)) 0" by (simp add: lines_new_def)
  have le: "\<forall>n \<in> set ns. n \<le> length (?F es)"
    using assms(3,5) sorted_last_le by metis
  have "sorted (0 # ns)" using assms(3) by simp
  from refresh_all_growing [OF assms(1,2) at _ c this le] obtain f' k' where
    r: "refresh_all (js_parse js) valid (map (\<lambda>n. take n (?F es)) ns) lines_new = (Ok (), f')"
    "reader_at (js_print js) es f' k'" "complete_at (js_print js) es (length (?F es)) k'"
    using assms(4,5) by (auto simp: lines_new_def)
  have "length es \<le> k'" using r(3) by (auto simp: complete_at_def)
  then show ?thesis using r(1,2) by (auto simp: reader_at_def)
qed


section \<open>The committed ledger\<close>

type_synonym u128 = "128 word"

record ledger_entry =
  le_sequence :: u64
  le_xid :: u32
  le_source_lsn :: u64
  le_operation :: rstr
  le_committed :: u128
  le_previous :: rstr
  le_hash :: rstr

type_synonym ledger = "ledger_entry lines_file"

datatype ledger_error = SequenceGap | BadChecksum | BadChain

datatype commit_state = Committed | UnknownCommit

definition entry_hash :: "(bytes \<Rightarrow> bytes) \<Rightarrow> ledger_entry json_codec \<Rightarrow> ledger_entry \<Rightarrow> rstr" where
  "entry_hash sha js e = encode_hex (sha (js_print js (e\<lparr>le_hash := []\<rparr>)))"

definition next_sequence :: "ledger_entry list \<Rightarrow> u64" where
  "next_sequence es = (case rev es of [] \<Rightarrow> 1 | e # _ \<Rightarrow> le_sequence e + 1)"

definition last_hash :: "ledger_entry list \<Rightarrow> rstr" where
  "last_hash es = (case rev es of [] \<Rightarrow> [] | e # _ \<Rightarrow> le_hash e)"

definition append_check :: "ledger_entry list \<Rightarrow> ledger_entry \<Rightarrow> ledger_error + unit" where
  "append_check es e =
     res_bind (ensure (le_sequence e = next_sequence es) SequenceGap) (\<lambda>_.
     ensure (le_previous e = last_hash es) BadChain)"

definition ledger_append ::
    "(bytes \<Rightarrow> bytes) \<Rightarrow> ledger_entry json_codec \<Rightarrow> io \<Rightarrow> ledger_entry \<Rightarrow> bytes \<Rightarrow> ledger \<Rightarrow>
      (ledger_error lines_error + unit) \<times> bytes \<times> ledger" where
  "ledger_append sha js w e file L =
     append_line (js_print js) append_check w (e\<lparr>le_hash := entry_hash sha js e\<rparr>) file L"

definition refresh_check ::
    "(bytes \<Rightarrow> bytes) \<Rightarrow> ledger_entry json_codec \<Rightarrow> ledger_entry list \<Rightarrow> ledger_entry \<Rightarrow> ledger_error + unit" where
  "refresh_check sha js es e =
     res_bind (ensure (le_sequence e = next_sequence es) SequenceGap) (\<lambda>_.
     res_bind (ensure (le_hash e = entry_hash sha js e) BadChecksum) (\<lambda>_.
     ensure (le_previous e = last_hash es) BadChain))"

text \<open>\<open>None\<close>: the file does not exist.\<close>

definition ledger_refresh ::
    "(bytes \<Rightarrow> bytes) \<Rightarrow> ledger_entry json_codec \<Rightarrow> bytes option \<Rightarrow> ledger \<Rightarrow> (ledger_error lines_error + unit) \<times> ledger" where
  "ledger_refresh sha js file L =
     (case file of None \<Rightarrow> (Ok (), L) | Some bs \<Rightarrow> refresh_lines (js_parse js) (refresh_check sha js) bs L)"

definition ledger_resume ::
    "(bytes \<Rightarrow> bytes) \<Rightarrow> ledger_entry json_codec \<Rightarrow> bytes option \<Rightarrow> ledger_error lines_error + ledger" where
  "ledger_resume sha js file =
     (case ledger_refresh sha js file lines_new of (Inl e, _) \<Rightarrow> Err e | (Inr _, L) \<Rightarrow> Ok L)"

definition ledger_classify :: "u64 \<Rightarrow> rstr \<Rightarrow> ledger \<Rightarrow> commit_state" where
  "ledger_classify seq hash L =
     (if \<exists>e \<in> set (lf_entries L). le_sequence e = seq \<and> le_operation e = hash then Committed else UnknownCommit)"

section \<open>The chain\<close>

definition chain_ok :: "(bytes \<Rightarrow> bytes) \<Rightarrow> ledger_entry json_codec \<Rightarrow> ledger_entry list \<Rightarrow> bool" where
  "chain_ok sha js es \<longleftrightarrow> valid_run (refresh_check sha js) es"

lemma valid_run_snoc: "valid_run valid (es @ [e]) \<longleftrightarrow> valid_run valid es \<and> valid es e = Ok ()"
  by (auto simp: valid_run_def nth_append less_Suc_eq)

lemma valid_run_Nil [simp]: "valid_run valid []"
  by (simp add: valid_run_def)

lemma next_sequence_simps [simp]:
  "next_sequence [] = 1" "next_sequence (es @ [e]) = le_sequence e + 1"
  "last_hash [] = []" "last_hash (es @ [e]) = le_hash e"
  by (simp_all add: next_sequence_def last_hash_def)

lemma entry_hash_unhashed [simp]: "entry_hash sha js (e\<lparr>le_hash := h\<rparr>) = entry_hash sha js e"
  by (simp add: entry_hash_def)

lemma refresh_loop_valid:
  "refresh_loop parse valid len consumed rest f = (r, f') \<Longrightarrow> valid_run valid (lf_entries f) \<Longrightarrow> valid_run valid (lf_entries f')"
proof (induction parse valid len consumed rest f rule: refresh_loop.induct)
  case (1 parse valid len consumed rest f)
  show ?case
  proof (cases "rest = []")
    case True
    then show ?thesis using "1.prems" by (auto simp: refresh_loop.simps)
  next
    case False
    obtain line rest' where nl: "next_line rest = (line, rest')" by fastforce
    note ih = "1.IH" [OF False nl [symmetric] refl refl refl]
    show ?thesis
    proof (cases "utf8_ok line \<and> trim_eol line \<noteq> []")
      case True
      then show ?thesis
        using "1.prems" False nl ih
        by (subst (asm) refresh_loop.simps)
          (auto simp: Let_def valid_run_snoc split: option.splits sum.splits if_splits)
    next
      case other: False
      then show ?thesis
        using "1.prems" False nl ih by (subst (asm) refresh_loop.simps) (auto simp: Let_def split: if_splits)
    qed
  qed
qed

lemma refresh_chain:
  "ledger_refresh sha js file L = (r, L') \<Longrightarrow> chain_ok sha js (lf_entries L) \<Longrightarrow> chain_ok sha js (lf_entries L')"
  by (auto simp: ledger_refresh_def refresh_lines_def chain_ok_def split: option.splits if_splits dest: refresh_loop_valid)

lemma stamped_check:
  "append_check es (e\<lparr>le_hash := entry_hash sha js e\<rparr>) = Ok () \<Longrightarrow>
    refresh_check sha js es (e\<lparr>le_hash := entry_hash sha js e\<rparr>) = Ok ()"
  by (auto simp: append_check_def refresh_check_def res_bind_Ok_iff ensure_def split: if_splits)

lemma append_cases:
  assumes "ledger_append sha js w e file L = (r, file', L')"
  shows "L' = L \<or> refresh_check sha js (lf_entries L) (e\<lparr>le_hash := entry_hash sha js e\<rparr>) = Ok () \<and>
    r = Ok () \<and> lf_loaded L' = lf_loaded L \<and> lf_entries L' = lf_entries L @ [e\<lparr>le_hash := entry_hash sha js e\<rparr>] \<and>
    file' = file @ js_print js (e\<lparr>le_hash := entry_hash sha js e\<rparr>) @ [10]"
  using assms stamped_check
  by (auto simp: ledger_append_def append_line_def Let_def split: sum.splits option.splits if_splits)

text \<open>Everything a process may do with a ledger handle, whatever the file holds by then.\<close>

inductive ledger_reach :: "(bytes \<Rightarrow> bytes) \<Rightarrow> ledger_entry json_codec \<Rightarrow> ledger \<Rightarrow> bool" for sha js where
  lr_new: "ledger_reach sha js lines_new"
| lr_append: "ledger_reach sha js L \<Longrightarrow> ledger_append sha js w e file L = (r, file', L') \<Longrightarrow> ledger_reach sha js L'"
| lr_refresh: "ledger_reach sha js L \<Longrightarrow> ledger_refresh sha js file L = (r, L') \<Longrightarrow> ledger_reach sha js L'"

text \<open>
  C25. The entries of a ledger are a hash chain, whatever was appended or refreshed and however those calls
  ended: entry \<open>k\<close> has sequence number \<open>k + 1\<close>, the hash of its own content, and the hash of its predecessor.
\<close>
theorem ledger_is_chain:
  assumes "ledger_reach sha js L" and "k < length (lf_entries L)"
  shows "le_sequence (lf_entries L ! k) = word_of_nat (k + 1) \<and>
    le_hash (lf_entries L ! k) = entry_hash sha js (lf_entries L ! k) \<and>
    le_previous (lf_entries L ! k) = (if k = 0 then [] else le_hash (lf_entries L ! (k - 1)))"
proof -
  have "chain_ok sha js (lf_entries L)"
    using assms(1)
  proof induction
    case lr_new
    then show ?case by (simp add: chain_ok_def lines_new_def)
  next
    case (lr_append L w e bs r bs' L')
    then show ?case using append_cases by (force simp: chain_ok_def valid_run_snoc)
  next
    case (lr_refresh L bs r L')
    then show ?case using refresh_chain by blast
  qed
  then have v: "refresh_check sha js (take k (lf_entries L)) (lf_entries L ! k) = Ok ()" if "k < length (lf_entries L)" for k
    using that by (simp add: chain_ok_def valid_run_def)
  have prev: "le_previous (lf_entries L ! k) = last_hash (take k (lf_entries L)) \<and>
      le_sequence (lf_entries L ! k) = next_sequence (take k (lf_entries L)) \<and>
      le_hash (lf_entries L ! k) = entry_hash sha js (lf_entries L ! k)" if "k < length (lf_entries L)" for k
    using v [OF that] by (auto simp: refresh_check_def res_bind_Ok_iff ensure_def split: if_splits)
  have before: "take k (lf_entries L) = take (k - 1) (lf_entries L) @ [lf_entries L ! (k - 1)]" if "0 < k" "k < length (lf_entries L)" for k
    using that take_Suc_conv_app_nth [of "k - 1" "lf_entries L"] by simp
  have seq: "le_sequence (lf_entries L ! k) = word_of_nat (k + 1)" if "k < length (lf_entries L)" for k
    using that
  proof (induction k)
    case (Suc k)
    then show ?case using prev [of "Suc k"] before [of "Suc k"] by simp
  qed (use prev [of 0] in simp)
  show ?thesis using prev [OF assms(2)] before [OF _ assms(2)] seq [OF assms(2)] by auto
qed

section \<open>Reader and writer\<close>

fun append_entries ::
    "(bytes \<Rightarrow> bytes) \<Rightarrow> ledger_entry json_codec \<Rightarrow> ledger_entry list \<Rightarrow> bytes \<Rightarrow> ledger \<Rightarrow>
      (ledger_error lines_error + unit) \<times> bytes \<times> ledger" where
  "append_entries sha js [] file L = (Ok (), file, L)"
| "append_entries sha js (e # es) file L =
     (case ledger_append sha js io_fine e file L of
        (Inl err, file, L) \<Rightarrow> (Err err, file, L)
      | (Inr _, file, L) \<Rightarrow> append_entries sha js es file L)"

lemma append_entries_file:
  assumes "append_entries sha js es (file_of (js_print js) (lf_entries L0)) L0 = (Ok (), file, L)" "chain_ok sha js (lf_entries L0)"
  shows "file = file_of (js_print js) (lf_entries L) \<and> chain_ok sha js (lf_entries L)"
  using assms
proof (induction es arbitrary: L0)
  case (Cons e es)
  obtain r f1 L1 where a: "ledger_append sha js io_fine e (file_of (js_print js) (lf_entries L0)) L0 = (r, f1, L1)"
    by (metis prod_cases3)
  then obtain u where r: "r = Ok u" using Cons.prems(1) by (cases r) auto
  have "L1 \<noteq> L0" using a r
    by (auto simp: ledger_append_def append_line_def io_fine_def Let_def split: sum.splits dest: arg_cong [of _ _ lf_entries])
  with append_cases [OF a] have c: "lf_entries L1 = lf_entries L0 @ [e\<lparr>le_hash := entry_hash sha js e\<rparr>]"
    "f1 = file_of (js_print js) (lf_entries L1)" "chain_ok sha js (lf_entries L1)"
    using Cons.prems(2) by (auto simp: chain_ok_def valid_run_snoc)
  then show ?case using Cons.IH [of L1] Cons.prems(1) a r by simp
qed simp

fun ledger_refresh_all ::
    "(bytes \<Rightarrow> bytes) \<Rightarrow> ledger_entry json_codec \<Rightarrow> bytes list \<Rightarrow> ledger \<Rightarrow> (ledger_error lines_error + unit) \<times> ledger" where
  "ledger_refresh_all sha js [] L = (Ok (), L)"
| "ledger_refresh_all sha js (file # files) L =
     st_bind (ledger_refresh sha js (Some file) L) (\<lambda>_ L. ledger_refresh_all sha js files L)"

lemma ledger_refresh_all_lines:
  "ledger_refresh_all sha js files L = refresh_all (js_parse js) (refresh_check sha js) files L"
  by (induction files arbitrary: L) (simp_all add: ledger_refresh_def st_bind_def split: prod.splits sum.splits)

text \<open>
  A reader that refreshes while the ledger is being written ends with the writer's entries: it may look
  at any lengths of the growing file, in the middle of a line too; no refresh fails, and after one
  that saw the whole file it holds exactly what was appended.
\<close>
theorem ledger_reader_follows_writer:
  assumes "append_entries sha js es [] lines_new = (Ok (), file, L)"
    and "\<forall>e \<in> set (lf_entries L). line_ok js e"
    and "sorted ns" and "ns \<noteq> []" and "last ns = length file"
  shows "\<exists>R. ledger_refresh_all sha js (map (\<lambda>n. take n file) ns) lines_new = (Ok (), R) \<and> lf_entries R = lf_entries L"
proof -
  have "file = file_of (js_print js) (lf_entries L)" "chain_ok sha js (lf_entries L)"
    using append_entries_file [of sha js es lines_new "file" L] assms(1) by (simp_all add: lines_new_def chain_ok_def)
  then show ?thesis
    using refresh_all_complete [OF assms(2) _ assms(3,4)] assms(5) by (simp add: ledger_refresh_all_lines chain_ok_def)
qed

lemma chain_determined:
  assumes "\<And>x. sha x \<noteq> []"
  shows "chain_ok sha js es1 \<Longrightarrow> chain_ok sha js es2 \<Longrightarrow> last_hash es1 = last_hash es2 \<Longrightarrow>
    \<forall>x \<in> set es1. \<forall>y \<in> set es2. entry_hash sha js x = entry_hash sha js y \<longrightarrow> x\<lparr>le_hash := []\<rparr> = y\<lparr>le_hash := []\<rparr> \<Longrightarrow>
    es1 = es2"
proof (induction es1 arbitrary: es2 rule: rev_induct)
  case Nil
  show ?case
  proof (cases es2 rule: rev_cases)
    case (snoc b y)
    then have "last_hash es2 = entry_hash sha js y"
      using Nil(2) by (auto simp: chain_ok_def valid_run_snoc refresh_check_def res_bind_Ok_iff ensure_def split: if_splits)
    moreover have "last_hash es2 = []" using Nil(3) by simp
    ultimately show ?thesis using assms by (metis encode_hex_Nil entry_hash_def)
  qed simp
next
  case (snoc x a)
  have x: "le_hash x = entry_hash sha js x" "le_previous x = last_hash a" "chain_ok sha js a"
    using snoc.prems(1) by (auto simp: chain_ok_def valid_run_snoc refresh_check_def res_bind_Ok_iff ensure_def split: if_splits)
  show ?case
  proof (cases es2 rule: rev_cases)
    case Nil
    then show ?thesis using snoc.prems(3) x(1) assms by (simp add: entry_hash_def)
  next
    case (snoc b y)
    have y: "le_hash y = entry_hash sha js y" "le_previous y = last_hash b" "chain_ok sha js b"
      using snoc.prems(2) snoc by (auto simp: chain_ok_def valid_run_snoc refresh_check_def res_bind_Ok_iff ensure_def split: if_splits)
    have h: "le_hash x = le_hash y" using snoc.prems(3) snoc by simp
    then have "x\<lparr>le_hash := []\<rparr> = y\<lparr>le_hash := []\<rparr>" using snoc.prems(4) snoc x(1) y(1) by simp
    then have "x\<lparr>le_hash := []\<rparr>\<lparr>le_hash := le_hash x\<rparr> = y\<lparr>le_hash := []\<rparr>\<lparr>le_hash := le_hash y\<rparr>" using h by metis
    then have xy: "x = y" by simp
    then have "last_hash a = last_hash b" using x(2) y(2) by simp
    then have "a = b" using snoc.IH [OF x(3) y(3)] snoc.prems(4) snoc by simp
    then show ?thesis using xy snoc by simp
  qed
qed

text \<open>
  The last hash fixes the whole ledger: two files that both resume to the same last hash hold the same
  entries, for a hash that is never empty and has no collision among those entries. So an edited, dropped
  or reordered entry shows in the last hash.
\<close>
theorem last_hash_fixes_ledger:
  assumes "ledger_resume sha js file1 = Ok L1" and "ledger_resume sha js file2 = Ok L2"
    and "last_hash (lf_entries L1) = last_hash (lf_entries L2)" and "\<forall>x. sha x \<noteq> []"
    and "\<forall>x \<in> set (lf_entries L1). \<forall>y \<in> set (lf_entries L2).
      entry_hash sha js x = entry_hash sha js y \<longrightarrow> x\<lparr>le_hash := []\<rparr> = y\<lparr>le_hash := []\<rparr>"
  shows "lf_entries L1 = lf_entries L2"
proof -
  have "chain_ok sha js (lf_entries L)" if "ledger_resume sha js bs = Ok L" for bs L
    using that refresh_chain [of sha js bs lines_new]
    by (auto simp: ledger_resume_def chain_ok_def lines_new_def split: prod.splits sum.splits)
  then show ?thesis using chain_determined [of sha js] assms by blast
qed

text \<open>
  A sync that fails poisons the ledger. \<open>append\<close> then returns an error and forgets the entry, whose
  line is in the file all the same; the retry succeeds and writes it a second time, and from then on
  no process can resume from that file.
\<close>
theorem failed_sync_poisons_ledger:
  assumes "file = file_of (js_print js) (lf_entries L)" and "chain_ok sha js (lf_entries L)"
    and "append_check (lf_entries L) e = Ok ()" and "e1 = e\<lparr>le_hash := entry_hash sha js e\<rparr>"
    and "\<forall>x \<in> set (lf_entries L @ [e1]). line_ok js x"
    and "ledger_append sha js (io_fine\<lparr>io_sync := False\<rparr>) e file L = (r1, file1, L1)"
    and "ledger_append sha js io_fine e file1 L1 = (r2, file2, L2)"
  shows "r1 = Err (LWrite IoSync) \<and> r2 = Ok () \<and> ledger_resume sha js (Some file2) = Err (LInvalid SequenceGap)"
proof -
  have chk: "append_check (lf_entries L) e1 = Ok ()" using assms(3,4) by (simp add: append_check_def)
  then have 1: "r1 = Err (LWrite IoSync)" "file1 = file @ js_print js e1 @ [10]" "L1 = L"
    using assms(6) by (auto simp: ledger_append_def append_line_def io_fine_def Let_def assms(4))
  have 2: "r2 = Ok ()" "file2 = file1 @ js_print js e1 @ [10]"
    using assms(7) chk by (auto simp: ledger_append_def append_line_def io_fine_def Let_def assms(4) 1(3))
  let ?es = "lf_entries L @ [e1]"
  have f2: "file2 = file_of (js_print js) ?es @ js_print js e1 @ [10]" by (simp add: 2 1 assms(1))
  have bad: "refresh_check sha js ?es e1 = Err SequenceGap"
    by (simp add: refresh_check_def ensure_def)
  have ch: "valid_run (refresh_check sha js) ?es"
    using assms(2) stamped_check [of "lf_entries L" sha js e] chk by (simp add: chain_ok_def valid_run_snoc assms(4))
  have ok: "\<forall>x \<in> set ?es. line_ok js x" "line_ok js e1" using assms(5) by simp_all
  have r: "refresh_loop (js_parse js) (refresh_check sha js) (length file2) 0 file2 lines_new =
      refresh_loop (js_parse js) (refresh_check sha js) (length file2) (length (file_of (js_print js) ?es)) (js_print js e1 @ [10])
        (lines_new\<lparr>lf_entries := ?es\<rparr>)"
    using refresh_loop_lines [OF ok(1), of "refresh_check sha js" "[]" lines_new "length file2" 0 "js_print js e1 @ [10]"] ch
    by (simp add: f2 valid_run_def lines_new_def del: file_of_simps)
  also have "\<dots> = (Err (LInvalid SequenceGap), lines_new\<lparr>lf_entries := ?es\<rparr>)"
  proof -
    have "next_line (js_print js e1 @ [10]) = (js_print js e1 @ [10], [])" "trim_eol (js_print js e1 @ [10]) = js_print js e1"
      "utf8_ok (js_print js e1 @ [10])"
      using ok(2) by (auto simp: line_ok_def next_line_text trim_eol_text intro!: utf8_ok_ascii)
    then show ?thesis using ok(2) bad by (subst refresh_loop.simps) (simp add: Let_def line_ok_def)
  qed
  finally have "ledger_resume sha js (Some file2) = Err (LInvalid SequenceGap)"
    by (simp add: ledger_resume_def ledger_refresh_def refresh_lines_def) (simp add: lines_new_def f2)
  then show ?thesis using 1 2 by simp
qed

section \<open>The replay map\<close>

record map_entry =
  rm_sequence :: u64
  rm_original :: u64
  rm_replay :: u64
  rm_operation :: rstr

datatype map_error = MapSequence | MapHash | PlanSequence | PlanHash

type_synonym replay_map = "map_entry lines_file"

definition map_next :: "map_entry list \<Rightarrow> u64" where
  "map_next es = (case rev es of [] \<Rightarrow> 1 | e # _ \<Rightarrow> rm_sequence e + 1)"

definition validate_next :: "map_entry list \<Rightarrow> map_entry \<Rightarrow> map_error + unit" where
  "validate_next es e =
     res_bind (ensure (rm_sequence e = map_next es) MapSequence) (\<lambda>_. ensure (rm_operation e \<noteq> []) MapHash)"

definition map_refresh :: "map_entry json_codec \<Rightarrow> bytes \<Rightarrow> replay_map \<Rightarrow> (map_error lines_error + unit) \<times> replay_map" where
  "map_refresh js file m = refresh_lines (js_parse js) validate_next file m"

definition map_resume :: "map_entry json_codec \<Rightarrow> bytes option \<Rightarrow> map_error lines_error + replay_map" where
  "map_resume js file =
     (case map_refresh js (case file of None \<Rightarrow> [] | Some bs \<Rightarrow> bs) lines_new of (Inl e, _) \<Rightarrow> Err e | (Inr _, m) \<Rightarrow> Ok m)"

definition map_push ::
    "map_entry json_codec \<Rightarrow> io \<Rightarrow> map_entry \<Rightarrow> bytes \<Rightarrow> replay_map \<Rightarrow> (map_error lines_error + unit) \<times> bytes \<times> replay_map" where
  "map_push js w e file m = append_line (js_print js) validate_next w e file m"

text \<open>A committed intent, its ledger entry and the position of its replay.\<close>

record replayed =
  rp_plan_sequence :: u64
  rp_plan_hash :: rstr
  rp_ledger :: ledger_entry
  rp_lsn :: u64

definition candidate :: "replayed \<Rightarrow> map_entry" where
  "candidate r = \<lparr>rm_sequence = rp_plan_sequence r, rm_original = le_source_lsn (rp_ledger r), rm_replay = rp_lsn r,
     rm_operation = rp_plan_hash r\<rparr>"

fun replay_precheck :: "u64 \<Rightarrow> replayed list \<Rightarrow> map_error + unit" where
  "replay_precheck expected [] = Ok ()"
| "replay_precheck expected (r # rs) =
     res_bind (ensure (rp_plan_sequence r = le_sequence (rp_ledger r)) PlanSequence) (\<lambda>_.
     res_bind (ensure (rp_plan_hash r = le_operation (rp_ledger r)) PlanHash) (\<lambda>_.
     res_bind (ensure (rm_sequence (candidate r) = expected) MapSequence) (\<lambda>_.
     res_bind (ensure (rm_operation (candidate r) \<noteq> []) MapHash) (\<lambda>_.
     replay_precheck (expected + 1) rs))))"

fun replay_pushes ::
    "map_entry json_codec \<Rightarrow> (nat \<Rightarrow> io) \<Rightarrow> nat \<Rightarrow> replayed list \<Rightarrow> bytes \<Rightarrow> replay_map \<Rightarrow>
      (map_error lines_error + unit) \<times> bytes \<times> replay_map" where
  "replay_pushes js w i [] file m = (Ok (), file, m)"
| "replay_pushes js w i (r # rs) file m =
     (case map_push js (w i) (candidate r) file m of
        (Inl e, file, m) \<Rightarrow> (Err e, file, m)
      | (Inr _, file, m) \<Rightarrow> replay_pushes js w (Suc i) rs file m)"

definition replay_workload ::
    "map_entry json_codec \<Rightarrow> (nat \<Rightarrow> io) \<Rightarrow> replayed list \<Rightarrow> bytes \<Rightarrow> replay_map \<Rightarrow>
      (map_error lines_error + unit) \<times> bytes \<times> replay_map" where
  "replay_workload js w rs file m =
     (case replay_precheck (map_next (lf_entries m)) rs of
        Inl e \<Rightarrow> (Err (LInvalid e), file, m)
      | Inr _ \<Rightarrow> replay_pushes js w 0 rs file m)"

lemma map_next_simps [simp]: "map_next [] = 1" "map_next (es @ [e]) = rm_sequence e + 1"
  by (simp_all add: map_next_def)

lemma replay_pushes_checked:
  "replay_precheck (map_next (lf_entries m)) rs = Ok () \<Longrightarrow> \<forall>i. w i = io_fine \<Longrightarrow>
    replay_pushes js w i rs file m =
      (Ok (), file @ file_of (js_print js) (map candidate rs), m\<lparr>lf_entries := lf_entries m @ map candidate rs\<rparr>)"
proof (induction rs arbitrary: i m "file")
  case (Cons r rs)
  then have v: "validate_next (lf_entries m) (candidate r) = Ok ()"
    and nxt: "replay_precheck (rm_sequence (candidate r) + 1) rs = Ok ()"
    by (auto simp: validate_next_def res_bind_Ok_iff ensure_def split: if_splits)
  let ?m = "m\<lparr>lf_entries := lf_entries m @ [candidate r]\<rparr>"
  have "map_push js (w i) (candidate r) file m = (Ok (), file @ js_print js (candidate r) @ [10], ?m)"
    using v Cons.prems(2) by (simp add: map_push_def append_line_def io_fine_def Let_def)
  then show ?case using Cons.IH [of ?m "Suc i" "file @ js_print js (candidate r) @ [10]"] nxt Cons.prems(2) by simp
qed simp

text \<open>
  A replay is checked before it is recorded: either the plans do not continue the map or disagree with the
  ledger, and the call fails with the file and the map untouched, or, when the file calls succeed, every
  plan is recorded in order.
\<close>
theorem replay_checks_before_writing:
  "replay_workload js (\<lambda>_. io_fine) rs file m =
     (case replay_precheck (map_next (lf_entries m)) rs of
        Inl e \<Rightarrow> (Err (LInvalid e), file, m)
      | Inr _ \<Rightarrow> (Ok (), file @ file_of (js_print js) (map candidate rs), m\<lparr>lf_entries := lf_entries m @ map candidate rs\<rparr>))"
  using replay_pushes_checked [of m rs "\<lambda>_. io_fine"] by (auto simp: replay_workload_def split: sum.splits)

section \<open>A concrete ledger\<close>

definition demo_ledger_entry :: "u64 \<Rightarrow> rstr \<Rightarrow> rstr \<Rightarrow> ledger_entry" where
  "demo_ledger_entry seq prev h =
     \<lparr>le_sequence = seq, le_xid = 9, le_source_lsn = 100, le_operation = str ''ab'', le_committed = 0,
      le_previous = prev, le_hash = h\<rparr>"

definition demo_e1 :: ledger_entry where "demo_e1 = demo_ledger_entry 1 [] (str ''317d'')"

definition demo_e2 :: ledger_entry where "demo_e2 = demo_ledger_entry 2 (str ''317d'') (str ''327d'')"

text \<open>A codec for these two entries; the hash is the identity, but never empty.\<close>

definition demo_sha :: "bytes \<Rightarrow> bytes" where
  "demo_sha x = (if x = [] then [0] else x)"

definition demo_js :: "ledger_entry json_codec" where
  "demo_js = \<lparr>js_print = \<lambda>e. if le_sequence e = 1 then [49, 125] else [50, 125],
     js_parse = \<lambda>s. if s = [49, 125] then Some demo_e1 else if s = [50, 125] then Some demo_e2 else None\<rparr>"

lemma demo_codec:
  "js_print demo_js (demo_ledger_entry 1 p h) = [49, 125]" "js_print demo_js (demo_ledger_entry 2 p h) = [50, 125]"
  "js_print demo_js demo_e1 = [49, 125]" "js_print demo_js demo_e2 = [50, 125]"
  "js_parse demo_js [49, 125] = Some demo_e1" "js_parse demo_js [50, 125] = Some demo_e2"
  "js_parse demo_js [] = None" "js_parse demo_js [b] = None"
  by (simp_all add: demo_js_def demo_ledger_entry_def demo_e1_def demo_e2_def)

lemma demo_line_ok: "line_ok demo_js demo_e1" "line_ok demo_js demo_e2"
proof -
  have "js_parse demo_js (take n [a, b]) = None" if "n < 2" for n a b
    using that by (cases n) (simp_all add: demo_codec)
  then show "line_ok demo_js demo_e1" "line_ok demo_js demo_e2" by (simp_all add: line_ok_def demo_codec)
qed

lemma demo_stamp: "(demo_ledger_entry n p h)\<lparr>le_hash := h'\<rparr> = demo_ledger_entry n p h'"
  by (simp add: demo_ledger_entry_def)

lemma demo_hash:
  "entry_hash demo_sha demo_js (demo_ledger_entry 1 p h) = str ''317d''"
  "entry_hash demo_sha demo_js (demo_ledger_entry 2 p h) = str ''327d''"
  by (simp_all add: entry_hash_def demo_stamp demo_codec demo_sha_def encode_hex_def hex_digit_def)

lemma demo_folds:
  "demo_ledger_entry 1 [] [51, 49, 55, 100] = demo_e1" "demo_ledger_entry 2 [51, 49, 55, 100] [51, 50, 55, 100] = demo_e2"
  by (simp_all add: demo_e1_def demo_e2_def)

lemma demo_checks:
  "append_check [] (demo_ledger_entry 1 [] h) = Ok ()" "append_check [demo_e1] (demo_ledger_entry 2 (str ''317d'') h) = Ok ()"
  "refresh_check demo_sha demo_js [] demo_e1 = Ok ()" "refresh_check demo_sha demo_js [demo_e1] demo_e2 = Ok ()"
proof -
  show "append_check [] (demo_ledger_entry 1 [] h) = Ok ()" "append_check [demo_e1] (demo_ledger_entry 2 (str ''317d'') h) = Ok ()"
    by (simp_all add: append_check_def next_sequence_def last_hash_def demo_e1_def) (simp_all add: demo_ledger_entry_def)
  show "refresh_check demo_sha demo_js [] demo_e1 = Ok ()" "refresh_check demo_sha demo_js [demo_e1] demo_e2 = Ok ()"
    by (simp_all add: refresh_check_def next_sequence_def last_hash_def demo_e1_def demo_e2_def demo_hash)
      (simp_all add: demo_ledger_entry_def)
qed

lemma demo_append_checks:
  "append_check [] demo_e1 = Ok ()" "append_check [demo_e1] demo_e2 = Ok ()"
  using demo_checks(1,2) by (simp_all add: demo_e1_def demo_e2_def)

lemma demo_appends:
  "append_entries demo_sha demo_js [demo_ledger_entry 1 [] [], demo_ledger_entry 2 (str ''317d'') []] [] lines_new =
     (Ok (), [49, 125, 10, 50, 125, 10], \<lparr>lf_entries = [demo_e1, demo_e2], lf_loaded = 0\<rparr>)"
  by (simp add: ledger_append_def append_line_def io_fine_def demo_hash demo_stamp lines_new_def demo_codec demo_folds demo_append_checks)

theorem ledger_reader_follows_writer_witness:
  "\<exists>R. ledger_refresh_all demo_sha demo_js [[49], [49, 125], [49, 125, 10, 50, 125, 10]] lines_new = (Ok (), R) \<and>
    lf_entries R = [demo_e1, demo_e2]"
  using ledger_reader_follows_writer [OF demo_appends, of "[1, 2, 6]"] demo_line_ok by simp

lemma demo_eol: "b < 128 \<Longrightarrow> utf8_ok [b, 125, 10]" "b < 128 \<Longrightarrow> utf8_ok [b, 125]" "utf8_ok [10]"
  by (auto intro!: utf8_ok_ascii)

lemma demo_resume:
  "ledger_refresh demo_sha demo_js (Some [49, 125, 10, 50, 125, 10]) lines_new = (Ok (), \<lparr>lf_entries = [demo_e1, demo_e2], lf_loaded = 6\<rparr>)"
  "ledger_resume demo_sha demo_js (Some [49, 125, 10]) = Ok \<lparr>lf_entries = [demo_e1], lf_loaded = 3\<rparr>"
  "ledger_resume demo_sha demo_js (Some [10, 49, 125]) = Ok \<lparr>lf_entries = [demo_e1], lf_loaded = 3\<rparr>"
  by (simp_all add: ledger_resume_def ledger_refresh_def refresh_lines_def lines_new_def refresh_loop.simps next_line_def
      trim_eol_def demo_eol demo_codec demo_checks Let_def)

theorem ledger_is_chain_witness:
  "\<exists>L. ledger_reach demo_sha demo_js L \<and> lf_entries L = [demo_e1, demo_e2] \<and> le_previous demo_e2 = le_hash demo_e1"
proof -
  have "ledger_reach demo_sha demo_js \<lparr>lf_entries = [demo_e1, demo_e2], lf_loaded = 6\<rparr>" by (rule lr_refresh [OF lr_new demo_resume(1)])
  from ledger_is_chain [OF this, of 1] this show ?thesis
    by (intro exI [of _ "\<lparr>lf_entries = [demo_e1, demo_e2], lf_loaded = 6\<rparr>"]) simp
qed

theorem last_hash_fixes_ledger_witness:
  "\<exists>L1 L2. ledger_resume demo_sha demo_js (Some [49, 125, 10]) = Ok L1 \<and>
    ledger_resume demo_sha demo_js (Some [10, 49, 125]) = Ok L2 \<and> lf_entries L1 = lf_entries L2"
proof -
  have "\<forall>x. demo_sha x \<noteq> []" by (simp add: demo_sha_def)
  from last_hash_fixes_ledger [OF demo_resume(2,3) refl this] show ?thesis using demo_resume(2,3) by simp
qed

lemma demo_poison:
  "ledger_append demo_sha demo_js (io_fine\<lparr>io_sync := False\<rparr>) (demo_ledger_entry 1 [] []) [] lines_new = (Err (LWrite IoSync), [49, 125, 10], lines_new)"
  "ledger_append demo_sha demo_js io_fine (demo_ledger_entry 1 [] []) [49, 125, 10] lines_new =
     (Ok (), [49, 125, 10, 49, 125, 10], lines_new\<lparr>lf_entries := [demo_e1]\<rparr>)"
  by (simp_all add: ledger_append_def append_line_def io_fine_def demo_hash demo_stamp lines_new_def demo_codec demo_folds demo_append_checks)

theorem failed_sync_poisons_ledger_witness:
  "ledger_resume demo_sha demo_js (Some [49, 125, 10, 49, 125, 10]) = Err (LInvalid SequenceGap)"
proof -
  have "chain_ok demo_sha demo_js (lf_entries lines_new)" "append_check (lf_entries lines_new) (demo_ledger_entry 1 [] []) = Ok ()"
    "\<forall>x \<in> set (lf_entries lines_new @ [demo_e1]). line_ok demo_js x"
    "demo_e1 = (demo_ledger_entry 1 [] [])\<lparr>le_hash := entry_hash demo_sha demo_js (demo_ledger_entry 1 [] [])\<rparr>"
    "[] = file_of (js_print demo_js) (lf_entries lines_new)"
    using demo_checks(1) demo_line_ok by (simp_all add: lines_new_def chain_ok_def demo_hash demo_stamp demo_e1_def)
  from failed_sync_poisons_ledger [OF this(5,1,2,4,3) demo_poison] show ?thesis by simp
qed

end
