(* ===== verification/Workload.thy ===== *)
theory Workload
  imports Generator Ledger
begin

text \<open>
  The transaction plans of the benchmark, \<open>crates/graydb-r1/src/workload.rs\<close>: the operation of a global
  ordinal, the size of a transaction, and the planner with its cache of row counts. SHA-256 and the JSON
  of the operations are parameters. The rate limiter, which counts in floating point against the clock, is
  not modelled.
\<close>

section \<open>Operations\<close>

definition OPERATION_CYCLE_ROWS :: u64 where "OPERATION_CYCLE_ROWS = 50"
definition INSERT_ROWS_PER_CYCLE :: u64 where "INSERT_ROWS_PER_CYCLE = 45"
definition UPDATE_ROWS_PER_CYCLE :: u64 where "UPDATE_ROWS_PER_CYCLE = 4"
definition DELETE_ROWS_PER_CYCLE :: u64 where "DELETE_ROWS_PER_CYCLE = 1"
definition APP_CUSTOMER_BASE :: u64 where "APP_CUSTOMER_BASE = 10000000000"
definition APP_ORDER_BASE :: u64 where "APP_ORDER_BASE = 20000000000"
definition APP_EVENT_BASE :: u64 where "APP_EVENT_BASE = 30000000000"

lemmas row_cycle_defs = OPERATION_CYCLE_ROWS_def INSERT_ROWS_PER_CYCLE_def UPDATE_ROWS_PER_CYCLE_def DELETE_ROWS_PER_CYCLE_def

record app_customer =
  ac_id :: u64
  ac_tenant :: u64
  ac_segment :: rstr
  ac_email_domain :: rstr
  ac_profile :: rstr
  ac_created :: i64

record app_order =
  ao_id :: u64
  ao_tenant :: u64
  ao_customer :: u64
  ao_status :: rstr
  ao_channel :: rstr
  ao_amount :: i64
  ao_created :: i64
  ao_updated :: i64
  ao_attributes :: rstr

record app_event =
  ae_id :: u64
  ae_order :: u64
  ae_tenant :: u64
  ae_type :: rstr
  ae_at :: i64
  ae_metadata :: rstr

text \<open>\<open>UpdateCustomer\<close> and \<open>UpdateOrder\<close> carry the fields of the row they write.\<close>

datatype operation =
    InsertCustomer app_customer
  | InsertOrder app_order
  | InsertOrderEvent app_event
  | UpdateCustomer app_customer
  | UpdateOrder app_order
  | DeleteOrder (del_order: u64) (del_tenant: u64)
  | DeleteOrderEvent (del_event: u64) (del_order: u64) (del_tenant: u64)

fun is_insert :: "operation \<Rightarrow> bool" where
  "is_insert (InsertCustomer _) = True"
| "is_insert (InsertOrder _) = True"
| "is_insert (InsertOrderEvent _) = True"
| "is_insert _ = False"

fun is_update :: "operation \<Rightarrow> bool" where
  "is_update (UpdateCustomer _) = True"
| "is_update (UpdateOrder _) = True"
| "is_update _ = False"

fun is_delete :: "operation \<Rightarrow> bool" where
  "is_delete (DeleteOrder _ _) = True"
| "is_delete (DeleteOrderEvent _ _ _) = True"
| "is_delete _ = False"

section \<open>The values of a row\<close>

definition app_draw :: "u64 \<Rightarrow> nat \<Rightarrow> u64 \<Rightarrow> u64 \<Rightarrow> u64" where
  "app_draw seed rot salt n = mix64 (seed XOR word_rotl rot n XOR salt)"

definition next_segment :: "u64 \<Rightarrow> u64 \<Rightarrow> rstr option" where
  "next_segment seed n =
     weighted_choice (mix64 (seed XOR word_rotl 9 n))
       [(str ''consumer'', 55), (str ''smb'', 29), (str ''mid-market'', 12), (str ''enterprise'', 4)]"

definition next_email_domain :: "u64 \<Rightarrow> u64 \<Rightarrow> rstr option" where
  "next_email_domain seed n =
     weighted_choice (app_draw seed 3 0xe11a n)
       [(str ''example.com'', 58), (str ''mail.test'', 25), (str ''corp.test'', 12), (str ''acme.test'', 5)]"

definition next_status :: "u64 \<Rightarrow> u64 \<Rightarrow> rstr option" where
  "next_status seed n =
     weighted_choice (app_draw seed 19 0x57a7 n)
       [(str ''paid'', 46), (str ''shipped'', 27), (str ''pending'', 15), (str ''cancelled'', 8), (str ''refunded'', 4)]"

definition next_channel :: "u64 \<Rightarrow> u64 \<Rightarrow> rstr option" where
  "next_channel seed n =
     weighted_choice (app_draw seed 27 0x0ca1 n) [(str ''web'', 61), (str ''mobile'', 31), (str ''partner'', 8)]"

definition next_event_type :: "u64 \<Rightarrow> u64 \<Rightarrow> rstr option" where
  "next_event_type seed n =
     weighted_choice (app_draw seed 31 0x0e47 n)
       [(str ''created'', 42), (str ''paid'', 30), (str ''fulfilled'', 17), (str ''cancelled'', 7), (str ''returned'', 4)]"

definition base_amount :: "u64 \<Rightarrow> u64 \<Rightarrow> i64" where
  "base_amount seed n =
     (let bucket = app_draw seed 17 0xa11c n mod 100;
          v = app_draw seed 23 0xb00c n
      in if bucket \<le> 54 then 100 + v mod 2400
         else if bucket \<le> 81 then 2500 + v mod 7500
         else if bucket \<le> 93 then 10000 + v mod 40000
         else if bucket \<le> 98 then 50000 + v mod 200000
         else 250000 + v mod 1750000)"

definition sat_add_i64 :: "i64 \<Rightarrow> i64 \<Rightarrow> i64" where
  "sat_add_i64 a b = word_of_int (max (- (2 ^ 63)) (min (2 ^ 63 - 1) (sint a + sint b)))"

definition mutate_amount :: "u64 \<Rightarrow> u64 \<Rightarrow> i64 \<Rightarrow> i64" where
  "mutate_amount seed n amount = sat_add_i64 amount (app_draw seed 29 0xd31a n mod 10000)"

definition quoted :: "rstr \<Rightarrow> rstr" where
  "quoted s = 34 # s @ [34]"

definition bounded_json :: "rstr \<Rightarrow> u64 \<Rightarrow> u64 \<Rightarrow> rstr" where
  "bounded_json kind seed n =
     str ''{'' @ quoted (str ''kind'') @ str '':'' @ quoted kind @ str '','' @ quoted (str ''payload'') @ str '':'' @
     show_u64 (mix64 (seed XOR word_rotl 37 n) mod 1000) @ str '','' @ quoted (str ''schema_version'') @ str '':1}''"

definition mutate_json :: "rstr \<Rightarrow> u64 \<Rightarrow> u64 \<Rightarrow> rstr" where
  "mutate_json kind seed n =
     str ''{'' @ quoted (str ''kind'') @ str '':'' @ quoted kind @ str '','' @ quoted (str ''revision'') @ str '':'' @
     show_u64 (mix64 (seed XOR word_rotl 41 n) mod 1000) @ str '','' @ quoted (str ''schema_version'') @ str '':1}''"

definition logical_time_micros :: "u64 \<Rightarrow> i64" where
  "logical_time_micros global_ordinal = 1700000000000000 + global_ordinal * 1000"

definition tenant_for_app_index :: "u64 \<Rightarrow> u64 \<Rightarrow> u64 \<Rightarrow> u64" where
  "tenant_for_app_index seed app_index salt = app_draw seed 5 salt app_index mod 64 * 100 + 1"

definition deterministic_target_index :: "u64 \<Rightarrow> u64 \<Rightarrow> u64 \<Rightarrow> u64" where
  "deterministic_target_index seed sequence_index available =
     (if available = 0 then 0 else mix64 (seed XOR word_rotl 11 sequence_index) mod available)"

section \<open>Rows\<close>

definition make_insert_customer :: "u64 \<Rightarrow> u64 \<Rightarrow> app_customer option" where
  "make_insert_customer seed customer_index = do {
     segment \<leftarrow> next_segment seed customer_index;
     domain \<leftarrow> next_email_domain seed customer_index;
     Some \<lparr>ac_id = APP_CUSTOMER_BASE + customer_index + 1, ac_tenant = tenant_for_app_index seed customer_index 17,
       ac_segment = segment, ac_email_domain = domain, ac_profile = bounded_json (str ''customer'') seed customer_index,
       ac_created = logical_time_micros (customer_index * 20 + 19)\<rparr>
   }"

definition make_insert_order :: "u64 \<Rightarrow> u64 \<Rightarrow> app_order option" where
  "make_insert_order seed order_index = do {
     let customer_slot = app_draw seed 7 0x0c557a55 order_index mod 5;
     let tenant_slot = app_draw seed 13 0x51de0cc1 order_index mod 64;
     let tenant_id = tenant_slot * 100 + 1;
     let created = logical_time_micros (order_index * 3);
     status \<leftarrow> next_status seed order_index;
     channel \<leftarrow> next_channel seed order_index;
     Some \<lparr>ao_id = APP_ORDER_BASE + order_index + 1, ao_tenant = tenant_id, ao_customer = tenant_id + customer_slot + 1,
       ao_status = status, ao_channel = channel, ao_amount = base_amount seed order_index, ao_created = created,
       ao_updated = created + 250000, ao_attributes = bounded_json (str ''order'') seed order_index\<rparr>
   }"

definition make_insert_event :: "u64 \<Rightarrow> u64 \<Rightarrow> app_event option" where
  "make_insert_event seed event_index = do {
     let order_insert_index = deterministic_target_index (seed XOR 0x0e170e17) event_index (event_index + 1);
     order \<leftarrow> make_insert_order seed order_insert_index;
     event_type \<leftarrow> next_event_type seed event_index;
     Some \<lparr>ae_id = APP_EVENT_BASE + event_index + 1, ae_order = ao_id order, ae_tenant = ao_tenant order, ae_type = event_type,
       ae_at = logical_time_micros event_index, ae_metadata = bounded_json (str ''event'') seed event_index\<rparr>
   }"

section \<open>The operation of an ordinal\<close>

definition insert_rows_before :: "u64 \<Rightarrow> u64" where
  "insert_rows_before global_ordinal =
     global_ordinal div OPERATION_CYCLE_ROWS * INSERT_ROWS_PER_CYCLE + min (global_ordinal mod OPERATION_CYCLE_ROWS) INSERT_ROWS_PER_CYCLE"

fun insert_target_count_before :: "u64 \<Rightarrow> seed_table \<Rightarrow> u64" where
  "insert_target_count_before g Tenants = 0"
| "insert_target_count_before g Customers = insert_rows_before g div 20"
| "insert_target_count_before g Orders =
     (let n = insert_rows_before g; r = n mod 20 in n div 20 * 7 + min (if r < 12 then 0 else r - 12) 7)"
| "insert_target_count_before g OrderEvents = (let n = insert_rows_before g in n div 20 * 12 + min (n mod 20) 12)"

definition plan_insert :: "u64 \<Rightarrow> u64 \<Rightarrow> operation option" where
  "plan_insert seed insert_index =
     (let r = insert_index mod 20
      in if r \<le> 11 then map_option InsertOrderEvent (make_insert_event seed insert_index)
         else if r \<le> 18 then map_option InsertOrder (make_insert_order seed insert_index)
         else map_option InsertCustomer (make_insert_customer seed insert_index))"

definition plan_update :: "u64 \<Rightarrow> u64 \<Rightarrow> u64 \<Rightarrow> operation option" where
  "plan_update seed update_index global_ordinal =
     (if update_index mod 10 \<le> 8
      then do {
        let order_index = deterministic_target_index seed update_index (insert_target_count_before global_ordinal Orders);
        row \<leftarrow> make_insert_order seed order_index;
        status \<leftarrow> next_status seed update_index;
        Some (UpdateOrder (row\<lparr>ao_status := status, ao_amount := mutate_amount seed update_index (ao_amount row),
          ao_updated := ao_updated row + 1000000 + word_of_int (sint update_index smod 10000),
          ao_attributes := mutate_json (str ''order-update'') seed update_index\<rparr>)) }
      else do {
        let customer_index = deterministic_target_index seed update_index (insert_target_count_before global_ordinal Customers);
        row \<leftarrow> make_insert_customer seed customer_index;
        segment \<leftarrow> next_segment seed update_index;
        Some (UpdateCustomer (row\<lparr>ac_segment := segment, ac_profile := mutate_json (str ''customer-update'') seed update_index\<rparr>)) })"

definition plan_delete :: "u64 \<Rightarrow> u64 \<Rightarrow> operation option" where
  "plan_delete seed delete_index =
     (if delete_index mod 5 \<le> 3
      then map_option (\<lambda>row. DeleteOrder (ao_id row) (ao_tenant row)) (make_insert_order seed delete_index)
      else map_option (\<lambda>row. DeleteOrderEvent (ae_id row) (ae_order row) (ae_tenant row)) (make_insert_event seed delete_index))"

definition plan_operation :: "u64 \<Rightarrow> u64 \<Rightarrow> operation option" where
  "plan_operation seed global_ordinal =
     (let cycle = global_ordinal div OPERATION_CYCLE_ROWS;
          slot = global_ordinal mod OPERATION_CYCLE_ROWS
      in if slot < INSERT_ROWS_PER_CYCLE then plan_insert seed (cycle * INSERT_ROWS_PER_CYCLE + slot)
         else if slot < INSERT_ROWS_PER_CYCLE + UPDATE_ROWS_PER_CYCLE
         then plan_update seed (cycle * UPDATE_ROWS_PER_CYCLE + (slot - INSERT_ROWS_PER_CYCLE)) global_ordinal
         else plan_delete seed (cycle * DELETE_ROWS_PER_CYCLE + (slot - INSERT_ROWS_PER_CYCLE - UPDATE_ROWS_PER_CYCLE)))"

section \<open>The planner\<close>

definition transaction_size :: "u64 \<Rightarrow> u64 \<Rightarrow> nat" where
  "transaction_size seed sequence =
     (let d = mix64 (seed XOR word_rotl 17 sequence) mod 10000
      in if d \<le> 9499 then 1 else if d \<le> 9899 then 10 else if d \<le> 9989 then 100 else 1000)"

record transaction_plan =
  tp_sequence :: u64
  tp_time :: i64
  tp_operations :: "operation list"
  tp_sha :: rstr

record planner =
  pl_seed :: u64
  pl_prefix :: "u64 list"

definition planner_new :: "u64 \<Rightarrow> planner" where
  "planner_new seed = \<lparr>pl_seed = seed, pl_prefix = [0]\<rparr>"

function extend_prefix :: "u64 \<Rightarrow> nat \<Rightarrow> u64 list \<Rightarrow> u64 list" where
  "extend_prefix seed target ps =
     (if length ps \<le> target
      then extend_prefix seed target
             (ps @ [(case rev ps of [] \<Rightarrow> 0 | p # _ \<Rightarrow> p) + of_nat (transaction_size seed (of_nat (length ps)))])
      else ps)"
  by pat_completeness auto
termination
  by (relation "measure (\<lambda>(seed, target, ps). Suc target - length ps)") auto

declare extend_prefix.simps [simp del]

definition rows_before_sequence :: "u64 \<Rightarrow> planner \<Rightarrow> u64 \<times> planner" where
  "rows_before_sequence sequence p =
     (let ps = extend_prefix (pl_seed p) (unat sequence) (pl_prefix p)
      in (ps ! unat (if sequence = 0 then 0 else sequence - 1), p\<lparr>pl_prefix := ps\<rparr>))"

fun plan_loop :: "u64 \<Rightarrow> u64 \<Rightarrow> nat \<Rightarrow> nat \<Rightarrow> operation list \<Rightarrow> operation list option" where
  "plan_loop seed offset i 0 ops = Some ops"
| "plan_loop seed offset i (Suc n) ops =
     do { operation \<leftarrow> plan_operation seed (offset + of_nat i); plan_loop seed offset (Suc i) n (ops @ [operation]) }"

definition plan ::
    "(operation list \<Rightarrow> bytes) \<Rightarrow> (bytes \<Rightarrow> bytes) \<Rightarrow> u64 \<Rightarrow> planner \<Rightarrow> transaction_plan option \<times> planner" where
  "plan op_json sha sequence p =
     (let size = transaction_size (pl_seed p) sequence;
          (offset, p) = rows_before_sequence sequence p
      in (map_option (\<lambda>ops. \<lparr>tp_sequence = sequence, tp_time = logical_time_micros offset, tp_operations = ops,
             tp_sha = encode_hex (sha (op_json ops))\<rparr>) (plan_loop (pl_seed p) offset 0 size []), p))"

section \<open>The mix of a list of plans\<close>

record row_mix =
  mx_inserts :: u64
  mx_updates :: u64
  mx_deletes :: u64

definition row_mix_of :: "transaction_plan list \<Rightarrow> row_mix" where
  "row_mix_of ps =
     foldl (\<lambda>mix operation.
         if is_insert operation then mix\<lparr>mx_inserts := mx_inserts mix + 1\<rparr>
         else if is_update operation then mix\<lparr>mx_updates := mx_updates mix + 1\<rparr>
         else mix\<lparr>mx_deletes := mx_deletes mix + 1\<rparr>)
       \<lparr>mx_inserts = 0, mx_updates = 0, mx_deletes = 0\<rparr> (concat (map tp_operations ps))"

record table_mix =
  tm_insert_customers :: u64
  tm_insert_orders :: u64
  tm_insert_events :: u64
  tm_update_customers :: u64
  tm_update_orders :: u64
  tm_delete_orders :: u64
  tm_delete_events :: u64

fun table_mix_add :: "table_mix \<Rightarrow> operation \<Rightarrow> table_mix" where
  "table_mix_add m (InsertCustomer _) = m\<lparr>tm_insert_customers := tm_insert_customers m + 1\<rparr>"
| "table_mix_add m (InsertOrder _) = m\<lparr>tm_insert_orders := tm_insert_orders m + 1\<rparr>"
| "table_mix_add m (InsertOrderEvent _) = m\<lparr>tm_insert_events := tm_insert_events m + 1\<rparr>"
| "table_mix_add m (UpdateCustomer _) = m\<lparr>tm_update_customers := tm_update_customers m + 1\<rparr>"
| "table_mix_add m (UpdateOrder _) = m\<lparr>tm_update_orders := tm_update_orders m + 1\<rparr>"
| "table_mix_add m (DeleteOrder _ _) = m\<lparr>tm_delete_orders := tm_delete_orders m + 1\<rparr>"
| "table_mix_add m (DeleteOrderEvent _ _ _) = m\<lparr>tm_delete_events := tm_delete_events m + 1\<rparr>"

definition table_mix_of :: "transaction_plan list \<Rightarrow> table_mix" where
  "table_mix_of ps =
     foldl table_mix_add
       \<lparr>tm_insert_customers = 0, tm_insert_orders = 0, tm_insert_events = 0, tm_update_customers = 0, tm_update_orders = 0,
        tm_delete_orders = 0, tm_delete_events = 0\<rparr>
       (concat (map tp_operations ps))"

section \<open>Every ordinal has an operation\<close>

lemma choice_100: "sum_list (map (unat \<circ> snd) cs) = 100 \<Longrightarrow> \<exists>v. weighted_choice d cs = Some v"
  using weighted_choice_Some [of cs d] by auto

lemma next_Some:
  "\<exists>v. next_segment seed n = Some v" "\<exists>v. next_email_domain seed n = Some v" "\<exists>v. next_status seed n = Some v"
  "\<exists>v. next_channel seed n = Some v" "\<exists>v. next_event_type seed n = Some v"
  unfolding next_segment_def next_email_domain_def next_status_def next_channel_def next_event_type_def
  by (rule choice_100, simp)+

lemma make_order_Some: "\<exists>r. make_insert_order seed n = Some r \<and> ao_id r = APP_ORDER_BASE + n + 1"
  using next_Some(3) [of seed n] next_Some(4) [of seed n] by (auto simp: make_insert_order_def Let_def)

lemma make_customer_Some: "\<exists>r. make_insert_customer seed n = Some r \<and> ac_id r = APP_CUSTOMER_BASE + n + 1"
  using next_Some(1,2) [of seed n] by (auto simp: make_insert_customer_def)

lemma make_event_Some: "\<exists>r. make_insert_event seed n = Some r \<and> ae_id r = APP_EVENT_BASE + n + 1"
proof -
  obtain r where "make_insert_order seed (deterministic_target_index (seed XOR 0x0e170e17) n (n + 1)) = Some r"
    using make_order_Some by blast
  then show ?thesis using next_Some(5) [of seed n] by (auto simp: make_insert_event_def Let_def)
qed

text \<open>The row an operation inserts, as its table and id.\<close>

fun op_insert_id :: "operation \<Rightarrow> (seed_table \<times> u64) option" where
  "op_insert_id (InsertCustomer r) = Some (Customers, ac_id r)"
| "op_insert_id (InsertOrder r) = Some (Orders, ao_id r)"
| "op_insert_id (InsertOrderEvent r) = Some (OrderEvents, ae_id r)"
| "op_insert_id _ = None"

definition inserted_key :: "u64 \<Rightarrow> seed_table \<times> u64" where
  "inserted_key n =
     (let r = n mod 20
      in if r \<le> 11 then (OrderEvents, APP_EVENT_BASE + n + 1)
         else if r \<le> 18 then (Orders, APP_ORDER_BASE + n + 1) else (Customers, APP_CUSTOMER_BASE + n + 1))"

lemma plan_insert_Some: "\<exists>op. plan_insert seed n = Some op \<and> is_insert op \<and> \<not> is_update op \<and> op_insert_id op = Some (inserted_key n)"
proof -
  obtain e r c where
    "make_insert_event seed n = Some e" "ae_id e = APP_EVENT_BASE + n + 1"
    "make_insert_order seed n = Some r" "ao_id r = APP_ORDER_BASE + n + 1"
    "make_insert_customer seed n = Some c" "ac_id c = APP_CUSTOMER_BASE + n + 1"
    using make_event_Some [of seed n] make_order_Some [of seed n] make_customer_Some [of seed n] by blast
  then show ?thesis by (simp add: plan_insert_def inserted_key_def Let_def)
qed

lemma plan_update_Some: "\<exists>op. plan_update seed n g = Some op \<and> \<not> is_insert op \<and> is_update op \<and> op_insert_id op = None"
proof -
  obtain r c where
    "make_insert_order seed (deterministic_target_index seed n (insert_target_count_before g Orders)) = Some r"
    "make_insert_customer seed (deterministic_target_index seed n (insert_target_count_before g Customers)) = Some c"
    using make_order_Some make_customer_Some by meson
  then show ?thesis
    using next_Some(1,3) [of seed n] unfolding plan_update_def Let_def by (auto simp del: insert_target_count_before.simps)
qed

lemma plan_delete_Some: "\<exists>op. plan_delete seed n = Some op \<and> \<not> is_insert op \<and> \<not> is_update op \<and> op_insert_id op = None"
  using make_event_Some [of seed n] make_order_Some [of seed n] by (auto simp: plan_delete_def)

text \<open>The index of the insert at an ordinal.\<close>

definition insert_index :: "u64 \<Rightarrow> u64" where
  "insert_index g = g div OPERATION_CYCLE_ROWS * INSERT_ROWS_PER_CYCLE + g mod OPERATION_CYCLE_ROWS"

lemma unat_insert_index: "unat (insert_index g) = unat g div 50 * 45 + unat g mod 50"
proof -
  have "unat g div 50 * 45 + unat g mod 50 \<le> unat g"
    using div_mult_mod_eq [of "unat g" 50] by linarith
  then have "unat g div 50 * 45 + unat g mod 50 < 2 ^ 64" by (rule le_less_trans) simp
  then show ?thesis by (simp add: insert_index_def row_cycle_defs unat_word_ariths unat_div unat_mod)
qed

lemma insert_index_inj:
  assumes "unat g mod 50 < 45" and "unat h mod 50 < 45" and "insert_index g = insert_index h"
  shows "g = h"
proof -
  have e: "unat g div 50 * 45 + unat g mod 50 = unat h div 50 * 45 + unat h mod 50"
    using assms(3) unat_insert_index by metis
  have "(unat g div 50 * 45 + unat g mod 50) div 45 = unat g div 50" "(unat h div 50 * 45 + unat h mod 50) div 45 = unat h div 50"
    using assms(1,2) by simp_all
  then have d: "unat g div 50 = unat h div 50" using e by metis
  then have "unat g mod 50 = unat h mod 50" using e by (metis add_left_cancel)
  then have "unat g = unat h" using d by (metis div_mult_mod_eq)
  then show ?thesis by (rule unsigned_word_eqI)
qed

lemma slot_less: "g mod OPERATION_CYCLE_ROWS < w \<longleftrightarrow> unat g mod 50 < unat w"
  by (simp add: OPERATION_CYCLE_ROWS_def word_less_nat_alt unat_mod)

lemma plan_operation_Some:
  "\<exists>op. plan_operation seed g = Some op \<and> (is_insert op \<longleftrightarrow> unat g mod 50 < 45) \<and>
    (is_update op \<longleftrightarrow> 45 \<le> unat g mod 50 \<and> unat g mod 50 < 49) \<and>
    op_insert_id op = (if unat g mod 50 < 45 then Some (inserted_key (insert_index g)) else None)"
proof -
  have w: "unat INSERT_ROWS_PER_CYCLE = 45" "unat (INSERT_ROWS_PER_CYCLE + UPDATE_ROWS_PER_CYCLE) = 49"
    by (simp_all add: row_cycle_defs)
  show ?thesis
  proof (cases "unat g mod 50 < 45")
    case True
    then show ?thesis
      using plan_insert_Some [of seed "insert_index g"] by (auto simp: plan_operation_def Let_def slot_less w insert_index_def)
  next
    case False
    then show ?thesis
      using plan_update_Some [of seed "g div OPERATION_CYCLE_ROWS * UPDATE_ROWS_PER_CYCLE + (g mod OPERATION_CYCLE_ROWS - INSERT_ROWS_PER_CYCLE)" g]
        plan_delete_Some [of seed "g div OPERATION_CYCLE_ROWS * DELETE_ROWS_PER_CYCLE + (g mod OPERATION_CYCLE_ROWS - INSERT_ROWS_PER_CYCLE - UPDATE_ROWS_PER_CYCLE)"]
      by (auto simp: plan_operation_def Let_def slot_less w)
  qed
qed

text \<open>
  No two ordinals insert the same row: within a run of the workload the ids of the inserted customers,
  orders and events are all different, so no insert can violate a primary key.
\<close>
theorem inserted_ids_are_unique:
  assumes "plan_operation seed g = Some op" and "plan_operation seed h = Some op'"
    and "op_insert_id op = Some key" and "op_insert_id op' = Some key"
  shows "g = h"
proof -
  have g: "unat g mod 50 < 45" "key = inserted_key (insert_index g)"
    using plan_operation_Some [of seed g] assms(1,3) by (auto split: if_splits)
  have h: "unat h mod 50 < 45" "key = inserted_key (insert_index h)"
    using plan_operation_Some [of seed h] assms(2,4) by (auto split: if_splits)
  have "insert_index g = insert_index h"
    using g(2) h(2) by (auto simp: inserted_key_def Let_def split: if_splits)
  then show ?thesis by (rule insert_index_inj [OF g(1) h(1)])
qed

text \<open>
  Twelve of twenty deletes have no row to delete. The delete at index d names the order, or the event,
  with the id an insert at index d would have; but the inserts of an index are orders only for residues
  12 to 18 of 20, so that for the residues below the order was never inserted, by any ordinal.
\<close>
theorem deletes_of_orders_never_inserted:
  assumes "unat d < 2 ^ 57" and "unat d mod 5 \<le> 3" and "unat d mod 20 \<le> 11 \<or> unat d mod 20 = 19"
  shows "\<exists>oid tenant. plan_operation seed (50 * d + 49) = Some (DeleteOrder oid tenant) \<and>
    (\<forall>h op. plan_operation seed h = Some op \<longrightarrow> op_insert_id op \<noteq> Some (Orders, oid))"
proof -
  have g: "unat (50 * d + 49) = 50 * unat d + 49" using assms(1) by (simp add: unat_word_ariths)
  have "unat ((50 * d + 49) div OPERATION_CYCLE_ROWS) = unat d" "unat ((50 * d + 49) mod OPERATION_CYCLE_ROWS) = unat (49 :: u64)"
    unfolding unat_div unat_mod g by (simp_all add: OPERATION_CYCLE_ROWS_def)
  then have dv: "(50 * d + 49) div OPERATION_CYCLE_ROWS = d" and md: "(50 * d + 49) mod OPERATION_CYCLE_ROWS = 49"
    by (blast intro: unsigned_word_eqI)+
  have "plan_operation seed (50 * d + 49) = plan_delete seed d"
    by (simp only: plan_operation_def Let_def dv md) (simp add: row_cycle_defs)
  moreover obtain r where r: "make_insert_order seed d = Some r" "ao_id r = APP_ORDER_BASE + d + 1" using make_order_Some by blast
  moreover have "d mod 5 \<le> 3" using assms(2) by (simp add: word_le_nat_alt unat_mod)
  ultimately have "plan_operation seed (50 * d + 49) = Some (DeleteOrder (APP_ORDER_BASE + d + 1) (ao_tenant r))"
    by (simp add: plan_delete_def)
  moreover have "op_insert_id op \<noteq> Some (Orders, APP_ORDER_BASE + d + 1)" if "plan_operation seed h = Some op" for h op
  proof
    assume "op_insert_id op = Some (Orders, APP_ORDER_BASE + d + 1)"
    then have "inserted_key (insert_index h) = (Orders, APP_ORDER_BASE + d + 1)"
      using plan_operation_Some [of seed h] that by (auto split: if_splits)
    then have "\<not> d mod 20 \<le> 11" "d mod 20 \<le> 18" by (auto simp: inserted_key_def Let_def split: if_splits)
    then show False using assms(3) by (auto simp: word_le_nat_alt unat_mod)
  qed
  ultimately show ?thesis by blast
qed

section \<open>The planner is a function of the sequence number\<close>

lemma transaction_size_cases: "transaction_size seed s \<in> {1, 10, 100, 1000}"
  by (simp add: transaction_size_def Let_def)

primrec rows_upto :: "u64 \<Rightarrow> nat \<Rightarrow> nat" where
  "rows_upto seed 0 = 0"
| "rows_upto seed (Suc k) = rows_upto seed k + transaction_size seed (of_nat (Suc k))"

definition prefix_ok :: "planner \<Rightarrow> bool" where
  "prefix_ok p \<longleftrightarrow> pl_prefix p \<noteq> [] \<and> (\<forall>i < length (pl_prefix p). pl_prefix p ! i = of_nat (rows_upto (pl_seed p) i))"

lemma extend_prefix_ok:
  assumes "ps \<noteq> []" and "\<forall>i < length ps. ps ! i = of_nat (rows_upto seed i)"
  shows "target < length (extend_prefix seed target ps) \<and> extend_prefix seed target ps \<noteq> [] \<and>
    (\<forall>i < length (extend_prefix seed target ps). extend_prefix seed target ps ! i = of_nat (rows_upto seed i))"
  using assms
proof (induction seed target ps rule: extend_prefix.induct)
  case (1 seed target ps)
  show ?case
  proof (cases "length ps \<le> target")
    case True
    obtain qs q where ps: "ps = qs @ [q]" using 1(2) by (cases ps rule: rev_cases) auto
    have q: "q = of_nat (rows_upto seed (length qs))" using 1(3) [rule_format, of "length qs"] by (simp add: ps)
    let ?n = "(case rev ps of [] \<Rightarrow> 0 | p # _ \<Rightarrow> p) + of_nat (transaction_size seed (of_nat (length ps)))"
    have n: "?n = of_nat (rows_upto seed (length ps))" by (simp add: ps q)
    have "\<forall>i < length (ps @ [?n]). (ps @ [?n]) ! i = of_nat (rows_upto seed i)"
      using 1(3) unfolding n by (auto simp: nth_append less_Suc_eq)
    moreover have "extend_prefix seed target ps = extend_prefix seed target (ps @ [?n])"
      by (subst extend_prefix.simps) (simp only: True if_True)
    ultimately show ?thesis using 1(1) [OF True] by simp
  next
    case False
    then show ?thesis using 1(2,3) by (simp add: extend_prefix.simps [of seed target ps])
  qed
qed

lemma rows_before_ok:
  assumes "prefix_ok p"
  shows "\<exists>p'. rows_before_sequence sequence p = (of_nat (rows_upto (pl_seed p) (unat sequence - 1)), p') \<and>
    prefix_ok p' \<and> pl_seed p' = pl_seed p"
proof -
  have m: "unat (if sequence = 0 then 0 else sequence - 1) = unat sequence - 1"
    by (simp add: unat_sub word_le_nat_alt unat_gt_0 Suc_le_eq)
  show ?thesis
    using extend_prefix_ok [of "pl_prefix p" "pl_seed p" "unat sequence"] assms
    by (auto simp: rows_before_sequence_def prefix_ok_def Let_def m)
qed

definition op_at :: "u64 \<Rightarrow> nat \<Rightarrow> operation" where
  "op_at seed g = the (plan_operation seed (of_nat g))"

lemma plan_loop_ops: "plan_loop seed (of_nat off) i n ops = Some (ops @ map (op_at seed) [off + i..<off + i + n])"
proof (induction n arbitrary: i ops)
  case (Suc n)
  obtain op where "plan_operation seed (of_nat (off + i)) = Some op" using plan_operation_Some by blast
  moreover have "[off + i..<off + i + Suc n] = (off + i) # [off + Suc i..<off + Suc i + n]" by (simp add: upt_conv_Cons)
  ultimately show ?case using Suc by (simp add: op_at_def)
qed simp

definition plan_spec :: "(operation list \<Rightarrow> bytes) \<Rightarrow> (bytes \<Rightarrow> bytes) \<Rightarrow> u64 \<Rightarrow> u64 \<Rightarrow> transaction_plan" where
  "plan_spec op_json sha seed sequence =
     (let off = rows_upto seed (unat sequence - 1);
          ops = map (op_at seed) [off..<off + transaction_size seed sequence]
      in \<lparr>tp_sequence = sequence, tp_time = logical_time_micros (of_nat off), tp_operations = ops, tp_sha = encode_hex (sha (op_json ops))\<rparr>)"

lemma plan_ok:
  assumes "prefix_ok p"
  shows "\<exists>p'. plan op_json sha sequence p = (Some (plan_spec op_json sha (pl_seed p) sequence), p') \<and> prefix_ok p' \<and> pl_seed p' = pl_seed p"
  using rows_before_ok [OF assms, of sequence]
  by (auto simp: plan_def plan_spec_def Let_def plan_loop_ops [of _ _ 0, simplified])

definition plan_calls :: "(operation list \<Rightarrow> bytes) \<Rightarrow> (bytes \<Rightarrow> bytes) \<Rightarrow> u64 list \<Rightarrow> planner \<Rightarrow> planner" where
  "plan_calls op_json sha qs p = foldl (\<lambda>p q. snd (plan op_json sha q p)) p qs"

lemma plan_calls_ok: "prefix_ok p \<Longrightarrow> prefix_ok (plan_calls op_json sha qs p) \<and> pl_seed (plan_calls op_json sha qs p) = pl_seed p"
proof (induction qs arbitrary: p)
  case (Cons q qs)
  then show ?case using plan_ok [of p op_json sha q] by (fastforce simp: plan_calls_def)
qed (simp add: plan_calls_def)

lemma planner_new_ok: "prefix_ok (planner_new seed)" "pl_seed (planner_new seed) = seed"
  by (simp_all add: prefix_ok_def planner_new_def)

text \<open>
  The planner has no memory. Whatever plans were asked for before, in whatever order, the plan of a sequence
  number is the same: the operations of the ordinals that follow those of the sequence numbers before it,
  1, 10, 100 or 1,000 of them. The cache of row counts only saves work, and no branch of the
  planner is unreachable by accident.
\<close>
theorem planner_is_stateless:
  "fst (plan op_json sha sequence (plan_calls op_json sha qs (planner_new seed))) = Some (plan_spec op_json sha seed sequence) \<and>
   length (tp_operations (plan_spec op_json sha seed sequence)) \<in> {1, 10, 100, 1000}"
proof -
  let ?p = "plan_calls op_json sha qs (planner_new seed)"
  have p: "prefix_ok ?p" "pl_seed ?p = seed" using plan_calls_ok [OF planner_new_ok(1)] planner_new_ok(2) by simp_all
  then show ?thesis using plan_ok [OF p(1), of op_json sha sequence] transaction_size_cases [of seed sequence]
    by (auto simp: plan_spec_def Let_def)
qed

section \<open>The mix\<close>

lemma plans_in_order:
  "concat (map (\<lambda>k. tp_operations (plan_spec op_json sha seed (of_nat (Suc k)))) [0..<n]) = map (op_at seed) [0..<rows_upto seed n]"
  if "n < 2 ^ 64"
  using that
proof (induction n)
  case (Suc n)
  have "unat (of_nat (Suc n) :: u64) = Suc n" using Suc.prems by (intro of_nat_inverse_64) simp
  then have "tp_operations (plan_spec op_json sha seed (of_nat (Suc n))) = map (op_at seed) [rows_upto seed n..<rows_upto seed (Suc n)]"
    by (simp add: plan_spec_def Let_def)
  moreover have "[0..<rows_upto seed (Suc n)] = [0..<rows_upto seed n] @ [rows_upto seed n..<rows_upto seed (Suc n)]"
    using upt_add_eq_append [of 0 "rows_upto seed n"] by simp
  ultimately show ?case using Suc by (simp del: rows_upto.simps of_nat_Suc)
qed simp

lemma op_at_kind:
  assumes "g < 2 ^ 64"
  shows "is_insert (op_at seed g) \<longleftrightarrow> g mod 50 < 45" and "is_update (op_at seed g) \<longleftrightarrow> 45 \<le> g mod 50 \<and> g mod 50 < 49"
  using plan_operation_Some [of seed "of_nat g"] of_nat_inverse_64 [OF assms] by (auto simp: op_at_def)

definition mix_of_rows :: "nat \<Rightarrow> row_mix" where
  "mix_of_rows n =
     \<lparr>mx_inserts = of_nat (n div 50 * 45 + min (n mod 50) 45),
      mx_updates = of_nat (n div 50 * 4 + min (n mod 50 - 45) 4),
      mx_deletes = of_nat (n div 50)\<rparr>"

text \<open>
  The mix is exact. Over the plans of the sequence numbers 1 to n the row mix the harness counts is 45 inserts,
  4 updates and 1 delete in every 50 rows, in that order, and for the rows after the last full 50 as
  many of them as there are.
\<close>
theorem row_mix_is_exact:
  assumes "n \<le> 2 ^ 54"
  shows "row_mix_of (map (\<lambda>k. plan_spec op_json sha seed (of_nat (Suc k))) [0..<n]) = mix_of_rows (rows_upto seed n)"
proof -
  let ?step = "\<lambda>mix operation.
         if is_insert operation then mix\<lparr>mx_inserts := mx_inserts mix + 1\<rparr>
         else if is_update operation then mix\<lparr>mx_updates := mx_updates mix + 1\<rparr>
         else mix\<lparr>mx_deletes := mx_deletes mix + 1\<rparr>"
  have "foldl ?step \<lparr>mx_inserts = 0, mx_updates = 0, mx_deletes = 0\<rparr> (map (op_at seed) [0..<m]) = mix_of_rows m"
    if "m < 2 ^ 64" for m
    using that
  proof (induction m)
    case (Suc m)
    have k: "is_insert (op_at seed m) \<longleftrightarrow> m mod 50 < 45" "is_update (op_at seed m) \<longleftrightarrow> 45 \<le> m mod 50 \<and> m mod 50 < 49"
      using op_at_kind [of m seed] Suc.prems by simp_all
    show ?case
    proof (cases "m mod 50 = 49")
      case True
      then have "Suc m div 50 = Suc (m div 50)" "Suc m mod 50 = 0" by (simp_all add: div_Suc mod_Suc)
      then show ?thesis using Suc k True by (simp add: mix_of_rows_def)
    next
      case False
      then have "Suc m div 50 = m div 50" "Suc m mod 50 = Suc (m mod 50)" by (simp_all add: div_Suc mod_Suc)
      moreover have "m mod 50 < 49" using False mod_less_divisor [of 50 m] by linarith
      then consider "m mod 50 < 45" "min (Suc (m mod 50)) 45 = Suc (min (m mod 50) 45)" "min (Suc (m mod 50) - 45) 4 = min (m mod 50 - 45) 4"
        | "\<not> m mod 50 < 45" "m mod 50 < 49" "min (Suc (m mod 50)) 45 = min (m mod 50) 45" "min (Suc (m mod 50) - 45) 4 = Suc (min (m mod 50 - 45) 4)"
        by (cases "m mod 50 < 45") auto
      then have "mix_of_rows (Suc m) = ?step (mix_of_rows m) (op_at seed m)"
        by cases (simp_all only: mix_of_rows_def calculation k, simp_all)
      ultimately show ?thesis using Suc by simp
    qed
  qed (simp add: mix_of_rows_def)
  moreover have "rows_upto seed n \<le> 1000 * n"
  proof (induction n)
    case (Suc n)
    then show ?case using transaction_size_cases [of seed "of_nat (Suc n)"] by auto
  qed simp
  then have "rows_upto seed n < 2 ^ 64" using assms by simp
  ultimately show ?thesis using plans_in_order [of n op_json sha seed] assms by (simp add: row_mix_of_def comp_def)
qed

section \<open>A concrete workload\<close>

theorem inserted_ids_are_unique_witness:
  "\<exists>op op' key key'. plan_operation 20260901 0 = Some op \<and> plan_operation 20260901 1 = Some op' \<and>
    op_insert_id op = Some key \<and> op_insert_id op' = Some key' \<and> key \<noteq> key'"
proof -
  obtain op op' where o: "plan_operation 20260901 0 = Some op" "op_insert_id op = Some (inserted_key (insert_index 0))"
      "plan_operation 20260901 1 = Some op'" "op_insert_id op' = Some (inserted_key (insert_index 1))"
    using plan_operation_Some [of 20260901 0] plan_operation_Some [of 20260901 1] by auto
  moreover have "inserted_key (insert_index 0) \<noteq> inserted_key (insert_index 1)"
    using inserted_ids_are_unique [OF o(1,3,2)] o(4) by auto
  ultimately show ?thesis by blast
qed

theorem deletes_of_orders_never_inserted_witness:
  "\<exists>oid tenant. plan_operation 20260901 49 = Some (DeleteOrder oid tenant) \<and>
    (\<forall>h op. plan_operation 20260901 h = Some op \<longrightarrow> op_insert_id op \<noteq> Some (Orders, oid))"
  using deletes_of_orders_never_inserted [of 0 20260901] by simp

theorem row_mix_is_exact_witness:
  "row_mix_of (map (\<lambda>k. plan_spec (\<lambda>_. []) id 20260901 (of_nat (Suc k))) [0..<3]) = mix_of_rows (rows_upto 20260901 3)"
  using row_mix_is_exact [of 3 "\<lambda>_. []" id 20260901] by simp

end
