(* ===== verification/Writer.thy ===== *)
theory Writer
  imports ControlRepl Workload Ledger "HOL-Library.Multiset"
begin

text \<open>
  The transaction writer of the benchmark: \<open>IntentLog\<close> of \<open>crates/graydb-r1/src/ledger.rs\<close> and
  \<open>ApplicationWriter\<close> of \<open>replication.rs\<close>. PostgreSQL is the list of its answers to the statements sent, one
  each; the channel from the control stream is the list of what it will deliver. The marker query of the
  recovery connection is a parameter.
\<close>

section \<open>Intents\<close>

text \<open>The two files of an intent log, \<open>workload-intents.jsonl\<close> and \<open>sync_data\<close>.\<close>

record intent_log =
  il_file :: bytes
  il_sync :: bytes

text \<open>Open for appending, write a line, \<open>sync_data\<close>: the bytes of the file afterwards.\<close>

definition append_synced :: "io \<Rightarrow> bytes \<Rightarrow> bytes \<Rightarrow> (log_error + unit) \<times> bytes" where
  "append_synced w line bs =
     (if \<not> io_create w then (Err IoCreate, bs)
      else case io_write w of
        Some n \<Rightarrow> (Err IoWrite, bs @ take n (line @ [10]))
      | None \<Rightarrow> (if io_sync w then Ok () else Err IoSync, bs @ line @ [10]))"

definition intent_append ::
    "(transaction_plan \<Rightarrow> bytes) \<Rightarrow> io \<Rightarrow> io \<Rightarrow> transaction_plan \<Rightarrow> intent_log \<Rightarrow> (log_error + unit) \<times> intent_log" where
  "intent_append print w w' p il =
     (case append_synced w (print p) (il_file il) of
        (Inl e, bs) \<Rightarrow> (Err e, il\<lparr>il_file := bs\<rparr>)
      | (Inr _, bs) \<Rightarrow>
          (case append_synced w' (show_u64 (tp_sequence p)) (il_sync il) of
             (r, sync) \<Rightarrow> (r, il\<lparr>il_file := bs, il_sync := sync\<rparr>)))"

text \<open>\<open>BufRead::lines\<close>: the lines without their newline and a carriage return before it.\<close>

definition drop_cr :: "bytes \<Rightarrow> bytes" where
  "drop_cr l = (if l \<noteq> [] \<and> last l = 13 then butlast l else l)"

fun buf_lines :: "bytes \<Rightarrow> bytes \<Rightarrow> bytes list" where
  "buf_lines cur [] = (if cur = [] then [] else [cur])"
| "buf_lines cur (b # bs) = (if b = 10 then drop_cr cur # buf_lines [] bs else buf_lines (cur @ [b]) bs)"

datatype intents_error = IntentNotUtf8 | IntentNotJson

fun parse_lines :: "(bytes \<Rightarrow> 'a option) \<Rightarrow> bytes list \<Rightarrow> intents_error + 'a list" where
  "parse_lines parse [] = Ok []"
| "parse_lines parse (l # ls) =
     (if \<not> utf8_ok l then Err IntentNotUtf8
      else case parse l of
        None \<Rightarrow> Err IntentNotJson
      | Some x \<Rightarrow> res_bind (parse_lines parse ls) (\<lambda>xs. Ok (x # xs)))"

definition intents_read_all :: "(bytes \<Rightarrow> transaction_plan option) \<Rightarrow> intent_log option \<Rightarrow> intents_error + transaction_plan list" where
  "intents_read_all parse il = (case il of None \<Rightarrow> Ok [] | Some l \<Rightarrow> parse_lines parse (buf_lines [] (il_file l)))"

section \<open>The database\<close>

text \<open>A parameter: an \<open>i64\<close>, text, or the \<open>f64\<close> of an \<open>i64\<close>.\<close>

datatype sql_param = PInt i64 | PText rstr | PFloat i64

datatype statement =
    SetAsyncCommit
  | Begin
  | Execute rstr "sql_param list"
  | InsertMarker u64 rstr
  | InsertMarkerReturning u64 rstr
  | SelectTxid
  | Commit

text \<open>An answer: an error, or the text of the row, empty where the statement returns none.\<close>

record sql_client =
  sc_sent :: "statement list"
  sc_answers :: "rstr option list"

datatype writer_error =
    SqlError
  | BadTxid
  | NoXid
  | AlreadyCommitted u64
  | IntentFailed log_error
  | LedgerFailed "ledger_error lines_error"
  | MapperStopped
  | MappedHashMismatch
  | MappingBehind u64 u64
  | DuplicateMapping
  | XidMismatch
  | StillUnknown
  | MappingMissing
  | EntryMissing u64
  | RecoveryFailed
  | PlannerPanic
  | RateError

definition sql_exec :: "statement \<Rightarrow> sql_client \<Rightarrow> (writer_error + rstr) \<times> sql_client" where
  "sql_exec s c =
     (let c = c\<lparr>sc_sent := sc_sent c @ [s]\<rparr>
      in case sc_answers c of
           [] \<Rightarrow> (Err SqlError, c)
         | a # as \<Rightarrow> (case a of None \<Rightarrow> Err SqlError | Some x \<Rightarrow> Ok x, c\<lparr>sc_answers := as\<rparr>))"

definition PUnsigned :: "u64 \<Rightarrow> sql_param" where "PUnsigned n = PInt n"

fun operation_sql :: "operation \<Rightarrow> statement" where
  "operation_sql (InsertCustomer r) =
     Execute (str ''INSERT INTO r1.customers (customer_id, tenant_id, segment, email_domain, profile, created_at) VALUES ($1,$2,$3,$4,$5::text::jsonb,to_timestamp($6::double precision / 1000000))'')
       [PUnsigned (ac_id r), PUnsigned (ac_tenant r), PText (ac_segment r), PText (ac_email_domain r), PText (ac_profile r), PFloat (ac_created r)]"
| "operation_sql (InsertOrder r) =
     Execute (str ''INSERT INTO r1.orders (order_id, tenant_id, customer_id, status, channel, amount_cents, created_at, updated_at, attributes) VALUES ($1,$2,$3,$4,$5,$6,to_timestamp($7::double precision / 1000000),to_timestamp($8::double precision / 1000000),$9::text::jsonb)'')
       [PUnsigned (ao_id r), PUnsigned (ao_tenant r), PUnsigned (ao_customer r), PText (ao_status r), PText (ao_channel r), PInt (ao_amount r),
        PFloat (ao_created r), PFloat (ao_updated r), PText (ao_attributes r)]"
| "operation_sql (InsertOrderEvent r) =
     Execute (str ''INSERT INTO r1.order_events (event_id, order_id, tenant_id, event_type, event_at, metadata) VALUES ($1,$2,$3,$4,to_timestamp($5::double precision / 1000000),$6::text::jsonb)'')
       [PUnsigned (ae_id r), PUnsigned (ae_order r), PUnsigned (ae_tenant r), PText (ae_type r), PFloat (ae_at r), PText (ae_metadata r)]"
| "operation_sql (UpdateCustomer r) =
     Execute (str ''UPDATE r1.customers SET tenant_id=$2, segment=$3, email_domain=$4, profile=$5::text::jsonb, created_at=to_timestamp($6::double precision / 1000000) WHERE customer_id=$1'')
       [PUnsigned (ac_id r), PUnsigned (ac_tenant r), PText (ac_segment r), PText (ac_email_domain r), PText (ac_profile r), PFloat (ac_created r)]"
| "operation_sql (UpdateOrder r) =
     Execute (str ''UPDATE r1.orders SET tenant_id=$2, customer_id=$3, status=$4, channel=$5, amount_cents=$6, created_at=to_timestamp($7::double precision / 1000000), updated_at=to_timestamp($8::double precision / 1000000), attributes=$9::text::jsonb WHERE order_id=$1'')
       [PUnsigned (ao_id r), PUnsigned (ao_tenant r), PUnsigned (ao_customer r), PText (ao_status r), PText (ao_channel r), PInt (ao_amount r),
        PFloat (ao_created r), PFloat (ao_updated r), PText (ao_attributes r)]"
| "operation_sql (DeleteOrder oid tenant) =
     Execute (str ''DELETE FROM r1.orders WHERE order_id=$1 AND tenant_id=$2'') [PUnsigned oid, PUnsigned tenant]"
| "operation_sql (DeleteOrderEvent eid oid tenant) =
     Execute (str ''DELETE FROM r1.order_events WHERE event_id=$1 AND order_id=$2 AND tenant_id=$3'')
       [PUnsigned eid, PUnsigned oid, PUnsigned tenant]"

fun execute_operations :: "operation list \<Rightarrow> sql_client \<Rightarrow> (writer_error + unit) \<times> sql_client" where
  "execute_operations [] c = (Ok (), c)"
| "execute_operations (p # ps) c = st_bind (sql_exec (operation_sql p) c) (\<lambda>_ c. execute_operations ps c)"

section \<open>The writer\<close>

record app_writer =
  aw_client :: sql_client
  aw_planner :: planner
  aw_intents :: intent_log
  aw_ledger :: ledger
  aw_ledger_file :: bytes
  aw_mapped :: "ledger_commit list"
  aw_pending_maps :: "(u64 \<times> ledger_commit) list"

text \<open>
  What surrounds the writer: the JSON of a plan and of a ledger entry, SHA-256, the JSON of operations, the
  recovery connection, the clock, and the outcome of each file call. The answer of the recovery connection
  is what it finds for a plan's sequence number in the marker table (\<open>None\<close>: the query failed).
\<close>

record writer_env =
  we_plan_print :: "transaction_plan \<Rightarrow> bytes"
  we_ops_print :: "operation list \<Rightarrow> bytes"
  we_ledger_codec :: "ledger_entry json_codec"
  we_sha :: "bytes \<Rightarrow> bytes"
  we_marker_row :: "u64 \<Rightarrow> rstr option option"
  we_now :: u128
  we_intent_io :: io
  we_sync_io :: io
  we_ledger_io :: io

definition classify_committed_plan :: "writer_env \<Rightarrow> transaction_plan \<Rightarrow> writer_error + commit_state" where
  "classify_committed_plan env p =
     (case we_marker_row env (tp_sequence p) of
        None \<Rightarrow> Err RecoveryFailed
      | Some (Some h) \<Rightarrow> if h = tp_sha p then Ok Committed else Err RecoveryFailed
      | Some None \<Rightarrow> Ok UnknownCommit)"

definition ledger_classify_plan :: "transaction_plan \<Rightarrow> app_writer \<Rightarrow> writer_error + unit" where
  "ledger_classify_plan p w =
     (case ledger_classify (tp_sequence p) (tp_sha p) (aw_ledger w) of
        Committed \<Rightarrow> Err (AlreadyCommitted (tp_sequence p)) | UnknownCommit \<Rightarrow> Ok ())"

text \<open>\<open>u32::from_str\<close>.\<close>

definition parse_txid :: "rstr \<Rightarrow> writer_error + u32" where
  "parse_txid s = (case parse_unsigned 10 (2 ^ 32) s of None \<Rightarrow> Err BadTxid | Some n \<Rightarrow> Ok (of_nat n))"

definition on_client :: "(writer_error + 'a) \<times> sql_client \<Rightarrow> app_writer \<Rightarrow> (writer_error + 'a) \<times> app_writer" where
  "on_client r w = (fst r, w\<lparr>aw_client := snd r\<rparr>)"

definition record_intent :: "writer_env \<Rightarrow> transaction_plan \<Rightarrow> app_writer \<Rightarrow> (writer_error + unit) \<times> app_writer" where
  "record_intent env p w =
     (case intent_append (we_plan_print env) (we_intent_io env) (we_sync_io env) p (aw_intents w) of
        (r, il) \<Rightarrow> (case r of Inl e \<Rightarrow> Err (IntentFailed e) | Inr _ \<Rightarrow> Ok (), w\<lparr>aw_intents := il\<rparr>))"

text \<open>
  One plan in one transaction. \<open>sc_sent\<close> holds what this function sends: when a call fails, the transaction of
  \<open>tokio_postgres\<close> is dropped and sends a ROLLBACK of its own, which is no statement of the plan and is not kept.
\<close>

definition submit_plan :: "writer_env \<Rightarrow> transaction_plan \<Rightarrow> app_writer \<Rightarrow> (writer_error + u32) \<times> app_writer" where
  "submit_plan env p w =
     st_bind (ledger_classify_plan p w, w) (\<lambda>_ w.
     st_bind (record_intent env p w) (\<lambda>_ w.
     st_bind (on_client (sql_exec Begin (aw_client w)) w) (\<lambda>_ w.
     st_bind (on_client (execute_operations (tp_operations p) (aw_client w)) w) (\<lambda>_ w.
     st_bind (on_client (sql_exec (InsertMarker (tp_sequence p) (tp_sha p)) (aw_client w)) w) (\<lambda>_ w.
     st_bind (on_client (sql_exec SelectTxid (aw_client w)) w) (\<lambda>xid w.
     st_bind (on_client (sql_exec Commit (aw_client w)) w) (\<lambda>_ w.
     (parse_txid xid, w))))))))"

text \<open>
  \<open>wait_for_mapping\<close>. The list of the channel ends when its sender is gone; where it would wait for ever the
  model says the mapper stopped.
\<close>

definition check_mapped :: "rstr \<Rightarrow> ledger_commit \<Rightarrow> writer_error + ledger_commit" where
  "check_mapped hash m = (if lc_operation m = hash then Ok m else Err MappedHashMismatch)"

fun wait_loop ::
    "u64 \<Rightarrow> rstr \<Rightarrow> ledger_commit list \<Rightarrow> (u64 \<times> ledger_commit) list \<Rightarrow>
      (writer_error + ledger_commit) \<times> ledger_commit list \<times> (u64 \<times> ledger_commit) list" where
  "wait_loop sequence hash [] pm = (Err MapperStopped, [], pm)"
| "wait_loop sequence hash (m # ms) pm =
     (if lc_sequence m = sequence then (check_mapped hash m, ms, pm)
      else if lc_sequence m < sequence then (Err (MappingBehind (lc_sequence m) sequence), ms, pm)
      else if map_of pm (lc_sequence m) \<noteq> None then (Err DuplicateMapping, ms, bt_insert (lc_sequence m) m pm)
      else wait_loop sequence hash ms (bt_insert (lc_sequence m) m pm))"

definition wait_for_mapping :: "u64 \<Rightarrow> rstr \<Rightarrow> app_writer \<Rightarrow> (writer_error + ledger_commit) \<times> app_writer" where
  "wait_for_mapping sequence hash w =
     (case map_of (aw_pending_maps w) sequence of
        Some m \<Rightarrow> (check_mapped hash m, w\<lparr>aw_pending_maps := filter (\<lambda>(k, _). k \<noteq> sequence) (aw_pending_maps w)\<rparr>)
      | None \<Rightarrow>
          (case wait_loop sequence hash (aw_mapped w) (aw_pending_maps w) of
             (r, ms, pm) \<Rightarrow> (r, w\<lparr>aw_mapped := ms, aw_pending_maps := pm\<rparr>)))"

definition mapped_entry :: "writer_env \<Rightarrow> ledger_commit \<Rightarrow> ledger \<Rightarrow> ledger_entry" where
  "mapped_entry env m L =
     \<lparr>le_sequence = lc_sequence m, le_xid = lc_xid m, le_source_lsn = lc_source_lsn m, le_operation = lc_operation m,
      le_committed = we_now env, le_previous = last_hash (lf_entries L), le_hash = []\<rparr>"

definition append_mapped :: "writer_env \<Rightarrow> ledger_commit \<Rightarrow> app_writer \<Rightarrow> (writer_error + unit) \<times> app_writer" where
  "append_mapped env m w =
     (case ledger_append (we_sha env) (we_ledger_codec env) (we_ledger_io env) (mapped_entry env m (aw_ledger w)) (aw_ledger_file w) (aw_ledger w) of
        (r, bs, L) \<Rightarrow> (case r of Inl e \<Rightarrow> Err (LedgerFailed e) | Inr _ \<Rightarrow> Ok (), w\<lparr>aw_ledger := L, aw_ledger_file := bs\<rparr>))"

definition recover_and_record :: "writer_env \<Rightarrow> transaction_plan \<Rightarrow> app_writer \<Rightarrow> (writer_error + ledger_commit) \<times> app_writer" where
  "recover_and_record env p w =
     st_bind (classify_committed_plan env p, w) (\<lambda>state w.
     case state of
       UnknownCommit \<Rightarrow> (Err StillUnknown, w)
     | Committed \<Rightarrow>
         st_bind (wait_for_mapping (tp_sequence p) (tp_sha p) w) (\<lambda>m w.
         st_bind (append_mapped env m w) (\<lambda>_ w. (Ok m, w))))"

definition execute_and_record :: "writer_env \<Rightarrow> transaction_plan \<Rightarrow> app_writer \<Rightarrow> (writer_error + ledger_commit) \<times> app_writer" where
  "execute_and_record env p w =
     st_bind (ledger_classify_plan p w, w) (\<lambda>_ w.
     case submit_plan env p w of
       (Inl _, w) \<Rightarrow> recover_and_record env p w
     | (Inr xid, w) \<Rightarrow>
         st_bind (wait_for_mapping (tp_sequence p) (tp_sha p) w) (\<lambda>m w.
         st_bind (ensure (lc_xid m = xid) XidMismatch, w) (\<lambda>_ w.
         st_bind (append_mapped env m w) (\<lambda>_ w. (Ok m, w)))))"

section \<open>The pipelined run\<close>

datatype statement_output = OutUnit | OutXid u32

definition plan_statements :: "transaction_plan \<Rightarrow> statement list" where
  "plan_statements p =
     [Begin] @ map operation_sql (tp_operations p) @ [InsertMarkerReturning (tp_sequence p) (tp_sha p), Commit]"

definition statement_result :: "statement \<Rightarrow> writer_error + rstr \<Rightarrow> writer_error + statement_output" where
  "statement_result s r =
     res_bind r (\<lambda>text. case s of InsertMarkerReturning _ _ \<Rightarrow> res_bind (parse_txid text) (\<lambda>x. Ok (OutXid x)) | _ \<Rightarrow> Ok OutUnit)"

fun exec_all :: "statement list \<Rightarrow> sql_client \<Rightarrow> (writer_error + statement_output) list \<times> sql_client" where
  "exec_all [] c = ([], c)"
| "exec_all (s # ss) c =
     (case sql_exec s c of (r, c) \<Rightarrow> (case exec_all ss c of (rs, c) \<Rightarrow> (statement_result s r # rs, c)))"

text \<open>The walk over the results of one plan: the last xid and the last failure.\<close>

fun walk_results ::
    "(writer_error + statement_output) list \<Rightarrow> u32 option \<Rightarrow> writer_error option \<Rightarrow> u32 option \<times> writer_error option" where
  "walk_results [] xid failure = (xid, failure)"
| "walk_results (r # rs) xid failure =
     (case r of
        Inr OutUnit \<Rightarrow> walk_results rs xid failure
      | Inr (OutXid v) \<Rightarrow> walk_results rs (Some v) failure
      | Inl e \<Rightarrow> walk_results rs xid (Some e))"

definition plan_outcome :: "(writer_error + statement_output) list \<Rightarrow> writer_error + u32" where
  "plan_outcome rs =
     (case walk_results rs None None of
        (_, Some e) \<Rightarrow> Err e | (Some xid, None) \<Rightarrow> Ok xid | (None, None) \<Rightarrow> Err NoXid)"

fun pair_results :: "transaction_plan list \<Rightarrow> (writer_error + statement_output) list \<Rightarrow> (writer_error + u32) list" where
  "pair_results [] rs = []"
| "pair_results (p # ps) rs =
     (let n = length (tp_operations p) + 3 in plan_outcome (take n rs) # pair_results ps (drop n rs))"

definition exec_phase :: "transaction_plan list option \<Rightarrow> app_writer \<Rightarrow> (writer_error + u32) list \<times> app_writer" where
  "exec_phase pending w =
     (case pending of
        None \<Rightarrow> ([], w)
      | Some ps \<Rightarrow>
          (case exec_all (concat (map plan_statements ps)) (aw_client w) of
             (rs, c) \<Rightarrow> (pair_results ps rs, w\<lparr>aw_client := c\<rparr>)))"

text \<open>A receive with a timeout; the list says which of them time out. \<open>Ok None\<close>: it did.\<close>

definition recv_mapped :: "bool list \<Rightarrow> app_writer \<Rightarrow> (writer_error + ledger_commit option) \<times> bool list \<times> app_writer" where
  "recv_mapped timeouts w =
     (if timeouts \<noteq> [] \<and> hd timeouts then (Ok None, tl timeouts, w)
      else case aw_mapped w of
        [] \<Rightarrow> (Err MapperStopped, tl timeouts, w)
      | m # ms \<Rightarrow> (Ok (Some m), tl timeouts, w\<lparr>aw_mapped := ms\<rparr>))"

definition skip_uncommitted :: "writer_env \<Rightarrow> transaction_plan \<Rightarrow> writer_error + unit" where
  "skip_uncommitted env p =
     res_bind (classify_committed_plan env p) (\<lambda>s. case s of Committed \<Rightarrow> Err MappingMissing | UnknownCommit \<Rightarrow> Ok ())"

fun map_phase :: "writer_env \<Rightarrow> transaction_plan list \<Rightarrow> ledger_commit option \<Rightarrow> bool list \<Rightarrow> app_writer \<Rightarrow> (writer_error + unit) \<times> app_writer" where
  "map_phase env [] carried timeouts w = (Ok (), w)"
| "map_phase env (p # ps) carried timeouts w =
     (case (case carried of Some m \<Rightarrow> (Ok (Some m), timeouts, w) | None \<Rightarrow> recv_mapped timeouts w) of
        (Inl e, _, w) \<Rightarrow> (Err e, w)
      | (Inr None, timeouts, w) \<Rightarrow> st_bind (skip_uncommitted env p, w) (\<lambda>_ w. map_phase env ps None timeouts w)
      | (Inr (Some m), timeouts, w) \<Rightarrow>
          if lc_sequence m = tp_sequence p
          then st_bind (ensure (lc_operation m = tp_sha p) MappedHashMismatch, w) (\<lambda>_ w.
               st_bind (append_mapped env m w) (\<lambda>_ w. map_phase env ps None timeouts w))
          else st_bind (skip_uncommitted env p, w) (\<lambda>_ w. map_phase env ps (Some m) timeouts w))"

text \<open>The guards of \<open>RateLimiter::acquire\<close> with a burst of 1,000 rows; the waiting itself is left out.\<close>

definition acquire :: "u64 \<Rightarrow> nat \<Rightarrow> writer_error + unit" where
  "acquire rate rows = (if rows = 0 then Ok () else if rate = 0 \<or> 1000 < rows then Err RateError else Ok ())"

fun fill_phase ::
    "writer_env \<Rightarrow> u64 \<Rightarrow> nat \<Rightarrow> u64 \<Rightarrow> transaction_plan list \<Rightarrow> app_writer \<Rightarrow> (writer_error + transaction_plan list \<times> u64) \<times> app_writer" where
  "fill_phase env rate 0 next chunk w = (Ok (chunk, next), w)"
| "fill_phase env rate (Suc n) next chunk w =
     (case plan (we_ops_print env) (we_sha env) next (aw_planner w) of
        (None, pl) \<Rightarrow> (Err PlannerPanic, w\<lparr>aw_planner := pl\<rparr>)
      | (Some p, pl) \<Rightarrow>
          st_bind (acquire rate (length (tp_operations p)), w\<lparr>aw_planner := pl\<rparr>) (\<lambda>_ w.
          st_bind (record_intent env p w) (\<lambda>_ w.
          fill_phase env rate n (next + 1) (chunk @ [p]) w)))"

fun cross_verify :: "(transaction_plan \<times> (writer_error + u32)) list \<Rightarrow> ledger_entry list \<Rightarrow> writer_error + unit" where
  "cross_verify [] es = Ok ()"
| "cross_verify ((p, r) # ps) es =
     (case r of
        Inl _ \<Rightarrow> cross_verify ps es
      | Inr xid \<Rightarrow>
          res_bind (need (find (\<lambda>e. le_sequence e = tp_sequence p) es) (EntryMissing (tp_sequence p))) (\<lambda>e.
          res_bind (ensure (le_xid e = xid) XidMismatch) (\<lambda>_. cross_verify ps es)))"

definition chunk_size :: "u64 \<Rightarrow> nat" where
  "chunk_size rate = unat (max 64 (min 2048 (rate div 2)))"

type_synonym pending_chunk = "(transaction_plan \<times> (writer_error + u32)) list option"

text \<open>
  One turn of the loop: whether \<open>stop\<close> is set at its head, and which receives time out. \<open>try_join!\<close> runs the
  three phases at once over disjoint fields; here they run one after the other. An error of one ends the
  turn, and the writer, while the code may cut the others short.
\<close>

record turn =
  tn_stop :: bool
  tn_timeouts :: "bool list"

fun run_loop :: "writer_env \<Rightarrow> u64 \<Rightarrow> turn list \<Rightarrow> pending_chunk \<Rightarrow> u64 \<Rightarrow> app_writer \<Rightarrow> (writer_error + bool) \<times> app_writer" where
  "run_loop env rate [] pending next w = (Ok True, w)"
| "run_loop env rate (i # is) pending next w =
     (if pending = None \<and> tn_stop i then (Ok False, w)
      else
        let plans = map_option (map fst) pending;
            (executed, w) = exec_phase plans w;
            (mapped, w) = (case plans of None \<Rightarrow> (Ok (), w) | Some ps \<Rightarrow> map_phase env ps None (tn_timeouts i) w);
            (filled, w) = (if tn_stop i then (Ok ([], next), w) else fill_phase env rate (chunk_size rate) next [] w)
        in st_bind (mapped, w) (\<lambda>_ w.
           st_bind (filled, w) (\<lambda>(chunk, next) w.
           st_bind (case plans of None \<Rightarrow> Ok () | Some ps \<Rightarrow> cross_verify (zip ps executed) (lf_entries (aw_ledger w)), w) (\<lambda>_ w.
           if tn_stop i then (Ok False, w) else run_loop env rate is (Some (zip chunk executed)) next w))))"

definition run_writer :: "writer_env \<Rightarrow> u64 \<Rightarrow> turn list \<Rightarrow> app_writer \<Rightarrow> (writer_error + bool) \<times> app_writer" where
  "run_writer env rate is w =
     st_bind (on_client (sql_exec SetAsyncCommit (aw_client w)) w) (\<lambda>_ w.
     run_loop env rate is None (next_sequence (lf_entries (aw_ledger w))) w)"

section \<open>The pipelined run executes nothing\<close>

lemma record_intent_frame:
  "record_intent env p w = (r, w') \<Longrightarrow> aw_client w' = aw_client w \<and> aw_ledger w' = aw_ledger w \<and> aw_ledger_file w' = aw_ledger_file w \<and>
    aw_mapped w' = aw_mapped w \<and> aw_planner w' = aw_planner w"
  by (auto simp: record_intent_def split: prod.splits)

lemma fill_phase_frame:
  "fill_phase env rate n next chunk w = (r, w') \<Longrightarrow> aw_client w' = aw_client w \<and> aw_ledger w' = aw_ledger w \<and>
    aw_ledger_file w' = aw_ledger_file w \<and> aw_mapped w' = aw_mapped w"
proof (induction env rate n "next" chunk w arbitrary: r w' rule: fill_phase.induct)
  case (2 env rate n "next" chunk w)
  obtain q pl where q: "plan (we_ops_print env) (we_sha env) next (aw_planner w) = (q, pl)" by (rule prod.exhaust)
  show ?case
  proof (cases q)
    case None
    then show ?thesis using 2(2) q by auto
  next
    case (Some p)
    let ?w = "w\<lparr>aw_planner := pl\<rparr>"
    obtain x w1 where x: "record_intent env p ?w = (x, w1)" by (rule prod.exhaust)
    note fr = record_intent_frame [OF x]
    show ?thesis
    proof (cases "acquire rate (length (tp_operations p))")
      case (Inl e)
      then show ?thesis using 2(2) q Some by auto
    next
      case (Inr u)
      show ?thesis
      proof (cases x)
        case (Inl e)
        then show ?thesis using 2(2) q Some Inr x fr by auto
      next
        case (Inr v)
        then have "fill_phase env rate n (next + 1) (chunk @ [p]) w1 = (r, w')"
          using 2(2) q Some \<open>acquire rate (length (tp_operations p)) = Inr u\<close> x by simp
        then show ?thesis using 2(1) [OF q [symmetric] Some] fr by fastforce
      qed
    qed
  qed
qed simp

text \<open>With no chunk executed yet the pending chunk is empty, and stays empty.\<close>

lemma run_loop_idle:
  "pending = None \<or> pending = Some [] \<Longrightarrow> run_loop env rate is pending next w = (r, w') \<Longrightarrow>
    aw_client w' = aw_client w \<and> aw_ledger w' = aw_ledger w \<and> aw_ledger_file w' = aw_ledger_file w \<and> aw_mapped w' = aw_mapped w"
proof (induction "is" arbitrary: pending "next" w)
  case (Cons i "is")
  obtain f w1 where f: "(if tn_stop i then (Ok ([], next), w) else fill_phase env rate (chunk_size rate) next [] w) = (f, w1)"
    by (rule prod.exhaust)
  have fr: "aw_client w1 = aw_client w \<and> aw_ledger w1 = aw_ledger w \<and> aw_ledger_file w1 = aw_ledger_file w \<and> aw_mapped w1 = aw_mapped w"
    using f fill_phase_frame by (auto split: if_splits)
  show ?case
  proof (cases "pending = None \<and> tn_stop i")
    case False
    have r: "(r, w') = st_bind (f, w1) (\<lambda>(chunk, next) w.
        if tn_stop i then (Ok False, w) else run_loop env rate is (Some (zip chunk [])) next w)"
      using Cons.prems(1)
    proof
      assume "pending = None"
      then show ?thesis using Cons.prems(2) f False by (cases f) (auto simp: exec_phase_def)
    next
      assume "pending = Some []"
      then show ?thesis using Cons.prems(2) f False by (cases f) (auto simp: exec_phase_def)
    qed
    show ?thesis
    proof (cases f)
      case (Inl err)
      then show ?thesis using r fr by simp
    next
      case (Inr cn)
      then show ?thesis using r fr Cons.IH [of "Some []"] by (cases cn) (auto split: if_splits)
    qed
  qed (use Cons.prems(2) in simp)
qed simp

text \<open>
  C37. The pipelined writer never executes a plan. Whatever the database answers, the channel delivers and the rate,
  the only statement \<open>run\<close> ever sends is the one that relaxes \<open>synchronous_commit\<close>, and the ledger, its file
  and the channel stay as they were: the chunk kept for the next turn is the plans zipped with the results
  of the previous turn, of which there are none.
\<close>
theorem pipelined_writer_executes_nothing:
  assumes "run_writer env rate is w = (r, w')"
  shows "sc_sent (aw_client w') = sc_sent (aw_client w) @ [SetAsyncCommit] \<and> aw_ledger w' = aw_ledger w \<and>
    aw_ledger_file w' = aw_ledger_file w \<and> aw_mapped w' = aw_mapped w"
proof -
  obtain q c where q: "sql_exec SetAsyncCommit (aw_client w) = (q, c)" by (rule prod.exhaust)
  then have c: "sc_sent c = sc_sent (aw_client w) @ [SetAsyncCommit]" by (auto simp: sql_exec_def Let_def split: list.splits)
  show ?thesis
  proof (cases q)
    case (Inl e)
    then show ?thesis using assms q c by (auto simp: run_writer_def on_client_def)
  next
    case (Inr x)
    then have "run_loop env rate is None (next_sequence (lf_entries (aw_ledger w))) (w\<lparr>aw_client := c\<rparr>) = (r, w')"
      using assms q by (simp add: run_writer_def on_client_def)
    from run_loop_idle [OF _ this] show ?thesis using c by simp
  qed
qed

section \<open>Its intents are recorded all the same\<close>

lemma record_intent_fine:
  "we_intent_io env = io_fine \<Longrightarrow> we_sync_io env = io_fine \<Longrightarrow>
    \<exists>il. record_intent env p w = (Ok (), w\<lparr>aw_intents := il\<rparr>) \<and> il_file il = il_file (aw_intents w) @ we_plan_print env p @ [10]"
  by (simp add: record_intent_def intent_append_def append_synced_def io_fine_def) (rule exI, rule conjI, rule refl, simp)

lemma fill_phase_plans:
  assumes "we_intent_io env = io_fine" and "we_sync_io env = io_fine" and "rate \<noteq> 0"
  shows "prefix_ok (aw_planner w) \<Longrightarrow> \<exists>ps w' next'. fill_phase env rate n next chunk w = (Ok (chunk @ ps, next'), w') \<and> length ps = n \<and>
    prefix_ok (aw_planner w') \<and> il_file (aw_intents w') = il_file (aw_intents w) @ concat (map (\<lambda>p. we_plan_print env p @ [10]) ps)"
proof (induction n arbitrary: "next" chunk w)
  case (Suc n)
  obtain pl where pl: "plan (we_ops_print env) (we_sha env) next (aw_planner w) =
      (Some (plan_spec (we_ops_print env) (we_sha env) (pl_seed (aw_planner w)) next), pl)" "prefix_ok pl"
    using plan_ok [OF Suc.prems] by blast
  let ?p = "plan_spec (we_ops_print env) (we_sha env) (pl_seed (aw_planner w)) next"
  have "length (tp_operations ?p) \<in> {1, 10, 100, 1000}" using transaction_size_cases by (simp add: plan_spec_def Let_def)
  then have "acquire rate (length (tp_operations ?p)) = Ok ()" using assms(3) by (auto simp: acquire_def)
  moreover obtain il where il: "record_intent env ?p (w\<lparr>aw_planner := pl\<rparr>) = (Ok (), (w\<lparr>aw_planner := pl\<rparr>)\<lparr>aw_intents := il\<rparr>)"
      "il_file il = il_file (aw_intents w) @ we_plan_print env ?p @ [10]"
    using record_intent_fine [OF assms(1,2), of ?p "w\<lparr>aw_planner := pl\<rparr>"] by auto
  moreover obtain ps w' next' where ps: "fill_phase env rate n (next + 1) (chunk @ [?p]) ((w\<lparr>aw_planner := pl\<rparr>)\<lparr>aw_intents := il\<rparr>) =
        (Ok ((chunk @ [?p]) @ ps, next'), w')" "length ps = n" "prefix_ok (aw_planner w')"
      "il_file (aw_intents w') = il_file il @ concat (map (\<lambda>p. we_plan_print env p @ [10]) ps)"
    using Suc.IH [of "(w\<lparr>aw_planner := pl\<rparr>)\<lparr>aw_intents := il\<rparr>" "next + 1" "chunk @ [?p]"] pl(2) by auto
  ultimately have "fill_phase env rate (Suc n) next chunk w = (Ok (chunk @ ?p # ps, next'), w')" using pl(1) by simp
  then show ?case using ps il(2) by (intro exI [of _ "?p # ps"] exI [of _ w'] exI [of _ next']) simp
qed simp

lemma run_loop_intents:
  assumes "we_intent_io env = io_fine" and "we_sync_io env = io_fine" and "rate \<noteq> 0"
  shows "pending = None \<or> pending = Some [] \<Longrightarrow> prefix_ok (aw_planner w) \<Longrightarrow> \<forall>i \<in> set is. \<not> tn_stop i \<Longrightarrow>
    \<exists>ps w'. run_loop env rate is pending next w = (Ok True, w') \<and> length ps = length is * chunk_size rate \<and>
      il_file (aw_intents w') = il_file (aw_intents w) @ concat (map (\<lambda>p. we_plan_print env p @ [10]) ps)"
proof (induction "is" arbitrary: pending "next" w)
  case (Cons i "is")
  obtain ps w1 next1 where f: "fill_phase env rate (chunk_size rate) next [] w = (Ok (ps, next1), w1)" "length ps = chunk_size rate"
      "prefix_ok (aw_planner w1)" "il_file (aw_intents w1) = il_file (aw_intents w) @ concat (map (\<lambda>p. we_plan_print env p @ [10]) ps)"
    using fill_phase_plans [OF assms Cons.prems(2), of "chunk_size rate" "next" "[]"] by auto
  have "run_loop env rate (i # is) pending next w = run_loop env rate is (Some []) next1 w1"
    using Cons.prems(1)
  proof
    assume "pending = None"
    then show ?thesis using f(1) Cons.prems(3) by (simp add: exec_phase_def)
  next
    assume "pending = Some []"
    then show ?thesis using f(1) Cons.prems(3) by (simp add: exec_phase_def)
  qed
  moreover obtain qs w' where "run_loop env rate is (Some []) next1 w1 = (Ok True, w')" "length qs = length is * chunk_size rate"
      "il_file (aw_intents w') = il_file (aw_intents w1) @ concat (map (\<lambda>p. we_plan_print env p @ [10]) qs)"
    using Cons.IH [of "Some []" w1 next1] f(3) Cons.prems(3) by auto
  ultimately show ?case using f(2,4) by (intro exI [of _ "ps @ qs"] exI [of _ w']) simp
qed simp

text \<open>
  It looks busy. With a planner in order and no failing file, every turn of the pipelined run succeeds and
  records a whole chunk of intents, 64 to 2,048 plans, none of which is ever executed.
\<close>
theorem pipelined_writer_records_intents:
  assumes "we_intent_io env = io_fine" and "we_sync_io env = io_fine" and "rate \<noteq> 0" and "prefix_ok (aw_planner w)"
    and "\<forall>i \<in> set is. \<not> tn_stop i" and "sc_answers (aw_client w) = Some x # as"
  shows "\<exists>ps w'. run_writer env rate is w = (Ok True, w') \<and> length ps = length is * chunk_size rate \<and>
    64 \<le> chunk_size rate \<and> chunk_size rate \<le> 2048 \<and>
    il_file (aw_intents w') = il_file (aw_intents w) @ concat (map (\<lambda>p. we_plan_print env p @ [10]) ps)"
proof -
  let ?w = "w\<lparr>aw_client := (aw_client w)\<lparr>sc_sent := sc_sent (aw_client w) @ [SetAsyncCommit], sc_answers := as\<rparr>\<rparr>"
  have "run_writer env rate is w = run_loop env rate is None (next_sequence (lf_entries (aw_ledger w))) ?w"
    using assms(6) by (simp add: run_writer_def on_client_def sql_exec_def Let_def)
  moreover have "64 \<le> chunk_size rate" "chunk_size rate \<le> 2048"
    by (auto simp: chunk_size_def max_def min_def word_le_nat_alt not_le word_less_nat_alt)
  moreover have "prefix_ok (aw_planner ?w)" using assms(4) by simp
  ultimately show ?thesis
    using run_loop_intents [OF assms(1-3) disjI1 [OF refl] _ assms(5), of ?w "next_sequence (lf_entries (aw_ledger w))"] by auto
qed

section \<open>A plan is sent at most once\<close>

definition plan_script :: "transaction_plan \<Rightarrow> statement list" where
  "plan_script p = Begin # map operation_sql (tp_operations p) @ [InsertMarker (tp_sequence p) (tp_sha p), SelectTxid, Commit]"

lemma sql_exec_sent: "sql_exec s c = (r, c') \<Longrightarrow> sc_sent c' = sc_sent c @ [s]"
  by (auto simp: sql_exec_def Let_def split: list.splits)

lemma execute_operations_sent:
  "execute_operations ps c = (r, c') \<Longrightarrow>
    \<exists>sent rest. sc_sent c' = sc_sent c @ sent \<and> map operation_sql ps = sent @ rest \<and> (is_ok r \<longrightarrow> rest = [])"
proof (induction ps arbitrary: c)
  case (Cons p ps)
  obtain q c1 where q: "sql_exec (operation_sql p) c = (q, c1)" by (rule prod.exhaust)
  note s = sql_exec_sent [OF q]
  show ?case
  proof (cases q)
    case (Inl e)
    then show ?thesis using Cons.prems q s by auto
  next
    case (Inr x)
    then have "execute_operations ps c1 = (r, c')" using Cons.prems q by simp
    from Cons.IH [OF this] obtain sent rest where
      "sc_sent c' = sc_sent c1 @ sent" "map operation_sql ps = sent @ rest" "is_ok r \<longrightarrow> rest = []" by blast
    then show ?thesis using s by (intro exI [of _ "operation_sql p # sent"] exI [of _ rest]) simp
  qed
qed auto

lemma submit_plan_sent:
  assumes "submit_plan env p w = (r, w')"
  shows "\<exists>sent rest. sc_sent (aw_client w') = sc_sent (aw_client w) @ sent \<and> plan_script p = sent @ rest \<and>
    (is_ok r \<longrightarrow> rest = []) \<and> aw_ledger w' = aw_ledger w \<and> aw_pending_maps w' = aw_pending_maps w"
proof (cases "ledger_classify_plan p w")
  case (Inl e)
  then show ?thesis using assms by (auto simp: submit_plan_def)
next
  case new: (Inr u)
  obtain q1 w1 where 1: "record_intent env p w = (q1, w1)" by (rule prod.exhaust)
  have f1: "aw_client w1 = aw_client w" "aw_ledger w1 = aw_ledger w" "aw_pending_maps w1 = aw_pending_maps w"
    using 1 by (auto simp: record_intent_def split: prod.splits)
  show ?thesis
  proof (cases q1)
    case (Inl e)
    then show ?thesis using assms 1 f1 new by (auto simp: submit_plan_def)
  next
    case intent: (Inr u1)
    obtain q2 c2 where 2: "sql_exec Begin (aw_client w1) = (q2, c2)" by (rule prod.exhaust)
    obtain q3 c3 where 3: "execute_operations (tp_operations p) c2 = (q3, c3)" by (rule prod.exhaust)
    obtain q4 c4 where 4: "sql_exec (InsertMarker (tp_sequence p) (tp_sha p)) c3 = (q4, c4)" by (rule prod.exhaust)
    obtain q5 c5 where 5: "sql_exec SelectTxid c4 = (q5, c5)" by (rule prod.exhaust)
    obtain q6 c6 where 6: "sql_exec Commit c5 = (q6, c6)" by (rule prod.exhaust)
    have r: "(r, w') =
        (case q2 of Inl e \<Rightarrow> (Err e, w1\<lparr>aw_client := c2\<rparr>) | Inr _ \<Rightarrow>
        (case q3 of Inl e \<Rightarrow> (Err e, w1\<lparr>aw_client := c3\<rparr>) | Inr _ \<Rightarrow>
        (case q4 of Inl e \<Rightarrow> (Err e, w1\<lparr>aw_client := c4\<rparr>) | Inr _ \<Rightarrow>
        (case q5 of Inl e \<Rightarrow> (Err e, w1\<lparr>aw_client := c5\<rparr>) | Inr xid \<Rightarrow>
        (case q6 of Inl e \<Rightarrow> (Err e, w1\<lparr>aw_client := c6\<rparr>) | Inr _ \<Rightarrow> (parse_txid xid, w1\<lparr>aw_client := c6\<rparr>))))))"
      using assms new 1 intent 2 3 4 5 6
      by (auto simp: submit_plan_def on_client_def st_bind_def split: sum.splits)
    obtain sent rest where n: "sc_sent c3 = sc_sent c2 @ sent" "map operation_sql (tp_operations p) = sent @ rest" "is_ok q3 \<longrightarrow> rest = []"
      using execute_operations_sent [OF 3] by blast
    note s = sql_exec_sent [OF 2] sql_exec_sent [OF 4] sql_exec_sent [OF 5] sql_exec_sent [OF 6]
    show ?thesis
      using r n s f1 by (cases q2; cases q3; cases q4; cases q5; cases q6) (auto simp: plan_script_def)
  qed
qed

lemma wait_frame: "wait_for_mapping s h w = (r, w') \<Longrightarrow> aw_client w' = aw_client w \<and> aw_ledger w' = aw_ledger w"
  by (auto simp: wait_for_mapping_def split: option.splits prod.splits)

lemma append_mapped_frame: "append_mapped env m w = (r, w') \<Longrightarrow> aw_client w' = aw_client w"
  by (auto simp: append_mapped_def split: prod.splits)

lemma recover_frame: "recover_and_record env p w = (r, w') \<Longrightarrow> aw_client w' = aw_client w"
  unfolding recover_and_record_def
  by (auto simp: st_bind_def split: prod.splits sum.splits commit_state.splits dest!: wait_frame append_mapped_frame)

text \<open>
  C23. A plan is sent at most once. Whatever fails, what \<open>execute_and_record\<close> sends is the plan's transaction or
  a beginning of it, in order, and nothing when the ledger already holds the plan: after an error it asks
  for the marker and waits for the mapping, it never sends a statement again.
\<close>
theorem plan_is_sent_at_most_once:
  assumes "execute_and_record env p w = (r, w')"
  shows "\<exists>sent rest. sc_sent (aw_client w') = sc_sent (aw_client w) @ sent \<and> plan_script p = sent @ rest \<and>
    (ledger_classify (tp_sequence p) (tp_sha p) (aw_ledger w) = Committed \<longrightarrow> sent = [])"
proof (cases "ledger_classify (tp_sequence p) (tp_sha p) (aw_ledger w)")
  case Committed
  then show ?thesis using assms by (auto simp: execute_and_record_def ledger_classify_plan_def)
next
  case UnknownCommit
  obtain q w1 where q: "submit_plan env p w = (q, w1)" by (rule prod.exhaust)
  from submit_plan_sent [OF q] obtain sent rest where
    s: "sc_sent (aw_client w1) = sc_sent (aw_client w) @ sent" "plan_script p = sent @ rest" by blast
  have "aw_client w' = aw_client w1"
  proof (cases q)
    case (Inl e)
    then have "recover_and_record env p w1 = (r, w')" using assms q UnknownCommit
      by (simp add: execute_and_record_def ledger_classify_plan_def)
    then show ?thesis by (rule recover_frame)
  next
    case (Inr xid)
    then have "st_bind (wait_for_mapping (tp_sequence p) (tp_sha p) w1) (\<lambda>m w.
         st_bind (ensure (lc_xid m = xid) XidMismatch, w) (\<lambda>_ w.
         st_bind (append_mapped env m w) (\<lambda>_ w. (Ok m, w)))) = (r, w')"
      using assms q UnknownCommit by (simp add: execute_and_record_def ledger_classify_plan_def)
    then show ?thesis by (auto simp: st_bind_def ensure_def split: prod.splits sum.splits if_splits dest!: wait_frame append_mapped_frame)
  qed
  then show ?thesis using s UnknownCommit by auto
qed

section \<open>What is recorded\<close>

definition maps_keyed :: "(u64 \<times> ledger_commit) list \<Rightarrow> bool" where
  "maps_keyed pm \<longleftrightarrow> (\<forall>(k, m) \<in> set pm. lc_sequence m = k) \<and> distinct (map fst pm)"

lemma bt_insert_new: "map_of pm k = None \<Longrightarrow> mset (bt_insert k v pm) = add_mset (k, v) (mset pm)"
  by (induction k v pm rule: bt_insert.induct) (auto split: if_splits)

lemma keyed_insert: "maps_keyed pm \<Longrightarrow> map_of pm (lc_sequence m) = None \<Longrightarrow> maps_keyed (bt_insert (lc_sequence m) m pm)"
proof -
  assume a: "maps_keyed pm" "map_of pm (lc_sequence m) = None"
  have "mset (map fst (bt_insert (lc_sequence m) m pm)) = add_mset (lc_sequence m) (mset (map fst pm))"
    using bt_insert_new [OF a(2)] by simp
  then have "distinct (map fst (bt_insert (lc_sequence m) m pm)) \<longleftrightarrow> distinct (lc_sequence m # map fst pm)"
    by (metis mset.simps(2) mset_eq_imp_distinct_iff)
  moreover have "set (bt_insert (lc_sequence m) m pm) = insert (lc_sequence m, m) (set pm)"
    using bt_insert_new [OF a(2)] by (metis set_mset_add_mset_insert set_mset_mset)
  ultimately show ?thesis using a by (auto simp: maps_keyed_def map_of_eq_None_iff)
qed

lemma wait_loop_matches: "wait_loop s h ms pm = (Ok m, ms', pm') \<Longrightarrow> lc_sequence m = s \<and> lc_operation m = h"
  by (induction s h ms pm rule: wait_loop.induct) (auto simp: check_mapped_def split: if_splits)

lemma wait_matches:
  "maps_keyed (aw_pending_maps w) \<Longrightarrow> wait_for_mapping s h w = (Ok m, w') \<Longrightarrow> lc_sequence m = s \<and> lc_operation m = h"
  by (auto simp: wait_for_mapping_def check_mapped_def maps_keyed_def split: option.splits prod.splits if_splits
      dest: wait_loop_matches map_of_SomeD)

lemma append_mapped_entry:
  "append_mapped env m w = (Ok u, w') \<Longrightarrow> \<exists>e. lf_entries (aw_ledger w') = lf_entries (aw_ledger w) @ [e] \<and>
    le_sequence e = lc_sequence m \<and> le_xid e = lc_xid m \<and> le_source_lsn e = lc_source_lsn m \<and> le_operation e = lc_operation m"
  by (auto simp: append_mapped_def ledger_append_def append_line_def mapped_entry_def Let_def
      split: prod.splits sum.splits option.splits if_splits)

text \<open>
  What is recorded is what was executed. When \<open>execute_and_record\<close> succeeds, one ledger entry is added, for the
  sequence number and hash of the plan, with the position and xid of the mapping it returns; and if the
  transaction itself reported an xid, it is that one.
\<close>
theorem recorded_entry_is_the_plan:
  assumes "maps_keyed (aw_pending_maps w)" and "execute_and_record env p w = (Ok m, w')"
  shows "\<exists>e. lf_entries (aw_ledger w') = lf_entries (aw_ledger w) @ [e] \<and> le_sequence e = tp_sequence p \<and>
    le_operation e = tp_sha p \<and> le_source_lsn e = lc_source_lsn m \<and> le_xid e = lc_xid m \<and>
    (\<forall>xid w1. submit_plan env p w = (Ok xid, w1) \<longrightarrow> le_xid e = xid)"
proof -
  have new: "ledger_classify_plan p w = Ok ()" using assms(2) by (auto simp: execute_and_record_def st_bind_Ok_iff)
  obtain q w1 where q: "submit_plan env p w = (q, w1)" by (rule prod.exhaust)
  have w1: "aw_ledger w1 = aw_ledger w" "aw_pending_maps w1 = aw_pending_maps w" using submit_plan_sent [OF q] by auto
  have "\<exists>w2 u. wait_for_mapping (tp_sequence p) (tp_sha p) w1 = (Ok m, w2) \<and> append_mapped env m w2 = (Ok u, w') \<and>
      (\<forall>xid. q = Ok xid \<longrightarrow> lc_xid m = xid)"
  proof (cases q)
    case (Inl x)
    then have "recover_and_record env p w1 = (Ok m, w')" using assms(2) new q by (simp add: execute_and_record_def st_bind_def)
    then obtain st where "classify_committed_plan env p = Ok st" and
      st: "(case st of UnknownCommit \<Rightarrow> (Err StillUnknown, w1)
       | Committed \<Rightarrow> st_bind (wait_for_mapping (tp_sequence p) (tp_sha p) w1) (\<lambda>m w.
           st_bind (append_mapped env m w) (\<lambda>_ w. (Ok m, w)))) = (Ok m, w')"
      unfolding recover_and_record_def by (auto simp: st_bind_Ok_iff)
    then show ?thesis using Inl by (cases st) (auto simp: st_bind_Ok_iff)
  next
    case (Inr xid)
    then show ?thesis using assms(2) new q by (auto simp: execute_and_record_def st_bind_Ok_iff)
  qed
  then obtain w2 u where c: "wait_for_mapping (tp_sequence p) (tp_sha p) w1 = (Ok m, w2)" "append_mapped env m w2 = (Ok u, w')"
      "\<forall>xid. q = Ok xid \<longrightarrow> lc_xid m = xid" by blast
  from append_mapped_entry [OF c(2)] obtain e where e: "lf_entries (aw_ledger w') = lf_entries (aw_ledger w2) @ [e]"
      "le_sequence e = lc_sequence m" "le_xid e = lc_xid m" "le_source_lsn e = lc_source_lsn m" "le_operation e = lc_operation m" by blast
  have "lc_sequence m = tp_sequence p \<and> lc_operation m = tp_sha p" using wait_matches [OF _ c(1)] w1(2) assms(1) by simp
  moreover have "aw_ledger w2 = aw_ledger w" using wait_frame [OF c(1)] w1 by simp
  ultimately show ?thesis using e c(3) q by auto
qed

section \<open>Mappings may arrive in any order\<close>

fun wait_all :: "ledger_commit list \<Rightarrow> app_writer \<Rightarrow> (writer_error + ledger_commit list) \<times> app_writer" where
  "wait_all [] w = (Ok [], w)"
| "wait_all (c # cs) w =
     st_bind (wait_for_mapping (lc_sequence c) (lc_operation c) w) (\<lambda>m w. st_bind (wait_all cs w) (\<lambda>ms w. (Ok (m # ms), w)))"

lemma wait_loop_finds:
  "c \<in> set ms \<Longrightarrow> maps_keyed pm \<Longrightarrow> distinct (map lc_sequence (ms @ map snd pm)) \<Longrightarrow> \<forall>m \<in> set ms. lc_sequence c \<le> lc_sequence m \<Longrightarrow>
    \<exists>ms' pm'. wait_loop (lc_sequence c) (lc_operation c) ms pm = (Ok c, ms', pm') \<and> maps_keyed pm' \<and>
      add_mset c (mset (ms' @ map snd pm')) = mset (ms @ map snd pm)"
proof (induction ms arbitrary: pm)
  case (Cons m ms)
  show ?case
  proof (cases "lc_sequence m = lc_sequence c")
    case True
    have "m = c" using True Cons.prems(1,3) by (auto simp: image_iff)
    then show ?thesis using Cons.prems(2) by (auto simp: check_mapped_def)
  next
    case False
    then have c: "c \<in> set ms" "\<not> lc_sequence m < lc_sequence c" using Cons.prems(1,4) by (auto simp: not_less)
    have new: "map_of pm (lc_sequence m) = None"
    proof (rule ccontr)
      assume "map_of pm (lc_sequence m) \<noteq> None"
      then obtain x where "(lc_sequence m, x) \<in> set pm" by (auto dest: map_of_SomeD)
      then have "lc_sequence x = lc_sequence m" "x \<in> snd ` set pm" using Cons.prems(2) by (force simp: maps_keyed_def)+
      then show False using Cons.prems(3) by (auto simp: image_iff)
    qed
    let ?pm = "bt_insert (lc_sequence m) m pm"
    have ms: "mset (map snd ?pm) = add_mset m (mset (map snd pm))" using bt_insert_new [OF new] by simp
    have "mset (map lc_sequence (map snd ?pm)) = add_mset (lc_sequence m) (mset (map lc_sequence (map snd pm)))"
      by (simp only: mset_map [of lc_sequence] ms image_mset_add_mset)
    then have "mset (map lc_sequence (ms @ map snd ?pm)) = mset (map lc_sequence ((m # ms) @ map snd pm))"
      by (simp only: map_append mset_append list.map mset.simps append_Cons union_mset_add_mset_right)
    then have "distinct (map lc_sequence (ms @ map snd ?pm))" using Cons.prems(3) mset_eq_imp_distinct_iff by blast
    from Cons.IH [OF c(1) keyed_insert [OF Cons.prems(2) new] this] Cons.prems(4) obtain ms' pm' where
      "wait_loop (lc_sequence c) (lc_operation c) ms ?pm = (Ok c, ms', pm')" "maps_keyed pm'"
      "add_mset c (mset (ms' @ map snd pm')) = mset (ms @ map snd ?pm)" by auto
    then show ?thesis using False c(2) new ms by auto
  qed
qed simp

lemma filter_key: "distinct (map fst pm) \<Longrightarrow> (k, x) \<in> set pm \<Longrightarrow> filter (\<lambda>y. fst y = k) pm = [(k, x)]"
proof (induction pm)
  case (Cons y pm)
  show ?case
  proof (cases "fst y = k")
    case True
    then have "filter (\<lambda>y. fst y = k) pm = []" using Cons.prems by (auto simp: filter_empty_conv image_iff)
    moreover have "y = (k, x)" using True Cons.prems by (force simp: image_iff)
    ultimately show ?thesis using True by simp
  qed (use Cons in auto)
qed simp

lemma distinct_map_filter: "distinct (map f xs) \<Longrightarrow> distinct (map f (filter P xs))"
  by (induction xs) auto

lemma wait_next:
  assumes "maps_keyed (aw_pending_maps w)" and "mset (aw_mapped w @ map snd (aw_pending_maps w)) = mset (c # cs)"
    and "sorted_wrt (<) (map lc_sequence (c # cs))"
  shows "\<exists>ms' pm'. wait_for_mapping (lc_sequence c) (lc_operation c) w = (Ok c, w\<lparr>aw_mapped := ms', aw_pending_maps := pm'\<rparr>) \<and>
        maps_keyed pm' \<and> mset (ms' @ map snd pm') = mset cs"
proof -
  let ?ms = "aw_mapped w" and ?pm = "aw_pending_maps w"
  have sd: "sorted_wrt (<) (map lc_sequence cs)" "\<forall>x \<in> set cs. lc_sequence c < lc_sequence x" using assms(3) by auto
  have all: "set (?ms @ map snd ?pm) = set (c # cs)" using assms(2) by (metis set_mset_mset)
  have "distinct (map lc_sequence (c # cs))" using assms(3) by (metis strict_sorted_iff)
  then have ds: "distinct (map lc_sequence (?ms @ map snd ?pm))" using assms(2)
    by (metis (mono_tags, lifting) mset_eq_imp_distinct_iff mset_map)
  show ?thesis
  proof (cases "map_of ?pm (lc_sequence c)")
    case (Some x)
    then have x: "(lc_sequence c, x) \<in> set ?pm" by (rule map_of_SomeD)
    then have "lc_sequence x = lc_sequence c" using assms(1) by (auto simp: maps_keyed_def)
    moreover have "x \<in> set (c # cs)" using x all by force
    ultimately have "x = c" using sd(2) by auto
    let ?pm' = "filter (\<lambda>(k, _). k \<noteq> lc_sequence c) ?pm"
    have "mset ?pm = add_mset (lc_sequence c, x) (mset ?pm')"
    proof -
      have "filter (\<lambda>y. fst y = lc_sequence c) ?pm = [(lc_sequence c, x)]"
        using filter_key [OF _ x] assms(1) by (simp add: maps_keyed_def)
      moreover have "mset ?pm = mset (filter (\<lambda>y. fst y = lc_sequence c) ?pm) + mset ?pm'"
        by (subst multiset_partition [of _ "\<lambda>y. fst y = lc_sequence c"]) (simp add: case_prod_beta')
      ultimately show ?thesis by simp
    qed
    then have "mset (map snd ?pm) = add_mset x (mset (map snd ?pm'))" by (simp only: mset_map [of snd] image_mset_add_mset snd_conv)
    moreover have "maps_keyed ?pm'" using assms(1) by (auto simp: maps_keyed_def distinct_map_filter)
    moreover have "wait_for_mapping (lc_sequence c) (lc_operation c) w = (Ok c, w\<lparr>aw_mapped := ?ms, aw_pending_maps := ?pm'\<rparr>)"
      using Some \<open>x = c\<close> by (simp add: wait_for_mapping_def check_mapped_def)
    ultimately show ?thesis using assms(2) \<open>x = c\<close> by (intro exI [of _ ?ms] exI [of _ ?pm']) simp
  next
    case None
    have "c \<notin> set (map snd ?pm)"
    proof
      assume "c \<in> set (map snd ?pm)"
      then have "(lc_sequence c, c) \<in> set ?pm" using assms(1) by (auto simp: maps_keyed_def)
      then show False using None by (auto simp: map_of_eq_None_iff image_iff)
    qed
    then have c: "c \<in> set ?ms" using all by auto
    have "\<forall>m \<in> set ?ms. lc_sequence c \<le> lc_sequence m" using all sd(2) by (auto intro: less_imp_le)
    from wait_loop_finds [OF c assms(1) ds this] obtain ms' pm' where
      "wait_loop (lc_sequence c) (lc_operation c) ?ms ?pm = (Ok c, ms', pm')" "maps_keyed pm'"
      "add_mset c (mset (ms' @ map snd pm')) = mset (?ms @ map snd ?pm)" by blast
    then show ?thesis using None assms(2) by (intro exI [of _ ms'] exI [of _ pm']) (simp add: wait_for_mapping_def)
  qed
qed

text \<open>
  C24. Every mapping is delivered, in whatever order the mappings come. If the channel will deliver the mappings of
  some plans in any order, then waiting for them one after the other by increasing sequence number gives
  each its own, and none is left over: the ones that come early are kept aside.
\<close>
theorem every_mapping_is_delivered:
  assumes "sorted_wrt (<) (map lc_sequence cs)" and "mset (aw_mapped w) = mset cs" and "aw_pending_maps w = []"
  shows "\<exists>w'. wait_all cs w = (Ok cs, w') \<and> aw_mapped w' = [] \<and> aw_pending_maps w' = []"
proof -
  have "\<exists>w'. wait_all cs w = (Ok cs, w') \<and> aw_mapped w' = [] \<and> aw_pending_maps w' = []"
    if "sorted_wrt (<) (map lc_sequence cs)" "maps_keyed (aw_pending_maps w)" "mset (aw_mapped w @ map snd (aw_pending_maps w)) = mset cs" for cs w
    using that
  proof (induction cs arbitrary: w)
    case Nil
    then show ?case by simp
  next
    case (Cons c cs)
    have sd: "sorted_wrt (<) (map lc_sequence cs)" using Cons.prems(1) by simp
    from wait_next [OF Cons.prems(2,3,1)] obtain ms' pm' where w: "wait_for_mapping (lc_sequence c) (lc_operation c) w = (Ok c, w\<lparr>aw_mapped := ms', aw_pending_maps := pm'\<rparr>)"
      "maps_keyed pm'" "mset (ms' @ map snd pm') = mset cs" by blast
    from Cons.IH [OF sd, of "w\<lparr>aw_mapped := ms', aw_pending_maps := pm'\<rparr>"] w show ?case by auto
  qed
  then show ?thesis using assms by (simp add: maps_keyed_def)
qed

section \<open>Examples\<close>

text \<open>An environment whose calls succeed, a writer that has done nothing, and a plan of one delete.\<close>

definition demo_env :: writer_env where
  "demo_env = \<lparr>we_plan_print = \<lambda>_. [123, 125], we_ops_print = \<lambda>_. [], we_ledger_codec = demo_js, we_sha = demo_sha,
     we_marker_row = \<lambda>_. Some None, we_now = 0, we_intent_io = io_fine, we_sync_io = io_fine, we_ledger_io = io_fine\<rparr>"

definition demo_writer :: "rstr option list \<Rightarrow> ledger_commit list \<Rightarrow> app_writer" where
  "demo_writer answers ms =
     \<lparr>aw_client = \<lparr>sc_sent = [], sc_answers = answers\<rparr>, aw_planner = planner_new 7, aw_intents = \<lparr>il_file = [], il_sync = []\<rparr>,
      aw_ledger = lines_new, aw_ledger_file = [], aw_mapped = ms, aw_pending_maps = []\<rparr>"

definition demo_tx :: transaction_plan where
  "demo_tx = \<lparr>tp_sequence = 1, tp_time = 0, tp_operations = [DeleteOrder 5 2], tp_sha = str ''ab''\<rparr>"

definition demo_lc :: "u64 \<Rightarrow> ledger_commit" where
  "demo_lc n = \<lparr>lc_sequence = n, lc_xid = 9, lc_source_lsn = 3, lc_operation = str ''ab''\<rparr>"

lemma demo_prefix_ok: "prefix_ok (planner_new seed)"
  by (simp add: prefix_ok_def planner_new_def rows_upto_def)

lemma demo_env_io: "we_intent_io demo_env = io_fine" "we_sync_io demo_env = io_fine"
  by (simp_all add: demo_env_def)

theorem pipelined_writer_records_intents_witness:
  "\<exists>ps w'. run_writer demo_env 1000 [\<lparr>tn_stop = False, tn_timeouts = []\<rparr>, \<lparr>tn_stop = False, tn_timeouts = []\<rparr>]
      (demo_writer [Some []] []) = (Ok True, w') \<and> length ps = 1000 \<and>
     il_file (aw_intents w') = concat (map (\<lambda>p::transaction_plan. [123, 125, 10]) ps)"
proof -
  have "chunk_size 1000 = 500" by (simp add: chunk_size_def)
  with pipelined_writer_records_intents [OF demo_env_io, of 1000 "demo_writer [Some []] []"
      "[\<lparr>tn_stop = False, tn_timeouts = []\<rparr>, \<lparr>tn_stop = False, tn_timeouts = []\<rparr>]" "[]" "[]"]
  show ?thesis by (auto simp: demo_writer_def demo_prefix_ok demo_env_def)
qed

theorem pipelined_writer_executes_nothing_witness:
  "\<exists>r w'. run_writer demo_env 0 [\<lparr>tn_stop = False, tn_timeouts = []\<rparr>] (demo_writer [Some []] [demo_lc 1]) = (r, w') \<and>
     sc_sent (aw_client w') = [SetAsyncCommit]"
proof -
  obtain r w' where r: "run_writer demo_env 0 [\<lparr>tn_stop = False, tn_timeouts = []\<rparr>] (demo_writer [Some []] [demo_lc 1]) = (r, w')"
    by (rule prod.exhaust)
  from pipelined_writer_executes_nothing [OF r] r show ?thesis by (simp add: demo_writer_def)
qed

lemma demo_execute:
  "\<exists>w'. execute_and_record demo_env demo_tx (demo_writer [Some [], Some [], Some [], Some (str ''9''), Some []] [demo_lc 2, demo_lc 1]) =
     (Ok (demo_lc 1), w')"
  by (simp add: execute_and_record_def submit_plan_def ledger_classify_plan_def ledger_classify_def demo_writer_def demo_tx_def demo_env_def
      lines_new_def record_intent_def intent_append_def append_synced_def io_fine_def on_client_def sql_exec_def Let_def parse_txid_def
      parse_unsigned_def digit_val_def wait_for_mapping_def check_mapped_def demo_lc_def append_mapped_def ledger_append_def append_line_def
      mapped_entry_def demo_js_def append_check_def next_sequence_def last_hash_def)

theorem plan_is_sent_at_most_once_witness:
  "\<exists>w' sent rest. execute_and_record demo_env demo_tx
      (demo_writer [Some [], Some [], Some [], Some (str ''9''), Some []] [demo_lc 2, demo_lc 1]) = (Ok (demo_lc 1), w') \<and>
    sc_sent (aw_client w') = sent \<and> plan_script demo_tx = sent @ rest"
proof -
  obtain w' where w': "execute_and_record demo_env demo_tx
      (demo_writer [Some [], Some [], Some [], Some (str ''9''), Some []] [demo_lc 2, demo_lc 1]) = (Ok (demo_lc 1), w')"
    using demo_execute by blast
  from plan_is_sent_at_most_once [OF w'] w' show ?thesis by (simp add: demo_writer_def)
qed

theorem recorded_entry_is_the_plan_witness:
  "\<exists>w' e. execute_and_record demo_env demo_tx
      (demo_writer [Some [], Some [], Some [], Some (str ''9''), Some []] [demo_lc 2, demo_lc 1]) = (Ok (demo_lc 1), w') \<and>
    lf_entries (aw_ledger w') = [e] \<and> le_sequence e = 1 \<and> le_xid e = 9"
proof -
  obtain w' where w': "execute_and_record demo_env demo_tx
      (demo_writer [Some [], Some [], Some [], Some (str ''9''), Some []] [demo_lc 2, demo_lc 1]) = (Ok (demo_lc 1), w')"
    using demo_execute by blast
  from recorded_entry_is_the_plan [OF _ w'] w' show ?thesis
    by (auto simp: demo_writer_def maps_keyed_def lines_new_def demo_tx_def demo_lc_def)
qed

theorem every_mapping_is_delivered_witness:
  "\<exists>w'. wait_all [demo_lc 1, demo_lc 2, demo_lc 3] (demo_writer [] [demo_lc 3, demo_lc 1, demo_lc 2]) =
      (Ok [demo_lc 1, demo_lc 2, demo_lc 3], w') \<and> aw_mapped w' = []"
  using every_mapping_is_delivered [of "[demo_lc 1, demo_lc 2, demo_lc 3]" "demo_writer [] [demo_lc 3, demo_lc 1, demo_lc 2]"]
  by (auto simp: demo_writer_def demo_lc_def)

end
