(* ===== verification/Verdict.thy ===== *)
theory Verdict
  imports Ledger
begin

text \<open>
  \<open>crates/graydb-r1/src/verdict.rs\<close>: the reasons that void a run, the verdict of a cell of the score card, and the
  rule for the overall winner. An \<open>f64\<close> is its bit pattern; its order is a parameter.
\<close>

section \<open>Invalidations\<close>

datatype query_id = Q1 | Q2 | Q3 | Q4 | Q5

datatype run_invalidation =
    DatasetHashMismatch
  | WorkloadHashMismatch
  | MissingSequence u64
  | DuplicateSequence u64
  | StateChangingReorder u64 u64
  | StaleResult u64 u64
  | ResultDigestMismatch query_id u64
  | FreshnessP99Exceeded u64 u64
  | SourceRateMissed u64 u64
  | ResourceSafetyGate rstr
  | UnexpectedProcessExit rstr
  | MissingArtifact rstr

section \<open>Cells\<close>

datatype cell_verdict = GrayDbWin | ClickHouseWin | Tie | ConflictingTail

definition sat_mul :: "'a::len word \<Rightarrow> 'a word \<Rightarrow> 'a word" where
  "sat_mul a b = (if unat a * unat b < 2 ^ LENGTH('a) then a * b else - 1)"

definition at_least_percent_lower :: "u128 \<Rightarrow> u128 \<Rightarrow> u128 \<Rightarrow> bool" where
  "at_least_percent_lower a b percent =
     (b \<noteq> 0 \<and> sat_mul a 100 \<le> sat_mul b (100 - percent))"

definition abs_diff :: "u128 \<Rightarrow> u128 \<Rightarrow> u128" where
  "abs_diff a b = (if a \<le> b then b - a else a - b)"

definition differs_by_less_than_percent :: "u128 \<Rightarrow> u128 \<Rightarrow> u128 \<Rightarrow> bool" where
  "differs_by_less_than_percent a b percent =
     (a = b \<or> sat_mul (abs_diff a b) 100 < sat_mul (min a b) percent)"

definition evaluate_cell :: "u128 \<Rightarrow> u128 \<Rightarrow> u128 \<Rightarrow> u128 \<Rightarrow> cell_verdict" where
  "evaluate_cell graydb_p95 graydb_p99 clickhouse_p95 clickhouse_p99 =
     (if at_least_percent_lower graydb_p95 clickhouse_p95 5 \<and> graydb_p99 \<le> clickhouse_p99 then GrayDbWin
      else if at_least_percent_lower clickhouse_p95 graydb_p95 5 \<and> clickhouse_p99 \<le> graydb_p99 then ClickHouseWin
      else if differs_by_less_than_percent graydb_p95 clickhouse_p95 5 \<and>
              differs_by_less_than_percent graydb_p99 clickhouse_p99 5 then Tie
      else ConflictingTail)"

section \<open>The score card\<close>

type_synonym f64 = "64 word"

text \<open>\<open>BTreeMap\<close>s are association lists in the order of their keys.\<close>

record scorecard =
  sc_cells :: "(rstr \<times> cell_verdict) list"
  sc_p95_ratio :: f64
  sc_churn_ratio :: f64

record winner_evaluation =
  wv_required :: "u64 list"
  wv_passed :: "(u64 \<times> bool) list"

definition count_cells :: "cell_verdict \<Rightarrow> scorecard \<Rightarrow> nat" where
  "count_cells v s = length (filter (\<lambda>c. snd c = v) (sc_cells s))"

definition card_wins :: "scorecard \<Rightarrow> nat" where "card_wins = count_cells GrayDbWin"
definition card_losses :: "scorecard \<Rightarrow> nat" where "card_losses = count_cells ClickHouseWin"
definition card_ties :: "scorecard \<Rightarrow> nat" where "card_ties = count_cells Tie"
definition card_conflicting :: "scorecard \<Rightarrow> nat" where "card_conflicting = count_cells ConflictingTail"

definition REQUIRED_QUERIES :: "rstr list" where
  "REQUIRED_QUERIES = [str ''q1'', str ''q2'', str ''q3'', str ''q4'', str ''q5'']"

text \<open>The bit patterns of 0.90 and 0.80.\<close>

definition f64_090 :: f64 where "f64_090 = 0x3FECCCCCCCCCCCCD"
definition f64_080 :: f64 where "f64_080 = 0x3FE999999999999A"

definition card_beat_clickhouse :: "(f64 \<Rightarrow> f64 \<Rightarrow> bool) \<Rightarrow> scorecard \<Rightarrow> bool" where
  "card_beat_clickhouse f64_le s =
     (if length (sc_cells s) \<noteq> length REQUIRED_QUERIES \<or> (\<exists>q \<in> set REQUIRED_QUERIES. map_of (sc_cells s) q = None) then False
      else 4 \<le> card_wins s \<and> card_losses s = 0 \<and> f64_le (sc_p95_ratio s) f64_090 \<and> f64_le (sc_churn_ratio s) f64_080)"

definition evaluate_winner :: "(f64 \<Rightarrow> f64 \<Rightarrow> bool) \<Rightarrow> (u64 \<times> scorecard) list \<Rightarrow> winner_evaluation" where
  "evaluate_winner f64_le cards =
     (if cards = [] then \<lparr>wv_required = [], wv_passed = []\<rparr>
      else
        let highest = fst (last cards);
            required = (if highest \<noteq> 1000 then [1000, highest] else [1000]);
            passes = (\<lambda>rate. case map_of cards rate of Some s \<Rightarrow> card_beat_clickhouse f64_le s | None \<Rightarrow> False)
        in \<lparr>wv_required = required, wv_passed = fold (\<lambda>rate. bt_insert rate (passes rate)) required []\<rparr>)"

definition winner_beat_clickhouse :: "winner_evaluation \<Rightarrow> bool" where
  "winner_beat_clickhouse w =
     (wv_required w \<noteq> [] \<and> (\<forall>rate \<in> set (wv_required w). map_of (wv_passed w) rate = Some True))"

section \<open>The rules\<close>

text \<open>The rule of the specification, over the integers the words stand for.\<close>

definition five_percent_lower :: "u128 \<Rightarrow> u128 \<Rightarrow> bool" where
  "five_percent_lower a b \<longleftrightarrow> 0 < uint b \<and> 100 * uint a \<le> 95 * uint b"

definition within_five_percent :: "u128 \<Rightarrow> u128 \<Rightarrow> bool" where
  "within_five_percent a b \<longleftrightarrow> a = b \<or> 100 * \<bar>uint a - uint b\<bar> < 5 * min (uint a) (uint b)"

fun swap_verdict :: "cell_verdict \<Rightarrow> cell_verdict" where
  "swap_verdict GrayDbWin = ClickHouseWin"
| "swap_verdict ClickHouseWin = GrayDbWin"
| "swap_verdict v = v"

lemma uint_sat_mul:
  fixes a b :: "'a::len word"
  assumes "uint a * uint b < 2 ^ LENGTH('a)"
  shows "uint (sat_mul a b) = uint a * uint b"
proof -
  have "int (unat a * unat b) = uint a * uint b" by (simp only: of_nat_mult of_nat_unat)
  then have "int (unat a * unat b) < int (2 ^ LENGTH('a))" using assms by (simp only: of_nat_power of_nat_numeral)
  then have "unat a * unat b < 2 ^ LENGTH('a)" by (simp only: of_nat_less_iff)
  then have "sat_mul a b = a * b" by (simp add: sat_mul_def)
  moreover have "0 \<le> uint a * uint b" by simp
  ultimately show ?thesis using assms by (simp add: uint_word_ariths)
qed

lemma percent_lower_exact:
  assumes "uint a < 2 ^ 120" "uint b < 2 ^ 120"
  shows "at_least_percent_lower a b 5 \<longleftrightarrow> five_percent_lower a b"
proof -
  have 1: "uint (sat_mul a 100) = uint a * 100" using uint_sat_mul [of a 100] assms by simp
  have 2: "uint (sat_mul b 95) = uint b * 95" using uint_sat_mul [of b 95] assms by simp
  have "b \<noteq> 0 \<longleftrightarrow> 0 < uint b" using word_gt_0 [of b] word_less_def [of 0 b] by simp
  then show ?thesis using 1 2 by (simp add: at_least_percent_lower_def five_percent_lower_def word_le_def algebra_simps)
qed

lemma uint_abs_diff: "uint (abs_diff a b) = \<bar>uint a - uint b\<bar>"
proof (cases "a \<le> b")
  case True
  then have "uint a \<le> uint b" by (simp add: word_le_def)
  then show ?thesis using True by (simp add: abs_diff_def uint_sub_ge uint_minus_simple_alt)
next
  case False
  then have "b \<le> a" "uint b < uint a" by (auto simp: word_le_def)
  then show ?thesis using False by (simp add: abs_diff_def uint_minus_simple_alt)
qed

lemma uint_min: "uint (min a b) = min (uint a) (uint (b :: u128))"
  by (simp add: min_def word_le_def)

lemma differs_exact:
  assumes "uint a < 2 ^ 120" "uint b < 2 ^ 120"
  shows "differs_by_less_than_percent a b 5 \<longleftrightarrow> within_five_percent a b"
proof -
  have "\<bar>uint a - uint b\<bar> < 2 ^ 120" using assms uint_ge_0 [of a] uint_ge_0 [of b] by linarith
  then have 1: "uint (sat_mul (abs_diff a b) 100) = \<bar>uint a - uint b\<bar> * 100"
    using uint_sat_mul [of "abs_diff a b" 100] by (simp add: uint_abs_diff)
  have 2: "uint (sat_mul (min a b) 5) = min (uint a) (uint b) * 5"
    using uint_sat_mul [of "min a b" 5] assms by (simp add: uint_min)
  show ?thesis using 1 2 by (simp add: differs_by_less_than_percent_def within_five_percent_def word_less_def algebra_simps)
qed

text \<open>
  C32. The verdict of a cell is the specified rule, without a trace of the machine: for times below \<open>2 ^ 120\<close> ns nothing
  saturates, an engine wins exactly when its p95 is at least five percent lower and its p99 no higher, the two
  wins exclude each other, and exchanging the engines exchanges the verdict.
\<close>
theorem cell_verdict_is_the_rule:
  assumes "uint g95 < 2 ^ 120" "uint g99 < 2 ^ 120" "uint c95 < 2 ^ 120" "uint c99 < 2 ^ 120"
  shows "(evaluate_cell g95 g99 c95 c99 = GrayDbWin \<longleftrightarrow> five_percent_lower g95 c95 \<and> g99 \<le> c99) \<and>
    (evaluate_cell g95 g99 c95 c99 = ClickHouseWin \<longleftrightarrow> five_percent_lower c95 g95 \<and> c99 \<le> g99) \<and>
    (evaluate_cell g95 g99 c95 c99 = Tie \<longleftrightarrow> within_five_percent g95 c95 \<and> within_five_percent g99 c99) \<and>
    evaluate_cell c95 c99 g95 g99 = swap_verdict (evaluate_cell g95 g99 c95 c99)"
proof -
  note exact = percent_lower_exact [OF assms(1,3)] percent_lower_exact [OF assms(3,1)] differs_exact [OF assms(1,3)]
    differs_exact [OF assms(2,4)] differs_exact [OF assms(3,1)] differs_exact [OF assms(4,2)]
  have once: "\<not> (five_percent_lower g95 c95 \<and> five_percent_lower c95 g95)"
    by (auto simp: five_percent_lower_def)
  have sym: "within_five_percent a b \<longleftrightarrow> within_five_percent b a" for a b
    by (auto simp: within_five_percent_def min.commute abs_minus_commute)
  have tie: "\<not> (within_five_percent a b \<and> five_percent_lower a b)" for a b
    by (auto simp: within_five_percent_def five_percent_lower_def)
  have "evaluate_cell g95 g99 c95 c99 = GrayDbWin \<longleftrightarrow> five_percent_lower g95 c95 \<and> g99 \<le> c99"
    "evaluate_cell g95 g99 c95 c99 = ClickHouseWin \<longleftrightarrow> five_percent_lower c95 g95 \<and> c99 \<le> g99"
    "evaluate_cell g95 g99 c95 c99 = Tie \<longleftrightarrow> within_five_percent g95 c95 \<and> within_five_percent g99 c99"
    using once tie sym by (auto simp: evaluate_cell_def exact)
  moreover have "evaluate_cell c95 c99 g95 g99 = swap_verdict (evaluate_cell g95 g99 c95 c99)"
    using once sym by (auto simp: evaluate_cell_def exact)
  ultimately show ?thesis by blast
qed

theorem cell_verdict_is_the_rule_witness:
  "evaluate_cell 95 200 100 200 = GrayDbWin \<and> evaluate_cell 100 200 95 200 = ClickHouseWin"
  using cell_verdict_is_the_rule [of 95 200 100 200] by (simp add: five_percent_lower_def)

text \<open>
  The winner of the benchmark. GrayDB is said to beat ClickHouse exactly when there are score cards for
  1,000 rows/s and for the highest rate, and both hold the five cells, at least four won and none lost,
  with the two ratios in their bounds.
\<close>
theorem winner_needs_both_rates:
  assumes "sorted_wrt (<) (map fst cards)"
  shows "winner_beat_clickhouse (evaluate_winner f64_le cards) \<longleftrightarrow>
    (\<exists>s. (1000, s) \<in> set cards \<and> card_beat_clickhouse f64_le s) \<and> card_beat_clickhouse f64_le (snd (last cards))"
proof (cases "cards = []")
  case True
  then show ?thesis by (simp add: winner_beat_clickhouse_def evaluate_winner_def)
next
  case False
  have "distinct (map fst cards)" using assms by (metis strict_sorted_iff)
  then have look: "map_of cards k = Some s \<longleftrightarrow> (k, s) \<in> set cards" for k s by simp
  have hi: "map_of cards (fst (last cards)) = Some (snd (last cards))" using False by (simp add: look)
  have th: "(\<exists>s. (1000, s) \<in> set cards \<and> card_beat_clickhouse f64_le s) \<longleftrightarrow>
      (\<exists>s. map_of cards 1000 = Some s \<and> card_beat_clickhouse f64_le s)"
    by (simp add: look)
  show ?thesis unfolding th
  proof (cases "fst (last cards) = 1000")
    case True
    then show "winner_beat_clickhouse (evaluate_winner f64_le cards) \<longleftrightarrow>
        (\<exists>s. map_of cards 1000 = Some s \<and> card_beat_clickhouse f64_le s) \<and> card_beat_clickhouse f64_le (snd (last cards))"
      using False hi by (simp add: winner_beat_clickhouse_def evaluate_winner_def Let_def)
  next
    case False
    then show "winner_beat_clickhouse (evaluate_winner f64_le cards) \<longleftrightarrow>
        (\<exists>s. map_of cards 1000 = Some s \<and> card_beat_clickhouse f64_le s) \<and> card_beat_clickhouse f64_le (snd (last cards))"
      using \<open>cards \<noteq> []\<close> hi by (simp add: winner_beat_clickhouse_def evaluate_winner_def Let_def split: option.splits)
  qed
qed

theorem winner_needs_both_rates_witness:
  "\<not> winner_beat_clickhouse (evaluate_winner (\<lambda>_ _. True)
      [(300, \<lparr>sc_cells = map (\<lambda>q. (q, GrayDbWin)) REQUIRED_QUERIES, sc_p95_ratio = 0, sc_churn_ratio = 0\<rparr>)])"
  using winner_needs_both_rates [of "[(300, \<lparr>sc_cells = map (\<lambda>q. (q, GrayDbWin)) REQUIRED_QUERIES, sc_p95_ratio = 0, sc_churn_ratio = 0\<rparr>)]" "\<lambda>_ _. True"]
  by simp

end
