(* ===== verification/Controller.thy ===== *)
theory Controller
  imports Verdict
begin

text \<open>
  \<open>crates/graydb-r1/src/controller.rs\<close>: the stages of a benchmark run, their durable state in \<open>run-state.json\<close>, and the
  loop that drives a runtime through them. The runtime is the list of its answers, one per stage executed; the
  file calls are the list of their outcomes. The file holds a state (its JSON is not modelled).
\<close>

section \<open>Data\<close>

datatype run_stage =
    Preflight | Seed | BaselineSnapshot | Bootstrap | InitialCheckpoint | Warmup | Quiet | Cdc300 | Cdc1000
  | RateSearch | FailureSequence | FinalCheckpoint | Report | Checksums | Complete

definition ordered_stages :: "run_stage list" where
  "ordered_stages =
     [Preflight, Seed, BaselineSnapshot, Bootstrap, InitialCheckpoint, Warmup, Quiet, Cdc300, Cdc1000, RateSearch,
      FailureSequence, FinalCheckpoint, Report, Checksums, Complete]"

definition permits_after_invalidation :: "run_stage \<Rightarrow> bool" where
  "permits_after_invalidation stage = (stage = Report \<or> stage = Checksums)"

text \<open>The \<open>Debug\<close> names.\<close>

fun stage_name :: "run_stage \<Rightarrow> rstr" where
  "stage_name Preflight = str ''Preflight''"
| "stage_name Seed = str ''Seed''"
| "stage_name BaselineSnapshot = str ''BaselineSnapshot''"
| "stage_name Bootstrap = str ''Bootstrap''"
| "stage_name InitialCheckpoint = str ''InitialCheckpoint''"
| "stage_name Warmup = str ''Warmup''"
| "stage_name Quiet = str ''Quiet''"
| "stage_name Cdc300 = str ''Cdc300''"
| "stage_name Cdc1000 = str ''Cdc1000''"
| "stage_name RateSearch = str ''RateSearch''"
| "stage_name FailureSequence = str ''FailureSequence''"
| "stage_name FinalCheckpoint = str ''FinalCheckpoint''"
| "stage_name Report = str ''Report''"
| "stage_name Checksums = str ''Checksums''"
| "stage_name Complete = str ''Complete''"

datatype engine_kind = Graydb | Clickhouse
datatype run_mode = Correctness | Isolated
datatype scale_profile = MacSmoke | MacCorrectness | MacValidation | MacStress | MacCeiling | AwsPhase1

record profile_spec =
  ps_minimum_bytes :: u64
  ps_repetitions :: byte
  ps_warmup_secs :: u64
  ps_quiet_secs :: u64
  ps_fixed_rate_secs :: u64
  ps_search_step_secs :: u64
  ps_maximum_rate :: u64

record command_outcome =
  co_program :: rstr
  co_args :: "rstr list"
  co_exit_code :: "int option"
  co_stdout :: rstr
  co_stderr :: rstr

record stage_query_record =
  qr_query :: query_id
  qr_engine :: "engine_kind option"
  qr_target_rate :: "u64 option"
  qr_checkpoint :: u64
  qr_started :: u128
  qr_completed :: "u128 option"
  qr_target_lsn :: u64
  qr_visible_lsn :: u64
  qr_digest :: rstr
  qr_elapsed :: u128
  qr_freshness :: "u64 option"
  qr_rows_read :: "u64 option"
  qr_bytes_read :: "u64 option"
  qr_failed :: bool
  qr_failure :: "rstr option"

record stage_outcome =
  so_commands :: "command_outcome list"
  so_artifacts :: "rstr list"
  so_valid :: bool
  so_invalidation :: "run_invalidation option"
  so_queries :: "stage_query_record list"
  so_restart :: bool

definition default_outcome :: stage_outcome where
  "default_outcome = \<lparr>so_commands = [], so_artifacts = [], so_valid = True, so_invalidation = None, so_queries = [], so_restart = False\<rparr>"

type_synonym hashes = "(rstr \<times> rstr) list"

record run_plan =
  rp_profile :: scale_profile
  rp_spec :: profile_spec
  rp_mode :: run_mode
  rp_engines :: "engine_kind list"
  rp_hashes :: hashes

record stage_record =
  sr_hashes :: hashes
  sr_started :: "u128 option"
  sr_ended :: "u128 option"
  sr_commands :: "command_outcome list"
  sr_artifacts :: "rstr list"
  sr_valid :: bool
  sr_completed :: bool
  sr_count :: u32
  sr_queries :: "stage_query_record list"

definition default_record :: stage_record where
  "default_record = \<lparr>sr_hashes = [], sr_started = None, sr_ended = None, sr_commands = [], sr_artifacts = [], sr_valid = False,
     sr_completed = False, sr_count = 0, sr_queries = []\<rparr>"

record run_state =
  rs_run_id :: rstr
  rs_stages :: "run_stage \<Rightarrow> stage_record option"
  rs_invalidations :: "run_invalidation list"
  rs_plan :: "run_plan option"

definition run_state_new :: "rstr \<Rightarrow> run_state" where
  "run_state_new run_id = \<lparr>rs_run_id = run_id, rs_stages = (\<lambda>_. None), rs_invalidations = [], rs_plan = None\<rparr>"

definition is_invalid :: "run_state \<Rightarrow> bool" where
  "is_invalid s = (rs_invalidations s \<noteq> [])"

definition completed :: "run_state \<Rightarrow> run_stage \<Rightarrow> bool" where
  "completed s stage = (case rs_stages s stage of Some r \<Rightarrow> sr_completed r | None \<Rightarrow> False)"

definition is_complete :: "run_state \<Rightarrow> bool" where
  "is_complete s = (completed s Complete \<and> \<not> is_invalid s)"

definition next_stage :: "run_state \<Rightarrow> run_stage option" where
  "next_stage s =
     find (\<lambda>stage. \<not> completed s stage) (if is_invalid s then [Report, Checksums] else ordered_stages)"

section \<open>The controller\<close>

text \<open>
  \<open>rc_disk\<close> is \<open>run-state.json\<close>; \<open>rc_calls\<close> records each stage handed to the runtime with that file at the time. A
  write of the file either succeeds, or fails before the rename, or after it, and then the new file may have
  taken the place of the old one or not.
\<close>

datatype persist_io = Persisted | NotPersisted | Renamed bool

record run_controller =
  rc_state :: run_state
  rc_disk :: "run_state option"
  rc_persists :: "persist_io list"
  rc_emits :: "bool list"
  rc_calls :: "(run_stage \<times> run_state option) list"

datatype run_error =
    PersistFailed
  | EmitFailed
  | StateExists
  | StateMissing
  | RunIdMismatch
  | PlanImmutable
  | InvalidRun
  | NoStageRemaining
  | OutOfOrder run_stage run_stage
  | NoStartRecord run_stage
  | NotStarted run_stage
  | RuntimeFailed rstr
  | ReplayRejected
  | ArchiveFailed
  | CannotRunUnplanned run_stage

definition persist :: "run_controller \<Rightarrow> (run_error + unit) \<times> run_controller" where
  "persist c =
     (let c' = c\<lparr>rc_persists := tl (rc_persists c)\<rparr>
      in case (case rc_persists c of [] \<Rightarrow> Persisted | w # _ \<Rightarrow> w) of
           Persisted \<Rightarrow> (Ok (), c'\<lparr>rc_disk := Some (rc_state c)\<rparr>)
         | NotPersisted \<Rightarrow> (Err PersistFailed, c')
         | Renamed kept \<Rightarrow> (Err PersistFailed, if kept then c'\<lparr>rc_disk := Some (rc_state c)\<rparr> else c'))"

definition emit :: "run_controller \<Rightarrow> (run_error + unit) \<times> run_controller" where
  "emit c =
     (ensure (case rc_emits c of [] \<Rightarrow> True | ok # _ \<Rightarrow> ok) EmitFailed, c\<lparr>rc_emits := tl (rc_emits c)\<rparr>)"

definition controller_create :: "rstr \<Rightarrow> run_controller \<Rightarrow> (run_error + unit) \<times> run_controller" where
  "controller_create run_id c =
     (if rc_disk c \<noteq> None then (Err StateExists, c) else persist (c\<lparr>rc_state := run_state_new run_id\<rparr>))"

definition controller_resume :: "rstr \<Rightarrow> run_controller \<Rightarrow> (run_error + unit) \<times> run_controller" where
  "controller_resume run_id c =
     (case rc_disk c of
        None \<Rightarrow> (Err StateMissing, c)
      | Some s \<Rightarrow> if rs_run_id s \<noteq> run_id then (Err RunIdMismatch, c) else (Ok (), c\<lparr>rc_state := s\<rparr>))"

definition set_plan :: "run_plan \<Rightarrow> run_controller \<Rightarrow> (run_error + unit) \<times> run_controller" where
  "set_plan p c =
     (if (case rs_plan (rc_state c) of Some p' \<Rightarrow> p' \<noteq> p | None \<Rightarrow> False) then (Err PlanImmutable, c)
      else persist (c\<lparr>rc_state := (rc_state c)\<lparr>rs_plan := Some p\<rparr>\<rparr>))"

definition execution_count :: "run_state \<Rightarrow> run_stage \<Rightarrow> u32" where
  "execution_count s stage = (case rs_stages s stage of Some r \<Rightarrow> sr_count r | None \<Rightarrow> 0)"

definition assert_stage_allowed :: "run_stage \<Rightarrow> run_state \<Rightarrow> run_error + unit" where
  "assert_stage_allowed stage s =
     (if is_invalid s \<and> \<not> permits_after_invalidation stage then Err InvalidRun
      else case next_stage s of
        None \<Rightarrow> Err NoStageRemaining
      | Some expected \<Rightarrow> ensure (stage = expected) (OutOfOrder stage expected))"

definition put_record :: "run_stage \<Rightarrow> stage_record \<Rightarrow> run_controller \<Rightarrow> run_controller" where
  "put_record stage r c = c\<lparr>rc_state := (rc_state c)\<lparr>rs_stages := (rs_stages (rc_state c))(stage := Some r)\<rparr>\<rparr>"

definition begin_stage :: "run_stage \<Rightarrow> hashes \<Rightarrow> u128 \<Rightarrow> run_controller \<Rightarrow> (run_error + unit) \<times> run_controller" where
  "begin_stage stage hashes now c =
     st_bind (assert_stage_allowed stage (rc_state c), c) (\<lambda>_ c.
     let r = (case rs_stages (rc_state c) stage of Some r \<Rightarrow> r | None \<Rightarrow> default_record);
         r = r\<lparr>sr_hashes := hashes, sr_started := Some now, sr_ended := None, sr_commands := [], sr_artifacts := [],
               sr_queries := [], sr_valid := True, sr_completed := False\<rparr>
     in st_bind (persist (put_record stage r c)) (\<lambda>_ c. emit c))"

definition sat_inc32 :: "u32 \<Rightarrow> u32" where
  "sat_inc32 n = (if n = - 1 then n else n + 1)"

definition add_invalidation :: "run_invalidation \<Rightarrow> run_controller \<Rightarrow> run_controller" where
  "add_invalidation reason c =
     c\<lparr>rc_state := (rc_state c)\<lparr>rs_invalidations := rs_invalidations (rc_state c) @ [reason]\<rparr>\<rparr>"

definition complete_stage :: "run_stage \<Rightarrow> stage_outcome \<Rightarrow> u128 \<Rightarrow> run_controller \<Rightarrow> (run_error + unit) \<times> run_controller" where
  "complete_stage stage outcome now c =
     st_bind (assert_stage_allowed stage (rc_state c), c) (\<lambda>_ c.
     st_bind (need (rs_stages (rc_state c) stage) (NoStartRecord stage), c) (\<lambda>r c.
     st_bind (ensure (sr_started r \<noteq> None \<and> \<not> sr_completed r) (NotStarted stage), c) (\<lambda>_ c.
     let c = put_record stage (r\<lparr>sr_ended := Some now, sr_commands := so_commands outcome, sr_artifacts := so_artifacts outcome,
               sr_queries := so_queries outcome, sr_valid := so_valid outcome, sr_completed := True, sr_count := sat_inc32 (sr_count r)\<rparr>) c;
         c = (if so_valid outcome then c
              else add_invalidation (case so_invalidation outcome of
                       Some reason \<Rightarrow> reason
                     | None \<Rightarrow> ResourceSafetyGate (stage_name stage @ str '' marked invalid'')) c)
     in st_bind (persist c) (\<lambda>_ c. emit c))))"

definition invalidate :: "run_invalidation \<Rightarrow> run_controller \<Rightarrow> (run_error + unit) \<times> run_controller" where
  "invalidate reason c = st_bind (persist (add_invalidation reason c)) (\<lambda>_ c. emit c)"

definition advance :: "run_stage \<Rightarrow> hashes \<Rightarrow> u128 \<Rightarrow> u128 \<Rightarrow> rstr + stage_outcome \<Rightarrow> run_controller \<Rightarrow> (run_error + unit) \<times> run_controller" where
  "advance stage hashes began ended operation c =
     st_bind (begin_stage stage hashes began c) (\<lambda>_ c.
     case operation of
       Inr outcome \<Rightarrow> complete_stage stage outcome ended c
     | Inl e \<Rightarrow> st_bind (invalidate (UnexpectedProcessExit (stage_name stage @ str '': '' @ e)) c) (\<lambda>_ c. (Err (RuntimeFailed e), c)))"

section \<open>Policies\<close>

text \<open>A \<open>Duration\<close> is its nanoseconds.\<close>

type_synonym duration = nat

definition DURATION_MAX :: duration where "DURATION_MAX = (2 ^ 64 - 1) * 10 ^ 9 + 999999999"

definition dur_secs :: "u64 \<Rightarrow> duration" where "dur_secs s = unat s * 10 ^ 9"

definition dur_sat_mul :: "duration \<Rightarrow> nat \<Rightarrow> duration" where "dur_sat_mul d k = min (d * k) DURATION_MAX"

definition search_rates :: "u64 \<Rightarrow> u64 list" where
  "search_rates maximum = filter (\<lambda>rate. rate \<le> maximum) [2000, 4000, 8000, 16000, 32000, 64000]"

record stage_query_policy =
  sp_scheduled :: duration
  sp_maximum :: duration
  sp_samples :: u64

definition MINIMUM_QUERY_SAMPLES :: u64 where "MINIMUM_QUERY_SAMPLES = 30"

definition policy_for_stage :: "profile_spec \<Rightarrow> run_stage \<Rightarrow> stage_query_policy option" where
  "policy_for_stage spec stage =
     (case (case stage of
              Warmup \<Rightarrow> Some (ps_warmup_secs spec)
            | Quiet \<Rightarrow> Some (ps_quiet_secs spec)
            | Cdc300 \<Rightarrow> Some (ps_fixed_rate_secs spec)
            | Cdc1000 \<Rightarrow> Some (ps_fixed_rate_secs spec)
            | RateSearch \<Rightarrow> Some (sat_mul (ps_search_step_secs spec) (of_nat (length (search_rates (ps_maximum_rate spec)))))
            | _ \<Rightarrow> None) of
        None \<Rightarrow> None
      | Some s \<Rightarrow> Some \<lparr>sp_scheduled = dur_secs s, sp_maximum = dur_sat_mul (dur_secs s) 2, sp_samples = MINIMUM_QUERY_SAMPLES\<rparr>)"

definition stage_policy :: "run_plan \<Rightarrow> run_stage \<Rightarrow> stage_query_policy option" where
  "stage_policy p stage =
     map_option (\<lambda>policy.
       if rp_mode p = Isolated
       then let engines = max 1 (min (length (rp_engines p)) (2 ^ 32 - 1))
            in policy\<lparr>sp_scheduled := dur_sat_mul (sp_scheduled policy) engines, sp_maximum := dur_sat_mul (sp_maximum policy) engines\<rparr>
       else policy) (policy_for_stage (rp_spec p) stage)"

definition query_sample_counts :: "stage_query_record list \<Rightarrow> engine_kind list \<Rightarrow> u64 list" where
  "query_sample_counts records engines =
     concat (map (\<lambda>q. map (\<lambda>e. of_nat (length (filter (\<lambda>r. qr_engine r = Some e \<and> qr_query r = q \<and> \<not> qr_failed r) records))) engines)
       [Q1, Q2, Q3, Q4, Q5])"

definition policy_validates :: "stage_query_policy \<Rightarrow> u64 list \<Rightarrow> duration \<Rightarrow> bool" where
  "policy_validates policy samples elapsed =
     (elapsed \<le> sp_maximum policy \<and> samples \<noteq> [] \<and> length samples mod 5 = 0 \<and> (\<forall>n \<in> set samples. sp_samples policy \<le> n))"

section \<open>Isolated replays\<close>

record replay_evidence =
  ev_hashes :: "rstr list list"
  ev_maps :: "map_entry list list"
  ev_checkpoints :: "u64 list"

definition validate_workload_hashes :: "rstr list \<Rightarrow> rstr list list \<Rightarrow> bool" where
  "validate_workload_hashes expected replayed = (replayed \<noteq> [] \<and> (\<forall>hs \<in> set replayed. hs = expected))"

definition same_replay :: "map_entry list \<Rightarrow> map_entry list \<Rightarrow> bool" where
  "same_replay first m =
     (length first = length m \<and>
      list_all (\<lambda>(a, b). rm_sequence a = rm_sequence b \<and> rm_original a = rm_original b \<and> rm_operation a = rm_operation b) (zip first m))"

definition evidence_valid :: "replay_evidence \<Rightarrow> bool" where
  "evidence_valid ev =
     (case ev_hashes ev of
        [] \<Rightarrow> False
      | expected # _ \<Rightarrow>
          expected \<noteq> [] \<and> validate_workload_hashes expected (ev_hashes ev) \<and>
          length (ev_maps ev) = 2 \<and> length (ev_checkpoints ev) = 2 \<and>
          ev_checkpoints ev ! 0 = ev_checkpoints ev ! 1 \<and> ev_maps ev ! 0 \<noteq> [] \<and>
          (\<forall>m \<in> set (tl (ev_maps ev)). same_replay (ev_maps ev ! 0) m))"

section \<open>The run\<close>

datatype lifecycle_status = LComplete | InvalidArchived | RestartRequired

text \<open>
  What one turn of the loop meets: the answers of the runtime (an error is its message), how long the stage
  took, and the clock. The runtime is asked for the replay evidence only where the code does.
\<close>

record run_turn =
  rt_outcome :: "rstr + stage_outcome"
  rt_evidence :: "rstr + replay_evidence"
  rt_elapsed :: duration
  rt_began :: u128
  rt_ended :: u128

definition missing_samples :: "run_stage \<Rightarrow> run_invalidation" where
  "missing_samples stage =
     MissingArtifact (stage_name stage @ str '' did not record at least 30 successful samples for Q1-Q5 within 2x duration'')"

definition replay_ok :: "run_plan \<Rightarrow> run_stage \<Rightarrow> run_turn \<Rightarrow> bool" where
  "replay_ok p stage i =
     (stage = BaselineSnapshot \<and> rp_mode p = Isolated \<longrightarrow> (case rt_evidence i of Inl _ \<Rightarrow> False | Inr ev \<Rightarrow> evidence_valid ev))"

definition samples_ok :: "run_plan \<Rightarrow> run_stage \<Rightarrow> run_turn \<Rightarrow> stage_outcome \<Rightarrow> bool" where
  "samples_ok p stage i outcome =
     (case stage_policy p stage of
        None \<Rightarrow> True
      | Some policy \<Rightarrow> policy_validates policy (query_sample_counts (so_queries outcome) (rp_engines p)) (rt_elapsed i))"

definition stage_turn :: "run_plan \<Rightarrow> run_turn \<Rightarrow> run_stage \<Rightarrow> run_controller \<Rightarrow> (run_error + lifecycle_status option) \<times> run_controller" where
  "stage_turn p i stage c =
     st_bind (begin_stage stage (rp_hashes p) (rt_began i) c) (\<lambda>_ c.
     let c = c\<lparr>rc_calls := rc_calls c @ [(stage, rc_disk c)]\<rparr> in
     case rt_outcome i of
       Inl e \<Rightarrow>
         st_bind (invalidate (UnexpectedProcessExit (stage_name stage @ str '': '' @ e)) c) (\<lambda>_ c. (Err (RuntimeFailed e), c))
     | Inr outcome \<Rightarrow>
         if \<not> replay_ok p stage i then st_bind (invalidate WorkloadHashMismatch c) (\<lambda>_ c. (Err ReplayRejected, c))
         else if \<not> samples_ok p stage i outcome
         then st_bind (complete_stage stage (outcome\<lparr>so_valid := False, so_invalidation := Some (missing_samples stage)\<rparr>) (rt_ended i) c)
                (\<lambda>_ c. (Ok None, c))
         else st_bind (complete_stage stage outcome (rt_ended i) c)
                (\<lambda>_ c. (Ok (if so_restart outcome then Some RestartRequired else None), c)))"

definition final_status :: "run_state \<Rightarrow> lifecycle_status" where
  "final_status s = (if is_invalid s then InvalidArchived else LComplete)"

text \<open>\<open>Ok None\<close>: the answers given are used up and the run goes on.\<close>

fun run_stages :: "run_plan \<Rightarrow> run_turn list \<Rightarrow> run_controller \<Rightarrow> (run_error + lifecycle_status option) \<times> run_controller" where
  "run_stages p is c =
     (case next_stage (rc_state c) of
        None \<Rightarrow> (Ok (Some (final_status (rc_state c))), c)
      | Some stage \<Rightarrow>
          (case is of
             [] \<Rightarrow> (Ok None, c)
           | i # is \<Rightarrow> st_bind (stage_turn p i stage c) (\<lambda>s c. case s of Some s \<Rightarrow> (Ok (Some s), c) | None \<Rightarrow> run_stages p is c)))"

text \<open>A run without a plan: the report or the checksums are written here; \<open>rt_outcome\<close> says whether that works.\<close>

definition archive_turn :: "run_turn \<Rightarrow> run_stage \<Rightarrow> run_controller \<Rightarrow> (run_error + lifecycle_status option) \<times> run_controller" where
  "archive_turn i stage c =
     st_bind (begin_stage stage [] (rt_began i) c) (\<lambda>_ c.
     if \<not> permits_after_invalidation stage then (Err (CannotRunUnplanned stage), c)
     else
       let c = c\<lparr>rc_calls := rc_calls c @ [(stage, rc_disk c)]\<rparr> in
       case rt_outcome i of
         Inl _ \<Rightarrow> (Err ArchiveFailed, c)
       | Inr _ \<Rightarrow>
           st_bind (complete_stage stage
             (default_outcome\<lparr>so_artifacts := if stage = Report then [str ''result.json'', str ''result.md'', str ''aws-capacity-request.json'']
                                          else [str ''SHA256SUMS'']\<rparr>) (rt_ended i) c) (\<lambda>_ c. (Ok None, c)))"

fun archive_loop :: "run_turn list \<Rightarrow> run_controller \<Rightarrow> (run_error + lifecycle_status option) \<times> run_controller" where
  "archive_loop is c =
     (case next_stage (rc_state c) of
        None \<Rightarrow> (Ok (Some InvalidArchived), c)
      | Some stage \<Rightarrow>
          (case is of
             [] \<Rightarrow> (Ok None, c)
           | i # is \<Rightarrow> st_bind (archive_turn i stage c) (\<lambda>_ c. archive_loop is c)))"

definition archive_unplanned :: "run_turn list \<Rightarrow> run_controller \<Rightarrow> (run_error + lifecycle_status option) \<times> run_controller" where
  "archive_unplanned is c =
     st_bind (if is_invalid (rc_state c) then (Ok (), c)
              else invalidate (MissingArtifact (str ''persisted run plan is missing; benchmark stages cannot execute'')) c) (\<lambda>_ c.
     archive_loop is c)"

definition run_to_terminal :: "run_turn list \<Rightarrow> run_controller \<Rightarrow> (run_error + lifecycle_status option) \<times> run_controller" where
  "run_to_terminal is c =
     (case rs_plan (rc_state c) of None \<Rightarrow> archive_unplanned is c | Some p \<Rightarrow> run_stages p is c)"

definition exit_code_for :: "lifecycle_status \<Rightarrow> byte" where
  "exit_code_for s = (case s of LComplete \<Rightarrow> 0 | RestartRequired \<Rightarrow> 75 | InvalidArchived \<Rightarrow> 2)"

section \<open>What the controller may do to the state\<close>

text \<open>
  The abstract controller: it begins the next stage, completes it, perhaps with an invalidation, or
  invalidates the run. Everything below goes through this relation.
\<close>

inductive state_step :: "run_state \<Rightarrow> run_state \<Rightarrow> bool" where
  begins: "next_stage s = Some stage \<Longrightarrow> \<not> sr_completed r \<Longrightarrow> sr_count r = execution_count s stage \<Longrightarrow>
     state_step s (s\<lparr>rs_stages := (rs_stages s)(stage := Some r)\<rparr>)"
| completes: "next_stage s = Some stage \<Longrightarrow> sr_completed r \<Longrightarrow> sr_count r = sat_inc32 (execution_count s stage) \<Longrightarrow>
     (sr_valid r \<longleftrightarrow> extra = []) \<Longrightarrow>
     state_step s (s\<lparr>rs_stages := (rs_stages s)(stage := Some r), rs_invalidations := rs_invalidations s @ extra\<rparr>)"
| invalidates: "state_step s (s\<lparr>rs_invalidations := rs_invalidations s @ [reason]\<rparr>)"

abbreviation state_steps :: "run_state \<Rightarrow> run_state \<Rightarrow> bool" where "state_steps \<equiv> state_step\<^sup>*\<^sup>*"

text \<open>When the runtime may be asked to execute a stage: the file names it as the one to do, and as started.\<close>

definition asked :: "run_state \<Rightarrow> run_stage \<Rightarrow> bool" where
  "asked s stage \<longleftrightarrow> next_stage s = Some stage \<and> (\<exists>r. rs_stages s stage = Some r \<and> sr_started r \<noteq> None \<and> \<not> sr_completed r)"

definition evolves :: "run_controller \<Rightarrow> run_controller \<Rightarrow> bool" where
  "evolves c c' \<longleftrightarrow>
     state_steps (rc_state c) (rc_state c') \<and>
     (rc_disk c' = rc_disk c \<or> (\<exists>d. rc_disk c' = Some d \<and> state_steps (rc_state c) d \<and> state_steps d (rc_state c'))) \<and>
     (\<exists>new. rc_calls c' = rc_calls c @ new \<and>
        (\<forall>(stage, d) \<in> set new. \<exists>s. d = Some s \<and> asked s stage \<and> state_steps (rc_state c) s \<and> state_steps s (rc_state c')))"

lemma evolves_refl [simp]: "evolves c c"
  by (simp add: evolves_def)

lemma evolves_trans:
  assumes "evolves a b" "evolves b c"
  shows "evolves a c"
proof -
  have s: "state_steps (rc_state a) (rc_state b)" "state_steps (rc_state b) (rc_state c)" using assms by (auto simp: evolves_def)
  from assms obtain n1 n2 where n: "rc_calls b = rc_calls a @ n1" "rc_calls c = rc_calls b @ n2"
    "\<forall>(stage, d) \<in> set n1. \<exists>s. d = Some s \<and> asked s stage \<and> state_steps (rc_state a) s \<and> state_steps s (rc_state b)"
    "\<forall>(stage, d) \<in> set n2. \<exists>s. d = Some s \<and> asked s stage \<and> state_steps (rc_state b) s \<and> state_steps s (rc_state c)"
    unfolding evolves_def by blast
  have "\<forall>(stage, d) \<in> set (n1 @ n2). \<exists>s. d = Some s \<and> asked s stage \<and> state_steps (rc_state a) s \<and> state_steps s (rc_state c)"
    using n(3,4) rtranclp_trans [OF s(1)] rtranclp_trans [OF _ s(2)] by fastforce
  moreover have "rc_disk c = rc_disk a \<or> (\<exists>d. rc_disk c = Some d \<and> state_steps (rc_state a) d \<and> state_steps d (rc_state c))"
  proof (cases "rc_disk c = rc_disk b")
    case True
    then show ?thesis using assms(1) rtranclp_trans [OF _ s(2)] unfolding evolves_def by auto
  next
    case False
    then obtain d where "rc_disk c = Some d" "state_steps (rc_state b) d" "state_steps d (rc_state c)"
      using assms(2) unfolding evolves_def by auto
    then show ?thesis using rtranclp_trans [OF s(1)] by auto
  qed
  moreover have "rc_calls c = rc_calls a @ n1 @ n2" using n by simp
  ultimately show ?thesis using rtranclp_trans [OF s] unfolding evolves_def by blast
qed

lemma persist_frame:
  assumes "persist c = (r, c')"
  shows "rc_state c' = rc_state c \<and> rc_calls c' = rc_calls c \<and> (rc_disk c' = rc_disk c \<or> rc_disk c' = Some (rc_state c)) \<and>
    (\<forall>u. r = Ok u \<longrightarrow> rc_disk c' = Some (rc_state c))"
  using assms by (auto simp: persist_def Let_def split: list.splits persist_io.splits if_splits)

lemma emit_frame: "emit c = (r, c') \<Longrightarrow> rc_state c' = rc_state c \<and> rc_calls c' = rc_calls c \<and> rc_disk c' = rc_disk c"
  by (auto simp: emit_def)

text \<open>A step followed by the write of the file and an event.\<close>

lemma write_evolves:
  assumes "st_bind (persist c') (\<lambda>_ c. emit c) = (r, c'')"
    and "state_steps (rc_state c) (rc_state c')" and "rc_disk c' = rc_disk c" and "rc_calls c' = rc_calls c"
  shows "evolves c c'' \<and> rc_state c'' = rc_state c' \<and> rc_calls c'' = rc_calls c \<and> (\<forall>u. r = Ok u \<longrightarrow> rc_disk c'' = Some (rc_state c'))"
proof -
  obtain q c1 where q: "persist c' = (q, c1)" by (rule prod.exhaust)
  note p = persist_frame [OF q]
  show ?thesis
  proof (cases q)
    case (Inl e)
    then show ?thesis using assms q p by (auto simp: evolves_def)
  next
    case (Inr u)
    then have "emit c1 = (r, c'')" using assms(1) q by simp
    from emit_frame [OF this] p Inr assms(2-4) show ?thesis by (auto simp: evolves_def)
  qed
qed

lemma allowed_next: "assert_stage_allowed stage s = Ok u \<Longrightarrow> next_stage s = Some stage"
  by (auto simp: assert_stage_allowed_def split: if_splits option.splits)

lemma next_not_completed: "next_stage s = Some stage \<Longrightarrow> \<not> completed s stage"
  by (auto simp: next_stage_def find_Some_iff)

lemma completed_put [simp]:
  "completed (s\<lparr>rs_stages := (rs_stages s)(stage := Some r)\<rparr>) x = (if x = stage then sr_completed r else completed s x)"
  by (simp add: completed_def)

lemma completed_inv [simp]: "completed (s\<lparr>rs_invalidations := is\<rparr>) x = completed s x"
  by (simp add: completed_def)

lemma begin_next:
  assumes "next_stage s = Some stage" "\<not> sr_completed r"
  shows "next_stage (s\<lparr>rs_stages := (rs_stages s)(stage := Some r)\<rparr>) = Some stage"
proof -
  have "completed (s\<lparr>rs_stages := (rs_stages s)(stage := Some r)\<rparr>) = completed s"
    using next_not_completed [OF assms(1)] assms(2) by (auto simp: fun_eq_iff)
  then show ?thesis using assms(1) by (simp add: next_stage_def is_invalid_def)
qed

lemma begin_stage_evolves:
  assumes "begin_stage stage hashes now c = (r, c')"
  shows "evolves c c' \<and> rc_calls c' = rc_calls c \<and> (\<forall>u. r = Ok u \<longrightarrow> rc_disk c' = Some (rc_state c') \<and> asked (rc_state c') stage)"
proof (cases "assert_stage_allowed stage (rc_state c)")
  case (Inl e)
  then show ?thesis using assms by (auto simp: begin_stage_def)
next
  case (Inr u)
  note nx = allowed_next [OF Inr]
  let ?r0 = "case rs_stages (rc_state c) stage of Some r \<Rightarrow> r | None \<Rightarrow> default_record"
  let ?r = "?r0\<lparr>sr_hashes := hashes, sr_started := Some now, sr_ended := None, sr_commands := [], sr_artifacts := [],
               sr_queries := [], sr_valid := True, sr_completed := False\<rparr>"
  have b: "st_bind (persist (put_record stage ?r c)) (\<lambda>_ c. emit c) = (r, c')"
    using assms Inr by (simp add: begin_stage_def Let_def)
  have "sr_count ?r = execution_count (rc_state c) stage"
    by (simp add: execution_count_def default_record_def split: option.splits)
  then have "state_step (rc_state c) (rc_state (put_record stage ?r c))"
    using begins [OF nx, of ?r] by (simp add: put_record_def)
  then have "state_steps (rc_state c) (rc_state (put_record stage ?r c))" by blast
  from write_evolves [OF b this] have w: "evolves c c'" "rc_state c' = rc_state (put_record stage ?r c)" "rc_calls c' = rc_calls c"
      "\<forall>u. r = Ok u \<longrightarrow> rc_disk c' = Some (rc_state (put_record stage ?r c))"
    by (auto simp: put_record_def)
  moreover have "asked (rc_state c') stage"
    using begin_next [OF nx, of ?r] unfolding w(2) by (simp add: asked_def put_record_def)
  ultimately show ?thesis by simp
qed

lemma complete_stage_evolves:
  assumes "complete_stage stage outcome now c = (r, c')"
  shows "evolves c c' \<and> rc_calls c' = rc_calls c \<and>
    (\<forall>u. r = Ok u \<longrightarrow> rc_disk c' = Some (rc_state c') \<and> completed (rc_state c') stage \<and> next_stage (rc_state c) = Some stage \<and>
       (\<forall>x. x \<noteq> stage \<longrightarrow> rs_stages (rc_state c') x = rs_stages (rc_state c) x) \<and>
       (is_invalid (rc_state c') \<longleftrightarrow> is_invalid (rc_state c) \<or> \<not> so_valid outcome))"
proof (cases "assert_stage_allowed stage (rc_state c)")
  case (Inl e)
  then show ?thesis using assms by (auto simp: complete_stage_def)
next
  case (Inr u)
  note nx = allowed_next [OF Inr]
  show ?thesis
  proof (cases "rs_stages (rc_state c) stage")
    case None
    then show ?thesis using assms Inr by (auto simp: complete_stage_def need_def)
  next
    case (Some r0)
    show ?thesis
    proof (cases "sr_started r0 \<noteq> None \<and> \<not> sr_completed r0")
      case False
      then show ?thesis using assms Inr Some by (auto simp: complete_stage_def need_def ensure_def)
    next
      case True
      let ?r = "r0\<lparr>sr_ended := Some now, sr_commands := so_commands outcome, sr_artifacts := so_artifacts outcome,
               sr_queries := so_queries outcome, sr_valid := so_valid outcome, sr_completed := True, sr_count := sat_inc32 (sr_count r0)\<rparr>"
      let ?inv = "if so_valid outcome then [] else [case so_invalidation outcome of
                       Some reason \<Rightarrow> reason
                     | None \<Rightarrow> ResourceSafetyGate (stage_name stage @ str '' marked invalid'')]"
      let ?c = "let c = put_record stage ?r c in if so_valid outcome then c
              else add_invalidation (case so_invalidation outcome of
                       Some reason \<Rightarrow> reason
                     | None \<Rightarrow> ResourceSafetyGate (stage_name stage @ str '' marked invalid'')) c"
      have b: "st_bind (persist ?c) (\<lambda>_ c. emit c) = (r, c')"
        using assms Inr Some True by (simp add: complete_stage_def need_def ensure_def Let_def)
      have st: "rc_state ?c = (rc_state c)\<lparr>rs_stages := (rs_stages (rc_state c))(stage := Some ?r), rs_invalidations := rs_invalidations (rc_state c) @ ?inv\<rparr>"
        by (simp add: put_record_def add_invalidation_def)
      have fr: "rc_disk ?c = rc_disk c" "rc_calls ?c = rc_calls c" by (simp_all add: put_record_def add_invalidation_def Let_def)
      have "state_step (rc_state c) (rc_state ?c)" unfolding st
        by (rule completes [OF nx]) (use Some in \<open>simp_all add: execution_count_def\<close>)
      then have "state_steps (rc_state c) (rc_state ?c)" by blast
      from write_evolves [OF b this fr] have w: "evolves c c'" "rc_state c' = rc_state ?c" "rc_calls c' = rc_calls c"
          "\<forall>u. r = Ok u \<longrightarrow> rc_disk c' = Some (rc_state ?c)" by blast+
      then show ?thesis unfolding w(2) st using nx
        by (auto simp: completed_def is_invalid_def)
    qed
  qed
qed

lemma invalidate_evolves:
  assumes "invalidate reason c = (r, c')"
  shows "evolves c c' \<and> rc_calls c' = rc_calls c \<and> rc_state c' = rc_state (add_invalidation reason c) \<and>
    (\<forall>u. r = Ok u \<longrightarrow> rc_disk c' = Some (rc_state c'))"
proof -
  have "state_steps (rc_state c) (rc_state (add_invalidation reason c))"
    using invalidates [of "rc_state c" reason] by (simp add: add_invalidation_def r_into_rtranclp)
  from write_evolves [OF assms [unfolded invalidate_def] this] show ?thesis by (simp add: add_invalidation_def)
qed

text \<open>A stage handed to the runtime after its start is on disk.\<close>

lemma call_evolves:
  assumes "rc_disk c = Some (rc_state c)" "asked (rc_state c) stage"
  shows "evolves c (c\<lparr>rc_calls := rc_calls c @ [(stage, rc_disk c)]\<rparr>)"
  using assms by (auto simp: evolves_def)

lemma begin_call_evolves:
  assumes "begin_stage stage hashes now c = (Ok u, c1)"
  shows "evolves c (c1\<lparr>rc_calls := rc_calls c1 @ [(stage, rc_disk c1)]\<rparr>)"
  using begin_stage_evolves [OF assms] call_evolves by (blast intro: evolves_trans)

lemma complete_then: "st_bind (complete_stage stage outcome now c) (\<lambda>_ c. (x, c)) = (r, c') \<Longrightarrow> evolves c c'"
  by (auto simp: st_bind_def split: prod.splits sum.splits dest!: complete_stage_evolves)

lemma invalidate_then: "st_bind (invalidate reason c) (\<lambda>_ c. (x, c)) = (r, c') \<Longrightarrow> evolves c c'"
  by (auto simp: st_bind_def split: prod.splits sum.splits dest!: invalidate_evolves)

lemma stage_turn_evolves:
  assumes "stage_turn p i stage c = (r, c')"
  shows "evolves c c'"
proof -
  obtain q c1 where q: "begin_stage stage (rp_hashes p) (rt_began i) c = (q, c1)" by (rule prod.exhaust)
  show ?thesis
  proof (cases q)
    case (Inl e)
    then show ?thesis using assms q begin_stage_evolves [OF q] by (auto simp: stage_turn_def)
  next
    case (Inr u)
    let ?c = "c1\<lparr>rc_calls := rc_calls c1 @ [(stage, rc_disk c1)]\<rparr>"
    have ev: "evolves c ?c" using begin_call_evolves q Inr by blast
    show ?thesis
    proof (cases "rt_outcome i")
      case e: (Inl e)
      have "evolves ?c c'" using assms q Inr e by (auto simp: stage_turn_def intro!: invalidate_then)
      with ev show ?thesis by (rule evolves_trans)
    next
      case out: (Inr outcome)
      have "evolves ?c c'"
      proof (cases "replay_ok p stage i")
        case False
        then show ?thesis using assms q Inr out by (auto simp: stage_turn_def intro!: invalidate_then)
      next
        case True
        then show ?thesis using assms q Inr out
          by (cases "samples_ok p stage i outcome") (auto simp: stage_turn_def intro!: complete_then)
      qed
      with ev show ?thesis by (rule evolves_trans)
    qed
  qed
qed

lemma run_stages_evolves: "run_stages p is c = (r, c') \<Longrightarrow> evolves c c'"
proof (induction "is" arbitrary: c r c')
  case Nil
  then show ?case by (auto split: option.splits)
next
  case (Cons i "is")
  show ?case
  proof (cases "next_stage (rc_state c)")
    case None
    then show ?thesis using Cons.prems by simp
  next
    case (Some stage)
    obtain q c1 where q: "stage_turn p i stage c = (q, c1)" by (rule prod.exhaust)
    note ev = stage_turn_evolves [OF q]
    show ?thesis
    proof (cases q)
      case (Inl e)
      then show ?thesis using Cons.prems Some q ev by simp
    next
      case ok: (Inr s)
      show ?thesis
      proof (cases s)
        case None
        then have "run_stages p is c1 = (r, c')" using Cons.prems Some q ok by simp
        from Cons.IH [OF this] ev show ?thesis by (rule evolves_trans [rotated])
      next
        case (Some x)
        then show ?thesis using Cons.prems \<open>next_stage (rc_state c) = Some stage\<close> q ok ev by simp
      qed
    qed
  qed
qed

declare run_stages.simps [simp del]

lemma archive_turn_evolves:
  assumes "archive_turn i stage c = (r, c')"
  shows "evolves c c'"
proof -
  obtain q c1 where q: "begin_stage stage [] (rt_began i) c = (q, c1)" by (rule prod.exhaust)
  note b = begin_stage_evolves [OF q]
  show ?thesis
  proof (cases q)
    case (Inl e)
    then show ?thesis using assms q b by (auto simp: archive_turn_def)
  next
    case (Inr u)
    let ?c = "c1\<lparr>rc_calls := rc_calls c1 @ [(stage, rc_disk c1)]\<rparr>"
    have ev: "evolves c ?c" using begin_call_evolves q Inr by blast
    show ?thesis
    proof (cases "permits_after_invalidation stage")
      case False
      then show ?thesis using assms q Inr b by (auto simp: archive_turn_def)
    next
      case True
      have "evolves ?c c'" using assms q Inr True
        by (cases "rt_outcome i") (auto simp: archive_turn_def intro!: complete_then)
      with ev show ?thesis by (rule evolves_trans)
    qed
  qed
qed

lemma archive_loop_evolves: "archive_loop is c = (r, c') \<Longrightarrow> evolves c c'"
proof (induction "is" arbitrary: c r c')
  case Nil
  then show ?case by (auto split: option.splits)
next
  case (Cons i "is")
  show ?case
  proof (cases "next_stage (rc_state c)")
    case None
    then show ?thesis using Cons.prems by simp
  next
    case (Some stage)
    obtain q c1 where q: "archive_turn i stage c = (q, c1)" by (rule prod.exhaust)
    note ev = archive_turn_evolves [OF q]
    show ?thesis
    proof (cases q)
      case (Inl e)
      then show ?thesis using Cons.prems Some q ev by simp
    next
      case (Inr s)
      then have "archive_loop is c1 = (r, c')" using Cons.prems Some q by simp
      from Cons.IH [OF this] ev show ?thesis by (rule evolves_trans [rotated])
    qed
  qed
qed

declare archive_loop.simps [simp del]

lemma run_evolves:
  assumes "run_to_terminal is c = (r, c')"
  shows "evolves c c'"
proof (cases "rs_plan (rc_state c)")
  case (Some p)
  then show ?thesis using assms by (auto simp: run_to_terminal_def dest: run_stages_evolves)
next
  case None
  show ?thesis
  proof (cases "is_invalid (rc_state c)")
    case True
    then show ?thesis using assms None by (auto simp: run_to_terminal_def archive_unplanned_def dest: archive_loop_evolves)
  next
    case False
    obtain q c1 where q: "invalidate (MissingArtifact (str ''persisted run plan is missing; benchmark stages cannot execute'')) c = (q, c1)"
      by (rule prod.exhaust)
    have ev: "evolves c c1" using invalidate_evolves [OF q] by simp
    show ?thesis
    proof (cases q)
      case (Inl e)
      then show ?thesis using assms None False q ev by (simp add: run_to_terminal_def archive_unplanned_def)
    next
      case (Inr u)
      then have "archive_loop is c1 = (r, c')" using assms None False q by (simp add: run_to_terminal_def archive_unplanned_def)
      from ev archive_loop_evolves [OF this] show ?thesis by (rule evolves_trans)
    qed
  qed
qed

section \<open>Order\<close>

lemma find_before:
  assumes "find P xs = Some x" "xs = as @ x # bs" "x \<notin> set as"
  shows "\<forall>y \<in> set as. \<not> P y"
  using assms by (induction as arbitrary: xs) (auto split: if_splits)

lemma next_stage_before:
  assumes "next_stage s = Some stage" "\<not> is_invalid s" "ordered_stages = before @ stage # after"
  shows "\<forall>x \<in> set before. completed s x"
proof -
  have "distinct (before @ stage # after)" unfolding assms(3) [symmetric] by (simp add: ordered_stages_def)
  then have "stage \<notin> set before" by simp
  moreover have "find (\<lambda>stage. \<not> completed s stage) ordered_stages = Some stage" using assms(1,2) by (simp add: next_stage_def)
  ultimately show ?thesis using find_before [OF _ assms(3)] by blast
qed

lemma next_stage_invalid: "next_stage s = Some stage \<Longrightarrow> is_invalid s \<Longrightarrow> permits_after_invalidation stage"
  by (auto simp: next_stage_def permits_after_invalidation_def split: if_splits)

text \<open>
  C19. The runtime is asked for stages in order, and only for those the file says are due. Whatever the outcome of
  the file calls and whatever the runtime answers, whenever a run hands a stage to the runtime, the state on
  disk names that stage as started and not completed; every earlier stage is completed in it, unless the run
  is invalid, and then the stage is the report or the checksums.
\<close>
theorem runtime_asked_in_order:
  assumes "run_to_terminal is c = (r, c')" and "rc_calls c = []" and "(stage, d) \<in> set (rc_calls c')"
  shows "\<exists>s rec. d = Some s \<and> rs_stages s stage = Some rec \<and> sr_started rec \<noteq> None \<and> \<not> sr_completed rec \<and>
    (is_invalid s \<longrightarrow> stage = Report \<or> stage = Checksums) \<and>
    (\<not> is_invalid s \<longrightarrow> (\<forall>before after. ordered_stages = before @ stage # after \<longrightarrow> (\<forall>x \<in> set before. completed s x)))"
proof -
  from run_evolves [OF assms(1)] assms(2,3) obtain s where "d = Some s" "asked s stage"
    unfolding evolves_def by fastforce
  then show ?thesis
    using next_stage_before next_stage_invalid unfolding asked_def permits_after_invalidation_def by blast
qed

section \<open>What is completed stays\<close>

lemma step_keeps_completed:
  "state_step s s' \<Longrightarrow> completed s stage \<Longrightarrow> rs_stages s' stage = rs_stages s stage"
  by (cases rule: state_step.cases) (auto dest: next_not_completed)

lemma steps_keep_completed:
  assumes "state_steps s s'" "completed s stage"
  shows "rs_stages s' stage = rs_stages s stage"
  using assms
proof (induction rule: rtranclp_induct)
  case (step s1 s2)
  then have "completed s1 stage" by (simp add: completed_def)
  with step show ?case using step_keeps_completed by simp
qed simp

text \<open>
  C18. A completed stage is final. A run resumed from a state on disk, with any answers and any failures, never asks
  for a stage that state holds as completed, and leaves its record as it is, in memory and on disk.
\<close>
theorem completed_stage_is_final:
  assumes "rc_disk c = Some s" and "controller_resume run_id c = (Ok u, c1)" and "run_to_terminal is c1 = (r, c')"
    and "rc_calls c = []" and "completed s stage"
  shows "stage \<notin> fst ` set (rc_calls c') \<and> rs_stages (rc_state c') stage = rs_stages s stage \<and>
    (\<exists>s'. rc_disk c' = Some s' \<and> rs_stages s' stage = rs_stages s stage)"
proof -
  have c1: "rc_state c1 = s" "rc_disk c1 = Some s" "rc_calls c1 = []"
    using assms(1,2,4) by (auto simp: controller_resume_def split: if_splits)
  note ev = run_evolves [OF assms(3)]
  have keep: "rs_stages s' stage = rs_stages s stage" if "state_steps s s'" for s'
    using steps_keep_completed [OF that assms(5)] .
  have now: "state_steps s (rc_state c')" using ev c1(1) by (simp add: evolves_def)
  have "rc_disk c' = Some s \<or> (\<exists>d. rc_disk c' = Some d \<and> state_steps s d)"
    using ev unfolding evolves_def c1(1,2) by blast
  then have "\<exists>s'. rc_disk c' = Some s' \<and> rs_stages s' stage = rs_stages s stage" using keep by blast
  moreover have "rs_stages (rc_state c') stage = rs_stages s stage" by (rule keep [OF now])
  moreover have "stage \<notin> fst ` set (rc_calls c')"
  proof
    assume "stage \<in> fst ` set (rc_calls c')"
    then obtain d where "(stage, d) \<in> set (rc_calls c')" by auto
    then obtain s' where s': "asked s' stage" "state_steps s s'" using ev unfolding evolves_def c1 by auto
    from keep [OF s'(2)] s'(1) assms(5) show False by (auto simp: asked_def completed_def)
  qed
  ultimately show ?thesis by blast
qed

section \<open>Every reachable state\<close>

text \<open>
  The states a run can leave on disk: created, given a plan, resumed and run, any number of times, each
  time with any answers of the runtime and any failures. A process that dies leaves the state of the last
  write; a run in which the next call fails leaves the same.
\<close>

inductive run_reach :: "run_state \<Rightarrow> bool" where
  rr_create: "controller_create run_id c = (r, c') \<Longrightarrow> rc_disk c = None \<Longrightarrow> rc_disk c' = Some s \<Longrightarrow> run_reach s"
| rr_plan: "run_reach s \<Longrightarrow> rc_state c = s \<Longrightarrow> rc_disk c = Some s \<Longrightarrow> set_plan p c = (r, c') \<Longrightarrow> rc_disk c' = Some s' \<Longrightarrow> run_reach s'"
| rr_run: "run_reach s \<Longrightarrow> rc_state c = s \<Longrightarrow> rc_disk c = Some s \<Longrightarrow> run_to_terminal is c = (r, c') \<Longrightarrow> rc_disk c' = Some s' \<Longrightarrow> run_reach s'"

definition done_stages :: "run_state \<Rightarrow> run_stage set" where
  "done_stages s = {stage. completed s stage}"

text \<open>The stages done are the first so many; an invalid run may have the report and the checksums beside them.\<close>

definition in_order :: "run_state \<Rightarrow> bool" where
  "in_order s \<longleftrightarrow>
     (\<exists>n. done_stages s = set (take n ordered_stages) \<or>
        is_invalid s \<and> (done_stages s = insert Report (set (take n ordered_stages)) \<or>
                        done_stages s = insert Checksums (insert Report (set (take n ordered_stages)))))"

definition counts_ok :: "run_state \<Rightarrow> bool" where
  "counts_ok s \<longleftrightarrow> (\<forall>stage. execution_count s stage = (if completed s stage then 1 else 0)) \<and>
     (is_invalid s \<or> (\<forall>stage r. rs_stages s stage = Some r \<and> sr_completed r \<longrightarrow> sr_valid r))"

lemma find_take_Suc:
  assumes "find P xs = Some x" "\<forall>y. P y \<longleftrightarrow> y \<notin> set (take n xs)" "distinct xs"
  shows "set (take (Suc n) xs) = insert x (set (take n xs))"
proof -
  obtain i where i: "i < length xs" "P (xs ! i)" "x = xs ! i" "\<forall>j < i. \<not> P (xs ! j)" using assms(1) by (auto simp: find_Some_iff)
  have "\<not> i < n"
  proof
    assume "i < n"
    then have "xs ! i \<in> set (take n xs)" using i(1) by (auto simp: in_set_conv_nth intro!: exI [of _ i])
    then show False using i(2) assms(2) by simp
  qed
  moreover have "\<not> n < i"
  proof
    assume "n < i"
    then have "\<not> P (xs ! n)" "n < length xs" using i by auto
    then have "xs ! n \<in> set (take n xs)" using assms(2) by simp
    then obtain j where "j < n" "xs ! j = xs ! n" by (auto simp: in_set_conv_nth)
    then show False using assms(3) \<open>n < length xs\<close> by (simp add: nth_eq_iff_index_eq)
  qed
  ultimately have "i = n" by simp
  then show ?thesis using i(1,3) by (simp add: take_Suc_conv_app_nth)
qed

lemma step_in_order:
  assumes "state_step s s'" "in_order s"
  shows "in_order s'"
  using assms(1)
proof cases
  case (begins stage r)
  have "done_stages s' = done_stages s" using next_not_completed [OF begins(2)] begins(1,3) by (auto simp: done_stages_def)
  then show ?thesis using assms(2) begins(1) by (simp add: in_order_def is_invalid_def)
next
  case (invalidates reason)
  then have "done_stages s' = done_stages s" "is_invalid s'" by (simp_all add: done_stages_def is_invalid_def)
  then show ?thesis using assms(2) by (auto simp: in_order_def)
next
  case (completes stage r extra)
  have dn: "done_stages s' = insert stage (done_stages s)" unfolding completes(1) using completes(3)
    by (auto simp: done_stages_def completed_def)
  have iv: "is_invalid s'" if "is_invalid s" using that completes(1) by (simp add: is_invalid_def)
  have fresh: "stage \<notin> done_stages s" using next_not_completed [OF completes(2)] by (simp add: done_stages_def)
  show ?thesis
  proof (cases "is_invalid s")
    case False
    then obtain n where n: "done_stages s = set (take n ordered_stages)" using assms(2) by (auto simp: in_order_def)
    have "find (\<lambda>stage. \<not> completed s stage) ordered_stages = Some stage" using completes(2) False by (simp add: next_stage_def)
    moreover have "\<forall>y. \<not> completed s y \<longleftrightarrow> y \<notin> set (take n ordered_stages)" using n by (auto simp: done_stages_def)
    moreover have "distinct ordered_stages" by (simp add: ordered_stages_def)
    ultimately have "set (take (Suc n) ordered_stages) = insert stage (set (take n ordered_stages))" by (rule find_take_Suc)
    then show ?thesis unfolding in_order_def dn n by blast
  next
    case True
    then have nx: "stage = Report \<or> (stage = Checksums \<and> Report \<in> done_stages s)"
      using completes(2) by (auto simp: next_stage_def done_stages_def split: if_splits)
    from assms(2) obtain n where n: "done_stages s = set (take n ordered_stages) \<or> done_stages s = insert Report (set (take n ordered_stages)) \<or>
        done_stages s = insert Checksums (insert Report (set (take n ordered_stages)))" unfolding in_order_def by blast
    then have "done_stages s' = insert Report (set (take n ordered_stages)) \<or>
        done_stages s' = insert Checksums (insert Report (set (take n ordered_stages)))"
      using nx fresh unfolding dn by auto
    then show ?thesis using iv [OF True] unfolding in_order_def by blast
  qed
qed

lemma step_counts_ok:
  assumes "state_step s s'" "counts_ok s"
  shows "counts_ok s'"
  using assms(1)
proof cases
  case (begins stage r)
  have "execution_count s stage = 0" using next_not_completed [OF begins(2)] assms(2) by (simp add: counts_ok_def)
  then show ?thesis using assms(2) begins by (auto simp: counts_ok_def execution_count_def completed_def is_invalid_def)
next
  case (invalidates reason)
  then show ?thesis using assms(2) by (simp add: counts_ok_def execution_count_def completed_def is_invalid_def)
next
  case (completes stage r extra)
  have "execution_count s stage = 0" using next_not_completed [OF completes(2)] assms(2) by (simp add: counts_ok_def)
  then have "sr_count r = 1" using completes(4) by (simp add: sat_inc32_def)
  then show ?thesis using assms(2) completes(1,3,5) by (auto simp: counts_ok_def execution_count_def completed_def is_invalid_def)
qed

lemma steps_keep_order: "state_steps s s' \<Longrightarrow> in_order s \<and> counts_ok s \<Longrightarrow> in_order s' \<and> counts_ok s'"
  by (induction rule: rtranclp_induct) (auto dest: step_in_order step_counts_ok)

lemma reach_in_order: "run_reach s \<Longrightarrow> in_order s \<and> counts_ok s"
proof (induction rule: run_reach.induct)
  case (rr_create run_id c r c' s)
  obtain q c1 where q: "persist (c\<lparr>rc_state := run_state_new run_id\<rparr>) = (q, c1)" by (rule prod.exhaust)
  from persist_frame [OF q] rr_create q have "s = run_state_new run_id" by (auto simp: controller_create_def)
  moreover have "done_stages (run_state_new run_id) = {}" by (simp add: done_stages_def completed_def run_state_new_def)
  then have "in_order (run_state_new run_id)" unfolding in_order_def by (intro exI [of _ 0]) simp
  ultimately show ?case by (simp add: counts_ok_def execution_count_def completed_def run_state_new_def)
next
  case (rr_plan s c p r c' s')
  have "s' = s \<or> s' = s\<lparr>rs_plan := Some p\<rparr>"
  proof (cases "case rs_plan (rc_state c) of Some p' \<Rightarrow> p' \<noteq> p | None \<Rightarrow> False")
    case True
    then show ?thesis using rr_plan by (simp add: set_plan_def)
  next
    case False
    then have "persist (c\<lparr>rc_state := (rc_state c)\<lparr>rs_plan := Some p\<rparr>\<rparr>) = (r, c')" using rr_plan(4) by (auto simp: set_plan_def split: if_splits)
    from persist_frame [OF this] rr_plan show ?thesis by auto
  qed
  moreover have "completed (s\<lparr>rs_plan := Some p\<rparr>) = completed s" by (simp add: completed_def fun_eq_iff)
  ultimately show ?case using rr_plan(6)
    by (auto simp: in_order_def counts_ok_def done_stages_def is_invalid_def execution_count_def)
next
  case (rr_run s c "is" r c' s')
  from run_evolves [OF rr_run(4)] rr_run(2,3,5) have "s' = s \<or> state_steps s s'" unfolding evolves_def by auto
  then show ?case using steps_keep_order rr_run(6) by blast
qed

text \<open>
  C17. Every state a run can leave on disk, however often it died and was resumed: the stages done are the first so
  many of the order, only an invalid run has the report or the checksums beside them, and each stage was
  completed at most once. A complete run completed every stage exactly once, validly.
\<close>
theorem stages_complete_once_in_order:
  assumes "run_reach s"
  shows "in_order s \<and> (\<forall>stage. execution_count s stage = (if completed s stage then 1 else 0)) \<and>
    (is_complete s \<longrightarrow> (\<forall>stage. \<exists>rec. rs_stages s stage = Some rec \<and> sr_completed rec \<and> sr_valid rec \<and> sr_count rec = 1))"
proof -
  note inv = reach_in_order [OF assms]
  have "\<exists>rec. rs_stages s stage = Some rec \<and> sr_completed rec \<and> sr_valid rec \<and> sr_count rec = 1" if cmp: "is_complete s" for stage
  proof -
    have v: "\<not> is_invalid s" "Complete \<in> done_stages s" using cmp by (auto simp: is_complete_def done_stages_def)
    then obtain n where n: "done_stages s = set (take n ordered_stages)" using inv by (auto simp: in_order_def)
    have "15 \<le> n"
    proof (rule ccontr)
      assume "\<not> 15 \<le> n"
      then have "set (take n ordered_stages) \<subseteq> set (take 14 ordered_stages)" by (intro set_take_subset_set_take) simp
      then show False using v(2) n by (auto simp: ordered_stages_def)
    qed
    then have "take n ordered_stages = ordered_stages" by (simp add: ordered_stages_def)
    moreover have "stage \<in> set ordered_stages" by (cases stage) (simp_all add: ordered_stages_def)
    ultimately have "completed s stage" using n by (auto simp: done_stages_def)
    then obtain rec where "rs_stages s stage = Some rec" "sr_completed rec" by (auto simp: completed_def split: option.splits)
    moreover from this inv v(1) have "sr_valid rec" by (auto simp: counts_ok_def)
    moreover have "execution_count s stage = 1" using inv \<open>completed s stage\<close> by (simp add: counts_ok_def)
    ultimately show ?thesis by (simp add: execution_count_def)
  qed
  then show ?thesis using inv by (auto simp: counts_ok_def)
qed

end
