(* ===== verification/ControllerRuns.thy ===== *)
theory ControllerRuns
  imports Controller
begin

text \<open>
  Whole runs of the controller of \<open>Controller\<close>: they end, a run whose stages all go well is complete, and what is
  left behind when one goes wrong after the report. The rules that stop the search for the highest rate.
\<close>

section \<open>Every run ends\<close>

lemma begin_stage_same:
  assumes "begin_stage stage hashes now c = (Ok u, c')"
  shows "done_stages (rc_state c') = done_stages (rc_state c) \<and> stage \<notin> done_stages (rc_state c) \<and>
    is_invalid (rc_state c') = is_invalid (rc_state c) \<and> rs_plan (rc_state c') = rs_plan (rc_state c)"
proof -
  from assms obtain u' where al: "assert_stage_allowed stage (rc_state c) = Ok u'" by (auto simp: begin_stage_def st_bind_Ok_iff)
  note nx = next_not_completed [OF allowed_next [OF al]]
  let ?r0 = "case rs_stages (rc_state c) stage of Some r \<Rightarrow> r | None \<Rightarrow> default_record"
  let ?r = "?r0\<lparr>sr_hashes := hashes, sr_started := Some now, sr_ended := None, sr_commands := [], sr_artifacts := [],
               sr_queries := [], sr_valid := True, sr_completed := False\<rparr>"
  have "st_bind (persist (put_record stage ?r c)) (\<lambda>_ c. emit c) = (Ok u, c')"
    using assms al by (simp add: begin_stage_def Let_def)
  then obtain v c1 where "persist (put_record stage ?r c) = (Ok v, c1)" "emit c1 = (Ok u, c')" by (auto simp: st_bind_Ok_iff)
  from persist_frame [OF this(1)] emit_frame [OF this(2)] have "rc_state c' = rc_state (put_record stage ?r c)" by simp
  then show ?thesis using nx by (auto simp: put_record_def done_stages_def is_invalid_def)
qed

lemma complete_stage_done:
  assumes "complete_stage stage outcome now c = (Ok u, c')"
  shows "done_stages (rc_state c') = insert stage (done_stages (rc_state c))"
proof -
  have "completed (rc_state c') stage" "\<forall>x. x \<noteq> stage \<longrightarrow> rs_stages (rc_state c') x = rs_stages (rc_state c) x"
    using complete_stage_evolves [OF assms] by auto
  then show ?thesis by (auto simp: done_stages_def completed_def)
qed

text \<open>A turn that goes on has completed its stage.\<close>

lemma stage_turn_Ok:
  assumes "stage_turn p i stage c = (Ok x, c')"
  shows "done_stages (rc_state c') = insert stage (done_stages (rc_state c)) \<and> stage \<notin> done_stages (rc_state c) \<and>
    rc_disk c' = Some (rc_state c') \<and> (\<exists>d. rc_calls c' = rc_calls c @ [(stage, Some d)] \<and> \<not> completed d stage)"
proof -
  obtain u c1 where b: "begin_stage stage (rp_hashes p) (rt_began i) c = (Ok u, c1)"
    using assms by (auto simp: stage_turn_def st_bind_Ok_iff)
  let ?c = "c1\<lparr>rc_calls := rc_calls c1 @ [(stage, rc_disk c1)]\<rparr>"
  have ask: "rc_disk c1 = Some (rc_state c1)" "asked (rc_state c1) stage" "rc_calls c1 = rc_calls c"
    using begin_stage_evolves [OF b] by auto
  have "\<exists>outcome v. complete_stage stage outcome (rt_ended i) ?c = (Ok v, c')"
  proof (cases "rt_outcome i")
    case (Inl e)
    then show ?thesis using assms b by (auto simp: stage_turn_def st_bind_Ok_iff Let_def)
  next
    case (Inr outcome)
    then show ?thesis using assms b
      by (cases "replay_ok p stage i"; cases "samples_ok p stage i outcome") (auto simp: stage_turn_def st_bind_Ok_iff Let_def)
  qed
  then obtain outcome v where k: "complete_stage stage outcome (rt_ended i) ?c = (Ok v, c')" by blast
  have "completed (rc_state c1) stage = False" using ask(2) by (auto simp: asked_def dest: next_not_completed)
  then show ?thesis using begin_stage_same [OF b] complete_stage_done [OF k] complete_stage_evolves [OF k] ask by auto
qed

lemma archive_turn_Ok:
  assumes "archive_turn i stage c = (Ok x, c')"
  shows "done_stages (rc_state c') = insert stage (done_stages (rc_state c)) \<and> stage \<notin> done_stages (rc_state c)"
proof -
  obtain u c1 where b: "begin_stage stage [] (rt_began i) c = (Ok u, c1)"
    using assms by (auto simp: archive_turn_def st_bind_Ok_iff)
  have "\<exists>outcome v. complete_stage stage outcome (rt_ended i) (c1\<lparr>rc_calls := rc_calls c1 @ [(stage, rc_disk c1)]\<rparr>) = (Ok v, c')"
    using assms b by (cases "permits_after_invalidation stage"; cases "rt_outcome i") (auto simp: archive_turn_def st_bind_Ok_iff Let_def)
  then obtain outcome v where k: "complete_stage stage outcome (rt_ended i) (c1\<lparr>rc_calls := rc_calls c1 @ [(stage, rc_disk c1)]\<rparr>) = (Ok v, c')"
    by blast
  show ?thesis using begin_stage_same [OF b] complete_stage_done [OF k] by simp
qed

definition stages_left :: "run_state \<Rightarrow> nat" where
  "stages_left s = length (filter (\<lambda>stage. \<not> completed s stage) ordered_stages)"

lemma all_stages: "stage \<in> set ordered_stages"
  by (cases stage) (simp_all add: ordered_stages_def)

lemma left_insert:
  assumes "done_stages s' = insert stage (done_stages s)" "stage \<notin> done_stages s"
  shows "stages_left s = Suc (stages_left s')"
proof -
  have d: "distinct ordered_stages" by (simp add: ordered_stages_def)
  have c: "stages_left x = card (- done_stages x)" for x
  proof -
    have "set (filter (\<lambda>stage. \<not> completed x stage) ordered_stages) = - done_stages x" using all_stages by (auto simp: done_stages_def)
    then show ?thesis unfolding stages_left_def using distinct_card [OF distinct_filter [OF d]] by metis
  qed
  have f: "finite (- done_stages s')" by (rule finite_subset [OF _ finite_set [of ordered_stages]]) (use all_stages in auto)
  have "- done_stages s = insert stage (- done_stages s')" "stage \<notin> - done_stages s'" using assms by auto
  then show ?thesis using f by (simp add: c)
qed

lemma nothing_left: "stages_left s = 0 \<Longrightarrow> next_stage s = None"
  using all_stages by (auto simp: stages_left_def next_stage_def find_None_iff filter_empty_conv)

lemma run_stages_ends: "stages_left (rc_state c) \<le> length is \<Longrightarrow> run_stages p is c \<noteq> (Ok None, c')"
proof (induction "is" arbitrary: c)
  case Nil
  then show ?case using nothing_left [of "rc_state c"] by (simp add: run_stages.simps)
next
  case (Cons i "is")
  show ?case
  proof (cases "next_stage (rc_state c)")
    case None
    then show ?thesis by (simp add: run_stages.simps)
  next
    case (Some stage)
    obtain q c1 where q: "stage_turn p i stage c = (q, c1)" by (rule prod.exhaust)
    show ?thesis
    proof (cases "q = Ok None")
      case False
      then show ?thesis using Some q by (cases q) (auto simp: run_stages.simps split: option.splits)
    next
      case True
      have "stages_left (rc_state c) = Suc (stages_left (rc_state c1))"
        using stage_turn_Ok [OF q [unfolded True]] by (intro left_insert) auto
      then have "run_stages p is c1 \<noteq> (Ok None, c')" using Cons.prems by (intro Cons.IH) simp
      then show ?thesis using Some q True by (simp add: run_stages.simps)
    qed
  qed
qed

lemma archive_loop_ends: "stages_left (rc_state c) \<le> length is \<Longrightarrow> archive_loop is c \<noteq> (Ok None, c')"
proof (induction "is" arbitrary: c)
  case Nil
  then show ?case using nothing_left [of "rc_state c"] by (simp add: archive_loop.simps)
next
  case (Cons i "is")
  show ?case
  proof (cases "next_stage (rc_state c)")
    case None
    then show ?thesis by (simp add: archive_loop.simps)
  next
    case (Some stage)
    obtain q c1 where q: "archive_turn i stage c = (q, c1)" by (rule prod.exhaust)
    show ?thesis
    proof (cases q)
      case (Inl e)
      then show ?thesis using Some q by (simp add: archive_loop.simps)
    next
      case (Inr x)
      have "stages_left (rc_state c) = Suc (stages_left (rc_state c1))"
        using archive_turn_Ok [OF q [unfolded Inr]] by (intro left_insert) auto
      then have "archive_loop is c1 \<noteq> (Ok None, c')" using Cons.prems by (intro Cons.IH) simp
      then show ?thesis using Some q Inr by (simp add: archive_loop.simps)
    qed
  qed
qed

text \<open>
  C20. Every run ends. With at most fifteen answers of the runtime, fewer when stages are done already, a run
  returns a status or an error, whatever fails on the way.
\<close>
theorem every_run_ends:
  assumes "stages_left (rc_state c) \<le> length is"
  shows "fst (run_to_terminal is c) \<noteq> Ok None \<and> stages_left (rc_state c) \<le> 15"
proof -
  have bound: "stages_left (rc_state c) \<le> 15"
    using length_filter_le [of "\<lambda>stage. \<not> completed (rc_state c) stage" ordered_stages] by (simp add: stages_left_def ordered_stages_def)
  have "run_to_terminal is c \<noteq> (Ok None, c')" for c'
  proof (cases "rs_plan (rc_state c)")
    case (Some p)
    then show ?thesis using run_stages_ends [OF assms] by (simp add: run_to_terminal_def)
  next
    case None
    show ?thesis
    proof (cases "is_invalid (rc_state c)")
      case True
      then show ?thesis using None archive_loop_ends [OF assms] by (simp add: run_to_terminal_def archive_unplanned_def)
    next
      case False
      obtain q c1 where q: "invalidate (MissingArtifact (str ''persisted run plan is missing; benchmark stages cannot execute'')) c = (q, c1)"
        by (rule prod.exhaust)
      have "completed (rc_state c1) = completed (rc_state c)"
        using invalidate_evolves [OF q] by (auto simp: add_invalidation_def fun_eq_iff)
      then have "stages_left (rc_state c1) \<le> length is" using assms by (simp add: stages_left_def)
      then show ?thesis using None False q archive_loop_ends by (cases q) (auto simp: run_to_terminal_def archive_unplanned_def)
    qed
  qed
  then show ?thesis using bound by (metis prod.collapse)
qed

section \<open>A run that goes well\<close>

definition io_good :: "run_controller \<Rightarrow> bool" where
  "io_good c \<longleftrightarrow> rc_persists c = [] \<and> rc_emits c = []"

lemma good_write: "io_good c \<Longrightarrow> st_bind (persist c) (\<lambda>_ c. emit c) = (Ok (), c\<lparr>rc_disk := Some (rc_state c)\<rparr>)"
  by (simp add: io_good_def persist_def emit_def ensure_def)

lemma good_frame: "io_good c \<Longrightarrow> io_good (put_record stage r c)" "io_good c \<Longrightarrow> io_good (add_invalidation reason c)"
    "io_good c \<Longrightarrow> io_good (c\<lparr>rc_disk := d, rc_calls := calls\<rparr>)" "io_good (c\<lparr>rc_disk := d\<rparr>) = io_good c" "io_good (c\<lparr>rc_calls := calls\<rparr>) = io_good c"
  by (simp_all add: io_good_def put_record_def add_invalidation_def)

lemma next_allowed:
  assumes "next_stage s = Some stage"
  shows "assert_stage_allowed stage s = Ok ()"
  using assms next_stage_invalid [OF assms] by (auto simp: assert_stage_allowed_def ensure_def)

lemma good_begin:
  assumes "io_good c" "next_stage (rc_state c) = Some stage"
  shows "\<exists>c1. begin_stage stage hashes now c = (Ok (), c1) \<and> io_good c1"
  using assms by (simp add: begin_stage_def next_allowed Let_def good_write good_frame)

lemma good_complete:
  assumes "io_good c" "asked (rc_state c) stage"
  shows "\<exists>c1. complete_stage stage outcome now c = (Ok (), c1) \<and> io_good c1"
proof -
  from assms(2) obtain r where r: "next_stage (rc_state c) = Some stage" "rs_stages (rc_state c) stage = Some r"
    "sr_started r \<noteq> None" "\<not> sr_completed r" by (auto simp: asked_def)
  then show ?thesis using assms(1)
    by (simp add: complete_stage_def next_allowed need_def ensure_def Let_def good_write good_frame)
qed

text \<open>What the runtime answers for a stage when all goes well.\<close>

definition good_turn :: "run_plan \<Rightarrow> run_stage \<Rightarrow> run_turn \<Rightarrow> bool" where
  "good_turn p stage i \<longleftrightarrow>
     (\<exists>outcome. rt_outcome i = Inr outcome \<and> so_valid outcome \<and> \<not> so_restart outcome \<and> replay_ok p stage i \<and> samples_ok p stage i outcome)"

lemma stage_turn_good:
  assumes "io_good c" "next_stage (rc_state c) = Some stage" "rt_outcome i = Inr outcome" "replay_ok p stage i" "samples_ok p stage i outcome"
  shows "\<exists>c'. stage_turn p i stage c = (Ok (if so_restart outcome then Some RestartRequired else None), c') \<and> io_good c' \<and>
    rs_plan (rc_state c') = rs_plan (rc_state c) \<and> (is_invalid (rc_state c') \<longleftrightarrow> is_invalid (rc_state c) \<or> \<not> so_valid outcome)"
proof -
  obtain c1 where b: "begin_stage stage (rp_hashes p) (rt_began i) c = (Ok (), c1)" "io_good c1"
    using good_begin [OF assms(1,2)] by blast
  let ?c = "c1\<lparr>rc_calls := rc_calls c1 @ [(stage, rc_disk c1)]\<rparr>"
  have ask: "asked (rc_state ?c) stage" using begin_stage_evolves [OF b(1)] by simp
  have "io_good ?c" using b(2) by (simp add: good_frame)
  from good_complete [OF this ask] obtain c2 where k: "complete_stage stage outcome (rt_ended i) ?c = (Ok (), c2)" "io_good c2" by blast
  have pl: "rs_plan (rc_state c2) = rs_plan (rc_state ?c)"
    using k(1) by (auto simp: complete_stage_def st_bind_Ok_iff Let_def put_record_def add_invalidation_def
        dest!: persist_frame emit_frame split: if_splits)
  have "stage_turn p i stage c = (Ok (if so_restart outcome then Some RestartRequired else None), c2)"
    using assms(3-5) b(1) k(1) by (simp add: stage_turn_def Let_def)
  then show ?thesis using k pl complete_stage_evolves [OF k(1)] begin_stage_same [OF b(1)] by auto
qed

definition stages_due :: "run_state \<Rightarrow> run_stage list" where
  "stages_due s = filter (\<lambda>stage. \<not> completed s stage) ordered_stages"

lemma find_filter: "find P xs = (case filter P xs of [] \<Rightarrow> None | x # _ \<Rightarrow> Some x)"
  by (induction xs) auto

lemma due_insert:
  assumes "stages_due s = stage # due" "done_stages s' = insert stage (done_stages s)"
  shows "stages_due s' = due"
proof -
  have d: "distinct (stages_due s)" unfolding stages_due_def by (rule distinct_filter) (simp add: ordered_stages_def)
  have "\<not> completed s' x \<longleftrightarrow> \<not> completed s x \<and> x \<noteq> stage" for x
  proof -
    have "x \<in> done_stages s' \<longleftrightarrow> x = stage \<or> x \<in> done_stages s" unfolding assms(2) by simp
    then show ?thesis by (auto simp: done_stages_def)
  qed
  then have "stages_due s' = filter (\<lambda>x. x \<noteq> stage) (stages_due s)" by (simp add: stages_due_def conj_commute)
  also have "\<dots> = filter (\<lambda>x. x \<noteq> stage) due" using assms(1) by simp
  also have "\<dots> = due" using d assms(1) by (auto intro!: filter_True)
  finally show ?thesis .
qed

lemma good_run:
  assumes "io_good c" "\<not> is_invalid (rc_state c)" "list_all2 (good_turn p) (stages_due (rc_state c)) is"
  shows "\<exists>c'. run_stages p is c = (Ok (Some LComplete), c') \<and> map fst (rc_calls c') = map fst (rc_calls c) @ stages_due (rc_state c) \<and>
    stages_due (rc_state c') = [] \<and> \<not> is_invalid (rc_state c') \<and> (stages_due (rc_state c) \<noteq> [] \<longrightarrow> rc_disk c' = Some (rc_state c'))"
  using assms
proof (induction "is" arbitrary: c)
  case Nil
  then have "stages_due (rc_state c) = []" by simp
  then show ?case using Nil by (simp add: run_stages.simps next_stage_def find_filter stages_due_def final_status_def)
next
  case (Cons i "is")
  from Cons.prems(3) obtain stage due where due: "stages_due (rc_state c) = stage # due" "good_turn p stage i" "list_all2 (good_turn p) due is"
    by (auto simp: list_all2_Cons2)
  have nx: "next_stage (rc_state c) = Some stage" using due(1) Cons.prems(2) by (simp add: next_stage_def find_filter stages_due_def)
  from due(2) obtain outcome where o: "rt_outcome i = Inr outcome" "so_valid outcome" "\<not> so_restart outcome" "replay_ok p stage i" "samples_ok p stage i outcome"
    by (auto simp: good_turn_def)
  from stage_turn_good [OF Cons.prems(1) nx o(1,4,5)] o obtain c1 where t: "stage_turn p i stage c = (Ok None, c1)" "io_good c1"
    "\<not> is_invalid (rc_state c1)" using Cons.prems(2) by auto
  note ok = stage_turn_Ok [OF t(1)]
  have due1: "stages_due (rc_state c1) = due" using ok by (intro due_insert [OF due(1)]) simp
  from Cons.IH [OF t(2,3)] due(3) due1 obtain c' where c': "run_stages p is c1 = (Ok (Some LComplete), c')"
    "map fst (rc_calls c') = map fst (rc_calls c1) @ due" "stages_due (rc_state c') = []" "\<not> is_invalid (rc_state c')"
    "due \<noteq> [] \<longrightarrow> rc_disk c' = Some (rc_state c')" by auto
  moreover have "run_stages p (i # is) c = run_stages p is c1" using nx t(1) by (simp add: run_stages.simps)
  moreover have "rc_disk c' = Some (rc_state c')"
  proof (cases "due = []")
    case True
    then have "is = []" using due(3) by simp
    then have "c' = c1" using c'(1) t(3) due1 True by (simp add: run_stages.simps next_stage_def find_filter stages_due_def)
    then show ?thesis using ok by simp
  qed (use c' in auto)
  ultimately show ?case using ok due(1) by auto
qed

text \<open>
  C21. A run that goes well is complete. From any valid state with a plan, fresh or resumed, if the file calls work
  and the runtime answers every stage still due with a valid outcome, enough samples and matching replays,
  the run executes exactly the stages due, each once and in order, and ends complete, on disk too.
\<close>
theorem good_run_completes:
  assumes "rs_plan (rc_state c) = Some p" and "\<not> is_invalid (rc_state c)" and "rc_persists c = []" and "rc_emits c = []"
    and "rc_calls c = []" and "stages_due (rc_state c) \<noteq> []" and "list_all2 (good_turn p) (stages_due (rc_state c)) is"
  shows "\<exists>c'. run_to_terminal is c = (Ok (Some LComplete), c') \<and> map fst (rc_calls c') = stages_due (rc_state c) \<and>
    (\<exists>s. rc_disk c' = Some s \<and> is_complete s)"
proof -
  have "io_good c" using assms(3,4) by (simp add: io_good_def)
  from good_run [OF this assms(2,7)] assms(5,6) obtain c' where c': "run_stages p is c = (Ok (Some LComplete), c')"
    "map fst (rc_calls c') = stages_due (rc_state c)" "stages_due (rc_state c') = []" "\<not> is_invalid (rc_state c')" "rc_disk c' = Some (rc_state c')"
    by auto
  have "completed (rc_state c') Complete" using c'(3) all_stages by (auto simp: stages_due_def filter_empty_conv)
  then show ?thesis using c' assms(1) by (auto simp: run_to_terminal_def is_complete_def)
qed

section \<open>After the report\<close>

text \<open>
  A run that is invalidated by its last stages keeps its report. When the report is done and the checksums come
  out invalid, the run ends as archived with only the checksums executed, and no later run executes anything:
  the report that was written while the run was valid stays the report of an invalid run.
\<close>
theorem late_invalidation_keeps_report:
  assumes "rs_plan (rc_state c) = Some p" and "\<not> is_invalid (rc_state c)" and "next_stage (rc_state c) = Some Checksums"
    and "rc_persists c = []" and "rc_emits c = []" and "rc_calls c = []" and "rt_outcome i = Inr outcome" and "\<not> so_valid outcome" and "\<not> so_restart outcome"
  shows "\<exists>c'. run_to_terminal (i # is) c = (Ok (Some InvalidArchived), c') \<and> map fst (rc_calls c') = [Checksums] \<and>
    next_stage (rc_state c') = None"
proof -
  have g: "io_good c" using assms(4,5) by (simp add: io_good_def)
  have "completed (rc_state c) Report"
    using next_stage_before [OF assms(3,2), of "butlast (butlast ordered_stages)" "[Complete]"] by (simp add: ordered_stages_def)
  have "replay_ok p Checksums i" "samples_ok p Checksums i outcome" by (simp_all add: replay_ok_def samples_ok_def stage_policy_def policy_for_stage_def)
  from stage_turn_good [OF g assms(3,7) this] assms(8,9) obtain c1 where t: "stage_turn p i Checksums c = (Ok None, c1)" "is_invalid (rc_state c1)" by auto
  have d: "done_stages (rc_state c1) = insert Checksums (done_stages (rc_state c))" "map fst (rc_calls c1) = [Checksums]"
    using stage_turn_Ok [OF t(1)] assms(6) by auto
  then have "completed (rc_state c1) Report \<and> completed (rc_state c1) Checksums"
    using \<open>completed (rc_state c) Report\<close> by (auto simp: done_stages_def set_eq_iff)
  then have "next_stage (rc_state c1) = None" using t(2) by (simp add: next_stage_def)
  then show ?thesis using t d assms(1,3) by (simp add: run_to_terminal_def run_stages.simps final_status_def)
qed

lemma run_stages_Cons:
  "run_stages p (i # is) c = (Ok x, c') \<longleftrightarrow>
    (case next_stage (rc_state c) of
       None \<Rightarrow> x = Some (final_status (rc_state c)) \<and> c' = c
     | Some stage \<Rightarrow> \<exists>y c1. stage_turn p i stage c = (Ok y, c1) \<and>
         (case y of Some s \<Rightarrow> x = Some s \<and> c' = c1 | None \<Rightarrow> run_stages p is c1 = (Ok x, c')))"
  by (auto simp: run_stages.simps [of p "i # is"] st_bind_Ok_iff split: option.splits)

lemma run_stages_Nil: "run_stages p [] c = (Ok x, c') \<Longrightarrow> c' = c"
  by (auto simp: run_stages.simps split: option.splits)

lemma run_stages_disk:
  "run_stages p is c = (Ok x, c') \<Longrightarrow> rc_disk c = Some (rc_state c) \<Longrightarrow> rc_disk c' = Some (rc_state c')"
proof (induction "is" arbitrary: c)
  case Nil
  then show ?case by (auto dest: run_stages_Nil)
next
  case (Cons i "is")
  then show ?case by (auto simp: run_stages_Cons split: option.splits dest: stage_turn_Ok)
qed

lemma run_stages_calls:
  assumes "run_stages p is c = (Ok x, c')" "completed (rc_state c') stage" "\<not> completed (rc_state c) stage"
  shows "rc_disk c' = Some (rc_state c') \<and> (\<exists>d. (stage, Some d) \<in> set (rc_calls c') \<and> \<not> completed d stage)"
  using assms
proof (induction "is" arbitrary: c)
  case Nil
  then show ?case by (auto dest: run_stages_Nil)
next
  case (Cons i "is")
  then obtain s y c1 where t: "stage_turn p i s c = (Ok y, c1)"
    and k: "case y of Some s \<Rightarrow> x = Some s \<and> c' = c1 | None \<Rightarrow> run_stages p is c1 = (Ok x, c')"
    by (auto simp: run_stages_Cons split: option.splits)
  note ok = stage_turn_Ok [OF t]
  show ?case
  proof (cases "completed (rc_state c1) stage")
    case True
    have "stage \<in> done_stages (rc_state c1)" "stage \<notin> done_stages (rc_state c)" using True Cons.prems(3) by (simp_all add: done_stages_def)
    then have st: "stage = s" using ok by simp
    from ok obtain d0 where d0: "rc_calls c1 = rc_calls c @ [(s, Some d0)]" "\<not> completed d0 s" by blast
    then have d: "(stage, Some d0) \<in> set (rc_calls c1)" "\<not> completed d0 stage" using st by simp_all
    show ?thesis
    proof (cases y)
      case None
      then have r: "run_stages p is c1 = (Ok x, c')" using k by simp
      then have "set (rc_calls c1) \<subseteq> set (rc_calls c')" using run_stages_evolves [OF r] unfolding evolves_def by auto
      then show ?thesis using d run_stages_disk [OF r] ok by blast
    next
      case (Some s)
      then show ?thesis using k d ok by auto
    qed
  next
    case False
    then have "y = None" using k Cons.prems(2) by (cases y) auto
    then show ?thesis using k Cons.IH [OF _ Cons.prems(2) False] by simp
  qed
qed

lemma stage_turn_Some:
  assumes "stage_turn p i stage c = (Ok (Some x), c')"
  shows "x = RestartRequired"
proof -
  obtain u c1 where b: "begin_stage stage (rp_hashes p) (rt_began i) c = (Ok u, c1)"
    using assms by (auto simp: stage_turn_def st_bind_Ok_iff)
  show ?thesis
  proof (cases "rt_outcome i")
    case (Inl e)
    then show ?thesis using assms b by (auto simp: stage_turn_def st_bind_Ok_iff Let_def)
  next
    case (Inr outcome)
    then show ?thesis using assms b
      by (cases "replay_ok p stage i"; cases "samples_ok p stage i outcome") (auto simp: stage_turn_def st_bind_Ok_iff Let_def split: if_splits)
  qed
qed

lemma run_stages_final:
  "run_stages p is c = (Ok (Some LComplete), c') \<Longrightarrow> next_stage (rc_state c') = None \<and> \<not> is_invalid (rc_state c')"
proof (induction "is" arbitrary: c)
  case Nil
  then show ?case by (auto simp: run_stages.simps final_status_def split: option.splits if_splits)
next
  case (Cons i "is")
  then show ?case
    by (auto simp: run_stages_Cons final_status_def split: option.splits if_splits dest: stage_turn_Some)
qed

text \<open>
  C40. The checksums never match. In every run that ends complete and executed the checksums stage, the state file
  the runtime saw when it wrote \<open>SHA256SUMS\<close>, which lists that file, is not the state file that is left.
\<close>
theorem checksums_are_stale:
  assumes "rs_plan (rc_state c) = Some p" and "\<not> completed (rc_state c) Checksums" and "run_to_terminal is c = (Ok (Some LComplete), c')"
  shows "\<exists>d s. (Checksums, Some d) \<in> set (rc_calls c') \<and> rc_disk c' = Some s \<and> d \<noteq> s"
proof -
  have r: "run_stages p is c = (Ok (Some LComplete), c')" using assms(1,3) by (simp add: run_to_terminal_def)
  have "completed (rc_state c') Checksums"
    using run_stages_final [OF r] by (auto simp: next_stage_def find_None_iff ordered_stages_def)
  from run_stages_calls [OF r this assms(2)] this show ?thesis by metis
qed

section \<open>When the search for the highest rate stops\<close>

record rate_observation =
  ro_target :: u64
  ro_achieved :: u64
  ro_freshness :: u64
  ro_backlog :: u64
  ro_growing :: bool
  ro_correct :: bool
  ro_gate :: "rstr option"

definition BACKLOG_LIMIT_BYTES :: u64 where "BACKLOG_LIMIT_BYTES = 10 * 2 ^ 30"

definition missed_rate :: "rate_observation \<Rightarrow> bool" where
  "missed_rate r = (sat_mul (ro_achieved r) 100 < sat_mul (ro_target r) 95)"

definition rate_search_stop :: "rate_observation list \<Rightarrow> run_invalidation option" where
  "rate_search_stop observations =
     (if observations = [] then None
      else
        let latest = last observations; recent = take 3 (rev observations) in
        case ro_gate latest of
          Some reason \<Rightarrow> Some (ResourceSafetyGate reason)
        | None \<Rightarrow>
            if \<not> ro_correct latest then Some (ResultDigestMismatch Q1 0)
            else if 1000 < ro_freshness latest then Some (FreshnessP99Exceeded 1000 (ro_freshness latest))
            else if length recent = 3 \<and> list_all missed_rate recent then Some (SourceRateMissed (ro_target latest) (ro_achieved latest))
            else if length recent = 3 \<and> list_all (\<lambda>r. BACKLOG_LIMIT_BYTES < ro_backlog r \<and> ro_growing r) recent
            then Some (ResourceSafetyGate (str ''CDC backlog exceeded 10 GiB and grew for three intervals''))
            else None)"

definition RUNTIME_FREE_SPACE_FLOOR_PERCENT :: u64 where "RUNTIME_FREE_SPACE_FLOOR_PERCENT = 15"

definition pause_for_free_space :: "u64 \<Rightarrow> u64 \<Rightarrow> bool" where
  "pause_for_free_space capacity free =
     (capacity = 0 \<or> sat_mul free 100 < sat_mul capacity RUNTIME_FREE_SPACE_FLOOR_PERCENT)"

lemma sat_percent_less:
  fixes a b k :: u64
  assumes "uint a < 2 ^ 57" "uint b < 2 ^ 57" "uint k \<le> 100"
  shows "sat_mul a 100 < sat_mul b k \<longleftrightarrow> 100 * uint a < uint k * uint b"
proof -
  have 1: "uint (sat_mul a 100) = uint a * 100" using uint_sat_mul [of a 100] assms by simp
  have "uint b * uint k \<le> uint b * 100" using assms(3) by (intro mult_left_mono) auto
  also have "\<dots> < 2 ^ 64" using assms(2) by simp
  finally have 2: "uint (sat_mul b k) = uint b * uint k" by (intro uint_sat_mul) simp
  show ?thesis unfolding word_less_def 1 2 by (simp add: algebra_simps)
qed

text \<open>
  C33. The stop rules, over the integers. For rates below \<open>2 ^ 57\<close> the search goes on after an observation exactly when
  it passed (no gate, correct, p99 freshness at most a second) and the last three neither all missed 95
  percent of their target nor all had a growing backlog above 10 GiB. The free-space floor is 15 percent.
\<close>
theorem search_goes_on_iff:
  assumes "\<forall>r \<in> set obs. uint (ro_achieved r) < 2 ^ 57 \<and> uint (ro_target r) < 2 ^ 57" and "obs \<noteq> []"
    and "uint free < 2 ^ 57" "uint capacity < 2 ^ 57"
  shows "(rate_search_stop obs = None \<longleftrightarrow>
      ro_gate (last obs) = None \<and> ro_correct (last obs) \<and> ro_freshness (last obs) \<le> 1000 \<and>
      (3 \<le> length obs \<longrightarrow>
         \<not> (\<forall>r \<in> set (take 3 (rev obs)). 100 * uint (ro_achieved r) < 95 * uint (ro_target r)) \<and>
         \<not> (\<forall>r \<in> set (take 3 (rev obs)). 10 * 2 ^ 30 < uint (ro_backlog r) \<and> ro_growing r))) \<and>
    (pause_for_free_space capacity free \<longleftrightarrow> capacity = 0 \<or> 100 * uint free < 15 * uint capacity)"
proof -
  have sub: "set (take 3 (rev obs)) \<subseteq> set obs" by (metis set_rev set_take_subset)
  have miss: "list_all missed_rate (take 3 (rev obs)) \<longleftrightarrow> (\<forall>r \<in> set (take 3 (rev obs)). 100 * uint (ro_achieved r) < 95 * uint (ro_target r))"
    unfolding list_all_iff
  proof (rule ball_cong [OF refl])
    fix r assume "r \<in> set (take 3 (rev obs))"
    then have "r \<in> set obs" using sub by blast
    then show "missed_rate r \<longleftrightarrow> 100 * uint (ro_achieved r) < 95 * uint (ro_target r)"
      using sat_percent_less [of "ro_achieved r" "ro_target r" 95] assms(1) by (simp add: missed_rate_def)
  qed
  have backlog: "BACKLOG_LIMIT_BYTES < b \<longleftrightarrow> 10 * 2 ^ 30 < uint b" for b
    by (simp add: BACKLOG_LIMIT_BYTES_def word_less_def)
  have len: "length (take 3 (rev obs)) = 3 \<longleftrightarrow> 3 \<le> length obs" by auto
  have "pause_for_free_space capacity free \<longleftrightarrow> capacity = 0 \<or> 100 * uint free < 15 * uint capacity"
    using sat_percent_less [OF assms(3,4), of 15] by (simp add: pause_for_free_space_def RUNTIME_FREE_SPACE_FLOOR_PERCENT_def)
  moreover have "rate_search_stop obs = None \<longleftrightarrow>
      ro_gate (last obs) = None \<and> ro_correct (last obs) \<and> ro_freshness (last obs) \<le> 1000 \<and>
      (3 \<le> length obs \<longrightarrow>
         \<not> (\<forall>r \<in> set (take 3 (rev obs)). 100 * uint (ro_achieved r) < 95 * uint (ro_target r)) \<and>
         \<not> (\<forall>r \<in> set (take 3 (rev obs)). 10 * 2 ^ 30 < uint (ro_backlog r) \<and> ro_growing r))"
    unfolding rate_search_stop_def Let_def miss len using assms(2)
    by (auto simp: list_all_iff backlog not_less split: option.splits if_splits)
  ultimately show ?thesis by blast
qed

section \<open>The command line\<close>

text \<open>\<open>validate_engines\<close> of \<open>r1ctl\<close>.\<close>

definition validate_engines :: "run_mode \<Rightarrow> engine_kind list \<Rightarrow> bool" where
  "validate_engines mode engines =
     (engines \<noteq> [] \<and>
      \<not> (mode = Correctness \<and> \<not> (Graydb \<in> set engines \<and> Clickhouse \<in> set engines)) \<and>
      \<not> (length engines = 2 \<and> engines ! 0 = engines ! 1))"

section \<open>Examples\<close>

definition sample_plan :: run_plan where
  "sample_plan = \<lparr>rp_profile = MacSmoke,
     rp_spec = \<lparr>ps_minimum_bytes = 2 ^ 30, ps_repetitions = 1, ps_warmup_secs = 60, ps_quiet_secs = 120, ps_fixed_rate_secs = 120,
       ps_search_step_secs = 120, ps_maximum_rate = 2000\<rparr>,
     rp_mode = Correctness, rp_engines = [Graydb], rp_hashes = []\<rparr>"

definition demo_query :: "query_id \<Rightarrow> stage_query_record" where
  "demo_query q = \<lparr>qr_query = q, qr_engine = Some Graydb, qr_target_rate = None, qr_checkpoint = 0, qr_started = 0, qr_completed = None,
     qr_target_lsn = 0, qr_visible_lsn = 0, qr_digest = [], qr_elapsed = 0, qr_freshness = None, qr_rows_read = None,
     qr_bytes_read = None, qr_failed = False, qr_failure = None\<rparr>"

definition demo_outcome :: stage_outcome where
  "demo_outcome = default_outcome\<lparr>so_queries := concat (map (\<lambda>q. replicate 30 (demo_query q)) [Q1, Q2, Q3, Q4, Q5])\<rparr>"

definition demo_turn :: "stage_outcome \<Rightarrow> run_turn" where
  "demo_turn out = \<lparr>rt_outcome = Inr out, rt_evidence = Inl [], rt_elapsed = 0, rt_began = 1, rt_ended = 2\<rparr>"

definition demo_state :: "nat \<Rightarrow> run_state" where
  "demo_state n = \<lparr>rs_run_id = str ''r'',
     rs_stages = (\<lambda>stage. if stage \<in> set (take n ordered_stages)
       then Some (default_record\<lparr>sr_started := Some 0, sr_completed := True, sr_valid := True, sr_count := 1\<rparr>) else None),
     rs_invalidations = [], rs_plan = Some sample_plan\<rparr>"

definition demo_ctl :: "nat \<Rightarrow> run_controller" where
  "demo_ctl n = \<lparr>rc_state = demo_state n, rc_disk = Some (demo_state n), rc_persists = [], rc_emits = [], rc_calls = []\<rparr>"

lemma demo_completed: "completed (demo_state n) stage \<longleftrightarrow> stage \<in> set (take n ordered_stages)"
  by (simp add: completed_def demo_state_def default_record_def)

lemma demo_has_plan [simp]: "rs_plan (demo_state n) = Some sample_plan"
  by (simp add: demo_state_def)

lemma demo_valid: "\<not> is_invalid (demo_state n)"
  by (simp add: is_invalid_def demo_state_def)

lemma demo_due: "stages_due (demo_state 0) = ordered_stages" "stages_left (demo_state 0) = 15"
  by (simp_all add: stages_due_def stages_left_def demo_completed ordered_stages_def)

lemma demo_good: "good_turn sample_plan stage (demo_turn demo_outcome)"
proof -
  have counts: "query_sample_counts (so_queries demo_outcome) (rp_engines sample_plan) = [30, 30, 30, 30, 30]"
    by (simp add: query_sample_counts_def demo_outcome_def sample_plan_def demo_query_def filter_replicate)
  have "samples_ok sample_plan stage (demo_turn demo_outcome) demo_outcome"
    unfolding samples_ok_def counts
    by (auto simp: stage_policy_def policy_for_stage_def policy_validates_def demo_turn_def MINIMUM_QUERY_SAMPLES_def sample_plan_def split: option.splits)
  moreover have "replay_ok sample_plan stage (demo_turn demo_outcome)" by (simp add: replay_ok_def sample_plan_def)
  ultimately show ?thesis
    by (auto simp: good_turn_def demo_turn_def demo_outcome_def default_outcome_def)
qed

lemma demo_list_all: "list_all2 (good_turn sample_plan) (stages_due (rc_state (demo_ctl 0))) (replicate 15 (demo_turn demo_outcome))"
proof -
  have "length ordered_stages = 15" by (simp add: ordered_stages_def)
  then show ?thesis by (simp add: demo_ctl_def demo_due list_all2_conv_all_nth demo_good)
qed

lemma demo_ctl_simps: "rs_plan (rc_state (demo_ctl n)) = Some sample_plan" "\<not> is_invalid (rc_state (demo_ctl n))" "rc_persists (demo_ctl n) = []"
    "rc_emits (demo_ctl n) = []" "rc_calls (demo_ctl n) = []" "rc_disk (demo_ctl n) = Some (demo_state n)" "rc_state (demo_ctl n) = demo_state n"
  by (simp_all add: demo_ctl_def demo_state_def is_invalid_def)

theorem good_run_completes_witness:
  "\<exists>c'. run_to_terminal (replicate 15 (demo_turn demo_outcome)) (demo_ctl 0) = (Ok (Some LComplete), c') \<and>
    map fst (rc_calls c') = ordered_stages"
proof -
  have "stages_due (rc_state (demo_ctl 0)) \<noteq> []" by (simp add: demo_ctl_simps demo_due ordered_stages_def)
  from good_run_completes [OF demo_ctl_simps(1-5) this demo_list_all] show ?thesis by (auto simp: demo_ctl_simps demo_due)
qed

lemma sample_run: "\<exists>c'. run_stages sample_plan (replicate 15 (demo_turn demo_outcome)) (demo_ctl 0) = (Ok (Some LComplete), c') \<and>
    map fst (rc_calls c') = ordered_stages \<and> rc_disk c' = Some (rc_state c') \<and> stages_due (rc_state c') = [] \<and> \<not> is_invalid (rc_state c')"
proof -
  have "io_good (demo_ctl 0)" by (simp add: io_good_def demo_ctl_simps)
  from good_run [OF this demo_ctl_simps(2) demo_list_all] show ?thesis by (auto simp: demo_ctl_simps demo_due ordered_stages_def)
qed

theorem runtime_asked_in_order_witness:
  "\<exists>c' d. run_to_terminal (replicate 15 (demo_turn demo_outcome)) (demo_ctl 0) = (Ok (Some LComplete), c') \<and>
    (Report, Some d) \<in> set (rc_calls c') \<and> (\<forall>x \<in> set (take 12 ordered_stages). completed d x \<or> is_invalid d)"
proof -
  obtain c' where c': "run_stages sample_plan (replicate 15 (demo_turn demo_outcome)) (demo_ctl 0) = (Ok (Some LComplete), c')"
    "map fst (rc_calls c') = ordered_stages" using sample_run by blast
  then have r: "run_to_terminal (replicate 15 (demo_turn demo_outcome)) (demo_ctl 0) = (Ok (Some LComplete), c')"
    by (simp add: run_to_terminal_def demo_ctl_simps)
  have "Report \<in> set (map fst (rc_calls c'))" unfolding c'(2) by (simp add: ordered_stages_def)
  then obtain d where d: "(Report, d) \<in> set (rc_calls c')" by auto
  from runtime_asked_in_order [OF r demo_ctl_simps(5) d] obtain s where "d = Some s"
    "\<not> is_invalid s \<longrightarrow> (\<forall>before after. ordered_stages = before @ Report # after \<longrightarrow> (\<forall>x \<in> set before. completed s x))" by blast
  moreover have "ordered_stages = take 12 ordered_stages @ Report # [Checksums, Complete]" by (simp add: ordered_stages_def)
  ultimately show ?thesis using r d by metis
qed

theorem completed_stage_is_final_witness:
  "Seed \<notin> fst ` set (rc_calls (snd (run_to_terminal [demo_turn demo_outcome] (demo_ctl 4))))"
proof -
  have res: "controller_resume (str ''r'') (demo_ctl 4) = (Ok (), demo_ctl 4)"
    by (simp add: controller_resume_def demo_ctl_def demo_state_def)
  have "completed (demo_state 4) Seed" by (simp add: demo_completed ordered_stages_def)
  from completed_stage_is_final [OF demo_ctl_simps(6) res prod.collapse [symmetric] demo_ctl_simps(5) this]
  show ?thesis by blast
qed

lemma demo_reach: "run_reach (run_state_new (str ''r''))" "run_reach (demo_state 0)"
proof -
  show new: "run_reach (run_state_new (str ''r''))"
    by (rule rr_create [of "str ''r''" "(demo_ctl 0)\<lparr>rc_disk := None\<rparr>" "Ok ()"
          "(demo_ctl 0)\<lparr>rc_state := run_state_new (str ''r''), rc_disk := Some (run_state_new (str ''r''))\<rparr>"])
      (simp_all add: controller_create_def persist_def Let_def demo_ctl_def)
  have "demo_state 0 = (run_state_new (str ''r''))\<lparr>rs_plan := Some sample_plan\<rparr>"
    by (simp add: demo_state_def run_state_new_def)
  then show "run_reach (demo_state 0)"
    by (intro rr_plan [OF new, of "(demo_ctl 0)\<lparr>rc_state := run_state_new (str ''r''), rc_disk := Some (run_state_new (str ''r''))\<rparr>" sample_plan "Ok ()" "demo_ctl 0"])
      (simp_all add: set_plan_def persist_def Let_def demo_ctl_def run_state_new_def)
qed

theorem stages_complete_once_in_order_witness:
  "\<exists>s. run_reach s \<and> is_complete s \<and> execution_count s FailureSequence = 1"
proof -
  obtain c' where c': "run_stages sample_plan (replicate 15 (demo_turn demo_outcome)) (demo_ctl 0) = (Ok (Some LComplete), c')"
    "rc_disk c' = Some (rc_state c')" "stages_due (rc_state c') = []" "\<not> is_invalid (rc_state c')" using sample_run by blast
  then have "run_to_terminal (replicate 15 (demo_turn demo_outcome)) (demo_ctl 0) = (Ok (Some LComplete), c')"
    by (simp add: run_to_terminal_def demo_ctl_simps)
  from rr_run [OF demo_reach(2) demo_ctl_simps(7,6) this c'(2)] have r: "run_reach (rc_state c')" .
  moreover have "is_complete (rc_state c')" "completed (rc_state c') FailureSequence"
    using c'(3,4) all_stages by (auto simp: is_complete_def stages_due_def filter_empty_conv)
  ultimately show ?thesis using stages_complete_once_in_order [OF r] by auto
qed

theorem every_run_ends_witness:
  "fst (run_to_terminal (replicate 15 (demo_turn demo_outcome)) ((demo_ctl 0)\<lparr>rc_persists := [Persisted, Renamed False]\<rparr>)) \<noteq> Ok None"
  using every_run_ends [of "(demo_ctl 0)\<lparr>rc_persists := [Persisted, Renamed False]\<rparr>" "replicate 15 (demo_turn demo_outcome)"]
  by (simp add: demo_ctl_simps demo_due)

theorem late_invalidation_keeps_report_witness:
  "\<exists>c'. run_to_terminal [demo_turn (default_outcome\<lparr>so_valid := False\<rparr>)] (demo_ctl 13) = (Ok (Some InvalidArchived), c') \<and>
    map fst (rc_calls c') = [Checksums]"
proof -
  have "next_stage (rc_state (demo_ctl 13)) = Some Checksums"
    using demo_valid by (simp add: next_stage_def demo_ctl_simps demo_completed) (simp add: ordered_stages_def)
  from late_invalidation_keeps_report [OF demo_ctl_simps(1,2) this demo_ctl_simps(3-5), of "demo_turn (default_outcome\<lparr>so_valid := False\<rparr>)"
      "default_outcome\<lparr>so_valid := False\<rparr>" "[]"]
  show ?thesis by (auto simp: demo_turn_def default_outcome_def)
qed

theorem checksums_are_stale_witness:
  "\<exists>c' d s. run_to_terminal (replicate 15 (demo_turn demo_outcome)) (demo_ctl 0) = (Ok (Some LComplete), c') \<and>
    (Checksums, Some d) \<in> set (rc_calls c') \<and> rc_disk c' = Some s \<and> d \<noteq> s"
proof -
  obtain c' where "run_stages sample_plan (replicate 15 (demo_turn demo_outcome)) (demo_ctl 0) = (Ok (Some LComplete), c')"
    using sample_run by blast
  then have r: "run_to_terminal (replicate 15 (demo_turn demo_outcome)) (demo_ctl 0) = (Ok (Some LComplete), c')"
    by (simp add: run_to_terminal_def demo_ctl_simps)
  have "\<not> completed (rc_state (demo_ctl 0)) Checksums" by (simp add: demo_ctl_simps demo_completed)
  from checksums_are_stale [OF demo_ctl_simps(1) this r] r show ?thesis by blast
qed

theorem search_goes_on_iff_witness:
  "rate_search_stop [\<lparr>ro_target = 2000, ro_achieved = 1950, ro_freshness = 800, ro_backlog = 0, ro_growing = False, ro_correct = True, ro_gate = None\<rparr>] = None \<and>
    pause_for_free_space 1000 149"
  using search_goes_on_iff [of "[\<lparr>ro_target = 2000, ro_achieved = 1950, ro_freshness = 800, ro_backlog = 0, ro_growing = False, ro_correct = True, ro_gate = None\<rparr>]" 149 1000]
  by simp

end
