(* ===== verification/QueryDigest.thy ===== *)
theory QueryDigest
  imports Generator PrefixCodec Verdict "HOL-Library.List_Lexorder" "HOL-Library.Multiset"
begin

text \<open>
  \<open>crates/graydb-r1/src/query.rs\<close>: the schedule of benchmark queries and their parameters, the digest that compares
  the results of two engines, and the text of a query. How an \<open>f64\<close> prints and SHA-256 are parameters.
\<close>

section \<open>Parameters\<close>

record logical_checkpoint =
  cp_sequence :: u64
  cp_source_lsn :: u64

record query_parameters =
  qp_window_end :: i64
  qp_tenant :: u64
  qp_tenant_set :: "u64 list"

definition params_for_checkpoint :: "u64 \<Rightarrow> logical_checkpoint \<Rightarrow> query_parameters" where
  "params_for_checkpoint seed c =
     (let tenant = 1 + mix64 (seed XOR cp_sequence c) mod 10000
      in \<lparr>qp_window_end = 1609459200000000 + mix64 (seed XOR cp_sequence c XOR cp_source_lsn c) mod 31536000 * 1000000,
          qp_tenant = tenant,
          qp_tenant_set = take 8 (map (\<lambda>i. 1 + mix64 (seed XOR (cp_sequence c + i)) mod 10000) [0, 1, 2, 3, 4, 5, 6, 7] @ [tenant])\<rparr>)"

record query_schedule =
  qs_ordinal :: u64
  qs_checkpoint :: logical_checkpoint
  qs_query :: query_id
  qs_parameters :: query_parameters

definition schedule_at :: "u64 \<Rightarrow> u64 \<Rightarrow> logical_checkpoint \<Rightarrow> query_schedule" where
  "schedule_at seed ordinal checkpoint =
     (let r = mix64 (seed XOR ordinal) mod 5
      in \<lparr>qs_ordinal = ordinal, qs_checkpoint = checkpoint,
          qs_query = (if r = 0 then Q1 else if r = 1 then Q2 else if r = 2 then Q3 else if r = 3 then Q4 else Q5),
          qs_parameters = params_for_checkpoint seed checkpoint\<rparr>)"

lemma uint_mod_bound: "0 < uint k \<Longrightarrow> uint (w mod k) < uint (k :: u64)"
  by (simp add: uint_mod)

lemma tenant_range: "1 + w mod 10000 \<in> {1..10000 :: u64}"
proof -
  have b: "uint (w mod 10000) < 10000" using uint_mod_bound [of 10000 w] by simp
  have "uint (1 + w mod 10000) = 1 + uint (w mod 10000)"
    by (subst uint_add_lem [THEN iffD1]) (use b in simp_all)
  then show ?thesis using b uint_ge_0 [of "w mod 10000"] by (simp add: word_le_def)
qed

text \<open>
  The parameters of a query stay in their domains. Whatever the seed and the checkpoint, the window ends on a
  whole second of the generated year, the tenant and each of the eight tenants of the set are in 1 to 10000,
  and the tenant is the first of the set.
\<close>
theorem parameters_in_range:
  "let p = params_for_checkpoint seed c in
    (\<exists>s. 0 \<le> s \<and> s < 31536000 \<and> sint (qp_window_end p) = 1609459200000000 + s * 1000000) \<and>
    length (qp_tenant_set p) = 8 \<and> set (qp_tenant_set p) \<subseteq> {1..10000} \<and> hd (qp_tenant_set p) = qp_tenant p \<and> qp_tenant p \<in> {1..10000}"
proof -
  let ?w = "mix64 (seed XOR cp_sequence c XOR cp_source_lsn c)"
  let ?s = "uint (?w mod 31536000)"
  have s: "0 \<le> ?s" "?s < 31536000" using uint_mod_bound [of 31536000 ?w] by simp_all
  have m: "uint (?w mod 31536000 * 1000000) = ?s * 1000000"
    by (subst uint_mult_lem [THEN iffD1]) (use s in simp_all)
  have u: "uint (1609459200000000 + ?w mod 31536000 * 1000000) = 1609459200000000 + ?s * 1000000"
    by (subst uint_add_lem [THEN iffD1]) (use s m in simp_all)
  then have "sint (1609459200000000 + ?w mod 31536000 * 1000000) = 1609459200000000 + ?s * 1000000"
    unfolding sint_uint using s by (simp add: signed_take_bit_int_eq_self)
  then have "\<exists>s. 0 \<le> s \<and> s < 31536000 \<and> sint (qp_window_end (params_for_checkpoint seed c)) = 1609459200000000 + s * 1000000"
    using s by (intro exI [of _ ?s]) (simp add: params_for_checkpoint_def Let_def)
  then show ?thesis using tenant_range by (simp add: params_for_checkpoint_def Let_def)
qed

section \<open>The digest of a result\<close>

record query_result =
  qr_columns :: "rstr list"
  qr_rows :: "rstr option list list"

text \<open>One cell: \<open>None\<close> where the row is too short.\<close>

fun cell_bytes :: "rstr option option \<Rightarrow> bytes" where
  "cell_bytes None = str ''M;''"
| "cell_bytes (Some None) = str ''N;''"
| "cell_bytes (Some (Some s)) = show_nat 10 (length s) @ [58] @ s @ [59]"

definition canonical_column_order :: "rstr list \<Rightarrow> nat list" where
  "canonical_column_order columns = [0..<length columns]"

definition row_cells :: "nat list \<Rightarrow> rstr option list \<Rightarrow> rstr option option list" where
  "row_cells order row = map (\<lambda>i. if i < length row then Some (row ! i) else None) order"

definition row_bytes :: "nat list \<Rightarrow> rstr option list \<Rightarrow> bytes" where
  "row_bytes order row = concat (map cell_bytes (row_cells order row))"

definition digest_input :: "query_result \<Rightarrow> bytes" where
  "digest_input res = concat (sort (map (row_bytes (canonical_column_order (qr_columns res))) (qr_rows res)))"

definition canonical_digest :: "(bytes \<Rightarrow> bytes) \<Rightarrow> query_result \<Rightarrow> rstr" where
  "canonical_digest sha res = encode_hex (sha (digest_input res))"

text \<open>The cells are a self-delimiting code.\<close>

definition dec_cell :: "bytes \<Rightarrow> (rstr option option \<times> bytes) option" where
  "dec_cell bs =
     (case bs of
        [] \<Rightarrow> None
      | b # r \<Rightarrow>
          if b = 77 then (if r = [] then None else Some (None, tl r))
          else if b = 78 then (if r = [] then None else Some (Some None, tl r))
          else
            let digits = takeWhile (\<lambda>b. b \<noteq> 58) bs; rest = drop (length digits) bs in
            if rest = [] then None
            else case parse_digits 10 0 digits of
                   None \<Rightarrow> None
                 | Some n \<Rightarrow> if n < length (tl rest) then Some (Some (Some (take n (tl rest))), drop (Suc n) (tl rest)) else None)"

lemma show_dec_digits: "\<forall>b \<in> set (show_nat 10 n). 48 \<le> unat b \<and> unat b \<le> 57"
proof (induction "10 :: nat" n rule: show_nat.induct)
  case (1 n)
  show ?case
  proof (cases "n < 10")
    case True
    then show ?thesis by (simp add: show_nat.simps [of 10 n] unat_digit_of)
  next
    case False
    then show ?thesis using 1 by (subst show_nat.simps) (auto simp: unat_digit_of)
  qed
qed

lemma show_dec_clean: "58 \<notin> set (show_nat 10 n)" "77 \<notin> set (show_nat 10 n)" "78 \<notin> set (show_nat 10 n)"
  using show_dec_digits [of n] by (auto dest: bspec)

lemma takeWhile_digits: "takeWhile (\<lambda>b. b \<noteq> 58) (show_nat 10 n @ 58 # r) = show_nat 10 n"
  using show_dec_clean(1) [of n] by (subst takeWhile_append2) auto

lemma dec_cell_text: "dec_cell (show_nat 10 (length s) @ [58] @ s @ [59] @ r) = Some (Some (Some s), r)"
proof -
  obtain b bs where b: "show_nat 10 (length s) = b # bs" using show_nat_not_Nil by (meson list.exhaust)
  then have "b \<noteq> 77" "b \<noteq> 78" using show_dec_clean(2,3) [of "length s"] by auto
  moreover have "takeWhile (\<lambda>b. b \<noteq> 58) (b # bs @ 58 # s @ 59 # r) = b # bs" using takeWhile_digits [of "length s" "s @ 59 # r"] b by simp
  moreover have "parse_digits 10 0 (b # bs) = Some (length s)" using parse_show_nat [of 10 "length s"] b by simp
  ultimately show ?thesis unfolding b dec_cell_def Let_def by simp
qed

lemma dec_cell_short:
  assumes "length r \<le> length s"
  shows "dec_cell (show_nat 10 (length s) @ [58] @ r) = None"
proof -
  obtain b bs where b: "show_nat 10 (length s) = b # bs" using show_nat_not_Nil by (meson list.exhaust)
  then have "b \<noteq> 77" "b \<noteq> 78" using show_dec_clean(2,3) [of "length s"] by auto
  moreover have "takeWhile (\<lambda>b. b \<noteq> 58) (b # bs @ 58 # r) = b # bs" using takeWhile_digits [of "length s" r] b by simp
  moreover have "parse_digits 10 0 (b # bs) = Some (length s)" using parse_show_nat [of 10 "length s"] b by simp
  ultimately show ?thesis unfolding b dec_cell_def Let_def using assms by simp
qed

lemma dec_cell_cut:
  assumes "k < length (show_nat 10 (length s) @ [58] @ s @ [59])"
  shows "dec_cell (take k (show_nat 10 (length s) @ [58] @ s @ [59])) = None"
proof (cases "k \<le> length (show_nat 10 (length s))")
  case True
  have clean: "58 \<notin> set t \<Longrightarrow> 77 \<notin> set t \<Longrightarrow> 78 \<notin> set t \<Longrightarrow> dec_cell t = None" for t
  proof -
    assume a: "58 \<notin> set t" "77 \<notin> set t" "78 \<notin> set t"
    show "dec_cell t = None"
    proof (cases t)
      case (Cons b l)
      then have "takeWhile (\<lambda>b. b \<noteq> 58) l = l" using a by (auto simp: takeWhile_eq_all_conv)
      then have "length (takeWhile (\<lambda>b. b \<noteq> 58) l) = length l" by (simp only:)
      then show ?thesis using a(2,3) a(1) Cons by (simp add: dec_cell_def Let_def)
    qed (simp add: dec_cell_def)
  qed
  have "dec_cell (take k (show_nat 10 (length s))) = None"
    by (rule clean) (use show_dec_clean [of "length s"] in \<open>auto dest: in_set_takeD\<close>)
  then show ?thesis using True by simp
next
  case False
  let ?D = "show_nat 10 (length s)" and ?r = "take (k - Suc (length (show_nat 10 (length s)))) (s @ [59])"
  have "k - length ?D = Suc (k - Suc (length ?D))" using False by simp
  then have t: "take k (?D @ [58] @ s @ [59]) = ?D @ [58] @ ?r" using False by simp
  have "length ?r \<le> length s" using assms False by auto
  then show ?thesis unfolding t by (rule dec_cell_short)
qed

lemma cell_bytes_not_Nil [simp]: "cell_bytes x \<noteq> []"
  by (cases x rule: cell_bytes.cases) (simp_all add: str_def)

interpretation digest_cells: prefix_codec cell_bytes dec_cell "\<lambda>_. True"
proof
  show "dec_cell (cell_bytes x @ r) = Some (x, r)" for x r
    by (cases x rule: cell_bytes.cases) (simp_all add: dec_cell_text [simplified], simp_all add: dec_cell_def str_def)
  show "dec_cell (take n (cell_bytes x)) = None" if "n < length (cell_bytes x)" for x n
  proof (cases x rule: cell_bytes.cases)
    case (3 s)
    then show ?thesis using dec_cell_cut [of n s] that by simp
  qed (use that in \<open>auto simp: dec_cell_def str_def less_Suc_eq take_Cons'\<close>)
qed

section \<open>What the digest tells apart\<close>

lemma unat_hex_digit: "n < 16 \<Longrightarrow> unat (hex_digit n) = (if n < 10 then 48 + n else 87 + n)"
  by (simp add: hex_digit_def unat_of_nat del: of_nat_add)

lemma hex_digit_inj: "m < 16 \<Longrightarrow> n < 16 \<Longrightarrow> hex_digit m = hex_digit n \<Longrightarrow> m = n"
proof -
  assume a: "m < 16" "n < 16" "hex_digit m = hex_digit n"
  then have "(if m < 10 then 48 + m else 87 + m) = (if n < 10 then 48 + n else 87 + n)"
    using unat_hex_digit [OF a(1)] unat_hex_digit [OF a(2)] by (simp only:)
  then show "m = n" by (simp split: if_splits)
qed

lemma encode_hex_inj: "encode_hex xs = encode_hex ys \<Longrightarrow> xs = ys"
proof (induction xs arbitrary: ys)
  case Nil
  then show ?case by (metis encode_hex_Nil)
next
  case (Cons x xs)
  then obtain y ys' where ys: "ys = y # ys'" by (cases ys) (auto simp: encode_hex_def)
  have lt: "unat x < 256" "unat y < 256" using unsigned_less [of x] unsigned_less [of y] by simp_all
  have "hex_digit (unat x div 16) = hex_digit (unat y div 16)" "hex_digit (unat x mod 16) = hex_digit (unat y mod 16)"
    and tls: "encode_hex xs = encode_hex ys'" using Cons.prems ys by (simp_all add: encode_hex_def)
  then have "unat x div 16 = unat y div 16" "unat x mod 16 = unat y mod 16"
    using less_mult_imp_div_less [of "unat x" 16 16] less_mult_imp_div_less [of "unat y" 16 16] lt by (auto intro!: hex_digit_inj)
  then have "unat x = unat y" by (metis div_mult_mod_eq)
  then show ?case using Cons.IH [OF tls] ys by (simp add: word_unat_eq_iff)
qed

text \<open>Rows of one length are recovered from their cells in a row.\<close>

lemma concat_same_length:
  assumes "\<forall>x \<in> set xs. length x = n" "\<forall>y \<in> set ys. length y = n" "0 < n" "concat xs = concat ys"
  shows "xs = ys"
  using assms
proof (induction xs arbitrary: ys)
  case Nil
  then show ?case by (cases ys) auto
next
  case (Cons x xs)
  have "length x = n" "x \<noteq> []" using Cons.prems(1,3) by auto
  then have "ys \<noteq> []" using Cons.prems(4) by (cases ys) simp_all
  then obtain y ys' where ys: "ys = y # ys'" by (cases ys) simp_all
  have "length y = length x" using Cons.prems(1,2) ys by simp
  moreover have "x @ concat xs = y @ concat ys'" using Cons.prems(4) ys by simp
  ultimately have "x = y" "concat xs = concat ys'" by simp_all
  then show ?case using Cons.IH [of ys'] Cons.prems(1-3) ys by simp
qed

lemma sort_map: "sort (map f xs) = map f (sort_key f xs)"
  by (rule properties_for_sort) (simp_all only: mset_map mset_sort sorted_sort_key)

lemma concat_concat_map: "concat (map (\<lambda>cs. concat (map f cs)) xss) = concat (map f (concat xss))"
  by (induction xss) simp_all

text \<open>
  C31. What equal digests mean. For two results with the same positive number of columns, and a hash that tells their
  two inputs apart, the digests are equal exactly when the results hold the same rows in any order, each as
  often: same cells, nulls apart from texts, missing cells apart from both.
\<close>
theorem digest_compares_rows:
  assumes "length (qr_columns r1) = length (qr_columns r2)" and "qr_columns r1 \<noteq> []"
    and "inj_on sha {digest_input r1, digest_input r2}"
  shows "canonical_digest sha r1 = canonical_digest sha r2 \<longleftrightarrow>
    mset (map (row_cells (canonical_column_order (qr_columns r1))) (qr_rows r1)) =
    mset (map (row_cells (canonical_column_order (qr_columns r2))) (qr_rows r2))"
proof -
  let ?o = "canonical_column_order (qr_columns r1)" and ?e = "\<lambda>cs. concat (map cell_bytes cs)"
  have ord: "canonical_column_order (qr_columns r2) = ?o" using assms(1) by (simp add: canonical_column_order_def)
  let ?n1 = "map (row_cells ?o) (qr_rows r1)" and ?n2 = "map (row_cells ?o) (qr_rows r2)"
  let ?s1 = "sort_key ?e ?n1" and ?s2 = "sort_key ?e ?n2"
  have rb: "map (row_bytes ?o) rows = map ?e (map (row_cells ?o) rows)" for rows by (simp add: row_bytes_def)
  have in1: "digest_input r1 = concat (map cell_bytes (concat ?s1))"
    unfolding digest_input_def rb sort_map by (rule concat_concat_map)
  have in2: "digest_input r2 = concat (map cell_bytes (concat ?s2))"
    unfolding digest_input_def ord rb sort_map by (rule concat_concat_map)
  have "canonical_digest sha r1 = canonical_digest sha r2 \<longleftrightarrow> sha (digest_input r1) = sha (digest_input r2)"
    unfolding canonical_digest_def using encode_hex_inj by metis
  also have "\<dots> \<longleftrightarrow> digest_input r1 = digest_input r2" using inj_on_eq_iff [OF assms(3)] by simp
  also have "\<dots> \<longleftrightarrow> concat ?s1 = concat ?s2"
    unfolding in1 in2 using digest_cells.stream_unique [of "concat ?s1" "concat ?s2"]
    by (auto simp: cell_bytes_not_Nil)
  also have "\<dots> \<longleftrightarrow> ?s1 = ?s2"
  proof
    assume eq: "concat ?s1 = concat ?s2"
    show "?s1 = ?s2"
      by (rule concat_same_length [of _ "length (qr_columns r1)"])
        (use eq assms(2) in \<open>auto simp: row_cells_def canonical_column_order_def\<close>)
  qed simp
  also have "\<dots> \<longleftrightarrow> mset ?n1 = mset ?n2"
  proof
    assume "?s1 = ?s2"
    then show "mset ?n1 = mset ?n2" by (metis mset_sort)
  next
    assume m: "mset ?n1 = mset ?n2"
    have "inj_on ?e (set ?n1)"
    proof (rule inj_onI)
      fix x y assume "?e x = ?e y"
      then show "x = y" using digest_cells.stream_unique [of x y] cell_bytes_not_Nil by blast
    qed
    then show "?s1 = ?s2" using m by (intro sort_key_inj_key_eq) simp_all
  qed
  finally show ?thesis by (simp only: ord)
qed

text \<open>
  Two engines that return one row in a different order of rows: the digests agree, and the theorem says so.
\<close>

lemma digest_compares_rows_witness:
  "canonical_digest id \<lparr>qr_columns = [str ''a'', str ''b''], qr_rows = [[Some (str ''1''), None], [Some (str ''2'')]]\<rparr> =
   canonical_digest id \<lparr>qr_columns = [str ''x'', str ''y''], qr_rows = [[Some (str ''2'')], [Some (str ''1''), None]]\<rparr>"
  by (subst digest_compares_rows) (simp_all add: canonical_column_order_def row_cells_def upt_rec)

text \<open>
  What the digest does not tell apart. The shape of a result is not part of it: rows of two cells and twice as many rows
  of one cell can have one digest, and a result without columns has the digest of the empty result whatever its
  rows are.
\<close>
theorem digest_ignores_shape:
  "(\<exists>r1 r2. length (qr_rows r1) = 1 \<and> length (qr_columns r1) = 2 \<and> length (qr_rows r2) = 2 \<and> length (qr_columns r2) = 1 \<and>
      (\<forall>sha. canonical_digest sha r1 = canonical_digest sha r2)) \<and>
   canonical_digest sha \<lparr>qr_columns = [], qr_rows = rows\<rparr> = canonical_digest sha \<lparr>qr_columns = columns, qr_rows = []\<rparr>"
proof (intro conjI exI allI)
  let ?r1 = "\<lparr>qr_columns = [str ''x'', str ''y''], qr_rows = [[Some (str ''a''), Some (str ''b'')]]\<rparr>"
  let ?r2 = "\<lparr>qr_columns = [str ''x''], qr_rows = [[Some (str ''a'')], [Some (str ''b'')]]\<rparr>"
  show "length (qr_rows ?r1) = 1" "length (qr_columns ?r1) = 2" "length (qr_rows ?r2) = 2" "length (qr_columns ?r2) = 1" by simp_all
  have "digest_input ?r1 = digest_input ?r2"
    by (simp add: digest_input_def canonical_column_order_def row_bytes_def row_cells_def str_def upt_rec show_nat.simps)
  then show "canonical_digest s ?r1 = canonical_digest s ?r2" for s by (simp add: canonical_digest_def)
  have e: "row_bytes [] row = []" for row by (simp add: row_bytes_def row_cells_def)
  have "digest_input \<lparr>qr_columns = [], qr_rows = rows\<rparr> = []" "digest_input \<lparr>qr_columns = columns, qr_rows = []\<rparr> = []"
    by (simp_all add: e digest_input_def canonical_column_order_def)
  then show "canonical_digest sha \<lparr>qr_columns = [], qr_rows = rows\<rparr> = canonical_digest sha \<lparr>qr_columns = columns, qr_rows = []\<rparr>"
    by (simp add: canonical_digest_def)
qed

section \<open>The text of a query\<close>

text \<open>\<open>str::replace\<close> with a pattern that is not empty: from the left, without looking at what it put in.\<close>

fun replace_str :: "rstr \<Rightarrow> rstr \<Rightarrow> rstr \<Rightarrow> rstr" where
  "replace_str pat to_s [] = []"
| "replace_str pat to_s (b # bs) =
     (if pat \<noteq> [] \<and> take (length pat) (b # bs) = pat then to_s @ replace_str pat to_s (drop (length pat - 1) bs)
      else b # replace_str pat to_s bs)"

definition join_comma :: "rstr list \<Rightarrow> rstr" where
  "join_comma xs = (case xs of [] \<Rightarrow> [] | x # r \<Rightarrow> x @ concat (map (\<lambda>y. str '', '' @ y) r))"

definition render_sql :: "(i64 \<Rightarrow> rstr) \<Rightarrow> rstr \<Rightarrow> query_parameters \<Rightarrow> rstr + rstr" where
  "render_sql secs sql p =
     (let rendered = replace_str (str '':tenant_set'') (join_comma (map (\<lambda>t. show_nat 10 (unat t)) (qp_tenant_set p)))
            (replace_str (str '':tenant_id'') (show_nat 10 (unat (qp_tenant p)))
              (replace_str (str '':window_end'') (str ''to_timestamp('' @ secs (qp_window_end p) @ str '')'') sql))
      in if 58 \<in> set rendered then Inl (str ''unresolved named parameter'') else Inr rendered)"

lemma replace_str_Nil [simp]: "replace_str pat v [] = []" by simp

lemma replace_str_clean: "58 \<notin> set t \<Longrightarrow> replace_str (58 # pat) v (t @ r) = t @ replace_str (58 # pat) v r"
  by (induction t) auto

lemma replace_str_hit: "replace_str (58 # pat) v ((58 # pat) @ r) = v @ replace_str (58 # pat) v r"
  by simp

text \<open>A template: texts without a colon, and the parameters they name.\<close>

datatype piece = Plain rstr | WindowEnd | TenantId | TenantSet

primrec piece_text :: "piece \<Rightarrow> rstr" where
  "piece_text (Plain s) = s"
| "piece_text WindowEnd = str '':window_end''"
| "piece_text TenantId = str '':tenant_id''"
| "piece_text TenantSet = str '':tenant_set''"

primrec piece_value :: "(i64 \<Rightarrow> rstr) \<Rightarrow> query_parameters \<Rightarrow> piece \<Rightarrow> rstr" where
  "piece_value secs p (Plain s) = s"
| "piece_value secs p WindowEnd = str ''to_timestamp('' @ secs (qp_window_end p) @ str '')''"
| "piece_value secs p TenantId = show_nat 10 (unat (qp_tenant p))"
| "piece_value secs p TenantSet = join_comma (map (\<lambda>t. show_nat 10 (unat t)) (qp_tenant_set p))"

primrec plain_piece :: "piece \<Rightarrow> bool" where
  "plain_piece (Plain s) = (58 \<notin> set s)"
| "plain_piece WindowEnd = True"
| "plain_piece TenantId = True"
| "plain_piece TenantSet = True"

definition fill_piece :: "piece \<Rightarrow> rstr \<Rightarrow> piece \<Rightarrow> piece" where
  "fill_piece q v x = (if x = q then Plain v else x)"

lemma fill_piece_self: "fill_piece q v q = Plain v" by (simp add: fill_piece_def)

lemma fill_piece_other: "x \<noteq> q \<Longrightarrow> fill_piece q v x = x" by (simp add: fill_piece_def)

lemma piece_text_colon: "(\<forall>s. x \<noteq> Plain s) \<Longrightarrow> \<exists>pat. piece_text x = 58 # pat \<and> 58 \<notin> set pat"
  by (cases x) simp_all

lemma replace_other: "(\<forall>s. q \<noteq> Plain s) \<Longrightarrow> (\<forall>s. x \<noteq> Plain s) \<Longrightarrow> x \<noteq> q \<Longrightarrow>
    replace_str (piece_text q) v (piece_text x @ r) = piece_text x @ replace_str (piece_text q) v r"
  by (cases q; cases x) simp_all

lemma replace_pieces:
  assumes "\<forall>s. q \<noteq> Plain s" and "list_all plain_piece ps"
  shows "replace_str (piece_text q) v (concat (map piece_text ps)) = concat (map piece_text (map (fill_piece q v) ps))"
  using assms(2)
proof (induction ps)
  case (Cons x ps)
  obtain pat where pat: "piece_text q = 58 # pat" using piece_text_colon [OF assms(1)] by blast
  have ih: "replace_str (piece_text q) v (concat (map piece_text ps)) = concat (map piece_text (map (fill_piece q v) ps))"
    using Cons by simp
  consider "x = q" | s where "x = Plain s" | "x \<noteq> q" "\<forall>s. x \<noteq> Plain s" by blast
  then show ?case
  proof cases
    case 1
    then show ?thesis using ih replace_str_hit [of pat v] pat by (simp add: fill_piece_self del: replace_str.simps)
  next
    case 2
    then have "fill_piece q v x = x" using assms(1) by (intro fill_piece_other) auto
    then show ?thesis using ih replace_str_clean [of s pat v] pat Cons.prems 2 by (simp del: replace_str.simps)
  next
    case 3
    then show ?thesis using ih replace_other [OF assms(1) 3(2) 3(1)] by (simp add: fill_piece_other)
  qed
qed simp

lemma fill_piece_plain: "58 \<notin> set v \<Longrightarrow> list_all plain_piece ps \<Longrightarrow> list_all plain_piece (map (fill_piece q v) ps)"
  by (auto simp: list_all_iff fill_piece_def)

lemma join_comma_clean: "\<forall>x \<in> set xs. 58 \<notin> set x \<Longrightarrow> 58 \<notin> set (join_comma xs)"
  by (auto simp: join_comma_def split: list.splits)

text \<open>
  Rendering a query fills in every parameter. A template made of texts without a colon and of named parameters renders to
  the same texts with each parameter replaced by its value, whatever the order and the number of the
  parameters.
\<close>
theorem render_fills_parameters:
  assumes "list_all plain_piece ps" and "58 \<notin> set (secs (qp_window_end p))"
  shows "render_sql secs (concat (map piece_text ps)) p = Inr (concat (map (piece_value secs p) ps))"
proof -
  let ?v = "piece_value secs p"
  have clean: "58 \<notin> set (?v WindowEnd)" "58 \<notin> set (?v TenantId)" "58 \<notin> set (?v TenantSet)"
    using assms(2) show_dec_clean(1) by (auto intro!: join_comma_clean)
  define fill where "fill ps = map (fill_piece TenantSet (?v TenantSet)) (map (fill_piece TenantId (?v TenantId))
      (map (fill_piece WindowEnd (?v WindowEnd)) ps))" for ps
  have "replace_str (piece_text TenantSet) (?v TenantSet) (replace_str (piece_text TenantId) (?v TenantId)
      (replace_str (piece_text WindowEnd) (?v WindowEnd) (concat (map piece_text ps)))) = concat (map piece_text (fill ps))"
    unfolding fill_def
    by (simp only: replace_pieces fill_piece_plain assms(1) clean piece.distinct not_False_eq_True HOL.simp_thms)
  moreover have "map piece_text (fill ps) = map ?v ps" unfolding fill_def map_map
  proof (rule map_cong [OF refl])
    fix x
    show "(piece_text \<circ> (fill_piece TenantSet (?v TenantSet) \<circ> (fill_piece TenantId (?v TenantId) \<circ> fill_piece WindowEnd (?v WindowEnd)))) x = ?v x"
      by (cases x) (simp_all add: fill_piece_def)
  qed
  moreover have "58 \<notin> set (?v x)" if "x \<in> set ps" for x
    using assms(1) clean that by (cases x) (auto simp: list_all_iff dest: bspec simp del: piece_value.simps(2-4))
  then have "58 \<notin> set (concat (map ?v ps))" by (simp del: piece_value.simps)
  moreover have "render_sql secs sql p =
      (let r = replace_str (piece_text TenantSet) (?v TenantSet) (replace_str (piece_text TenantId) (?v TenantId)
            (replace_str (piece_text WindowEnd) (?v WindowEnd) sql))
       in if 58 \<in> set r then Inl (str ''unresolved named parameter'') else Inr r)" for sql
    by (simp only: render_sql_def Let_def piece_text.simps piece_value.simps)
  ultimately show ?thesis by (simp only: Let_def if_False)
qed

lemma render_fills_parameters_witness:
  "render_sql (\<lambda>_. str ''7'') (concat (map piece_text [Plain (str ''t = ''), TenantId]))
     \<lparr>qp_window_end = 7, qp_tenant = 5, qp_tenant_set = [5]\<rparr> = Inr (str ''t = 5'')"
  by (subst render_fills_parameters) (simp_all add: show_nat.simps digit_of_def)

end
