(* ===== verification/ClickHouse.thy ===== *)
theory ClickHouse
  imports QueryDigest Decoder
begin

text \<open>
  \<open>crates/graydb-r1/src/clickhouse.rs\<close>: the sink that writes committed transactions as version rows, with markers that
  make a retry harmless, and the adapter that queries them at a position. ClickHouse is the list of its answers;
  what the program sends is the trace. The texts of JSON values (\<open>ser\<close>), SHA-256 and the parsing of JSON lines
  are parameters; the diagnostic timers are left out.
\<close>

section \<open>Versions and tables\<close>

definition version_from :: "u64 \<Rightarrow> u32 \<Rightarrow> u128" where
  "version_from lsn ordinal = (push_bit 32 (ucast lsn)) OR ucast ordinal"

record raw_table =
  rt_qualified :: rstr
  rt_raw :: rstr
  rt_columns :: "rstr list"

definition RAW_TABLES :: "raw_table list" where
  "RAW_TABLES =
     [\<lparr>rt_qualified = str ''r1.tenants'', rt_raw = str ''r1_tenants_raw'',
        rt_columns = [str ''tenant_id'', str ''region'', str ''plan'', str ''created_at'', str ''settings'']\<rparr>,
      \<lparr>rt_qualified = str ''r1.customers'', rt_raw = str ''r1_customers_raw'',
        rt_columns = [str ''customer_id'', str ''tenant_id'', str ''segment'', str ''email_domain'', str ''profile'', str ''created_at'']\<rparr>,
      \<lparr>rt_qualified = str ''r1.orders'', rt_raw = str ''r1_orders_raw'',
        rt_columns = [str ''order_id'', str ''tenant_id'', str ''customer_id'', str ''status'', str ''channel'', str ''amount_cents'',
          str ''created_at'', str ''updated_at'', str ''attributes'']\<rparr>,
      \<lparr>rt_qualified = str ''r1.order_events'', rt_raw = str ''r1_order_events_raw'',
        rt_columns = [str ''event_id'', str ''order_id'', str ''tenant_id'', str ''event_type'', str ''event_at'', str ''metadata'']\<rparr>]"

definition raw_table_for :: "rstr \<Rightarrow> raw_table option" where
  "raw_table_for name = find (\<lambda>t. rt_qualified t = name) RAW_TABLES"

definition APPLIED_TRANSACTIONS :: rstr where "APPLIED_TRANSACTIONS = str ''r1_meta.applied_transactions''"
definition COMPACT_FORMAT :: rstr where "COMPACT_FORMAT = str ''JSONCompactEachRowWithNamesAndTypes''"

section \<open>The server\<close>

text \<open>JSON values: \<open>JOther\<close> is any other value, as its text.\<close>

datatype json = JNull | JText rstr | JInt nat | JOther rstr

record ch_request =
  cr_params :: "(rstr \<times> rstr) list"
  cr_body :: rstr

text \<open>
  A successful answer is its body and the summary header, when it is there and is a JSON object; no answer is a
  request that failed or a status that is not a success.
\<close>

record ch_answer =
  an_body :: rstr
  an_summary :: "(rstr \<times> json) list option"

datatype ch_error =
    RequestFailed
  | EmptyWindow
  | ChangeLsn rstr u64
  | UnsupportedTable rstr
  | OrdinalTooLarge
  | EmptyTransaction
  | TruncateRow
  | NoImage
  | UnchangedCell rstr
  | BinaryCell rstr
  | DuplicateMarkers nat
  | HashMismatch rstr
  | MarkerNotVisible
  | CountUnreadable
  | CountMismatch nat
  | UnterminatedQuote
  | FeedFailed replay_error
  | NotOneCommit
  | ChangesBeforeCommit
  | SecondCommit
  | NoLedgerHash u64
  | AckFailed
  | PositionUnreadable
  | EventCount
  | DuplicateEvents nat nat
  | CompactHeader
  | CompactRow rstr
  | RenderFailed rstr
  | NotVisible u64 u64
  | NoElapsed
  | WaitTimeout

record ch_server =
  cs_answers :: "ch_answer option list"
  cs_trace :: "(ch_request \<times> ch_answer option) list"

definition post_full :: "(rstr \<times> rstr) list \<Rightarrow> rstr \<Rightarrow> ch_server \<Rightarrow> (ch_error + ch_answer) \<times> ch_server" where
  "post_full params body s =
     (let a = (case cs_answers s of [] \<Rightarrow> None | a # _ \<Rightarrow> a)
      in (need a RequestFailed,
          s\<lparr>cs_answers := tl (cs_answers s), cs_trace := cs_trace s @ [(\<lparr>cr_params = params, cr_body = body\<rparr>, a)]\<rparr>))"

definition post :: "(rstr \<times> rstr) list \<Rightarrow> rstr \<Rightarrow> ch_server \<Rightarrow> (ch_error + rstr) \<times> ch_server" where
  "post params body s = st_bind (post_full params body s) (\<lambda>a s. (Ok (an_body a), s))"

section \<open>Version rows\<close>

type_synonym row_object = "(rstr \<times> json) list"

definition tuple_json :: "rstr \<Rightarrow> tuple_value \<Rightarrow> ch_error + json" where
  "tuple_json column v =
     (case v of
        TText s \<Rightarrow> Ok (JText s)
      | TNull \<Rightarrow> Ok JNull
      | TUnchangedToast \<Rightarrow> Err (UnchangedCell column)
      | TBinary _ \<Rightarrow> Err (BinaryCell column))"

definition row_cell :: "named_row \<Rightarrow> rstr \<Rightarrow> ch_error + json" where
  "row_cell img column =
     (case find (\<lambda>(name, _). name = column) img of None \<Rightarrow> Ok JNull | Some (_, v) \<Rightarrow> tuple_json column v)"

fun insert_cells :: "named_row \<Rightarrow> rstr list \<Rightarrow> row_object \<Rightarrow> ch_error + row_object" where
  "insert_cells img [] ob = Ok ob"
| "insert_cells img (c # cs) ob = res_bind (row_cell img c) (\<lambda>v. insert_cells img cs (bt_insert c v ob))"

definition row_image :: "typed_change \<Rightarrow> ch_error + named_row" where
  "row_image change =
     (case tc_op change of
        OTruncate \<Rightarrow> Err TruncateRow
      | ODelete \<Rightarrow> need (tc_old change) NoImage
      | _ \<Rightarrow> need (tc_new change) NoImage)"

definition ch_render_row :: "raw_table \<Rightarrow> typed_change \<Rightarrow> u64 \<Rightarrow> u32 \<Rightarrow> u128 \<Rightarrow> ch_error + row_object" where
  "ch_render_row raw change lsn ordinal version =
     res_bind (row_image change) (\<lambda>img.
     res_bind (insert_cells img (rt_columns raw) []) (\<lambda>ob.
     let ob = bt_insert (str ''_source_lsn'') (JInt (unat lsn)) ob;
         ob = bt_insert (str ''_change_ordinal'') (JInt (unat ordinal)) ob;
         ob = bt_insert (str ''_version'') (JText (show_nat 10 (unat version))) ob
     in Ok (bt_insert (str ''_deleted'') (JInt (if tc_op change = ODelete then 1 else 0)) ob)))"

text \<open>\<open>rows_by_table.entry(raw).or_default().push(row)\<close>.\<close>

definition bt_push :: "'k::linorder \<Rightarrow> 'v \<Rightarrow> ('k \<times> 'v list) list \<Rightarrow> ('k \<times> 'v list) list" where
  "bt_push k v m = bt_insert k ((case map_of m k of None \<Rightarrow> [] | Some vs \<Rightarrow> vs) @ [v]) m"

text \<open>
  The loop over the changes of a transaction, from position \<open>index\<close> on; \<open>put\<close> is what is kept of a row, the value
  or its text.
\<close>

fun change_rows ::
    "(row_object \<Rightarrow> 'r) \<Rightarrow> bool \<Rightarrow> u64 \<Rightarrow> nat \<Rightarrow> typed_change list \<Rightarrow> (rstr \<times> 'r list) list \<Rightarrow> ch_error + (rstr \<times> 'r list) list" where
  "change_rows put initial lsn index [] rows = Ok rows"
| "change_rows put initial lsn index (c # cs) rows =
     res_bind (ensure (tc_commit_lsn c = 0 \<or> tc_commit_lsn c = lsn) (ChangeLsn (tc_table c) (tc_commit_lsn c))) (\<lambda>_.
     res_bind (need (raw_table_for (tc_table c)) (UnsupportedTable (tc_table c))) (\<lambda>raw.
     res_bind (if initial then Ok 0 else if index + 1 < 2 ^ 32 then Ok (word_of_nat (index + 1)) else Err OrdinalTooLarge) (\<lambda>ordinal.
     res_bind (ch_render_row raw c lsn ordinal (version_from lsn ordinal)) (\<lambda>ob.
     change_rows put initial lsn (Suc index) cs (bt_push (rt_raw raw) (put ob) rows)))))"

definition raw_columns :: "rstr \<Rightarrow> rstr list" where
  "raw_columns raw =
     (case find (\<lambda>t. rt_raw t = raw) RAW_TABLES of None \<Rightarrow> [] | Some t \<Rightarrow> rt_columns t) @
     [str ''_source_lsn'', str ''_change_ordinal'', str ''_version'', str ''_deleted'']"

definition insert_body :: "rstr \<Rightarrow> rstr list \<Rightarrow> rstr" where
  "insert_body raw rows =
     str ''INSERT INTO '' @ raw @ str '' ('' @ join_comma (raw_columns raw) @ str '') FORMAT JSONEachRow'' @
     concat (map (\<lambda>row. 10 # row) rows)"

fun post_rows :: "(rstr \<Rightarrow> rstr \<Rightarrow> rstr) \<Rightarrow> (rstr \<times> rstr list) list \<Rightarrow> ch_server \<Rightarrow> (ch_error + unit) \<times> ch_server" where
  "post_rows token [] s = (Ok (), s)"
| "post_rows token ((raw, rows) # rest) s =
     (let body = insert_body raw rows in
      st_bind (post [(str ''date_time_input_format'', str ''best_effort''), (str ''insert_deduplication_token'', token raw body)] body s)
        (\<lambda>_ s. post_rows token rest s))"

section \<open>One transaction at a time\<close>

text \<open>The lines of a text, trimmed, without the empty ones.\<close>

fun cut_lines :: "bytes \<Rightarrow> bytes \<Rightarrow> bytes list" where
  "cut_lines cur [] = [cur]"
| "cut_lines cur (b # bs) = (if b = 10 then cur # cut_lines [] bs else cut_lines (cur @ [b]) bs)"

definition full_lines :: "rstr \<Rightarrow> rstr list" where
  "full_lines s = filter (\<lambda>l. l \<noteq> []) (map trim_text (cut_lines [] s))"

definition marker_query :: "u64 \<Rightarrow> rstr" where
  "marker_query lsn =
     str ''SELECT operation_sha256 FROM '' @ APPLIED_TRANSACTIONS @ str '' WHERE source_lsn = '' @ show_nat 10 (unat lsn) @
     str '' FORMAT TabSeparated''"

definition transaction_is_applied :: "u64 \<Rightarrow> rstr \<Rightarrow> ch_server \<Rightarrow> (ch_error + bool) \<times> ch_server" where
  "transaction_is_applied lsn hash s =
     st_bind (post [] (marker_query lsn) s) (\<lambda>body s.
     (case full_lines body of
        [] \<Rightarrow> Ok False
      | recorded # rest \<Rightarrow>
          res_bind (ensure (rest = []) (DuplicateMarkers (Suc (length rest)))) (\<lambda>_.
          res_bind (ensure (recorded = hash) (HashMismatch recorded)) (\<lambda>_. Ok True)), s))"

definition insert_version_rows ::
    "(row_object \<Rightarrow> rstr) \<Rightarrow> u64 \<Rightarrow> rstr \<Rightarrow> typed_change list \<Rightarrow> bool \<Rightarrow> ch_server \<Rightarrow> (ch_error + unit) \<times> ch_server" where
  "insert_version_rows ser lsn token_id changes initial s =
     st_bind (ensure (changes \<noteq> []) EmptyTransaction, s) (\<lambda>_ s.
     st_bind (change_rows (\<lambda>ob. ob) initial lsn 0 changes [], s) (\<lambda>rows s.
     post_rows (\<lambda>raw _. token_id @ str '':'' @ raw) (map (\<lambda>(raw, obs). (raw, map ser obs)) rows) s))"

definition escape_quotes :: "rstr \<Rightarrow> rstr" where
  "escape_quotes s = concat (map (\<lambda>b. if b = 39 then [39, 39] else [b]) s)"

definition record_marker :: "u64 \<Rightarrow> rstr \<Rightarrow> ch_server \<Rightarrow> (ch_error + unit) \<times> ch_server" where
  "record_marker lsn hash s =
     st_bind (post [(str ''insert_deduplication_token'', escape_quotes hash @ str '':'' @ APPLIED_TRANSACTIONS)]
       (str ''INSERT INTO '' @ APPLIED_TRANSACTIONS @ str '' (operation_sha256, source_lsn, applied_at) VALUES ('' @ [39] @ escape_quotes hash @
        [39] @ str '', '' @ show_nat 10 (unat lsn) @ str '', now())'') s) (\<lambda>_ s. (Ok (), s))"

datatype apply_outcome = Applied | SkippedIdempotent

definition write_marker :: "u64 \<Rightarrow> rstr \<Rightarrow> ch_server \<Rightarrow> (ch_error + unit) \<times> ch_server" where
  "write_marker lsn hash s =
     st_bind (record_marker lsn hash s) (\<lambda>_ s.
     st_bind (transaction_is_applied lsn hash s) (\<lambda>ok s. (ensure ok MarkerNotVisible, s)))"

definition apply_transaction ::
    "(row_object \<Rightarrow> rstr) \<Rightarrow> u64 \<Rightarrow> rstr \<Rightarrow> typed_change list \<Rightarrow> ch_server \<Rightarrow> (ch_error + apply_outcome) \<times> ch_server" where
  "apply_transaction ser lsn hash changes s =
     st_bind (transaction_is_applied lsn hash s) (\<lambda>done s.
     if done then (Ok SkippedIdempotent, s)
     else st_bind (insert_version_rows ser lsn hash changes False s) (\<lambda>_ s.
          st_bind (record_marker lsn hash s) (\<lambda>_ s.
          st_bind (transaction_is_applied lsn hash s) (\<lambda>ok s.
          st_bind (ensure ok MarkerNotVisible, s) (\<lambda>_ s. (Ok Applied, s))))))"

definition apply_rows_without_marker ::
    "(row_object \<Rightarrow> rstr) \<Rightarrow> u64 \<Rightarrow> rstr \<Rightarrow> typed_change list \<Rightarrow> ch_server \<Rightarrow> (ch_error + unit) \<times> ch_server" where
  "apply_rows_without_marker ser lsn hash changes s = insert_version_rows ser lsn hash changes False s"

definition apply_initial_load ::
    "(row_object \<Rightarrow> rstr) \<Rightarrow> u64 \<Rightarrow> typed_change list \<Rightarrow> ch_server \<Rightarrow> (ch_error + unit) \<times> ch_server" where
  "apply_initial_load ser lsn changes s =
     (let hash = str ''initial-'' @ show_nat 10 (unat lsn) in
      st_bind (transaction_is_applied lsn hash s) (\<lambda>done s.
      if done then (Ok (), s)
      else st_bind (insert_version_rows ser lsn hash changes True s) (\<lambda>_ s. write_marker lsn hash s)))"

text \<open>
  \<open>apply\<close>: the acknowledgement to PostgreSQL comes last. \<open>sends\<close>: whether the replication connection takes it; the
  positions acknowledged are the second result.
\<close>

definition sink_apply ::
    "(row_object \<Rightarrow> rstr) \<Rightarrow> bool \<Rightarrow> u64 \<Rightarrow> rstr \<Rightarrow> typed_change list \<Rightarrow> ch_server \<Rightarrow> (ch_error + apply_outcome) \<times> u64 list \<times> ch_server" where
  "sink_apply ser sends lsn hash changes s =
     (case apply_transaction ser lsn hash changes s of
        (Inl e, s) \<Rightarrow> (Err e, [], s)
      | (Inr out, s) \<Rightarrow> if sends then (Ok out, [lsn], s) else (Err AckFailed, [lsn], s))"

section \<open>A window of transactions\<close>

record cdc_commit =
  cc_lsn :: u64
  cc_hash :: rstr
  cc_changes :: "typed_change list"

definition window_token :: "(bytes \<Rightarrow> bytes) \<Rightarrow> rstr \<Rightarrow> rstr \<Rightarrow> rstr \<Rightarrow> rstr" where
  "window_token sha table boundary body =
     str ''graydb-r1-window-v2-'' @
     encode_hex (sha (concat (map (\<lambda>v. put_u64 (word_of_nat (length v)) @ v) [table, boundary, body])))"

definition marker_value :: "cdc_commit \<Rightarrow> rstr" where
  "marker_value c = str ''('' @ [39] @ escape_quotes (cc_hash c) @ [39] @ str '', '' @ show_nat 10 (unat (cc_lsn c)) @ str '', now()),''"

text \<open>The loop over the commits: the rows by table and the text of the markers.\<close>

fun window_rows ::
    "(row_object \<Rightarrow> 'r) \<Rightarrow> cdc_commit list \<Rightarrow> (rstr \<times> 'r list) list \<Rightarrow> rstr \<Rightarrow> ch_error + (rstr \<times> 'r list) list \<times> rstr" where
  "window_rows put [] rows markers = Ok (rows, markers)"
| "window_rows put (c # cs) rows markers =
     res_bind (change_rows put False (cc_lsn c) 0 (cc_changes c) rows) (\<lambda>rows.
     window_rows put cs rows (markers @ marker_value c))"

definition count_query :: "u64 \<Rightarrow> u64 \<Rightarrow> rstr" where
  "count_query lo hi =
     str ''SELECT count() FROM '' @ APPLIED_TRANSACTIONS @ str '' WHERE source_lsn BETWEEN '' @ show_nat 10 (unat lo) @ str '' AND '' @
     show_nat 10 (unat hi) @ str '' FORMAT TabSeparated''"

definition markers_body :: "rstr \<Rightarrow> rstr" where
  "markers_body markers =
     str ''INSERT INTO '' @ APPLIED_TRANSACTIONS @ str '' (operation_sha256, source_lsn, applied_at) VALUES '' @ markers"

definition sink_apply_window ::
    "(row_object \<Rightarrow> rstr) \<Rightarrow> (bytes \<Rightarrow> bytes) \<Rightarrow> cdc_commit list \<Rightarrow> ch_server \<Rightarrow> (ch_error + u64) \<times> ch_server" where
  "sink_apply_window ser sha commits s =
     st_bind (ensure (commits \<noteq> []) EmptyWindow, s) (\<lambda>_ s.
     st_bind (window_rows ser commits [] [], s) (\<lambda>(rows, markers) s.
     let last_lsn = cc_lsn (last commits);
         first_lsn = cc_lsn (hd commits);
         boundary = str ''window-'' @ show_nat 10 (unat last_lsn) in
     st_bind (post_rows (\<lambda>raw body. window_token sha raw boundary body) rows s) (\<lambda>_ s.
     let markers = butlast markers in
     st_bind (post [(str ''insert_deduplication_token'', window_token sha APPLIED_TRANSACTIONS boundary markers)] (markers_body markers) s) (\<lambda>_ s.
     st_bind (post [] (count_query first_lsn last_lsn) s) (\<lambda>body s.
     st_bind (need (parse_unsigned 10 (2 ^ 64) (trim_text body)) CountUnreadable, s) (\<lambda>verified s.
     st_bind (ensure (verified = length commits) (CountMismatch verified), s) (\<lambda>_ s. (Ok last_lsn, s))))))))"

section \<open>The adapter of the stream\<close>

record cdc_adapter =
  ca_decoder :: stream_decoder
  ca_server :: ch_server

definition feed_one :: "frame \<Rightarrow> stream_decoder \<Rightarrow> (ch_error + decoded_batch option) \<times> stream_decoder" where
  "feed_one f d =
     (case feed [f] d of
        (Inl e, d) \<Rightarrow> (Err (FeedFailed e), d)
      | (Inr b, d) \<Rightarrow>
          (if 0 < db_txns b
           then res_bind (ensure (db_txns b = 1 \<and> db_last_commit_lsn b \<noteq> 0) NotOneCommit) (\<lambda>_. Ok (Some b))
           else res_bind (ensure (db_changes b = []) ChangesBeforeCommit) (\<lambda>_. Ok None), d))"

fun feed_frames :: "frame list \<Rightarrow> stream_decoder \<Rightarrow> (ch_error + decoded_batch list) \<times> stream_decoder" where
  "feed_frames [] d = (Ok [], d)"
| "feed_frames (f # fs) d =
     st_bind (feed_one f d) (\<lambda>b d.
     st_bind (feed_frames fs d) (\<lambda>bs d. (Ok (case b of None \<Rightarrow> bs | Some b \<Rightarrow> b # bs), d)))"

fun window_commits :: "(u64 \<times> rstr) list \<Rightarrow> decoded_batch list \<Rightarrow> ch_error + cdc_commit list" where
  "window_commits hashes [] = Ok []"
| "window_commits hashes (b # bs) =
     res_bind (need (map_of hashes (db_last_commit_lsn b)) (NoLedgerHash (db_last_commit_lsn b))) (\<lambda>h.
     res_bind (window_commits hashes bs) (\<lambda>cs.
     Ok (\<lparr>cc_lsn = db_last_commit_lsn b, cc_hash = h, cc_changes = db_changes b\<rparr> # cs)))"

definition adapter_apply_window ::
    "(row_object \<Rightarrow> rstr) \<Rightarrow> (bytes \<Rightarrow> bytes) \<Rightarrow> (u64 \<times> rstr) list \<Rightarrow> decoded_batch list \<Rightarrow> ch_server \<Rightarrow> (ch_error + u64) \<times> ch_server" where
  "adapter_apply_window ser sha hashes batches s =
     st_bind (window_commits hashes batches, s) (\<lambda>commits s. sink_apply_window ser sha commits s)"

text \<open>\<open>apply_frames\<close>: the frames of one transaction, applied at its commit. The positions acknowledged are collected.\<close>

fun apply_frames ::
    "(row_object \<Rightarrow> rstr) \<Rightarrow> bool \<Rightarrow> rstr \<Rightarrow> apply_outcome option \<Rightarrow> frame list \<Rightarrow> cdc_adapter \<Rightarrow>
      (ch_error + apply_outcome option) \<times> u64 list \<times> cdc_adapter" where
  "apply_frames ser sends hash applied [] a = (Ok applied, [], a)"
| "apply_frames ser sends hash applied (f # fs) a =
     (case feed [f] (ca_decoder a) of
        (Inl e, d) \<Rightarrow> (Err (FeedFailed e), [], a\<lparr>ca_decoder := d\<rparr>)
      | (Inr b, d) \<Rightarrow>
          let a = a\<lparr>ca_decoder := d\<rparr> in
          if db_txns b = 0
          then if db_changes b = [] then apply_frames ser sends hash applied fs a else (Err ChangesBeforeCommit, [], a)
          else if \<not> (db_txns b = 1 \<and> db_last_commit_lsn b \<noteq> 0) then (Err NotOneCommit, [], a)
          else if applied \<noteq> None then (Err SecondCommit, [], a)
          else case sink_apply ser sends (db_last_commit_lsn b) hash (db_changes b) (ca_server a) of
                 (Inl e, acks, s) \<Rightarrow> (Err e, acks, a\<lparr>ca_server := s\<rparr>)
               | (Inr out, acks, s) \<Rightarrow>
                   (case apply_frames ser sends hash (Some out) fs (a\<lparr>ca_server := s\<rparr>) of
                      (r, acks', a) \<Rightarrow> (r, acks @ acks', a)))"

section \<open>Statement files\<close>

definition is_quote :: "byte \<Rightarrow> bool" where "is_quote b \<longleftrightarrow> b = 39 \<or> b = 34 \<or> b = 96"

text \<open>Both passes of \<open>split_sql_statements\<close> follow quotes alike: the open quote and whether the next character is escaped.\<close>

type_synonym quote_state = "byte option \<times> bool"

fun in_quote :: "byte \<Rightarrow> bool \<Rightarrow> byte \<Rightarrow> quote_state" where
  "in_quote q escaped b =
     (if escaped then (Some q, False) else if b = 92 then (Some q, True) else if b = q then (None, False) else (Some q, False))"

text \<open>A line comment: what follows its newline.\<close>

fun skip_line :: "bytes \<Rightarrow> bytes option" where
  "skip_line [] = None"
| "skip_line (b # bs) = (if b = 10 then Some bs else skip_line bs)"

lemma skip_line_shorter: "skip_line bs = Some r \<Longrightarrow> length r < length bs"
  by (induction bs) (auto split: if_splits)

function strip_comments :: "quote_state \<Rightarrow> bytes \<Rightarrow> ch_error + bytes" where
  "strip_comments (q, escaped) [] = (if q = None then Ok [] else Err UnterminatedQuote)"
| "strip_comments (q, escaped) (b # bs) =
     (case q of
        Some a \<Rightarrow> res_bind (strip_comments (in_quote a escaped b) bs) (\<lambda>r. Ok (b # r))
      | None \<Rightarrow>
          if is_quote b then res_bind (strip_comments (Some b, escaped) bs) (\<lambda>r. Ok (b # r))
          else if b = 45 \<and> take 1 bs = [45]
          then (case skip_line bs of
                  None \<Rightarrow> Ok []
                | Some rest \<Rightarrow> res_bind (strip_comments (None, escaped) rest) (\<lambda>r. Ok (10 # r)))
          else res_bind (strip_comments (None, escaped) bs) (\<lambda>r. Ok (b # r)))"
  by pat_completeness auto
termination
  by (relation "measure (\<lambda>(_, bs). length bs)") (auto dest: skip_line_shorter simp: less_SucI)

definition push_statement :: "bytes \<Rightarrow> bytes list \<Rightarrow> bytes list" where
  "push_statement cur out = (let t = trim_text cur in if t = [] then out else out @ [t])"

fun split_statements :: "quote_state \<Rightarrow> bytes \<Rightarrow> bytes list \<Rightarrow> bytes \<Rightarrow> bytes list" where
  "split_statements (q, escaped) cur out [] = push_statement cur out"
| "split_statements (q, escaped) cur out (b # bs) =
     (case q of
        Some a \<Rightarrow> split_statements (in_quote a escaped b) (cur @ [b]) out bs
      | None \<Rightarrow>
          if is_quote b then split_statements (Some b, escaped) (cur @ [b]) out bs
          else if b = 59 then split_statements (None, escaped) [] (push_statement cur out) bs
          else split_statements (None, escaped) (cur @ [b]) out bs)"

definition split_sql_statements :: "rstr \<Rightarrow> ch_error + rstr list" where
  "split_sql_statements sql = res_bind (strip_comments (None, False) sql) (\<lambda>t. Ok (split_statements (None, False) [] [] t))"

fun post_all :: "rstr list \<Rightarrow> ch_server \<Rightarrow> (ch_error + unit) \<times> ch_server" where
  "post_all [] s = (Ok (), s)"
| "post_all (x # xs) s = st_bind (post [] x s) (\<lambda>_ s. post_all xs s)"

definition execute_sql :: "rstr \<Rightarrow> ch_server \<Rightarrow> (ch_error + unit) \<times> ch_server" where
  "execute_sql sql s = st_bind (split_sql_statements sql, s) (\<lambda>xs s. post_all xs s)"

section \<open>Queries\<close>

definition render_clickhouse_sql :: "rstr \<Rightarrow> query_parameters \<Rightarrow> u64 \<Rightarrow> rstr + rstr" where
  "render_clickhouse_sql sql p target_lsn =
     (let rendered = replace_str (str '':tenant_set'') (join_comma (map (\<lambda>t. show_nat 10 (unat t)) (qp_tenant_set p)))
            (replace_str (str '':tenant_id'') (show_nat 10 (unat (qp_tenant p)))
              (replace_str (str '':window_end'') (str ''fromUnixTimestamp64Micro('' @ show_int (sint (qp_window_end p)) @ str '')'') sql))
      in if 58 \<in> set rendered then Inl (str ''unresolved named parameter in ClickHouse SQL'')
         else let rendered = replace_str (str ''{target_lsn}'') (show_nat 10 (unat target_lsn)) rendered
              in if 123 \<in> set rendered \<or> 125 \<in> set rendered then Inl (str ''unresolved placeholder in ClickHouse SQL'') else Inr rendered)"

definition cell_to_string :: "json \<Rightarrow> rstr option" where
  "cell_to_string v = (case v of JNull \<Rightarrow> None | JText s \<Rightarrow> Some s | JInt n \<Rightarrow> Some (show_nat 10 n) | JOther t \<Rightarrow> Some t)"

record compact_parser =
  cp_names :: "rstr \<Rightarrow> rstr list option"
  cp_cells :: "rstr \<Rightarrow> json list option"

definition strip_cr :: "rstr \<Rightarrow> rstr" where
  "strip_cr l = (if l \<noteq> [] \<and> last l = 13 then butlast l else l)"

definition text_lines :: "rstr \<Rightarrow> rstr list" where
  "text_lines s = filter (\<lambda>l. trim_text l \<noteq> []) (map strip_cr (cut_lines [] s))"

fun compact_rows :: "compact_parser \<Rightarrow> rstr list \<Rightarrow> ch_error + rstr option list list" where
  "compact_rows js [] = Ok []"
| "compact_rows js (l # ls) =
     res_bind (need (cp_cells js l) (CompactRow l)) (\<lambda>cells.
     res_bind (compact_rows js ls) (\<lambda>rows. Ok (map cell_to_string cells # rows)))"

definition parse_compact_rows :: "compact_parser \<Rightarrow> rstr \<Rightarrow> ch_error + rstr list \<times> rstr option list list" where
  "parse_compact_rows js body =
     (case text_lines body of
        [] \<Rightarrow> Err CompactHeader
      | names_line # rest \<Rightarrow>
          res_bind (need (cp_names js names_line) CompactHeader) (\<lambda>names.
          case rest of
            [] \<Rightarrow> Err CompactHeader
          | _ # ls \<Rightarrow> res_bind (compact_rows js ls) (\<lambda>rows. Ok (names, rows))))"

definition summary_unsigned :: "nat \<Rightarrow> ch_answer \<Rightarrow> rstr \<Rightarrow> nat option" where
  "summary_unsigned bound a field =
     Option.bind (an_summary a) (\<lambda>ob. Option.bind (map_of ob field) (\<lambda>v.
       case v of JText s \<Rightarrow> parse_unsigned 10 bound s | JInt n \<Rightarrow> if n < 2 ^ 64 then Some n else None | _ \<Rightarrow> None))"

definition applied_query :: rstr where
  "applied_query =
     str ''SELECT greatest((SELECT max(source_lsn) FROM '' @ APPLIED_TRANSACTIONS @
     str ''), (SELECT max(source_lsn) FROM r1_meta.visibility)) FORMAT TabSeparated''"

definition applied_position :: "ch_server \<Rightarrow> (ch_error + u64 option) \<times> ch_server" where
  "applied_position s =
     st_bind (post [] applied_query s) (\<lambda>body s.
     (let raw = trim_text body in
      if raw = [] then Ok None
      else res_bind (need (parse_unsigned 10 (2 ^ 64) raw) PositionUnreadable) (\<lambda>n. Ok (Some (word_of_nat n))), s))"

record clickhouse_status_rec =
  st_healthy :: bool
  st_version :: "rstr option"
  st_applied :: "u64 option"

definition clickhouse_status :: "ch_server \<Rightarrow> clickhouse_status_rec \<times> ch_server" where
  "clickhouse_status s =
     (let (v, s) = post [] (str ''SELECT version() FORMAT TabSeparated'') s;
          version = (case v of Inl _ \<Rightarrow> None | Inr body \<Rightarrow> Some (trim_text body));
          (a, s) = applied_position s
      in (\<lparr>st_healthy = (version \<noteq> None), st_version = version, st_applied = (case a of Inl _ \<Rightarrow> None | Inr p \<Rightarrow> p)\<rparr>, s))"

text \<open>\<open>split_whitespace\<close>.\<close>

function cut_words :: "bytes \<Rightarrow> bytes \<Rightarrow> bytes list" where
  "cut_words cur [] = [cur]"
| "cut_words cur (b # bs) =
     (case find (\<lambda>w. w \<noteq> [] \<and> take (length w) (b # bs) = w) white_space of
        None \<Rightarrow> cut_words (cur @ [b]) bs
      | Some w \<Rightarrow> cur # cut_words [] (drop (length w) (b # bs)))"
  by pat_completeness auto
termination
proof (relation "measure (\<lambda>(_, s). length s)")
  fix b bs w assume "find (\<lambda>w. w \<noteq> [] \<and> take (length w) (b # bs) = w) white_space = Some w"
  then have "w \<noteq> []" by (auto simp: find_Some_iff)
  then show "(([], drop (length w) (b # bs)), (cur, b # bs)) \<in> measure (\<lambda>(_, s). length s)" for cur
    by (cases w) auto
qed auto

definition split_words :: "rstr \<Rightarrow> rstr list" where
  "split_words s = filter (\<lambda>w. w \<noteq> []) (cut_words [] s)"

definition EVENT_QUERY :: rstr where
  "EVENT_QUERY = str ''SELECT count(), uniqExact(event_id) FROM r1_order_events_raw FORMAT TabSeparated''"

definition verify_event_ids_unique :: "ch_server \<Rightarrow> (ch_error + unit) \<times> ch_server" where
  "verify_event_ids_unique s =
     st_bind (post [] EVENT_QUERY s) (\<lambda>body s.
     (case split_words body of
        [a, b] \<Rightarrow>
          res_bind (need (parse_unsigned 10 (2 ^ 64) a) EventCount) (\<lambda>rows.
          res_bind (need (parse_unsigned 10 (2 ^ 64) b) EventCount) (\<lambda>distinct_ids. ensure (rows = distinct_ids) (DuplicateEvents rows distinct_ids)))
      | _ \<Rightarrow> Err EventCount, s))"

definition select_rows :: "compact_parser \<Rightarrow> rstr \<Rightarrow> ch_server \<Rightarrow> (ch_error + rstr option list list) \<times> ch_server" where
  "select_rows js sql s =
     st_bind (post [(str ''default_format'', COMPACT_FORMAT)] sql s) (\<lambda>body s. (res_bind (parse_compact_rows js body) (\<lambda>(_, rows). Ok rows), s))"

text \<open>\<open>wait_visible\<close>: the time elapsed at the head of each round; no result while the loop goes on.\<close>

fun wait_visible :: "u64 \<Rightarrow> nat \<Rightarrow> nat list \<Rightarrow> ch_server \<Rightarrow> (ch_error + nat) option \<times> ch_server" where
  "wait_visible target timeout [] s = (None, s)"
| "wait_visible target timeout (elapsed # es) s =
     (if timeout \<le> elapsed then (Some (Err WaitTimeout), s)
      else case applied_position s of
             (Inr (Some applied), s) \<Rightarrow> if target \<le> applied then (Some (Ok elapsed), s) else wait_visible target timeout es s
           | (_, s) \<Rightarrow> wait_visible target timeout es s)"

record engine_result =
  er_columns :: "rstr list"
  er_rows :: "rstr option list list"
  er_target :: u64
  er_visible :: u64
  er_elapsed :: nat
  er_rows_read :: "nat option"
  er_bytes_read :: "nat option"

definition visible_check :: "u64 \<Rightarrow> ch_server \<Rightarrow> (ch_error + unit) \<times> ch_server" where
  "visible_check target s =
     st_bind (applied_position s) (\<lambda>p s.
     (let applied = (case p of None \<Rightarrow> 0 | Some l \<Rightarrow> l) in ensure (target \<le> applied) (NotVisible target applied), s))"

definition clickhouse_query ::
    "compact_parser \<Rightarrow> (query_id \<Rightarrow> rstr) \<Rightarrow> query_id \<Rightarrow> query_parameters \<Rightarrow> u64 \<Rightarrow> ch_server \<Rightarrow> (ch_error + engine_result) \<times> ch_server" where
  "clickhouse_query js sql_file q p target s =
     st_bind (case render_clickhouse_sql (sql_file q) p target of Inl e \<Rightarrow> Err (RenderFailed e) | Inr t \<Rightarrow> Ok t, s) (\<lambda>sql s.
     st_bind (visible_check target s) (\<lambda>_ s.
     st_bind (verify_event_ids_unique s) (\<lambda>_ s.
     st_bind (post_full [(str ''default_format'', COMPACT_FORMAT), (str ''send_progress_in_http_headers'', str ''1''),
         (str ''wait_end_of_query'', str ''1'')] sql s) (\<lambda>a s.
     st_bind (need (summary_unsigned (2 ^ 128) a (str ''elapsed_ns'')) NoElapsed, s) (\<lambda>elapsed s.
     st_bind (parse_compact_rows js (an_body a), s) (\<lambda>(columns, rows) s.
     st_bind (visible_check target s) (\<lambda>_ s.
     (Ok \<lparr>er_columns = columns, er_rows = rows, er_target = target, er_visible = target, er_elapsed = elapsed,
        er_rows_read = summary_unsigned (2 ^ 64) a (str ''read_rows''), er_bytes_read = summary_unsigned (2 ^ 64) a (str ''read_bytes'')\<rparr>, s))))))))"

section \<open>Samples\<close>

definition sample_change :: "change_op \<Rightarrow> typed_change" where
  "sample_change q =
     (let row = Some [(str ''tenant_id'', TText (str ''1'')), (str ''region'', TText (str ''eu''))]
      in \<lparr>tc_commit_lsn = 0, tc_xid = 7, tc_table = str ''r1.tenants'', tc_op = q,
          tc_new = (if q = ODelete then None else row), tc_old = (if q = ODelete then row else None)\<rparr>)"

definition sample_answer :: "string \<Rightarrow> ch_answer option" where
  "sample_answer t = Some \<lparr>an_body = str t, an_summary = None\<rparr>"

end
