(* ===== verification/ClickHouseSink.thy ===== *)
theory ClickHouseSink
  imports ClickHouse
begin

text \<open>
  What the requests of \<open>ClickHouse\<close> amount to: a transaction is acknowledged after its marker is read back, a window
  that succeeds was sent whole, a query result was proved visible, and a statement file is cut at its
  semicolons.
\<close>

section \<open>Requests in the trace\<close>

lemma post_full_cases:
  "post_full params body s = (r, s') \<Longrightarrow>
    \<exists>a. cs_trace s' = cs_trace s @ [(\<lparr>cr_params = params, cr_body = body\<rparr>, a)] \<and> need a RequestFailed = r"
  by (auto simp: post_full_def Let_def)

lemma post_Ok:
  "post params body s = (Ok t, s') \<Longrightarrow>
    \<exists>a. cs_trace s' = cs_trace s @ [(\<lparr>cr_params = params, cr_body = body\<rparr>, Some a)] \<and> an_body a = t"
  by (auto simp: post_def st_bind_Ok_iff dest!: post_full_cases)

lemma post_trace: "\<exists>a. cs_trace (snd (post params body s)) = cs_trace s @ [(\<lparr>cr_params = params, cr_body = body\<rparr>, a)]"
proof -
  obtain r s' where p: "post_full params body s = (r, s')" by fastforce
  then have "snd (post params body s) = s'" by (cases r) (simp_all add: post_def)
  then show ?thesis using post_full_cases [OF p] by auto
qed

text \<open>The requests of \<open>post_rows\<close>.\<close>

definition insert_request :: "(rstr \<Rightarrow> rstr \<Rightarrow> rstr) \<Rightarrow> rstr \<times> rstr list \<Rightarrow> ch_request" where
  "insert_request token t =
     \<lparr>cr_params = [(str ''date_time_input_format'', str ''best_effort''),
        (str ''insert_deduplication_token'', token (fst t) (insert_body (fst t) (snd t)))], cr_body = insert_body (fst t) (snd t)\<rparr>"

definition answered :: "ch_request list \<Rightarrow> (ch_request \<times> ch_answer option) list \<Rightarrow> bool" where
  "answered rqs tr \<longleftrightarrow> map fst tr = rqs \<and> (\<forall>x \<in> set tr. snd x \<noteq> None)"

lemma answered_simps [simp]:
  "answered [] []"
  "answered (rq # rqs) ((rq', a) # tr) \<longleftrightarrow> rq' = rq \<and> a \<noteq> None \<and> answered rqs tr"
  by (auto simp: answered_def)

lemma answered_append: "answered xs tr \<Longrightarrow> answered ys tr' \<Longrightarrow> answered (xs @ ys) (tr @ tr')"
  by (auto simp: answered_def)

lemma post_rows_Ok:
  "post_rows token m s = (Ok u, s') \<Longrightarrow> \<exists>tr. cs_trace s' = cs_trace s @ tr \<and> answered (map (insert_request token) m) tr"
proof (induction token m s rule: post_rows.induct)
  case (2 token raw rows rest s)
  obtain t s1 where 1: "post [(str ''date_time_input_format'', str ''best_effort''),
        (str ''insert_deduplication_token'', token raw (insert_body raw rows))] (insert_body raw rows) s = (Ok t, s1)"
      "post_rows token rest s1 = (Ok u, s')"
    using 2(2) by (auto simp: Let_def st_bind_Ok_iff)
  from post_Ok [OF 1(1)] obtain a where a: "cs_trace s1 = cs_trace s @
      [(insert_request token (raw, rows), Some a)]" by (auto simp: insert_request_def)
  from 2(1) [OF refl 1(2)] obtain tr where "cs_trace s' = cs_trace s1 @ tr" "answered (map (insert_request token) rest) tr" by blast
  then show ?case using a by (intro exI [of _ "(insert_request token (raw, rows), Some a) # tr"]) simp
qed simp

section \<open>A transaction is acknowledged last\<close>

definition marker_read :: "u64 \<Rightarrow> rstr \<Rightarrow> ch_request \<times> ch_answer option \<Rightarrow> bool" where
  "marker_read lsn hash x \<longleftrightarrow> fst x = \<lparr>cr_params = [], cr_body = marker_query lsn\<rparr> \<and> (\<exists>a. snd x = Some a \<and> full_lines (an_body a) = [hash])"

lemma is_applied_Ok:
  assumes "transaction_is_applied lsn hash s = (Ok b, s')"
  shows "\<exists>x. cs_trace s' = cs_trace s @ [x] \<and> (b \<longrightarrow> marker_read lsn hash x) \<and>
    (\<not> b \<longrightarrow> answered [\<lparr>cr_params = [], cr_body = marker_query lsn\<rparr>] [x])"
proof -
  obtain body where p: "post [] (marker_query lsn) s = (Ok body, s')" and
      r: "(case full_lines body of [] \<Rightarrow> Ok False
        | recorded # rest \<Rightarrow>
            res_bind (ensure (rest = []) (DuplicateMarkers (Suc (length rest)))) (\<lambda>_.
            res_bind (ensure (recorded = hash) (HashMismatch recorded)) (\<lambda>_. Ok True))) = Ok b"
    using assms by (auto simp: transaction_is_applied_def st_bind_Ok_iff)
  from post_Ok [OF p] r show ?thesis
    by (auto simp: marker_read_def res_bind_Ok_iff split: list.splits)
qed

definition marker_body :: "u64 \<Rightarrow> rstr \<Rightarrow> rstr" where
  "marker_body lsn hash =
     str ''INSERT INTO '' @ APPLIED_TRANSACTIONS @ str '' (operation_sha256, source_lsn, applied_at) VALUES ('' @ [39] @ escape_quotes hash @
     [39] @ str '', '' @ show_nat 10 (unat lsn) @ str '', now())''"

definition marker_request :: "u64 \<Rightarrow> rstr \<Rightarrow> ch_request" where
  "marker_request lsn hash =
     \<lparr>cr_params = [(str ''insert_deduplication_token'', escape_quotes hash @ str '':'' @ APPLIED_TRANSACTIONS)], cr_body = marker_body lsn hash\<rparr>"

lemma record_marker_Ok:
  "record_marker lsn hash s = (Ok u, s') \<Longrightarrow> \<exists>tr. cs_trace s' = cs_trace s @ tr \<and> answered [marker_request lsn hash] tr"
  unfolding record_marker_def marker_request_def
  by (auto simp: st_bind_Ok_iff marker_body_def dest!: post_Ok)

definition row_requests :: "(row_object \<Rightarrow> rstr) \<Rightarrow> rstr \<Rightarrow> (rstr \<times> row_object list) list \<Rightarrow> ch_request list" where
  "row_requests ser hash rows =
     map (insert_request (\<lambda>raw _. hash @ str '':'' @ raw)) (map (\<lambda>(raw, obs). (raw, map ser obs)) rows)"

lemma insert_rows_Ok:
  assumes "insert_version_rows ser lsn hash changes initial s = (Ok u, s')"
  shows "\<exists>rows tr. change_rows (\<lambda>ob. ob) initial lsn 0 changes [] = Ok rows \<and> changes \<noteq> [] \<and>
    cs_trace s' = cs_trace s @ tr \<and> answered (row_requests ser hash rows) tr"
proof -
  obtain rows where "change_rows (\<lambda>ob. ob) initial lsn 0 changes [] = Ok rows" "changes \<noteq> []"
      "post_rows (\<lambda>raw _. hash @ str '':'' @ raw) (map (\<lambda>(raw, obs). (raw, map ser obs)) rows) s = (Ok u, s')"
    using assms by (auto simp: insert_version_rows_def st_bind_Ok_iff)
  then show ?thesis using post_rows_Ok unfolding row_requests_def by fast
qed

lemma apply_transaction_Ok:
  assumes "apply_transaction ser lsn hash changes s = (Ok out, s')"
  shows "\<exists>tr x. cs_trace s' = cs_trace s @ tr @ [x] \<and> marker_read lsn hash x \<and>
    (case out of SkippedIdempotent \<Rightarrow> tr = []
     | Applied \<Rightarrow> \<exists>rows. change_rows (\<lambda>ob. ob) False lsn 0 changes [] = Ok rows \<and>
         answered (\<lparr>cr_params = [], cr_body = marker_query lsn\<rparr> # row_requests ser hash rows @ [marker_request lsn hash]) tr)"
proof -
  obtain b s1 where b: "transaction_is_applied lsn hash s = (Ok b, s1)"
    using assms by (auto simp: apply_transaction_def st_bind_Ok_iff)
  from is_applied_Ok [OF b] obtain x where x: "cs_trace s1 = cs_trace s @ [x]" "b \<longrightarrow> marker_read lsn hash x"
      "\<not> b \<longrightarrow> answered [\<lparr>cr_params = [], cr_body = marker_query lsn\<rparr>] [x]" by blast
  show ?thesis
  proof (cases b)
    case True
    then have "out = SkippedIdempotent" "s' = s1" using assms b by (auto simp: apply_transaction_def)
    then show ?thesis using x True by simp
  next
    case False
    then obtain u s2 u' s3 ok where s:
        "insert_version_rows ser lsn hash changes False s1 = (Ok u, s2)" "record_marker lsn hash s2 = (Ok u', s3)"
        "transaction_is_applied lsn hash s3 = (Ok True, s')" "out = Applied"
      using assms b by (auto simp: apply_transaction_def st_bind_Ok_iff)
    from insert_rows_Ok [OF s(1)] record_marker_Ok [OF s(2)] is_applied_Ok [OF s(3)] obtain rows t1 t2 y where
      t: "change_rows (\<lambda>ob. ob) False lsn 0 changes [] = Ok rows" "cs_trace s2 = cs_trace s1 @ t1" "answered (row_requests ser hash rows) t1"
        "cs_trace s3 = cs_trace s2 @ t2" "answered [marker_request lsn hash] t2" "cs_trace s' = cs_trace s3 @ [y]" "marker_read lsn hash y"
      by blast
    have "answered (\<lparr>cr_params = [], cr_body = marker_query lsn\<rparr> # row_requests ser hash rows @ [marker_request lsn hash]) (x # t1 @ t2)"
      using answered_append [OF _ answered_append [OF t(3,5)]] x(3) False by fastforce
    then show ?thesis using t x(1) s(4) by (intro exI [of _ "x # t1 @ t2"] exI [of _ y]) simp
  qed
qed

text \<open>
  C28. A transaction is acknowledged only when it is in ClickHouse. Whatever the server answers, if the sink acknowledges
  anything to PostgreSQL, it is the position of the transaction, once, and the last request was answered with
  exactly the hash of the transaction as its marker. Either that was the first request (the transaction was applied
  before, nothing is sent again), or before it every row of every table was inserted and then the marker,
  all with success.
\<close>
theorem transaction_acked_after_marker:
  assumes "sink_apply ser sends lsn hash changes s = (r, acks, s')" and "acks \<noteq> []"
  shows "acks = [lsn] \<and>
    (\<exists>tr x. cs_trace s' = cs_trace s @ tr @ [x] \<and> marker_read lsn hash x \<and>
      (tr = [] \<or>
       (\<exists>rows. change_rows (\<lambda>ob. ob) False lsn 0 changes [] = Ok rows \<and>
         answered (\<lparr>cr_params = [], cr_body = marker_query lsn\<rparr> # row_requests ser hash rows @ [marker_request lsn hash]) tr)))"
proof -
  obtain out where out: "apply_transaction ser lsn hash changes s = (Ok out, s')" and a: "acks = [lsn]"
    using assms by (auto simp: sink_apply_def split: prod.splits sum.splits if_splits)
  from apply_transaction_Ok [OF out] a show ?thesis by (cases out) auto
qed

section \<open>A window is sent whole\<close>

definition window_requests :: "(bytes \<Rightarrow> bytes) \<Rightarrow> u64 \<Rightarrow> (rstr \<times> rstr list) list \<Rightarrow> rstr \<Rightarrow> ch_request list" where
  "window_requests sha last_lsn rows markers =
     (let boundary = str ''window-'' @ show_nat 10 (unat last_lsn) in
      map (insert_request (\<lambda>raw body. window_token sha raw boundary body)) rows @
      [\<lparr>cr_params = [(str ''insert_deduplication_token'', window_token sha APPLIED_TRANSACTIONS boundary markers)], cr_body = markers_body markers\<rparr>])"

text \<open>The requests of a window that succeeded: all rows, all markers, and the count that finds them all.\<close>

definition window_sent ::
    "(row_object \<Rightarrow> rstr) \<Rightarrow> (bytes \<Rightarrow> bytes) \<Rightarrow> cdc_commit list \<Rightarrow> (ch_request \<times> ch_answer option) list \<Rightarrow> bool" where
  "window_sent ser sha commits tr \<longleftrightarrow>
     commits \<noteq> [] \<and>
     (\<exists>rows markers tr' a. window_rows ser commits [] [] = Ok (rows, markers) \<and>
        tr = tr' @ [(\<lparr>cr_params = [], cr_body = count_query (cc_lsn (hd commits)) (cc_lsn (last commits))\<rparr>, Some a)] \<and>
        answered (window_requests sha (cc_lsn (last commits)) rows (butlast markers)) tr' \<and>
        parse_unsigned 10 (2 ^ 64) (trim_text (an_body a)) = Some (length commits))"

lemma apply_window_Ok:
  assumes "sink_apply_window ser sha commits s = (Ok l, s')"
  shows "\<exists>tr. cs_trace s' = cs_trace s @ tr \<and> window_sent ser sha commits tr \<and> l = cc_lsn (last commits)"
proof -
  let ?boundary = "str ''window-'' @ show_nat 10 (unat (cc_lsn (last commits)))"
  obtain rows markers s1 s2 u t body where
    w: "commits \<noteq> []" "window_rows ser commits [] [] = Ok (rows, markers)"
      "post_rows (\<lambda>raw body. window_token sha raw ?boundary body) rows s = (Ok u, s1)"
      "post [(str ''insert_deduplication_token'', window_token sha APPLIED_TRANSACTIONS ?boundary (butlast markers))]
        (markers_body (butlast markers)) s1 = (Ok t, s2)"
      "post [] (count_query (cc_lsn (hd commits)) (cc_lsn (last commits))) s2 = (Ok body, s')"
      "parse_unsigned 10 (2 ^ 64) (trim_text body) = Some (length commits)" "l = cc_lsn (last commits)"
    using assms by (auto simp: sink_apply_window_def st_bind_Ok_iff Let_def)
  from post_rows_Ok [OF w(3)] post_Ok [OF w(4)] post_Ok [OF w(5)] obtain tr a1 a2 where
    tr: "cs_trace s1 = cs_trace s @ tr" "answered (map (insert_request (\<lambda>raw body. window_token sha raw ?boundary body)) rows) tr"
      "cs_trace s2 = cs_trace s1 @ [(\<lparr>cr_params = [(str ''insert_deduplication_token'',
          window_token sha APPLIED_TRANSACTIONS ?boundary (butlast markers))], cr_body = markers_body (butlast markers)\<rparr>, Some a1)]"
      "cs_trace s' = cs_trace s2 @ [(\<lparr>cr_params = [], cr_body = count_query (cc_lsn (hd commits)) (cc_lsn (last commits))\<rparr>, Some a2)]"
      "an_body a2 = body" by blast
  let ?m = "(\<lparr>cr_params = [(str ''insert_deduplication_token'',
      window_token sha APPLIED_TRANSACTIONS ?boundary (butlast markers))], cr_body = markers_body (butlast markers)\<rparr>, Some a1)"
  have "answered (window_requests sha (cc_lsn (last commits)) rows (butlast markers)) (tr @ [?m])"
    unfolding window_requests_def Let_def by (rule answered_append [OF tr(2)]) simp
  then show ?thesis
    using w tr unfolding window_sent_def
    by (intro exI [of _ "tr @ [?m, (\<lparr>cr_params = [], cr_body = count_query (cc_lsn (hd commits)) (cc_lsn (last commits))\<rparr>, Some a2)]"]) auto
qed

section \<open>A query result was proved visible\<close>

definition position_read :: "u64 \<Rightarrow> ch_request \<times> ch_answer option \<Rightarrow> bool" where
  "position_read target x \<longleftrightarrow>
     fst x = \<lparr>cr_params = [], cr_body = applied_query\<rparr> \<and>
     (\<exists>a n. snd x = Some a \<and> parse_unsigned 10 (2 ^ 64) (trim_text (an_body a)) = Some n \<and> unat target \<le> n)"

lemma visible_check_Ok:
  assumes "visible_check target s = (Ok u, s')" and "0 < target"
  shows "\<exists>x. cs_trace s' = cs_trace s @ [x] \<and> position_read target x"
proof -
  obtain p where p: "applied_position s = (Ok p, s')" "target \<le> (case p of None \<Rightarrow> 0 | Some l \<Rightarrow> l)"
    using assms(1) by (auto simp: visible_check_def st_bind_Ok_iff Let_def)
  then obtain l where l: "p = Some l" "target \<le> l" using assms(2) by (cases p) auto
  obtain body where b: "post [] applied_query s = (Ok body, s')"
      "(let raw = trim_text body in if raw = [] then Ok None
        else res_bind (need (parse_unsigned 10 (2 ^ 64) raw) PositionUnreadable) (\<lambda>n. Ok (Some (word_of_nat n)))) = Ok p"
    using p(1) by (auto simp: applied_position_def st_bind_Ok_iff)
  then obtain n where n: "parse_unsigned 10 (2 ^ 64) (trim_text body) = Some n" "l = word_of_nat n"
    using l(1) by (auto simp: Let_def res_bind_Ok_iff split: if_splits)
  have "n < 2 ^ 64" using n(1) by (auto simp: parse_unsigned_def Let_def split: if_splits option.splits)
  then have "unat target \<le> n" using l(2) n(2) by (simp add: word_le_nat_alt of_nat_inverse_64)
  then show ?thesis using post_Ok [OF b(1)] n(1) by (auto simp: position_read_def)
qed

definition events_distinct :: "ch_request \<times> ch_answer option \<Rightarrow> bool" where
  "events_distinct x \<longleftrightarrow>
     fst x = \<lparr>cr_params = [], cr_body = EVENT_QUERY\<rparr> \<and>
     (\<exists>a w1 w2 n. snd x = Some a \<and> split_words (an_body a) = [w1, w2] \<and> parse_unsigned 10 (2 ^ 64) w1 = Some n \<and>
        parse_unsigned 10 (2 ^ 64) w2 = Some n)"

lemma verify_events_Ok:
  assumes "verify_event_ids_unique s = (Ok u, s')"
  shows "\<exists>x. cs_trace s' = cs_trace s @ [x] \<and> events_distinct x"
proof -
  obtain body where "post [] EVENT_QUERY s = (Ok body, s')" and
      r: "(case split_words body of
        [a, b] \<Rightarrow>
          res_bind (need (parse_unsigned 10 (2 ^ 64) a) EventCount) (\<lambda>rows.
          res_bind (need (parse_unsigned 10 (2 ^ 64) b) EventCount) (\<lambda>distinct_ids. ensure (rows = distinct_ids) (DuplicateEvents rows distinct_ids)))
      | _ \<Rightarrow> Err EventCount) = Ok u"
    using assms by (auto simp: verify_event_ids_unique_def st_bind_Ok_iff)
  then show ?thesis using post_Ok by (fastforce simp: events_distinct_def res_bind_Ok_iff split: list.splits)
qed

lemma set_replace_str: "set (replace_str pat v s) \<subseteq> set v \<union> set s"
proof (induction pat v s rule: replace_str.induct)
  case (2 pat v b bs)
  then show ?case using set_drop_subset [of "length pat - 1" bs] by auto
qed simp

lemma rendered_clean: "render_clickhouse_sql sql p target = Inr t \<Longrightarrow> 58 \<notin> set t \<and> 123 \<notin> set t \<and> 125 \<notin> set t"
proof -
  assume r: "render_clickhouse_sql sql p target = Inr t"
  then obtain t0 where "58 \<notin> set t0" "t = replace_str (str ''{target_lsn}'') (show_nat 10 (unat target)) t0" "123 \<notin> set t" "125 \<notin> set t"
    unfolding render_clickhouse_sql_def Let_def by (auto simp del: str_Cons split: if_splits)
  then show ?thesis using set_replace_str [of "str ''{target_lsn}''" "show_nat 10 (unat target)" t0] show_dec_clean(1) [of "unat target"] by auto
qed

definition query_params :: "(rstr \<times> rstr) list" where
  "query_params = [(str ''default_format'', COMPACT_FORMAT), (str ''send_progress_in_http_headers'', str ''1''), (str ''wait_end_of_query'', str ''1'')]"

text \<open>
  C29. A query result is one of its position. If a query at a positive position succeeds, the server was asked four times: for
  the position it has reached, whether the event ids are distinct, the query itself, and the position again; both
  positions were at least the target, the two event counts were equal, the text sent has no named parameter and no
  placeholder left, the rows are what the answer reads as, and the result is labelled with the target.
\<close>
theorem query_result_was_visible:
  assumes "clickhouse_query js sql_file q p target s = (Ok res, s')" and "0 < target"
  shows "\<exists>sql x1 x2 x3 x4 a.
    render_clickhouse_sql (sql_file q) p target = Inr sql \<and> 58 \<notin> set sql \<and> 123 \<notin> set sql \<and> 125 \<notin> set sql \<and>
    cs_trace s' = cs_trace s @ [x1, x2, x3, x4] \<and> position_read target x1 \<and> events_distinct x2 \<and>
    x3 = (\<lparr>cr_params = query_params, cr_body = sql\<rparr>, Some a) \<and> position_read target x4 \<and>
    parse_compact_rows js (an_body a) = Ok (er_columns res, er_rows res) \<and> er_target res = target \<and> er_visible res = target"
proof -
  obtain sql u1 s1 u2 s2 a s3 e columns rows u3 where
    q: "render_clickhouse_sql (sql_file q) p target = Inr sql" "visible_check target s = (Ok u1, s1)"
      "verify_event_ids_unique s1 = (Ok u2, s2)" "post_full query_params sql s2 = (Ok a, s3)"
      "summary_unsigned (2 ^ 128) a (str ''elapsed_ns'') = Some e" "parse_compact_rows js (an_body a) = Ok (columns, rows)"
      "visible_check target s3 = (Ok u3, s')" "er_columns res = columns" "er_rows res = rows" "er_target res = target" "er_visible res = target"
    using assms(1) by (auto simp: clickhouse_query_def query_params_def st_bind_Ok_iff split: sum.splits)
  from visible_check_Ok [OF q(2) assms(2)] verify_events_Ok [OF q(3)] post_full_cases [OF q(4)] visible_check_Ok [OF q(7) assms(2)]
  obtain x1 x2 x4 where "cs_trace s1 = cs_trace s @ [x1]" "position_read target x1" "cs_trace s2 = cs_trace s1 @ [x2]" "events_distinct x2"
      "cs_trace s3 = cs_trace s2 @ [(\<lparr>cr_params = query_params, cr_body = sql\<rparr>, Some a)]" "cs_trace s' = cs_trace s3 @ [x4]" "position_read target x4"
    by auto
  moreover have "58 \<notin> set sql \<and> 123 \<notin> set sql \<and> 125 \<notin> set sql" by (rule rendered_clean [OF q(1)])
  ultimately show ?thesis using q by auto
qed

section \<open>Statement files\<close>

text \<open>
  A text is quiet from a quote state if outside its quotes it has no semicolon, no two dashes in a row and no dash at its
  end; it ends in the second.
\<close>

fun quote_run :: "quote_state \<Rightarrow> bytes \<Rightarrow> quote_state option" where
  "quote_run st [] = Some st"
| "quote_run (q, escaped) (b # bs) =
     (case q of
        Some a \<Rightarrow> quote_run (in_quote a escaped b) bs
      | None \<Rightarrow>
          if is_quote b then quote_run (Some b, escaped) bs
          else if b = 59 \<or> b = 45 \<and> (bs = [] \<or> hd bs = 45) then None
          else quote_run (None, escaped) bs)"

lemma strip_quiet: "quote_run st t = Some st' \<Longrightarrow> strip_comments st (t @ r) = res_bind (strip_comments st' r) (\<lambda>x. Ok (t @ x))"
proof (induction st t rule: quote_run.induct)
  case (1 st)
  then show ?case by (cases "strip_comments st' r") auto
next
  case (2 q escaped b bs)
  have e: "res_bind (res_bind m (\<lambda>x. Ok (bs @ x))) (\<lambda>y. Ok (b # y)) = res_bind m (\<lambda>x. Ok (b # bs @ x))" for m :: "ch_error + bytes" and b
    by (cases m) auto
  have d: "\<not> (b = 45 \<and> (bs = [] \<or> hd bs = 45)) \<Longrightarrow> \<not> (b = 45 \<and> take 1 (bs @ r) = [45])"
    by (cases bs) auto
  show ?case using 2 d by (cases q) (auto simp: e is_quote_def simp del: in_quote.simps split: if_splits)
qed

lemma split_quiet: "quote_run st t = Some st' \<Longrightarrow> split_statements st cur out (t @ r) = split_statements st' (cur @ t) out r"
  by (induction st t arbitrary: cur rule: quote_run.induct) (auto simp del: in_quote.simps split: option.splits if_splits)

lemma strip_semi: "strip_comments (None, e) (59 # r) = res_bind (strip_comments (None, e) r) (\<lambda>x. Ok (59 # x))"
  by (simp add: is_quote_def)

definition plain_statement :: "rstr \<Rightarrow> bool" where
  "plain_statement t \<longleftrightarrow> t \<noteq> [] \<and> trim_text t = t \<and> quote_run (None, False) t = Some (None, False)"

lemma trim_Nil: "trim_text [] = []" by (rule trim_none) (simp_all add: white_space_def)

lemma statements_roundtrip_plain: "plain_statement t \<Longrightarrow> split_sql_statements t = Ok [t]"
  using split_quiet [of "(None, False)" t "(None, False)" "[]" "[]" "[]"] strip_quiet [of "(None, False)" t "(None, False)" "[]"]
  by (simp add: split_sql_statements_def plain_statement_def push_statement_def)

text \<open>A statement as it is written: pieces of text, quotes closed in each, and line comments. A comment leaves its newline.\<close>

datatype sql_piece = SqlText bytes | SqlComment bytes

fun piece_ok :: "sql_piece \<Rightarrow> bool" where
  "piece_ok (SqlText t) = (quote_run (None, False) t = Some (None, False))"
| "piece_ok (SqlComment c) = (10 \<notin> set c)"

fun sql_text :: "sql_piece \<Rightarrow> bytes" where
  "sql_text (SqlText t) = t"
| "sql_text (SqlComment c) = str ''--'' @ c @ [10]"

fun piece_left :: "sql_piece \<Rightarrow> bytes" where
  "piece_left (SqlText t) = t"
| "piece_left (SqlComment c) = [10]"

abbreviation written :: "sql_piece list \<Rightarrow> bytes" where
  "written ps \<equiv> concat (map sql_text ps)"

abbreviation uncommented :: "sql_piece list \<Rightarrow> bytes" where
  "uncommented ps \<equiv> concat (map piece_left ps)"

lemma skip_line_ends: "10 \<notin> set c \<Longrightarrow> skip_line (c @ 10 # r) = Some r"
  by (induction c) auto

lemma skip_line_none: "10 \<notin> set c \<Longrightarrow> skip_line c = None"
  by (induction c) auto

lemma strip_comment: "10 \<notin> set c \<Longrightarrow>
    strip_comments (None, e) (45 # 45 # c @ 10 # r) = res_bind (strip_comments (None, e) r) (\<lambda>x. Ok (10 # x))"
  using skip_line_ends [of c r] by (simp add: is_quote_def)

lemma strip_written:
  "list_all piece_ok ps \<Longrightarrow> strip_comments (None, False) (written ps @ r) =
     res_bind (strip_comments (None, False) r) (\<lambda>x. Ok (uncommented ps @ x))"
proof (induction ps)
  case Nil
  then show ?case by (cases "strip_comments (None, False) r") auto
next
  case (Cons p ps)
  then show ?case
    by (cases p; cases "strip_comments (None, False) r")
      (simp_all add: strip_quiet strip_comment del: strip_comments.simps)
qed

lemma strip_file:
  "list_all (list_all piece_ok) sts \<Longrightarrow> strip_comments (None, False) (concat (map (\<lambda>ps. written ps @ [59]) sts) @ r) =
     res_bind (strip_comments (None, False) r) (\<lambda>x. Ok (concat (map (\<lambda>ps. uncommented ps @ [59]) sts) @ x))"
proof (induction sts)
  case Nil
  then show ?case by (cases "strip_comments (None, False) r") auto
next
  case (Cons ps sts)
  then show ?case by (cases "strip_comments (None, False) r")
      (simp_all add: strip_written strip_semi del: strip_comments.simps)
qed

lemma split_written:
  "list_all piece_ok ps \<Longrightarrow> split_statements (None, False) cur out (uncommented ps @ r) =
     split_statements (None, False) (cur @ uncommented ps) out r"
proof (induction ps arbitrary: cur)
  case (Cons p ps)
  have "split_statements (None, False) cur out (10 # x) = split_statements (None, False) (cur @ [10]) out x" for x
    by (simp add: is_quote_def)
  then show ?case using Cons by (cases p) (simp_all add: split_quiet del: split_statements.simps)
qed simp

lemma split_file:
  "list_all (list_all piece_ok) sts \<Longrightarrow>
     split_statements (None, False) [] out (concat (map (\<lambda>ps. uncommented ps @ [59]) sts) @ r) =
     split_statements (None, False) [] (out @ filter (\<lambda>t. t \<noteq> []) (map (trim_text \<circ> uncommented) sts)) r"
proof (induction sts arbitrary: out)
  case (Cons ps sts)
  have "split_statements (None, False) cur out (59 # x) = split_statements (None, False) [] (push_statement cur out) x" for cur x
    by (simp add: is_quote_def)
  then show ?case using Cons by (simp add: split_written push_statement_def Let_def del: split_statements.simps)
qed simp

text \<open>
  C30. A statement file is cut back into its statements. Each statement is any text whose quotes close, with semicolons,
  dashes and escapes free inside quotes and single dashes outside, and with line comments of any content
  between its parts; each is ended by a semicolon, the last may go without one, and the file may end in a comment.
  What comes back, in order, is every statement with each comment replaced by a newline and trimmed, those
  that leave nothing (a comment alone) dropped. A quote left open at the end of the file is an error.
\<close>
theorem statements_roundtrip:
  assumes "list_all (list_all piece_ok) sts" and "list_all piece_ok ps" and "10 \<notin> set c"
  shows "split_sql_statements (concat (map (\<lambda>ps. written ps @ [59]) sts) @ written ps) =
      Ok (filter (\<lambda>t. t \<noteq> []) (map (trim_text \<circ> uncommented) (sts @ [ps]))) \<and>
    split_sql_statements (concat (map (\<lambda>ps. written ps @ [59]) sts) @ written ps @ str ''--'' @ c) =
      Ok (filter (\<lambda>t. t \<noteq> []) (map (trim_text \<circ> uncommented) (sts @ [ps]))) \<and>
    (quote_run (None, False) t = Some (Some q, e) \<longrightarrow>
      split_sql_statements (concat (map (\<lambda>ps. written ps @ [59]) sts) @ written ps @ t) = Err UnterminatedQuote)"
proof -
  have split: "split_statements (None, False) [] [] (concat (map (\<lambda>ps. uncommented ps @ [59]) sts) @ uncommented ps) =
      filter (\<lambda>t. t \<noteq> []) (map (trim_text \<circ> uncommented) (sts @ [ps]))"
    using split_file [OF assms(1), of "[]" "uncommented ps"] split_written [OF assms(2), of "[]" _ "[]"]
    by (simp add: push_statement_def Let_def)
  have strip: "strip_comments (None, False) (concat (map (\<lambda>ps. written ps @ [59]) sts) @ written ps @ r) =
      Ok (concat (map (\<lambda>ps. uncommented ps @ [59]) sts) @ uncommented ps)" if "strip_comments (None, False) r = Ok []" for r
    by (simp add: strip_file [OF assms(1)] strip_written [OF assms(2)] that del: strip_comments.simps)
  have "strip_comments (None, False) (str ''--'' @ c) = Ok []"
    using skip_line_none [OF assms(3)] by (simp add: is_quote_def)
  from strip [OF this] split have a: "split_sql_statements (concat (map (\<lambda>ps. written ps @ [59]) sts) @ written ps @ str ''--'' @ c) =
      Ok (filter (\<lambda>t. t \<noteq> []) (map (trim_text \<circ> uncommented) (sts @ [ps])))"
    by (simp add: split_sql_statements_def del: str_Cons)
  from strip [of "[]"] split have b: "split_sql_statements (concat (map (\<lambda>ps. written ps @ [59]) sts) @ written ps) =
      Ok (filter (\<lambda>t. t \<noteq> []) (map (trim_text \<circ> uncommented) (sts @ [ps])))"
    by (simp add: split_sql_statements_def)
  have "split_sql_statements (concat (map (\<lambda>ps. written ps @ [59]) sts) @ written ps @ t) = Err UnterminatedQuote"
    if t: "quote_run (None, False) t = Some (Some q, e)"
  proof -
    have "strip_comments (None, False) t = Err UnterminatedQuote" using strip_quiet [OF t, of "[]"] by simp
    then show ?thesis
      by (simp add: split_sql_statements_def strip_file [OF assms(1)] strip_written [OF assms(2)] del: strip_comments.simps)
  qed
  with a b show ?thesis by simp
qed

definition sample_server :: "string list \<Rightarrow> ch_server" where
  "sample_server ts = \<lparr>cs_answers = map sample_answer ts, cs_trace = []\<rparr>"

lemma transaction_acked_after_marker_witness:
  "\<exists>x. cs_trace (snd (snd (sink_apply (\<lambda>_. str ''{}'') True 9 (str ''h'') [sample_change OInsert] (sample_server [''h''])))) = [x] \<and>
     marker_read 9 (str ''h'') x"
proof -
  have f: "full_lines (str ''h'') = [str ''h'']" by code_simp
  obtain s' where r: "sink_apply (\<lambda>_. str ''{}'') True 9 (str ''h'') [sample_change OInsert] (sample_server [''h'']) = (Ok SkippedIdempotent, [9], s')"
      "length (cs_trace s') = 1"
    by (simp add: sink_apply_def apply_transaction_def transaction_is_applied_def post_def post_full_def sample_server_def sample_answer_def
        f Let_def del: str_Cons)
  from transaction_acked_after_marker [OF r(1)] obtain tr x where
    "cs_trace s' = cs_trace (sample_server [''h'']) @ tr @ [x]" "marker_read 9 (str ''h'') x" by auto
  then show ?thesis using r by (auto simp: sample_server_def)
qed

text \<open>Quotes that hold a semicolon, dashes and an escape; comments after, between and instead of statements; an open quote.\<close>

abbreviation quoted_sample :: bytes where
  "quoted_sample \<equiv> str ''SELECT 1-2, '' @ [34] @ str ''a;--'' @ [92, 34, 34]"

definition sample_pieces :: "sql_piece list list" where
  "sample_pieces =
     [[SqlText (quoted_sample @ [32]), SqlComment (str '' one; two''), SqlText (str ''FORMAT x'')],
      [SqlComment (str '' alone''), SqlText [32]]]"

lemma statements_roundtrip_witness:
  "split_sql_statements (quoted_sample @ str '' -- one; two'' @ [10] @ str ''FORMAT x;-- alone'' @ [10] @ str '' ; INSERT -- end'') =
     Ok [quoted_sample @ [32, 10] @ str ''FORMAT x'', str ''INSERT''] \<and>
   split_sql_statements (str ''INSERT '' @ [39] @ str ''x;'') = Err UnterminatedQuote"
proof -
  have ok: "list_all (list_all piece_ok) sample_pieces" "list_all piece_ok [SqlText (str '' INSERT '')]" "10 \<notin> set (str '' end'')"
    "list_all (list_all piece_ok) []" "list_all piece_ok []"
    by code_simp+
  have f: "filter (\<lambda>t. t \<noteq> []) (map (trim_text \<circ> uncommented) (sample_pieces @ [[SqlText (str '' INSERT '')]])) =
      [quoted_sample @ [32, 10] @ str ''FORMAT x'', str ''INSERT'']" by code_simp
  have t: "concat (map (\<lambda>ps. written ps @ [59]) sample_pieces) @ written [SqlText (str '' INSERT '')] @ str ''--'' @ str '' end'' =
      quoted_sample @ str '' -- one; two'' @ [10] @ str ''FORMAT x;-- alone'' @ [10] @ str '' ; INSERT -- end''" by code_simp
  have q: "quote_run (None, False) (str ''INSERT '' @ [39] @ str ''x;'') = Some (Some 39, False)" by code_simp
  from statements_roundtrip [OF ok(1-3)] have a: "split_sql_statements (concat (map (\<lambda>ps. written ps @ [59]) sample_pieces) @
      written [SqlText (str '' INSERT '')] @ str ''--'' @ str '' end'') = Ok [quoted_sample @ [32, 10] @ str ''FORMAT x'', str ''INSERT'']"
    unfolding f by blast
  from statements_roundtrip [OF ok(4,5,3), of "str ''INSERT '' @ [39] @ str ''x;''" 39 False] q a
  show ?thesis unfolding t by (simp del: str_Cons)
qed

definition sample_js :: compact_parser where
  "sample_js = \<lparr>cp_names = (\<lambda>_. Some [str ''n'']), cp_cells = (\<lambda>l. Some [JText l])\<rparr>"

definition sample_params :: query_parameters where
  "sample_params = \<lparr>qp_window_end = 7, qp_tenant = 5, qp_tenant_set = [5]\<rparr>"

definition query_server :: ch_server where
  "query_server =
     \<lparr>cs_answers = [sample_answer ''9'', Some \<lparr>an_body = str ''3'' @ [9] @ str ''3'', an_summary = None\<rparr>,
        Some \<lparr>an_body = str ''[n]'' @ [10] @ str ''[t]'' @ [10] @ str ''5'', an_summary = Some [(str ''elapsed_ns'', JText (str ''12''))]\<rparr>,
        sample_answer ''9''], cs_trace = []\<rparr>"

lemma query_result_was_visible_witness:
  "\<exists>res. fst (clickhouse_query sample_js (\<lambda>_. str ''SELECT 5'') Q1 sample_params 9 query_server) = Ok res \<and>
     er_visible res = 9 \<and> length (cs_trace (snd (clickhouse_query sample_js (\<lambda>_. str ''SELECT 5'') Q1 sample_params 9 query_server))) = 4"
proof -
  let ?r = "clickhouse_query sample_js (\<lambda>_. str ''SELECT 5'') Q1 sample_params 9 query_server"
  have t: "trim_text (str ''9'') = str ''9''" "split_words (str ''3'' @ 9 # str ''3'') = [str ''3'', str ''3'']"
    "text_lines (str ''[n]'' @ 10 # str ''[t]'' @ 10 # str ''5'') = [str ''[n]'', str ''[t]'', str ''5'']"
    "render_clickhouse_sql (str ''SELECT 5'') sample_params 9 = Inr (str ''SELECT 5'')" "str ''9'' \<noteq> []" by code_simp+
  have p: "parse_unsigned 10 18446744073709551616 (str ''9'') = Some 9" "parse_unsigned 10 18446744073709551616 (str ''3'') = Some 3"
    "parse_unsigned 10 340282366920938463463374607431768211456 (str ''12'') = Some 12" by (simp_all add: parse_unsigned_def digit_val_def Let_def)
  have "is_ok (fst ?r)"
    unfolding clickhouse_query_def visible_check_def applied_position_def post_def post_full_def verify_event_ids_unique_def parse_compact_rows_def
      query_server_def sample_answer_def summary_unsigned_def
    by (simp add: t p sample_js_def Let_def del: str_Cons)
  then obtain res where res: "fst ?r = Ok res" by (cases "fst ?r") auto
  then have "?r = (Ok res, snd ?r)" by (simp add: prod_eq_iff)
  from query_result_was_visible [OF this] res show ?thesis by (auto simp: query_server_def)
qed

end
