(* ===== verification/ClickHouseRows.thy ===== *)
theory ClickHouseRows
  imports ClickHouse
begin

text \<open>
  What the version rows are worth: their versions order the changes, and the reduction the queries under
  \<open>bench/r1/queries/clickhouse\<close> make of them is the table at the queried position, however the transactions were cut
  into windows.
\<close>

section \<open>Versions\<close>

lemma uint_version: "uint (version_from lsn ordinal) = uint lsn * 2 ^ 32 + uint ordinal"
proof -
  have b: "0 \<le> uint lsn" "uint lsn < 2 ^ 64" "0 \<le> uint ordinal" "uint ordinal < 2 ^ 32"
    using unsigned_less [of lsn, where 'a = int] unsigned_less [of ordinal, where 'a = int] by simp_all
  have u: "uint (push_bit 32 (ucast lsn :: u128)) = push_bit 32 (uint lsn)"
  proof -
    have uc: "uint (ucast lsn :: u128) = uint lsn" using b by (simp add: unsigned_ucast_eq take_bit_int_eq_self)
    have "uint (ucast lsn * 4294967296 :: u128) = uint (ucast lsn :: u128) * uint (4294967296 :: u128)"
      by (subst uint_mult_lem [THEN iffD1]) (use b uc in simp_all)
    then show ?thesis using uc by (simp add: push_bit_eq_mult)
  qed
  have o: "uint (ucast ordinal :: u128) = take_bit 32 (uint ordinal)"
    using b by (simp add: unsigned_ucast_eq take_bit_int_eq_self)
  have "uint (version_from lsn ordinal) = take_bit 32 (uint ordinal) OR push_bit 32 (uint lsn)"
    unfolding version_from_def uint_or u o by (rule or.commute)
  also have "\<dots> = take_bit 32 (uint ordinal) + push_bit 32 (uint lsn)"
    using concat_bit_def concat_bit_eq by metis
  finally show ?thesis using b by (simp add: take_bit_int_eq_self push_bit_eq_mult)
qed

lemma unat_version: "unat (version_from lsn ordinal) = unat lsn * 2 ^ 32 + unat ordinal"
  using uint_version [of lsn ordinal] by (simp flip: uint_nat add: of_nat_eq_iff [symmetric, where 'a = int])

lemma pair_less: "(i :: nat) < m \<Longrightarrow> j < m \<Longrightarrow> a * m + i < b * m + j \<longleftrightarrow> a < b \<or> a = b \<and> i < j"
proof -
  assume i: "i < m" and j: "j < m"
  have "a * m + i < b * m + j" if "a < b"
  proof -
    have "Suc a * m \<le> b * m" using that by (intro mult_le_mono1) simp
    then show ?thesis using i by simp
  qed
  moreover have "b * m + j < a * m + i" if "b < a"
  proof -
    have "Suc b * m \<le> a * m" using that by (intro mult_le_mono1) simp
    then show ?thesis using j by simp
  qed
  ultimately show "a * m + i < b * m + j \<longleftrightarrow> a < b \<or> a = b \<and> i < j" by (cases a b rule: linorder_cases) auto
qed

text \<open>
  A version orders the changes of the stream. It is the position times \<open>2 ^ 32\<close> plus the ordinal, without
  loss at any width, so versions compare as position first and ordinal second, and no two changes share one.
\<close>
theorem version_orders_changes:
  "unat (version_from lsn ordinal) = unat lsn * 2 ^ 32 + unat ordinal \<and>
   (version_from lsn ordinal < version_from lsn' ordinal' \<longleftrightarrow> lsn < lsn' \<or> lsn = lsn' \<and> ordinal < ordinal') \<and>
   (version_from lsn ordinal = version_from lsn' ordinal' \<longleftrightarrow> lsn = lsn' \<and> ordinal = ordinal')"
proof (intro conjI)
  have b: "unat ordinal < 2 ^ 32" "unat ordinal' < 2 ^ 32" by simp_all
  show "unat (version_from lsn ordinal) = unat lsn * 2 ^ 32 + unat ordinal" by (rule unat_version)
  show lt: "version_from lsn ordinal < version_from lsn' ordinal' \<longleftrightarrow> lsn < lsn' \<or> lsn = lsn' \<and> ordinal < ordinal'"
    unfolding word_less_nat_alt unat_version by (subst pair_less [OF b]) (auto simp: word_unat_eq_iff)
  have "unat lsn * 2 ^ 32 + unat ordinal = unat lsn' * 2 ^ 32 + unat ordinal' \<Longrightarrow> unat lsn = unat lsn' \<and> unat ordinal = unat ordinal'"
    using pair_less [OF b, of "unat lsn" "unat lsn'"] pair_less [OF b(2) b(1), of "unat lsn'" "unat lsn"] by auto
  then show "version_from lsn ordinal = version_from lsn' ordinal' \<longleftrightarrow> lsn = lsn' \<and> ordinal = ordinal'"
    by (auto simp: word_unat_eq_iff unat_version)
qed

section \<open>Reading a row back\<close>

definition row_lsn :: "row_object \<Rightarrow> nat" where
  "row_lsn ob = (case map_of ob (str ''_source_lsn'') of Some (JInt n) \<Rightarrow> n | _ \<Rightarrow> 0)"

definition row_version :: "row_object \<Rightarrow> nat" where
  "row_version ob =
     (case map_of ob (str ''_version'') of
        Some (JText s) \<Rightarrow> (case parse_unsigned 10 (2 ^ 128) s of Some n \<Rightarrow> n | None \<Rightarrow> 0)
      | _ \<Rightarrow> 0)"

definition row_deleted :: "row_object \<Rightarrow> bool" where
  "row_deleted ob \<longleftrightarrow> map_of ob (str ''_deleted'') = Some (JInt 1)"

text \<open>\<open>argMax(\<dots>, _version) \<dots> WHERE _source_lsn <= target GROUP BY key\<close>, then \<open>_deleted = 0\<close>.\<close>

fun arg_max_version :: "row_object option \<Rightarrow> row_object list \<Rightarrow> row_object option" where
  "arg_max_version best [] = best"
| "arg_max_version best (ob # obs) =
     arg_max_version (case best of None \<Rightarrow> Some ob | Some b \<Rightarrow> if row_version b < row_version ob then Some ob else Some b) obs"

definition visible_row :: "rstr \<Rightarrow> json \<Rightarrow> nat \<Rightarrow> row_object list \<Rightarrow> row_object option" where
  "visible_row key_column key target obs =
     (case arg_max_version None (filter (\<lambda>ob. row_lsn ob \<le> target \<and> map_of ob key_column = Some key) obs) of
        None \<Rightarrow> None
      | Some ob \<Rightarrow> if row_deleted ob then None else Some ob)"

lemma raw_columns_clean: "raw \<in> set RAW_TABLES \<Longrightarrow> col \<in> set (rt_columns raw) \<Longrightarrow> hd col \<noteq> 95"
proof -
  have "list_all (\<lambda>t. list_all (\<lambda>col. hd col \<noteq> 95) (rt_columns t)) RAW_TABLES" by code_simp
  then show "raw \<in> set RAW_TABLES \<Longrightarrow> col \<in> set (rt_columns raw) \<Longrightarrow> hd col \<noteq> 95" by (auto simp: list_all_iff)
qed

lemma raw_names_distinct: "distinct (map rt_raw RAW_TABLES)" by code_simp
lemma qualified_distinct: "distinct (map rt_qualified RAW_TABLES)" by code_simp

lemma meta_names:
  "distinct [str ''_source_lsn'', str ''_change_ordinal'', str ''_version'', str ''_deleted'']"
  "list_all (\<lambda>c. hd c = 95) [str ''_source_lsn'', str ''_change_ordinal'', str ''_version'', str ''_deleted'']"
  by code_simp+

lemma raw_table_for_Some: "raw_table_for q = Some t \<Longrightarrow> t \<in> set RAW_TABLES \<and> rt_qualified t = q"
  by (auto simp: raw_table_for_def find_Some_iff)

lemma raw_names_inj: "t \<in> set RAW_TABLES \<Longrightarrow> t' \<in> set RAW_TABLES \<Longrightarrow> rt_raw t = rt_raw t' \<Longrightarrow> t = t'"
  using raw_names_distinct by (simp only: distinct_map inj_on_def)

lemma raw_table_for_eq: "t \<in> set RAW_TABLES \<Longrightarrow> raw_table_for q = Some t \<longleftrightarrow> rt_qualified t = q"
proof
  assume t: "t \<in> set RAW_TABLES" and q: "rt_qualified t = q"
  then have "raw_table_for q \<noteq> None" by (auto simp: raw_table_for_def find_None_iff)
  then obtain t' where t': "raw_table_for q = Some t'" by blast
  from raw_table_for_Some [OF this] have "t' = t"
    using t q qualified_distinct by (simp only: distinct_map inj_on_def)
  then show "raw_table_for q = Some t" using t' by simp
qed (use raw_table_for_Some in blast)

lemma insert_cells_reads:
  "insert_cells img cs ob = Ok ob' \<Longrightarrow>
    (\<forall>c \<in> set cs. \<exists>v. row_cell img c = Ok v \<and> map_of ob' c = Some v) \<and> (\<forall>c. c \<notin> set cs \<longrightarrow> map_of ob' c = map_of ob c)"
proof (induction cs arbitrary: ob)
  case (Cons c cs)
  then obtain v where v: "row_cell img c = Ok v" "insert_cells img cs (bt_insert c v ob) = Ok ob'" by (auto simp: res_bind_Ok_iff)
  from Cons.IH [OF v(2)] v(1) show ?case by (cases "c \<in> set cs") auto
qed simp

lemma render_row_reads:
  assumes "ch_render_row raw c lsn ordinal version = Ok ob" and "raw \<in> set RAW_TABLES"
  shows "row_lsn ob = unat lsn" and "row_version ob = unat version" and "row_deleted ob \<longleftrightarrow> tc_op c = ODelete"
    and "\<exists>img. row_image c = Ok img \<and> (\<forall>col \<in> set (rt_columns raw). \<exists>v. row_cell img col = Ok v \<and> map_of ob col = Some v)"
proof -
  obtain img ob0 where i: "row_image c = Ok img" and ob0: "insert_cells img (rt_columns raw) [] = Ok ob0"
    and ob: "map_of ob = (map_of ob0)(str ''_source_lsn'' \<mapsto> JInt (unat lsn), str ''_change_ordinal'' \<mapsto> JInt (unat ordinal),
      str ''_version'' \<mapsto> JText (show_nat 10 (unat version)), str ''_deleted'' \<mapsto> JInt (if tc_op c = ODelete then 1 else 0))"
    using assms(1) by (auto simp: ch_render_row_def res_bind_Ok_iff Let_def simp del: str_Cons)
  note [simp del] = str_Cons
  have d: "str ''_source_lsn'' \<noteq> str ''_change_ordinal''" "str ''_source_lsn'' \<noteq> str ''_version''" "str ''_source_lsn'' \<noteq> str ''_deleted''"
    "str ''_version'' \<noteq> str ''_deleted''" "\<forall>c \<in> {str ''_source_lsn'', str ''_change_ordinal'', str ''_version'', str ''_deleted''}. hd c = 95"
    using meta_names by simp_all
  show "row_lsn ob = unat lsn" by (simp add: row_lsn_def ob d)
  have "unat version < 2 ^ 128" using unsigned_less [of version] by simp
  then show "row_version ob = unat version" by (simp add: row_version_def ob parse_unsigned_show d)
  show "row_deleted ob \<longleftrightarrow> tc_op c = ODelete" by (simp add: row_deleted_def ob)
  have "\<exists>v. row_cell img col = Ok v \<and> map_of ob col = Some v" if "col \<in> set (rt_columns raw)" for col
  proof -
    have "hd col \<noteq> 95" by (rule raw_columns_clean [OF assms(2) that])
    then have "map_of ob col = map_of ob0 col" using d(5) by (auto simp: ob)
    then show ?thesis using insert_cells_reads [OF ob0] that by simp
  qed
  then show "\<exists>img. row_image c = Ok img \<and> (\<forall>col \<in> set (rt_columns raw). \<exists>v. row_cell img col = Ok v \<and> map_of ob col = Some v)"
    using i by blast
qed

section \<open>The rows of a window, change by change\<close>

definition rows_of :: "(rstr \<times> 'r list) list \<Rightarrow> rstr \<Rightarrow> 'r list" where
  "rows_of m raw = (case map_of m raw of None \<Rightarrow> [] | Some rs \<Rightarrow> rs)"

lemma rows_of_Nil [simp]: "rows_of [] raw = []" by (simp add: rows_of_def)

lemma rows_of_push: "rows_of (bt_push k v m) raw = rows_of m raw @ (if raw = k then [v] else [])"
  by (simp add: rows_of_def bt_push_def)

text \<open>A change with the position and the ordinal it is stamped with.\<close>

type_synonym stamped = "u64 \<times> nat \<times> typed_change"

fun stamps_from :: "u64 \<Rightarrow> nat \<Rightarrow> typed_change list \<Rightarrow> stamped list" where
  "stamps_from lsn index [] = []"
| "stamps_from lsn index (c # cs) = (lsn, Suc index, c) # stamps_from lsn (Suc index) cs"

definition stamps :: "cdc_commit list \<Rightarrow> stamped list" where
  "stamps commits = concat (map (\<lambda>c. stamps_from (cc_lsn c) 0 (cc_changes c)) commits)"

definition rendered_as :: "stamped \<Rightarrow> row_object \<Rightarrow> bool" where
  "rendered_as x ob \<longleftrightarrow>
     (case x of (lsn, n, c) \<Rightarrow>
        n < 2 ^ 32 \<and>
        (\<exists>raw. raw_table_for (tc_table c) = Some raw \<and>
          ch_render_row raw c lsn (word_of_nat n) (version_from lsn (word_of_nat n)) = Ok ob))"

definition stamped_raw :: "stamped \<Rightarrow> rstr option" where
  "stamped_raw x = (case x of (_, _, c) \<Rightarrow> map_option rt_raw (raw_table_for (tc_table c)))"

definition keep_rows :: "rstr \<Rightarrow> stamped list \<Rightarrow> row_object list \<Rightarrow> row_object list" where
  "keep_rows raw xs obs = map snd (filter (\<lambda>(x, ob). stamped_raw x = Some raw) (zip xs obs))"

lemma keep_rows_append: "length xs = length obs \<Longrightarrow> keep_rows raw (xs @ xs') (obs @ obs') = keep_rows raw xs obs @ keep_rows raw xs' obs'"
  by (simp add: keep_rows_def)

lemma change_rows_rendered:
  "change_rows put False lsn index cs rows = Ok rows' \<Longrightarrow>
    \<exists>obs. list_all2 rendered_as (stamps_from lsn index cs) obs \<and>
      (\<forall>raw. rows_of rows' raw = rows_of rows raw @ map put (keep_rows raw (stamps_from lsn index cs) obs))"
proof (induction cs arbitrary: index rows)
  case (Cons c cs)
  obtain raw ob where 1: "raw_table_for (tc_table c) = Some raw" "index + 1 < 2 ^ 32"
      "ch_render_row raw c lsn (word_of_nat (index + 1)) (version_from lsn (word_of_nat (index + 1))) = Ok ob"
      "change_rows put False lsn (Suc index) cs (bt_push (rt_raw raw) (put ob) rows) = Ok rows'"
    using Cons.prems by (auto simp: res_bind_Ok_iff split: if_splits)
  from Cons.IH [OF 1(4)] obtain obs where
    2: "list_all2 rendered_as (stamps_from lsn (Suc index) cs) obs"
      "\<forall>r. rows_of rows' r = rows_of (bt_push (rt_raw raw) (put ob) rows) r @ map put (keep_rows r (stamps_from lsn (Suc index) cs) obs)"
    by blast
  have "rendered_as (lsn, Suc index, c) ob" using 1 by (simp add: rendered_as_def)
  moreover have "keep_rows r ((lsn, Suc index, c) # xs) (ob # obs) = (if r = rt_raw raw then [ob] else []) @ keep_rows r xs obs" for r xs
    using 1(1) by (auto simp: keep_rows_def stamped_raw_def)
  ultimately show ?case using 2 by (intro exI [of _ "ob # obs"]) (simp add: rows_of_push)
qed (simp add: keep_rows_def)

lemma window_rows_rendered:
  "window_rows put commits rows ms = Ok (rows', ms') \<Longrightarrow>
    \<exists>obs. list_all2 rendered_as (stamps commits) obs \<and>
      (\<forall>raw. rows_of rows' raw = rows_of rows raw @ map put (keep_rows raw (stamps commits) obs))"
proof (induction commits arbitrary: rows ms)
  case (Cons c cs)
  obtain rows1 where 1: "change_rows put False (cc_lsn c) 0 (cc_changes c) rows = Ok rows1"
      "window_rows put cs rows1 (ms @ marker_value c) = Ok (rows', ms')"
    using Cons.prems by (auto simp: res_bind_Ok_iff)
  from change_rows_rendered [OF 1(1)] Cons.IH [OF 1(2)] obtain o1 o2 where
    2: "list_all2 rendered_as (stamps_from (cc_lsn c) 0 (cc_changes c)) o1"
      "\<forall>raw. rows_of rows1 raw = rows_of rows raw @ map put (keep_rows raw (stamps_from (cc_lsn c) 0 (cc_changes c)) o1)"
      "list_all2 rendered_as (stamps cs) o2"
      "\<forall>raw. rows_of rows' raw = rows_of rows1 raw @ map put (keep_rows raw (stamps cs) o2)" by metis
  then show ?case
    by (intro exI [of _ "o1 @ o2"])
      (auto simp: stamps_def keep_rows_append list_all2_lengthD intro: list_all2_appendI)
qed (simp add: stamps_def keep_rows_def)

section \<open>The reduction is the table\<close>

lemma stamps_append: "stamps (xs @ ys) = stamps xs @ stamps ys" by (simp add: stamps_def)

lemma stamps_from_bounds: "x \<in> set (stamps_from lsn index cs) \<Longrightarrow> fst x = lsn \<and> index < fst (snd x)"
  by (induction lsn index cs rule: stamps_from.induct) auto

definition stamp_before :: "stamped \<Rightarrow> stamped \<Rightarrow> bool" where
  "stamp_before x y \<longleftrightarrow> fst x < fst y \<or> fst x = fst y \<and> fst (snd x) < fst (snd y)"

lemma stamps_from_sorted: "sorted_wrt stamp_before (stamps_from lsn index cs)"
  by (induction lsn index cs rule: stamps_from.induct) (auto simp: stamp_before_def dest: stamps_from_bounds)

lemma stamps_sorted: "sorted_wrt (<) (map cc_lsn commits) \<Longrightarrow> sorted_wrt stamp_before (stamps commits)"
proof (induction commits)
  case (Cons c cs)
  have "stamp_before x y" if x: "x \<in> set (stamps_from (cc_lsn c) 0 (cc_changes c))" and y: "y \<in> set (stamps cs)" for x y
  proof -
    obtain d where "d \<in> set cs" "y \<in> set (stamps_from (cc_lsn d) 0 (cc_changes d))" using y by (auto simp: stamps_def)
    then show ?thesis using Cons.prems x by (auto simp: stamp_before_def dest!: stamps_from_bounds)
  qed
  then show ?case using Cons stamps_from_sorted by (simp add: stamps_def sorted_wrt_append)
qed (simp add: stamps_def)

lemma arg_max_increasing:
  "sorted_wrt (\<lambda>a b. row_version a < row_version b) (case best of None \<Rightarrow> obs | Some b \<Rightarrow> b # obs) \<Longrightarrow>
    arg_max_version best obs = (if obs = [] then best else Some (last obs))"
  by (induction best obs rule: arg_max_version.induct) (auto split: option.splits)

lemma rendered_reads:
  assumes "rendered_as (lsn, n, c) ob"
  obtains raw img where "raw_table_for (tc_table c) = Some raw" "raw \<in> set RAW_TABLES" "row_lsn ob = unat lsn"
    "row_version ob = unat lsn * 2 ^ 32 + n" "n < 2 ^ 32" "row_deleted ob \<longleftrightarrow> tc_op c = ODelete" "row_image c = Ok img"
    "\<forall>col \<in> set (rt_columns raw). \<exists>v. row_cell img col = Ok v \<and> map_of ob col = Some v"
proof -
  obtain raw where r: "n < 2 ^ 32" "raw_table_for (tc_table c) = Some raw"
      "ch_render_row raw c lsn (word_of_nat n) (version_from lsn (word_of_nat n)) = Ok ob"
    using assms by (auto simp: rendered_as_def)
  have raw: "raw \<in> set RAW_TABLES" using raw_table_for_Some [OF r(2)] by simp
  have "unat (word_of_nat n :: u32) = n" using r(1) by (simp add: unat_of_nat)
  then have "unat (version_from lsn (word_of_nat n)) = unat lsn * 2 ^ 32 + n" by (simp add: unat_version)
  then show ?thesis using render_row_reads [OF r(3) raw] r(1,2) raw that by auto
qed

text \<open>
  The history a sink has been given, as the changes with their positions, and what it says of a key of a table at a
  position: the last change to the key at or before it.
\<close>

definition change_cell :: "typed_change \<Rightarrow> rstr \<Rightarrow> json option" where
  "change_cell c col =
     (case row_image c of Inl _ \<Rightarrow> None | Inr img \<Rightarrow> (case row_cell img col of Inl _ \<Rightarrow> None | Inr v \<Rightarrow> Some v))"

definition history :: "cdc_commit list \<Rightarrow> (u64 \<times> typed_change) list" where
  "history commits = concat (map (\<lambda>c. map (Pair (cc_lsn c)) (cc_changes c)) commits)"

definition last_change :: "raw_table \<Rightarrow> json \<Rightarrow> u64 \<Rightarrow> cdc_commit list \<Rightarrow> json option list option" where
  "last_change raw key target commits =
     (let cs = map snd (filter (\<lambda>(lsn, c). lsn \<le> target \<and> tc_table c = rt_qualified raw \<and>
            change_cell c (hd (rt_columns raw)) = Some key) (history commits))
      in if cs = [] \<or> tc_op (last cs) = ODelete then None
         else Some (map (change_cell (last cs)) (rt_columns raw)))"

lemma stamps_from_changes: "map (\<lambda>(lsn, n, c). (lsn, c)) (stamps_from lsn index cs) = map (Pair lsn) cs"
  by (induction lsn index cs rule: stamps_from.induct) auto

lemma stamps_history: "map (\<lambda>(lsn, n, c). (lsn, c)) (stamps commits) = history commits"
  by (simp add: stamps_def history_def map_concat stamps_from_changes comp_def)

lemma rendered_cell:
  assumes "rendered_as (lsn, n, c) ob" and "raw_table_for (tc_table c) = Some raw" and "col \<in> set (rt_columns raw)"
  shows "map_of ob col = change_cell c col"
proof -
  obtain raw' img where "raw_table_for (tc_table c) = Some raw'" "row_image c = Ok img"
      "\<forall>col \<in> set (rt_columns raw'). \<exists>v. row_cell img col = Ok v \<and> map_of ob col = Some v"
    using rendered_reads [OF assms(1)] by metis
  then show ?thesis using assms(2,3) by (auto simp: change_cell_def)
qed

lemma raw_has_columns: "raw \<in> set RAW_TABLES \<Longrightarrow> hd (rt_columns raw) \<in> set (rt_columns raw)"
  unfolding RAW_TABLES_def by auto

text \<open>Of the rows of a table, those of one key up to a position are those of the changes to the key, in order.\<close>

lemma keep_rows_filter:
  assumes "list_all2 rendered_as xs obs" and "raw \<in> set RAW_TABLES"
  defines "key_col \<equiv> hd (rt_columns raw)"
  shows "\<exists>obs'. filter (\<lambda>ob. row_lsn ob \<le> unat target \<and> map_of ob key_col = Some key) (keep_rows (rt_raw raw) xs obs) = obs' \<and>
    list_all2 rendered_as (filter (\<lambda>(lsn, n, c). lsn \<le> target \<and> tc_table c = rt_qualified raw \<and> change_cell c key_col = Some key) xs) obs'"
  using assms(1)
proof (induction xs obs rule: list_all2_induct)
  case (Cons x xs ob obs)
  obtain lsn n c where x: "x = (lsn, n, c)" by (cases x)
  have r: "rendered_as (lsn, n, c) ob" using Cons(1) x by simp
  obtain raw' where r': "raw_table_for (tc_table c) = Some raw'" "raw' \<in> set RAW_TABLES" "row_lsn ob = unat lsn"
    using rendered_reads [OF r] by metis
  have t: "rt_raw raw' = rt_raw raw \<longleftrightarrow> tc_table c = rt_qualified raw"
    using raw_names_inj [OF r'(2) assms(2)] raw_table_for_eq [OF assms(2), of "tc_table c"] r'(1) by auto
  have k: "keep_rows (rt_raw raw) (x # xs) (ob # obs) = (if tc_table c = rt_qualified raw then [ob] else []) @ keep_rows (rt_raw raw) xs obs"
    using r'(1) t by (simp add: keep_rows_def stamped_raw_def x)
  have "map_of ob key_col = change_cell c key_col" if "tc_table c = rt_qualified raw"
    unfolding key_col_def using rendered_cell [OF r] raw_has_columns [OF assms(2)] raw_table_for_eq [OF assms(2), of "tc_table c"] that by simp
  then have f: "(row_lsn ob \<le> unat target \<and> map_of ob key_col = Some key) = (lsn \<le> target \<and> change_cell c key_col = Some key)"
    if "tc_table c = rt_qualified raw" using that r'(3) by (simp add: word_le_nat_alt)
  show ?case using Cons(3) r f unfolding k by (auto simp: x)
qed (simp add: keep_rows_def)

lemma list_all2_last: "list_all2 P xs ys \<Longrightarrow> xs \<noteq> [] \<Longrightarrow> P (last xs) (last ys)"
  by (induction rule: list_all2_induct) auto

lemma rendered_increasing:
  "list_all2 rendered_as xs obs \<Longrightarrow> sorted_wrt stamp_before xs \<Longrightarrow> sorted_wrt (\<lambda>a b. row_version a < row_version b) obs"
proof (induction rule: list_all2_induct)
  case (Cons x xs ob obs)
  obtain lsn n c where x: "x = (lsn, n, c)" by (cases x)
  have ob: "row_version ob = unat lsn * 2 ^ 32 + n" "n < 2 ^ 32" using rendered_reads [of lsn n c ob] Cons(1) x by metis+
  have "row_version ob < row_version ob'" if m: "ob' \<in> set obs" for ob'
  proof -
    obtain i where i: "i < length obs" "obs ! i = ob'" using m by (auto simp: in_set_conv_nth)
    then have y: "xs ! i \<in> set xs" "rendered_as (xs ! i) ob'" using list_all2_nthD2 [OF Cons(2)] list_all2_lengthD [OF Cons(2)] by auto
    obtain lsn' n' c' where y': "xs ! i = (lsn', n', c')" by (cases "xs ! i")
    have "stamp_before x (xs ! i)" using Cons(4) y(1) by simp
    moreover have "row_version ob' = unat lsn' * 2 ^ 32 + n'" "n' < 2 ^ 32" using rendered_reads [of lsn' n' c' ob'] y(2) y' by metis+
    ultimately show ?thesis using ob by (auto simp: pair_less stamp_before_def x y' word_less_nat_alt)
  qed
  then show ?case using Cons(3,4) by simp
qed simp

text \<open>The reduction of the rows sent is, for every key, the last change to it.\<close>

lemma version_rows_last_change:
  assumes "sorted_wrt (<) (map cc_lsn (concat wins))"
    and "list_all2 (\<lambda>w sent. \<exists>ms. window_rows (\<lambda>ob. ob) w [] [] = Ok (sent, ms)) wins sents"
    and "raw \<in> set RAW_TABLES"
  shows "map_option (\<lambda>ob. map (map_of ob) (rt_columns raw))
      (visible_row (hd (rt_columns raw)) key (unat target) (concat (map (\<lambda>sent. rows_of sent (rt_raw raw)) sents))) =
    last_change raw key target (concat wins)"
proof -
  have "\<exists>obs. list_all2 rendered_as (stamps (concat wins)) obs \<and>
      concat (map (\<lambda>sent. rows_of sent (rt_raw raw)) sents) = keep_rows (rt_raw raw) (stamps (concat wins)) obs"
    using assms(2)
  proof (induction wins sents rule: list_all2_induct)
    case (Cons w ws sent sents)
    from Cons(1) obtain ms where "window_rows (\<lambda>ob. ob) w [] [] = Ok (sent, ms)" by blast
    from window_rows_rendered [OF this] Cons(3) obtain o1 o2 where
      "list_all2 rendered_as (stamps w) o1" "rows_of sent (rt_raw raw) = keep_rows (rt_raw raw) (stamps w) o1"
      "list_all2 rendered_as (stamps (concat ws)) o2"
      "concat (map (\<lambda>sent. rows_of sent (rt_raw raw)) sents) = keep_rows (rt_raw raw) (stamps (concat ws)) o2" by auto
    then show ?case
      by (intro exI [of _ "o1 @ o2"]) (simp add: stamps_append keep_rows_append list_all2_lengthD list_all2_appendI)
  qed (simp add: stamps_def keep_rows_def)
  then obtain obs where obs: "list_all2 rendered_as (stamps (concat wins)) obs"
      "concat (map (\<lambda>sent. rows_of sent (rt_raw raw)) sents) = keep_rows (rt_raw raw) (stamps (concat wins)) obs" by blast
  let ?P = "\<lambda>(lsn, n, c). lsn \<le> target \<and> tc_table c = rt_qualified raw \<and> change_cell c (hd (rt_columns raw)) = Some key"
  let ?xs = "filter ?P (stamps (concat wins))"
  let ?obs = "filter (\<lambda>ob. row_lsn ob \<le> unat target \<and> map_of ob (hd (rt_columns raw)) = Some key)
      (keep_rows (rt_raw raw) (stamps (concat wins)) obs)"
  have r: "list_all2 rendered_as ?xs ?obs" using keep_rows_filter [OF obs(1) assms(3)] by blast
  have cs: "map snd (filter (\<lambda>(lsn, c). lsn \<le> target \<and> tc_table c = rt_qualified raw \<and>
      change_cell c (hd (rt_columns raw)) = Some key) (history (concat wins))) = map (\<lambda>(lsn, n, c). c) ?xs"
    unfolding stamps_history [symmetric] by (simp add: filter_map comp_def case_prod_unfold)
  have "sorted_wrt stamp_before ?xs" by (rule sorted_wrt_filter [OF stamps_sorted [OF assms(1)]])
  then have "sorted_wrt (\<lambda>a b. row_version a < row_version b) ?obs" by (rule rendered_increasing [OF r])
  then have am: "arg_max_version None ?obs = (if ?obs = [] then None else Some (last ?obs))" by (simp add: arg_max_increasing)
  show ?thesis
  proof (cases "?xs = []")
    case True
    then have "?obs = []" using r by simp
    then show ?thesis using am True unfolding last_change_def Let_def cs visible_row_def obs(2) by simp
  next
    case False
    obtain lsn n c where l: "last ?xs = (lsn, n, c)" by (cases "last ?xs")
    have ne: "?obs \<noteq> []" using r False by auto
    have rl: "rendered_as (lsn, n, c) (last ?obs)" using list_all2_last [OF r False] unfolding l .
    have "last ?xs \<in> set ?xs" by (rule last_in_set [OF False])
    then have "?P (last ?xs)" by (simp only: set_filter mem_Collect_eq)
    then have "rt_qualified raw = tc_table c" unfolding l by simp
    then have t: "raw_table_for (tc_table c) = Some raw" using raw_table_for_eq [OF assms(3), of "tc_table c"] by blast
    have del: "row_deleted (last ?obs) \<longleftrightarrow> tc_op c = ODelete" by (rule rendered_reads [OF rl])
    have "last (map (\<lambda>(lsn, n, c). c) ?xs) = c" using False l by (simp add: last_map)
    moreover have "map (map_of (last ?obs)) (rt_columns raw) = map (change_cell c) (rt_columns raw)"
      using rendered_cell [OF rl t] by simp
    ultimately show ?thesis using am ne False del unfolding last_change_def Let_def cs visible_row_def obs(2) by simp
  qed
qed

text \<open>
  The table as PostgreSQL keeps it: a row by its key. An update takes the row of its old image away, when it has one, and
  puts the new row; a delete takes the row of its old image away.
\<close>

type_synonym pg_rows = "json option \<rightharpoonup> json option list"

definition old_cell :: "typed_change \<Rightarrow> rstr \<Rightarrow> json option" where
  "old_cell c col =
     (case tc_old c of None \<Rightarrow> None | Some img \<Rightarrow> (case row_cell img col of Inl _ \<Rightarrow> None | Inr v \<Rightarrow> Some v))"

definition pg_step :: "raw_table \<Rightarrow> typed_change \<Rightarrow> pg_rows \<Rightarrow> pg_rows" where
  "pg_step raw c T =
     (let key = hd (rt_columns raw); put = (\<lambda>T. T(change_cell c key \<mapsto> map (change_cell c) (rt_columns raw))) in
      if tc_table c \<noteq> rt_qualified raw then T
      else case tc_op c of
        OInsert \<Rightarrow> put T
      | OUpdate \<Rightarrow> put (if tc_old c = None then T else T(old_cell c key := None))
      | ODelete \<Rightarrow> T(old_cell c key := None)
      | OTruncate \<Rightarrow> Map.empty)"

definition pg_table :: "raw_table \<Rightarrow> u64 \<Rightarrow> cdc_commit list \<Rightarrow> pg_rows" where
  "pg_table raw target commits = fold (pg_step raw) (map snd (filter (\<lambda>(lsn, c). lsn \<le> target) (history commits))) Map.empty"

text \<open>An update that leaves the key of its row as it was.\<close>

definition update_keeps_key :: "raw_table \<Rightarrow> typed_change \<Rightarrow> bool" where
  "update_keeps_key raw c \<longleftrightarrow>
     (tc_op c = OUpdate \<and> tc_table c = rt_qualified raw \<and> tc_old c \<noteq> None \<longrightarrow>
        old_cell c (hd (rt_columns raw)) = change_cell c (hd (rt_columns raw)))"

text \<open>Without key changes and truncates, a key's row is that of the last change to it.\<close>

lemma pg_last_change:
  assumes "\<forall>c \<in> set cs. update_keeps_key raw c \<and> tc_op c \<noteq> OTruncate"
  shows "fold (pg_step raw) cs Map.empty (Some key) =
    (let ds = filter (\<lambda>c. tc_table c = rt_qualified raw \<and> change_cell c (hd (rt_columns raw)) = Some key) cs
     in if ds = [] \<or> tc_op (last ds) = ODelete then None else Some (map (change_cell (last ds)) (rt_columns raw)))"
  using assms
proof (induction cs rule: rev_induct)
  case (snoc c cs)
  have c: "update_keeps_key raw c" "tc_op c \<noteq> OTruncate" using snoc.prems by auto
  have old: "tc_op c = ODelete \<Longrightarrow> old_cell c col = change_cell c col" for col
    by (auto simp: old_cell_def change_cell_def row_image_def need_def split: option.splits)
  show ?case
  proof (cases "tc_table c = rt_qualified raw")
    case True
    then show ?thesis
      using snoc c old [of "hd (rt_columns raw)"]
      by (cases "tc_op c") (auto simp: pg_step_def Let_def update_keeps_key_def)
  next
    case False
    then show ?thesis using snoc by (simp add: pg_step_def Let_def)
  qed
qed simp

text \<open>A window with a truncate is not sent.\<close>

lemma rendered_not_truncate: "rendered_as (lsn, n, c) ob \<Longrightarrow> tc_op c \<noteq> OTruncate"
proof -
  assume r: "rendered_as (lsn, n, c) ob"
  obtain raw img where "row_image c = Ok img" using rendered_reads [OF r] by metis
  then show ?thesis by (auto simp: row_image_def)
qed

lemma window_no_truncate:
  assumes "window_rows put w rows ms = Ok (sent, ms')" and "x \<in> set (history w)"
  shows "tc_op (snd x) \<noteq> OTruncate"
proof -
  from window_rows_rendered [OF assms(1)] obtain obs where obs: "list_all2 rendered_as (stamps w) obs" by blast
  from assms(2) obtain y where y: "y \<in> set (stamps w)" "x = (\<lambda>(lsn, n, c). (lsn, c)) y"
    unfolding stamps_history [symmetric] by auto
  then obtain i where i: "i < length (stamps w)" "stamps w ! i = y" by (auto simp: in_set_conv_nth)
  obtain lsn n c where c: "y = (lsn, n, c)" by (cases y)
  have "rendered_as (lsn, n, c) (obs ! i)" using list_all2_nthD [OF obs i(1)] i(2) c by simp
  then show ?thesis using rendered_not_truncate y(2) c by simp
qed

lemma windows_no_truncate:
  assumes "list_all2 (\<lambda>w sent. \<exists>ms. window_rows (\<lambda>ob. ob) w [] [] = Ok (sent, ms)) wins sents"
  shows "\<forall>x \<in> set (history (concat wins)). tc_op (snd x) \<noteq> OTruncate"
  using assms
proof (induction rule: list_all2_induct)
  case (Cons w ws s ss)
  then show ?case using window_no_truncate by (fastforce simp: history_def)
qed (simp add: history_def)


text \<open>A window is rendered when every change is of a published table, carries no other position and has its row in text.\<close>

definition change_fits :: "u64 \<Rightarrow> typed_change \<Rightarrow> bool" where
  "change_fits lsn c \<longleftrightarrow>
     (tc_commit_lsn c = 0 \<or> tc_commit_lsn c = lsn) \<and>
     (case raw_table_for (tc_table c) of None \<Rightarrow> False
      | Some raw \<Rightarrow> (case row_image c of Inl _ \<Rightarrow> False | Inr img \<Rightarrow> list_all (\<lambda>col. is_ok (row_cell img col)) (rt_columns raw)))"

lemma insert_cells_total: "list_all (\<lambda>c. is_ok (row_cell img c)) cs \<Longrightarrow> is_ok (insert_cells img cs ob)"
proof (induction cs arbitrary: ob)
  case (Cons c cs)
  then obtain v where "row_cell img c = Ok v" by (cases "row_cell img c") auto
  then show ?case using Cons by simp
qed simp

lemma change_rows_total:
  "list_all (change_fits lsn) cs \<Longrightarrow> index + length cs < 2 ^ 32 \<Longrightarrow> is_ok (change_rows put False lsn index cs rows)"
proof (induction cs arbitrary: index rows)
  case (Cons c cs)
  obtain raw img where r: "raw_table_for (tc_table c) = Some raw" "row_image c = Ok img" "list_all (\<lambda>col. is_ok (row_cell img col)) (rt_columns raw)"
      "tc_commit_lsn c = 0 \<or> tc_commit_lsn c = lsn"
    using Cons.prems(1) by (auto simp: change_fits_def split: option.splits sum.splits)
  obtain ob where ob: "insert_cells img (rt_columns raw) [] = Ok ob"
    using insert_cells_total [OF r(3), of "[]"] by (cases "insert_cells img (rt_columns raw) []") auto
  obtain ob' where "ch_render_row raw c lsn (word_of_nat (index + 1)) (version_from lsn (word_of_nat (index + 1))) = Ok ob'"
    by (simp add: ch_render_row_def r(2) ob Let_def)
  then show ?case using r Cons.prems Cons.IH [of "Suc index" "bt_push (rt_raw raw) (put ob') rows"] by simp
qed simp

lemma window_rows_total:
  "\<forall>c \<in> set commits. list_all (change_fits (cc_lsn c)) (cc_changes c) \<and> length (cc_changes c) < 2 ^ 32 \<Longrightarrow>
    is_ok (window_rows put commits rows ms)"
proof (induction commits arbitrary: rows ms)
  case (Cons c cs)
  then obtain rows' where "change_rows put False (cc_lsn c) 0 (cc_changes c) rows = Ok rows'"
    using change_rows_total [of "cc_lsn c" "cc_changes c" 0 put rows] by (cases "change_rows put False (cc_lsn c) 0 (cc_changes c) rows") auto
  then show ?case using Cons by simp
qed simp

definition sample_update :: typed_change where
  "sample_update = (sample_change OUpdate)\<lparr>
     tc_new := Some [(str ''tenant_id'', TText (str ''1'')), (str ''region'', TText (str ''us''))],
     tc_old := Some [(str ''tenant_id'', TText (str ''1''))]\<rparr>"

definition kept_wins :: "cdc_commit list list" where
  "kept_wins =
     [[\<lparr>cc_lsn = 5, cc_hash = [], cc_changes = [sample_change OInsert]\<rparr>, \<lparr>cc_lsn = 7, cc_hash = [], cc_changes = [sample_update]\<rparr>],
      [\<lparr>cc_lsn = 9, cc_hash = [], cc_changes = [sample_change ODelete]\<rparr>]]"

definition sents_of :: "cdc_commit list list \<Rightarrow> (rstr \<times> row_object list) list list" where
  "sents_of wins = map (\<lambda>w. case window_rows (\<lambda>ob. ob) w [] [] of Inl _ \<Rightarrow> [] | Inr (rows, _) \<Rightarrow> rows) wins"

lemma sents_of_sent:
  assumes "list_all (\<lambda>w. list_all (\<lambda>c. list_all (change_fits (cc_lsn c)) (cc_changes c)) w) wins"
    and "list_all (list_all (\<lambda>c. length (cc_changes c) < 2 ^ 32)) wins"
  shows "list_all2 (\<lambda>w sent. \<exists>ms. window_rows (\<lambda>ob. ob) w [] [] = Ok (sent, ms)) wins (sents_of wins)"
proof -
  have "list_all (\<lambda>w. is_ok (window_rows (\<lambda>ob. ob) w [] [])) wins"
    using assms unfolding list_all_iff [of _ wins] by (intro ballI window_rows_total) (auto simp: list_all_iff)
  then show ?thesis
    unfolding sents_of_def list_all2_map2 by (auto simp: list_all2_same list_all_iff is_ok_def split: sum.splits)
qed


text \<open>
  An update that changes the key leaves the old row behind: no tombstone is written for it, so the queries still
  see the row PostgreSQL no longer has.
\<close>
theorem key_change_leaves_old_row:
  assumes "sorted_wrt (<) (map cc_lsn (concat wins))"
    and "list_all2 (\<lambda>w sent. \<exists>ms. window_rows (\<lambda>ob. ob) w [] [] = Ok (sent, ms)) wins sents"
    and "raw \<in> set RAW_TABLES" and "history (concat wins) = [(l, c), (l', c')]" and "l \<le> target" "l' \<le> target"
    and "tc_table c = rt_qualified raw" "tc_op c = OInsert" "change_cell c (hd (rt_columns raw)) = Some key"
    and "tc_table c' = rt_qualified raw" "tc_op c' = OUpdate" "tc_old c' \<noteq> None" "old_cell c' (hd (rt_columns raw)) = Some key"
    and "change_cell c' (hd (rt_columns raw)) \<noteq> Some key"
  shows "pg_table raw target (concat wins) (Some key) = None \<and>
    visible_row (hd (rt_columns raw)) key (unat target) (concat (map (\<lambda>sent. rows_of sent (rt_raw raw)) sents)) \<noteq> None"
proof
  show "pg_table raw target (concat wins) (Some key) = None"
    using assms(4-) by (simp add: pg_table_def pg_step_def Let_def)
  have "last_change raw key target (concat wins) \<noteq> None" using assms(4-) by (simp add: last_change_def)
  then show "visible_row (hd (rt_columns raw)) key (unat target) (concat (map (\<lambda>sent. rows_of sent (rt_raw raw)) sents)) \<noteq> None"
    using version_rows_last_change [OF assms(1-3), of key target] by (metis option.map_disc_iff)
qed

end
