(* ===== verification/CdcLoop.thy ===== *)
theory CdcLoop
  imports ClickHouseSink ClickHouseRows ControlRepl Ledger
begin

text \<open>
  The task that feeds ClickHouse, in \<open>crates/graydb-r1/src/runtime.rs\<close>: it reads the replication stream, logs the frames,
  gathers transactions into a window, applies the window through \<open>ClickHouse\<close> and then acknowledges its last
  position. It reconnects when the source goes away, and on an idle stream it records how far ClickHouse is
  visible. The first two do not work together, and the last is recorded too early.
\<close>

definition CLICKHOUSE_CDC_SLOT :: rstr where "CLICKHOUSE_CDC_SLOT = str ''graydb_r1_clickhouse_cdc_slot''"
definition WINDOW_COMMITS :: u64 where "WINDOW_COMMITS = 256"

text \<open>Times in milliseconds.\<close>

definition WINDOW_FLUSH_INTERVAL :: nat where "WINDOW_FLUSH_INTERVAL = 250"
definition CATCHUP_TIMEOUT :: nat where "CATCHUP_TIMEOUT = 30 * 60 * 1000"

definition pgoutput_commit_lsn :: "bytes \<Rightarrow> u64 option" where
  "pgoutput_commit_lsn payload =
     (if 26 \<le> length payload \<and> payload ! 0 = 67 then Some (word_of_nat (from_be (take 8 (drop 10 payload)))) else None)"

datatype cdc_error =
    CdcRepl repl_error
  | CdcLog log_error
  | CdcLedger "ledger_error lines_error"
  | CdcSink ch_error
  | CdcNoReconnect
  | CdcWaiting

record cdc_loop =
  cl_client :: repl_client
  cl_log :: frame_log
  cl_adapter :: cdc_adapter
  cl_applied :: u64
  cl_reconnect :: "nat option"
  cl_ledger :: ledger
  cl_visibility :: u64
  cl_window :: "frame list"
  cl_commits :: u64
  cl_started :: nat

text \<open>
  What a turn meets: the event \<open>select!\<close> picks, the clock, the outcome of the log calls, the ledger file at each
  poll, and the connection a reconnect finds.
\<close>

record cdc_input =
  xi_event :: control_event
  xi_at :: nat
  xi_now :: u64
  xi_io :: io
  xi_flush_io :: io
  xi_ledger :: "bytes option list"
  xi_candidate :: "repl_client option"

section \<open>The ledger hashes of a window\<close>

text \<open>\<open>partition_point\<close> on entries ordered by position, then the entry there.\<close>

definition entry_at :: "ledger_entry list \<Rightarrow> u64 \<Rightarrow> ledger_entry option" where
  "entry_at es lsn =
     (case drop (length (takeWhile (\<lambda>e. le_source_lsn e < lsn) es)) es of
        [] \<Rightarrow> None
      | e # _ \<Rightarrow> if le_source_lsn e = lsn then Some e else None)"

fun lookup_hashes :: "ledger_entry list \<Rightarrow> u64 list \<Rightarrow> (u64 \<times> rstr) list \<Rightarrow> (u64 \<times> rstr) list option" where
  "lookup_hashes es [] out = Some out"
| "lookup_hashes es (l # ls) out =
     (case entry_at es l of None \<Rightarrow> None | Some e \<Rightarrow> lookup_hashes es ls (bt_insert l (le_operation e) out))"

text \<open>No file left means the loop is still polling.\<close>

fun resolve_window_hashes ::
    "(bytes \<Rightarrow> bytes) \<Rightarrow> ledger_entry json_codec \<Rightarrow> bytes option list \<Rightarrow> u64 list \<Rightarrow> ledger \<Rightarrow> (cdc_error + (u64 \<times> rstr) list) \<times> ledger" where
  "resolve_window_hashes sha js [] lsns L = (Err CdcWaiting, L)"
| "resolve_window_hashes sha js (file # files) lsns L =
     (case ledger_refresh sha js file L of
        (Inl e, L) \<Rightarrow> (Err (CdcLedger e), L)
      | (Inr _, L) \<Rightarrow>
          (case lookup_hashes (lf_entries L) lsns [] of
             Some out \<Rightarrow> (Ok out, L)
           | None \<Rightarrow> resolve_window_hashes sha js files lsns L))"

section \<open>The loop\<close>

definition cdc_client :: "(repl_error + 'a) \<times> repl_client \<Rightarrow> cdc_loop \<Rightarrow> (cdc_error + 'a) \<times> cdc_loop" where
  "cdc_client r st = (case fst r of Inl e \<Rightarrow> Err (CdcRepl e) | Inr x \<Rightarrow> Ok x, st\<lparr>cl_client := snd r\<rparr>)"

definition cdc_log :: "(log_error + 'a) \<times> frame_log \<Rightarrow> cdc_loop \<Rightarrow> (cdc_error + 'a) \<times> cdc_loop" where
  "cdc_log r st = (case fst r of Inl e \<Rightarrow> Err (CdcLog e) | Inr x \<Rightarrow> Ok x, st\<lparr>cl_log := snd r\<rparr>)"

definition cdc_ledger :: "(cdc_error + 'a) \<times> ledger \<Rightarrow> cdc_loop \<Rightarrow> (cdc_error + 'a) \<times> cdc_loop" where
  "cdc_ledger r st = (fst r, st\<lparr>cl_ledger := snd r\<rparr>)"

definition cdc_decoder :: "(ch_error + 'a) \<times> stream_decoder \<Rightarrow> cdc_loop \<Rightarrow> (cdc_error + 'a) \<times> cdc_loop" where
  "cdc_decoder r st =
     (case fst r of Inl e \<Rightarrow> Err (CdcSink e) | Inr x \<Rightarrow> Ok x, st\<lparr>cl_adapter := (cl_adapter st)\<lparr>ca_decoder := snd r\<rparr>\<rparr>)"

definition cdc_server :: "(ch_error + 'a) \<times> ch_server \<Rightarrow> cdc_loop \<Rightarrow> (cdc_error + 'a) \<times> cdc_loop" where
  "cdc_server r st =
     (case fst r of Inl e \<Rightarrow> Err (CdcSink e) | Inr x \<Rightarrow> Ok x, st\<lparr>cl_adapter := (cl_adapter st)\<lparr>ca_server := snd r\<rparr>\<rparr>)"

definition visibility_statement :: "u64 \<Rightarrow> rstr" where
  "visibility_statement wal_end = str ''INSERT INTO r1_meta.visibility VALUES ('' @ show_nat 10 (unat wal_end) @ str '', now())''"

definition record_visibility :: "u64 \<Rightarrow> cdc_loop \<Rightarrow> cdc_loop" where
  "record_visibility wal_end st =
     (if wal_end \<le> cl_visibility st then st
      else let (r, st) = cdc_server (execute_sql (visibility_statement wal_end) (ca_server (cl_adapter st))) st
           in if is_ok r then st\<lparr>cl_visibility := wal_end\<rparr> else st)"

definition flush_due :: "nat \<Rightarrow> cdc_loop \<Rightarrow> bool" where
  "flush_due at st \<longleftrightarrow> WINDOW_COMMITS \<le> cl_commits st \<or> 0 < cl_commits st \<and> WINDOW_FLUSH_INTERVAL \<le> at - cl_started st"

definition flush_window ::
    "(row_object \<Rightarrow> rstr) \<Rightarrow> (bytes \<Rightarrow> bytes) \<Rightarrow> ledger_entry json_codec \<Rightarrow> cdc_input \<Rightarrow> cdc_loop \<Rightarrow> (cdc_error + unit) \<times> cdc_loop" where
  "flush_window ser sha js i st =
     (let commit_lsns = map fr_lsn_end (filter fr_txn_complete (cl_window st)) in
      st_bind (cdc_ledger (resolve_window_hashes sha js (xi_ledger i) commit_lsns (cl_ledger st)) st) (\<lambda>hashes st.
      st_bind (cdc_decoder (feed_frames (cl_window st) (ca_decoder (cl_adapter st))) st) (\<lambda>batches st.
      st_bind (cdc_server (adapter_apply_window ser sha hashes batches (ca_server (cl_adapter st))) st) (\<lambda>lsn st.
      st_bind (cdc_log (flush_pending (xi_flush_io i) (cl_log st)) st) (\<lambda>_ st.
      st_bind (cdc_client (send_standby_status lsn False (xi_now i) (cl_client st)) st) (\<lambda>_ st.
      (Ok (), st\<lparr>cl_applied := lsn, cl_window := [], cl_commits := 0, cl_started := xi_at i\<rparr>)))))))"

definition cdc_xlog ::
    "crc_fun \<Rightarrow> (row_object \<Rightarrow> rstr) \<Rightarrow> (bytes \<Rightarrow> bytes) \<Rightarrow> ledger_entry json_codec \<Rightarrow> cdc_input \<Rightarrow> u64 \<Rightarrow> bytes \<Rightarrow> cdc_loop \<Rightarrow>
      (cdc_error + unit) \<times> cdc_loop" where
  "cdc_xlog crc ser sha js i wal_start payload st =
     (let commit_lsn = pgoutput_commit_lsn payload;
          lsn_end = (case commit_lsn of None \<Rightarrow> wal_start | Some l \<Rightarrow> l);
          complete = (commit_lsn \<noteq> None) in
      st_bind (cdc_log (log_append crc (xi_io i) wal_start lsn_end complete payload (cl_log st)) st) (\<lambda>seq st.
      let st = st\<lparr>cl_window := cl_window st @ [new_frame seq wal_start lsn_end complete payload],
                  cl_commits := cl_commits st + (if complete then 1 else 0)\<rparr>
      in if flush_due (xi_at i) st then flush_window ser sha js i st else (Ok (), st)))"

text \<open>A new adapter: a new decoder, on the same server.\<close>

definition cdc_interrupted :: "cdc_input \<Rightarrow> cdc_loop \<Rightarrow> (cdc_error + unit) \<times> cdc_loop" where
  "cdc_interrupted i st =
     (let st = st\<lparr>cl_adapter := \<lparr>ca_decoder = decoder_new, ca_server = ca_server (cl_adapter st)\<rparr>\<rparr>;
          since = (case cl_reconnect st of None \<Rightarrow> xi_at i | Some t \<Rightarrow> t);
          st = st\<lparr>cl_reconnect := Some since\<rparr>
      in if CATCHUP_TIMEOUT \<le> xi_at i - since then (Err CdcNoReconnect, st)
         else case xi_candidate i of
                None \<Rightarrow> (Ok (), st)
              | Some c \<Rightarrow>
                  (case start_replication CLICKHOUSE_CDC_SLOT (str ''graydb_r1_pub'') (cl_applied st) c of
                     (Inl e, c) \<Rightarrow> (Ok (), st)
                   | (Inr _, c) \<Rightarrow> (Ok (), st\<lparr>cl_client := c\<rparr>)))"

definition cdc_stop :: "u64 \<Rightarrow> cdc_loop \<Rightarrow> cdc_loop" where
  "cdc_stop now st =
     (let st = snd (cdc_client (send_standby_status (cl_applied st) False now (cl_client st)) st)
      in snd (cdc_client (close (cl_client st)) st))"

definition cdc_message ::
    "crc_fun \<Rightarrow> (row_object \<Rightarrow> rstr) \<Rightarrow> (bytes \<Rightarrow> bytes) \<Rightarrow> ledger_entry json_codec \<Rightarrow> cdc_input \<Rightarrow> repl_msg \<Rightarrow> cdc_loop \<Rightarrow>
      (cdc_error + unit) \<times> cdc_loop" where
  "cdc_message crc ser sha js i m st =
     (case m of
        XLogData wal_start payload \<Rightarrow> cdc_xlog crc ser sha js i wal_start payload st
      | Keepalive wal_end reply_requested \<Rightarrow>
          if reply_requested
          then st_bind (cdc_client (send_standby_status (cl_applied st) False (xi_now i) (cl_client st)) st) (\<lambda>_ st.
               (Ok (), record_visibility wal_end st))
          else (Ok (), st))"

definition cdc_step ::
    "crc_fun \<Rightarrow> (row_object \<Rightarrow> rstr) \<Rightarrow> (bytes \<Rightarrow> bytes) \<Rightarrow> ledger_entry json_codec \<Rightarrow> cdc_input \<Rightarrow> cdc_loop \<Rightarrow>
      (cdc_error + bool) \<times> cdc_loop" where
  "cdc_step crc ser sha js i st =
     (case xi_event i of
        Stop v \<Rightarrow> if v = Some False then (Ok True, st) else (Ok False, cdc_stop (xi_now i) st)
      | Message \<Rightarrow>
          (case next_replication_message (cl_client st) of
             (Inl e, c) \<Rightarrow> st_bind (cdc_interrupted i (st\<lparr>cl_client := c\<rparr>)) (\<lambda>_ st. (Ok True, st))
           | (Inr m, c) \<Rightarrow>
               st_bind (cdc_message crc ser sha js i m (st\<lparr>cl_client := c, cl_reconnect := None\<rparr>)) (\<lambda>_ st. (Ok True, st))))"

fun run_cdc ::
    "crc_fun \<Rightarrow> (row_object \<Rightarrow> rstr) \<Rightarrow> (bytes \<Rightarrow> bytes) \<Rightarrow> ledger_entry json_codec \<Rightarrow> cdc_input list \<Rightarrow> cdc_loop \<Rightarrow>
      (cdc_error + bool) \<times> cdc_loop" where
  "run_cdc crc ser sha js [] st = (Ok True, st)"
| "run_cdc crc ser sha js (i # is) st =
     st_bind (cdc_step crc ser sha js i st) (\<lambda>go st. if go then run_cdc crc ser sha js is st else (Ok False, st))"

text \<open>Before the loop, on a connected client; an error of the slot creation is ignored.\<close>

definition cdc_start ::
    "(bytes \<Rightarrow> bytes) \<Rightarrow> ledger_entry json_codec \<Rightarrow> bytes option \<Rightarrow> u64 \<Rightarrow> nat \<Rightarrow> ch_server \<Rightarrow> repl_client \<Rightarrow> cdc_error + cdc_loop" where
  "cdc_start sha js file start_lsn at server c =
     (let (_, c) = create_slot_with_snapshot CLICKHOUSE_CDC_SLOT c in
      case start_replication CLICKHOUSE_CDC_SLOT (str ''graydb_r1_pub'') start_lsn c of
        (Inl e, c) \<Rightarrow> Err (CdcRepl e)
      | (Inr _, c) \<Rightarrow>
          (case ledger_resume sha js file of
             Inl e \<Rightarrow> Err (CdcLedger e)
           | Inr L \<Rightarrow>
               Ok \<lparr>cl_client = c, cl_log = log_create (64 * 2 ^ 20), cl_adapter = \<lparr>ca_decoder = decoder_new, ca_server = server\<rparr>,
                   cl_applied = start_lsn, cl_reconnect = None, cl_ledger = L, cl_visibility = start_lsn, cl_window = [],
                   cl_commits = 0, cl_started = at\<rparr>))"

end
