(* ===== verification/CdcFacts.thy ===== *)
theory CdcFacts
  imports CdcLoop
begin

text \<open>
  What the task of \<open>CdcLoop\<close> promises and where it fails: every position it acknowledges was applied whole, but it can
  declare positions visible that it has not applied, and after a reconnect it can apply nothing.
\<close>

section \<open>What a step does to the trace\<close>

definition trace_of :: "cdc_loop \<Rightarrow> (ch_request \<times> ch_answer option) list" where
  "trace_of st = cs_trace (ca_server (cl_adapter st))"

lemma cdc_lift_simps [simp]:
  "snd (cdc_client r st) = st\<lparr>cl_client := snd r\<rparr>"
  "snd (cdc_log r' st) = st\<lparr>cl_log := snd r'\<rparr>"
  "snd (cdc_ledger r'' st) = st\<lparr>cl_ledger := snd r''\<rparr>"
  by (simp_all add: cdc_client_def cdc_log_def cdc_ledger_def)

lemma cdc_client_Ok: "cdc_client r st = (Ok x, st') \<longleftrightarrow> fst r = Ok x \<and> st' = st\<lparr>cl_client := snd r\<rparr>"
  by (auto simp: cdc_client_def split: sum.splits)

lemma cdc_log_Ok: "cdc_log r st = (Ok x, st') \<longleftrightarrow> fst r = Ok x \<and> st' = st\<lparr>cl_log := snd r\<rparr>"
  by (auto simp: cdc_log_def split: sum.splits)

lemma cdc_ledger_Ok: "cdc_ledger r st = (Ok x, st') \<longleftrightarrow> fst r = Ok x \<and> st' = st\<lparr>cl_ledger := snd r\<rparr>"
  by (auto simp: cdc_ledger_def)

lemma cdc_decoder_Ok: "cdc_decoder r st = (Ok x, st') \<longleftrightarrow> fst r = Ok x \<and> st' = st\<lparr>cl_adapter := (cl_adapter st)\<lparr>ca_decoder := snd r\<rparr>\<rparr>"
  by (auto simp: cdc_decoder_def split: sum.splits)

lemma cdc_server_Ok: "cdc_server r st = (Ok x, st') \<longleftrightarrow> fst r = Ok x \<and> st' = st\<lparr>cl_adapter := (cl_adapter st)\<lparr>ca_server := snd r\<rparr>\<rparr>"
  by (auto simp: cdc_server_def split: sum.splits)

text \<open>Every request extends the trace.\<close>

definition extends :: "(ch_request \<times> ch_answer option) list \<Rightarrow> (ch_request \<times> ch_answer option) list \<Rightarrow> bool" where
  "extends tr tr' \<longleftrightarrow> (\<exists>x. tr' = tr @ x)"

lemma extends_refl [simp]: "extends tr tr" and extends_app [simp]: "extends tr (tr @ x)"
  by (auto simp: extends_def)

lemma extends_trans: "extends a b \<Longrightarrow> extends b c \<Longrightarrow> extends a c"
  by (auto simp: extends_def)

lemma post_extends: "extends (cs_trace s) (cs_trace (snd (post params body s)))"
  using post_trace [of params body s] by (auto simp: extends_def)

lemma bind_extends:
  "extends (cs_trace s) (cs_trace (snd m)) \<Longrightarrow> (\<And>x s1. m = (Ok x, s1) \<Longrightarrow> extends (cs_trace s1) (cs_trace (snd (f x s1)))) \<Longrightarrow>
    extends (cs_trace s) (cs_trace (snd (st_bind m f)))"
  by (cases m; cases "fst m") (auto intro: extends_trans)

lemma post_rows_extends: "extends (cs_trace s) (cs_trace (snd (post_rows token m s)))"
  by (induction token m s rule: post_rows.induct) (auto simp: Let_def intro!: bind_extends post_extends)

lemma post_all_extends: "extends (cs_trace s) (cs_trace (snd (post_all xs s)))"
  by (induction xs s rule: post_all.induct) (auto intro!: bind_extends post_extends)

lemma execute_extends: "extends (cs_trace s) (cs_trace (snd (execute_sql sql s)))"
  by (auto simp: execute_sql_def intro!: bind_extends post_all_extends)

lemma apply_window_extends: "extends (cs_trace s) (cs_trace (snd (adapter_apply_window ser sha hashes batches s)))"
  unfolding adapter_apply_window_def sink_apply_window_def
  by (auto simp: Let_def intro!: bind_extends post_extends post_rows_extends)

section \<open>A position is acknowledged when it is applied\<close>

definition applied_position_ok ::
    "(row_object \<Rightarrow> rstr) \<Rightarrow> (bytes \<Rightarrow> bytes) \<Rightarrow> u64 \<Rightarrow> (ch_request \<times> ch_answer option) list \<Rightarrow> u64 \<Rightarrow> bool" where
  "applied_position_ok ser sha start_lsn tr lsn \<longleftrightarrow>
     lsn = start_lsn \<or> (\<exists>commits p w q. tr = p @ w @ q \<and> window_sent ser sha commits w \<and> cc_lsn (last commits) = lsn)"

lemma position_ok_mono: "applied_position_ok ser sha s tr lsn \<Longrightarrow> extends tr tr' \<Longrightarrow> applied_position_ok ser sha s tr' lsn"
  unfolding applied_position_ok_def extends_def by (metis append.assoc)

definition sent_ok :: "(u64 \<Rightarrow> bool) \<Rightarrow> repl_client \<Rightarrow> bool" where
  "sent_ok P c \<longleftrightarrow> (\<forall>lsn rr now. message_bytes 100 (status_body lsn rr now) \<in> set (rc_sent c) \<longrightarrow> P lsn)"

lemma sent_ok_mono: "sent_ok P c \<Longrightarrow> (\<And>lsn. P lsn \<Longrightarrow> Q lsn) \<Longrightarrow> sent_ok Q c"
  by (auto simp: sent_ok_def)

lemma sent_ok_msg: "sent_ok P c \<Longrightarrow> tag \<noteq> 100 \<Longrightarrow> sent_ok P (snd (send_msg tag body c))"
  by (auto simp: sent_ok_def send_msg_def message_bytes_def)

lemma sent_ok_status: "sent_ok P c \<Longrightarrow> P lsn \<Longrightarrow> sent_ok P (snd (send_standby_status lsn rr now c))"
  by (auto simp: sent_ok_def send_standby_status_def send_msg_def dest: status_inj)

lemma sent_ok_cong: "rc_sent c' = rc_sent c \<Longrightarrow> sent_ok P c \<Longrightarrow> sent_ok P c'"
  by (simp add: sent_ok_def)

lemma msg_loop_sent: "rc_sent (snd (msg_loop handle st c)) = rc_sent c"
  using msg_loop_facts [of handle st c] by (metis prod.collapse)

lemma start_replication_sent: "sent_ok P c \<Longrightarrow> sent_ok P (snd (start_replication slot pub lsn c))"
proof -
  assume a: "sent_ok P c"
  let ?b = "str ''START_REPLICATION SLOT '' @ quote_ident slot @ str '' LOGICAL '' @ format_lsn lsn @
                str '' (proto_version '' @ 39 # str ''1'' @ 39 # str '', publication_names '' @ 39 #
                double_byte 39 pub @ 39 # str '')'' @ [0]"
  obtain r c1 where s: "send_msg 81 ?b c = (r, c1)" by fastforce
  then have "sent_ok P c1" using sent_ok_msg [OF a, of 81 ?b] by simp
  then show ?thesis using msg_loop_sent [of start_handler "()" c1] s
    by (cases r) (auto simp: start_replication_def simp del: str_Cons intro: sent_ok_cong)
qed

lemma query_sent: "sent_ok P c \<Longrightarrow> sent_ok P (snd (simple_query sql c))"
proof -
  assume a: "sent_ok P c"
  obtain r c1 where s: "send_msg 81 (sql @ [0]) c = (r, c1)" by fastforce
  then have "sent_ok P c1" using sent_ok_msg [OF a, of 81 "sql @ [0]"] by simp
  then show ?thesis using msg_loop_sent [of "query_handler sql" "([], None)" c1] s
    by (cases r) (auto simp: simple_query_def intro: sent_ok_cong)
qed

lemma bind_result_state: "snd (st_bind m (\<lambda>x s. (f x, s))) = snd m"
  by (cases m; cases "fst m") auto

lemma create_slot_sent: "sent_ok P c \<Longrightarrow> sent_ok P (snd (create_slot_with_snapshot slot c))"
  unfolding create_slot_with_snapshot_def bind_result_state by (rule query_sent)

definition cdc_ok :: "(row_object \<Rightarrow> rstr) \<Rightarrow> (bytes \<Rightarrow> bytes) \<Rightarrow> u64 \<Rightarrow> cdc_loop \<Rightarrow> bool" where
  "cdc_ok ser sha start_lsn st \<longleftrightarrow>
     applied_position_ok ser sha start_lsn (trace_of st) (cl_applied st) \<and>
     sent_ok (applied_position_ok ser sha start_lsn (trace_of st)) (cl_client st)"

text \<open>Steps that only extend the trace and send nothing wrong keep the invariant.\<close>

lemma cdc_ok_step:
  assumes "cdc_ok ser sha s st" and "extends (trace_of st) (trace_of st')" and "cl_applied st' = cl_applied st"
    and "sent_ok (applied_position_ok ser sha s (trace_of st)) (cl_client st) \<Longrightarrow> applied_position_ok ser sha s (trace_of st) (cl_applied st) \<Longrightarrow>
      sent_ok (applied_position_ok ser sha s (trace_of st)) (cl_client st')"
  shows "cdc_ok ser sha s st'"
  using assms(1,3,4) position_ok_mono [OF _ assms(2)] unfolding cdc_ok_def by (auto intro: sent_ok_mono)

lemma trace_of_simps [simp]:
  "trace_of (st\<lparr>cl_client := c\<rparr>) = trace_of st" "trace_of (st\<lparr>cl_log := l\<rparr>) = trace_of st"
  "trace_of (st\<lparr>cl_ledger := le\<rparr>) = trace_of st" "trace_of (st\<lparr>cl_applied := a\<rparr>) = trace_of st"
  "trace_of (st\<lparr>cl_window := w\<rparr>) = trace_of st" "trace_of (st\<lparr>cl_commits := n\<rparr>) = trace_of st"
  "trace_of (st\<lparr>cl_started := t\<rparr>) = trace_of st" "trace_of (st\<lparr>cl_reconnect := b\<rparr>) = trace_of st"
  "trace_of (st\<lparr>cl_visibility := v\<rparr>) = trace_of st"
  "trace_of (st\<lparr>cl_adapter := (cl_adapter st)\<lparr>ca_decoder := d\<rparr>\<rparr>) = trace_of st"
  by (simp_all add: trace_of_def)

lemma cdc_server_trace: "snd (cdc_server r st) = st\<lparr>cl_adapter := (cl_adapter st)\<lparr>ca_server := snd r\<rparr>\<rparr>"
  and cdc_decoder_state: "snd (cdc_decoder r' st) = st\<lparr>cl_adapter := (cl_adapter st)\<lparr>ca_decoder := snd r'\<rparr>\<rparr>"
  by (simp_all add: cdc_server_def cdc_decoder_def)

text \<open>A flush that fails somewhere before the window is applied, or succeeds.\<close>

lemma flush_window_ok:
  assumes "cdc_ok ser sha s st" and "flush_window ser sha js i st = (r, st')"
  shows "cdc_ok ser sha s st'"
proof -
  let ?lsns = "map fr_lsn_end (filter fr_txn_complete (cl_window st))"
  obtain r1 st1 where 1: "cdc_ledger (resolve_window_hashes sha js (xi_ledger i) ?lsns (cl_ledger st)) st = (r1, st1)" by fastforce
  have s1: "st1 = st\<lparr>cl_ledger := cl_ledger st1\<rparr>" using arg_cong [OF 1, of snd] by auto
  obtain r2 st2 where 2: "cdc_decoder (feed_frames (cl_window st1) (ca_decoder (cl_adapter st1))) st1 = (r2, st2)" by fastforce
  have s2: "st2 = st1\<lparr>cl_adapter := (cl_adapter st1)\<lparr>ca_decoder := ca_decoder (cl_adapter st2)\<rparr>\<rparr>"
    using arg_cong [OF 2, of snd] by (auto simp: cdc_decoder_state)
  have ok2: "cdc_ok ser sha s st1" "cdc_ok ser sha s st2"
  proof -
    show "cdc_ok ser sha s st1" using assms(1) by (subst s1, simp add: cdc_ok_def)
    then show "cdc_ok ser sha s st2" by (subst s2, simp add: cdc_ok_def trace_of_def)
  qed
  show ?thesis
  proof (cases r1)
    case (Inl e)
    then show ?thesis using assms(2) 1 ok2 by (simp add: flush_window_def Let_def)
  next
    case h: (Inr hashes)
    show ?thesis
    proof (cases r2)
      case (Inl e)
      then show ?thesis using assms(2) 1 2 h ok2 by (simp add: flush_window_def Let_def)
    next
      case b: (Inr batches)
      obtain r3 st3 where 3: "cdc_server (adapter_apply_window ser sha hashes batches (ca_server (cl_adapter st2))) st2 = (r3, st3)" by fastforce
      have s3: "st3 = st2\<lparr>cl_adapter := (cl_adapter st2)\<lparr>ca_server := snd (adapter_apply_window ser sha hashes batches (ca_server (cl_adapter st2)))\<rparr>\<rparr>"
        using arg_cong [OF 3, of snd] by (simp add: cdc_server_trace)
      have e3: "extends (trace_of st2) (trace_of st3)" by (subst s3) (simp add: trace_of_def apply_window_extends)
      have ok3: "cdc_ok ser sha s st3" by (rule cdc_ok_step [OF ok2(2) e3]) (simp_all add: s3)
      show ?thesis
      proof (cases r3)
        case (Inl e)
        then show ?thesis using assms(2) 1 2 3 h b ok3 by (simp add: flush_window_def Let_def)
      next
        case l: (Inr lsn)
        obtain commits where "window_commits hashes batches = Ok commits"
            "sink_apply_window ser sha commits (ca_server (cl_adapter st2)) = (Ok lsn, ca_server (cl_adapter st3))"
          using 3 l by (auto simp: cdc_server_Ok adapter_apply_window_def st_bind_Ok_iff split: prod.splits)
            (smt (verit) prod.collapse prod.inject st_bind_Ok_iff)
        from apply_window_Ok [OF this(2)] have p: "applied_position_ok ser sha s (trace_of st3) lsn"
          unfolding applied_position_ok_def trace_of_def by (metis append_Nil2)
        obtain r4 st4 where 4: "cdc_log (flush_pending (xi_flush_io i) (cl_log st3)) st3 = (r4, st4)" by fastforce
        have s4: "st4 = st3\<lparr>cl_log := cl_log st4\<rparr>" using arg_cong [OF 4, of snd] by auto
        have ok4: "cdc_ok ser sha s st4" "trace_of st4 = trace_of st3" using ok3 by (subst s4, simp add: cdc_ok_def)+
        show ?thesis
        proof (cases r4)
          case (Inl e)
          then show ?thesis using assms(2) 1 2 3 4 h b l ok4 by (simp add: flush_window_def Let_def)
        next
          case (Inr u)
          obtain r5 st5 where 5: "cdc_client (send_standby_status lsn False (xi_now i) (cl_client st4)) st4 = (r5, st5)" by fastforce
          have s5: "st5 = st4\<lparr>cl_client := snd (send_standby_status lsn False (xi_now i) (cl_client st4))\<rparr>" using arg_cong [OF 5, of snd] by simp
          have ok5: "cdc_ok ser sha s st5"
            using ok4 p by (subst s5) (simp add: cdc_ok_def sent_ok_status)
          have "trace_of st5 = trace_of st3" using ok4(2) by (simp add: s5)
          then have ok6: "cdc_ok ser sha s (st5\<lparr>cl_applied := lsn, cl_window := [], cl_commits := 0, cl_started := xi_at i\<rparr>)"
            using ok5 p by (simp add: cdc_ok_def trace_of_def)
          have "st' = st5 \<or> st' = st5\<lparr>cl_applied := lsn, cl_window := [], cl_commits := 0, cl_started := xi_at i\<rparr>"
            using assms(2) 1 2 3 4 5 h b l Inr by (cases r5) (simp_all add: flush_window_def Let_def)
          then show ?thesis using ok5 ok6 by auto
        qed
      qed
    qed
  qed
qed

lemma xlog_cdc_ok:
  assumes "cdc_ok ser sha s st" and "cdc_xlog crc ser sha js i wal_start payload st = (r, st')"
  shows "cdc_ok ser sha s st'"
proof -
  let ?c = "pgoutput_commit_lsn payload"
  let ?e = "case ?c of None \<Rightarrow> wal_start | Some l \<Rightarrow> l"
  obtain q st1 where q: "cdc_log (log_append crc (xi_io i) wal_start ?e (?c \<noteq> None) payload (cl_log st)) st = (q, st1)" by fastforce
  have s1: "st1 = st\<lparr>cl_log := cl_log st1\<rparr>" using arg_cong [OF q, of snd] by auto
  have ok1: "cdc_ok ser sha s st1" using assms(1) by (subst s1, simp add: cdc_ok_def)
  show ?thesis
  proof (cases q)
    case (Inl e)
    then show ?thesis using assms(2) q ok1 by (simp add: cdc_xlog_def Let_def)
  next
    case (Inr seq)
    let ?st = "st1\<lparr>cl_window := cl_window st1 @ [new_frame seq wal_start ?e (?c \<noteq> None) payload],
                  cl_commits := cl_commits st1 + (if ?c \<noteq> None then 1 else 0)\<rparr>"
    have ok: "cdc_ok ser sha s ?st" using ok1 by (simp add: cdc_ok_def trace_of_def)
    have "(r, st') = (if flush_due (xi_at i) ?st then flush_window ser sha js i ?st else (Ok (), ?st))"
      using assms(2) by (simp only: cdc_xlog_def Let_def q Inr st_bind_simps)
    then consider "flush_window ser sha js i ?st = (r, st')" | "st' = ?st" by (metis prod.inject)
    then show ?thesis by cases (use flush_window_ok [OF ok] ok in blast)+
  qed
qed

lemma visibility_cdc_ok: "cdc_ok ser sha s st \<Longrightarrow> cdc_ok ser sha s (record_visibility w st)"
proof -
  assume ok: "cdc_ok ser sha s st"
  let ?r = "execute_sql (visibility_statement w) (ca_server (cl_adapter st))"
  let ?st = "st\<lparr>cl_adapter := (cl_adapter st)\<lparr>ca_server := snd ?r\<rparr>\<rparr>"
  have e: "extends (trace_of st) (trace_of ?st)" by (simp add: trace_of_def execute_extends)
  have "cdc_ok ser sha s ?st" by (rule cdc_ok_step [OF ok e]) simp_all
  then have "cdc_ok ser sha s ?st" "cdc_ok ser sha s (?st\<lparr>cl_visibility := w\<rparr>)" by (simp_all add: cdc_ok_def trace_of_def)
  moreover have "record_visibility w st \<in> {st, ?st, ?st\<lparr>cl_visibility := w\<rparr>}"
    by (simp add: record_visibility_def cdc_server_def Let_def split: prod.splits)
  ultimately show ?thesis using ok by auto
qed

lemma message_cdc_ok:
  assumes "cdc_ok ser sha s st" and "cdc_message crc ser sha js i m st = (r, st')"
  shows "cdc_ok ser sha s st'"
proof (cases m)
  case (XLogData w p)
  then show ?thesis using xlog_cdc_ok [OF assms(1)] assms(2) by (simp add: cdc_message_def)
next
  case (Keepalive w b)
  let ?c = "snd (send_standby_status (cl_applied st) False (xi_now i) (cl_client st))"
  have "cdc_ok ser sha s (st\<lparr>cl_client := ?c\<rparr>)" using assms(1) by (auto simp: cdc_ok_def sent_ok_status)
  then show ?thesis
    using assms Keepalive visibility_cdc_ok by (auto simp: cdc_message_def st_bind_def cdc_client_def split: if_splits prod.splits sum.splits)
qed

lemma interrupted_cdc_ok:
  assumes "cdc_ok ser sha s st" and "cdc_interrupted i st = (r, st')"
    and "\<forall>c. xi_candidate i = Some c \<longrightarrow> sent_ok (\<lambda>_. False) c"
  shows "cdc_ok ser sha s st'"
proof -
  let ?st = "st\<lparr>cl_adapter := \<lparr>ca_decoder = decoder_new, ca_server = ca_server (cl_adapter st)\<rparr>, cl_reconnect := x\<rparr>"
  have ok: "cdc_ok ser sha s (st\<lparr>cl_adapter := \<lparr>ca_decoder = decoder_new, ca_server = ca_server (cl_adapter st)\<rparr>, cl_reconnect := x\<rparr>)" for x
    using assms(1) by (simp add: cdc_ok_def trace_of_def)
  have "cdc_ok ser sha s (st\<lparr>cl_adapter := \<lparr>ca_decoder = decoder_new, ca_server = ca_server (cl_adapter st)\<rparr>, cl_reconnect := x,
      cl_client := snd (start_replication slot pub (cl_applied st) c)\<rparr>)" if "xi_candidate i = Some c" for x slot pub c
  proof -
    have "sent_ok (applied_position_ok ser sha s (trace_of st)) c" using assms(3) that by (auto simp: sent_ok_def)
    from start_replication_sent [OF this] show ?thesis using ok [of x] by (simp add: cdc_ok_def trace_of_def)
  qed
  then show ?thesis using assms(2) ok
    by (auto simp: cdc_interrupted_def Let_def split: if_splits option.splits prod.splits sum.splits)
      (metis snd_conv)+
qed

lemma stop_cdc_ok: "cdc_ok ser sha s st \<Longrightarrow> cdc_ok ser sha s (cdc_stop now st)"
proof -
  assume ok: "cdc_ok ser sha s st"
  let ?c = "snd (send_standby_status (cl_applied st) False now (cl_client st))"
  have "sent_ok (applied_position_ok ser sha s (trace_of st)) (snd (close ?c))"
    unfolding close_def by (rule sent_ok_msg) (use ok in \<open>auto simp: cdc_ok_def sent_ok_status\<close>)
  then show ?thesis using ok by (simp add: cdc_stop_def Let_def cdc_ok_def)
qed

lemma step_cdc_ok:
  assumes "cdc_ok ser sha s st" and "cdc_step crc ser sha js i st = (r, st')"
    and "\<forall>c. xi_candidate i = Some c \<longrightarrow> sent_ok (\<lambda>_. False) c"
  shows "cdc_ok ser sha s st'"
proof (cases "xi_event i")
  case (Stop v)
  then show ?thesis using assms stop_cdc_ok by (auto simp: cdc_step_def split: if_splits)
next
  case Message
  obtain m c where m: "next_replication_message (cl_client st) = (m, c)" by fastforce
  have c: "sent_ok P (cl_client st) \<Longrightarrow> sent_ok P c" for P using next_message_facts(1) [OF m] by (rule sent_ok_cong)
  have ok: "cdc_ok ser sha s (st\<lparr>cl_client := c, cl_reconnect := b\<rparr>)" "cdc_ok ser sha s (st\<lparr>cl_client := c\<rparr>)" for b
    using assms(1) c by (auto simp: cdc_ok_def)
  show ?thesis
  proof (cases m)
    case (Inl e)
    obtain q st1 where q: "cdc_interrupted i (st\<lparr>cl_client := c\<rparr>) = (q, st1)" by fastforce
    then have "st' = st1" using assms(2) m Message Inl by (cases q) (simp_all add: cdc_step_def)
    then show ?thesis using interrupted_cdc_ok [OF ok(2) q assms(3)] by simp
  next
    case (Inr msg)
    obtain q st1 where q: "cdc_message crc ser sha js i msg (st\<lparr>cl_client := c, cl_reconnect := None\<rparr>) = (q, st1)" by fastforce
    then have "st' = st1" using assms(2) m Message Inr by (cases q) (simp_all add: cdc_step_def)
    then show ?thesis using message_cdc_ok [OF ok(1) q] by simp
  qed
qed

lemma run_cdc_ok:
  "cdc_ok ser sha s st \<Longrightarrow> run_cdc crc ser sha js is st = (r, st') \<Longrightarrow>
    \<forall>i \<in> set is. \<forall>c. xi_candidate i = Some c \<longrightarrow> sent_ok (\<lambda>_. False) c \<Longrightarrow> cdc_ok ser sha s st'"
proof (induction "is" arbitrary: st)
  case (Cons i "is")
  obtain q st1 where q: "cdc_step crc ser sha js i st = (q, st1)" by fastforce
  have "cdc_ok ser sha s st1" using step_cdc_ok [OF Cons.prems(1) q] Cons.prems(3) by simp
  then show ?case using Cons.IH [of st1] Cons.prems(2,3) q by (cases q) (auto split: if_splits)
qed simp

lemma sent_ok_fresh: "rc_sent c = [] \<Longrightarrow> sent_ok P c" by (simp add: sent_ok_def)

lemma start_cdc_ok:
  assumes "cdc_start sha js file start_lsn at server c = Ok st" and "rc_sent c = []"
  shows "cdc_ok ser sha start_lsn st"
proof -
  let ?P = "\<lambda>_. False"
  obtain r c1 where c1: "create_slot_with_snapshot CLICKHOUSE_CDC_SLOT c = (r, c1)" by fastforce
  obtain u c2 where c2: "start_replication CLICKHOUSE_CDC_SLOT (str ''graydb_r1_pub'') start_lsn c1 = (Ok u, c2)"
    and st: "cl_client st = c2" "cl_applied st = start_lsn"
    using assms(1) c1 by (auto simp: cdc_start_def split: sum.splits prod.splits)
  have "sent_ok ?P (snd (create_slot_with_snapshot CLICKHOUSE_CDC_SLOT c))" by (rule create_slot_sent) (simp add: sent_ok_fresh assms(2))
  then have "sent_ok ?P c2" using start_replication_sent [of ?P c1 CLICKHOUSE_CDC_SLOT "str ''graydb_r1_pub''" start_lsn] c1 c2 by simp
  then show ?thesis using st by (auto simp: cdc_ok_def applied_position_ok_def sent_ok_def)
qed

text \<open>
  C27. The ClickHouse task acknowledges only what it has applied. From its start, through any messages, reconnects, I/O failures
  and answers, every position a status message on the current connection names is the start position or the
  last position of a window that was sent whole: every row of every table of its transactions inserted, every
  marker inserted, and the markers counted back, all answered with success.
\<close>
theorem cdc_acks_applied_windows:
  assumes "cdc_start sha js file start_lsn at server c = Ok st" and "rc_sent c = []"
    and "run_cdc crc ser sha js is st = (r, st')" and "\<forall>i \<in> set is. \<forall>c. xi_candidate i = Some c \<longrightarrow> rc_sent c = []"
    and "message_bytes 100 (status_body lsn rr now) \<in> set (rc_sent (cl_client st'))"
  shows "lsn = start_lsn \<or>
    (\<exists>commits p w q. trace_of st' = p @ w @ q \<and> window_sent ser sha commits w \<and> cc_lsn (last commits) = lsn)"
proof -
  have "cdc_ok ser sha start_lsn st'"
    using run_cdc_ok [OF start_cdc_ok [OF assms(1,2)] assms(3)] assms(4) sent_ok_fresh by blast
  then show ?thesis using assms(5) by (auto simp: cdc_ok_def sent_ok_def applied_position_ok_def)
qed

section \<open>Visible before applied\<close>

lemma show_nat_quiet: "quote_run (None, e) (show_nat 10 n @ r) = quote_run (None, e) r"
proof -
  have "\<forall>b \<in> set t. 48 \<le> unat b \<and> unat b \<le> 57 \<Longrightarrow> quote_run (None, e) (t @ r) = quote_run (None, e) r" for t
    by (induction t) (auto simp: is_quote_def)
  then show ?thesis using show_dec_digits by blast
qed

lemma visibility_plain: "plain_statement (visibility_statement l)"
proof -
  let ?t = "visibility_statement l"
  have f: "str ''INSERT INTO r1_meta.visibility VALUES ('' = 73 # tl (str ''INSERT INTO r1_meta.visibility VALUES ('')" by simp
  have e: "rev (str '', now())'') = 41 # tl (rev (str '', now())''))" by simp
  have "trim_text ?t = ?t"
  proof (rule trim_none)
    show "find (\<lambda>w. w \<noteq> [] \<and> take (length w) ?t = w) white_space = None"
      unfolding visibility_statement_def by (subst f) (simp add: white_space_def del: str_Cons)
    show "find (\<lambda>w. w \<noteq> [] \<and> take (length w) (rev ?t) = w) (map rev white_space) = None"
      unfolding visibility_statement_def rev_append append_assoc by (subst e) (simp add: white_space_def del: str_Cons)
  qed
  moreover have "quote_run (None, False) ?t = Some (None, False)"
  proof -
    have "quote_run (None, False) (str ''INSERT INTO r1_meta.visibility VALUES ('' @ r) = quote_run (None, False) r" for r
      by (simp add: is_quote_def)
    then show ?thesis unfolding visibility_statement_def by (simp add: show_nat_quiet is_quote_def del: str_Cons) (simp add: is_quote_def)
  qed
  ultimately show ?thesis by (simp add: plain_statement_def visibility_statement_def)
qed

lemma execute_visibility: "execute_sql (visibility_statement l) s = post_all [visibility_statement l] s"
  using statements_roundtrip_plain [OF visibility_plain, of l] by (simp add: execute_sql_def)

lemma visibility_trace:
  "\<exists>a. cs_trace (snd (execute_sql (visibility_statement l) s)) = cs_trace s @ [(\<lparr>cr_params = [], cr_body = visibility_statement l\<rparr>, a)]"
proof -
  have "snd (execute_sql (visibility_statement l) s) = snd (post [] (visibility_statement l) s)"
    unfolding execute_visibility by (cases "post [] (visibility_statement l) s"; cases "fst (post [] (visibility_statement l) s)") auto
  then show ?thesis using post_trace by metis
qed

text \<open>
  C36. A position can be visible before it is applied. While committed transactions wait in the window, a keepalive
  that asks for a reply makes the task record the keepalive's position as visible, although it lies at or past
  their ends: nothing of them is sent, they stay in the window, and the position acknowledged stays behind.
\<close>
theorem visibility_overtakes_window:
  assumes "xi_event i = Message" and "next_replication_message (cl_client st) = (Ok (Keepalive wal_end True), c)" and "rc_writable c"
    and "cs_answers (ca_server (cl_adapter st)) = Some a # as" and "cl_visibility st < wal_end"
    and "f \<in> set (cl_window st)" and "fr_txn_complete f" and "fr_lsn_end f \<le> wal_end"
  shows "\<exists>st'. cdc_step crc ser sha js i st = (Ok True, st') \<and> cl_visibility st' = wal_end \<and> fr_lsn_end f \<le> cl_visibility st' \<and>
    trace_of st' = trace_of st @ [(\<lparr>cr_params = [], cr_body = visibility_statement wal_end\<rparr>, Some a)] \<and>
    cl_window st' = cl_window st \<and> cl_applied st' = cl_applied st"
proof -
  have e: "execute_sql (visibility_statement wal_end) (ca_server (cl_adapter st)) =
      (Ok (), (ca_server (cl_adapter st))\<lparr>cs_answers := as, cs_trace := cs_trace (ca_server (cl_adapter st)) @
        [(\<lparr>cr_params = [], cr_body = visibility_statement wal_end\<rparr>, Some a)]\<rparr>)"
    by (simp add: execute_visibility post_def post_full_def assms(4) Let_def)
  show ?thesis
    using assms e
    by (simp add: cdc_step_def cdc_message_def cdc_client_def send_standby_status_def send_msg_def record_visibility_def cdc_server_def
        trace_of_def Let_def)
qed

section \<open>Nothing is applied after a reconnect\<close>

definition stale :: "cdc_loop \<Rightarrow> bool" where
  "stale st \<longleftrightarrow> ca_decoder (cl_adapter st) = decoder_new \<and> fl_next_seq (cl_log st) \<noteq> 0 \<and>
     (cl_window st \<noteq> [] \<longrightarrow> fr_seq (hd (cl_window st)) \<noteq> 0)"

definition only_visibility :: "cdc_loop \<Rightarrow> cdc_loop \<Rightarrow> bool" where
  "only_visibility st st' \<longleftrightarrow> cl_applied st' = cl_applied st \<and>
     (\<exists>x. trace_of st' = trace_of st @ x \<and> (\<forall>y \<in> set x. \<exists>l. fst y = \<lparr>cr_params = [], cr_body = visibility_statement l\<rparr>))"

lemma only_visibility_refl: "cl_applied st' = cl_applied st \<Longrightarrow> trace_of st' = trace_of st \<Longrightarrow> only_visibility st st'"
  by (simp add: only_visibility_def)

lemma only_visibility_trans: "only_visibility a b \<Longrightarrow> only_visibility b c \<Longrightarrow> only_visibility a c"
  by (fastforce simp: only_visibility_def)

lemma feed_stale: "fs \<noteq> [] \<Longrightarrow> fr_seq (hd fs) \<noteq> 0 \<Longrightarrow> fst (feed_frames fs decoder_new) = Err (FeedFailed (FrameGap 0 (fr_seq (hd fs))))"
  by (cases fs) (simp_all add: feed_one_def feed_def decoder_new_def ensure_def)

lemma flush_stale:
  assumes "stale st" and "cl_window st \<noteq> []" and "flush_window ser sha js i st = (r, st')"
  shows "\<not> is_ok r" and "only_visibility st st'"
proof -
  let ?lsns = "map fr_lsn_end (filter fr_txn_complete (cl_window st))"
  obtain r1 L where 1: "resolve_window_hashes sha js (xi_ledger i) ?lsns (cl_ledger st) = (r1, L)" by fastforce
  obtain d where d: "feed_frames (cl_window st) decoder_new = (Err (FeedFailed (FrameGap 0 (fr_seq (hd (cl_window st))))), d)"
    using feed_stale [OF assms(2)] assms(1,2) by (metis prod.collapse stale_def)
  have dec: "ca_decoder (cl_adapter st) = decoder_new" using assms(1) by (simp add: stale_def)
  have "(r, st') = (case r1 of Inl e \<Rightarrow> (Err e, st\<lparr>cl_ledger := L\<rparr>)
      | Inr _ \<Rightarrow> (Err (CdcSink (FeedFailed (FrameGap 0 (fr_seq (hd (cl_window st)))))), st\<lparr>cl_ledger := L, cl_adapter := (cl_adapter st)\<lparr>ca_decoder := d\<rparr>\<rparr>))"
    using assms(3) 1 d dec by (cases r1) (simp_all add: flush_window_def cdc_ledger_def cdc_decoder_def Let_def)
  then show "\<not> is_ok r" "only_visibility st st'"
    by (auto split: sum.splits intro!: only_visibility_refl simp: trace_of_def)
qed

lemma log_append_seq: "log_append crc w a b t p L = (Ok s, l) \<Longrightarrow> s = fl_next_seq L"
  by (auto simp: log_append_def Let_def st_bind_Ok_iff split: if_splits)

lemma xlog_stale:
  assumes "stale st" and "unat (fl_next_seq (cl_log st)) + 1 < 2 ^ 64" and "cdc_xlog crc ser sha js i wal_start payload st = (r, st')"
  shows "only_visibility st st'" and "is_ok r \<Longrightarrow> stale st' \<and> unat (fl_next_seq (cl_log st')) \<le> unat (fl_next_seq (cl_log st)) + 1"
proof -
  let ?c = "pgoutput_commit_lsn payload"
  let ?e = "case ?c of None \<Rightarrow> wal_start | Some l \<Rightarrow> l"
  obtain q l where l: "log_append crc (xi_io i) wal_start ?e (?c \<noteq> None) payload (cl_log st) = (q, l)" by fastforce
  have seq: "fl_next_seq l = fl_next_seq (cl_log st) + 1" using append_seq [of crc "xi_io i" wal_start ?e "?c \<noteq> None" payload "cl_log st"] l by simp
  have n: "unat (fl_next_seq l) = unat (fl_next_seq (cl_log st)) + 1" using assms(2) seq by (simp add: unat_word_ariths)
  have "only_visibility st st' \<and> (is_ok r \<longrightarrow> stale st' \<and> unat (fl_next_seq (cl_log st')) \<le> unat (fl_next_seq (cl_log st)) + 1)"
  proof (cases q)
    case (Inl e)
    then have "\<not> is_ok r" "st' = st\<lparr>cl_log := l\<rparr>"
      using assms(3) l by (auto simp: cdc_xlog_def cdc_log_def Let_def simp del: not_None_eq)
    then show ?thesis by (auto intro!: only_visibility_refl)
  next
    case (Inr s)
    have s: "s = fl_next_seq (cl_log st)" using log_append_seq l Inr by simp
    let ?st1 = "st\<lparr>cl_log := l\<rparr>"
    let ?st = "?st1\<lparr>cl_window := cl_window ?st1 @ [new_frame s wal_start ?e (?c \<noteq> None) payload],
                  cl_commits := cl_commits ?st1 + (if ?c \<noteq> None then 1 else 0)\<rparr>"
    have q: "cdc_log (log_append crc (xi_io i) wal_start ?e (?c \<noteq> None) payload (cl_log st)) st = (Ok s, ?st1)"
      by (simp only: l Inr cdc_log_def fst_conv snd_conv sum.case)
    have r: "(r, st') = (if flush_due (xi_at i) ?st then flush_window ser sha js i ?st else (Ok (), ?st))"
      using assms(3) by (simp only: cdc_xlog_def Let_def q st_bind_simps)
    have st: "stale ?st" "cl_window ?st \<noteq> []" "only_visibility st ?st"
      using assms(1) s n by (auto simp: stale_def new_frame_def hd_append trace_of_def unat_eq_zero [symmetric] simp del: unat_eq_zero
          intro!: only_visibility_refl)
    show ?thesis
    proof (cases "flush_due (xi_at i) ?st")
      case True
      then have f: "flush_window ser sha js i ?st = (r, st')" using r by (simp only: if_True)
      from flush_stale [OF st(1,2) f] only_visibility_trans [OF st(3)] show ?thesis by blast
    next
      case False
      then have "(r, st') = (Ok (), ?st)" using r by (simp only: if_False)
      then show ?thesis using st n by auto
    qed
  qed
  then show "only_visibility st st'" "is_ok r \<Longrightarrow> stale st' \<and> unat (fl_next_seq (cl_log st')) \<le> unat (fl_next_seq (cl_log st)) + 1" by auto
qed

lemma visibility_stale: "only_visibility st (record_visibility w st) \<and> (stale st \<longrightarrow> stale (record_visibility w st)) \<and>
    cl_log (record_visibility w st) = cl_log st"
proof -
  let ?s = "snd (execute_sql (visibility_statement w) (ca_server (cl_adapter st)))"
  obtain a where "cs_trace ?s = cs_trace (ca_server (cl_adapter st)) @ [(\<lparr>cr_params = [], cr_body = visibility_statement w\<rparr>, a)]"
    using visibility_trace by blast
  then show ?thesis
    by (auto simp: record_visibility_def cdc_server_def only_visibility_def stale_def trace_of_def Let_def)
qed

lemma message_stale:
  assumes "stale st" and "unat (fl_next_seq (cl_log st)) + 1 < 2 ^ 64" and "cdc_message crc ser sha js i m st = (r, st')"
  shows "only_visibility st st'" and "is_ok r \<Longrightarrow> stale st' \<and> unat (fl_next_seq (cl_log st')) \<le> unat (fl_next_seq (cl_log st)) + 1"
proof -
  have "only_visibility st st' \<and> (is_ok r \<longrightarrow> stale st' \<and> unat (fl_next_seq (cl_log st')) \<le> unat (fl_next_seq (cl_log st)) + 1)"
  proof (cases m)
    case (XLogData w p)
    then show ?thesis using xlog_stale [OF assms(1,2)] assms(3) by (auto simp: cdc_message_def)
  next
    case (Keepalive w b)
    let ?st = "st\<lparr>cl_client := snd (send_standby_status (cl_applied st) False (xi_now i) (cl_client st))\<rparr>"
    have "only_visibility st ?st" "stale ?st" using assms(1) by (auto intro!: only_visibility_refl simp: stale_def)
    moreover have "st' \<in> {st, ?st, record_visibility w ?st}"
      using assms(3) Keepalive by (auto simp: cdc_message_def st_bind_def cdc_client_def split: if_splits prod.splits sum.splits)
    moreover have "only_visibility st st" by (rule only_visibility_refl) simp_all
    moreover have "only_visibility st (record_visibility w ?st)" "stale (record_visibility w ?st)" "cl_log (record_visibility w ?st) = cl_log st"
      using visibility_stale [of ?st w] only_visibility_trans [OF calculation(1)] calculation(2) by simp_all
    ultimately show ?thesis using assms(1) by auto
  qed
  then show "only_visibility st st'" "is_ok r \<Longrightarrow> stale st' \<and> unat (fl_next_seq (cl_log st')) \<le> unat (fl_next_seq (cl_log st)) + 1" by auto
qed

lemma interrupted_stale:
  assumes "fl_next_seq (cl_log st) \<noteq> 0" and "cl_window st \<noteq> [] \<longrightarrow> fr_seq (hd (cl_window st)) \<noteq> 0" and "cdc_interrupted i st = (r, st')"
  shows "only_visibility st st' \<and> stale st' \<and> cl_log st' = cl_log st"
  using assms by (auto simp: cdc_interrupted_def stale_def only_visibility_def trace_of_def Let_def split: if_splits option.splits prod.splits sum.splits)

lemma stop_stale: "only_visibility st (cdc_stop now st)"
  by (rule only_visibility_refl) (simp_all add: cdc_stop_def Let_def)

lemma step_stale:
  assumes "stale st" and "unat (fl_next_seq (cl_log st)) + 1 < 2 ^ 64" and "cdc_step crc ser sha js i st = (r, st')"
  shows "only_visibility st st' \<and> (r = Ok True \<longrightarrow> stale st' \<and> unat (fl_next_seq (cl_log st')) \<le> unat (fl_next_seq (cl_log st)) + 1)"
proof (cases "xi_event i")
  case (Stop v)
  have "only_visibility st st" by (rule only_visibility_refl) simp_all
  then show ?thesis using Stop assms stop_stale by (auto simp: cdc_step_def split: if_splits)
next
  case Message
  obtain m c where m: "next_replication_message (cl_client st) = (m, c)" by fastforce
  have v: "only_visibility st (st\<lparr>cl_client := c\<rparr>)" "only_visibility st (st\<lparr>cl_client := c, cl_reconnect := None\<rparr>)"
    by (auto intro!: only_visibility_refl)
  show ?thesis
  proof (cases m)
    case (Inl e)
    obtain q st1 where q: "cdc_interrupted i (st\<lparr>cl_client := c\<rparr>) = (q, st1)" by fastforce
    then have "st' = st1" using assms(3) m Message Inl by (cases q) (simp_all add: cdc_step_def)
    moreover have "only_visibility (st\<lparr>cl_client := c\<rparr>) st1 \<and> stale st1 \<and> cl_log st1 = cl_log (st\<lparr>cl_client := c\<rparr>)"
      by (rule interrupted_stale [OF _ _ q]) (use assms(1) in \<open>simp_all add: stale_def\<close>)
    ultimately have "only_visibility st st'" "stale st'" "cl_log st' = cl_log st"
      using only_visibility_trans [OF v(1), of st1] by simp_all
    then show ?thesis by simp
  next
    case (Inr msg)
    obtain q st1 where q: "cdc_message crc ser sha js i msg (st\<lparr>cl_client := c, cl_reconnect := None\<rparr>) = (q, st1)" by fastforce
    then have e: "(r, st') = st_bind (q, st1) (\<lambda>_ st. (Ok True, st))" using assms(3) m Message Inr by (simp add: cdc_step_def)
    have s: "st' = st1" "r = Ok True \<longrightarrow> is_ok q" using e by (cases q; simp)+
    have "stale (st\<lparr>cl_client := c, cl_reconnect := None\<rparr>)" using assms(1) by (simp add: stale_def)
    note ms = message_stale [OF this _ q]
    have "only_visibility (st\<lparr>cl_client := c, cl_reconnect := None\<rparr>) st1" by (rule ms(1)) (use assms(2) in simp)
    then have "only_visibility st st'" using only_visibility_trans [OF v(2)] s(1) by blast
    moreover have "stale st' \<and> unat (fl_next_seq (cl_log st')) \<le> unat (fl_next_seq (cl_log st)) + 1" if "r = Ok True"
      using ms(2) assms(2) s that by simp
    ultimately show ?thesis by blast
  qed
qed

lemma run_stale:
  "stale st \<Longrightarrow> unat (fl_next_seq (cl_log st)) + length is < 2 ^ 64 \<Longrightarrow> run_cdc crc ser sha js is st = (r, st') \<Longrightarrow> only_visibility st st'"
proof (induction "is" arbitrary: st)
  case Nil
  then show ?case by (auto intro!: only_visibility_refl)
next
  case (Cons i "is")
  obtain q st1 where q: "cdc_step crc ser sha js i st = (q, st1)" by fastforce
  have s: "only_visibility st st1 \<and> (q = Ok True \<longrightarrow> stale st1 \<and> unat (fl_next_seq (cl_log st1)) \<le> unat (fl_next_seq (cl_log st)) + 1)"
    by (rule step_stale [OF Cons.prems(1) _ q]) (use Cons.prems(2) in simp)
  show ?case
  proof (cases "q = Ok True")
    case True
    then have run: "run_cdc crc ser sha js is st1 = (r, st')" using Cons.prems(3) q by simp
    have "only_visibility st1 st'" by (rule Cons.IH [OF _ _ run]) (use s True Cons.prems(2) in auto)
    then show ?thesis using s only_visibility_trans by blast
  next
    case False
    then have "st' = st1" using Cons.prems(3) q by (cases q) (auto split: if_splits)
    then show ?thesis using s by simp
  qed
qed

text \<open>
  C35. A reconnect ends the delivery. Once the connection is lost after frames have been logged (and the window does not still
  start with the very first frame), then whatever connections, messages and answers follow, nothing is applied any
  more: the position acknowledged never moves and the only requests sent record visibility. The new decoder
  expects the sequence to start at zero while the log goes on.
\<close>
theorem reconnect_applies_nothing:
  assumes "xi_event i = Message" and "next_replication_message (cl_client st) = (Err e, c)"
    and "fl_next_seq (cl_log st) \<noteq> 0" and "cl_window st \<noteq> [] \<longrightarrow> fr_seq (hd (cl_window st)) \<noteq> 0"
    and "unat (fl_next_seq (cl_log st)) + length is < 2 ^ 64" and "run_cdc crc ser sha js (i # is) st = (r, st')"
  shows "cl_applied st' = cl_applied st \<and>
    (\<exists>x. trace_of st' = trace_of st @ x \<and> (\<forall>y \<in> set x. \<exists>l. fst y = \<lparr>cr_params = [], cr_body = visibility_statement l\<rparr>))"
proof -
  obtain q st1 where q: "cdc_interrupted i (st\<lparr>cl_client := c\<rparr>) = (q, st1)" by fastforce
  have s: "only_visibility (st\<lparr>cl_client := c\<rparr>) st1 \<and> stale st1 \<and> cl_log st1 = cl_log (st\<lparr>cl_client := c\<rparr>)"
    by (rule interrupted_stale [OF _ _ q]) (use assms(3,4) in simp_all)
  have "only_visibility st (st\<lparr>cl_client := c\<rparr>)" by (auto intro!: only_visibility_refl)
  then have v: "only_visibility st st1" using s only_visibility_trans by blast
  have step: "cdc_step crc ser sha js i st = st_bind (q, st1) (\<lambda>_ st. (Ok True, st))" using assms(1,2) q by (simp add: cdc_step_def)
  have "only_visibility st st'"
  proof (cases q)
    case (Inl err)
    then show ?thesis using assms(6) step v by simp
  next
    case (Inr u)
    then have run: "run_cdc crc ser sha js is st1 = (r, st')" using assms(6) step by simp
    have "only_visibility st1 st'" by (rule run_stale [OF _ _ run]) (use s assms(5) in auto)
    then show ?thesis using v only_visibility_trans by blast
  qed
  then show ?thesis by (simp add: only_visibility_def)
qed

section \<open>A concrete task\<close>

lemma msg_loop_writable: "rc_writable (snd (msg_loop handle st c)) = rc_writable c"
proof (induction handle st c rule: msg_loop.induct)
  case (1 handle st c)
  obtain m c1 where m: "read_message c = (m, c1)" by fastforce
  then have "rc_writable c1 = rc_writable c" by (auto simp: read_message_def Let_def split: prod.splits)
  then show ?case using 1 m by (subst msg_loop.simps) (auto split: sum.splits verdict.splits)
qed

definition demo_stream :: "bytes list \<Rightarrow> repl_client" where
  "demo_stream chunks = \<lparr>rc_buf = [], rc_in = chunks, rc_writable = True, rc_sent = []\<rparr>"

definition demo_keepalive :: bytes where "demo_keepalive = server_bytes [Sends (Keepalive 9 True) 0 0]"

lemma demo_keepalive_arrives:
  "\<exists>c. next_replication_message (c0\<lparr>rc_buf := [], rc_in := [demo_keepalive]\<rparr>) = (Ok (Keepalive 9 True), c) \<and>
    rc_sent c = rc_sent c0 \<and> rc_writable c = rc_writable c0"
proof -
  let ?c = "c0\<lparr>rc_buf := [], rc_in := [demo_keepalive]\<rparr>"
  obtain c where c: "next_replication_message ?c = (Ok (Keepalive 9 True), c)"
    using next_message_arrives [of "[Sends (Keepalive 9 True) 0 0]" ?c "[]"] 
    by (auto simp: demo_keepalive_def message_fits_def backend_bytes_def message_bytes_def)
  then show ?thesis
    using next_message_facts(1) [OF c] msg_loop_writable [of stream_handler "()" ?c] by (simp add: next_replication_message_def)
qed

lemma demo_eof: "next_replication_message (demo_stream []) = (Err ConnClosed, demo_stream [])"
  by (subst next_replication_message_def, subst msg_loop.simps) (simp add: read_message_def demo_stream_def try_parse_def)

definition demo_task :: "repl_client \<Rightarrow> cdc_loop" where
  "demo_task c =
     \<lparr>cl_client = c, cl_log = (log_create 1000)\<lparr>fl_next_seq := 6\<rparr>,
      cl_adapter = \<lparr>ca_decoder = decoder_new, ca_server = \<lparr>cs_answers = [Some \<lparr>an_body = [], an_summary = None\<rparr>], cs_trace = []\<rparr>\<rparr>,
      cl_applied = 3, cl_reconnect = None, cl_ledger = lines_new, cl_visibility = 3, cl_window = [new_frame 5 6 7 True []],
      cl_commits = 1, cl_started = 0\<rparr>"

definition demo_xi :: cdc_input where
  "demo_xi = \<lparr>xi_event = Message, xi_at = 1, xi_now = 0, xi_io = io_fine, xi_flush_io = io_fine, xi_ledger = [], xi_candidate = None\<rparr>"

definition task_js :: "ledger_entry json_codec" where "task_js = \<lparr>js_print = (\<lambda>_. []), js_parse = (\<lambda>_. None)\<rparr>"

lemma visibility_overtakes_window_witness:
  "\<exists>st'. cdc_step (\<lambda>_. 0) (\<lambda>_. []) (\<lambda>b. b) task_js demo_xi (demo_task (demo_stream [demo_keepalive])) = (Ok True, st') \<and>
     cl_visibility st' = 9 \<and> map fr_lsn_end (cl_window st') = [7] \<and> cl_applied st' = 3"
proof -
  let ?st = "demo_task (demo_stream [demo_keepalive])"
  obtain c where c: "next_replication_message (cl_client ?st) = (Ok (Keepalive 9 True), c)" "rc_writable c"
    using demo_keepalive_arrives [of "demo_stream []"] by (auto simp: demo_task_def demo_stream_def)
  have a: "xi_event demo_xi = Message" "cs_answers (ca_server (cl_adapter ?st)) = Some \<lparr>an_body = [], an_summary = None\<rparr> # []"
    "cl_visibility ?st < 9" "new_frame 5 6 7 True [] \<in> set (cl_window ?st)" by (simp_all add: demo_xi_def demo_task_def)
  from visibility_overtakes_window [OF a(1) c a(2,3,4), where crc = "\<lambda>_. 0" and ser = "\<lambda>_. []" and sha = "\<lambda>b. b" and js = task_js]
  obtain st' where "cdc_step (\<lambda>_. 0) (\<lambda>_. []) (\<lambda>b. b) task_js demo_xi ?st = (Ok True, st')" "cl_visibility st' = 9"
      "cl_window st' = cl_window ?st" "cl_applied st' = cl_applied ?st"
    by (auto simp: new_frame_def)
  moreover have "map fr_lsn_end (cl_window ?st) = [7]" "cl_applied ?st = 3" by (simp_all add: demo_task_def new_frame_def)
  ultimately show ?thesis by (intro exI [of _ st']) simp
qed

lemma reconnect_applies_nothing_witness:
  "\<exists>r st'. run_cdc (\<lambda>_. 0) (\<lambda>_. []) (\<lambda>b. b) task_js [demo_xi, demo_xi] (demo_task (demo_stream [])) = (r, st') \<and>
     cl_applied st' = 3 \<and> (\<forall>y \<in> set (trace_of st'). \<exists>l. fst y = \<lparr>cr_params = [], cr_body = visibility_statement l\<rparr>)"
proof -
  let ?st = "demo_task (demo_stream [])"
  obtain r st' where run: "run_cdc (\<lambda>_. 0) (\<lambda>_. []) (\<lambda>b. b) task_js [demo_xi, demo_xi] ?st = (r, st')" by fastforce
  have a: "xi_event demo_xi = Message" "next_replication_message (cl_client ?st) = (Err ConnClosed, demo_stream [])"
    "fl_next_seq (cl_log ?st) \<noteq> 0" "cl_window ?st \<noteq> [] \<longrightarrow> fr_seq (hd (cl_window ?st)) \<noteq> 0"
    "unat (fl_next_seq (cl_log ?st)) + length [demo_xi] < 2 ^ 64"
    by (simp_all add: demo_xi_def demo_task_def demo_eof new_frame_def)
  from reconnect_applies_nothing [OF a run] show ?thesis using run by (auto simp: demo_task_def trace_of_def)
qed

definition demo_both :: bytes where "demo_both = [87, 0, 0, 0, 4]"

lemma demo_parses: "try_parse [] = Ok (None, [])" "try_parse demo_both = Ok (Some \<lparr>bm_tag = 87, bm_body = []\<rparr>, [])"
  by (simp_all add: try_parse_def demo_both_def get_u32_def take_n_def from_be_def)

lemma read_eof: "read_message \<lparr>rc_buf = [], rc_in = [] # rest, rc_writable = w, rc_sent = ms\<rparr> =
    (Err ConnClosed, \<lparr>rc_buf = [], rc_in = rest, rc_writable = w, rc_sent = ms\<rparr>)"
  by (simp add: read_message_def demo_parses)

lemma read_both: "read_message \<lparr>rc_buf = [], rc_in = [demo_both, k], rc_writable = w, rc_sent = ms\<rparr> =
    (Ok \<lparr>bm_tag = 87, bm_body = []\<rparr>, \<lparr>rc_buf = [], rc_in = [k], rc_writable = w, rc_sent = ms\<rparr>)"
proof -
  have "demo_both \<noteq> []" by (simp add: demo_both_def)
  then show ?thesis by (simp add: read_message_def demo_parses)
qed

lemma demo_query_fails: "\<exists>ms. simple_query sql (demo_stream [[], demo_both, demo_keepalive]) =
    (Err ConnClosed, \<lparr>rc_buf = [], rc_in = [demo_both, demo_keepalive], rc_writable = True, rc_sent = ms\<rparr>)"
  by (simp add: simple_query_def send_msg_def demo_stream_def) (subst msg_loop.simps, simp add: read_eof)

lemma demo_slot_fails: "\<exists>ms. create_slot_with_snapshot slot (demo_stream [[], demo_both, demo_keepalive]) =
    (Err ConnClosed, \<lparr>rc_buf = [], rc_in = [demo_both, demo_keepalive], rc_writable = True, rc_sent = ms\<rparr>)"
proof -
  obtain sql k where k: "create_slot_with_snapshot slot = (\<lambda>c. st_bind (simple_query sql c) k)"
    unfolding create_slot_with_snapshot_def by blast
  obtain ms where "simple_query sql (demo_stream [[], demo_both, demo_keepalive]) =
      (Err ConnClosed, \<lparr>rc_buf = [], rc_in = [demo_both, demo_keepalive], rc_writable = True, rc_sent = ms\<rparr>)"
    using demo_query_fails by blast
  then show ?thesis by (simp add: k)
qed

lemma demo_cdc_start:
  "\<exists>st ms. cdc_start (\<lambda>b. b) task_js None 4 0 (sample_server []) (demo_stream [[], demo_both, demo_keepalive]) = Ok st \<and>
     cl_applied st = 4 \<and> cl_client st = \<lparr>rc_buf = [], rc_in = [demo_keepalive], rc_writable = True, rc_sent = ms\<rparr>"
proof -
  obtain ms where c: "create_slot_with_snapshot CLICKHOUSE_CDC_SLOT (demo_stream [[], demo_both, demo_keepalive]) =
      (Err ConnClosed, \<lparr>rc_buf = [], rc_in = [demo_both, demo_keepalive], rc_writable = True, rc_sent = ms\<rparr>)"
    using demo_slot_fails by blast
  have "\<exists>ms'. start_replication slot pub lsn \<lparr>rc_buf = [], rc_in = [demo_both, demo_keepalive], rc_writable = True, rc_sent = ms\<rparr> =
      (Ok (), \<lparr>rc_buf = [], rc_in = [demo_keepalive], rc_writable = True, rc_sent = ms'\<rparr>)" for slot pub lsn
    by (simp add: start_replication_def send_msg_def del: str_Cons) (subst msg_loop.simps, simp add: read_both start_handler_def del: str_Cons)
  then obtain ms' where "start_replication CLICKHOUSE_CDC_SLOT (str ''graydb_r1_pub'') 4
      \<lparr>rc_buf = [], rc_in = [demo_both, demo_keepalive], rc_writable = True, rc_sent = ms\<rparr> =
      (Ok (), \<lparr>rc_buf = [], rc_in = [demo_keepalive], rc_writable = True, rc_sent = ms'\<rparr>)" by blast
  then show ?thesis by (simp add: cdc_start_def c ledger_resume_def ledger_refresh_def del: str_Cons)
qed

lemma cdc_acks_applied_windows_witness:
  "\<exists>st r st'. cdc_start (\<lambda>b. b) task_js None 4 0 (sample_server []) (demo_stream [[], demo_both, demo_keepalive]) = Ok st \<and>
     run_cdc (\<lambda>_. 0) (\<lambda>_. []) (\<lambda>b. b) task_js [demo_xi] st = (r, st') \<and>
     message_bytes 100 (status_body 4 False 0) \<in> set (rc_sent (cl_client st')) \<and>
     ((4 :: u64) = 4 \<or> (\<exists>commits p w q. trace_of st' = p @ w @ q \<and> window_sent (\<lambda>_. []) (\<lambda>b. b) commits w \<and> cc_lsn (last commits) = 4))"
proof -
  obtain st ms where st: "cdc_start (\<lambda>b. b) task_js None 4 0 (sample_server []) (demo_stream [[], demo_both, demo_keepalive]) = Ok st"
      "cl_applied st = 4" "cl_client st = \<lparr>rc_buf = [], rc_in = [demo_keepalive], rc_writable = True, rc_sent = ms\<rparr>"
    using demo_cdc_start by blast
  obtain c where c: "next_replication_message (cl_client st) = (Ok (Keepalive 9 True), c)" "rc_writable c"
    using demo_keepalive_arrives [of "cl_client st"] st(3) by auto
  obtain r st' where run: "run_cdc (\<lambda>_. 0) (\<lambda>_. []) (\<lambda>b. b) task_js [demo_xi] st = (r, st')" by fastforce
  let ?s = "st\<lparr>cl_reconnect := None, cl_client := c\<lparr>rc_sent := rc_sent c @ [message_bytes 100 (status_body 4 False 0)]\<rparr>\<rparr>"
  have "st' = record_visibility 9 ?s"
    using run by (simp add: cdc_step_def demo_xi_def c cdc_message_def cdc_client_def send_standby_status_def send_msg_def st(2))
  then have "cl_client st' = cl_client ?s" by (simp add: record_visibility_def cdc_server_def Let_def split: prod.splits)
  then have m: "message_bytes 100 (status_body 4 False 0) \<in> set (rc_sent (cl_client st'))" by simp
  have "rc_sent (demo_stream [[], demo_both, demo_keepalive]) = []" "\<forall>i \<in> set [demo_xi]. \<forall>c. xi_candidate i = Some c \<longrightarrow> rc_sent c = []"
    by (simp_all add: demo_stream_def demo_xi_def)
  from cdc_acks_applied_windows [OF st(1) this(1) run this(2) m] st(1) run m show ?thesis by blast
qed

end
