(* ===== verification/Oracle.thy ===== *)
theory Oracle
  imports ClickHouse Workload "HOL-Library.Product_Lexorder"
begin

text \<open>
  \<open>crates/graydb-r1/src/oracle.rs\<close>: the oracle that replays the committed transactions in memory, keeps the versions of
  every row, and answers the five queries and the comparison with another oracle at any position. The bytes
  of operations as JSON, SHA-256 and the debug form of a string are parameters. Sums are \<open>i64\<close> and wrap as
  a release build does.
\<close>

section \<open>State\<close>

record tenant_state =
  ot_region :: rstr

record customer_state =
  oc_tenant :: u64
  oc_segment :: rstr
  oc_email_domain :: rstr
  oc_profile :: rstr
  oc_created :: i64
  oc_version :: u64

record order_state =
  oo_tenant :: u64
  oo_customer :: u64
  oo_status :: rstr
  oo_channel :: rstr
  oo_amount :: i64
  oo_created :: i64
  oo_updated :: i64
  oo_attributes :: rstr
  oo_version :: u64

record event_state =
  oe_order :: u64
  oe_tenant :: u64
  oe_type :: rstr
  oe_at :: i64
  oe_metadata :: rstr
  oe_version :: u64

type_synonym 'a row_versions = "(u64 \<times> (u64 \<times> 'a option) list) list"

record ledger_oracle =
  ora_tenants :: "(u64 \<times> tenant_state) list"
  ora_customers :: "(u64 \<times> customer_state) list"
  ora_orders :: "(u64 \<times> order_state) list"
  ora_events :: "(u64 \<times> event_state) list"
  ora_order_history :: "order_state row_versions"
  ora_event_history :: "event_state row_versions"
  ora_customer_history :: "customer_state row_versions"
  ora_applied :: "(u64 \<times> rstr) list"
  ora_counts :: "(u64 \<times> u32) list"
  ora_lsn :: "(u64 \<times> u64) list"

definition oracle_new :: ledger_oracle where
  "oracle_new = \<lparr>ora_tenants = [], ora_customers = [], ora_orders = [], ora_events = [], ora_order_history = [],
     ora_event_history = [], ora_customer_history = [], ora_applied = [], ora_counts = [], ora_lsn = []\<rparr>"

definition load_tenant :: "u64 \<Rightarrow> rstr \<Rightarrow> ledger_oracle \<Rightarrow> ledger_oracle" where
  "load_tenant tenant region O' = O'\<lparr>ora_tenants := bt_insert tenant \<lparr>ot_region = region\<rparr> (ora_tenants O')\<rparr>"

definition latest_checkpoint :: "ledger_oracle \<Rightarrow> u64" where
  "latest_checkpoint O' = foldl max 0 (map snd (ora_lsn O'))"

section \<open>Applying a transaction\<close>

definition bt_remove :: "'k \<Rightarrow> ('k \<times> 'v) list \<Rightarrow> ('k \<times> 'v) list" where
  "bt_remove k m = filter (\<lambda>e. fst e \<noteq> k) m"

definition customer_of :: "app_customer \<Rightarrow> u64 \<Rightarrow> customer_state" where
  "customer_of r version =
     \<lparr>oc_tenant = ac_tenant r, oc_segment = ac_segment r, oc_email_domain = ac_email_domain r, oc_profile = ac_profile r,
      oc_created = ac_created r, oc_version = version\<rparr>"

definition order_of :: "app_order \<Rightarrow> u64 \<Rightarrow> order_state" where
  "order_of r version =
     \<lparr>oo_tenant = ao_tenant r, oo_customer = ao_customer r, oo_status = ao_status r, oo_channel = ao_channel r,
      oo_amount = ao_amount r, oo_created = ao_created r, oo_updated = ao_updated r, oo_attributes = ao_attributes r,
      oo_version = version\<rparr>"

definition event_of :: "app_event \<Rightarrow> u64 \<Rightarrow> event_state" where
  "event_of r version =
     \<lparr>oe_order = ae_order r, oe_tenant = ae_tenant r, oe_type = ae_type r, oe_at = ae_at r, oe_metadata = ae_metadata r,
      oe_version = version\<rparr>"

text \<open>An update of a row that is not there changes nothing.\<close>

fun apply_operation :: "u64 \<Rightarrow> operation \<Rightarrow> ledger_oracle \<Rightarrow> ledger_oracle" where
  "apply_operation v (InsertCustomer r) O' =
     O'\<lparr>ora_customers := bt_insert (ac_id r) (customer_of r v) (ora_customers O'),
        ora_customer_history := bt_push (ac_id r) (v, Some (customer_of r v)) (ora_customer_history O')\<rparr>"
| "apply_operation v (InsertOrder r) O' =
     O'\<lparr>ora_orders := bt_insert (ao_id r) (order_of r v) (ora_orders O'),
        ora_order_history := bt_push (ao_id r) (v, Some (order_of r v)) (ora_order_history O')\<rparr>"
| "apply_operation v (InsertOrderEvent r) O' =
     O'\<lparr>ora_events := bt_insert (ae_id r) (event_of r v) (ora_events O'),
        ora_event_history := bt_push (ae_id r) (v, Some (event_of r v)) (ora_event_history O')\<rparr>"
| "apply_operation v (UpdateCustomer r) O' =
     (case map_of (ora_customers O') (ac_id r) of
        None \<Rightarrow> O'
      | Some _ \<Rightarrow>
          O'\<lparr>ora_customers := bt_insert (ac_id r) (customer_of r v) (ora_customers O'),
             ora_customer_history := bt_push (ac_id r) (v, Some (customer_of r v)) (ora_customer_history O')\<rparr>)"
| "apply_operation v (UpdateOrder r) O' =
     (case map_of (ora_orders O') (ao_id r) of
        None \<Rightarrow> O'
      | Some _ \<Rightarrow>
          O'\<lparr>ora_orders := bt_insert (ao_id r) (order_of r v) (ora_orders O'),
             ora_order_history := bt_push (ao_id r) (v, Some (order_of r v)) (ora_order_history O')\<rparr>)"
| "apply_operation v (DeleteOrder k t) O' =
     O'\<lparr>ora_orders := bt_remove k (ora_orders O'), ora_order_history := bt_push k (v, None) (ora_order_history O')\<rparr>"
| "apply_operation v (DeleteOrderEvent k n t) O' =
     O'\<lparr>ora_events := bt_remove k (ora_events O'), ora_event_history := bt_push k (v, None) (ora_event_history O')\<rparr>"

datatype oracle_error =
    OperationHash u64
  | ReappliedDifferently u64
  | AppliedTwice u64
  | OracleGap u64 u64
  | OracleLsnOrder u64 u64 u64

text \<open>The checks come before the first change, so an error leaves the oracle as it was.\<close>

definition apply_unchecked :: "transaction_plan \<Rightarrow> u64 \<Rightarrow> ledger_oracle \<Rightarrow> oracle_error + ledger_oracle" where
  "apply_unchecked p commit_lsn O' =
     res_bind (case map_of (ora_applied O') (tp_sequence p) of
                 None \<Rightarrow> Ok ()
               | Some h \<Rightarrow> ensure (h = tp_sha p) (ReappliedDifferently (tp_sequence p))) (\<lambda>_.
     let counts = bt_insert (tp_sequence p)
           ((case map_of (ora_counts O') (tp_sequence p) of None \<Rightarrow> 0 | Some n \<Rightarrow> n) + 1) (ora_counts O');
         O' = fold (apply_operation commit_lsn) (tp_operations p) (O'\<lparr>ora_counts := counts\<rparr>)
     in Ok (O'\<lparr>ora_applied := bt_insert (tp_sequence p) (tp_sha p) (ora_applied O'),
               ora_lsn := bt_insert (tp_sequence p) commit_lsn (ora_lsn O')\<rparr>))"

definition operation_hash :: "(operation list \<Rightarrow> bytes) \<Rightarrow> (bytes \<Rightarrow> bytes) \<Rightarrow> operation list \<Rightarrow> rstr" where
  "operation_hash ser sha ops = encode_hex (sha (ser ops))"

definition next_expected :: "ledger_oracle \<Rightarrow> u64" where
  "next_expected O' = (case rev (ora_applied O') of [] \<Rightarrow> 1 | (s, _) # _ \<Rightarrow> s + 1)"

definition oracle_apply ::
    "(operation list \<Rightarrow> bytes) \<Rightarrow> (bytes \<Rightarrow> bytes) \<Rightarrow> transaction_plan \<Rightarrow> u64 \<Rightarrow> ledger_oracle \<Rightarrow> oracle_error + ledger_oracle" where
  "oracle_apply ser sha p commit_lsn O' =
     res_bind (ensure (operation_hash ser sha (tp_operations p) = tp_sha p) (OperationHash (tp_sequence p))) (\<lambda>_.
     res_bind (case map_of (ora_applied O') (tp_sequence p) of
                 None \<Rightarrow> Ok ()
               | Some h \<Rightarrow> if h = tp_sha p then Err (AppliedTwice (tp_sequence p)) else Err (ReappliedDifferently (tp_sequence p))) (\<lambda>_.
     res_bind (ensure (tp_sequence p = next_expected O') (OracleGap (tp_sequence p) (next_expected O'))) (\<lambda>_.
     res_bind (case rev (ora_lsn O') of
                 [] \<Rightarrow> Ok ()
               | (_, l) # _ \<Rightarrow> ensure (l < commit_lsn) (OracleLsnOrder (tp_sequence p) commit_lsn l)) (\<lambda>_.
     apply_unchecked p commit_lsn O'))))"

section \<open>Rows at a position\<close>

text \<open>The newest version at or below the position; a tombstone is a version without a row.\<close>

definition version_at :: "u64 \<Rightarrow> (u64 \<times> 'a option) list \<Rightarrow> (u64 \<times> 'a option) option" where
  "version_at target versions = find (\<lambda>v. fst v \<le> target) (rev versions)"

fun rows_at :: "u64 \<Rightarrow> 'a row_versions \<Rightarrow> (u64 \<times> 'a) list" where
  "rows_at target [] = []"
| "rows_at target ((k, versions) # hist) =
     (case version_at target versions of
        Some (_, Some row) \<Rightarrow> (k, row) # rows_at target hist
      | _ \<Rightarrow> rows_at target hist)"

definition orders_at :: "u64 \<Rightarrow> ledger_oracle \<Rightarrow> (u64 \<times> order_state) list" where
  "orders_at target O' = rows_at target (ora_order_history O')"

definition customers_at :: "u64 \<Rightarrow> ledger_oracle \<Rightarrow> (u64 \<times> customer_state) list" where
  "customers_at target O' = rows_at target (ora_customer_history O')"

definition events_at :: "u64 \<Rightarrow> ledger_oracle \<Rightarrow> (u64 \<times> event_state) list" where
  "events_at target O' = rows_at target (ora_event_history O')"

record row_sample =
  smp_table :: rstr
  smp_key :: u64
  smp_version :: u64
  smp_deleted :: bool
  smp_values :: "(rstr \<times> rstr) list"

definition bt_of :: "('k::linorder \<times> 'v) list \<Rightarrow> ('k \<times> 'v) list" where
  "bt_of es = fold (\<lambda>(k, v). bt_insert k v) es []"

definition tenant_sample :: "u64 \<times> tenant_state \<Rightarrow> row_sample" where
  "tenant_sample = (\<lambda>(k, t).
     \<lparr>smp_table = str ''r1.tenants'', smp_key = k, smp_version = 0, smp_deleted = False,
      smp_values = bt_of [(str ''tenant_id'', show_u64 k), (str ''region'', ot_region t)]\<rparr>)"

definition customer_values :: "u64 \<Rightarrow> customer_state \<Rightarrow> (rstr \<times> rstr) list" where
  "customer_values k c =
     bt_of [(str ''customer_id'', show_u64 k), (str ''tenant_id'', show_u64 (oc_tenant c)), (str ''segment'', oc_segment c),
       (str ''email_domain'', oc_email_domain c), (str ''profile'', oc_profile c), (str ''created_at_micros'', show_int (sint (oc_created c)))]"

definition order_values :: "u64 \<Rightarrow> order_state \<Rightarrow> (rstr \<times> rstr) list" where
  "order_values k r =
     bt_of [(str ''order_id'', show_u64 k), (str ''tenant_id'', show_u64 (oo_tenant r)), (str ''customer_id'', show_u64 (oo_customer r)),
       (str ''status'', oo_status r), (str ''channel'', oo_channel r), (str ''amount_cents'', show_int (sint (oo_amount r))),
       (str ''created_at_micros'', show_int (sint (oo_created r))), (str ''updated_at_micros'', show_int (sint (oo_updated r))),
       (str ''attributes'', oo_attributes r)]"

definition event_values :: "u64 \<Rightarrow> event_state \<Rightarrow> (rstr \<times> rstr) list" where
  "event_values k e =
     bt_of [(str ''event_id'', show_u64 k), (str ''order_id'', show_u64 (oe_order e)), (str ''tenant_id'', show_u64 (oe_tenant e)),
       (str ''event_type'', oe_type e), (str ''event_at_micros'', show_int (sint (oe_at e))), (str ''metadata'', oe_metadata e)]"

text \<open>A customer version without a row is passed over: customers are never deleted.\<close>

fun customer_samples :: "u64 \<Rightarrow> customer_state row_versions \<Rightarrow> row_sample list" where
  "customer_samples target [] = []"
| "customer_samples target ((k, versions) # hist) =
     (case version_at target versions of
        Some (v, Some c) \<Rightarrow>
          \<lparr>smp_table = str ''r1.customers'', smp_key = k, smp_version = v, smp_deleted = False, smp_values = customer_values k c\<rparr> #
          customer_samples target hist
      | _ \<Rightarrow> customer_samples target hist)"

fun order_samples :: "u64 \<Rightarrow> order_state row_versions \<Rightarrow> row_sample list" where
  "order_samples target [] = []"
| "order_samples target ((k, versions) # hist) =
     (case version_at target versions of
        None \<Rightarrow> order_samples target hist
      | Some (v, state) \<Rightarrow>
          \<lparr>smp_table = str ''r1.orders'', smp_key = k, smp_version = v, smp_deleted = (state = None),
           smp_values = (case state of Some r \<Rightarrow> order_values k r | None \<Rightarrow> [(str ''order_id'', show_u64 k)])\<rparr> #
          order_samples target hist)"

fun event_samples :: "u64 \<Rightarrow> event_state row_versions \<Rightarrow> row_sample list" where
  "event_samples target [] = []"
| "event_samples target ((k, versions) # hist) =
     (case version_at target versions of
        None \<Rightarrow> event_samples target hist
      | Some (v, state) \<Rightarrow>
          \<lparr>smp_table = str ''r1.order_events'', smp_key = k, smp_version = v, smp_deleted = (state = None),
           smp_values = (case state of Some e \<Rightarrow> event_values k e | None \<Rightarrow> [(str ''event_id'', show_u64 k)])\<rparr> #
          event_samples target hist)"

definition sample_rows_at :: "u64 \<Rightarrow> nat \<Rightarrow> ledger_oracle \<Rightarrow> row_sample list" where
  "sample_rows_at target per_table_limit O' =
     (let limit = max per_table_limit 1
      in map tenant_sample (take limit (ora_tenants O')) @ customer_samples target (take limit (ora_customer_history O')) @
         order_samples target (take limit (ora_order_history O')) @ event_samples target (take limit (ora_event_history O')))"

section \<open>The queries\<close>

definition DAY_MICROS :: i64 where "DAY_MICROS = 86400000000"

definition bt_modify :: "'k::linorder \<Rightarrow> 'v \<Rightarrow> ('v \<Rightarrow> 'v) \<Rightarrow> ('k \<times> 'v) list \<Rightarrow> ('k \<times> 'v) list" where
  "bt_modify k d f m = bt_insert k (f (case map_of m k of None \<Rightarrow> d | Some v \<Rightarrow> v)) m"

definition sum_count :: "i64 \<Rightarrow> i64 \<times> u64 \<Rightarrow> i64 \<times> u64" where
  "sum_count amount e = (fst e + amount, snd e + 1)"

definition q1_groups :: "query_parameters \<Rightarrow> (u64 \<times> order_state) list \<Rightarrow> (u64 \<times> i64 \<times> u64) list" where
  "q1_groups p orders =
     (let window_start = qp_window_end p - 7 * DAY_MICROS
      in foldl (\<lambda>groups (k, r). bt_modify (oo_customer r) (0, 0) (sum_count (oo_amount r)) groups) []
           (filter (\<lambda>(k, r). sint window_start \<le> sint (oo_created r)) orders))"

definition q2_groups :: "query_parameters \<Rightarrow> (u64 \<times> order_state) list \<Rightarrow> (rstr \<times> u64) list" where
  "q2_groups p orders =
     foldl (\<lambda>groups (k, r). bt_modify (oo_status r) 0 (\<lambda>n. n + 1) groups) []
       (filter (\<lambda>(k, r). oo_tenant r = qp_tenant p) orders)"

fun q3_groups ::
    "(u64 \<times> tenant_state) list \<Rightarrow> (u64 \<times> order_state) list \<Rightarrow> ((rstr \<times> rstr \<times> rstr) \<times> i64 \<times> u64) list \<Rightarrow>
      ((rstr \<times> rstr \<times> rstr) \<times> i64 \<times> u64) list" where
  "q3_groups tenants [] groups = groups"
| "q3_groups tenants ((k, r) # orders) groups =
     (case map_of tenants (oo_tenant r) of
        None \<Rightarrow> q3_groups tenants orders groups
      | Some t \<Rightarrow> q3_groups tenants orders
          (bt_modify (ot_region t, oo_channel r, oo_status r) (0, 0) (sum_count (oo_amount r)) groups))"

definition q4_groups :: "query_parameters \<Rightarrow> (u64 \<times> event_state) list \<Rightarrow> (rstr \<times> u64) list" where
  "q4_groups p events =
     (let window_start = qp_window_end p - DAY_MICROS
      in foldl (\<lambda>groups (k, e). bt_modify (oe_type e) 0 (\<lambda>n. n + 1) groups) []
           (filter (\<lambda>(k, e). sint window_start \<le> sint (oe_at e)) (filter (\<lambda>(k, e). oe_tenant e \<in> set (qp_tenant_set p)) events)))"

definition q5_groups :: "(u64 \<times> order_state) list \<Rightarrow> (rstr \<times> u64 \<times> i64) list" where
  "q5_groups orders =
     foldl (\<lambda>groups (k, r). bt_modify (oo_status r) (0, 0) (\<lambda>e. (fst e + 1, snd e + oo_amount r)) groups) [] orders"

definition query_at :: "query_id \<Rightarrow> query_parameters \<Rightarrow> u64 \<Rightarrow> ledger_oracle \<Rightarrow> query_result" where
  "query_at q p target O' =
     (let orders = orders_at target O'; events = events_at target O' in
      case q of
        Q1 \<Rightarrow> \<lparr>qr_columns = [str ''customer_id'', str ''sum(amount_cents)'', str ''count(*)''],
               qr_rows = map (\<lambda>(c, s, n). [Some (show_u64 c), Some (show_int (sint s)), Some (show_u64 n)]) (q1_groups p orders)\<rparr>
      | Q2 \<Rightarrow> \<lparr>qr_columns = [str ''status'', str ''count(*)''],
               qr_rows = map (\<lambda>(s, n). [Some s, Some (show_u64 n)]) (q2_groups p orders)\<rparr>
      | Q3 \<Rightarrow> \<lparr>qr_columns = [str ''region'', str ''channel'', str ''status'', str ''sum(amount_cents)'', str ''count(*)''],
               qr_rows = map (\<lambda>((g, c, t), s, n). [Some g, Some c, Some t, Some (show_int (sint s)), Some (show_u64 n)])
                 (q3_groups (ora_tenants O') orders [])\<rparr>
      | Q4 \<Rightarrow> \<lparr>qr_columns = [str ''event_type'', str ''count(*)''],
               qr_rows = map (\<lambda>(s, n). [Some s, Some (show_u64 n)]) (q4_groups p events)\<rparr>
      | Q5 \<Rightarrow> \<lparr>qr_columns = [str ''status'', str ''count(*)'', str ''sum(amount_cents)''],
               qr_rows = map (\<lambda>(t, n, s). [Some t, Some (show_u64 n), Some (show_int (sint s))]) (q5_groups orders)\<rparr>)"

section \<open>Comparing two oracles\<close>

record row_difference =
  rdf_table :: rstr
  rdf_key :: u64
  rdf_expected :: u64
  rdf_actual :: u64
  rdf_checkpoint :: u64
  rdf_detail :: rstr

record correctness_verdict =
  cv_passed :: bool
  cv_differences :: "row_difference list"
  cv_invalidations :: "run_invalidation list"

definition SEQUENCE_TABLE :: rstr where "SEQUENCE_TABLE = str ''_sequence''"

definition commit_lsn_of :: "ledger_oracle \<Rightarrow> u64 \<Rightarrow> u64" where
  "commit_lsn_of O' s = (case map_of (ora_lsn O') s of None \<Rightarrow> 0 | Some l \<Rightarrow> l)"

definition difference :: "rstr \<Rightarrow> u64 \<Rightarrow> u64 \<Rightarrow> u64 \<Rightarrow> u64 \<Rightarrow> rstr \<Rightarrow> row_difference" where
  "difference table k e a target detail =
     \<lparr>rdf_table = table, rdf_key = k, rdf_expected = e, rdf_actual = a, rdf_checkpoint = target, rdf_detail = detail\<rparr>"

definition expected_sequence :: "ledger_oracle \<Rightarrow> ledger_oracle \<Rightarrow> u64 \<Rightarrow> u64 \<times> rstr \<Rightarrow> row_difference list" where
  "expected_sequence O' C target = (\<lambda>(s, h).
     case map_of (ora_applied C) s of
       None \<Rightarrow> [difference SEQUENCE_TABLE s s 0 target (str ''missing committed sequence '' @ show_u64 s)]
     | Some h' \<Rightarrow>
         if h' \<noteq> h then [difference SEQUENCE_TABLE s s s target (str ''sequence '' @ show_u64 s @ str '' hash mismatch'')]
         else
           let e = commit_lsn_of O' s; a = commit_lsn_of C s in
           if e \<noteq> a
           then let after = (case find (\<lambda>x. snd x = a) (ora_lsn O') of None \<Rightarrow> s | Some x \<Rightarrow> fst x)
                in [difference SEQUENCE_TABLE s s after target
                      (str ''state-changing reorder: sequence '' @ show_u64 s @ str '' expected LSN '' @ show_u64 e @
                       str '', candidate LSN '' @ show_u64 a)]
           else [])"

definition candidate_sequence :: "ledger_oracle \<Rightarrow> ledger_oracle \<Rightarrow> u64 \<Rightarrow> u64 \<Rightarrow> row_difference list" where
  "candidate_sequence O' C target s =
     (if map_of (ora_applied O') s = None \<or> target < commit_lsn_of O' s
      then [difference SEQUENCE_TABLE s 0 s target (str ''duplicate or unknown sequence '' @ show_u64 s)]
      else if 1 < (case map_of (ora_counts C) s of None \<Rightarrow> 0 | Some n \<Rightarrow> n)
      then [difference SEQUENCE_TABLE s s s target (str ''sequence '' @ show_u64 s @ str '' applied multiple times'')]
      else [])"

definition both_keys :: "('k::linorder \<times> 'v) list \<Rightarrow> ('k \<times> 'w) list \<Rightarrow> 'k list" where
  "both_keys m m' = sort (remdups (map fst m @ map fst m'))"

definition compare_tenants :: "ledger_oracle \<Rightarrow> ledger_oracle \<Rightarrow> u64 \<Rightarrow> row_difference list" where
  "compare_tenants O' C target =
     concat (map (\<lambda>k.
        if map_of (ora_tenants O') k \<noteq> map_of (ora_tenants C) k
        then [difference (str ''r1.tenants'') k 0 0 target (str ''immutable tenant '' @ show_u64 k @ str '' state mismatch'')]
        else []) (both_keys (ora_tenants O') (ora_tenants C)))"

definition order_debug :: "(rstr \<Rightarrow> rstr) \<Rightarrow> order_state \<Rightarrow> rstr" where
  "order_debug dbg r = str ''('' @ dbg (oo_status r) @ str '', '' @ dbg (oo_channel r) @ str '', '' @ show_int (sint (oo_amount r)) @ str '')''"

definition compare_orders :: "(rstr \<Rightarrow> rstr) \<Rightarrow> ledger_oracle \<Rightarrow> ledger_oracle \<Rightarrow> u64 \<Rightarrow> row_difference list" where
  "compare_orders dbg O' C target =
     (let expected = orders_at target O'; actual = orders_at target C in
      concat (map (\<lambda>k.
        case (map_of expected k, map_of actual k) of
          (None, None) \<Rightarrow> []
        | (Some e, Some a) \<Rightarrow>
            if e \<noteq> a
            then [difference (str ''r1.orders'') k (oo_version e) (oo_version a) target
                    (str ''order '' @ show_u64 k @ str '' state mismatch: expected '' @ order_debug dbg e @ str '', actual '' @ order_debug dbg a)]
            else []
        | (Some e, None) \<Rightarrow>
            [difference (str ''r1.orders'') k (oo_version e) 0 target
               (str ''order '' @ show_u64 k @ str '' missing in candidate (tombstone ignored or lost)'')]
        | (None, Some a) \<Rightarrow>
            [difference (str ''r1.orders'') k 0 (oo_version a) target
               (str ''order '' @ show_u64 k @ str '' present in candidate but deleted at checkpoint'')]) (both_keys expected actual)))"

definition compare_customers :: "ledger_oracle \<Rightarrow> ledger_oracle \<Rightarrow> u64 \<Rightarrow> row_difference list" where
  "compare_customers O' C target =
     (let expected = customers_at target O'; actual = customers_at target C in
      concat (map (\<lambda>k.
        if map_of expected k \<noteq> map_of actual k
        then [difference (str ''r1.customers'') k (case map_of expected k of None \<Rightarrow> 0 | Some c \<Rightarrow> oc_version c)
                (case map_of actual k of None \<Rightarrow> 0 | Some c \<Rightarrow> oc_version c) target (str ''customer '' @ show_u64 k @ str '' state mismatch'')]
        else []) (both_keys expected actual)))"

definition compare_events :: "ledger_oracle \<Rightarrow> ledger_oracle \<Rightarrow> u64 \<Rightarrow> row_difference list" where
  "compare_events O' C target =
     (let expected = events_at target O'; actual = events_at target C in
      concat (map (\<lambda>k.
        if map_of expected k \<noteq> map_of actual k
        then [difference (str ''r1.order_events'') k (case map_of expected k of None \<Rightarrow> 0 | Some e \<Rightarrow> oe_version e)
                (case map_of actual k of None \<Rightarrow> 0 | Some e \<Rightarrow> oe_version e) target
                (str ''order_event '' @ show_u64 k @ str '' state mismatch'')]
        else []) (both_keys expected actual)))"

fun has_text :: "rstr \<Rightarrow> rstr \<Rightarrow> bool" where
  "has_text pat [] = (pat = [])"
| "has_text pat (b # bs) = (take (length pat) (b # bs) = pat \<or> has_text pat bs)"

definition query_of_key :: "u64 \<Rightarrow> query_id" where
  "query_of_key k = (if k = 0 then Q1 else if k = 1 then Q2 else if k = 2 then Q3 else if k = 3 then Q4 else Q5)"

definition reason_of :: "row_difference \<Rightarrow> run_invalidation option" where
  "reason_of d =
     (if has_text (str ''missing committed sequence'') (rdf_detail d) then Some (MissingSequence (rdf_key d))
      else if has_text (str ''multiple times'') (rdf_detail d) \<or> has_text (str ''duplicate'') (rdf_detail d)
      then Some (DuplicateSequence (rdf_key d))
      else if has_text (str ''hash mismatch'') (rdf_detail d) then Some WorkloadHashMismatch
      else if has_text (str ''reorder'') (rdf_detail d) then Some (StateChangingReorder (rdf_expected d) (rdf_actual d))
      else if has_text (str ''stale or mismatched LSN'') (rdf_detail d) then Some (StaleResult (rdf_expected d) (rdf_actual d))
      else if has_text (str ''digest'') (rdf_detail d) then Some (ResultDigestMismatch (query_of_key (rdf_key d)) (rdf_checkpoint d))
      else None)"

fun invalidations_for :: "row_difference list \<Rightarrow> run_invalidation list \<Rightarrow> run_invalidation list" where
  "invalidations_for [] out = out"
| "invalidations_for (d # ds) out =
     (case reason_of d of
        None \<Rightarrow> invalidations_for ds out
      | Some r \<Rightarrow> invalidations_for ds (if r \<in> set out then out else out @ [r]))"

definition compare_at :: "(rstr \<Rightarrow> rstr) \<Rightarrow> ledger_oracle \<Rightarrow> ledger_oracle \<Rightarrow> u64 \<Rightarrow> correctness_verdict" where
  "compare_at dbg O' C target =
     (let differences =
            concat (map (expected_sequence O' C target) (filter (\<lambda>(s, h). commit_lsn_of O' s \<le> target) (ora_applied O'))) @
            concat (map (candidate_sequence O' C target) (filter (\<lambda>s. commit_lsn_of C s \<le> target) (map fst (ora_applied C)))) @
            compare_tenants O' C target @ compare_orders dbg O' C target @ compare_customers O' C target @ compare_events O' C target
      in \<lparr>cv_passed = (differences = []), cv_differences = differences, cv_invalidations = invalidations_for differences []\<rparr>)"

definition oracle_compare :: "(rstr \<Rightarrow> rstr) \<Rightarrow> ledger_oracle \<Rightarrow> ledger_oracle \<Rightarrow> correctness_verdict" where
  "oracle_compare dbg O' C = compare_at dbg O' C (latest_checkpoint O')"

end
