(* ===== verification/OracleTables.thy ===== *)
theory OracleTables
  imports Oracle
begin

text \<open>
  What the oracle of \<open>Oracle\<close> is: its rows at a position are the table the operations up to that position leave, and its
  comparison passes exactly when the two committed prefixes are the same.
\<close>

section \<open>A table kept by versions\<close>

lemma find_snoc: "find P (xs @ [x]) = (case find P xs of None \<Rightarrow> if P x then Some x else None | Some y \<Rightarrow> Some y)"
  by (induction xs) auto

lemma version_at_Nil [simp]: "version_at t [] = None"
  by (simp add: version_at_def)

lemma version_at_snoc [simp]: "version_at t (vs @ [x]) = (if fst x \<le> t then Some x else version_at t vs)"
  by (simp add: version_at_def)

lemma rows_at_keys: "fst ` set (rows_at t hist) \<subseteq> fst ` set hist"
proof (induction hist)
  case (Cons h hist)
  then show ?case by (cases h) (auto split: option.splits)
qed simp

lemma map_of_rows_at:
  "distinct (map fst hist) \<Longrightarrow>
    map_of (rows_at t hist) k = (case map_of hist k of None \<Rightarrow> None | Some vs \<Rightarrow> (case version_at t vs of None \<Rightarrow> None | Some v \<Rightarrow> snd v))"
proof (induction hist)
  case (Cons h hist)
  obtain k' vs where h: "h = (k', vs)" by fastforce
  have "map_of (rows_at t hist) k' = None"
    using Cons.prems rows_at_keys [of t hist] h by (auto simp: map_of_eq_None_iff)
  then show ?case using Cons h by (auto split: option.splits)
qed simp

abbreviation key_sorted :: "('k::linorder \<times> 'v) list \<Rightarrow> bool" where "key_sorted m \<equiv> sorted_wrt (<) (map fst m)"

lemma keyed_distinct: "key_sorted m \<Longrightarrow> distinct (map fst m)"
  using strict_sorted_iff [of "map fst m"] by simp

lemma keyed_push: "key_sorted m \<Longrightarrow> key_sorted (bt_push k x m)"
  by (simp add: bt_push_def sorted_bt_insert)

lemma map_of_bt_remove [simp]: "map_of (bt_remove k m) = (map_of m)(k := None)"
  by (rule ext, induction m) (auto simp: bt_remove_def)

lemma map_of_bt_push: "map_of (bt_push k x m) = (map_of m)(k \<mapsto> (case map_of m k of None \<Rightarrow> [] | Some vs \<Rightarrow> vs) @ [x])"
  by (simp add: bt_push_def)

text \<open>
  The contract of a table in the oracle: an operation either leaves the table and its history alone, or writes one row, with
  one version pushed; \<open>step\<close> says what the operation means for a plain table.
\<close>

locale versioned_table =
  fixes cur :: "ledger_oracle \<Rightarrow> (u64 \<times> 'a) list"
    and hist :: "ledger_oracle \<Rightarrow> 'a row_versions"
    and step :: "u64 \<Rightarrow> operation \<Rightarrow> (u64 \<rightharpoonup> 'a) \<Rightarrow> (u64 \<rightharpoonup> 'a)"
  assumes apply_writes:
    "cur (apply_operation v op O') = cur O' \<and> hist (apply_operation v op O') = hist O' \<and> step v op (map_of (cur O')) = map_of (cur O') \<or>
     (\<exists>k x. map_of (cur (apply_operation v op O')) = (map_of (cur O'))(k := x) \<and>
        hist (apply_operation v op O') = bt_push k (v, x) (hist O') \<and> step v op (map_of (cur O')) = (map_of (cur O'))(k := x))"
    and cur_frame [simp]: "cur (O'\<lparr>ora_counts := c\<rparr>) = cur O'" "cur (O'\<lparr>ora_applied := a, ora_lsn := l\<rparr>) = cur O'"
    and hist_frame [simp]: "hist (O'\<lparr>ora_counts := c\<rparr>) = hist O'" "hist (O'\<lparr>ora_applied := a, ora_lsn := l\<rparr>) = hist O'"
begin

definition tracked :: "u64 \<Rightarrow> ledger_oracle \<Rightarrow> bool" where
  "tracked hi O' \<longleftrightarrow> key_sorted (hist O') \<and>
     (\<forall>k. map_of (hist O') k = None \<longrightarrow> map_of (cur O') k = None) \<and>
     (\<forall>k vs. map_of (hist O') k = Some vs \<longrightarrow> vs \<noteq> [] \<and> map_of (cur O') k = snd (last vs) \<and> (\<forall>x \<in> set vs. fst x \<le> hi))"

lemma tracked_mono: "tracked hi O' \<Longrightarrow> hi \<le> hi' \<Longrightarrow> tracked hi' O'"
  unfolding tracked_def using order_trans by blast

lemma tracked_current: "tracked hi O' \<Longrightarrow> hi \<le> t \<Longrightarrow> map_of (rows_at t (hist O')) = map_of (cur O')"
proof (rule ext)
  fix k assume a: "tracked hi O'" "hi \<le> t"
  then have d: "distinct (map fst (hist O'))" by (simp add: tracked_def keyed_distinct)
  show "map_of (rows_at t (hist O')) k = map_of (cur O') k"
  proof (cases "map_of (hist O') k")
    case None
    then have "map_of (cur O') k = None" using a(1) by (simp add: tracked_def)
    then show ?thesis using None by (simp add: map_of_rows_at [OF d])
  next
    case (Some vs)
    then have v: "vs \<noteq> []" "map_of (cur O') k = snd (last vs)" "\<forall>x \<in> set vs. fst x \<le> hi"
      using a(1) unfolding tracked_def by blast+
    then have "fst (last vs) \<le> t" using a(2) by (meson last_in_set order_trans)
    then have "version_at t vs = Some (last vs)"
      using version_at_snoc [of t "butlast vs" "last vs"] v(1) by simp
    then show ?thesis using Some v by (simp add: map_of_rows_at [OF d])
  qed
qed

lemma apply_tracks:
  assumes "tracked hi O'" and "hi \<le> v"
  shows "tracked v (apply_operation v op O')"
    and "map_of (rows_at t (hist (apply_operation v op O'))) =
      (if v \<le> t then step v op (map_of (rows_at t (hist O'))) else map_of (rows_at t (hist O')))"
proof -
  have kd: "key_sorted (hist O')" using assms(1) by (simp add: tracked_def)
  have d: "distinct (map fst (hist O'))" by (rule keyed_distinct [OF kd])
  have now: "map_of (rows_at t (hist O')) = map_of (cur O')" if "v \<le> t"
    by (rule tracked_current [OF assms(1)]) (use assms(2) that in simp)
  have "tracked v (apply_operation v op O') \<and> map_of (rows_at t (hist (apply_operation v op O'))) =
      (if v \<le> t then step v op (map_of (rows_at t (hist O'))) else map_of (rows_at t (hist O')))"
    using apply_writes [of v op O']
  proof (elim disjE exE conjE)
    assume a: "cur (apply_operation v op O') = cur O'" "hist (apply_operation v op O') = hist O'" "step v op (map_of (cur O')) = map_of (cur O')"
    have "tracked v (apply_operation v op O')" using tracked_mono [OF assms] unfolding tracked_def a(1,2) .
    then show ?thesis using a now by simp
  next
    fix k x
    assume a: "map_of (cur (apply_operation v op O')) = (map_of (cur O'))(k := x)" "hist (apply_operation v op O') = bt_push k (v, x) (hist O')"
      "step v op (map_of (cur O')) = (map_of (cur O'))(k := x)"
    have k': "key_sorted (bt_push k (v, x) (hist O'))" by (rule keyed_push [OF kd])
    have d': "distinct (map fst (bt_push k (v, x) (hist O')))" by (rule keyed_distinct [OF k'])
    have hi: "\<forall>y \<in> set vs. fst y \<le> v" if "map_of (hist O') k' = Some vs" for k' vs
      using tracked_mono [OF assms] that unfolding tracked_def by blast
    have "tracked v (apply_operation v op O')"
    proof -
      note tr = tracked_mono [OF assms, unfolded tracked_def]
      have "ys \<noteq> [] \<and> ((map_of (cur O'))(k := x)) k' = snd (last ys) \<and> (\<forall>y \<in> set ys. fst y \<le> v)"
        if "map_of (bt_push k (v, x) (hist O')) k' = Some ys" for k' ys
      proof (cases "k' = k")
        case True
        then have "ys = (case map_of (hist O') k of None \<Rightarrow> [] | Some vs \<Rightarrow> vs) @ [(v, x)]" using that by (simp add: map_of_bt_push)
        then show ?thesis using True hi [of k] by (cases "map_of (hist O') k") auto
      next
        case False
        then show ?thesis using that tr by (simp add: map_of_bt_push)
      qed
      moreover have "((map_of (cur O'))(k := x)) k' = None" if "map_of (bt_push k (v, x) (hist O')) k' = None" for k'
        using that tr by (simp add: map_of_bt_push split: if_splits)
      ultimately show ?thesis unfolding tracked_def a(1,2) using k' by blast
    qed
    moreover have "map_of (rows_at t (bt_push k (v, x) (hist O'))) = (if v \<le> t then (map_of (rows_at t (hist O')))(k := x) else map_of (rows_at t (hist O')))"
      by (rule ext) (simp add: map_of_rows_at [OF d'] map_of_rows_at [OF d] map_of_bt_push split: option.split)
    ultimately show ?thesis using a now by simp
  qed
  then show "tracked v (apply_operation v op O')"
    "map_of (rows_at t (hist (apply_operation v op O'))) =
      (if v \<le> t then step v op (map_of (rows_at t (hist O'))) else map_of (rows_at t (hist O')))" by blast+
qed

lemma fold_tracks:
  "tracked hi O' \<Longrightarrow> hi \<le> v \<Longrightarrow>
    tracked v (fold (apply_operation v) ops O') \<and>
    map_of (rows_at t (hist (fold (apply_operation v) ops O'))) =
      (if v \<le> t then fold (step v) ops (map_of (rows_at t (hist O'))) else map_of (rows_at t (hist O')))"
proof (induction ops arbitrary: O' hi)
  case Nil
  then show ?case using tracked_mono by auto
next
  case (Cons op ops)
  show ?case
    using Cons.IH [OF apply_tracks(1) [OF Cons.prems], of op] apply_tracks(2) [OF Cons.prems, of t op] by simp
qed

end

section \<open>The three tables\<close>

fun order_step :: "u64 \<Rightarrow> operation \<Rightarrow> (u64 \<rightharpoonup> order_state) \<Rightarrow> (u64 \<rightharpoonup> order_state)" where
  "order_step v (InsertOrder r) T = T(ao_id r \<mapsto> order_of r v)"
| "order_step v (UpdateOrder r) T = (if T (ao_id r) = None then T else T(ao_id r \<mapsto> order_of r v))"
| "order_step v (DeleteOrder k t) T = T(k := None)"
| "order_step v op T = T"

fun customer_step :: "u64 \<Rightarrow> operation \<Rightarrow> (u64 \<rightharpoonup> customer_state) \<Rightarrow> (u64 \<rightharpoonup> customer_state)" where
  "customer_step v (InsertCustomer r) T = T(ac_id r \<mapsto> customer_of r v)"
| "customer_step v (UpdateCustomer r) T = (if T (ac_id r) = None then T else T(ac_id r \<mapsto> customer_of r v))"
| "customer_step v op T = T"

fun event_step :: "u64 \<Rightarrow> operation \<Rightarrow> (u64 \<rightharpoonup> event_state) \<Rightarrow> (u64 \<rightharpoonup> event_state)" where
  "event_step v (InsertOrderEvent r) T = T(ae_id r \<mapsto> event_of r v)"
| "event_step v (DeleteOrderEvent k n t) T = T(k := None)"
| "event_step v op T = T"

interpretation ord: versioned_table ora_orders ora_order_history order_step
proof
  fix v op O'
  show "ora_orders (apply_operation v op O') = ora_orders O' \<and> ora_order_history (apply_operation v op O') = ora_order_history O' \<and>
      order_step v op (map_of (ora_orders O')) = map_of (ora_orders O') \<or>
     (\<exists>k x. map_of (ora_orders (apply_operation v op O')) = (map_of (ora_orders O'))(k := x) \<and>
        ora_order_history (apply_operation v op O') = bt_push k (v, x) (ora_order_history O') \<and>
        order_step v op (map_of (ora_orders O')) = (map_of (ora_orders O'))(k := x))"
    by (cases op) (auto split: option.splits)
qed auto

interpretation cus: versioned_table ora_customers ora_customer_history customer_step
proof
  fix v op O'
  show "ora_customers (apply_operation v op O') = ora_customers O' \<and> ora_customer_history (apply_operation v op O') = ora_customer_history O' \<and>
      customer_step v op (map_of (ora_customers O')) = map_of (ora_customers O') \<or>
     (\<exists>k x. map_of (ora_customers (apply_operation v op O')) = (map_of (ora_customers O'))(k := x) \<and>
        ora_customer_history (apply_operation v op O') = bt_push k (v, x) (ora_customer_history O') \<and>
        customer_step v op (map_of (ora_customers O')) = (map_of (ora_customers O'))(k := x))"
    by (cases op) (auto split: option.splits)
qed auto

interpretation evt: versioned_table ora_events ora_event_history event_step
proof
  fix v op O'
  show "ora_events (apply_operation v op O') = ora_events O' \<and> ora_event_history (apply_operation v op O') = ora_event_history O' \<and>
      event_step v op (map_of (ora_events O')) = map_of (ora_events O') \<or>
     (\<exists>k x. map_of (ora_events (apply_operation v op O')) = (map_of (ora_events O'))(k := x) \<and>
        ora_event_history (apply_operation v op O') = bt_push k (v, x) (ora_event_history O') \<and>
        event_step v op (map_of (ora_events O')) = (map_of (ora_events O'))(k := x))"
    by (cases op) (auto split: option.splits)
qed auto

end
