(* ===== verification/OracleCompare.thy ===== *)
theory OracleCompare
  imports OracleTables
begin

text \<open>
  The oracle of a whole ledger: its rows at a position, and that its comparison with another oracle passes exactly when
  the two were given the same committed transactions up to that position.
\<close>

section \<open>The oracle of a ledger\<close>

type_synonym committed_ledger = "(transaction_plan \<times> u64) list"

fun oracle_run ::
    "(operation list \<Rightarrow> bytes) \<Rightarrow> (bytes \<Rightarrow> bytes) \<Rightarrow> committed_ledger \<Rightarrow> ledger_oracle \<Rightarrow> oracle_error + ledger_oracle" where
  "oracle_run ser sha [] O' = Ok O'"
| "oracle_run ser sha ((p, l) # txs) O' = res_bind (oracle_apply ser sha p l O') (oracle_run ser sha txs)"

definition loaded_oracle :: "(u64 \<times> rstr) list \<Rightarrow> ledger_oracle" where
  "loaded_oracle tenants = fold (\<lambda>(k, r). load_tenant k r) tenants oracle_new"

lemma oracle_run_snoc: "oracle_run ser sha (txs @ [(p, l)]) O' = res_bind (oracle_run ser sha txs O') (oracle_apply ser sha p l)"
proof (induction txs arbitrary: O')
  case Nil
  then show ?case by (cases "oracle_apply ser sha p l O'") auto
next
  case (Cons x txs)
  then show ?case by (cases x; cases "oracle_apply ser sha (fst x) (snd x) O'") auto
qed

text \<open>The ledger as the oracle records it, and the tables its operations leave at a position.\<close>

abbreviation entries :: "committed_ledger \<Rightarrow> (u64 \<times> rstr \<times> u64) list" where
  "entries txs \<equiv> map (\<lambda>(p, l). (tp_sequence p, tp_sha p, l)) txs"

definition committed_by :: "u64 \<Rightarrow> committed_ledger \<Rightarrow> committed_ledger" where
  "committed_by t txs = filter (\<lambda>(p, l). l \<le> t) txs"

definition run_ledger :: "(u64 \<Rightarrow> operation \<Rightarrow> (u64 \<rightharpoonup> 'a) \<Rightarrow> (u64 \<rightharpoonup> 'a)) \<Rightarrow> committed_ledger \<Rightarrow> (u64 \<rightharpoonup> 'a)" where
  "run_ledger step txs = fold (\<lambda>(p, l). fold (step l) (tp_operations p)) txs Map.empty"

lemma run_ledger_snoc: "run_ledger step (txs @ [(p, l)]) = fold (step l) (tp_operations p) (run_ledger step txs)"
  by (simp add: run_ledger_def)

definition last_lsn :: "committed_ledger \<Rightarrow> u64" where
  "last_lsn txs = (if txs = [] then 0 else snd (last txs))"

definition books :: "(operation list \<Rightarrow> bytes) \<Rightarrow> (bytes \<Rightarrow> bytes) \<Rightarrow> committed_ledger \<Rightarrow> ledger_oracle \<Rightarrow> bool" where
  "books ser sha txs O' \<longleftrightarrow>
     ora_applied O' = map (\<lambda>(p, l). (tp_sequence p, tp_sha p)) txs \<and>
     ora_lsn O' = map (\<lambda>(p, l). (tp_sequence p, l)) txs \<and>
     (\<forall>k. map_of (ora_counts O') k = (if k \<in> (tp_sequence \<circ> fst) ` set txs then Some 1 else None)) \<and>
     sorted_wrt (<) (map snd txs) \<and> map (unat \<circ> tp_sequence \<circ> fst) txs = [1..<Suc (length txs)] \<and>
     (\<forall>x \<in> set txs. operation_hash ser sha (tp_operations (fst x)) = tp_sha (fst x))"

lemma fold_frame:
  "ora_tenants (fold (apply_operation v) ops O') = ora_tenants O' \<and> ora_applied (fold (apply_operation v) ops O') = ora_applied O' \<and>
   ora_counts (fold (apply_operation v) ops O') = ora_counts O' \<and> ora_lsn (fold (apply_operation v) ops O') = ora_lsn O'"
proof (induction ops arbitrary: O')
  case (Cons op ops)
  then show ?case by (cases op) (auto split: option.splits)
qed simp

lemma bt_insert_last: "\<forall>e \<in> set m. fst e < k \<Longrightarrow> bt_insert k v m = m @ [(k, v)]"
  by (induction m) (auto)

lemma loaded_oracle_is:
  "\<exists>T. loaded_oracle ts = oracle_new\<lparr>ora_tenants := T\<rparr> \<and> key_sorted T \<and>
     (\<forall>k. map_of T k = map_option (\<lambda>r. \<lparr>ot_region = r\<rparr>) (map_of (rev ts) k))"
proof (induction ts rule: rev_induct)
  case Nil
  have "oracle_new = oracle_new\<lparr>ora_tenants := []\<rparr>" by (simp add: oracle_new_def)
  then show ?case by (auto simp: loaded_oracle_def)
next
  case (snoc x ts)
  obtain j r where x: "x = (j, r)" by (cases x)
  obtain T where T: "loaded_oracle ts = oracle_new\<lparr>ora_tenants := T\<rparr>" "key_sorted T"
      "\<forall>k. map_of T k = map_option (\<lambda>r. \<lparr>ot_region = r\<rparr>) (map_of (rev ts) k)" using snoc by blast
  have "loaded_oracle (ts @ [x]) = load_tenant j r (loaded_oracle ts)" by (simp add: loaded_oracle_def x)
  then have "loaded_oracle (ts @ [x]) = oracle_new\<lparr>ora_tenants := bt_insert j \<lparr>ot_region = r\<rparr> T\<rparr>"
    by (simp add: T(1) load_tenant_def)
  then show ?case using T(2,3) by (intro exI [of _ "bt_insert j \<lparr>ot_region = r\<rparr> T"]) (auto simp: x sorted_bt_insert)
qed

lemma oracle_apply_Ok:
  assumes "oracle_apply ser sha p l O' = Ok Q"
  shows "operation_hash ser sha (tp_operations p) = tp_sha p" and "map_of (ora_applied O') (tp_sequence p) = None"
    and "tp_sequence p = next_expected O'" and "ora_lsn O' = [] \<or> snd (last (ora_lsn O')) < l" and "apply_unchecked p l O' = Ok Q"
  using assms
  by (auto simp: oracle_apply_def res_bind_Ok_iff ensure_def hd_rev [symmetric] simp del: hd_rev
      split: if_splits option.splits list.splits)

definition counted :: "transaction_plan \<Rightarrow> ledger_oracle \<Rightarrow> (u64 \<times> u32) list" where
  "counted p O' = bt_insert (tp_sequence p) ((case map_of (ora_counts O') (tp_sequence p) of None \<Rightarrow> 0 | Some n \<Rightarrow> n) + 1) (ora_counts O')"

lemma apply_unchecked_Ok:
  assumes "apply_unchecked p l O' = Ok Q"
  shows "Q = (fold (apply_operation l) (tp_operations p) (O'\<lparr>ora_counts := counted p O'\<rparr>))
    \<lparr>ora_applied := bt_insert (tp_sequence p) (tp_sha p) (ora_applied O'), ora_lsn := bt_insert (tp_sequence p) l (ora_lsn O')\<rparr>"
proof -
  have "ora_applied (fold (apply_operation l) (tp_operations p) (O'\<lparr>ora_counts := counted p O'\<rparr>)) = ora_applied O'"
    "ora_lsn (fold (apply_operation l) (tp_operations p) (O'\<lparr>ora_counts := counted p O'\<rparr>)) = ora_lsn O'"
    using fold_frame [of l "tp_operations p" "O'\<lparr>ora_counts := counted p O'\<rparr>"] by simp_all
  then show ?thesis using assms by (auto simp: apply_unchecked_def res_bind_Ok_iff Let_def counted_def)
qed

lemma books_seq:
  assumes "books ser sha txs O'" and "x \<in> set txs"
  shows "unat (tp_sequence (fst x)) \<le> length txs"
proof -
  have "unat (tp_sequence (fst x)) \<in> set (map (unat \<circ> tp_sequence \<circ> fst) txs)" using assms(2) by auto
  moreover have "map (unat \<circ> tp_sequence \<circ> fst) txs = [1..<Suc (length txs)]" using assms(1) by (simp add: books_def)
  ultimately show ?thesis by (auto split: if_splits)
qed

lemma books_next:
  assumes "books ser sha txs O'" and "Suc (length txs) < 2 ^ 64"
  shows "unat (next_expected O') = Suc (length txs)"
proof (cases txs rule: rev_cases)
  case Nil
  then show ?thesis using assms(1) by (simp add: books_def next_expected_def)
next
  case (snoc ys y)
  have "map (unat \<circ> tp_sequence \<circ> fst) txs = [1..<Suc (length txs)]" using assms(1) by (simp add: books_def)
  then have "unat (tp_sequence (fst y)) = length txs" by (simp add: snoc)
  moreover have "next_expected O' = tp_sequence (fst y) + 1"
    using assms(1) by (simp add: books_def next_expected_def snoc case_prod_unfold)
  ultimately show ?thesis using assms(2) by (simp add: unat_word_ariths)
qed

lemma books_start: "books ser sha [] (loaded_oracle ts)"
  using loaded_oracle_is [of ts] by (auto simp: books_def oracle_new_def)

lemma books_step:
  assumes "books ser sha txs O'" and "Suc (length txs) < 2 ^ 64" and "oracle_apply ser sha p l O' = Ok Q"
  shows "books ser sha (txs @ [(p, l)]) Q" and "ora_tenants Q = ora_tenants O'"
proof -
  note ok = oracle_apply_Ok [OF assms(3)]
  note Q = apply_unchecked_Ok [OF ok(5)]
  note fr = fold_frame [of l "tp_operations p" "O'\<lparr>ora_counts := counted p O'\<rparr>"]
  note b = assms(1) [unfolded books_def]
  have n: "unat (tp_sequence p) = Suc (length txs)" using books_next [OF assms(1,2)] ok(3) by simp
  have less: "tp_sequence (fst x) < tp_sequence p" if "x \<in> set txs" for x
    using books_seq [OF assms(1) that] n by (simp add: word_less_nat_alt)
  have new: "tp_sequence p \<notin> (tp_sequence \<circ> fst) ` set txs" using less by fastforce
  have "ora_applied Q = map (\<lambda>(p, l). (tp_sequence p, tp_sha p)) (txs @ [(p, l)])"
    using b less by (auto simp: Q intro!: bt_insert_last)
  moreover have "ora_lsn Q = map (\<lambda>(p, l). (tp_sequence p, l)) (txs @ [(p, l)])"
    using b less by (auto simp: Q intro!: bt_insert_last)
  moreover have "\<forall>k. map_of (ora_counts Q) k = (if k \<in> (tp_sequence \<circ> fst) ` set (txs @ [(p, l)]) then Some 1 else None)"
    using b new fr by (simp add: Q counted_def)
  moreover have "sorted_wrt (<) (map snd (txs @ [(p, l)]))"
  proof -
    have "snd x < l" if "x \<in> set txs" for x
    proof -
      have "txs \<noteq> []" using that by auto
      then have "snd (last txs) < l" using ok(4) b by (auto simp: last_map case_prod_unfold)
      moreover have "snd x \<le> snd (last txs)"
        using that b by (cases txs rule: rev_cases) (auto simp: sorted_wrt_append)
      ultimately show ?thesis by simp
    qed
    then show ?thesis using b by (auto simp: sorted_wrt_append)
  qed
  moreover have "map (unat \<circ> tp_sequence \<circ> fst) (txs @ [(p, l)]) = [1..<Suc (length (txs @ [(p, l)]))]"
    using b n by simp
  moreover have "\<forall>x \<in> set (txs @ [(p, l)]). operation_hash ser sha (tp_operations (fst x)) = tp_sha (fst x)"
    using b ok(1) by auto
  ultimately show "books ser sha (txs @ [(p, l)]) Q" unfolding books_def by blast
  show "ora_tenants Q = ora_tenants O'" using fr by (simp add: Q)
qed

lemma run_books:
  "oracle_run ser sha txs (loaded_oracle ts) = Ok O' \<Longrightarrow> length txs < 2 ^ 64 \<Longrightarrow>
     books ser sha txs O' \<and> ora_tenants O' = ora_tenants (loaded_oracle ts)"
proof (induction txs arbitrary: O' rule: rev_induct)
  case Nil
  then show ?case using books_start [of ser sha ts] by auto
next
  case (snoc x txs)
  obtain p l where x: "x = (p, l)" by (cases x)
  obtain Q where Q: "oracle_run ser sha txs (loaded_oracle ts) = Ok Q" "oracle_apply ser sha p l Q = Ok O'"
    using snoc.prems(1) by (auto simp: x oracle_run_snoc res_bind_Ok_iff)
  have "books ser sha txs Q" "ora_tenants Q = ora_tenants (loaded_oracle ts)" using snoc.IH [OF Q(1)] snoc.prems(2) by simp_all
  with books_step [OF _ _ Q(2)] snoc.prems(2) show ?case by (simp add: x)
qed

section \<open>The rows at a position\<close>

context versioned_table
begin

lemma run_rows:
  "oracle_run ser sha txs (loaded_oracle ts) = Ok O' \<Longrightarrow> length txs < 2 ^ 64 \<Longrightarrow>
     cur (loaded_oracle ts) = [] \<Longrightarrow> hist (loaded_oracle ts) = [] \<Longrightarrow>
     tracked (last_lsn txs) O' \<and> (\<forall>t. map_of (rows_at t (hist O')) = run_ledger step (committed_by t txs))"
proof (induction txs arbitrary: O' rule: rev_induct)
  case Nil
  then show ?case by (simp add: tracked_def run_ledger_def committed_by_def)
next
  case (snoc x txs)
  obtain p l where x: "x = (p, l)" by (cases x)
  obtain Q where Q: "oracle_run ser sha txs (loaded_oracle ts) = Ok Q" "oracle_apply ser sha p l Q = Ok O'"
    using snoc.prems(1) by (auto simp: x oracle_run_snoc res_bind_Ok_iff)
  have ih: "tracked (last_lsn txs) Q" "\<forall>t. map_of (rows_at t (hist Q)) = run_ledger step (committed_by t txs)"
    using snoc.IH [OF Q(1)] snoc.prems by simp_all
  have b: "books ser sha txs Q" using run_books [OF Q(1)] snoc.prems(2) by simp
  note ok = oracle_apply_Ok [OF Q(2)]
  note O' = apply_unchecked_Ok [OF ok(5)]
  have le: "last_lsn txs \<le> l"
    using ok(4) b by (auto simp: last_lsn_def books_def last_map case_prod_unfold)
  have start: "tracked (last_lsn txs) (Q\<lparr>ora_counts := counted p Q\<rparr>)" using ih(1) by (simp add: tracked_def)
  have tr: "tracked l (fold (apply_operation l) (tp_operations p) (Q\<lparr>ora_counts := counted p Q\<rparr>))" and
    rows: "map_of (rows_at t (hist (fold (apply_operation l) (tp_operations p) (Q\<lparr>ora_counts := counted p Q\<rparr>)))) =
      (if l \<le> t then fold (step l) (tp_operations p) (run_ledger step (committed_by t txs)) else run_ledger step (committed_by t txs))" for t
    using fold_tracks [OF start le, of "tp_operations p" t] ih(2) by simp_all
  have "last_lsn (txs @ [x]) = l" by (simp add: last_lsn_def x)
  moreover have "tracked l O'" using tr by (simp add: O' tracked_def)
  moreover have "map_of (rows_at t (hist O')) = run_ledger step (committed_by t (txs @ [x]))" for t
    using rows [of t] by (simp add: O' committed_by_def run_ledger_snoc x)
  ultimately show ?case by simp
qed

end

theorem oracle_rows_are_the_ledger:
  assumes "oracle_run ser sha txs (loaded_oracle ts) = Ok O'" and "length txs < 2 ^ 64"
  shows "map_of (orders_at t O') = run_ledger order_step (committed_by t txs)"
    and "map_of (customers_at t O') = run_ledger customer_step (committed_by t txs)"
    and "map_of (events_at t O') = run_ledger event_step (committed_by t txs)"
  using ord.run_rows [OF assms] cus.run_rows [OF assms] evt.run_rows [OF assms] loaded_oracle_is [of ts]
  by (auto simp: orders_at_def customers_at_def events_at_def oracle_new_def)

lemma rows_at_keyed: "key_sorted h \<Longrightarrow> key_sorted (rows_at t h)"
proof (induction h)
  case (Cons x h)
  have "\<forall>e \<in> set (rows_at t h). \<exists>y \<in> set h. fst e = fst y" using rows_at_keys [of t h] by fastforce
  then have "\<forall>e \<in> set (rows_at t h). fst x < fst e" using Cons.prems by fastforce
  then show ?case using Cons by (cases x) (auto split: option.splits)
qed simp

lemma keyed_eqI:
  assumes "key_sorted m" and "key_sorted n" and "map_of m = map_of n"
  shows "m = (n :: ('k::linorder \<times> 'v) list)"
proof -
  have d: "distinct (map fst m)" "distinct (map fst n)" using keyed_distinct assms(1,2) by blast+
  have s: "set m = set n" using assms(3) d by (metis map_of_inject_set)
  have "map fst m = map fst n"
    by (rule strict_sorted_equal [OF assms(2,1)]) (simp add: s)
  moreover have "m = map (\<lambda>k. (k, the (map_of m k))) (map fst m)" "n = map (\<lambda>k. (k, the (map_of n k))) (map fst n)"
    using d by (auto simp: comp_def intro!: map_idI [symmetric])
  ultimately show ?thesis using assms(3) by metis
qed

lemma oracle_rows_keyed:
  assumes "oracle_run ser sha txs (loaded_oracle ts) = Ok O'" and "length txs < 2 ^ 64"
  shows "key_sorted (orders_at t O')" "key_sorted (events_at t O')" "key_sorted (ora_tenants O')"
  using ord.run_rows [OF assms] evt.run_rows [OF assms] loaded_oracle_is [of ts] run_books [OF assms]
  by (auto simp: orders_at_def events_at_def oracle_new_def ord.tracked_def evt.tracked_def intro: rows_at_keyed)

section \<open>The comparison\<close>

lemma concat_map_empty: "concat (map f xs) = [] \<longleftrightarrow> (\<forall>x \<in> set xs. f x = [])"
  by (induction xs) auto

lemma books_sorted:
  assumes "books ser sha txs O'"
  shows "sorted_wrt (\<lambda>x y. tp_sequence (fst x) < tp_sequence (fst y)) txs" and "distinct (map fst (ora_applied O'))"
    and "distinct (map fst (ora_lsn O'))"
proof -
  have "map (unat \<circ> tp_sequence \<circ> fst) txs = [1..<Suc (length txs)]" using assms by (simp add: books_def)
  then have "sorted_wrt (<) (map (unat \<circ> tp_sequence \<circ> fst) txs)" by (simp only: sorted_wrt_upt)
  then show s: "sorted_wrt (\<lambda>x y. tp_sequence (fst x) < tp_sequence (fst y)) txs"
    by (simp add: sorted_wrt_map word_less_nat_alt)
  have "key_sorted (ora_applied O')" "key_sorted (ora_lsn O')"
    using s assms by (simp_all add: books_def sorted_wrt_map case_prod_unfold)
  then show "distinct (map fst (ora_applied O'))" "distinct (map fst (ora_lsn O'))" using keyed_distinct by blast+
qed

lemma books_lookup:
  assumes "books ser sha txs O'" and "(p, l) \<in> set txs"
  shows "map_of (ora_applied O') (tp_sequence p) = Some (tp_sha p)" and "commit_lsn_of O' (tp_sequence p) = l"
proof -
  note d = books_sorted(2,3) [OF assms(1)]
  show "map_of (ora_applied O') (tp_sequence p) = Some (tp_sha p)"
    using d(1) assms by (intro map_of_is_SomeI) (force simp: books_def)+
  have "map_of (ora_lsn O') (tp_sequence p) = Some l"
    using d(2) assms by (intro map_of_is_SomeI) (force simp: books_def)+
  then show "commit_lsn_of O' (tp_sequence p) = l" by (simp add: commit_lsn_of_def)
qed

lemma books_applied:
  assumes "books ser sha txs O'"
  shows "map_of (ora_applied O') s = Some h \<longleftrightarrow> (\<exists>p l. (p, l) \<in> set txs \<and> tp_sequence p = s \<and> tp_sha p = h)"
proof
  assume "map_of (ora_applied O') s = Some h"
  then have "(s, h) \<in> set (ora_applied O')" by (rule map_of_SomeD)
  then show "\<exists>p l. (p, l) \<in> set txs \<and> tp_sequence p = s \<and> tp_sha p = h" using assms by (auto simp: books_def)
next
  assume "\<exists>p l. (p, l) \<in> set txs \<and> tp_sequence p = s \<and> tp_sha p = h"
  then show "map_of (ora_applied O') s = Some h" using books_lookup [OF assms] by blast
qed

lemma entries_by:
  "(s, h, l) \<in> set (entries (committed_by t txs)) \<longleftrightarrow> l \<le> t \<and> (\<exists>p. (p, l) \<in> set txs \<and> tp_sequence p = s \<and> tp_sha p = h)"
  by (force simp: committed_by_def)

lemma entries_lookup:
  assumes "books ser sha txs O'"
  shows "(s, h, l) \<in> set (entries (committed_by t txs)) \<longleftrightarrow> l \<le> t \<and> map_of (ora_applied O') s = Some h \<and> commit_lsn_of O' s = l"
  unfolding entries_by books_applied [OF assms] using books_lookup(2) [OF assms] by blast

lemma entries_sorted:
  assumes "books ser sha txs O'"
  shows "sorted_wrt (<) (entries (committed_by t txs))"
proof -
  note books_sorted(1) [OF assms]
  then have "sorted_wrt (\<lambda>x y. tp_sequence (fst x) < tp_sequence (fst y)) (committed_by t txs)"
    unfolding committed_by_def by (rule sorted_wrt_filter)
  then show ?thesis
    by (auto simp: sorted_wrt_map less_prod_def' case_prod_unfold elim!: sorted_wrt_mono_rel [rotated])
qed

text \<open>Nothing differs in the sequences exactly when the committed prefixes are the same.\<close>

lemma sequences_agree:
  assumes "books ser sha txs O'" and "books ser sha txs' C"
  shows "concat (map (expected_sequence O' C t) (filter (\<lambda>(s, h). commit_lsn_of O' s \<le> t) (ora_applied O'))) = [] \<and>
      concat (map (candidate_sequence O' C t) (filter (\<lambda>s. commit_lsn_of C s \<le> t) (map fst (ora_applied C)))) = [] \<longleftrightarrow>
    entries (committed_by t txs) = entries (committed_by t txs')" (is "?A \<and> ?B \<longleftrightarrow> _")
proof -
  note dis = books_sorted(2) [OF assms(1)] books_sorted(2) [OF assms(2)]
  let ?m = "map_of (ora_applied O')" and ?n = "map_of (ora_applied C)"
  have A: "?A \<longleftrightarrow> (\<forall>s h. ?m s = Some h \<and> commit_lsn_of O' s \<le> t \<longrightarrow> ?n s = Some h \<and> commit_lsn_of C s = commit_lsn_of O' s)"
  proof -
    have "expected_sequence O' C t (s, h) = [] \<longleftrightarrow> ?n s = Some h \<and> commit_lsn_of C s = commit_lsn_of O' s" for s h
      by (auto simp: expected_sequence_def Let_def split: option.split)
    then show ?thesis unfolding concat_map_empty by (auto simp: map_of_eq_Some_iff [OF dis(1)])
  qed
  have cnt: "map_of (ora_counts C) s = Some 1" if "?n s = Some h" for s h
    using that books_applied [OF assms(2), of s h] assms(2) unfolding books_def by force
  have B: "?B \<longleftrightarrow> (\<forall>s h. ?n s = Some h \<and> commit_lsn_of C s \<le> t \<longrightarrow> ?m s \<noteq> None \<and> commit_lsn_of O' s \<le> t)"
  proof -
    have "candidate_sequence O' C t s = [] \<longleftrightarrow> ?m s \<noteq> None \<and> commit_lsn_of O' s \<le> t" if "?n s = Some h" for s h
      using cnt [OF that] by (cases "commit_lsn_of O' s \<le> t") (simp_all add: candidate_sequence_def not_le)
    then show ?thesis unfolding concat_map_empty by (auto simp: map_of_eq_Some_iff [OF dis(2)])
  qed
  have "?A \<and> ?B \<longleftrightarrow> (\<forall>s h l. (s, h, l) \<in> set (entries (committed_by t txs)) \<longleftrightarrow> (s, h, l) \<in> set (entries (committed_by t txs')))"
    (is "_ \<longleftrightarrow> ?E")
  proof
    assume a: "?A \<and> ?B"
    have 1: "?n s = Some h \<and> commit_lsn_of C s = commit_lsn_of O' s" if "?m s = Some h" "commit_lsn_of O' s \<le> t" for s h
      using a that unfolding A by blast
    have 2: "\<exists>h'. ?m s = Some h' \<and> commit_lsn_of O' s \<le> t" if "?n s = Some h" "commit_lsn_of C s \<le> t" for s h
      using a that unfolding B by blast
    show ?E unfolding entries_lookup [OF assms(1)] entries_lookup [OF assms(2)]
      using 1 2 by fastforce
  next
    assume e: ?E
    have e': "(l \<le> t \<and> ?m s = Some h \<and> commit_lsn_of O' s = l) = (l \<le> t \<and> ?n s = Some h \<and> commit_lsn_of C s = l)" for s h l
      using e entries_lookup [OF assms(1), of s h l t] entries_lookup [OF assms(2), of s h l t] by simp
    have 1: "?n s = Some h \<and> commit_lsn_of C s = commit_lsn_of O' s" if "?m s = Some h" "commit_lsn_of O' s \<le> t" for s h
      using e' [of "commit_lsn_of O' s" s h] that by simp
    have 2: "?m s \<noteq> None \<and> commit_lsn_of O' s \<le> t" if "?n s = Some h" "commit_lsn_of C s \<le> t" for s h
      using e' [of "commit_lsn_of C s" s h] that by simp
    show "?A \<and> ?B" unfolding A B using 1 2 by blast
  qed
  also have "\<dots> \<longleftrightarrow> set (entries (committed_by t txs)) = set (entries (committed_by t txs'))"
    unfolding set_eq_iff split_paired_All by (rule refl)
  also have "\<dots> \<longleftrightarrow> entries (committed_by t txs) = entries (committed_by t txs')"
  proof
    assume "set (entries (committed_by t txs)) = set (entries (committed_by t txs'))"
    then show "entries (committed_by t txs) = entries (committed_by t txs')"
      by (rule strict_sorted_equal [OF entries_sorted [OF assms(2)] entries_sorted [OF assms(1)]])
  qed (rule arg_cong [of _ _ set])
  finally show ?thesis .
qed

text \<open>The operations behind equal hashes are equal, when the hash does not collide on them.\<close>

definition collision_free :: "(operation list \<Rightarrow> bytes) \<Rightarrow> (bytes \<Rightarrow> bytes) \<Rightarrow> committed_ledger \<Rightarrow> committed_ledger \<Rightarrow> bool" where
  "collision_free ser sha txs txs' \<longleftrightarrow>
     list_all (\<lambda>x. list_all (\<lambda>y. operation_hash ser sha (tp_operations (fst x)) = operation_hash ser sha (tp_operations (fst y)) \<longrightarrow>
        tp_operations (fst x) = tp_operations (fst y)) txs') txs"

lemma same_operations:
  assumes "entries xs = entries ys"
    and "\<And>x y. x \<in> set xs \<Longrightarrow> y \<in> set ys \<Longrightarrow> tp_sha (fst x) = tp_sha (fst y) \<Longrightarrow> tp_operations (fst x) = tp_operations (fst y)"
  shows "run_ledger step xs = run_ledger step ys"
proof -
  have "map (\<lambda>(p, l). (tp_operations p, l)) xs = map (\<lambda>(p, l). (tp_operations p, l)) ys"
    using assms
  proof (induction xs arbitrary: ys)
    case (Cons x xs)
    then obtain y zs where y: "ys = y # zs" by (cases ys) auto
    show ?case using Cons.prems Cons.IH [of zs] y by (auto simp: case_prod_unfold)
  qed simp
  moreover have "run_ledger step xs = fold (\<lambda>(ops, l). fold (step l) ops) (map (\<lambda>(p, l). (tp_operations p, l)) xs) Map.empty" for xs
    by (simp add: run_ledger_def fold_map comp_def case_prod_unfold)
  ultimately show ?thesis by metis
qed

lemma equal_rows_pass:
  assumes "map_of (orders_at t O') = map_of (orders_at t C)" "map_of (customers_at t O') = map_of (customers_at t C)"
    "map_of (events_at t O') = map_of (events_at t C)"
  shows "compare_orders dbg O' C t = [] \<and> compare_customers O' C t = [] \<and> compare_events O' C t = []"
  using assms by (simp add: compare_orders_def compare_customers_def compare_events_def Let_def split: option.split)

lemma tenants_pass: "compare_tenants O' C t = [] \<longleftrightarrow> map_of (ora_tenants O') = map_of (ora_tenants C)"
proof
  assume a: "compare_tenants O' C t = []"
  show "map_of (ora_tenants O') = map_of (ora_tenants C)"
  proof
    fix k
    show "map_of (ora_tenants O') k = map_of (ora_tenants C) k"
    proof (cases "k \<in> set (both_keys (ora_tenants O') (ora_tenants C))")
      case True
      then show ?thesis using a by (auto simp: compare_tenants_def split: if_splits)
    next
      case False
      then have "k \<notin> fst ` set (ora_tenants O')" "k \<notin> fst ` set (ora_tenants C)" by (auto simp: both_keys_def)
      then show ?thesis by (metis map_of_eq_None_iff)
    qed
  qed
qed (simp add: compare_tenants_def)

lemma loaded_tenants:
  "map_of (ora_tenants (loaded_oracle ts)) = map_of (ora_tenants (loaded_oracle ts')) \<longleftrightarrow> map_of (rev ts) = map_of (rev ts')"
proof -
  have "map_of (ora_tenants (loaded_oracle us)) k = map_option (\<lambda>r. \<lparr>ot_region = r\<rparr>) (map_of (rev us) k)" for us k
    using loaded_oracle_is [of us] by auto
  moreover have "inj (map_option (\<lambda>r. \<lparr>ot_region = r\<rparr>))" by (rule option.inj_map) (simp add: inj_def)
  ultimately show ?thesis by (simp add: fun_eq_iff inj_eq)
qed

lemma same_rows_same_answers:
  assumes "orders_at t O' = orders_at t C" "events_at t O' = events_at t C" "ora_tenants O' = ora_tenants C"
  shows "query_at q ps t O' = query_at q ps t C"
  unfolding query_at_def Let_def assms by (rule refl)

text \<open>
  C16. The comparison of two oracles is exact. Take two oracles, each loaded with tenants and given a ledger of transactions
  that it accepted. At every position the rows of each are the tables the operations of its ledger up to that position leave,
  and the comparison passes exactly when the tenants are the same and the two ledgers committed the same sequence numbers,
  with the same hashes at the same positions, up to there; when it passes, both answer every query at that
  position alike. SHA-256 is assumed not to collide on the operations of the two ledgers.
\<close>
theorem comparison_is_exact:
  assumes "oracle_run ser sha txs (loaded_oracle ts) = Ok O'" and "oracle_run ser sha txs' (loaded_oracle ts') = Ok C"
    and "length txs < 2 ^ 64" and "length txs' < 2 ^ 64" and "collision_free ser sha txs txs'"
  shows "(cv_passed (compare_at dbg O' C t) \<longleftrightarrow>
        map_of (rev ts) = map_of (rev ts') \<and> entries (committed_by t txs) = entries (committed_by t txs')) \<and>
    (cv_passed (compare_at dbg O' C t) \<longrightarrow> query_at q ps t O' = query_at q ps t C) \<and>
    map_of (orders_at t O') = run_ledger order_step (committed_by t txs) \<and>
    map_of (customers_at t O') = run_ledger customer_step (committed_by t txs) \<and>
    map_of (events_at t O') = run_ledger event_step (committed_by t txs)"
proof -
  note b = run_books [OF assms(1,3)] run_books [OF assms(2,4)]
  note rows = oracle_rows_are_the_ledger [OF assms(1,3)] oracle_rows_are_the_ledger [OF assms(2,4)]
  note keyed1 = oracle_rows_keyed [OF assms(1,3)] and keyed2 = oracle_rows_keyed [OF assms(2,4)]
  have ops: "run_ledger step (committed_by t txs) = run_ledger step (committed_by t txs')"
    if e: "entries (committed_by t txs) = entries (committed_by t txs')" for step :: "u64 \<Rightarrow> operation \<Rightarrow> (u64 \<rightharpoonup> 'a) \<Rightarrow> (u64 \<rightharpoonup> 'a)"
  proof (rule same_operations [OF e])
    fix x y assume xy: "x \<in> set (committed_by t txs)" "y \<in> set (committed_by t txs')" "tp_sha (fst x) = tp_sha (fst y)"
    then have m: "x \<in> set txs" "y \<in> set txs'" by (auto simp: committed_by_def)
    have "operation_hash ser sha (tp_operations (fst x)) = operation_hash ser sha (tp_operations (fst y))"
      using b m xy(3) by (simp add: books_def)
    then show "tp_operations (fst x) = tp_operations (fst y)"
      using assms(5) m unfolding collision_free_def list_all_iff by blast
  qed
  have tenants: "compare_tenants O' C t = [] \<longleftrightarrow> map_of (rev ts) = map_of (rev ts')"
    using b by (simp add: tenants_pass loaded_tenants)
  have pass: "cv_passed (compare_at dbg O' C t) \<longleftrightarrow>
      map_of (rev ts) = map_of (rev ts') \<and> entries (committed_by t txs) = entries (committed_by t txs')" (is "?P \<longleftrightarrow> ?T \<and> ?E")
  proof
    assume ?P
    then show "?T \<and> ?E" using tenants sequences_agree [of ser sha txs O' txs' C t] b by (simp add: compare_at_def Let_def)
  next
    assume e: "?T \<and> ?E"
    have "compare_orders dbg O' C t = [] \<and> compare_customers O' C t = [] \<and> compare_events O' C t = []"
      by (rule equal_rows_pass) (simp_all add: rows ops [OF conjunct2 [OF e]])
    then show ?P using e tenants sequences_agree [of ser sha txs O' txs' C t] b by (simp add: compare_at_def Let_def)
  qed
  have "query_at q ps t O' = query_at q ps t C" if ?P
  proof (rule same_rows_same_answers)
    have e: ?T ?E using that pass by blast+
    show "orders_at t O' = orders_at t C"
      by (rule keyed_eqI [OF keyed1(1) keyed2(1)]) (simp add: rows ops [OF e(2)])
    show "events_at t O' = events_at t C"
      by (rule keyed_eqI [OF keyed1(2) keyed2(2)]) (simp add: rows ops [OF e(2)])
    have "ora_tenants O' = ora_tenants (loaded_oracle ts)" "ora_tenants C = ora_tenants (loaded_oracle ts')" using b by simp_all
    then show "ora_tenants O' = ora_tenants C"
      using keyed_eqI [OF keyed1(3) keyed2(3)] loaded_tenants [of ts ts'] e(1) by simp
  qed
  with pass rows show ?thesis by simp
qed

section \<open>Two ledgers\<close>

definition sample_order :: app_order where
  "sample_order = \<lparr>ao_id = 100, ao_tenant = 1, ao_customer = 10, ao_status = str ''new'', ao_channel = str ''web'', ao_amount = 1000,
     ao_created = 1, ao_updated = 1, ao_attributes = []\<rparr>"

definition sample_ser :: "operation list \<Rightarrow> bytes" where
  "sample_ser ops = (case ops of [InsertOrder _] \<Rightarrow> [1] | _ \<Rightarrow> [2])"

definition sample_ledger :: committed_ledger where
  "sample_ledger =
     [(\<lparr>tp_sequence = 1, tp_time = 1, tp_operations = [InsertOrder sample_order], tp_sha = encode_hex [1]\<rparr>, 100),
      (\<lparr>tp_sequence = 2, tp_time = 2, tp_operations = [DeleteOrder 100 1], tp_sha = encode_hex [2]\<rparr>, 101)]"

text \<open>The candidate lost the delete: the comparison passes before it and fails from it on.\<close>

lemma comparison_is_exact_witness:
  "\<exists>O' C. oracle_run sample_ser (\<lambda>b. b) sample_ledger (loaded_oracle [(1, str ''eu'')]) = Ok O' \<and>
    oracle_run sample_ser (\<lambda>b. b) (take 1 sample_ledger) (loaded_oracle [(1, str ''eu'')]) = Ok C \<and>
    cv_passed (compare_at (\<lambda>s. s) O' C 100) \<and> \<not> cv_passed (compare_at (\<lambda>s. s) O' C 101) \<and> orders_at 100 O' \<noteq> []"
proof -
  let ?ts = "[(1, str ''eu'')]"
  have "is_ok (oracle_run sample_ser (\<lambda>b. b) sample_ledger (loaded_oracle ?ts))"
    "is_ok (oracle_run sample_ser (\<lambda>b. b) (take 1 sample_ledger) (loaded_oracle ?ts))" by code_simp+
  then obtain O' C where r: "oracle_run sample_ser (\<lambda>b. b) sample_ledger (loaded_oracle ?ts) = Ok O'"
    "oracle_run sample_ser (\<lambda>b. b) (take 1 sample_ledger) (loaded_oracle ?ts) = Ok C"
    by (auto simp: is_ok_def split: sum.splits)
  have len: "length sample_ledger < 2 ^ 64" "length (take 1 sample_ledger) < 2 ^ 64" by (simp_all add: sample_ledger_def)
  have cf: "collision_free sample_ser (\<lambda>b. b) sample_ledger (take 1 sample_ledger)"
    by (simp add: collision_free_def sample_ledger_def sample_ser_def operation_hash_def, code_simp)
  note th = comparison_is_exact [OF r len cf, of "\<lambda>s. s"]
  have e: "entries (committed_by 100 sample_ledger) = entries (committed_by 100 (take 1 sample_ledger))"
    "entries (committed_by 101 sample_ledger) \<noteq> entries (committed_by 101 (take 1 sample_ledger))"
    by (simp_all add: committed_by_def sample_ledger_def)
  have "run_ledger order_step (committed_by 100 sample_ledger) 100 \<noteq> None"
    by (simp add: run_ledger_def committed_by_def sample_ledger_def sample_order_def)
  moreover have "map_of (orders_at 100 O') = run_ledger order_step (committed_by 100 sample_ledger)" using th by blast
  ultimately have "map_of (orders_at 100 O') 100 \<noteq> None" by simp
  then have "orders_at 100 O' \<noteq> []" by auto
  then show ?thesis using r th [of 100] th [of 101] e by blast
qed

end
